(* ===== verification/Prelude.thy ===== *)
theory Prelude
  imports Main "HOL-Library.Word" "HOL-Library.Monad_Syntax"
begin

unbundle bit_operations_syntax

text \<open>
  Shared vocabulary of the development: the machine integers of the C++ code, memory as a
  list of bytes with bounds-checked reads and writes (an access outside the buffer, undefined
  behaviour in C++, is the value \<open>None\<close>), and the generic lemmas on lists and bytes
  that every component uses.
\<close>

section \<open>Machine integers and memory\<close>

type_synonym u8 = "8 word"
type_synonym u16 = "16 word"
type_synonym u32 = "32 word"
type_synonym u64 = "64 word"

type_synonym mem = "u8 list"

named_theorems mem_simps \<open>bounds-checked memory accesses\<close>
named_theorems byte_simps \<open>bytes and the integers they spell\<close>

text \<open>\<open>memcpy\<close> of \<open>n\<close> bytes out of a buffer, and into it.\<close>

definition rd :: "mem \<Rightarrow> nat \<Rightarrow> u8 option" where
  "rd m p = (if p < length m then Some (m ! p) else None)"

definition rd_n :: "mem \<Rightarrow> nat \<Rightarrow> nat \<Rightarrow> u8 list option" where
  "rd_n m p n = (if p + n \<le> length m then Some (take n (drop p m)) else None)"

definition wr_n :: "mem \<Rightarrow> nat \<Rightarrow> u8 list \<Rightarrow> mem option" where
  "wr_n m p bs =
     (if p + length bs \<le> length m then Some (take p m @ bs @ drop (p + length bs) m) else None)"

lemma rd_Some [mem_simps]: "p < length m \<Longrightarrow> rd m p = Some (m ! p)"
  by (simp add: rd_def)

lemma rd_n_Some [mem_simps]: "p + n \<le> length m \<Longrightarrow> rd_n m p n = Some (take n (drop p m))"
  by (simp add: rd_n_def)

lemma rd_n_length: "rd_n m p n = Some bs \<Longrightarrow> length bs = n"
  by (auto simp: rd_n_def split: if_splits)

lemma rd_n_SomeD: "rd_n m p n = Some bs \<Longrightarrow> p + n \<le> length m \<and> bs = take n (drop p m)"
  by (simp add: rd_n_def split: if_splits)

lemma wr_n_Some [mem_simps]:
  "p + length bs \<le> length m \<Longrightarrow> wr_n m p bs = Some (take p m @ bs @ drop (p + length bs) m)"
  by (simp add: wr_n_def)

lemma wr_n_length: "wr_n m p bs = Some m' \<Longrightarrow> length m' = length m"
  by (auto simp: wr_n_def split: if_splits)

text \<open>A read returns what was written there, and a write leaves the rest alone.\<close>

lemma take_drop_mid: "take (length bs) (drop (length xs) (xs @ bs @ ys)) = bs"
  by simp

lemma rd_n_wr_n_same:
  assumes "wr_n m p bs = Some m'" and "n = length bs"
  shows "rd_n m' p n = Some bs"
proof -
  from assms have b: "p + length bs \<le> length m"
    and m': "m' = take p m @ bs @ drop (p + length bs) m"
    by (auto simp: wr_n_def split: if_splits)
  show ?thesis using b by (simp add: rd_n_def m' assms(2))
qed

lemma wr_n_nth:
  assumes "wr_n m p bs = Some m'" and "i < length m"
  shows "m' ! i = (if p \<le> i \<and> i < p + length bs then bs ! (i - p) else m ! i)"
proof -
  from assms(1) have b: "p + length bs \<le> length m"
    and m': "m' = take p m @ bs @ drop (p + length bs) m"
    by (auto simp: wr_n_def split: if_splits)
  show ?thesis using b assms(2) by (auto simp: m' nth_append)
qed

lemma take_drop_eq_nthI:
  assumes "p + n \<le> length m" "p + n \<le> length m'"
    and "\<And>i. p \<le> i \<Longrightarrow> i < p + n \<Longrightarrow> m ! i = m' ! i"
  shows "take n (drop p m) = take n (drop p m')"
  using assms by (intro nth_equalityI) auto

lemma rd_n_wr_n_other:
  assumes w: "wr_n m p bs = Some m'" and d: "q + n \<le> p \<or> p + length bs \<le> q"
  shows "rd_n m' q n = rd_n m q n"
proof (cases "q + n \<le> length m")
  case True
  have l: "length m' = length m" using w by (rule wr_n_length)
  have "take n (drop q m') = take n (drop q m)"
    using True d l by (intro take_drop_eq_nthI) (auto simp: wr_n_nth [OF w])
  with True l show ?thesis by (simp add: rd_n_def)
next
  case False
  with wr_n_length [OF w] show ?thesis by (simp add: rd_n_def)
qed

section \<open>Bytes and integers\<close>

text \<open>Little-endian value of a byte sequence, and the low \<open>n\<close> bytes of a number.\<close>

fun le_nat :: "u8 list \<Rightarrow> nat" where
  "le_nat [] = 0"
| "le_nat (b # bs) = unat b + 256 * le_nat bs"

fun nat_bytes :: "nat \<Rightarrow> nat \<Rightarrow> u8 list" where
  "nat_bytes 0 x = []"
| "nat_bytes (Suc n) x = of_nat x # nat_bytes n (x div 256)"

lemma length_nat_bytes [simp]: "length (nat_bytes n x) = n"
  by (induction n arbitrary: x) auto

lemma le_nat_bound: "le_nat bs < 256 ^ length bs"
proof (induction bs)
  case Nil
  then show ?case by simp
next
  case (Cons b bs)
  have "unat b < 256" using unsigned_less [of b] by simp
  moreover have "le_nat bs + 1 \<le> 256 ^ length bs" using Cons.IH by simp
  ultimately have "unat b + 256 * le_nat bs < 256 * (le_nat bs + 1)" by simp
  also have "\<dots> \<le> 256 * 256 ^ length bs"
    using \<open>le_nat bs + 1 \<le> _\<close> by (rule mult_le_mono2)
  finally show ?case by simp
qed

lemma unat_of_nat_byte: "unat (of_nat x :: u8) = x mod 256"
  by (simp add: unat_of_nat)

lemma le_nat_nat_bytes [byte_simps]: "le_nat (nat_bytes n x) = x mod 256 ^ n"
proof (induction n arbitrary: x)
  case 0
  then show ?case by simp
next
  case (Suc n)
  have "x mod 256 + 256 * (x div 256 mod 256 ^ n) = x mod (256 * 256 ^ n)"
    by (simp add: mod_mult2_eq)
  then show ?case by (simp add: Suc.IH unat_of_nat_byte)
qed

lemma nat_bytes_le_nat [byte_simps]: "nat_bytes (length bs) (le_nat bs) = bs"
proof (induction bs)
  case Nil
  then show ?case by simp
next
  case (Cons b bs)
  have ub: "unat b < 256" using unsigned_less [of b] by simp
  have "of_nat (unat b + 256 * le_nat bs) = b"
  proof -
    have "unat (of_nat (unat b + 256 * le_nat bs) :: u8) = unat b"
      using ub by (simp only: unat_of_nat_byte) simp
    then show ?thesis by (simp only: word_unat_eq_iff)
  qed
  moreover have "(unat b + 256 * le_nat bs) div 256 = le_nat bs" using ub by simp
  ultimately show ?case using Cons.IH by simp
qed

lemma nat_bytes_mod: "nat_bytes n (x mod 256 ^ n) = nat_bytes n x"
  by (metis le_nat_nat_bytes length_nat_bytes nat_bytes_le_nat)

lemma unat_drop_bit64: "unat (drop_bit n (h :: u64)) = unat h div 2 ^ n"
proof -
  have "unat h < 2 ^ 64" by (rule order_less_le_trans [OF unsigned_less]) simp
  then show ?thesis
    by (simp add: unsigned_drop_bit_eq drop_bit_eq_div [where 'a = nat] take_bit_nat_eq_self)
qed


section \<open>Loops over a list that may fault\<close>

fun foldO :: "('a \<Rightarrow> 's \<Rightarrow> 's option) \<Rightarrow> 'a list \<Rightarrow> 's \<Rightarrow> 's option" where
  "foldO f [] s = Some s"
| "foldO f (x # xs) s = do { s' \<leftarrow> f x s; foldO f xs s' }"

lemma foldO_append: "foldO f (xs @ ys) s = do { s' \<leftarrow> foldO f xs s; foldO f ys s' }"
  by (induction xs arbitrary: s) (simp_all cong: Option.bind_cong)

lemma foldO_snoc: "foldO f (xs @ [x]) s = do { s' \<leftarrow> foldO f xs s; f x s' }"
proof -
  have "foldO f [x] s = f x s" for s by (cases "f x s") simp_all
  then show ?thesis by (simp only: foldO_append)
qed

lemma foldO_total:
  assumes "\<And>x s. x \<in> set xs \<Longrightarrow> I s \<Longrightarrow> \<exists>s'. f x s = Some s' \<and> I s'" and "I s"
  shows "\<exists>s'. foldO f xs s = Some s' \<and> I s'"
  using assms
proof (induction xs arbitrary: s)
  case Nil
  then show ?case by simp
next
  case (Cons x xs)
  then obtain s' where s': "f x s = Some s'" "I s'" by (metis list.set_intros(1))
  have "\<exists>s''. foldO f xs s' = Some s'' \<and> I s''"
    by (rule Cons.IH) (use Cons.prems(1) s'(2) in auto)
  with s' show ?case by simp
qed

lemma foldO_cong [fundef_cong]:
  assumes "xs = ys" "s = t" "\<And>x s. x \<in> set ys \<Longrightarrow> f x s = g x s"
  shows "foldO f xs s = foldO g ys t"
  using assms(3) unfolding assms(1,2) by (induction ys arbitrary: t) (auto intro!: Option.bind_cong)

section \<open>The width of a number\<close>

text \<open>\<open>std::bit_width\<close>.\<close>

fun bit_width :: "nat \<Rightarrow> nat" where
  "bit_width n = (if n = 0 then 0 else Suc (bit_width (n div 2)))"

declare bit_width.simps [simp del]

lemma bit_width_bound: "n < 2 ^ bit_width n"
proof (induction n rule: bit_width.induct)
  case (1 n)
  show ?case
  proof (cases "n = 0")
    case False
    have "bit_width n = Suc (bit_width (n div 2))" using False by (subst bit_width.simps) simp
    then show ?thesis using "1.IH" [OF False] by simp
  qed (simp add: bit_width.simps)
qed

lemma bit_width_mono: "m \<le> n \<Longrightarrow> bit_width m \<le> bit_width n"
proof (induction n arbitrary: m rule: bit_width.induct)
  case (1 n)
  show ?case
  proof (cases "m = 0")
    case False
    then have n: "n \<noteq> 0" using "1.prems" by simp
    have "bit_width m = Suc (bit_width (m div 2))" "bit_width n = Suc (bit_width (n div 2))"
      using False n by (subst bit_width.simps, simp)+
    then show ?thesis using "1.IH" [OF n div_le_mono [OF "1.prems"]] by simp
  qed (simp add: bit_width.simps)
qed

lemma bit_width_le: "n < 2 ^ k \<Longrightarrow> bit_width n \<le> k"
proof (induction k arbitrary: n)
  case 0
  then show ?case by (simp add: bit_width.simps)
next
  case (Suc k)
  then have "bit_width (n div 2) \<le> k" by (intro Suc.IH) simp
  then show ?case by (subst bit_width.simps) simp
qed

lemma bit_width_lower: "n \<noteq> 0 \<Longrightarrow> 2 ^ (bit_width n - 1) \<le> n"
proof -
  assume n: "n \<noteq> 0"
  have "\<not> n < 2 ^ (bit_width n - 1)"
  proof
    assume "n < 2 ^ (bit_width n - 1)"
    then have "bit_width n \<le> bit_width n - 1" by (rule bit_width_le)
    moreover have "bit_width n \<noteq> 0" using n by (subst bit_width.simps) simp
    ultimately show False by simp
  qed
  then show ?thesis by simp
qed

end
