(* ===== verification/Bytes.thy ===== *)
theory Bytes
  imports Prelude
begin

text \<open>
  \<^verbatim>\<open>include/itch/bytes.hpp\<close>: big-endian loads and stores of the wire fields. A load copies
  the bytes into an integer of the little-endian host (\<open>memcpy\<close>) and swaps them
  (\<open>__builtin_bswap\<close>); a load or store that leaves the buffer is \<open>None\<close>.
\<close>

section \<open>Host representation and byte swap\<close>

text \<open>The object representation of a \<open>w\<close>-bit integer on the little-endian host.\<close>

definition host_word :: "u8 list \<Rightarrow> 'w::len word" where
  "host_word bs = of_nat (le_nat bs)"

definition host_bytes :: "nat \<Rightarrow> 'w::len word \<Rightarrow> u8 list" where
  "host_bytes n w = nat_bytes n (unat w)"

definition bswap16 :: "u16 \<Rightarrow> u16" where
  "bswap16 v = host_word (rev (host_bytes 2 v))"

definition bswap32 :: "u32 \<Rightarrow> u32" where
  "bswap32 v = host_word (rev (host_bytes 4 v))"

definition bswap64 :: "u64 \<Rightarrow> u64" where
  "bswap64 v = host_word (rev (host_bytes 8 v))"

section \<open>Loads and stores\<close>

definition load_be16 :: "mem \<Rightarrow> nat \<Rightarrow> u16 option" where
  "load_be16 m p = do { v \<leftarrow> rd_n m p 2; Some (bswap16 (host_word v)) }"

definition load_be32 :: "mem \<Rightarrow> nat \<Rightarrow> u32 option" where
  "load_be32 m p = do { v \<leftarrow> rd_n m p 4; Some (bswap32 (host_word v)) }"

definition load_be64 :: "mem \<Rightarrow> nat \<Rightarrow> u64 option" where
  "load_be64 m p = do { v \<leftarrow> rd_n m p 8; Some (bswap64 (host_word v)) }"

text \<open>\<open>p - 2\<close> must be readable: below offset 2 there is no such address.\<close>

definition load_be48_overread :: "mem \<Rightarrow> nat \<Rightarrow> u64 option" where
  "load_be48_overread m p =
     (if p < 2 then None
      else do { v \<leftarrow> load_be64 m (p - 2); Some (v AND 0x0000FFFFFFFFFFFF) })"

definition load_be48 :: "mem \<Rightarrow> nat \<Rightarrow> u64 option" where
  "load_be48 m p = do {
     hi \<leftarrow> load_be16 m p;
     lo \<leftarrow> load_be32 m (p + 2);
     Some (push_bit 32 (ucast hi) OR ucast lo) }"

definition store_be16 :: "mem \<Rightarrow> nat \<Rightarrow> u16 \<Rightarrow> mem option" where
  "store_be16 m p v = wr_n m p (host_bytes 2 (bswap16 v))"

definition store_be32 :: "mem \<Rightarrow> nat \<Rightarrow> u32 \<Rightarrow> mem option" where
  "store_be32 m p v = wr_n m p (host_bytes 4 (bswap32 v))"

definition store_be64 :: "mem \<Rightarrow> nat \<Rightarrow> u64 \<Rightarrow> mem option" where
  "store_be64 m p v = wr_n m p (host_bytes 8 (bswap64 v))"

definition store_be48 :: "mem \<Rightarrow> nat \<Rightarrow> u64 \<Rightarrow> mem option" where
  "store_be48 m p v = do {
     m' \<leftarrow> store_be16 m p (ucast (drop_bit 32 v));
     store_be32 m' (p + 2) (ucast v) }"

section \<open>The big-endian value of a byte sequence\<close>

definition be_word :: "u8 list \<Rightarrow> 'w::len word" where
  "be_word bs = of_nat (le_nat (rev bs))"

definition be_bytes :: "nat \<Rightarrow> 'w::len word \<Rightarrow> u8 list" where
  "be_bytes n v = rev (nat_bytes n (unat v))"

lemma length_host_bytes [simp]: "length (host_bytes n w) = n"
  by (simp add: host_bytes_def)

lemma length_be_bytes [simp]: "length (be_bytes n w) = n"
  by (simp add: be_bytes_def)

lemma host_bytes_host_word:
  fixes w :: "'w::len word"
  assumes "length bs = n" "256 ^ n = (2::nat) ^ LENGTH('w)"
  shows "host_bytes n (host_word bs :: 'w word) = bs"
proof -
  have "unat (host_word bs :: 'w word) = le_nat bs"
    using le_nat_bound [of bs] assms by (simp add: host_word_def unat_of_nat)
  then show ?thesis using assms(1) nat_bytes_le_nat [of bs] by (simp add: host_bytes_def)
qed

lemma host_word_host_bytes:
  fixes w :: "'w::len word"
  assumes "256 ^ n = (2::nat) ^ LENGTH('w)"
  shows "host_word (host_bytes n w) = w"
  using assms by (simp add: host_word_def host_bytes_def byte_simps)

lemma bswap_load:
  "length bs = 2 \<Longrightarrow> bswap16 (host_word bs) = be_word bs"
  "length bs' = 4 \<Longrightarrow> bswap32 (host_word bs') = be_word bs'"
  "length bs'' = 8 \<Longrightarrow> bswap64 (host_word bs'') = be_word bs''"
  by (simp_all add: bswap16_def bswap32_def bswap64_def host_bytes_host_word be_word_def
      host_word_def [of "rev _"])

lemma bswap_store:
  "host_bytes 2 (bswap16 v) = be_bytes 2 v"
  "host_bytes 4 (bswap32 v') = be_bytes 4 v'"
  "host_bytes 8 (bswap64 v'') = be_bytes 8 v''"
  by (simp_all add: bswap16_def bswap32_def bswap64_def host_bytes_host_word be_bytes_def
      host_bytes_def [of _ "v"] host_bytes_def [of _ "v'"] host_bytes_def [of _ "v''"])

lemma be_word_be_bytes [byte_simps]:
  fixes v :: "'w::len word"
  assumes "256 ^ n = (2::nat) ^ LENGTH('w)"
  shows "be_word (be_bytes n v) = v"
  using assms by (simp add: be_word_def be_bytes_def byte_simps)

lemma be_bytes_be_word:
  assumes "length bs = n" "256 ^ n = (2::nat) ^ LENGTH('w::len)"
  shows "be_bytes n (be_word bs :: 'w word) = bs"
proof -
  have "unat (be_word bs :: 'w word) = le_nat (rev bs)"
    using le_nat_bound [of "rev bs"] assms by (simp add: be_word_def unat_of_nat)
  then show ?thesis
    using assms nat_bytes_le_nat [of "rev bs"] by (simp add: be_bytes_def)
qed

lemma load_be16_eq: "load_be16 m p = map_option be_word (rd_n m p 2)"
  by (cases "rd_n m p 2") (auto simp: load_be16_def bswap_load rd_n_length)

lemma load_be32_eq: "load_be32 m p = map_option be_word (rd_n m p 4)"
  by (cases "rd_n m p 4") (auto simp: load_be32_def bswap_load rd_n_length)

lemma load_be64_eq: "load_be64 m p = map_option be_word (rd_n m p 8)"
  by (cases "rd_n m p 8") (auto simp: load_be64_def bswap_load rd_n_length)

lemmas load_be_eq = load_be16_eq load_be32_eq load_be64_eq

lemma store_be_eq:
  "store_be16 m p v = wr_n m p (be_bytes 2 v)"
  "store_be32 m p v' = wr_n m p (be_bytes 4 v')"
  "store_be64 m p v'' = wr_n m p (be_bytes 8 v'')"
  by (simp_all add: store_be16_def store_be32_def store_be64_def bswap_store)

section \<open>48-bit fields\<close>

lemma le_nat_append: "le_nat (xs @ ys) = le_nat xs + 256 ^ length xs * le_nat ys"
  by (induction xs) (simp_all add: algebra_simps)

lemma unat_be_word:
  "256 ^ length bs \<le> (2::nat) ^ LENGTH('w::len) \<Longrightarrow> unat (be_word bs :: 'w word) = le_nat (rev bs)"
  using le_nat_bound [of "rev bs"] by (simp add: be_word_def unat_of_nat)

lemma push_bit_or_eq_add:
  fixes hi lo :: "'w::len word"
  assumes "unat lo < 2 ^ n"
  shows "push_bit n hi OR lo = push_bit n hi + lo"
proof -
  have "take_bit n lo = lo" using assms
    by (simp add: word_unat_eq_iff unsigned_take_bit_eq take_bit_nat_eq_self_iff)
  then have "\<And>k. bit lo k \<Longrightarrow> k < n"
    by (metis bit_take_bit_iff)
  then show ?thesis
    by (intro disjunctive_add_eq_or [symmetric] bit_eqI) (fastforce simp: bit_simps)
qed

lemma be_word_48:
  assumes "length a = 2" "length b = 4"
  shows "push_bit 32 (ucast (be_word a :: u16)) OR ucast (be_word b :: u32) = (be_word (a @ b) :: u64)"
proof -
  have b: "le_nat (rev b) < 2 ^ 32" and a: "le_nat (rev a) < 2 ^ 16"
    using le_nat_bound [of "rev b"] le_nat_bound [of "rev a"] assms by simp_all
  have "ucast (be_word b :: u32) = (of_nat (le_nat (rev b)) :: u64)"
    and "ucast (be_word a :: u16) = (of_nat (le_nat (rev a)) :: u64)"
    using a b assms by (simp_all add: word_unat_eq_iff unsigned_ucast_eq unat_be_word
        take_bit_eq_mod unat_of_nat)
  moreover have "unat (of_nat (le_nat (rev b)) :: u64) < 2 ^ 32"
    using b by (simp add: unat_of_nat)
  ultimately show ?thesis
    using assms
    by (simp only: push_bit_or_eq_add)
      (simp add: be_word_def le_nat_append push_bit_eq_mult mult.commute add.commute)
qed

lemma load_be48_eq: "load_be48 m p = map_option be_word (rd_n m p 6)"
proof (cases "p + 6 \<le> length m")
  case True
  have "take 6 (drop p m) = take 2 (drop p m) @ take 4 (drop (p + 2) m)"
    using take_add [of 2 4 "drop p m"] by (simp add: add.commute)
  with True show ?thesis
    by (simp add: load_be48_def load_be_eq mem_simps be_word_48)
next
  case False
  then show ?thesis by (simp add: load_be48_def load_be_eq rd_n_def)
qed

lemma load_be48_overread_eq:
  assumes "2 \<le> p"
  shows "load_be48_overread m p = map_option be_word (rd_n m p 6)"
proof (cases "p + 6 \<le> length m")
  case True
  let ?h = "take 2 (drop (p - 2) m)" and ?b = "take 6 (drop p m)"
  have "take 8 (drop (p - 2) m) = ?h @ ?b"
  proof -
    have "p - 2 + 2 = p" using assms by simp
    then show ?thesis using take_add [of 2 6 "drop (p - 2) m"] by (simp only: drop_drop add.commute) simp
  qed
  moreover have "(be_word (?h @ ?b) AND 0x0000FFFFFFFFFFFF :: u64) = be_word ?b"
  proof -
    have l: "length ?b = 6" "length ?h = 2" using True assms by auto
    have lt: "le_nat (rev ?b) < 2 ^ 48" using le_nat_bound [of "rev ?b"] l by simp
    have "(be_word (?h @ ?b) AND 0x0000FFFFFFFFFFFF :: u64) = take_bit 48 (be_word (?h @ ?b))"
      by (simp add: take_bit_eq_mask mask_eq_exp_minus_1)
    then have "unat (be_word (?h @ ?b) AND 0x0000FFFFFFFFFFFF :: u64)
        = unat (be_word (?h @ ?b) :: u64) mod 2 ^ 48"
      by (simp only: unsigned_take_bit_eq) (simp add: take_bit_eq_mod)
    also have "\<dots> = le_nat (rev ?b)"
      using l lt by (simp add: unat_be_word le_nat_append)
    finally show ?thesis using l by (simp add: word_unat_eq_iff unat_be_word)
  qed
  ultimately show ?thesis using True assms
    by (simp add: load_be48_overread_def load_be_eq mem_simps)
next
  case False
  with assms show ?thesis by (simp add: load_be48_overread_def load_be_eq rd_n_def)
qed

text \<open>
  Reading a 48-bit field through the over-reading load is reading its six bytes: wherever
  two readable bytes precede it, the masked 8-byte load returns what the exact load returns,
  and it leaves the buffer in exactly the same cases.
\<close>

theorem load_be48_overread_correct:
  "2 \<le> p \<Longrightarrow> load_be48_overread m p = load_be48 m p"
  by (simp add: load_be48_overread_eq load_be48_eq)

theorem load_be48_overread_correct_witness:
  "load_be48_overread [9, 9, 0, 0, 0, 0, 1, 2] 2 = load_be48 [9, 9, 0, 0, 0, 0, 1, 2] 2"
  by (rule load_be48_overread_correct) simp

section \<open>Stores, and the round trips\<close>

lemma wr_n_append:
  assumes "p + length (a @ b) \<le> length m"
  shows "do { m' \<leftarrow> wr_n m p a; wr_n m' (p + length a) b } = wr_n m p (a @ b)"
  using assms by (simp add: wr_n_def add.commute add.left_commute)

definition be48_bytes :: "u64 \<Rightarrow> u8 list" where
  "be48_bytes v = be_bytes 2 (ucast (drop_bit 32 v) :: u16) @ be_bytes 4 (ucast v :: u32)"

lemma length_be48_bytes [simp]: "length (be48_bytes v) = 6"
  by (simp add: be48_bytes_def)

lemma store_be48_eq:
  "p + 6 \<le> length m \<Longrightarrow> store_be48 m p v = wr_n m p (be48_bytes v)"
  using wr_n_append [of p "be_bytes 2 (ucast (drop_bit 32 v) :: u16)" "be_bytes 4 (ucast v :: u32)" m]
  by (simp add: store_be48_def store_be_eq be48_bytes_def)

lemma be_word_be48_bytes:
  assumes "unat v < 2 ^ 48"
  shows "be_word (be48_bytes v) = v"
proof -
  let ?hi = "ucast (drop_bit 32 v) :: u16" and ?lo = "ucast v :: u32"
  have lo: "unat (ucast ?lo :: u64) = unat v mod 2 ^ 32"
    by (simp add: unsigned_ucast_eq take_bit_eq_mod unat_mod)
  have "unat v div 2 ^ 32 < 2 ^ 16" using assms by (simp add: less_mult_imp_div_less)
  then have hi: "unat (ucast ?hi :: u64) = unat v div 2 ^ 32"
    by (simp add: unsigned_ucast_eq take_bit_eq_mod unsigned_drop_bit_eq
      drop_bit_eq_div [where 'a = nat] unat_mod)
  have "be_word (be48_bytes v) = push_bit 32 (ucast ?hi) OR (ucast ?lo :: u64)"
    by (simp add: be48_bytes_def be_word_48 [symmetric] be_word_be_bytes)
  also have "\<dots> = push_bit 32 (ucast ?hi) + ucast ?lo"
    by (rule push_bit_or_eq_add) (simp add: lo)
  also have "\<dots> = of_nat (2 ^ 32 * unat (ucast ?hi :: u64) + unat (ucast ?lo :: u64))"
    by (simp add: push_bit_eq_mult mult.commute)
  also have "\<dots> = v" by (simp only: hi lo mult_div_mod_eq) simp
  finally show ?thesis .
qed

end
