(* ===== verification/Messages.thy ===== *)
theory Messages
  imports Bytes
begin

text \<open>
  \<^verbatim>\<open>include/itch/messages.hpp\<close>: the 23 message types of ITCH 5.0 as records over the common
  header, their type bytes, lengths and field tables, and the values of a message in the
  order of its field table (what the member pointers of \<open>kFields\<close> select).
  A \<open>char\<close> is a byte; \<open>Alpha<N>\<close> is a list of \<open>N\<close> bytes.
\<close>

section \<open>Messages\<close>

type_synonym alpha = "u8 list"

record Header =
  locate :: u16
  tracking :: u16
  timestamp :: u64

definition kHeaderLength :: nat where
  "kHeaderLength = 11"

record MsgSystemEvent = Header +
  se_event_code :: u8

record MsgStockDirectory = Header +
  sd_stock :: alpha
  sd_market_category :: u8
  sd_financial_status :: u8
  sd_round_lot_size :: u32
  sd_round_lots_only :: u8
  sd_issue_classification :: u8
  sd_issue_subtype :: alpha
  sd_authenticity :: u8
  sd_short_sale_threshold :: u8
  sd_ipo_flag :: u8
  sd_luld_ref_price_tier :: u8
  sd_etp_flag :: u8
  sd_etp_leverage_factor :: u32
  sd_inverse_indicator :: u8

record MsgStockTradingAction = Header +
  ta_stock :: alpha
  ta_trading_state :: u8
  ta_reserved :: u8
  ta_reason :: alpha

record MsgRegShoRestriction = Header +
  rs_stock :: alpha
  rs_reg_sho_action :: u8

record MsgMarketParticipantPosition = Header +
  mp_mpid :: alpha
  mp_stock :: alpha
  mp_primary_market_maker :: u8
  mp_market_maker_mode :: u8
  mp_market_participant_state :: u8

record MsgMwcbDeclineLevel = Header +
  mdl_level1 :: u64
  mdl_level2 :: u64
  mdl_level3 :: u64

record MsgMwcbStatus = Header +
  mws_breached_level :: u8

record MsgIpoQuotingPeriodUpdate = Header +
  ipo_stock :: alpha
  ipo_release_time :: u32
  ipo_release_qualifier :: u8
  ipo_ipo_price :: u32

record MsgLuldAuctionCollar = Header +
  lac_stock :: alpha
  lac_reference_price :: u32
  lac_upper_price :: u32
  lac_lower_price :: u32
  lac_extension :: u32

record MsgOperationalHalt = Header +
  oh_stock :: alpha
  oh_market_code :: u8
  oh_halt_action :: u8

record MsgAddOrder = Header +
  ao_ref :: u64
  ao_side :: u8
  ao_shares :: u32
  ao_stock :: alpha
  ao_price :: u32

record MsgAddOrderMpid = Header +
  aom_ref :: u64
  aom_side :: u8
  aom_shares :: u32
  aom_stock :: alpha
  aom_price :: u32
  aom_attribution :: alpha

record MsgOrderExecuted = Header +
  oe_ref :: u64
  oe_executed_shares :: u32
  oe_match_number :: u64

record MsgOrderExecutedWithPrice = Header +
  oep_ref :: u64
  oep_executed_shares :: u32
  oep_match_number :: u64
  oep_printable :: u8
  oep_execution_price :: u32

record MsgOrderCancel = Header +
  oc_ref :: u64
  oc_cancelled_shares :: u32

record MsgOrderDelete = Header +
  od_ref :: u64

record MsgOrderReplace = Header +
  orp_original_ref :: u64
  orp_new_ref :: u64
  orp_shares :: u32
  orp_price :: u32

record MsgTrade = Header +
  tr_ref :: u64
  tr_side :: u8
  tr_shares :: u32
  tr_stock :: alpha
  tr_price :: u32
  tr_match_number :: u64

record MsgCrossTrade = Header +
  ct_shares :: u64
  ct_stock :: alpha
  ct_cross_price :: u32
  ct_match_number :: u64
  ct_cross_type :: u8

record MsgBrokenTrade = Header +
  bt_match_number :: u64

record MsgNoii = Header +
  noii_paired_shares :: u64
  noii_imbalance_shares :: u64
  noii_imbalance_direction :: u8
  noii_stock :: alpha
  noii_far_price :: u32
  noii_near_price :: u32
  noii_current_reference_price :: u32
  noii_cross_type :: u8
  noii_price_variation_indicator :: u8

record MsgRetailInterest = Header +
  ri_stock :: alpha
  ri_interest_flag :: u8

record MsgDirectListing = Header +
  dl_stock :: alpha
  dl_open_eligibility_status :: u8
  dl_min_allowable_price :: u32
  dl_max_allowable_price :: u32
  dl_near_execution_price :: u32
  dl_near_execution_time :: u64
  dl_lower_price_range_collar :: u32
  dl_upper_price_range_collar :: u32

section \<open>Type bytes, lengths and field tables\<close>

datatype ftype = FChar | FU16 | FU32 | FU64 | FAlpha nat

text \<open>A field: the member's name, its type and its wire offset.\<close>

type_synonym field = "string \<times> ftype \<times> nat"

datatype mtype =
    TSystemEvent
  | TStockDirectory
  | TStockTradingAction
  | TRegShoRestriction
  | TMarketParticipantPosition
  | TMwcbDeclineLevel
  | TMwcbStatus
  | TIpoQuotingPeriodUpdate
  | TLuldAuctionCollar
  | TOperationalHalt
  | TAddOrder
  | TAddOrderMpid
  | TOrderExecuted
  | TOrderExecutedWithPrice
  | TOrderCancel
  | TOrderDelete
  | TOrderReplace
  | TTrade
  | TCrossTrade
  | TBrokenTrade
  | TNoii
  | TRetailInterest
  | TDirectListing

datatype message =
    SystemEvent MsgSystemEvent
  | StockDirectory MsgStockDirectory
  | StockTradingAction MsgStockTradingAction
  | RegShoRestriction MsgRegShoRestriction
  | MarketParticipantPosition MsgMarketParticipantPosition
  | MwcbDeclineLevel MsgMwcbDeclineLevel
  | MwcbStatus MsgMwcbStatus
  | IpoQuotingPeriodUpdate MsgIpoQuotingPeriodUpdate
  | LuldAuctionCollar MsgLuldAuctionCollar
  | OperationalHalt MsgOperationalHalt
  | AddOrder MsgAddOrder
  | AddOrderMpid MsgAddOrderMpid
  | OrderExecuted MsgOrderExecuted
  | OrderExecutedWithPrice MsgOrderExecutedWithPrice
  | OrderCancel MsgOrderCancel
  | OrderDelete MsgOrderDelete
  | OrderReplace MsgOrderReplace
  | Trade MsgTrade
  | CrossTrade MsgCrossTrade
  | BrokenTrade MsgBrokenTrade
  | Noii MsgNoii
  | RetailInterest MsgRetailInterest
  | DirectListing MsgDirectListing

fun kType :: "mtype \<Rightarrow> u8" where
  "kType TSystemEvent = 0x53" \<comment> \<open>S\<close>
| "kType TStockDirectory = 0x52" \<comment> \<open>R\<close>
| "kType TStockTradingAction = 0x48" \<comment> \<open>H\<close>
| "kType TRegShoRestriction = 0x59" \<comment> \<open>Y\<close>
| "kType TMarketParticipantPosition = 0x4C" \<comment> \<open>L\<close>
| "kType TMwcbDeclineLevel = 0x56" \<comment> \<open>V\<close>
| "kType TMwcbStatus = 0x57" \<comment> \<open>W\<close>
| "kType TIpoQuotingPeriodUpdate = 0x4B" \<comment> \<open>K\<close>
| "kType TLuldAuctionCollar = 0x4A" \<comment> \<open>J\<close>
| "kType TOperationalHalt = 0x68" \<comment> \<open>h\<close>
| "kType TAddOrder = 0x41" \<comment> \<open>A\<close>
| "kType TAddOrderMpid = 0x46" \<comment> \<open>F\<close>
| "kType TOrderExecuted = 0x45" \<comment> \<open>E\<close>
| "kType TOrderExecutedWithPrice = 0x43" \<comment> \<open>C\<close>
| "kType TOrderCancel = 0x58" \<comment> \<open>X\<close>
| "kType TOrderDelete = 0x44" \<comment> \<open>D\<close>
| "kType TOrderReplace = 0x55" \<comment> \<open>U\<close>
| "kType TTrade = 0x50" \<comment> \<open>P\<close>
| "kType TCrossTrade = 0x51" \<comment> \<open>Q\<close>
| "kType TBrokenTrade = 0x42" \<comment> \<open>B\<close>
| "kType TNoii = 0x49" \<comment> \<open>I\<close>
| "kType TRetailInterest = 0x4E" \<comment> \<open>N\<close>
| "kType TDirectListing = 0x4F" \<comment> \<open>O\<close>

fun kLength :: "mtype \<Rightarrow> nat" where
  "kLength TSystemEvent = 12"
| "kLength TStockDirectory = 39"
| "kLength TStockTradingAction = 25"
| "kLength TRegShoRestriction = 20"
| "kLength TMarketParticipantPosition = 26"
| "kLength TMwcbDeclineLevel = 35"
| "kLength TMwcbStatus = 12"
| "kLength TIpoQuotingPeriodUpdate = 28"
| "kLength TLuldAuctionCollar = 35"
| "kLength TOperationalHalt = 21"
| "kLength TAddOrder = 36"
| "kLength TAddOrderMpid = 40"
| "kLength TOrderExecuted = 31"
| "kLength TOrderExecutedWithPrice = 36"
| "kLength TOrderCancel = 23"
| "kLength TOrderDelete = 19"
| "kLength TOrderReplace = 35"
| "kLength TTrade = 44"
| "kLength TCrossTrade = 40"
| "kLength TBrokenTrade = 19"
| "kLength TNoii = 50"
| "kLength TRetailInterest = 20"
| "kLength TDirectListing = 48"

fun kFields :: "mtype \<Rightarrow> field list" where
  "kFields TSystemEvent =
     [(''event_code'', FChar, 11)]"
| "kFields TStockDirectory =
     [(''stock'', FAlpha 8, 11), (''market_category'', FChar, 19),
      (''financial_status'', FChar, 20), (''round_lot_size'', FU32, 21),
      (''round_lots_only'', FChar, 25), (''issue_classification'', FChar, 26),
      (''issue_subtype'', FAlpha 2, 27), (''authenticity'', FChar, 29),
      (''short_sale_threshold'', FChar, 30), (''ipo_flag'', FChar, 31),
      (''luld_ref_price_tier'', FChar, 32), (''etp_flag'', FChar, 33),
      (''etp_leverage_factor'', FU32, 34), (''inverse_indicator'', FChar, 38)]"
| "kFields TStockTradingAction =
     [(''stock'', FAlpha 8, 11), (''trading_state'', FChar, 19), (''reserved'', FChar, 20),
      (''reason'', FAlpha 4, 21)]"
| "kFields TRegShoRestriction =
     [(''stock'', FAlpha 8, 11), (''reg_sho_action'', FChar, 19)]"
| "kFields TMarketParticipantPosition =
     [(''mpid'', FAlpha 4, 11), (''stock'', FAlpha 8, 15),
      (''primary_market_maker'', FChar, 23), (''market_maker_mode'', FChar, 24),
      (''market_participant_state'', FChar, 25)]"
| "kFields TMwcbDeclineLevel =
     [(''level1'', FU64, 11), (''level2'', FU64, 19), (''level3'', FU64, 27)]"
| "kFields TMwcbStatus =
     [(''breached_level'', FChar, 11)]"
| "kFields TIpoQuotingPeriodUpdate =
     [(''stock'', FAlpha 8, 11), (''release_time'', FU32, 19),
      (''release_qualifier'', FChar, 23), (''ipo_price'', FU32, 24)]"
| "kFields TLuldAuctionCollar =
     [(''stock'', FAlpha 8, 11), (''reference_price'', FU32, 19), (''upper_price'', FU32, 23),
      (''lower_price'', FU32, 27), (''extension'', FU32, 31)]"
| "kFields TOperationalHalt =
     [(''stock'', FAlpha 8, 11), (''market_code'', FChar, 19), (''halt_action'', FChar, 20)]"
| "kFields TAddOrder =
     [(''ref'', FU64, 11), (''side'', FChar, 19), (''shares'', FU32, 20),
      (''stock'', FAlpha 8, 24), (''price'', FU32, 32)]"
| "kFields TAddOrderMpid =
     [(''ref'', FU64, 11), (''side'', FChar, 19), (''shares'', FU32, 20),
      (''stock'', FAlpha 8, 24), (''price'', FU32, 32), (''attribution'', FAlpha 4, 36)]"
| "kFields TOrderExecuted =
     [(''ref'', FU64, 11), (''executed_shares'', FU32, 19), (''match_number'', FU64, 23)]"
| "kFields TOrderExecutedWithPrice =
     [(''ref'', FU64, 11), (''executed_shares'', FU32, 19), (''match_number'', FU64, 23),
      (''printable'', FChar, 31), (''execution_price'', FU32, 32)]"
| "kFields TOrderCancel =
     [(''ref'', FU64, 11), (''cancelled_shares'', FU32, 19)]"
| "kFields TOrderDelete =
     [(''ref'', FU64, 11)]"
| "kFields TOrderReplace =
     [(''original_ref'', FU64, 11), (''new_ref'', FU64, 19), (''shares'', FU32, 27),
      (''price'', FU32, 31)]"
| "kFields TTrade =
     [(''ref'', FU64, 11), (''side'', FChar, 19), (''shares'', FU32, 20),
      (''stock'', FAlpha 8, 24), (''price'', FU32, 32), (''match_number'', FU64, 36)]"
| "kFields TCrossTrade =
     [(''shares'', FU64, 11), (''stock'', FAlpha 8, 19), (''cross_price'', FU32, 27),
      (''match_number'', FU64, 31), (''cross_type'', FChar, 39)]"
| "kFields TBrokenTrade =
     [(''match_number'', FU64, 11)]"
| "kFields TNoii =
     [(''paired_shares'', FU64, 11), (''imbalance_shares'', FU64, 19),
      (''imbalance_direction'', FChar, 27), (''stock'', FAlpha 8, 28),
      (''far_price'', FU32, 36), (''near_price'', FU32, 40),
      (''current_reference_price'', FU32, 44), (''cross_type'', FChar, 48),
      (''price_variation_indicator'', FChar, 49)]"
| "kFields TRetailInterest =
     [(''stock'', FAlpha 8, 11), (''interest_flag'', FChar, 19)]"
| "kFields TDirectListing =
     [(''stock'', FAlpha 8, 11), (''open_eligibility_status'', FChar, 19),
      (''min_allowable_price'', FU32, 20), (''max_allowable_price'', FU32, 24),
      (''near_execution_price'', FU32, 28), (''near_execution_time'', FU64, 32),
      (''lower_price_range_collar'', FU32, 40), (''upper_price_range_collar'', FU32, 44)]"

definition AllMessages :: "mtype list" where
  "AllMessages =
    [TSystemEvent, TStockDirectory, TStockTradingAction, TRegShoRestriction,
     TMarketParticipantPosition, TMwcbDeclineLevel, TMwcbStatus, TIpoQuotingPeriodUpdate,
     TLuldAuctionCollar, TOperationalHalt, TAddOrder, TAddOrderMpid, TOrderExecuted,
     TOrderExecutedWithPrice, TOrderCancel, TOrderDelete, TOrderReplace, TTrade, TCrossTrade,
     TBrokenTrade, TNoii, TRetailInterest, TDirectListing]"

section \<open>Member access in table order\<close>

datatype fval = VChar u8 | VU16 u16 | VU32 u32 | VU64 u64 | VAlpha alpha

fun type_of_val :: "fval \<Rightarrow> ftype" where
  "type_of_val (VChar _) = FChar"
| "type_of_val (VU16 _) = FU16"
| "type_of_val (VU32 _) = FU32"
| "type_of_val (VU64 _) = FU64"
| "type_of_val (VAlpha bs) = FAlpha (length bs)"

fun mtype_of :: "message \<Rightarrow> mtype" where
  "mtype_of (SystemEvent m) = TSystemEvent"
| "mtype_of (StockDirectory m) = TStockDirectory"
| "mtype_of (StockTradingAction m) = TStockTradingAction"
| "mtype_of (RegShoRestriction m) = TRegShoRestriction"
| "mtype_of (MarketParticipantPosition m) = TMarketParticipantPosition"
| "mtype_of (MwcbDeclineLevel m) = TMwcbDeclineLevel"
| "mtype_of (MwcbStatus m) = TMwcbStatus"
| "mtype_of (IpoQuotingPeriodUpdate m) = TIpoQuotingPeriodUpdate"
| "mtype_of (LuldAuctionCollar m) = TLuldAuctionCollar"
| "mtype_of (OperationalHalt m) = TOperationalHalt"
| "mtype_of (AddOrder m) = TAddOrder"
| "mtype_of (AddOrderMpid m) = TAddOrderMpid"
| "mtype_of (OrderExecuted m) = TOrderExecuted"
| "mtype_of (OrderExecutedWithPrice m) = TOrderExecutedWithPrice"
| "mtype_of (OrderCancel m) = TOrderCancel"
| "mtype_of (OrderDelete m) = TOrderDelete"
| "mtype_of (OrderReplace m) = TOrderReplace"
| "mtype_of (Trade m) = TTrade"
| "mtype_of (CrossTrade m) = TCrossTrade"
| "mtype_of (BrokenTrade m) = TBrokenTrade"
| "mtype_of (Noii m) = TNoii"
| "mtype_of (RetailInterest m) = TRetailInterest"
| "mtype_of (DirectListing m) = TDirectListing"

fun header_of :: "message \<Rightarrow> Header" where
  "header_of (SystemEvent m) = Header.truncate m"
| "header_of (StockDirectory m) = Header.truncate m"
| "header_of (StockTradingAction m) = Header.truncate m"
| "header_of (RegShoRestriction m) = Header.truncate m"
| "header_of (MarketParticipantPosition m) = Header.truncate m"
| "header_of (MwcbDeclineLevel m) = Header.truncate m"
| "header_of (MwcbStatus m) = Header.truncate m"
| "header_of (IpoQuotingPeriodUpdate m) = Header.truncate m"
| "header_of (LuldAuctionCollar m) = Header.truncate m"
| "header_of (OperationalHalt m) = Header.truncate m"
| "header_of (AddOrder m) = Header.truncate m"
| "header_of (AddOrderMpid m) = Header.truncate m"
| "header_of (OrderExecuted m) = Header.truncate m"
| "header_of (OrderExecutedWithPrice m) = Header.truncate m"
| "header_of (OrderCancel m) = Header.truncate m"
| "header_of (OrderDelete m) = Header.truncate m"
| "header_of (OrderReplace m) = Header.truncate m"
| "header_of (Trade m) = Header.truncate m"
| "header_of (CrossTrade m) = Header.truncate m"
| "header_of (BrokenTrade m) = Header.truncate m"
| "header_of (Noii m) = Header.truncate m"
| "header_of (RetailInterest m) = Header.truncate m"
| "header_of (DirectListing m) = Header.truncate m"

fun vals_of :: "message \<Rightarrow> fval list" where
  "vals_of (SystemEvent m) =
     [VChar (se_event_code m)]"
| "vals_of (StockDirectory m) =
     [VAlpha (sd_stock m), VChar (sd_market_category m), VChar (sd_financial_status m),
      VU32 (sd_round_lot_size m), VChar (sd_round_lots_only m),
      VChar (sd_issue_classification m), VAlpha (sd_issue_subtype m),
      VChar (sd_authenticity m), VChar (sd_short_sale_threshold m), VChar (sd_ipo_flag m),
      VChar (sd_luld_ref_price_tier m), VChar (sd_etp_flag m), VU32 (sd_etp_leverage_factor m),
      VChar (sd_inverse_indicator m)]"
| "vals_of (StockTradingAction m) =
     [VAlpha (ta_stock m), VChar (ta_trading_state m), VChar (ta_reserved m),
      VAlpha (ta_reason m)]"
| "vals_of (RegShoRestriction m) =
     [VAlpha (rs_stock m), VChar (rs_reg_sho_action m)]"
| "vals_of (MarketParticipantPosition m) =
     [VAlpha (mp_mpid m), VAlpha (mp_stock m), VChar (mp_primary_market_maker m),
      VChar (mp_market_maker_mode m), VChar (mp_market_participant_state m)]"
| "vals_of (MwcbDeclineLevel m) =
     [VU64 (mdl_level1 m), VU64 (mdl_level2 m), VU64 (mdl_level3 m)]"
| "vals_of (MwcbStatus m) =
     [VChar (mws_breached_level m)]"
| "vals_of (IpoQuotingPeriodUpdate m) =
     [VAlpha (ipo_stock m), VU32 (ipo_release_time m), VChar (ipo_release_qualifier m),
      VU32 (ipo_ipo_price m)]"
| "vals_of (LuldAuctionCollar m) =
     [VAlpha (lac_stock m), VU32 (lac_reference_price m), VU32 (lac_upper_price m),
      VU32 (lac_lower_price m), VU32 (lac_extension m)]"
| "vals_of (OperationalHalt m) =
     [VAlpha (oh_stock m), VChar (oh_market_code m), VChar (oh_halt_action m)]"
| "vals_of (AddOrder m) =
     [VU64 (ao_ref m), VChar (ao_side m), VU32 (ao_shares m), VAlpha (ao_stock m),
      VU32 (ao_price m)]"
| "vals_of (AddOrderMpid m) =
     [VU64 (aom_ref m), VChar (aom_side m), VU32 (aom_shares m), VAlpha (aom_stock m),
      VU32 (aom_price m), VAlpha (aom_attribution m)]"
| "vals_of (OrderExecuted m) =
     [VU64 (oe_ref m), VU32 (oe_executed_shares m), VU64 (oe_match_number m)]"
| "vals_of (OrderExecutedWithPrice m) =
     [VU64 (oep_ref m), VU32 (oep_executed_shares m), VU64 (oep_match_number m),
      VChar (oep_printable m), VU32 (oep_execution_price m)]"
| "vals_of (OrderCancel m) =
     [VU64 (oc_ref m), VU32 (oc_cancelled_shares m)]"
| "vals_of (OrderDelete m) =
     [VU64 (od_ref m)]"
| "vals_of (OrderReplace m) =
     [VU64 (orp_original_ref m), VU64 (orp_new_ref m), VU32 (orp_shares m), VU32 (orp_price m)]"
| "vals_of (Trade m) =
     [VU64 (tr_ref m), VChar (tr_side m), VU32 (tr_shares m), VAlpha (tr_stock m),
      VU32 (tr_price m), VU64 (tr_match_number m)]"
| "vals_of (CrossTrade m) =
     [VU64 (ct_shares m), VAlpha (ct_stock m), VU32 (ct_cross_price m),
      VU64 (ct_match_number m), VChar (ct_cross_type m)]"
| "vals_of (BrokenTrade m) =
     [VU64 (bt_match_number m)]"
| "vals_of (Noii m) =
     [VU64 (noii_paired_shares m), VU64 (noii_imbalance_shares m),
      VChar (noii_imbalance_direction m), VAlpha (noii_stock m), VU32 (noii_far_price m),
      VU32 (noii_near_price m), VU32 (noii_current_reference_price m),
      VChar (noii_cross_type m), VChar (noii_price_variation_indicator m)]"
| "vals_of (RetailInterest m) =
     [VAlpha (ri_stock m), VChar (ri_interest_flag m)]"
| "vals_of (DirectListing m) =
     [VAlpha (dl_stock m), VChar (dl_open_eligibility_status m),
      VU32 (dl_min_allowable_price m), VU32 (dl_max_allowable_price m),
      VU32 (dl_near_execution_price m), VU64 (dl_near_execution_time m),
      VU32 (dl_lower_price_range_collar m), VU32 (dl_upper_price_range_collar m)]"

fun build :: "mtype \<Rightarrow> Header \<Rightarrow> fval list \<Rightarrow> message option" where
  "build TSystemEvent h vs = (case vs of
     [VChar event_code] \<Rightarrow>
        Some (SystemEvent \<lparr>locate = locate h, tracking = tracking h, timestamp = timestamp h,
          se_event_code = event_code\<rparr>)
     | _ \<Rightarrow> None)"
| "build TStockDirectory h vs = (case vs of
     [VAlpha stock, VChar market_category, VChar financial_status, VU32 round_lot_size,
      VChar round_lots_only, VChar issue_classification, VAlpha issue_subtype,
      VChar authenticity, VChar short_sale_threshold, VChar ipo_flag,
      VChar luld_ref_price_tier, VChar etp_flag, VU32 etp_leverage_factor,
      VChar inverse_indicator] \<Rightarrow>
        Some (StockDirectory \<lparr>locate = locate h, tracking = tracking h, timestamp = timestamp h,
          sd_stock = stock, sd_market_category = market_category,
          sd_financial_status = financial_status, sd_round_lot_size = round_lot_size,
          sd_round_lots_only = round_lots_only, sd_issue_classification = issue_classification,
          sd_issue_subtype = issue_subtype, sd_authenticity = authenticity,
          sd_short_sale_threshold = short_sale_threshold, sd_ipo_flag = ipo_flag,
          sd_luld_ref_price_tier = luld_ref_price_tier, sd_etp_flag = etp_flag,
          sd_etp_leverage_factor = etp_leverage_factor,
          sd_inverse_indicator = inverse_indicator\<rparr>)
     | _ \<Rightarrow> None)"
| "build TStockTradingAction h vs = (case vs of
     [VAlpha stock, VChar trading_state, VChar reserved, VAlpha reason] \<Rightarrow>
        Some (StockTradingAction \<lparr>locate = locate h, tracking = tracking h, timestamp = timestamp h,
          ta_stock = stock, ta_trading_state = trading_state, ta_reserved = reserved,
          ta_reason = reason\<rparr>)
     | _ \<Rightarrow> None)"
| "build TRegShoRestriction h vs = (case vs of
     [VAlpha stock, VChar reg_sho_action] \<Rightarrow>
        Some (RegShoRestriction \<lparr>locate = locate h, tracking = tracking h, timestamp = timestamp h,
          rs_stock = stock, rs_reg_sho_action = reg_sho_action\<rparr>)
     | _ \<Rightarrow> None)"
| "build TMarketParticipantPosition h vs = (case vs of
     [VAlpha mpid, VAlpha stock, VChar primary_market_maker, VChar market_maker_mode,
      VChar market_participant_state] \<Rightarrow>
        Some (MarketParticipantPosition \<lparr>locate = locate h, tracking = tracking h, timestamp = timestamp h,
          mp_mpid = mpid, mp_stock = stock, mp_primary_market_maker = primary_market_maker,
          mp_market_maker_mode = market_maker_mode,
          mp_market_participant_state = market_participant_state\<rparr>)
     | _ \<Rightarrow> None)"
| "build TMwcbDeclineLevel h vs = (case vs of
     [VU64 level1, VU64 level2, VU64 level3] \<Rightarrow>
        Some (MwcbDeclineLevel \<lparr>locate = locate h, tracking = tracking h, timestamp = timestamp h,
          mdl_level1 = level1, mdl_level2 = level2, mdl_level3 = level3\<rparr>)
     | _ \<Rightarrow> None)"
| "build TMwcbStatus h vs = (case vs of
     [VChar breached_level] \<Rightarrow>
        Some (MwcbStatus \<lparr>locate = locate h, tracking = tracking h, timestamp = timestamp h,
          mws_breached_level = breached_level\<rparr>)
     | _ \<Rightarrow> None)"
| "build TIpoQuotingPeriodUpdate h vs = (case vs of
     [VAlpha stock, VU32 release_time, VChar release_qualifier, VU32 ipo_price] \<Rightarrow>
        Some (IpoQuotingPeriodUpdate \<lparr>locate = locate h, tracking = tracking h, timestamp = timestamp h,
          ipo_stock = stock, ipo_release_time = release_time,
          ipo_release_qualifier = release_qualifier, ipo_ipo_price = ipo_price\<rparr>)
     | _ \<Rightarrow> None)"
| "build TLuldAuctionCollar h vs = (case vs of
     [VAlpha stock, VU32 reference_price, VU32 upper_price, VU32 lower_price,
      VU32 extension] \<Rightarrow>
        Some (LuldAuctionCollar \<lparr>locate = locate h, tracking = tracking h, timestamp = timestamp h,
          lac_stock = stock, lac_reference_price = reference_price,
          lac_upper_price = upper_price, lac_lower_price = lower_price,
          lac_extension = extension\<rparr>)
     | _ \<Rightarrow> None)"
| "build TOperationalHalt h vs = (case vs of
     [VAlpha stock, VChar market_code, VChar halt_action] \<Rightarrow>
        Some (OperationalHalt \<lparr>locate = locate h, tracking = tracking h, timestamp = timestamp h,
          oh_stock = stock, oh_market_code = market_code, oh_halt_action = halt_action\<rparr>)
     | _ \<Rightarrow> None)"
| "build TAddOrder h vs = (case vs of
     [VU64 ref, VChar side, VU32 shares, VAlpha stock, VU32 price] \<Rightarrow>
        Some (AddOrder \<lparr>locate = locate h, tracking = tracking h, timestamp = timestamp h,
          ao_ref = ref, ao_side = side, ao_shares = shares, ao_stock = stock,
          ao_price = price\<rparr>)
     | _ \<Rightarrow> None)"
| "build TAddOrderMpid h vs = (case vs of
     [VU64 ref, VChar side, VU32 shares, VAlpha stock, VU32 price,
      VAlpha attribution] \<Rightarrow>
        Some (AddOrderMpid \<lparr>locate = locate h, tracking = tracking h, timestamp = timestamp h,
          aom_ref = ref, aom_side = side, aom_shares = shares, aom_stock = stock,
          aom_price = price, aom_attribution = attribution\<rparr>)
     | _ \<Rightarrow> None)"
| "build TOrderExecuted h vs = (case vs of
     [VU64 ref, VU32 executed_shares, VU64 match_number] \<Rightarrow>
        Some (OrderExecuted \<lparr>locate = locate h, tracking = tracking h, timestamp = timestamp h,
          oe_ref = ref, oe_executed_shares = executed_shares,
          oe_match_number = match_number\<rparr>)
     | _ \<Rightarrow> None)"
| "build TOrderExecutedWithPrice h vs = (case vs of
     [VU64 ref, VU32 executed_shares, VU64 match_number, VChar printable,
      VU32 execution_price] \<Rightarrow>
        Some (OrderExecutedWithPrice \<lparr>locate = locate h, tracking = tracking h, timestamp = timestamp h,
          oep_ref = ref, oep_executed_shares = executed_shares,
          oep_match_number = match_number, oep_printable = printable,
          oep_execution_price = execution_price\<rparr>)
     | _ \<Rightarrow> None)"
| "build TOrderCancel h vs = (case vs of
     [VU64 ref, VU32 cancelled_shares] \<Rightarrow>
        Some (OrderCancel \<lparr>locate = locate h, tracking = tracking h, timestamp = timestamp h,
          oc_ref = ref, oc_cancelled_shares = cancelled_shares\<rparr>)
     | _ \<Rightarrow> None)"
| "build TOrderDelete h vs = (case vs of
     [VU64 ref] \<Rightarrow>
        Some (OrderDelete \<lparr>locate = locate h, tracking = tracking h, timestamp = timestamp h,
          od_ref = ref\<rparr>)
     | _ \<Rightarrow> None)"
| "build TOrderReplace h vs = (case vs of
     [VU64 original_ref, VU64 new_ref, VU32 shares, VU32 price] \<Rightarrow>
        Some (OrderReplace \<lparr>locate = locate h, tracking = tracking h, timestamp = timestamp h,
          orp_original_ref = original_ref, orp_new_ref = new_ref, orp_shares = shares,
          orp_price = price\<rparr>)
     | _ \<Rightarrow> None)"
| "build TTrade h vs = (case vs of
     [VU64 ref, VChar side, VU32 shares, VAlpha stock, VU32 price,
      VU64 match_number] \<Rightarrow>
        Some (Trade \<lparr>locate = locate h, tracking = tracking h, timestamp = timestamp h,
          tr_ref = ref, tr_side = side, tr_shares = shares, tr_stock = stock, tr_price = price,
          tr_match_number = match_number\<rparr>)
     | _ \<Rightarrow> None)"
| "build TCrossTrade h vs = (case vs of
     [VU64 shares, VAlpha stock, VU32 cross_price, VU64 match_number,
      VChar cross_type] \<Rightarrow>
        Some (CrossTrade \<lparr>locate = locate h, tracking = tracking h, timestamp = timestamp h,
          ct_shares = shares, ct_stock = stock, ct_cross_price = cross_price,
          ct_match_number = match_number, ct_cross_type = cross_type\<rparr>)
     | _ \<Rightarrow> None)"
| "build TBrokenTrade h vs = (case vs of
     [VU64 match_number] \<Rightarrow>
        Some (BrokenTrade \<lparr>locate = locate h, tracking = tracking h, timestamp = timestamp h,
          bt_match_number = match_number\<rparr>)
     | _ \<Rightarrow> None)"
| "build TNoii h vs = (case vs of
     [VU64 paired_shares, VU64 imbalance_shares, VChar imbalance_direction, VAlpha stock,
      VU32 far_price, VU32 near_price, VU32 current_reference_price, VChar cross_type,
      VChar price_variation_indicator] \<Rightarrow>
        Some (Noii \<lparr>locate = locate h, tracking = tracking h, timestamp = timestamp h,
          noii_paired_shares = paired_shares, noii_imbalance_shares = imbalance_shares,
          noii_imbalance_direction = imbalance_direction, noii_stock = stock,
          noii_far_price = far_price, noii_near_price = near_price,
          noii_current_reference_price = current_reference_price, noii_cross_type = cross_type,
          noii_price_variation_indicator = price_variation_indicator\<rparr>)
     | _ \<Rightarrow> None)"
| "build TRetailInterest h vs = (case vs of
     [VAlpha stock, VChar interest_flag] \<Rightarrow>
        Some (RetailInterest \<lparr>locate = locate h, tracking = tracking h, timestamp = timestamp h,
          ri_stock = stock, ri_interest_flag = interest_flag\<rparr>)
     | _ \<Rightarrow> None)"
| "build TDirectListing h vs = (case vs of
     [VAlpha stock, VChar open_eligibility_status, VU32 min_allowable_price,
      VU32 max_allowable_price, VU32 near_execution_price, VU64 near_execution_time,
      VU32 lower_price_range_collar, VU32 upper_price_range_collar] \<Rightarrow>
        Some (DirectListing \<lparr>locate = locate h, tracking = tracking h, timestamp = timestamp h,
          dl_stock = stock, dl_open_eligibility_status = open_eligibility_status,
          dl_min_allowable_price = min_allowable_price,
          dl_max_allowable_price = max_allowable_price,
          dl_near_execution_price = near_execution_price,
          dl_near_execution_time = near_execution_time,
          dl_lower_price_range_collar = lower_price_range_collar,
          dl_upper_price_range_collar = upper_price_range_collar\<rparr>)
     | _ \<Rightarrow> None)"

text \<open>
  Symbol with trailing spaces trimmed: \<open>n\<close> counts down while the last character kept is a
  space.
\<close>

fun trim_len :: "alpha \<Rightarrow> nat \<Rightarrow> nat" where
  "trim_len a 0 = 0"
| "trim_len a (Suc n) = (if a ! n = 0x20 then trim_len a n else Suc n)"

definition trimmed :: "alpha \<Rightarrow> u8 list" where
  "trimmed a = take (trim_len a (length a)) a"

end
