(* ===== verification/Codec.thy ===== *)
theory Codec
  imports Messages
begin

text \<open>
  The generic field codec of \<^verbatim>\<open>include/itch/messages.hpp\<close>: \<open>decode\<close> and \<open>encode\<close> driven by
  the field tables, the static assertion that the fields tile each message, the length table,
  and the proof that coding is a byte-exact round trip for all 23 types.
\<close>

section \<open>Field codec\<close>

text \<open>\<open>sizeof\<close> of a member.\<close>

fun fsize :: "ftype \<Rightarrow> nat" where
  "fsize FChar = 1"
| "fsize FU16 = 2"
| "fsize FU32 = 4"
| "fsize FU64 = 8"
| "fsize (FAlpha n) = n"

fun decode_value :: "mem \<Rightarrow> nat \<Rightarrow> ftype \<Rightarrow> fval option" where
  "decode_value m p FChar = map_option VChar (rd m p)"
| "decode_value m p FU16 = map_option VU16 (load_be16 m p)"
| "decode_value m p FU32 = map_option VU32 (load_be32 m p)"
| "decode_value m p FU64 = map_option VU64 (load_be64 m p)"
| "decode_value m p (FAlpha n) = map_option VAlpha (rd_n m p n)"

fun encode_value :: "mem \<Rightarrow> nat \<Rightarrow> fval \<Rightarrow> mem option" where
  "encode_value m p (VChar v) = wr_n m p [v]"
| "encode_value m p (VU16 v) = store_be16 m p v"
| "encode_value m p (VU32 v) = store_be32 m p v"
| "encode_value m p (VU64 v) = store_be64 m p v"
| "encode_value m p (VAlpha v) = wr_n m p v"

text \<open>The fold of \<open>fields_tile_message\<close>: \<open>next\<close> starts after the header.\<close>

fun tile_from :: "nat \<Rightarrow> field list \<Rightarrow> nat \<Rightarrow> bool" where
  "tile_from nxt [] len = (nxt = len)"
| "tile_from nxt ((_, ty, off) # fs) len = (off = nxt \<and> tile_from (off + fsize ty) fs len)"

definition fields_tile_message :: "mtype \<Rightarrow> bool" where
  "fields_tile_message t = tile_from kHeaderLength (kFields t) (kLength t)"

fun decode_fields :: "mem \<Rightarrow> nat \<Rightarrow> field list \<Rightarrow> fval list option" where
  "decode_fields m p [] = Some []"
| "decode_fields m p ((_, ty, off) # fs) = do {
     v \<leftarrow> decode_value m (p + off) ty;
     vs \<leftarrow> decode_fields m p fs;
     Some (v # vs) }"

fun encode_fields :: "mem \<Rightarrow> nat \<Rightarrow> field list \<Rightarrow> fval list \<Rightarrow> mem option" where
  "encode_fields m p ((_, _, off) # fs) (v # vs) = do {
     m' \<leftarrow> encode_value m (p + off) v;
     encode_fields m' p fs vs }"
| "encode_fields m p _ _ = Some m"

section \<open>Messages on the wire\<close>

definition decode :: "mtype \<Rightarrow> mem \<Rightarrow> nat \<Rightarrow> message option" where
  "decode t m p = do {
     loc \<leftarrow> load_be16 m (p + 1);
     trk \<leftarrow> load_be16 m (p + 3);
     ts \<leftarrow> load_be48_overread m (p + 5);
     vs \<leftarrow> decode_fields m p (kFields t);
     build t \<lparr>locate = loc, tracking = trk, timestamp = ts\<rparr> vs }"

definition encode :: "message \<Rightarrow> mem \<Rightarrow> nat \<Rightarrow> (mem \<times> nat) option" where
  "encode msg m p = do {
     m1 \<leftarrow> wr_n m p [kType (mtype_of msg)];
     m2 \<leftarrow> store_be16 m1 (p + 1) (locate (header_of msg));
     m3 \<leftarrow> store_be16 m2 (p + 3) (tracking (header_of msg));
     m4 \<leftarrow> store_be48 m3 (p + 5) (timestamp (header_of msg));
     m5 \<leftarrow> encode_fields m4 p (kFields (mtype_of msg)) (vals_of msg);
     Some (m5, kLength (mtype_of msg)) }"

text \<open>The length table: a fold over the message list, 0 for every other type byte.\<close>

definition kMessageLength :: "u8 \<Rightarrow> u16" where
  "kMessageLength =
     fold (\<lambda>t tab. tab(kType t := of_nat (kLength t))) AllMessages (\<lambda>_. 0)"

section \<open>The tables\<close>

lemma fields_tile: "fields_tile_message t"
  by (cases t) (simp_all add: fields_tile_message_def kHeaderLength_def)

lemma set_AllMessages [simp]: "set AllMessages = UNIV"
proof -
  have "t \<in> set AllMessages" for t by (cases t) (simp_all add: AllMessages_def)
  then show ?thesis by auto
qed

lemma kType_inj: "kType t = kType t' \<Longrightarrow> t = t'"
  by (cases t; cases t') simp_all

lemma kLength_bounds: "12 \<le> kLength t + 1" "kLength t \<le> 50" "19 \<le> kLength t \<or> kLength t = 12"
  by (cases t; simp)+

lemma fold_table:
  assumes "inj k" "distinct ts"
  shows "fold (\<lambda>t tab. tab(k t := f t)) ts tab x =
    (if x \<in> k ` set ts then f (inv k x) else tab x)"
  using assms(2)
proof (induction ts arbitrary: tab)
  case Nil
  then show ?case by simp
next
  case (Cons t ts)
  then show ?case using assms(1) by (auto simp: inv_f_f dest: injD)
qed

lemma inj_kType: "inj kType"
  by (rule injI) (rule kType_inj)

lemma distinct_AllMessages: "distinct AllMessages"
  by (simp add: AllMessages_def)

lemma kMessageLength_kType [simp]: "kMessageLength (kType t) = of_nat (kLength t)"
  unfolding kMessageLength_def
  by (subst fold_table [OF inj_kType distinct_AllMessages]) (simp add: inv_f_f [OF inj_kType])

lemma kMessageLength_other: "ty \<notin> range kType \<Longrightarrow> kMessageLength ty = 0"
  unfolding kMessageLength_def
  by (subst fold_table [OF inj_kType distinct_AllMessages]) simp

lemma unat_kLength: "unat (of_nat (kLength t) :: u16) = kLength t"
  using kLength_bounds(2) [of t] by (simp add: unat_of_nat)

lemma kMessageLength_cases:
  obtains (known) t where "ty = kType t" "unat (kMessageLength ty) = kLength t"
  | (unknown) "ty \<notin> range kType" "kMessageLength ty = 0"
  using unat_kLength kMessageLength_other by (metis kMessageLength_kType rangeE)

section \<open>Well-formed messages\<close>

text \<open>
  What the C++ types say of a message: every \<open>Alpha<N>\<close> has \<open>N\<close> characters; and, for the
  wire, the timestamp fits its 48 bits.
\<close>

definition vals_fit :: "field list \<Rightarrow> fval list \<Rightarrow> bool" where
  "vals_fit fs vs = (map (\<lambda>(_, ty, _). ty) fs = map type_of_val vs)"

definition wf_message :: "message \<Rightarrow> bool" where
  "wf_message msg \<longleftrightarrow> vals_fit (kFields (mtype_of msg)) (vals_of msg) \<and>
     unat (timestamp (header_of msg)) < 2 ^ 48"

lemma vals_fit_Nil [simp]: "vals_fit [] vs = (vs = [])"
  by (auto simp: vals_fit_def)

lemma vals_fit_Cons [simp]:
  "vals_fit ((nm, ty, off) # fs) vs = (\<exists>v vs'. vs = v # vs' \<and> type_of_val v = ty \<and> vals_fit fs vs')"
  by (cases vs) (auto simp: vals_fit_def)

lemma type_of_val_iff [simp]:
  "type_of_val v = FChar \<longleftrightarrow> (\<exists>x. v = VChar x)"
  "type_of_val v = FU16 \<longleftrightarrow> (\<exists>x16. v = VU16 x16)"
  "type_of_val v = FU32 \<longleftrightarrow> (\<exists>x32. v = VU32 x32)"
  "type_of_val v = FU64 \<longleftrightarrow> (\<exists>x64. v = VU64 x64)"
  "type_of_val v = FAlpha n \<longleftrightarrow> (\<exists>bs. v = VAlpha bs \<and> length bs = n)"
  by (cases v; auto)+

lemma header_truncate [simp]:
  "Header.truncate m = \<lparr>locate = locate m, tracking = tracking m, timestamp = timestamp m\<rparr>"
  by (simp add: Header.truncate_def)

lemma build_fit:
  assumes "vals_fit (kFields t) vs"
  shows "\<exists>msg. build t h vs = Some msg \<and> mtype_of msg = t \<and>
    header_of msg = Header.truncate h \<and> vals_of msg = vs"
  using assms by (cases t) (auto simp del: fun_upd_apply)

lemma build_vals: "build (mtype_of msg) (header_of msg) (vals_of msg) = Some msg"
  by (cases msg) simp_all

lemma build_SomeD:
  "build t h vs = Some msg \<Longrightarrow>
     mtype_of msg = t \<and> header_of msg = Header.truncate h \<and> vals_of msg = vs"
  by (cases t) (auto split: list.splits fval.splits)

section \<open>The bytes of a message\<close>

fun val_bytes :: "fval \<Rightarrow> u8 list" where
  "val_bytes (VChar v) = [v]"
| "val_bytes (VU16 v) = be_bytes 2 v"
| "val_bytes (VU32 v) = be_bytes 4 v"
| "val_bytes (VU64 v) = be_bytes 8 v"
| "val_bytes (VAlpha v) = v"

definition header_bytes :: "Header \<Rightarrow> u8 list" where
  "header_bytes h = be_bytes 2 (locate h) @ be_bytes 2 (tracking h) @ be48_bytes (timestamp h)"

definition wire :: "message \<Rightarrow> u8 list" where
  "wire msg = kType (mtype_of msg) # header_bytes (header_of msg)
     @ concat (map val_bytes (vals_of msg))"

lemma length_val_bytes [simp]: "length (val_bytes v) = fsize (type_of_val v)"
  by (cases v) simp_all

lemma length_header_bytes [simp]: "length (header_bytes h) = 10"
  by (simp add: header_bytes_def)

lemma val_bytes_inj:
  assumes "type_of_val v = type_of_val v'" "val_bytes v = val_bytes v'"
  shows "v = v'"
proof -
  have inj: "be_bytes n x = be_bytes n y \<Longrightarrow> 256 ^ n = (2::nat) ^ LENGTH('w) \<Longrightarrow> x = y"
    for n and x y :: "'w::len word" by (metis be_word_be_bytes)
  show ?thesis using assms by (cases v; cases v') (auto dest: inj)
qed

lemma vals_bytes_inj:
  assumes "vals_fit fs vs" "vals_fit fs vs'"
    "concat (map val_bytes vs) = concat (map val_bytes vs')"
  shows "vs = vs'"
  using assms
proof (induction fs arbitrary: vs vs')
  case Nil
  then show ?case by simp
next
  case (Cons f fs)
  obtain nm ty off where f: "f = (nm, ty, off)" by (cases f)
  from Cons.prems f obtain v ws v' ws' where vs: "vs = v # ws" "vs' = v' # ws'"
    and ty: "type_of_val v = ty" "type_of_val v' = ty" and fit: "vals_fit fs ws" "vals_fit fs ws'"
    by auto
  have "val_bytes v = val_bytes v' \<and> concat (map val_bytes ws) = concat (map val_bytes ws')"
    using Cons.prems(3) vs ty by (simp add: append_eq_append_conv)
  with Cons.IH [OF fit] ty vs show ?case by (auto intro: val_bytes_inj)
qed

subsection \<open>Encoding writes these bytes\<close>

lemma encode_value_eq: "encode_value m p v = wr_n m p (val_bytes v)"
  by (cases v) (simp_all add: store_be_eq)

lemma tile_from_le: "tile_from n fs e \<Longrightarrow> n \<le> e"
  by (induction n fs e rule: tile_from.induct) auto

lemma vals_fit_size:
  "vals_fit fs vs \<Longrightarrow> tile_from n fs e \<Longrightarrow> length (concat (map val_bytes vs)) = e - n"
proof (induction n fs e arbitrary: vs rule: tile_from.induct)
  case (1 nxt len)
  then show ?case by simp
next
  case (2 nxt nm ty off fs len)
  then obtain v vs' where vs: "vs = v # vs'" "type_of_val v = ty" "vals_fit fs vs'" by auto
  with "2.prems" "2.IH" [of vs'] tile_from_le [of "off + fsize ty" fs len] show ?case by auto
qed

lemma encode_fields_eq:
  "tile_from n fs e \<Longrightarrow> vals_fit fs vs \<Longrightarrow> p + e \<le> length m \<Longrightarrow>
     encode_fields m p fs vs = wr_n m (p + n) (concat (map val_bytes vs))"
proof (induction n fs e arbitrary: vs m rule: tile_from.induct)
  case (1 nxt len)
  then show ?case by (simp add: wr_n_def)
next
  case (2 nxt nm ty off fs len)
  then obtain v vs' where vs: "vs = v # vs'" "type_of_val v = ty" "vals_fit fs vs'" by auto
  have off: "off = nxt" and tl: "tile_from (off + fsize ty) fs len" using "2.prems"(1) by auto
  have le: "off + fsize ty \<le> len" using tl by (rule tile_from_le)
  have size: "length (concat (map val_bytes vs')) = len - (off + fsize ty)"
    using vs(3) tl by (rule vals_fit_size)
  let ?w = "take (p + off) m @ val_bytes v @ drop (p + off + fsize ty) m"
  have w: "wr_n m (p + off) (val_bytes v) = Some ?w"
    using "2.prems"(3) le vs(2) by (simp add: wr_n_def add.assoc)
  have "encode_fields m p ((nm, ty, off) # fs) vs = encode_fields ?w p fs vs'"
    by (simp add: vs(1) encode_value_eq w)
  also have "\<dots> = wr_n ?w (p + (off + fsize ty)) (concat (map val_bytes vs'))"
    using "2.prems"(3) le vs tl by (intro "2.IH") auto
  also have "\<dots> = wr_n m (p + off) (val_bytes v @ concat (map val_bytes vs'))"
    using wr_n_append [of "p + off" "val_bytes v" "concat (map val_bytes vs')" m]
      "2.prems"(3) le size vs(2) by (simp add: w add.assoc)
  finally show ?case by (simp add: vs(1) off)
qed

lemma wf_message_fit: "wf_message msg \<Longrightarrow> vals_fit (kFields (mtype_of msg)) (vals_of msg)"
  by (simp add: wf_message_def)

lemma length_wire:
  assumes "vals_fit (kFields (mtype_of msg)) (vals_of msg)"
  shows "length (wire msg) = kLength (mtype_of msg)"
proof -
  let ?t = "mtype_of msg"
  have t: "tile_from 11 (kFields ?t) (kLength ?t)"
    using fields_tile [of ?t] by (simp add: fields_tile_message_def kHeaderLength_def)
  from vals_fit_size [OF assms t] tile_from_le [OF t] show ?thesis by (simp add: wire_def)
qed

lemma encode_eq:
  assumes fit: "vals_fit (kFields (mtype_of msg)) (vals_of msg)"
    and room: "p + kLength (mtype_of msg) \<le> length m"
  shows "encode msg m p =
    map_option (\<lambda>m'. (m', kLength (mtype_of msg))) (wr_n m p (wire msg))"
proof -
  let ?t = "mtype_of msg" and ?h = "header_of msg"
  let ?a = "[kType ?t]" and ?b = "be_bytes 2 (locate ?h)" and ?c = "be_bytes 2 (tracking ?h)"
    and ?d = "be48_bytes (timestamp ?h)" and ?e = "concat (map val_bytes (vals_of msg))"
  have t: "tile_from 11 (kFields ?t) (kLength ?t)"
    using fields_tile [of ?t] by (simp add: fields_tile_message_def kHeaderLength_def)
  obtain k where k: "kLength ?t = k + 11" using tile_from_le [OF t] by (metis le_Suc_ex add.commute)
  have e: "length ?e = k" using vals_fit_size [OF fit t] k by simp
  have app: "wr_n m' q y = wr_n m p (x @ y)"
    if "wr_n m p x = Some m'" "q = p + length x" "length x + length y \<le> kLength ?t" for x y m' q
    using wr_n_append [of p x y m] that room by simp
  have ex: "\<exists>m'. wr_n m p x = Some m'" if "length x \<le> kLength ?t" for x
    using that room by (simp add: wr_n_def)
  from e obtain m1 m2 m3 m4 m5 where
    m1: "wr_n m p ?a = Some m1" and m2: "wr_n m p (?a @ ?b) = Some m2"
    and m3: "wr_n m p ((?a @ ?b) @ ?c) = Some m3"
    and m4: "wr_n m p (((?a @ ?b) @ ?c) @ ?d) = Some m4"
    and m5: "wr_n m p ((((?a @ ?b) @ ?c) @ ?d) @ ?e) = Some m5"
    using ex [of ?a] ex [of "?a @ ?b"] ex [of "(?a @ ?b) @ ?c"] ex [of "((?a @ ?b) @ ?c) @ ?d"]
      ex [of "(((?a @ ?b) @ ?c) @ ?d) @ ?e"] e k by auto
  have 1: "store_be16 m1 (p + 1) (locate ?h) = Some m2"
    using app [OF m1, of "p + 1" ?b] k m2 by (simp add: store_be_eq)
  have 2: "store_be16 m2 (p + 3) (tracking ?h) = Some m3"
    using app [OF m2, of "p + 3" ?c] k m3 by (simp add: store_be_eq)
  have 3: "store_be48 m3 (p + 5) (timestamp ?h) = Some m4"
    using app [OF m3, of "p + 5" ?d] k m4 room wr_n_length [OF m3]
    by (simp add: store_be48_eq)
  have 4: "encode_fields m4 p (kFields ?t) (vals_of msg) = Some m5"
    using app [OF m4, of "p + 11" ?e] e k m5 room wr_n_length [OF m4]
    by (simp add: encode_fields_eq [OF t fit])
  have "wire msg = (((?a @ ?b) @ ?c) @ ?d) @ ?e" by (simp add: wire_def header_bytes_def)
  with m5 show ?thesis by (simp add: encode_def m1 1 [simplified] 2 [simplified] 3 [simplified] 4)
qed

subsection \<open>Decoding reads them\<close>

lemma val_bytes_be_word:
  "length bs = 2 \<Longrightarrow> val_bytes (VU16 (be_word bs)) = bs"
  "length bs = 4 \<Longrightarrow> val_bytes (VU32 (be_word bs)) = bs"
  "length bs = 8 \<Longrightarrow> val_bytes (VU64 (be_word bs)) = bs"
  by (simp_all add: be_bytes_be_word)

lemma decode_value_ok:
  assumes "p + fsize ty \<le> length m"
  shows "\<exists>v. decode_value m p ty = Some v \<and> type_of_val v = ty \<and>
    val_bytes v = take (fsize ty) (drop p m)"
  using assms
  by (cases ty)
    (simp_all add: load_be_eq mem_simps val_bytes_be_word del: val_bytes.simps(2-4),
     simp_all add: take_Suc hd_drop_conv_nth)

lemma decode_fields_ok:
  "tile_from n fs e \<Longrightarrow> p + e \<le> length m \<Longrightarrow>
     \<exists>vs. decode_fields m p fs = Some vs \<and> vals_fit fs vs \<and>
       concat (map val_bytes vs) = take (e - n) (drop (p + n) m)"
proof (induction n fs e rule: tile_from.induct)
  case (1 nxt len)
  then show ?case by simp
next
  case (2 nxt nm ty off fs len)
  have off: "off = nxt" and tl: "tile_from (off + fsize ty) fs len" using "2.prems"(1) by auto
  have le: "off + fsize ty \<le> len" using tl by (rule tile_from_le)
  obtain v where v: "decode_value m (p + off) ty = Some v" "type_of_val v = ty"
    "val_bytes v = take (fsize ty) (drop (p + off) m)"
    using decode_value_ok [of "p + off" ty m] le "2.prems"(2) by auto
  obtain vs where vs: "decode_fields m p fs = Some vs" "vals_fit fs vs"
    "concat (map val_bytes vs) = take (len - (off + fsize ty)) (drop (p + (off + fsize ty)) m)"
    using "2.IH" [OF tl "2.prems"(2)] by auto
  have "len - nxt = fsize ty + (len - (off + fsize ty))" using le off by simp
  then have "take (len - nxt) (drop (p + nxt) m) = val_bytes v @ concat (map val_bytes vs)"
    by (simp only: take_add drop_drop v(3) vs(3) off) (simp add: ac_simps)
  with v vs show ?case by simp
qed

lemma be48_bytes_be_word:
  assumes "length bs = 6"
  shows "be48_bytes (be_word bs) = bs"
proof -
  let ?v = "be_word bs :: u64"
  have lt: "unat ?v < 2 ^ 48" using le_nat_bound [of "rev bs"] assms by (simp add: unat_be_word)
  have "unat (be_word (be48_bytes ?v) :: u64) = le_nat (rev (be48_bytes ?v))"
    and "unat ?v = le_nat (rev bs)" using assms by (simp_all add: unat_be_word)
  with be_word_be48_bytes [OF lt] have "le_nat (rev (be48_bytes ?v)) = le_nat (rev bs)" by simp
  then show ?thesis using assms
    by (metis length_be48_bytes length_rev nat_bytes_le_nat rev_rev_ident)
qed

lemma unat_be_word_48: "length bs = 6 \<Longrightarrow> unat (be_word bs :: u64) < 2 ^ 48"
  using le_nat_bound [of "rev bs"] by (simp add: unat_be_word)

lemma take_split:
  "n = i + j \<Longrightarrow> q = p + i \<Longrightarrow> take n (drop p m) = take i (drop p m) @ take j (drop q m)"
  by (simp add: take_add add.commute)

lemma decode_ok:
  assumes len: "p + kLength t \<le> length m"
  shows "\<exists>msg. decode t m p = Some msg \<and> mtype_of msg = t \<and> wf_message msg \<and>
    wire msg = kType t # take (kLength t - 1) (drop (p + 1) m)"
proof -
  have t: "tile_from 11 (kFields t) (kLength t)"
    using fields_tile [of t] by (simp add: fields_tile_message_def kHeaderLength_def)
  obtain k where k: "kLength t = k + 11" using tile_from_le [OF t] by (metis le_Suc_ex add.commute)
  obtain vs where vs: "decode_fields m p (kFields t) = Some vs" "vals_fit (kFields t) vs"
    "concat (map val_bytes vs) = take k (drop (p + 11) m)"
    using decode_fields_ok [OF t len] k by auto
  let ?a = "take 2 (drop (p + 1) m)" and ?b = "take 2 (drop (p + 3) m)"
    and ?c = "take 6 (drop (p + 5) m)"
  let ?h = "\<lparr>locate = be_word ?a, tracking = be_word ?b, timestamp = be_word ?c\<rparr>"
  have l: "length ?a = 2" "length ?b = 2" "length ?c = 6" using len k by auto
  obtain msg where msg: "build t ?h vs = Some msg" "mtype_of msg = t" "header_of msg = ?h"
    "vals_of msg = vs" using build_fit [OF vs(2), of ?h] by auto
  have "decode t m p = Some msg"
    using len k by (simp add: decode_def load_be_eq load_be48_overread_eq mem_simps vs(1) msg(1) [simplified])
  moreover have "wf_message msg"
    using vs(2) unat_be_word_48 [OF l(3)] by (simp add: wf_message_def msg)
  moreover have "wire msg = kType t # take (kLength t - 1) (drop (p + 1) m)"
  proof -
    have "take (k + 10) (drop (p + 1) m) = ?a @ take (k + 8) (drop (p + 3) m)"
      by (rule take_split) simp_all
    also have "take (k + 8) (drop (p + 3) m) = ?b @ take (k + 6) (drop (p + 5) m)"
      by (rule take_split) simp_all
    also have "take (k + 6) (drop (p + 5) m) = ?c @ take k (drop (p + 11) m)"
      by (rule take_split) simp_all
    finally have "take (kLength t - 1) (drop (p + 1) m) = ?a @ ?b @ ?c @ take k (drop (p + 11) m)"
      using k by (simp add: add.commute)
    then show ?thesis using l
      by (simp add: wire_def msg header_bytes_def vs(3) be_bytes_be_word be48_bytes_be_word)
  qed
  ultimately show ?thesis using msg(2) by blast
qed

lemma be2_inj:
  fixes x y :: u16
  assumes "be_bytes 2 x = be_bytes 2 y"
  shows "x = y"
proof -
  have "be_word (be_bytes 2 x) = (be_word (be_bytes 2 y) :: u16)" by (simp only: assms)
  then show ?thesis by (simp add: be_word_be_bytes)
qed

lemma wire_inj:
  assumes "wf_message msg" "wf_message msg'" "mtype_of msg = mtype_of msg'" "wire msg = wire msg'"
  shows "msg = msg'"
proof -
  let ?h = "header_of msg" and ?h' = "header_of msg'"
  have "header_bytes ?h = header_bytes ?h'" and
    c: "concat (map val_bytes (vals_of msg)) = concat (map val_bytes (vals_of msg'))"
    using assms(4) by (simp_all add: wire_def append_eq_append_conv)
  then have b: "be_bytes 2 (locate ?h) = be_bytes 2 (locate ?h')"
    "be_bytes 2 (tracking ?h) = be_bytes 2 (tracking ?h')"
    "be48_bytes (timestamp ?h) = be48_bytes (timestamp ?h')"
    by (simp_all add: header_bytes_def append_eq_append_conv)
  have "timestamp ?h = timestamp ?h'"
    using b(3) assms(1,2) by (metis be_word_be48_bytes wf_message_def)
  moreover have "locate ?h = locate ?h'" "tracking ?h = tracking ?h'"
    by (rule be2_inj [OF b(1)], rule be2_inj [OF b(2)])
  ultimately have "?h = ?h'" by (intro Header.equality) auto
  moreover have "vals_of msg = vals_of msg'"
    using assms(1-3) c by (intro vals_bytes_inj [of "kFields (mtype_of msg)"]) (auto simp: wf_message_def)
  ultimately show ?thesis using assms(3) build_vals by (metis option.inject)
qed

section \<open>Round trips\<close>

text \<open>
  C12. Encoding a message and decoding the bytes returns the message, for all 23 types: the
  encoder fits in \<open>kLength\<close> bytes, reports that length, changes nothing outside them, and the
  decoder reads the same message back.
\<close>

theorem decode_encode:
  assumes wf: "wf_message msg" and room: "p + kLength (mtype_of msg) \<le> length out"
  shows "\<exists>out'. encode msg out p = Some (out', kLength (mtype_of msg)) \<and>
    length out' = length out \<and>
    (\<forall>i < length out. i < p \<or> p + kLength (mtype_of msg) \<le> i \<longrightarrow> out' ! i = out ! i) \<and>
    decode (mtype_of msg) out' p = Some msg"
proof -
  let ?t = "mtype_of msg"
  have fit: "vals_fit (kFields ?t) (vals_of msg)" using wf by (rule wf_message_fit)
  have lw: "length (wire msg) = kLength ?t" using fit by (rule length_wire)
  obtain out' where w: "wr_n out p (wire msg) = Some out'"
    using room lw by (simp add: wr_n_def)
  have len: "length out' = length out" using w by (rule wr_n_length)
  have rd: "take (kLength ?t) (drop p out') = wire msg"
    using rd_n_wr_n_same [OF w, of "kLength ?t"] lw room len by (simp add: rd_n_def)
  obtain msg' where d: "decode ?t out' p = Some msg'" "mtype_of msg' = ?t" "wf_message msg'"
    "wire msg' = kType ?t # take (kLength ?t - 1) (drop (p + 1) out')"
    using decode_ok [of p ?t out'] room len by auto
  have "take (kLength ?t - 1) (drop (p + 1) out') = tl (wire msg)"
    unfolding rd [symmetric] by (simp add: tl_take tl_drop drop_Suc)
  then have "wire msg' = wire msg" using d(4) by (simp add: wire_def [of msg])
  then have "msg' = msg" using d(2,3) wf by (intro wire_inj) simp_all
  with d(1) len w show ?thesis
    by (auto simp: encode_eq [OF fit room] wr_n_nth [OF w] lw)
qed

theorem decode_encode_witness:
  "\<exists>out'. encode (OrderCancel \<lparr>locate = 7, tracking = 0, timestamp = 34200000000000,
      oc_ref = 42, oc_cancelled_shares = 100\<rparr>) (replicate 23 0) 0 = Some (out', 23) \<and>
    decode TOrderCancel out' 0 = Some (OrderCancel \<lparr>locate = 7, tracking = 0,
      timestamp = 34200000000000, oc_ref = 42, oc_cancelled_shares = 100\<rparr>)"
  using decode_encode [of "OrderCancel \<lparr>locate = 7, tracking = 0, timestamp = 34200000000000,
      oc_ref = 42, oc_cancelled_shares = 100\<rparr>" 0 "replicate 23 0"]
  by (auto simp: wf_message_def)

text \<open>
  Decoding is total on any buffer that holds the message's length, and loses nothing:
  whatever the bytes, the decoded message is well formed, and encoding it writes exactly the
  bytes that were read.
\<close>

theorem encode_decode:
  assumes len: "p + kLength t \<le> length m" and ty: "m ! p = kType t"
    and room: "q + kLength t \<le> length out"
  shows "\<exists>msg out'. decode t m p = Some msg \<and> mtype_of msg = t \<and> wf_message msg \<and>
    encode msg out q = Some (out', kLength t) \<and>
    take (kLength t) (drop q out') = take (kLength t) (drop p m)"
proof -
  obtain msg where d: "decode t m p = Some msg" "mtype_of msg = t" "wf_message msg"
    "wire msg = kType t # take (kLength t - 1) (drop (p + 1) m)"
    using decode_ok [OF len] by auto
  have pos: "0 < kLength t" using kLength_bounds(1) [of t] by simp
  have w: "wire msg = take (kLength t) (drop p m)"
    using len pos d(4) ty
    by (cases "kLength t") (simp_all add: Cons_nth_drop_Suc [symmetric])
  have fit: "vals_fit (kFields t) (vals_of msg)" using d(2,3) wf_message_fit by auto
  have lw: "length (wire msg) = kLength t" using fit d(2) by (simp add: length_wire)
  obtain out' where o: "wr_n out q (wire msg) = Some out'" using room lw by (simp add: wr_n_def)
  have "encode msg out q = Some (out', kLength t)"
    using encode_eq [of msg q out] fit d(2) room o by simp
  moreover have "take (kLength t) (drop q out') = wire msg"
    using rd_n_wr_n_same [OF o, of "kLength t"] lw room wr_n_length [OF o] by (simp add: rd_n_def)
  ultimately show ?thesis using d(1-3) w by auto
qed

theorem encode_decode_witness:
  "\<exists>msg out'. decode TOrderDelete (0x44 # replicate 18 5) 0 = Some msg \<and>
    encode msg (replicate 30 0) 11 = Some (out', 19) \<and>
    take 19 (drop 11 out') = 0x44 # replicate 18 5"
  using encode_decode [of 0 TOrderDelete "0x44 # replicate 18 5" 11 "replicate 30 0"] by auto

end
