(* ===== verification/Parser.thy ===== *)
theory Parser
  imports Codec
begin

text \<open>
  \<^verbatim>\<open>include/itch/parser.hpp\<close>: the decoder with its compile-time bound handler, its statistics,
  the record walks over a stream buffer (plain, with prefetch lookahead, and without dispatch),
  and the proof that all three see the same records and never read outside them.

  The C++ template parameter \<open>Handler\<close> is a record of operations over the handler's state;
  an operation that ends the process (an exception in a \<open>noexcept\<close> function) is \<open>None\<close>.
\<close>

section \<open>Handlers\<close>

record 'h handler =
  handles :: "mtype \<Rightarrow> bool"
  on_msg :: "message \<Rightarrow> 'h \<Rightarrow> 'h option"
  wants :: "('h \<Rightarrow> u8 \<Rightarrow> u16 \<Rightarrow> bool) option"
  prefetch :: "('h \<Rightarrow> mem \<Rightarrow> nat \<Rightarrow> nat \<Rightarrow> unit option) option"

record parser_stats =
  messages :: u64
  unknown_type :: u64
  bad_length :: u64
  empty :: u64
  filtered :: u64
  by_type :: "u8 \<Rightarrow> u64"

record 'h parser =
  handler_state :: 'h
  stats :: parser_stats

definition no_stats :: parser_stats where
  "no_stats = \<lparr>messages = 0, unknown_type = 0, bad_length = 0, empty = 0, filtered = 0,
     by_type = (\<lambda>_. 0)\<rparr>"

definition new_parser :: "'h \<Rightarrow> 'h parser" where
  "new_parser h = \<lparr>handler_state = h, stats = no_stats\<rparr>"

section \<open>One message\<close>

text \<open>An entry of the dispatch table: \<open>None\<close> is \<open>&ignore\<close>, \<open>Some t\<close> is \<open>&dispatch<M>\<close>.\<close>

definition entry :: "'h handler \<Rightarrow> mtype \<Rightarrow> mtype option" where
  "entry H t = (if handles H t then Some t else None)"

definition make_dispatch_table :: "'h handler \<Rightarrow> u8 \<Rightarrow> mtype option" where
  "make_dispatch_table H =
     fold (\<lambda>t tab. tab(kType t := entry H t)) AllMessages (\<lambda>_. None)"

definition dispatch :: "'h handler \<Rightarrow> mtype \<Rightarrow> mem \<Rightarrow> nat \<Rightarrow> 'h \<Rightarrow> 'h option" where
  "dispatch H t buf p h = do { m \<leftarrow> decode t buf p; on_msg H m h }"

definition call_table :: "'h handler \<Rightarrow> u8 \<Rightarrow> mem \<Rightarrow> nat \<Rightarrow> 'h parser \<Rightarrow> 'h parser option" where
  "call_table H ty buf p P = (case make_dispatch_table H ty of
     None \<Rightarrow> Some P
   | Some t \<Rightarrow> do { h \<leftarrow> dispatch H t buf p (handler_state P); Some (P\<lparr>handler_state := h\<rparr>) })"

definition parse :: "'h handler \<Rightarrow> mem \<Rightarrow> nat \<Rightarrow> nat \<Rightarrow> 'h parser \<Rightarrow> 'h parser option" where
  "parse H buf p len P =
     (if len = 0 then Some (P\<lparr>stats := stats P\<lparr>empty := empty (stats P) + 1\<rparr>\<rparr>)
      else do {
        ty \<leftarrow> rd buf p;
        let expected = kMessageLength ty;
        if unat expected \<noteq> len then
          Some (if expected = 0
                then P\<lparr>stats := stats P\<lparr>unknown_type := unknown_type (stats P) + 1\<rparr>\<rparr>
                else P\<lparr>stats := stats P\<lparr>bad_length := bad_length (stats P) + 1\<rparr>\<rparr>)
        else do {
          let P1 = P\<lparr>stats := stats P\<lparr>messages := messages (stats P) + 1,
            by_type := (by_type (stats P))(ty := by_type (stats P) ty + 1)\<rparr>\<rparr>;
          case wants H of
            None \<Rightarrow> call_table H ty buf p P1
          | Some w \<Rightarrow> do {
              loc \<leftarrow> load_be16 buf (p + 1);
              if \<not> w (handler_state P1) ty loc
              then Some (P1\<lparr>stats := stats P1\<lparr>filtered := filtered (stats P1) + 1\<rparr>\<rparr>)
              else call_table H ty buf p P1 } } })"

section \<open>A buffer of records\<close>

function parse_stream_from ::
  "'h handler \<Rightarrow> mem \<Rightarrow> nat \<Rightarrow> nat \<Rightarrow> 'h parser \<Rightarrow> ('h parser \<times> nat) option" where
  "parse_stream_from H buf len off P =
     (if off + 2 \<le> len then do {
        n \<leftarrow> load_be16 buf off;
        if off + 2 + unat n > len then Some (P, off)
        else do {
          P' \<leftarrow> parse H buf (off + 2) (unat n) P;
          parse_stream_from H buf len (off + 2 + unat n) P' } }
      else Some (P, off))"
  by pat_completeness auto
termination
  by (relation "measure (\<lambda>(_, _, len, off, _). len - off)") auto

declare parse_stream_from.simps [simp del]

definition parse_stream :: "'h handler \<Rightarrow> mem \<Rightarrow> nat \<Rightarrow> 'h parser \<Rightarrow> ('h parser \<times> nat) option" where
  "parse_stream H buf len P = parse_stream_from H buf len 0 P"

text \<open>
  The lookahead. A prefetch changes no state; the model returns the records hinted, in the
  order of the calls, as the effect of the hints.
\<close>

definition prefetch_next ::
  "('h \<Rightarrow> mem \<Rightarrow> nat \<Rightarrow> nat \<Rightarrow> unit option) \<Rightarrow> mem \<Rightarrow> nat \<Rightarrow> 'h \<Rightarrow> nat \<times> (nat \<times> nat) list \<Rightarrow>
     (nat \<times> (nat \<times> nat) list) option" where
  "prefetch_next pf buf len h = (\<lambda>(ahead, hints).
     if ahead + 2 > len then Some (ahead, hints)
     else do {
       n \<leftarrow> load_be16 buf ahead;
       if ahead + 2 + unat n > len then Some (ahead, hints)
       else do {
         pf h buf (ahead + 2) (unat n);
         Some (ahead + 2 + unat n, hints @ [(ahead + 2, unat n)]) } })"

function prefetch_stream_from ::
  "'h handler \<Rightarrow> ('h \<Rightarrow> mem \<Rightarrow> nat \<Rightarrow> nat \<Rightarrow> unit option) \<Rightarrow> mem \<Rightarrow> nat \<Rightarrow> nat \<Rightarrow>
     nat \<times> (nat \<times> nat) list \<Rightarrow> 'h parser \<Rightarrow> ('h parser \<times> nat \<times> (nat \<times> nat) list) option" where
  "prefetch_stream_from H pf buf len off A P =
     (if off + 2 \<le> len then do {
        n \<leftarrow> load_be16 buf off;
        if off + 2 + unat n > len then Some (P, off, snd A)
        else do {
          P' \<leftarrow> parse H buf (off + 2) (unat n) P;
          A' \<leftarrow> prefetch_next pf buf len (handler_state P') A;
          prefetch_stream_from H pf buf len (off + 2 + unat n) A' P' } }
      else Some (P, off, snd A))"
  by pat_completeness auto
termination
  by (relation "measure (\<lambda>(_, _, _, len, off, _, _). len - off)") auto

declare prefetch_stream_from.simps [simp del]

definition parse_stream_prefetch ::
  "nat \<Rightarrow> 'h handler \<Rightarrow> mem \<Rightarrow> nat \<Rightarrow> 'h parser \<Rightarrow>
     ('h parser \<times> nat \<times> (nat \<times> nat) list) option" where
  "parse_stream_prefetch Distance H buf len P =
     (case (if Distance = 0 then None else prefetch H) of
        None \<Rightarrow> do { (P', off) \<leftarrow> parse_stream H buf len P; Some (P', off, []) }
      | Some pf \<Rightarrow> do {
          A \<leftarrow> foldO (\<lambda>_. prefetch_next pf buf len (handler_state P)) [0..<Distance] (0, []);
          prefetch_stream_from H pf buf len 0 A P })"

section \<open>Frames\<close>

record frame =
  fr_data :: nat
  fr_len :: nat

definition frame_type :: "mem \<Rightarrow> frame \<Rightarrow> u8 option" where
  "frame_type buf f = rd buf (fr_data f)"

definition frame_locate :: "mem \<Rightarrow> frame \<Rightarrow> u16 option" where
  "frame_locate buf f = load_be16 buf (fr_data f + 1)"

definition frame_tracking :: "mem \<Rightarrow> frame \<Rightarrow> u16 option" where
  "frame_tracking buf f = load_be16 buf (fr_data f + 3)"

definition frame_timestamp :: "mem \<Rightarrow> frame \<Rightarrow> u64 option" where
  "frame_timestamp buf f = load_be48_overread buf (fr_data f + 5)"

record frame_scan =
  fs_consumed :: nat
  fs_frames :: u64
  fs_malformed :: u64
  fs_empty :: u64

function scan_from ::
  "mem \<Rightarrow> nat \<Rightarrow> (frame \<Rightarrow> 's \<Rightarrow> 's) \<Rightarrow> nat \<Rightarrow> frame_scan \<Rightarrow> 's \<Rightarrow> (frame_scan \<times> 's) option" where
  "scan_from buf len f off r s =
     (if off + 2 \<le> len then do {
        n \<leftarrow> load_be16 buf off;
        if off + 2 + unat n > len then Some (r\<lparr>fs_consumed := off\<rparr>, s)
        else if n = 0 then
          scan_from buf len f (off + 2 + unat n) (r\<lparr>fs_empty := fs_empty r + 1\<rparr>) s
        else do {
          ty \<leftarrow> rd buf (off + 2);
          if kMessageLength ty \<noteq> n then
            scan_from buf len f (off + 2 + unat n) (r\<lparr>fs_malformed := fs_malformed r + 1\<rparr>) s
          else
            scan_from buf len f (off + 2 + unat n) (r\<lparr>fs_frames := fs_frames r + 1\<rparr>)
              (f \<lparr>fr_data = off + 2, fr_len = unat n\<rparr> s) } }
      else Some (r\<lparr>fs_consumed := off\<rparr>, s))"
  by pat_completeness auto
termination
  by (relation "measure (\<lambda>(_, len, _, off, _, _). len - off)") auto

declare scan_from.simps [simp del]

definition for_each_frame ::
  "mem \<Rightarrow> nat \<Rightarrow> (frame \<Rightarrow> 's \<Rightarrow> 's) \<Rightarrow> 's \<Rightarrow> (frame_scan \<times> 's) option" where
  "for_each_frame buf len f s =
     scan_from buf len f 0 \<lparr>fs_consumed = 0, fs_frames = 0, fs_malformed = 0, fs_empty = 0\<rparr> s"

section \<open>The records of a buffer\<close>

text \<open>
  Specification: the records of a length-prefixed byte sequence, and what is left of it. The
  loops of the code walk offsets; \<open>recs\<close> lists the offsets and lengths they visit.
\<close>

function frames :: "u8 list \<Rightarrow> u8 list list \<times> u8 list" where
  "frames bs =
     (let n = unat (be_word (take 2 bs) :: u16)
      in if length bs < 2 + n then ([], bs)
         else (let (fs, rest) = frames (drop (2 + n) bs) in (take n (drop 2 bs) # fs, rest)))"
  by pat_completeness auto
termination
  by (relation "measure length") auto

function recs :: "mem \<Rightarrow> nat \<Rightarrow> nat \<Rightarrow> (nat \<times> nat) list \<times> nat" where
  "recs buf len off =
     (let n = unat (be_word (take 2 (drop off buf)) :: u16)
      in if off + 2 + n > len then ([], off)
         else (let (rs, e) = recs buf len (off + 2 + n) in ((off + 2, n) # rs, e)))"
  by pat_completeness auto
termination
  by (relation "measure (\<lambda>(_, len, off). len - off)") auto

declare frames.simps [simp del] recs.simps [simp del]

definition rec_bytes :: "mem \<Rightarrow> nat \<times> nat \<Rightarrow> u8 list" where
  "rec_bytes buf = (\<lambda>(p, n). take n (drop p buf))"

lemma recs_unfold:
  assumes "recs buf len off = (rs, e)"
  obtains (last) "rs = []" "e = off"
      "len < off + 2 + unat (be_word (take 2 (drop off buf)) :: u16)"
  | (more) n rs' where "rs = (off + 2, n) # rs'" "recs buf len (off + 2 + n) = (rs', e)"
      "n = unat (be_word (take 2 (drop off buf)) :: u16)" "off + 2 + n \<le> len"
  using assms by (subst (asm) recs.simps) (auto simp: Let_def split: if_splits prod.splits)

lemma recs_bounds: "recs buf len off = (rs, e) \<Longrightarrow> (p, n) \<in> set rs \<Longrightarrow> 2 \<le> p \<and> p + n \<le> len"
proof (induction buf len off arbitrary: rs e rule: recs.induct)
  case (1 buf len off)
  from "1.prems"(1) show ?case
  proof (cases rule: recs_unfold)
    case last
    then show ?thesis using "1.prems" by simp
  next
    case (more n' rs')
    then show ?thesis using "1.IH" [of n' rs' e] "1.prems"(2) by auto
  qed
qed

lemma recs_end: "recs buf len off = (rs, e) \<Longrightarrow> off \<le> len \<Longrightarrow> off \<le> e \<and> e \<le> len"
proof (induction buf len off arbitrary: rs e rule: recs.induct)
  case (1 buf len off)
  from "1.prems"(1) show ?case
  proof (cases rule: recs_unfold)
    case last
    then show ?thesis using "1.prems" by simp
  next
    case (more n rs')
    then show ?thesis using "1.IH" [of n rs' e] by simp
  qed
qed

lemma load_be16_in: "p + 2 \<le> length m \<Longrightarrow> load_be16 m p = Some (be_word (take 2 (drop p m)))"
  by (simp add: load_be16_eq mem_simps)

text \<open>The stream parser is a fold of \<open>parse\<close> over these records.\<close>

lemma parse_stream_from_eq:
  assumes "len \<le> length buf"
  shows "parse_stream_from H buf len off P =
    do { P' \<leftarrow> foldO (\<lambda>(p, n). parse H buf p n) (fst (recs buf len off)) P;
         Some (P', snd (recs buf len off)) }"
  using assms
proof (induction H buf len off P rule: parse_stream_from.induct)
  case (1 H buf len off P)
  let ?w = "be_word (take 2 (drop off buf)) :: u16"
  show ?case
  proof (cases "off + 2 + unat ?w \<le> len")
    case True
    then have ld: "load_be16 buf off = Some ?w" using "1.prems" by (intro load_be16_in) simp
    obtain rs e where r: "recs buf len (off + 2 + unat ?w) = (rs, e)" by fastforce
    then have r': "recs buf len off = ((off + 2, unat ?w) # rs, e)"
      using True by (subst recs.simps) simp
    show ?thesis
      using True "1.IH" [OF _ ld] "1.prems" r
      by (subst parse_stream_from.simps) (auto simp: ld r' intro!: Option.bind_cong)
  next
    case False
    then have "recs buf len off = ([], off)" by (subst recs.simps) simp
    with False "1.prems" show ?thesis
      by (subst parse_stream_from.simps) (auto simp: load_be16_in)
  qed
qed

lemma parse_stream_eq:
  "len \<le> length buf \<Longrightarrow> parse_stream H buf len P =
    do { P' \<leftarrow> foldO (\<lambda>(p, n). parse H buf p n) (fst (recs buf len 0)) P;
         Some (P', snd (recs buf len 0)) }"
  by (simp add: parse_stream_def parse_stream_from_eq)

lemma recs_frames:
  assumes "len \<le> length buf" "off \<le> len"
  shows "frames (drop off (take len buf)) =
    (map (rec_bytes buf) (fst (recs buf len off)), drop (snd (recs buf len off)) (take len buf))"
  using assms
proof (induction buf len off rule: recs.induct)
  case (1 buf len off)
  let ?w = "be_word (take 2 (drop off buf)) :: u16"
  let ?b = "drop off (take len buf)"
  show ?case
  proof (cases "off + 2 \<le> len")
    case True
    then have t2: "take 2 ?b = take 2 (drop off buf)" by (simp add: take_drop)
    show ?thesis
    proof (cases "off + 2 + unat ?w \<le> len")
      case le: True
      obtain rs e where r: "recs buf len (off + 2 + unat ?w) = (rs, e)" by fastforce
      then have r': "recs buf len off = ((off + 2, unat ?w) # rs, e)"
        using le by (subst recs.simps) simp
      have "take (unat ?w) (drop 2 ?b) = rec_bytes buf (off + 2, unat ?w)"
        using le by (simp add: rec_bytes_def take_drop add.commute)
      moreover have "drop (2 + unat ?w) ?b = drop (off + 2 + unat ?w) (take len buf)"
        by (simp add: ac_simps)
      ultimately show ?thesis
        using "1.IH" [OF refl] le "1.prems" r by (subst frames.simps) (simp add: t2 r' Let_def)
    next
      case False
      then have "recs buf len off = ([], off)" by (subst recs.simps) simp
      moreover have "length ?b < 2 + unat ?w" using False True "1.prems" by auto
      ultimately show ?thesis by (subst frames.simps) (simp add: t2 Let_def)
    qed
  next
    case False
    then have "recs buf len off = ([], off)" by (subst recs.simps) simp
    moreover have "length ?b < 2 + k" for k using False "1.prems" by auto
    ultimately show ?thesis by (subst frames.simps) (simp add: Let_def)
  qed
qed

section \<open>A message is parsed from its own bytes\<close>

lemma make_dispatch_table_kType [simp]: "make_dispatch_table H (kType t) = entry H t"
  unfolding make_dispatch_table_def
  by (subst fold_table [OF inj_kType distinct_AllMessages]) (simp add: inv_f_f [OF inj_kType])

lemma length_rec_bytes [simp]: "p + n \<le> length buf \<Longrightarrow> length (rec_bytes buf (p, n)) = n"
  by (simp add: rec_bytes_def)

lemma rec_bytes_nth: "p + n \<le> length buf \<Longrightarrow> i < n \<Longrightarrow> rec_bytes buf (p, n) ! i = buf ! (p + i)"
  by (simp add: rec_bytes_def)

lemma decode_rec_bytes:
  assumes "p + kLength t \<le> length buf"
  shows "decode t (rec_bytes buf (p, kLength t)) 0 = decode t buf p"
proof -
  let ?b = "rec_bytes buf (p, kLength t)"
  have len: "length ?b = kLength t" using assms by simp
  obtain m where m: "decode t buf p = Some m" "mtype_of m = t" "wf_message m"
    "wire m = kType t # take (kLength t - 1) (drop (p + 1) buf)" using decode_ok [OF assms] by auto
  obtain m' where m': "decode t ?b 0 = Some m'" "mtype_of m' = t" "wf_message m'"
    "wire m' = kType t # take (kLength t - 1) (drop 1 ?b)"
    using decode_ok [of 0 t ?b] len by auto
  have "take (kLength t - 1) (drop 1 ?b) = take (kLength t - 1) (drop (p + 1) buf)"
    by (simp add: rec_bytes_def drop_take)
  then have "m = m'" using m m' by (intro wire_inj) simp_all
  with m(1) m'(1) show ?thesis by simp
qed

text \<open>
  What the parser does with the bytes of one record, as a function of the bytes alone: the
  specification of \<open>parse\<close>.
\<close>

datatype verdict = Empty_frame | Unknown_type | Bad_length | Message message

definition classify :: "u8 list \<Rightarrow> verdict" where
  "classify bs = (case bs of [] \<Rightarrow> Empty_frame
   | ty # _ \<Rightarrow>
     (case find (\<lambda>t. kType t = ty) AllMessages of
        None \<Rightarrow> Unknown_type
      | Some t \<Rightarrow> if length bs \<noteq> kLength t then Bad_length
                  else case decode t bs 0 of Some m \<Rightarrow> Message m | None \<Rightarrow> Bad_length))"

definition wanted :: "'h handler \<Rightarrow> message \<Rightarrow> 'h \<Rightarrow> bool" where
  "wanted H m h = (case wants H of None \<Rightarrow> True
     | Some w \<Rightarrow> w h (kType (mtype_of m)) (locate (header_of m)))"

definition count_message :: "u8 \<Rightarrow> parser_stats \<Rightarrow> parser_stats" where
  "count_message ty S = S\<lparr>messages := messages S + 1, by_type := (by_type S)(ty := by_type S ty + 1)\<rparr>"

fun apply_verdict :: "'h handler \<Rightarrow> verdict \<Rightarrow> 'h parser \<Rightarrow> 'h parser option" where
  "apply_verdict H Empty_frame P = Some (P\<lparr>stats := stats P\<lparr>empty := empty (stats P) + 1\<rparr>\<rparr>)"
| "apply_verdict H Unknown_type P =
     Some (P\<lparr>stats := stats P\<lparr>unknown_type := unknown_type (stats P) + 1\<rparr>\<rparr>)"
| "apply_verdict H Bad_length P =
     Some (P\<lparr>stats := stats P\<lparr>bad_length := bad_length (stats P) + 1\<rparr>\<rparr>)"
| "apply_verdict H (Message m) P =
     (let S = count_message (kType (mtype_of m)) (stats P) in
      if \<not> wanted H m (handler_state P)
      then Some (P\<lparr>stats := S\<lparr>filtered := filtered S + 1\<rparr>\<rparr>)
      else if handles H (mtype_of m)
      then map_option (\<lambda>h. P\<lparr>handler_state := h, stats := S\<rparr>) (on_msg H m (handler_state P))
      else Some (P\<lparr>stats := S\<rparr>))"

lemma find_kType: "find (\<lambda>t'. kType t' = kType t) AllMessages = Some t"
proof -
  have "find (\<lambda>t'. kType t' = kType t) AllMessages \<noteq> None" by (auto simp: find_None_iff)
  then obtain t' where f: "find (\<lambda>t'. kType t' = kType t) AllMessages = Some t'" by auto
  then have "kType t' = kType t" by (auto simp: find_Some_iff)
  then have "t' = t" by (rule kType_inj)
  with f show ?thesis by simp
qed

lemma find_kType_None: "ty \<notin> range kType \<Longrightarrow> find (\<lambda>t. kType t = ty) AllMessages = None"
  by (auto simp: find_None_iff)

lemma decode_locate:
  assumes "decode t buf p = Some m"
  shows "load_be16 buf (p + 1) = Some (locate (header_of m))"
  using assms by (auto simp: decode_def Option.bind_eq_Some_conv dest!: build_SomeD)

lemma decode_mtype: "decode t buf p = Some m \<Longrightarrow> mtype_of m = t"
  by (auto simp: decode_def Option.bind_eq_Some_conv dest: build_SomeD)

lemma classify_rec:
  assumes "p + n \<le> length buf"
  obtains (empty) "n = 0" "classify (rec_bytes buf (p, n)) = Empty_frame"
  | (unknown) "n \<noteq> 0" "rd buf p = Some (buf ! p)" "kMessageLength (buf ! p) = 0"
      "classify (rec_bytes buf (p, n)) = Unknown_type"
  | (bad) "n \<noteq> 0" "rd buf p = Some (buf ! p)" "kMessageLength (buf ! p) \<noteq> 0"
      "unat (kMessageLength (buf ! p)) \<noteq> n" "classify (rec_bytes buf (p, n)) = Bad_length"
  | (good) m where "n \<noteq> 0" "rd buf p = Some (buf ! p)" "buf ! p = kType (mtype_of m)"
      "n = kLength (mtype_of m)" "decode (mtype_of m) buf p = Some m"
      "classify (rec_bytes buf (p, n)) = Message m"
proof (cases "n = 0")
  case True
  then show ?thesis using empty by (simp add: classify_def rec_bytes_def)
next
  case False
  let ?b = "rec_bytes buf (p, n)" and ?ty = "buf ! p"
  obtain tb where b: "?b = ?ty # tb"
    using assms False by (auto simp: rec_bytes_def Cons_nth_drop_Suc [symmetric] take_Cons')
  have lb: "length (?ty # tb) = n" using b assms by (metis length_rec_bytes)
  have rd: "rd buf p = Some ?ty" using assms False by (simp add: rd_def)
  show ?thesis
  proof (cases rule: kMessageLength_cases [of ?ty])
    case ty: unknown
    have "classify ?b = Unknown_type"
      unfolding b using find_kType_None [OF ty(1)] by (simp add: classify_def)
    with False rd ty show ?thesis by (intro unknown) simp_all
  next
    case (known t)
    have nz: "kMessageLength ?ty \<noteq> 0" using known kLength_bounds(1) [of t] by auto
    show ?thesis
    proof (cases "n = kLength t")
      case nl: False
      have "classify ?b = Bad_length"
        unfolding b using lb find_kType [of t] known(1) nl by (simp add: classify_def)
      with False rd nz nl known(2) show ?thesis by (intro bad) simp_all
    next
      case nl: True
      obtain m where d: "decode t buf p = Some m" using decode_ok [of p t buf] assms nl by auto
      have d': "decode t ?b 0 = Some m" using decode_rec_bytes [of p t buf] assms nl d by simp
      have "classify ?b = Message m"
        using lb find_kType [of t] known(1) nl d' unfolding b by (simp add: classify_def)
      with False rd known(1) nl d decode_mtype [OF d] show ?thesis by (intro good [of m]) simp_all
    qed
  qed
qed

lemma parse_classify:
  assumes "p + n \<le> length buf"
  shows "parse H buf p n P = apply_verdict H (classify (rec_bytes buf (p, n))) P"
  using assms
proof (cases rule: classify_rec)
  case (good m)
  then show ?thesis using decode_locate [OF good(5)]
    by (simp add: parse_def Let_def wanted_def count_message_def call_table_def entry_def
        dispatch_def unat_kLength map_option_case split: option.splits)
qed (simp_all add: parse_def Let_def)

text \<open>A buffer and a handler for the witnesses.\<close>

definition delete_record :: "u8 list" where
  "delete_record = [0, 19, 0x44, 0, 7] @ replicate 15 0 @ [42]"

definition skip_handler :: "unit handler" where
  "skip_handler = \<lparr>handles = \<lambda>_. False, on_msg = \<lambda>_ _. None, wants = None, prefetch = None\<rparr>"

lemma foldO_recs_eq:
  assumes "len \<le> length buf" "set rs \<subseteq> set (fst (recs buf len off))"
  shows "foldO (\<lambda>(p, n). parse H buf p n) rs P =
    foldO (\<lambda>bs. apply_verdict H (classify bs)) (map (rec_bytes buf) rs) P"
  using assms(2)
proof (induction rs arbitrary: P)
  case Nil
  then show ?case by simp
next
  case (Cons r rs)
  obtain p n where r: "r = (p, n)" by fastforce
  obtain rs0 e where e: "recs buf len off = (rs0, e)" by fastforce
  have "p + n \<le> length buf" using recs_bounds [OF e, of p n] Cons.prems r e assms(1) by auto
  with Cons show ?case by (simp add: r parse_classify cong: Option.bind_cong)
qed

lemma parse_stream_cut:
  assumes "len \<le> length buf"
  shows "parse_stream H buf len P =
    (let (fs, rest) = frames (take len buf)
     in do { P' \<leftarrow> foldO (\<lambda>bs. apply_verdict H (classify bs)) fs P;
             Some (P', len - length rest) })"
proof -
  obtain rs e where r: "recs buf len 0 = (rs, e)" by fastforce
  have e: "e \<le> len" using recs_end [OF r] by simp
  have "frames (take len buf) = (map (rec_bytes buf) rs, drop e (take len buf))"
    using recs_frames [of len buf 0] assms r by simp
  moreover have "len - length (drop e (take len buf)) = e" using e assms by simp
  ultimately show ?thesis
    using foldO_recs_eq [OF assms, of rs 0 H P] by (simp add: parse_stream_eq [OF assms] r)
qed

text \<open>
  C11. The stream parser, functionally: cut the buffer into length-prefixed records, classify
  each from its own bytes alone, apply the verdicts in order, and stop before the trailing
  partial record, which stays unconsumed. In particular no read leaves the buffer: the only
  way not to return is that the handler itself does not.
\<close>

theorem parse_stream_spec:
  assumes "len \<le> length buf"
  shows "parse_stream H buf len P =
    (let (fs, rest) = frames (take len buf)
     in do { P' \<leftarrow> foldO (\<lambda>bs. apply_verdict H (classify bs)) fs P;
             Some (P', len - length rest) })"
  using assms by (rule parse_stream_cut)

theorem parse_stream_spec_witness:
  "parse_stream skip_handler [0, 1, 0x7A, 0] 4 (new_parser ()) =
    (let (fs, rest) = frames (take 4 [0, 1, 0x7A, 0])
     in do { P' \<leftarrow> foldO (\<lambda>bs. apply_verdict skip_handler (classify bs)) fs (new_parser ());
             Some (P', 4 - length rest) })"
  by (rule parse_stream_spec) simp

subsection \<open>Framing\<close>

definition framed :: "u8 list \<Rightarrow> u8 list" where
  "framed bs = be_bytes 2 (of_nat (length bs) :: u16) @ bs"

lemma frames_framed:
  assumes "length bs < 2 ^ 16"
  shows "frames (framed bs @ xs) = (let (fs, rest) = frames xs in (bs # fs, rest))"
proof -
  have "unat (be_word (be_bytes 2 (of_nat (length bs) :: u16)) :: u16) = length bs"
    using assms by (simp add: be_word_be_bytes unat_of_nat)
  then show ?thesis by (subst frames.simps) (simp add: framed_def Let_def)
qed

lemma frames_concat:
  assumes "\<forall>bs \<in> set ms. length bs < 2 ^ 16"
  shows "frames (concat (map framed ms) @ xs) = (let (fs, rest) = frames xs in (ms @ fs, rest))"
  using assms by (induction ms) (auto simp: frames_framed split: prod.splits)

lemma frames_partition: "frames bs = (fs, rest) \<Longrightarrow> bs = concat (map framed fs) @ rest"
proof (induction bs arbitrary: fs rest rule: frames.induct)
  case (1 bs)
  let ?n = "unat (be_word (take 2 bs) :: u16)"
  show ?case
  proof (cases "length bs < 2 + ?n")
    case True
    with "1.prems" show ?thesis by (subst (asm) frames.simps) (simp add: Let_def)
  next
    case False
    obtain fs' r where f: "frames (drop (2 + ?n) bs) = (fs', r)" by fastforce
    then have fs: "fs = take ?n (drop 2 bs) # fs'" "rest = r"
      using "1.prems" False by (subst (asm) (2) frames.simps, simp add: Let_def)+
    have "framed (take ?n (drop 2 bs)) = take 2 bs @ take ?n (drop 2 bs)"
      using False be_bytes_be_word [where 'w = 16, of "take 2 bs" 2]
      by (simp add: framed_def min_absorb2)
    moreover have "drop (2 + ?n) bs = concat (map framed fs') @ r"
      using "1.IH" [OF refl _ f] False by simp
    ultimately show ?thesis
      using append_take_drop_id [of 2 bs] append_take_drop_id [of ?n "drop 2 bs"]
      by (simp add: fs add.commute)
  qed
qed

lemma frames_rest:
  assumes "frames bs = (fs, rest)" "2 \<le> length rest"
  shows "length rest < 2 + unat (be_word (take 2 rest) :: u16)"
  using assms
proof (induction bs arbitrary: fs rule: frames.induct)
  case (1 bs)
  let ?n = "unat (be_word (take 2 bs) :: u16)"
  show ?case
  proof (cases "length bs < 2 + ?n")
    case True
    then have "frames bs = ([], bs)" by (subst frames.simps) (simp add: Let_def)
    with True "1.prems" show ?thesis by simp
  next
    case False
    obtain fs' r where f: "frames (drop (2 + ?n) bs) = (fs', r)" by fastforce
    then have "frames bs = (take ?n (drop 2 bs) # fs', r)"
      using False by (subst frames.simps) (simp add: Let_def)
    with "1.IH" [OF refl False, of fs'] f "1.prems" show ?thesis by simp
  qed
qed

lemma frames_length:
  assumes "frames bs = (fs, rest)" "m \<in> set fs"
  shows "length m < 2 ^ 16"
  using assms
proof (induction bs arbitrary: fs rest rule: frames.induct)
  case (1 bs)
  let ?n = "unat (be_word (take 2 bs) :: u16)"
  have n: "?n < 2 ^ 16" using unsigned_less [of "be_word (take 2 bs) :: u16"] by simp
  show ?case
  proof (cases "length bs < 2 + ?n")
    case True
    with "1.prems" show ?thesis by (subst (asm) frames.simps) (simp add: Let_def)
  next
    case False
    obtain fs' r where f: "frames (drop (2 + ?n) bs) = (fs', r)" by fastforce
    then have "frames bs = (take ?n (drop 2 bs) # fs', r)"
      using False by (subst frames.simps) (simp add: Let_def)
    with "1.IH" [OF refl False, of fs' r] f "1.prems" n show ?thesis by auto
  qed
qed

definition incomplete :: "u8 list \<Rightarrow> bool" where
  "incomplete xs \<longleftrightarrow> length xs < 2 + (if length xs < 2 then 0 else unat (be_word (take 2 xs) :: u16))"

lemma frames_incomplete: "incomplete xs \<Longrightarrow> frames xs = ([], xs)"
  by (subst frames.simps) (auto simp: incomplete_def Let_def split: if_splits)

text \<open>
  The cut into records is the inverse of framing, exactly: a buffer is cut into \<open>ms\<close> and
  a tail \<open>xs\<close> if and only if it is the records \<open>ms\<close>, each shorter than 64 KiB, written with
  their length prefixes, followed by a tail that does not hold a complete record.
\<close>

theorem frames_correct:
  "frames bs = (ms, xs) \<longleftrightarrow>
     bs = concat (map framed ms) @ xs \<and> list_all (\<lambda>m. length m < 2 ^ 16) ms \<and> incomplete xs"
proof
  assume f: "frames bs = (ms, xs)"
  then have "incomplete xs" using frames_rest [OF f] by (auto simp: incomplete_def)
  with f show "bs = concat (map framed ms) @ xs \<and> list_all (\<lambda>m. length m < 2 ^ 16) ms \<and> incomplete xs"
    using frames_length [OF f] by (simp add: frames_partition list_all_iff)
next
  assume "bs = concat (map framed ms) @ xs \<and> list_all (\<lambda>m. length m < 2 ^ 16) ms \<and> incomplete xs"
  then show "frames bs = (ms, xs)"
    using frames_concat [of ms xs] by (simp add: frames_incomplete list_all_iff)
qed

section \<open>Counting\<close>

fun verdict_counts :: "verdict list \<Rightarrow> u64 \<times> u64 \<times> u64 \<times> u64" where
  "verdict_counts [] = (0, 0, 0, 0)"
| "verdict_counts (v # vs) = (let (g, u, b, e) = verdict_counts vs in
     case v of Message _ \<Rightarrow> (g + 1, u, b, e) | Unknown_type \<Rightarrow> (g, u + 1, b, e)
     | Bad_length \<Rightarrow> (g, u, b + 1, e) | Empty_frame \<Rightarrow> (g, u, b, e + 1))"

lemma foldO_counts:
  assumes "foldO (\<lambda>bs. apply_verdict H (classify bs)) fs P = Some P'"
    and "verdict_counts (map classify fs) = (g, u, b, e)"
  shows "messages (stats P') = messages (stats P) + g \<and>
    unknown_type (stats P') = unknown_type (stats P) + u \<and>
    bad_length (stats P') = bad_length (stats P) + b \<and> empty (stats P') = empty (stats P) + e"
  using assms
proof (induction fs arbitrary: P g u b e)
  case Nil
  then show ?case by simp
next
  case (Cons x fs)
  obtain g' u' b' e' where c: "verdict_counts (map classify fs) = (g', u', b', e')"
    by (metis prod_cases4)
  obtain P1 where P1: "apply_verdict H (classify x) P = Some P1"
    "foldO (\<lambda>bs. apply_verdict H (classify bs)) fs P1 = Some P'"
    using Cons.prems(1) by (auto simp: Option.bind_eq_Some_conv)
  from Cons.IH [OF P1(2) c] P1(1) Cons.prems(2) c show ?case
    by (cases "classify x") (auto simp: count_message_def Let_def split: if_splits)
qed

lemma scan_from_eq:
  assumes "len \<le> length buf"
    and "verdict_counts (map (\<lambda>r. classify (rec_bytes buf r)) (fst (recs buf len off))) = (g, u, b, e)"
  shows "scan_from buf len f off r s =
    Some (\<lparr>fs_consumed = snd (recs buf len off), fs_frames = fs_frames r + g,
             fs_malformed = fs_malformed r + (u + b), fs_empty = fs_empty r + e\<rparr>,
          fold (\<lambda>(p, n). f \<lparr>fr_data = p, fr_len = n\<rparr>)
            (filter (\<lambda>r. \<exists>m. classify (rec_bytes buf r) = Message m) (fst (recs buf len off))) s)"
  using assms
proof (induction buf len f off r s arbitrary: g u b e rule: scan_from.induct)
  case (1 buf len f off r s)
  let ?w = "be_word (take 2 (drop off buf)) :: u16"
  show ?case
  proof (cases "off + 2 + unat ?w \<le> len")
    case False
    then have "recs buf len off = ([], off)" by (subst recs.simps) simp
    with False "1.prems" show ?thesis
      by (cases "off + 2 \<le> len"; subst scan_from.simps) (simp_all add: load_be16_in)
  next
    case True
    then have ld: "load_be16 buf off = Some ?w" using "1.prems" by (intro load_be16_in) simp
    obtain rs e0 where r: "recs buf len (off + 2 + unat ?w) = (rs, e0)" by fastforce
    then have r': "recs buf len off = ((off + 2, unat ?w) # rs, e0)"
      using True by (subst recs.simps) simp
    obtain g' u' b' e' where
      c: "verdict_counts (map (\<lambda>r. classify (rec_bytes buf r)) rs) = (g', u', b', e')"
      by (metis prod_cases4)
    note [simp] = unat_eq_zero
    note IH = "1.IH"(1) [OF _ ld, of g' u' b' e'] "1.IH"(2) [OF _ ld, of _ g' u' b' e']
      "1.IH"(3) [OF _ ld, of _ g' u' b' e']
    have in_buf: "(off + 2) + unat ?w \<le> length buf" using True "1.prems"(1) by simp
    have o2: "off + 2 \<le> len" "\<not> len < off + 2 + unat ?w" using True by simp_all
    show ?thesis
      using in_buf
    proof (cases rule: classify_rec)
      case empty
      then have "?w = 0" by simp
      then show ?thesis using IH(1) o2 "1.prems" c empty r r'
        by (subst scan_from.simps) (auto simp: ld algebra_simps)
    next
      case unknown
      then show ?thesis using IH(2) o2 "1.prems" c r r'
        by (subst scan_from.simps) (auto simp: ld)
    next
      case bad
      then show ?thesis using IH(2) o2 "1.prems" c r r'
        by (subst scan_from.simps) (auto simp: ld)
    next
      case (good m)
      then have "kMessageLength (buf ! (off + 2)) = ?w"
        by (metis unat_kLength kMessageLength_kType word_unat_eq_iff)
      then show ?thesis using IH(3) o2 "1.prems" c r r' good
        by (subst scan_from.simps) (auto simp: ld)
    qed
  qed
qed

text \<open>
  The dispatch-free walk and the stream parser see the same records: the walk always
  returns, consumes the same bytes, calls back exactly the well-formed records in order, and
  its counters are the amounts by which the parser's statistics grow (bad lengths and unknown
  types together are its \<open>malformed\<close>).
\<close>

theorem for_each_frame_agrees:
  assumes len: "len \<le> length buf" and ps: "parse_stream H buf len P = Some (P', off)"
  shows "\<exists>r. for_each_frame buf len f s = Some (r,
      fold (\<lambda>(p, n). f \<lparr>fr_data = p, fr_len = n\<rparr>)
        (filter (\<lambda>r. \<exists>m. classify (rec_bytes buf r) = Message m) (fst (recs buf len 0))) s) \<and>
    fs_consumed r = off \<and>
    messages (stats P') = messages (stats P) + fs_frames r \<and>
    unknown_type (stats P') + bad_length (stats P') =
      unknown_type (stats P) + bad_length (stats P) + fs_malformed r \<and>
    empty (stats P') = empty (stats P) + fs_empty r"
proof -
  obtain rs e where r: "recs buf len 0 = (rs, e)" by fastforce
  obtain g u b z where c: "verdict_counts (map (\<lambda>r. classify (rec_bytes buf r)) rs) = (g, u, b, z)"
    by (metis prod_cases4)
  from ps obtain off: "off = e" and fo: "foldO (\<lambda>(p, n). parse H buf p n) rs P = Some P'"
    by (auto simp: parse_stream_eq [OF len] r Option.bind_eq_Some_conv)
  have fo': "foldO (\<lambda>bs. apply_verdict H (classify bs)) (map (rec_bytes buf) rs) P = Some P'"
    using fo foldO_recs_eq [OF len, of rs 0 H P] r by simp
  have c': "verdict_counts (map classify (map (rec_bytes buf) rs)) = (g, u, b, z)"
    using c by (simp add: comp_def)
  from foldO_counts [OF fo' c'] have cnt: "messages (stats P') = messages (stats P) + g"
    "unknown_type (stats P') = unknown_type (stats P) + u"
    "bad_length (stats P') = bad_length (stats P) + b" "empty (stats P') = empty (stats P) + z"
    by simp_all
  show ?thesis
    using scan_from_eq [OF len, of 0 g u b z f
        "\<lparr>fs_consumed = 0, fs_frames = 0, fs_malformed = 0, fs_empty = 0\<rparr>" s] c
    by (auto simp: for_each_frame_def r off cnt)
qed

lemma apply_verdict_returns:
  assumes "I (handler_state P)" "\<And>m h. I h \<Longrightarrow> handles H (mtype_of m) \<Longrightarrow> \<exists>h'. on_msg H m h = Some h' \<and> I h'"
  shows "\<exists>P'. apply_verdict H v P = Some P' \<and> I (handler_state P')"
  using assms by (cases v) (fastforce simp: Let_def)+

lemma parse_returns:
  assumes "p + n \<le> length buf" "I (handler_state P)"
    and "\<And>m h. I h \<Longrightarrow> handles H (mtype_of m) \<Longrightarrow> \<exists>h'. on_msg H m h = Some h' \<and> I h'"
  shows "\<exists>P'. parse H buf p n P = Some P' \<and> I (handler_state P')"
  unfolding parse_classify [OF assms(1)] using assms(2,3) by (rule apply_verdict_returns)

lemma parse_stream_returns:
  assumes len: "len \<le> length buf" and init: "I (handler_state P)"
    and op: "\<And>m h. I h \<Longrightarrow> handles H (mtype_of m) \<Longrightarrow> \<exists>h'. on_msg H m h = Some h' \<and> I h'"
  shows "\<exists>P' off. parse_stream H buf len P = Some (P', off) \<and> I (handler_state P') \<and> off \<le> len"
proof -
  obtain fs rest where f: "frames (take len buf) = (fs, rest)" by fastforce
  note one = apply_verdict_returns [where I = I, OF _ op]
  have "\<exists>P'. foldO (\<lambda>bs. apply_verdict H (classify bs)) fs P = Some P' \<and> I (handler_state P')"
    using init one by (intro foldO_total [where I = "\<lambda>Q. I (handler_state Q)"]) auto
  then show ?thesis by (auto simp: parse_stream_cut [OF len] f)
qed

text \<open>
  Parsing a buffer always ends normally inside the buffer when the handler's operations
  do: an invariant \<open>I\<close> of the handler's state under which its operations end and which they
  keep is enough, whatever the bytes of the buffer are.
\<close>

theorem parse_stream_total:
  assumes len: "len \<le> length buf" and init: "I (handler_state P)"
    and op: "\<And>m h. I h \<Longrightarrow> handles H (mtype_of m) \<Longrightarrow> \<exists>h'. on_msg H m h = Some h' \<and> I h'"
  shows "\<exists>P' off. parse_stream H buf len P = Some (P', off) \<and> I (handler_state P') \<and> off \<le> len"
  using assms by (rule parse_stream_returns)

theorem parse_stream_total_witness:
  "\<exists>P' off. parse_stream skip_handler (delete_record @ [0]) 22 (new_parser ()) = Some (P', off) \<and>
     True \<and> off \<le> 22"
  by (rule parse_stream_total [where I = "\<lambda>_. True"])
    (simp_all add: delete_record_def skip_handler_def)

theorem for_each_frame_agrees_witness:
  "\<exists>r s P' off. for_each_frame (delete_record @ [0]) 22 (\<lambda>f n. n + fr_len f) 0 = Some (r, s) \<and>
     parse_stream skip_handler (delete_record @ [0]) 22 (new_parser ()) = Some (P', off) \<and>
     fs_consumed r = off \<and> messages (stats P') = messages (stats (new_parser ())) + fs_frames r"
proof -
  obtain P' off where p: "parse_stream skip_handler (delete_record @ [0]) 22 (new_parser ()) = Some (P', off)"
    using parse_stream_returns [of 22 "delete_record @ [0]" "\<lambda>_. True" "new_parser ()" skip_handler]
    by (auto simp: delete_record_def skip_handler_def)
  from for_each_frame_agrees [OF _ p, of "\<lambda>f n. n + fr_len f" 0] p show ?thesis
    by (fastforce simp: delete_record_def)
qed

section \<open>Prefetch lookahead\<close>

text \<open>
  The interface of a prefetching handler: a hint for a record inside the buffer reads nothing
  outside that record.
\<close>

locale lookahead_handler =
  fixes H :: "'h handler" and pf :: "'h \<Rightarrow> mem \<Rightarrow> nat \<Rightarrow> nat \<Rightarrow> unit option"
  assumes prefetch_is: "prefetch H = Some pf"
    and prefetch_safe: "p + n \<le> length buf \<Longrightarrow> pf h buf p n = Some ()"
begin

lemma prefetch_next_eq:
  assumes "len \<le> length buf" "recs buf len ahead = (rs, e)"
  shows "\<exists>ahead'. prefetch_next pf buf len h (ahead, hints) = Some (ahead', hints @ take 1 rs) \<and>
    recs buf len ahead' = (tl rs, e)"
proof -
  let ?w = "be_word (take 2 (drop ahead buf)) :: u16"
  from assms(2) show ?thesis
  proof (cases rule: recs_unfold)
    case last
    then show ?thesis using assms
      by (cases "ahead + 2 \<le> len") (auto simp: prefetch_next_def load_be16_in)
  next
    case (more n rs')
    have ld: "load_be16 buf ahead = Some ?w"
      using more(4) assms(1) by (intro load_be16_in) simp
    have "pf h buf (ahead + 2) n = Some ()"
      using more(4) assms(1) by (intro prefetch_safe) simp
    with ld more assms show ?thesis by (auto simp: prefetch_next_def)
  qed
qed

lemma prologue_eq:
  assumes "len \<le> length buf" "recs buf len ahead = (rs, e)"
  shows "\<exists>ahead'. foldO (\<lambda>_. prefetch_next pf buf len h) ks (ahead, hints) =
      Some (ahead', hints @ take (length ks) rs) \<and> recs buf len ahead' = (drop (length ks) rs, e)"
  using assms(2)
proof (induction ks arbitrary: ahead rs hints)
  case Nil
  then show ?case by simp
next
  case (Cons k ks)
  obtain ahead1 where a: "prefetch_next pf buf len h (ahead, hints) = Some (ahead1, hints @ take 1 rs)"
    "recs buf len ahead1 = (tl rs, e)" using prefetch_next_eq [OF assms(1) Cons.prems] by blast
  show ?case
    using Cons.IH [OF a(2), of "hints @ take 1 rs"] a(1)
    by (cases rs) (auto simp: drop_Suc)
qed

lemma prefetch_stream_from_eq:
  assumes "len \<le> length buf" "recs buf len off = (rs, e)" "0 < k"
    and "recs buf len ahead = (drop k rs, e)"
  shows "prefetch_stream_from H pf buf len off (ahead, hints @ take k rs) P =
    do { P' \<leftarrow> foldO (\<lambda>(p, n). parse H buf p n) rs P; Some (P', e, hints @ rs) }"
  using assms(2,4)
proof (induction rs arbitrary: off ahead hints P)
  case Nil
  from Nil.prems(1) show ?case
  proof (cases rule: recs_unfold)
    case last
    then show ?thesis using assms(1)
      by (cases "off + 2 \<le> len"; subst prefetch_stream_from.simps) (simp_all add: load_be16_in)
  qed simp
next
  case (Cons r rs)
  from Cons.prems(1) show ?case
  proof (cases rule: recs_unfold)
    case (more n rs')
    have ld: "load_be16 buf off = Some (be_word (take 2 (drop off buf)))"
      using more(4) assms(1) by (intro load_be16_in) simp
    let ?k = "if drop k (r # rs) = [] then Suc (length rs) else k"
    have step: "\<exists>ahead'. prefetch_next pf buf len h (ahead, hints @ take k (r # rs)) =
        Some (ahead', (hints @ [r]) @ take k rs) \<and> recs buf len ahead' = (drop k rs, e)" for h
    proof -
      have "take k (r # rs) @ take 1 (drop k (r # rs)) = r # take k rs"
        using \<open>0 < k\<close> by (metis One_nat_def Suc_eq_plus1 take_Suc_Cons take_add)
      moreover have "tl (drop k (r # rs)) = drop k rs"
        by (metis drop_Suc list.sel(3) tl_drop)
      ultimately show ?thesis
        using prefetch_next_eq [OF assms(1) Cons.prems(2), of h "hints @ take k (r # rs)"] by auto
    qed
    show ?thesis
    proof (cases "parse H buf (off + 2) n P")
      case None
      with more ld show ?thesis by (subst prefetch_stream_from.simps) simp
    next
      case (Some P1)
      obtain ahead' where a: "prefetch_next pf buf len (handler_state P1)
          (ahead, hints @ take k (r # rs)) = Some (ahead', (hints @ [r]) @ take k rs)"
        "recs buf len ahead' = (drop k rs, e)" using step by blast
      have "prefetch_stream_from H pf buf len off (ahead, hints @ take k (r # rs)) P =
          prefetch_stream_from H pf buf len (off + 2 + n) (ahead', (hints @ [r]) @ take k rs) P1"
        using more ld Some a(1) by (subst prefetch_stream_from.simps) simp
      also have "\<dots> = do { P' \<leftarrow> foldO (\<lambda>(p, n). parse H buf p n) rs P1;
          Some (P', e, (hints @ [r]) @ rs) }"
        using more a(2) by (intro Cons.IH) simp_all
      finally show ?thesis using more Some by simp
    qed
  qed simp
qed

lemma parse_stream_prefetch_eq:
  assumes "len \<le> length buf" "0 < D"
  shows "parse_stream_prefetch D H buf len P =
    do { (P', off) \<leftarrow> parse_stream H buf len P; Some (P', off, fst (recs buf len 0)) }"
proof -
  obtain rs e where r: "recs buf len 0 = (rs, e)" by fastforce
  obtain ahead where a: "foldO (\<lambda>_. prefetch_next pf buf len (handler_state P)) [0..<D] (0, []) =
      Some (ahead, take D rs)" "recs buf len ahead = (drop D rs, e)"
    using prologue_eq [OF assms(1) r, of "handler_state P" "[0..<D]" "[]"] by auto
  show ?thesis
    using prefetch_stream_from_eq [OF assms(1) r assms(2) a(2), of "[]" P] assms a(1)
    by (simp add: parse_stream_prefetch_def prefetch_is parse_stream_eq r)
qed

end

section \<open>What reaches the handler is well typed\<close>

lemma classify_wire: "wf_message m \<Longrightarrow> classify (wire m) = Message m"
proof -
  assume wf: "wf_message m"
  let ?t = "mtype_of m"
  have l: "length (wire m) = kLength ?t" using wf by (intro length_wire wf_message_fit)
  obtain bs where w: "wire m = kType ?t # bs" by (simp add: wire_def)
  obtain m' where m': "decode ?t (wire m) 0 = Some m'" "mtype_of m' = ?t" "wf_message m'"
    "wire m' = kType ?t # take (kLength ?t - 1) (drop (0 + 1) (wire m))"
    using decode_ok [of 0 ?t "wire m"] l by auto
  have "wire m' = wire m" using m'(4) l by (simp add: w)
  then have "m' = m" using m'(2,3) wf by (intro wire_inj)
  then show ?thesis using m'(1) l find_kType [of ?t] by (simp add: classify_def w)
qed

text \<open>A record of a known type and of the length that its type has.\<close>

definition typed_record :: "u8 list \<Rightarrow> bool" where
  "typed_record f \<longleftrightarrow> f \<noteq> [] \<and> kMessageLength (hd f) \<noteq> 0 \<and> length f = unat (kMessageLength (hd f))"

lemma classify_typed:
  "if typed_record f then \<exists>m. classify f = Message m \<and> wf_message m \<and> wire m = f else \<forall>m. classify f \<noteq> Message m"
proof -
  have b: "rec_bytes f (0, length f) = f" by (simp add: rec_bytes_def)
  have hd: "f \<noteq> [] \<Longrightarrow> hd f = f ! 0" by (rule hd_conv_nth)
  have le: "0 + length f \<le> length f" by simp
  from le show ?thesis
  proof (cases rule: classify_rec)
    case (good m)
    obtain m' where m': "decode (mtype_of m) f 0 = Some m'" "wf_message m'" "wire m' = kType (mtype_of m) # take (kLength (mtype_of m) - 1) (drop 1 f)"
      using decode_ok [of 0 "mtype_of m" f] good(4) by auto
    have "wire m' = f" using m'(3) good(1,3,4) by (cases f) simp_all
    then have "wf_message m" "wire m = f" using m'(1,2) good(5) by simp_all
    moreover have "typed_record f"
    proof -
      have n: "unat (kMessageLength (kType (mtype_of m))) = kLength (mtype_of m)" by (simp add: unat_kLength)
      have ne: "f \<noteq> []" using good(1) by auto
      from n have "kMessageLength (kType (mtype_of m)) \<noteq> 0" using kLength_bounds(1) [of "mtype_of m"] by auto
      then show ?thesis using n ne good(3,4) hd unfolding typed_record_def by metis
    qed
    moreover have "classify f = Message m" using good(6) b by simp
    ultimately show ?thesis by auto
  qed (use b hd in \<open>auto simp: typed_record_def\<close>)
qed

text \<open>A handler that keeps every message it is given.\<close>

definition recorder :: "message list handler" where
  "recorder = \<lparr>handles = (\<lambda>_. True), on_msg = (\<lambda>m ms. Some (ms @ [m])), wants = None, prefetch = None\<rparr>"

lemma recorder_run:
  "\<exists>P'. foldO (\<lambda>bs. apply_verdict recorder (classify bs)) fs P = Some P' \<and>
    (\<exists>ms. handler_state P' = handler_state P @ ms \<and> list_all wf_message ms \<and> map wire ms = filter typed_record fs)"
proof (induction fs arbitrary: P)
  case (Cons f fs)
  show ?case
  proof (cases "typed_record f")
    case True
    then obtain m where m: "classify f = Message m" "wf_message m" "wire m = f" using classify_typed [of f] by auto
    define P1 where "P1 = P\<lparr>handler_state := handler_state P @ [m], stats := count_message (kType (mtype_of m)) (stats P)\<rparr>"
    have "apply_verdict recorder (classify f) P = Some P1" by (simp add: m(1) P1_def recorder_def wanted_def Let_def)
    moreover obtain P' ms where "foldO (\<lambda>bs. apply_verdict recorder (classify bs)) fs P1 = Some P'" "handler_state P' = handler_state P1 @ ms"
      "list_all wf_message ms" "map wire ms = filter typed_record fs" using Cons.IH by blast
    ultimately show ?thesis using True m(2,3) by (intro exI [of _ P']) (simp add: P1_def)
  next
    case False
    then have "\<exists>P1. apply_verdict recorder (classify f) P = Some P1 \<and> handler_state P1 = handler_state P"
      using classify_typed [of f] by (cases "classify f") simp_all
    then obtain P1 where P1: "apply_verdict recorder (classify f) P = Some P1" "handler_state P1 = handler_state P" by blast
    then show ?thesis using False Cons.IH [of P1] by simp
  qed
qed simp

text \<open>
  C13. Every message that a handler is given is well typed and no well-typed record is lost: over any bytes, the messages handed out are well formed (every field fits its
  type, the timestamp 48 bits), and on the wire they are, in order, exactly the records that have a known type byte and the length of that type.
\<close>

theorem parser_delivers_well_typed:
  "\<exists>P used ms. parse_stream recorder buf (length buf) (new_parser []) = Some (P, used) \<and> handler_state P = ms \<and>
    list_all wf_message ms \<and> map wire ms = filter typed_record (fst (frames buf))"
  using recorder_run [of "fst (frames buf)" "new_parser []"]
  by (auto simp: parse_stream_cut case_prod_beta new_parser_def)

end
