(* ===== verification/Mold.thy ===== *)
theory Mold
  imports Parser
begin

text \<open>
  \<^verbatim>\<open>include/itch/mold_udp64.hpp\<close>: MoldUDP64 framing and the sequencer that detects gaps and
  drops the duplicates of a redundant feed. The \<open>deliver\<close> callback has no access to the
  sequencer, so a packet's calls to it are returned as a list: offset, length and sequence
  number of each delivered message, in the order of the calls.
\<close>

section \<open>The sequencer\<close>

definition kMoldHeaderLength :: nat where
  "kMoldHeaderLength = 20"

definition kMoldHeartbeat :: u16 where
  "kMoldHeartbeat = 0"

definition kMoldEndOfSession :: u16 where
  "kMoldEndOfSession = 0xFFFF"

record mold_header =
  mh_session :: alpha
  mh_sequence :: u64
  mh_count :: u16

text \<open>\<open>Some None\<close> is the return value \<open>false\<close>; \<open>None\<close> would be a read outside the packet.\<close>

definition parse_mold_header :: "mem \<Rightarrow> nat \<Rightarrow> mold_header option option" where
  "parse_mold_header pkt len =
     (if len < kMoldHeaderLength then Some None
      else do {
        ses \<leftarrow> rd_n pkt 0 10;
        sq \<leftarrow> load_be64 pkt 10;
        cnt \<leftarrow> load_be16 pkt 18;
        Some (Some \<lparr>mh_session = ses, mh_sequence = sq, mh_count = cnt\<rparr>) })"

record mold_result =
  delivered :: u64
  gap_first :: u64
  gap_count :: u64
  malformed :: bool
  end_of_session :: bool
  session_changed :: bool

definition mold_result0 :: mold_result where
  "mold_result0 = \<lparr>delivered = 0, gap_first = 0, gap_count = 0, malformed = False,
     end_of_session = False, session_changed = False\<rparr>"

record mold_sequencer =
  seq_session :: alpha
  seq_next :: u64

definition new_sequencer :: mold_sequencer where
  "new_sequencer = \<lparr>seq_session = replicate 10 0, seq_next = 0\<rparr>"

type_synonym delivery = "nat \<times> nat \<times> u64"

text \<open>The loop over the message blocks: \<open>k\<close> blocks are left, the next one is number \<open>i\<close>.\<close>

fun mold_blocks ::
  "mem \<Rightarrow> nat \<Rightarrow> u64 \<Rightarrow> nat \<Rightarrow> nat \<Rightarrow> nat \<Rightarrow> mold_sequencer \<Rightarrow> mold_result \<Rightarrow> delivery list \<Rightarrow>
     (mold_sequencer \<times> mold_result \<times> delivery list) option" where
  "mold_blocks pkt len sq i 0 off S r dl = Some (S, r, dl)"
| "mold_blocks pkt len sq i (Suc k) off S r dl =
     (if off + 2 > len then Some (S, r\<lparr>malformed := True\<rparr>, dl)
      else do {
        n \<leftarrow> load_be16 pkt off;
        if off + 2 + unat n > len then Some (S, r\<lparr>malformed := True\<rparr>, dl)
        else
          let s = sq + of_nat i in
          if s = seq_next S then
            mold_blocks pkt len sq (Suc i) k (off + 2 + unat n) (S\<lparr>seq_next := seq_next S + 1\<rparr>)
              (r\<lparr>delivered := delivered r + 1\<rparr>) (dl @ [(off + 2, unat n, s)])
          else mold_blocks pkt len sq (Suc i) k (off + 2 + unat n) S r dl })"

definition note_gap :: "u64 \<Rightarrow> mold_sequencer \<times> mold_result \<Rightarrow> mold_sequencer \<times> mold_result" where
  "note_gap sq = (\<lambda>(S, r).
     if sq > seq_next S
     then (S\<lparr>seq_next := sq\<rparr>, r\<lparr>gap_first := seq_next S, gap_count := sq - seq_next S\<rparr>)
     else (S, r))"

definition rebaseline :: "mold_header \<Rightarrow> mold_sequencer \<Rightarrow> mold_sequencer \<times> mold_result" where
  "rebaseline h S =
     (if seq_next S = 0 \<or> mh_session h \<noteq> seq_session S
      then (\<lparr>seq_session = mh_session h, seq_next = mh_sequence h\<rparr>,
            mold_result0\<lparr>session_changed := seq_next S \<noteq> 0\<rparr>)
      else (S, mold_result0))"

definition on_packet ::
  "mem \<Rightarrow> nat \<Rightarrow> mold_sequencer \<Rightarrow> (mold_sequencer \<times> mold_result \<times> delivery list) option" where
  "on_packet pkt len S = do {
     ho \<leftarrow> parse_mold_header pkt len;
     case ho of
       None \<Rightarrow> Some (S, mold_result0\<lparr>malformed := True\<rparr>, [])
     | Some h \<Rightarrow>
         if mh_count h = kMoldEndOfSession
         then Some (S, mold_result0\<lparr>end_of_session := True\<rparr>, [])
         else
           let (S2, r2) = note_gap (mh_sequence h) (rebaseline h S) in
           if mh_count h = kMoldHeartbeat then Some (S2, r2, [])
           else mold_blocks pkt len (mh_sequence h) 0 (unat (mh_count h)) kMoldHeaderLength S2 r2 [] }"

text \<open>The first sequence number, and the first after the packet, do not wrap.\<close>

definition no_wrap :: "mold_header \<Rightarrow> bool" where
  "no_wrap h \<longleftrightarrow> unat (mh_sequence h) + unat (mh_count h) < 2 ^ 64"

section \<open>One packet\<close>

lemma header_read:
  assumes "len \<le> length pkt"
  obtains (short) "len < 20" "parse_mold_header pkt len = Some None"
  | (ok) h where "20 \<le> len" "parse_mold_header pkt len = Some (Some h)" "length (mh_session h) = 10"
  using assms
  by (cases "len < 20") (auto simp: parse_mold_header_def kMoldHeaderLength_def load_be_eq mem_simps)

lemma unat_Suc_word: "unat (w :: 'a::len word) + 1 < 2 ^ LENGTH('a) \<Longrightarrow> unat (w + 1) = unat w + 1"
  by (simp add: unat_word_ariths)

lemma unat_add_of_nat:
  "unat (w :: 'a::len word) + i < 2 ^ LENGTH('a) \<Longrightarrow> unat (w + of_nat i) = unat w + i"
  by (simp add: unat_word_ariths unat_of_nat)

text \<open>The complete blocks of a packet, at most \<open>k\<close> of them: position and length.\<close>

fun block_list :: "mem \<Rightarrow> nat \<Rightarrow> nat \<Rightarrow> nat \<Rightarrow> (nat \<times> nat) list" where
  "block_list pkt len 0 off = []"
| "block_list pkt len (Suc k) off =
     (let n = unat (be_word (take 2 (drop off pkt)) :: u16) in
      if off + 2 + n > len then [] else (off + 2, n) # block_list pkt len k (off + 2 + n))"

text \<open>Consecutive sequence numbers for a list of blocks.\<close>

fun numbered :: "u64 \<Rightarrow> (nat \<times> nat) list \<Rightarrow> delivery list" where
  "numbered s [] = []"
| "numbered s ((p, n) # bs) = (p, n, s) # numbered (s + 1) bs"

lemma length_numbered [simp]: "length (numbered s bs) = length bs"
  by (induction s bs rule: numbered.induct) auto

lemma numbered_seqs:
  "unat s + length bs < 2 ^ 64 \<Longrightarrow>
     map (\<lambda>(_, _, t). unat t) (numbered s bs) = [unat s..<unat s + length bs]"
proof (induction s bs rule: numbered.induct)
  case (2 s p n bs)
  then have "unat (s + 1) = unat s + 1" by (intro unat_Suc_word) simp
  with 2 show ?case by (simp add: upt_conv_Cons del: upt_Suc)
qed simp

lemma numbered_blocks: "map (\<lambda>(p, n, _). (p, n)) (numbered s bs) = bs"
  by (induction s bs rule: numbered.induct) auto

lemma length_block_list: "length (block_list pkt len k off) \<le> k"
  by (induction pkt len k off rule: block_list.induct) (auto simp: Let_def)

lemma block_list_bounds:
  "(p, n) \<in> set (block_list pkt len k off) \<Longrightarrow> off + 2 \<le> p \<and> p + n \<le> len"
  by (induction pkt len k off rule: block_list.induct) (force simp: Let_def split: if_splits)+

text \<open>
  The loop in closed form: of the complete blocks, those below the expected sequence number
  are skipped and the rest are delivered with consecutive numbers.
\<close>

lemma mold_blocks_eq:
  assumes "len \<le> length pkt" "unat sq + i + k < 2 ^ 64" "unat sq + i \<le> unat (seq_next S)"
  shows "mold_blocks pkt len sq i k off S r dl =
    (let bs = block_list pkt len k off; new = drop (unat (seq_next S) - (unat sq + i)) bs in
     Some (S\<lparr>seq_next := seq_next S + of_nat (length new)\<rparr>,
           r\<lparr>delivered := delivered r + of_nat (length new),
             malformed := (malformed r \<or> length bs < k)\<rparr>,
           dl @ numbered (seq_next S) new))"
  using assms(2,3)
proof (induction k arbitrary: i off S r dl)
  case 0
  then show ?case by simp
next
  case (Suc k)
  let ?w = "be_word (take 2 (drop off pkt)) :: u16"
  show ?case
  proof (cases "off + 2 + unat ?w \<le> len")
    case False
    then show ?thesis using assms(1)
      by (cases "off + 2 \<le> len") (simp_all add: load_be16_in)
  next
    case True
    have ld: "load_be16 pkt off = Some ?w" using True assms(1) by (intro load_be16_in) simp
    let ?s = "sq + of_nat i" and ?off = "off + 2 + unat ?w"
    have s: "unat ?s = unat sq + i" using Suc.prems by (intro unat_add_of_nat) simp
    have lt: "\<not> len < ?off" "\<not> len < off + 2" using True by simp_all
    show ?thesis
    proof (cases "?s = seq_next S")
      case False
      then have le: "unat sq + Suc i \<le> unat (seq_next S)"
        using s Suc.prems by (metis le_neq_implies_less Suc_leI add_Suc_right word_unat_eq_iff)
      then have d: "unat (seq_next S) - (unat sq + i) = Suc (unat (seq_next S) - (unat sq + Suc i))"
        by simp
      show ?thesis
        using Suc.IH [of "Suc i" S ?off r dl] Suc.prems lt ld False le
        unfolding mold_blocks.simps block_list.simps d by (simp add: Let_def)
    next
      case eq: True
      have n: "unat (seq_next S + 1) = unat (seq_next S) + 1"
        using s eq Suc.prems by (intro unat_Suc_word) simp
      have d: "unat (seq_next S) - (unat sq + i) = 0"
        "unat (seq_next S + 1) - (unat sq + Suc i) = 0" using s eq n by simp_all
      show ?thesis
        using Suc.IH [of "Suc i" "S\<lparr>seq_next := seq_next S + 1\<rparr>" ?off
            "r\<lparr>delivered := delivered r + 1\<rparr>" "dl @ [(off + 2, unat ?w, ?s)]"] Suc.prems lt ld eq n s
        unfolding mold_blocks.simps block_list.simps d
        by (simp add: Let_def d algebra_simps)
    qed
  qed
qed

lemma note_gap_eq:
  "note_gap sq (S, r) = (S\<lparr>seq_next := max (seq_next S) sq\<rparr>,
     (if seq_next S < sq then r\<lparr>gap_first := seq_next S, gap_count := sq - seq_next S\<rparr> else r))"
  by (auto simp: note_gap_def max_def)

section \<open>Whole packets\<close>

text \<open>The specification of one packet that holds messages or is a heartbeat.\<close>

definition packet_blocks :: "mem \<Rightarrow> nat \<Rightarrow> mold_header \<Rightarrow> (nat \<times> nat) list" where
  "packet_blocks pkt len h = block_list pkt len (unat (mh_count h)) kMoldHeaderLength"

definition packet_spec ::
  "mem \<Rightarrow> nat \<Rightarrow> mold_header \<Rightarrow> mold_sequencer \<Rightarrow> mold_sequencer \<times> mold_result \<times> delivery list" where
  "packet_spec pkt len h S =
     (let S0 = fst (rebaseline h S);
          bs = packet_blocks pkt len h;
          start = max (seq_next S0) (mh_sequence h);
          new = drop (unat start - unat (mh_sequence h)) bs in
      (\<lparr>seq_session = mh_session h, seq_next = start + of_nat (length new)\<rparr>,
       \<lparr>delivered = of_nat (length new),
        gap_first = (if seq_next S0 < mh_sequence h then seq_next S0 else 0),
        gap_count = (if seq_next S0 < mh_sequence h then mh_sequence h - seq_next S0 else 0),
        malformed = (length bs < unat (mh_count h)),
        end_of_session = False,
        session_changed = (seq_next S \<noteq> 0 \<and> mh_session h \<noteq> seq_session S)\<rparr>,
       numbered start new))"

lemma rebaseline_session: "seq_session (fst (rebaseline h S)) = mh_session h"
  by (auto simp: rebaseline_def)

lemma on_packet_eq:
  assumes len: "len \<le> length pkt" and h: "parse_mold_header pkt len = Some (Some h)"
    and w: "no_wrap h" and e: "mh_count h \<noteq> kMoldEndOfSession"
  shows "on_packet pkt len S = Some (packet_spec pkt len h S)"
proof -
  obtain S0 r0 where b: "rebaseline h S = (S0, r0)" by fastforce
  have ses: "seq_session S0 = mh_session h" using rebaseline_session [of h S] b by simp
  have r0: "r0 = mold_result0\<lparr>session_changed := seq_next S \<noteq> 0 \<and> mh_session h \<noteq> seq_session S\<rparr>"
    using b by (auto simp: rebaseline_def mold_result0_def split: if_splits)
  have nw: "unat (mh_sequence h) + 0 + unat (mh_count h) < 2 ^ 64" using w by (simp add: no_wrap_def)
  let ?S = "S0\<lparr>seq_next := max (seq_next S0) (mh_sequence h)\<rparr>"
  have m: "unat (mh_sequence h) + 0 \<le> unat (seq_next ?S)"
    by (simp add: max_def word_le_nat_alt)
  note loop = mold_blocks_eq [OF len nw m]
  show ?thesis
  proof (cases "mh_count h = kMoldHeartbeat")
    case True
    then show ?thesis using e
      by (auto simp: on_packet_def h b note_gap_eq packet_spec_def packet_blocks_def kMoldHeartbeat_def
          Let_def ses r0 mold_result0_def)
  next
    case False
    then show ?thesis using e
      by (auto simp: on_packet_def h b note_gap_eq packet_spec_def packet_blocks_def Let_def ses r0
          mold_result0_def loop)
  qed
qed

definition seqs :: "delivery list \<Rightarrow> nat list" where
  "seqs dl = map (\<lambda>(_, _, s). unat s) dl"

text \<open>What one packet means for the session, in numbers that do not wrap.\<close>

lemma packet_spec_facts:
  assumes "no_wrap h" "packet_spec pkt len h S = (S', r, dl)"
    and n0: "n0 = unat (seq_next (fst (rebaseline h S)))"
  shows "unat (seq_next S') = max n0 (unat (mh_sequence h) + length (packet_blocks pkt len h))"
    "seqs dl = [n0 + unat (gap_count r)..<unat (seq_next S')]"
    "n0 + unat (gap_count r) = max n0 (unat (mh_sequence h))"
    "gap_count r \<noteq> 0 \<Longrightarrow> unat (gap_first r) = n0"
    "seq_session S' = mh_session h"
    "\<And>p n s. (p, n, s) \<in> set dl \<Longrightarrow> kMoldHeaderLength + 2 \<le> p \<and> p + n \<le> len"
proof -
  let ?S0 = "fst (rebaseline h S)" and ?bs = "packet_blocks pkt len h"
  let ?start = "max (seq_next ?S0) (mh_sequence h)"
  let ?new = "drop (unat ?start - unat (mh_sequence h)) ?bs"
  from assms(2) have S': "S' = \<lparr>seq_session = mh_session h, seq_next = ?start + of_nat (length ?new)\<rparr>"
    and r: "gap_first r = (if seq_next ?S0 < mh_sequence h then seq_next ?S0 else 0)"
      "gap_count r = (if seq_next ?S0 < mh_sequence h then mh_sequence h - seq_next ?S0 else 0)"
    and dl: "dl = numbered ?start ?new"
    by (auto simp: packet_spec_def Let_def)
  have bs: "length ?bs \<le> unat (mh_count h)"
    by (simp add: packet_blocks_def length_block_list)
  have start: "unat ?start = max n0 (unat (mh_sequence h))"
    by (simp add: n0 max_def word_le_nat_alt)
  have unat_start: "unat ?start < 2 ^ 64"
    by (rule order_less_le_trans [OF unsigned_less]) simp
  have bnd: "unat ?start + length ?new < 2 ^ 64"
    using bs assms(1) unat_start unfolding no_wrap_def start length_drop by auto
  have next_': "unat (seq_next S') = unat ?start + length ?new"
    using bnd by (simp add: S' unat_add_of_nat)
  show "unat (seq_next S') = max n0 (unat (mh_sequence h) + length ?bs)"
    unfolding next_' start by auto
  show gap: "n0 + unat (gap_count r) = max n0 (unat (mh_sequence h))"
    by (auto simp: r n0 word_less_nat_alt unat_sub word_le_nat_alt)
  show "seqs dl = [n0 + unat (gap_count r)..<unat (seq_next S')]"
    using numbered_seqs [OF bnd] by (simp only: seqs_def dl next_' gap start)
  show "gap_count r \<noteq> 0 \<Longrightarrow> unat (gap_first r) = n0"
    by (auto simp: r n0 split: if_splits)
  show "seq_session S' = mh_session h" by (simp add: S')
  fix p n s
  assume "(p, n, s) \<in> set dl"
  then have "(p, n) \<in> (\<lambda>(p, n, _). (p, n)) ` set dl" by force
  also have "\<dots> = set ?new"
    using arg_cong [OF numbered_blocks [of ?start ?new], of set] by (simp add: dl)
  finally have "(p, n) \<in> set ?bs" by (rule in_set_dropD)
  then show "kMoldHeaderLength + 2 \<le> p \<and> p + n \<le> len"
    unfolding packet_blocks_def by (rule block_list_bounds)
qed

lemma packet_spec_content:
  assumes "packet_spec pkt len h S = (S', r, dl)"
  shows "map (\<lambda>(p, n, _). (p, n)) dl =
      drop (length (packet_blocks pkt len h) - length dl) (packet_blocks pkt len h)"
    "delivered r = of_nat (length dl)"
    "malformed r \<longleftrightarrow> length (packet_blocks pkt len h) < unat (mh_count h)"
proof -
  obtain st new d where "new = drop d (packet_blocks pkt len h)" "dl = numbered st new"
    "delivered r = of_nat (length new)"
    "malformed r \<longleftrightarrow> length (packet_blocks pkt len h) < unat (mh_count h)"
    using assms by (auto simp: packet_spec_def Let_def)
  then show "map (\<lambda>(p, n, _). (p, n)) dl =
      drop (length (packet_blocks pkt len h) - length dl) (packet_blocks pkt len h)"
    "delivered r = of_nat (length dl)"
    "malformed r \<longleftrightarrow> length (packet_blocks pkt len h) < unat (mh_count h)"
    by (cases "d \<le> length (packet_blocks pkt len h)"; simp add: numbered_blocks)+
qed

text \<open>
  Every packet that holds messages is accounted for, message by message: with \<open>n0\<close> the
  number expected before it (its own first number when it starts a session), the reported gap
  and the delivered messages are exactly the numbers from \<open>n0\<close> to the new expected number,
  in order and without a hole; what is delivered is the tail of the packet's complete blocks,
  inside the packet; and the packet is malformed exactly if blocks are missing.
\<close>

theorem on_packet_delivers:
  assumes len: "len \<le> length pkt" and h: "parse_mold_header pkt len = Some (Some h)"
    and w: "no_wrap h" and e: "mh_count h \<noteq> kMoldEndOfSession"
  shows "\<exists>S' r dl. on_packet pkt len S = Some (S', r, dl) \<and>
    (let n0 = unat (seq_next (fst (rebaseline h S))); bs = packet_blocks pkt len h in
      unat (seq_next S') = max n0 (unat (mh_sequence h) + length bs) \<and>
      seqs dl = [n0 + unat (gap_count r)..<unat (seq_next S')] \<and>
      n0 + unat (gap_count r) = max n0 (unat (mh_sequence h)) \<and>
      (gap_count r \<noteq> 0 \<longrightarrow> unat (gap_first r) = n0) \<and>
      map (\<lambda>(p, n, _). (p, n)) dl = drop (length bs - length dl) bs \<and>
      (\<forall>(p, n, _) \<in> set dl. kMoldHeaderLength + 2 \<le> p \<and> p + n \<le> len) \<and>
      delivered r = of_nat (length dl) \<and> (malformed r \<longleftrightarrow> length bs < unat (mh_count h)) \<and>
      seq_session S' = mh_session h)"
proof -
  obtain S' r dl where p: "packet_spec pkt len h S = (S', r, dl)" by (metis prod_cases3)
  show ?thesis
    using packet_spec_facts [OF w p refl] packet_spec_content [OF p] on_packet_eq [OF assms] p
    by (auto simp: Let_def)
qed

text \<open>Whatever a packet holds, even one whose numbers wrap, it is read inside its bounds only.\<close>

abbreviation inside :: "nat \<Rightarrow> delivery list \<Rightarrow> bool" where
  "inside len \<equiv> list_all (\<lambda>(p, n, _). p + n \<le> len)"

lemma mold_blocks_total:
  assumes "len \<le> length pkt" "inside len dl"
  shows "\<exists>S' r' dl'. mold_blocks pkt len sq i k off S r dl = Some (S', r', dl') \<and> inside len dl'"
  using assms(2)
proof (induction k arbitrary: i off S r dl)
  case (Suc k)
  let ?n = "unat (be_word (take 2 (drop off pkt)) :: u16)"
  show ?case
  proof (cases "off + 2 \<le> len")
    case True
    then have "load_be16 pkt off = Some (be_word (take 2 (drop off pkt)))" using assms(1) by (intro load_be16_in) simp
    then show ?thesis using Suc by (auto simp: Let_def not_less)
  qed (simp add: Suc.prems)
qed simp

lemma on_packet_total:
  assumes "len \<le> length pkt"
  shows "\<exists>S' r dl. on_packet pkt len S = Some (S', r, dl) \<and> inside len dl"
  using assms
proof (cases rule: header_read)
  case (ok h)
  obtain S2 r2 where "note_gap (mh_sequence h) (rebaseline h S) = (S2, r2)" by fastforce
  then show ?thesis using ok(2) mold_blocks_total [OF assms, of "[]"]
    by (simp add: on_packet_def)
qed (simp add: on_packet_def)

text \<open>A packet of the current session without anything new leaves the sequencer alone.\<close>

lemma on_packet_old:
  assumes len: "len \<le> length pkt" and h: "parse_mold_header pkt len = Some (Some h)"
    and w: "no_wrap h" and e: "mh_count h \<noteq> kMoldEndOfSession"
    and s: "mh_session h = seq_session S" "seq_next S \<noteq> 0"
    and old: "unat (mh_sequence h) + length (packet_blocks pkt len h) \<le> unat (seq_next S)"
  shows "\<exists>r. on_packet pkt len S = Some (S, r, []) \<and> delivered r = 0 \<and> gap_count r = 0"
proof -
  obtain S' r dl where p: "packet_spec pkt len h S = (S', r, dl)" by (metis prod_cases3)
  have rb: "fst (rebaseline h S) = S" using s by (simp add: rebaseline_def)
  have mx: "mh_sequence h \<le> seq_next S" using old by (simp add: word_le_nat_alt)
  then have mx': "max (seq_next S) (mh_sequence h) = seq_next S" by simp
  have "length (packet_blocks pkt len h) \<le> unat (seq_next S) - unat (mh_sequence h)"
    using old by simp
  then show ?thesis
    using s mx mx' rb by (auto simp: on_packet_eq [OF len h w e] packet_spec_def Let_def max_def)
qed

text \<open>
  A/B arbitration: the copy of a packet that arrives on the redundant line delivers
  nothing, reports no gap and leaves the sequencer as it is, whether the packet is complete or
  cut short (numbers start at 1, so the packet's first one is not 0).
\<close>

theorem on_packet_duplicate:
  assumes len: "len \<le> length pkt" and h: "parse_mold_header pkt len = Some (Some h)"
    and w: "no_wrap h" and e: "mh_count h \<noteq> kMoldEndOfSession" and nz: "mh_sequence h \<noteq> 0"
    and first: "on_packet pkt len S = Some (S', r, dl)"
  shows "\<exists>r'. on_packet pkt len S' = Some (S', r', []) \<and> delivered r' = 0 \<and> gap_count r' = 0"
proof (rule on_packet_old [OF len h w e])
  have p: "packet_spec pkt len h S = (S', r, dl)" using first on_packet_eq [OF len h w e] by simp
  note facts = packet_spec_facts [OF w p refl]
  show "mh_session h = seq_session S'" using facts(5) by simp
  show "unat (mh_sequence h) + length (packet_blocks pkt len h) \<le> unat (seq_next S')"
    unfolding facts(1) by simp
  then show "seq_next S' \<noteq> 0" using nz by (auto simp: unat_eq_zero)
qed

section \<open>A session of packets\<close>

text \<open>Deliver a list of packets; the log holds the delivered numbers and the reported gaps.\<close>

fun mold_run :: "mem list \<Rightarrow> mold_sequencer \<Rightarrow> (mold_sequencer \<times> nat list \<times> (nat \<times> nat) list) option" where
  "mold_run [] S = Some (S, [], [])"
| "mold_run (p # ps) S = do {
     (S1, r, dl) \<leftarrow> on_packet p (length p) S;
     (S2, ds, gs) \<leftarrow> mold_run ps S1;
     Some (S2, seqs dl @ ds, (unat (gap_first r), unat (gap_count r)) # gs) }"

definition lost :: "(nat \<times> nat) list \<Rightarrow> nat set" where
  "lost gs = (\<Union>(f, n) \<in> set gs. {f..<f + n})"

definition of_session :: "alpha \<Rightarrow> mem \<Rightarrow> bool" where
  "of_session s pkt = (case parse_mold_header pkt (length pkt) of
     Some (Some h) \<Rightarrow> mh_session h = s \<and> no_wrap h
   | _ \<Rightarrow> True)"

lemma on_packet_step:
  assumes "of_session (seq_session S) pkt" "seq_next S \<noteq> 0"
  shows "\<exists>S' r dl. on_packet pkt (length pkt) S = Some (S', r, dl) \<and>
    seq_session S' = seq_session S \<and> seq_next S' \<noteq> 0 \<and>
    unat (seq_next S) + unat (gap_count r) \<le> unat (seq_next S') \<and>
    (gap_count r \<noteq> 0 \<longrightarrow> unat (gap_first r) = unat (seq_next S)) \<and>
    seqs dl = [unat (seq_next S) + unat (gap_count r)..<unat (seq_next S')]"
proof -
  consider (short) "parse_mold_header pkt (length pkt) = Some None"
    | (ok) h where "parse_mold_header pkt (length pkt) = Some (Some h)"
    using header_read [OF order_refl, of pkt] by blast
  then show ?thesis
  proof cases
    case short
    have "on_packet pkt (length pkt) S = Some (S, mold_result0\<lparr>malformed := True\<rparr>, [])"
      unfolding on_packet_def short by simp
    then show ?thesis using assms by (simp add: mold_result0_def seqs_def)
  next
    case (ok h)
    then have h: "mh_session h = seq_session S" "no_wrap h" using assms by (simp_all add: of_session_def)
    then have rb: "fst (rebaseline h S) = S" using assms by (simp add: rebaseline_def)
    show ?thesis
    proof (cases "mh_count h = kMoldEndOfSession")
      case True
      then have "on_packet pkt (length pkt) S = Some (S, mold_result0\<lparr>end_of_session := True\<rparr>, [])"
        unfolding on_packet_def ok by simp
      then show ?thesis using assms by (simp add: mold_result0_def seqs_def)
    next
      case False
      obtain S' r dl where p: "packet_spec pkt (length pkt) h S = (S', r, dl)" by (metis prod_cases3)
      note f = packet_spec_facts [OF h(2) p refl]
      have le: "unat (seq_next S) + unat (gap_count r) \<le> unat (seq_next S')"
        unfolding f(1) f(3) [unfolded rb] rb by simp
      then have "seq_next S' \<noteq> 0" using assms(2) by (auto simp: unat_eq_zero)
      with f le h on_packet_eq [OF order_refl ok h(2) False] p show ?thesis by (simp add: rb)
    qed
  qed
qed

lemma mold_run_accounts:
  assumes "list_all (of_session (seq_session S)) ps" and "seq_next S \<noteq> 0"
  shows "\<exists>S' ds gs. mold_run ps S = Some (S', ds, gs) \<and>
    unat (seq_next S) \<le> unat (seq_next S') \<and> sorted_wrt (<) ds \<and>
    set ds \<union> lost gs = {unat (seq_next S)..<unat (seq_next S')} \<and> set ds \<inter> lost gs = {} \<and>
    length ds + sum_list (map snd gs) = unat (seq_next S') - unat (seq_next S)"
  using assms
proof (induction ps arbitrary: S)
  case Nil
  then show ?case by (simp add: lost_def)
next
  case (Cons p ps)
  obtain S1 r dl where 1: "on_packet p (length p) S = Some (S1, r, dl)"
    "seq_session S1 = seq_session S" "seq_next S1 \<noteq> 0"
    "unat (seq_next S) + unat (gap_count r) \<le> unat (seq_next S1)"
    "gap_count r \<noteq> 0 \<longrightarrow> unat (gap_first r) = unat (seq_next S)"
    "seqs dl = [unat (seq_next S) + unat (gap_count r)..<unat (seq_next S1)]"
    using on_packet_step [of S p] Cons.prems by auto
  obtain S' ds gs where 2: "mold_run ps S1 = Some (S', ds, gs)"
    "unat (seq_next S1) \<le> unat (seq_next S')" "sorted_wrt (<) ds"
    "set ds \<union> lost gs = {unat (seq_next S1)..<unat (seq_next S')}" "set ds \<inter> lost gs = {}"
    "length ds + sum_list (map snd gs) = unat (seq_next S') - unat (seq_next S1)"
    using Cons.IH [of S1] Cons.prems 1 by auto
  let ?g = "(unat (gap_first r), unat (gap_count r))"
  have gap: "lost (?g # gs) = {unat (seq_next S)..<unat (seq_next S) + unat (gap_count r)} \<union> lost gs"
    using 1(5) by (cases "gap_count r = 0") (auto simp: lost_def)
  have sub: "set ds \<subseteq> {unat (seq_next S1)..<unat (seq_next S')}"
    "lost gs \<subseteq> {unat (seq_next S1)..<unat (seq_next S')}" using 2(4) by auto
  have "set (seqs dl @ ds) \<union> lost (?g # gs) = {unat (seq_next S)..<unat (seq_next S')}"
    unfolding gap set_append 1(6) set_upt Un_assoc Un_left_commute [of "set ds"] 2(4)
    using 1(4) 2(2) by auto
  moreover have "set (seqs dl @ ds) \<inter> lost (?g # gs) = {}"
    unfolding gap set_append 1(6) set_upt using 2(5) sub 1(4) by fastforce
  moreover have "sorted_wrt (<) (seqs dl @ ds)"
    using 2(3) sub(1) by (fastforce simp: sorted_wrt_append 1(6) sorted_wrt_upt)
  moreover have "length (seqs dl @ ds) + sum_list (map snd (?g # gs)) =
      unat (seq_next S') - unat (seq_next S)"
    using 2(2,6) 1(4) by (simp add: 1(6))
  moreover have "mold_run (p # ps) S = Some (S', seqs dl @ ds, ?g # gs)" using 1(1) 2(1) by simp
  moreover have "unat (seq_next S) \<le> unat (seq_next S')" using 1(4) 2(2) by simp
  ultimately show ?case by blast
qed

text \<open>
  C10. Over any list of packets of one session, in whatever order and with whatever losses,
  duplicates and truncations: the walk ends, each message is delivered at most once and in
  increasing order, and every number up to the one finally expected was either delivered or
  reported lost, never both.
\<close>

theorem session_accounting:
  assumes "list_all (of_session (seq_session S)) ps" and "seq_next S \<noteq> 0"
  shows "\<exists>S' ds gs. mold_run ps S = Some (S', ds, gs) \<and>
    unat (seq_next S) \<le> unat (seq_next S') \<and> sorted_wrt (<) ds \<and>
    set ds \<union> lost gs = {unat (seq_next S)..<unat (seq_next S')} \<and> set ds \<inter> lost gs = {} \<and>
    length ds + sum_list (map snd gs) = unat (seq_next S') - unat (seq_next S)"
  using assms by (rule mold_run_accounts)
section \<open>Witnesses\<close>

text \<open>Two blocks, numbers 7 and 8, of one and of two bytes; then a copy that lost its tail.\<close>

definition sample_packet :: mem where
  "sample_packet = replicate 10 65 @ [0, 0, 0, 0, 0, 0, 0, 7] @ [0, 2] @ [0, 1, 1] @ [0, 2, 2, 3]"

definition sample_header :: mold_header where
  "sample_header = \<lparr>mh_session = replicate 10 65, mh_sequence = 7, mh_count = 2\<rparr>"

lemma sample_header: "parse_mold_header sample_packet 27 = Some (Some sample_header)"
  by (simp add: parse_mold_header_def sample_packet_def sample_header_def kMoldHeaderLength_def
      mem_simps load_be_eq be_word_def)

lemma sample_wf: "no_wrap sample_header" "mh_count sample_header \<noteq> kMoldEndOfSession"
  "27 \<le> length sample_packet" "mh_sequence sample_header \<noteq> 0"
  by (simp_all add: no_wrap_def sample_header_def kMoldEndOfSession_def sample_packet_def)

lemma sample_blocks: "packet_blocks sample_packet 27 sample_header = [(22, 1), (25, 2)]"
proof -
  have "block_list pkt len 2 off = block_list pkt len (Suc (Suc 0)) off" for pkt len off
    by (simp only: numeral_2_eq_2)
  then show ?thesis
    by (simp add: packet_blocks_def sample_header_def sample_packet_def kMoldHeaderLength_def
        be_word_def Let_def)
qed

lemma sample_of_session: "list_all (of_session (replicate 10 65)) [sample_packet, [0], sample_packet]"
proof -
  have l: "length sample_packet = 27" by (simp add: sample_packet_def)
  show ?thesis
    using sample_wf(1) by (simp add: of_session_def l sample_header, simp add: sample_header_def
        parse_mold_header_def kMoldHeaderLength_def)
qed

theorem on_packet_delivers_witness:
  "\<exists>S' r dl. on_packet sample_packet 27 new_sequencer = Some (S', r, dl) \<and>
    unat (seq_next S') = 9 \<and> seqs dl = [7, 8] \<and> map (\<lambda>(p, n, _). (p, n)) dl = [(22, 1), (25, 2)]"
proof -
  have b: "unat (seq_next (fst (rebaseline sample_header new_sequencer))) = 7"
    by (simp add: rebaseline_def new_sequencer_def sample_header_def)
  have q: "unat (mh_sequence sample_header) = 7" by (simp add: sample_header_def)
  from on_packet_delivers [OF sample_wf(3) sample_header sample_wf(1,2), of new_sequencer]
  show ?thesis
    unfolding Let_def b q sample_blocks by (auto simp: seqs_def upt_rec)
qed

theorem on_packet_duplicate_witness:
  "\<exists>S' r dl r'. on_packet sample_packet 27 new_sequencer = Some (S', r, dl) \<and>
    on_packet sample_packet 27 S' = Some (S', r', []) \<and> delivered r' = 0"
proof -
  obtain S' r dl where 1: "on_packet sample_packet 27 new_sequencer = Some (S', r, dl)"
    using on_packet_eq [OF sample_wf(3) sample_header sample_wf(1,2), of new_sequencer]
    by (metis prod_cases3)
  from on_packet_duplicate [OF sample_wf(3) sample_header sample_wf(1,2,4) 1] 1
  show ?thesis by blast
qed

theorem session_accounting_witness:
  "\<exists>S' ds gs. mold_run [sample_packet, [0], sample_packet]
      \<lparr>seq_session = replicate 10 65, seq_next = 5\<rparr> = Some (S', ds, gs) \<and>
    set ds \<union> lost gs = {5..<unat (seq_next S')} \<and> sorted_wrt (<) ds"
  using session_accounting [of "\<lparr>seq_session = replicate 10 65, seq_next = 5\<rparr>" "[sample_packet, [0], sample_packet]"]
    sample_of_session by auto

end
