(* ===== verification/Group.thy ===== *)
theory Group
  imports Bytes
begin

text \<open>
  \<^verbatim>\<open>include/itch/simd/group.hpp\<close>: the control-byte groups of the order map. A group is the
  list of its control bytes. The three kernels (64-bit SWAR arithmetic, SSE2 and AVX2 byte
  compares) are records of the same operations; the locale \<open>ctrl_group\<close> is the contract the
  order map relies on, and each kernel is an interpretation of it.
\<close>

section \<open>Bit masks\<close>

definition kCtrlEmpty :: u8 where
  "kCtrlEmpty = 0xFF"

definition kCtrlDeleted :: u8 where
  "kCtrlDeleted = 0x80"

text \<open>\<open>std::countr_zero\<close>; 64 for the value 0.\<close>

definition countr_zero :: "u64 \<Rightarrow> nat" where
  "countr_zero w = length (takeWhile (\<lambda>k. \<not> bit w k) [0..<64])"

definition mask_any :: "u64 \<Rightarrow> bool" where
  "mask_any bits \<longleftrightarrow> bits \<noteq> 0"

definition mask_lowest :: "nat \<Rightarrow> u64 \<Rightarrow> nat" where
  "mask_lowest Shift bits = drop_bit Shift (countr_zero bits)"

definition clear_lowest :: "u64 \<Rightarrow> u64" where
  "clear_lowest bits = bits AND (bits - 1)"

lemma clear_lowest_less: "w \<noteq> 0 \<Longrightarrow> clear_lowest w < w"
proof -
  assume "w \<noteq> 0"
  have "clear_lowest w \<le> w - 1" unfolding clear_lowest_def
    by (metis word_and_le2 and.commute)
  also have "w - 1 < w" using \<open>w \<noteq> 0\<close>
    by (simp add: word_less_nat_alt unat_minus_one unat_gt_0)
  finally show ?thesis .
qed

text \<open>The slots a range-for over the mask visits, in order.\<close>

function mask_slots :: "nat \<Rightarrow> u64 \<Rightarrow> nat list" where
  "mask_slots Shift bits =
     (if bits = 0 then [] else mask_lowest Shift bits # mask_slots Shift (clear_lowest bits))"
  by pat_completeness auto
termination
  by (relation "measure (\<lambda>(_, bits). unat bits)") (auto simp: clear_lowest_less unat_mono)

declare mask_slots.simps [simp del]

section \<open>The operations of a group\<close>

record group_ops =
  kWidth :: nat
  kShift :: nat
  match :: "u8 list \<Rightarrow> u8 \<Rightarrow> u64"
  match_empty :: "u8 list \<Rightarrow> u64"
  match_empty_or_deleted :: "u8 list \<Rightarrow> u64"

definition kLsbs :: u64 where
  "kLsbs = 0x0101010101010101"

definition kMsbs :: u64 where
  "kMsbs = 0x8080808080808080"

definition GroupSwar :: group_ops where
  "GroupSwar = \<lparr>kWidth = 8, kShift = 3,
     match = (\<lambda>g h2. let x = host_word g XOR (kLsbs * ucast h2) in (x - kLsbs) AND NOT x AND kMsbs),
     match_empty = (\<lambda>g. host_word g AND push_bit 1 (host_word g) AND kMsbs),
     match_empty_or_deleted = (\<lambda>g. host_word g AND kMsbs)\<rparr>"

text \<open>A vector register is the list of its bytes.\<close>

definition set1_epi8 :: "nat \<Rightarrow> u8 \<Rightarrow> u8 list" where
  "set1_epi8 n b = replicate n b"

definition cmpeq_epi8 :: "u8 list \<Rightarrow> u8 list \<Rightarrow> u8 list" where
  "cmpeq_epi8 xs ys = map2 (\<lambda>x y. if x = y then 0xFF else 0) xs ys"

definition movemask_epi8 :: "u8 list \<Rightarrow> u32" where
  "movemask_epi8 xs = horner_sum of_bool 2 (map (\<lambda>x. bit x 7) xs)"

definition GroupSse2 :: group_ops where
  "GroupSse2 = \<lparr>kWidth = 16, kShift = 0,
     match = (\<lambda>ctrl h2. ucast (movemask_epi8 (cmpeq_epi8 ctrl (set1_epi8 16 h2)))),
     match_empty = (\<lambda>ctrl. ucast (movemask_epi8 (cmpeq_epi8 ctrl (set1_epi8 16 kCtrlEmpty)))),
     match_empty_or_deleted = (\<lambda>ctrl. ucast (movemask_epi8 ctrl))\<rparr>"

definition GroupAvx2 :: group_ops where
  "GroupAvx2 = \<lparr>kWidth = 32, kShift = 0,
     match = (\<lambda>ctrl h2. ucast (movemask_epi8 (cmpeq_epi8 ctrl (set1_epi8 32 h2)))),
     match_empty = (\<lambda>ctrl. ucast (movemask_epi8 (cmpeq_epi8 ctrl (set1_epi8 32 kCtrlEmpty)))),
     match_empty_or_deleted = (\<lambda>ctrl. ucast (movemask_epi8 ctrl))\<rparr>"

section \<open>What a mask says\<close>

lemma countr_zero_props:
  assumes "w \<noteq> 0"
  shows "bit w (countr_zero w)" "countr_zero w < 64" "\<And>k. k < countr_zero w \<Longrightarrow> \<not> bit w k"
proof -
  let ?P = "\<lambda>k. \<not> bit w k"
  have "\<exists>k<64. bit w k"
    using assms bit_imp_le_length [of w] by (auto simp: bit_eq_iff)
  then have lt: "length (takeWhile ?P [0..<64]) < length [0..<64]"
    by (metis (no_types, lifting) atLeastLessThan_iff length_takeWhile_le nat_less_le set_upt
        takeWhile_eq_all_conv takeWhile_eq_take take_all_iff zero_le)
  then show "countr_zero w < 64" by (simp add: countr_zero_def)
  have "\<not> ?P ([0..<64] ! length (takeWhile ?P [0..<64]))" using lt by (rule nth_length_takeWhile)
  then show "bit w (countr_zero w)" using lt by (simp add: countr_zero_def)
  fix k assume k: "k < countr_zero w"
  then have "takeWhile ?P [0..<64] ! k = [0..<64] ! k"
    by (intro takeWhile_nth) (simp add: countr_zero_def)
  moreover have "?P (takeWhile ?P [0..<64] ! k)"
    using k by (metis countr_zero_def nth_mem set_takeWhileD)
  ultimately show "?P k" using k lt by (simp add: countr_zero_def)
qed

lemma bit_clear_lowest:
  assumes "w \<noteq> 0"
  shows "bit (clear_lowest w) k \<longleftrightarrow> bit w k \<and> k \<noteq> countr_zero w"
proof -
  let ?n = "countr_zero w" and ?u = "unset_bit (countr_zero w) w"
  note cz = countr_zero_props [OF assms]
  have "w = ?u OR push_bit ?n 1"
    using cz by (intro bit_eqI) (auto simp: bit_simps)
  also have "\<dots> = ?u + push_bit ?n 1"
    by (rule disjunctive_add_eq_or [symmetric], rule bit_eqI) (auto simp: bit_simps)
  finally have "w - 1 = ?u + (push_bit ?n 1 - 1)" by (metis add_diff_eq)
  also have "\<dots> = ?u + mask ?n" by (simp add: mask_eq_exp_minus_1 push_bit_eq_mult)
  also have "\<dots> = ?u OR mask ?n"
    using cz(3) by (intro disjunctive_add_eq_or bit_eqI) (auto simp: bit_simps)
  finally show ?thesis using cz by (auto simp: clear_lowest_def bit_simps)
qed

lemma set_mask_slots: "set (mask_slots sh w) = {drop_bit sh k | k. bit w k}"
proof (induction sh w rule: mask_slots.induct)
  case (1 sh w)
  show ?case
  proof (cases "w = 0")
    case True
    then show ?thesis by (subst mask_slots.simps) simp
  next
    case False
    have "{drop_bit sh k | k. bit w k} =
        insert (drop_bit sh (countr_zero w)) {drop_bit sh k | k. bit (clear_lowest w) k}"
      using countr_zero_props(1) [OF False] by (auto simp: bit_clear_lowest [OF False])
    with 1 False show ?thesis by (subst mask_slots.simps) (simp add: mask_lowest_def)
  qed
qed

text \<open>
  The mask \<open>m\<close> with \<open>2\<^sup>s\<close> bits per slot marks exactly the slots below \<open>W\<close> that satisfy \<open>P\<close>,
  with the top bit of each.
\<close>

definition marks :: "nat \<Rightarrow> nat \<Rightarrow> u64 \<Rightarrow> (nat \<Rightarrow> bool) \<Rightarrow> bool" where
  "marks s W m P \<longleftrightarrow> (\<forall>k. bit m k \<longleftrightarrow> (\<exists>i<W. k = 2 ^ s * i + (2 ^ s - 1) \<and> P i))"

lemma slot_of_top: "drop_bit s (2 ^ s * i + (2 ^ s - 1)) = (i::nat)"
proof -
  have "(2 ^ s * i + r) div 2 ^ s = i" if "r < 2 ^ s" for r :: nat
    using that by (simp add: div_mult_self4)
  moreover have "(2::nat) ^ s - 1 < 2 ^ s" by simp
  ultimately show ?thesis unfolding drop_bit_eq_div .
qed

lemma word_nonzero_bit: "(w :: 'a::len word) \<noteq> 0 \<longleftrightarrow> (\<exists>k. bit w k)"
  by (metis bit_0_eq bot_apply bot_bool_def bit_eqI)

lemma marks_any: "marks s W m P \<Longrightarrow> mask_any m \<longleftrightarrow> (\<exists>i<W. P i)"
  unfolding marks_def mask_any_def word_nonzero_bit by blast

lemma marks_slots: "marks s W m P \<Longrightarrow> set (mask_slots s m) = {i. i < W \<and> P i}"
  unfolding marks_def set_mask_slots by (auto simp only: slot_of_top) (metis slot_of_top)

lemma marks_lowest:
  assumes "marks s W m P" "mask_any m"
  shows "mask_lowest s m < W" "P (mask_lowest s m)" "\<And>j. j < mask_lowest s m \<Longrightarrow> \<not> P j"
proof -
  have m: "m \<noteq> 0" using assms(2) by (simp add: mask_any_def)
  obtain i where i: "i < W" "countr_zero m = 2 ^ s * i + (2 ^ s - 1)" "P i"
    using countr_zero_props(1) [OF m] assms(1) by (auto simp: marks_def)
  then have l: "mask_lowest s m = i" by (simp only: mask_lowest_def slot_of_top)
  show "mask_lowest s m < W" "P (mask_lowest s m)" using i l by simp_all
  fix j assume j: "j < mask_lowest s m"
  have "\<not> bit m (2 ^ s * j + (2 ^ s - 1))"
  proof (rule countr_zero_props(3) [OF m])
    show "2 ^ s * j + (2 ^ s - 1) < countr_zero m"
      unfolding i(2) using j l by (intro add_strict_right_mono mult_strict_left_mono) simp_all
  qed
  then show "\<not> P j" using assms(1) i j l by (auto simp: marks_def)
qed

section \<open>The contract of a group\<close>

text \<open>
  A candidate of \<open>match\<close> may be false, but it is a full slot: an erased slot keeps its old key,
  so the comparison of the full key alone would not rule it out.

  The control bytes that occur: a 7-bit tag, \<open>EMPTY\<close> or \<open>DELETED\<close>.\<close>

definition full_tag :: "u8 \<Rightarrow> bool" where
  "full_tag c \<longleftrightarrow> c < 0x80"

definition ctrl_ok :: "u8 \<Rightarrow> bool" where
  "ctrl_ok c \<longleftrightarrow> full_tag c \<or> c = kCtrlEmpty \<or> c = kCtrlDeleted"

lemma full_tag_bit: "full_tag c \<longleftrightarrow> \<not> bit c 7"
proof -
  have "unat c < 256" by (rule order_less_le_trans [OF unsigned_less]) simp
  then have "unat c div 128 = 0 \<or> unat c div 128 = 1" by auto
  moreover have "bit c 7 \<longleftrightarrow> bit (unat c) 7" by (simp add: bit_unsigned_iff)
  moreover have "bit (unat c) 7 \<longleftrightarrow> odd (unat c div 2 ^ 7)" by (rule bit_iff_odd)
  ultimately show ?thesis by (auto simp: full_tag_def word_less_nat_alt)
qed

lemma empty_bits: "ctrl_ok c \<Longrightarrow> bit c 7 \<and> bit c 6 \<longleftrightarrow> c = kCtrlEmpty"
  using full_tag_bit [of c] by (auto simp: ctrl_ok_def kCtrlEmpty_def kCtrlDeleted_def full_tag_def)

locale ctrl_group =
  fixes G :: group_ops
  assumes width_pos: "0 < kWidth G"
    and width_dvd: "8 dvd kWidth G"
    and match_complete: "length g = kWidth G \<Longrightarrow> i < kWidth G \<Longrightarrow> g ! i = h2 \<Longrightarrow>
      i \<in> set (mask_slots (kShift G) (match G g h2))"
    and match_sound: "length g = kWidth G \<Longrightarrow> full_tag h2 \<Longrightarrow>
      i \<in> set (mask_slots (kShift G) (match G g h2)) \<Longrightarrow> i < kWidth G \<and> full_tag (g ! i)"
    and match_empty_marks: "length g = kWidth G \<Longrightarrow> list_all ctrl_ok g \<Longrightarrow>
      marks (kShift G) (kWidth G) (match_empty G g) (\<lambda>i. g ! i = kCtrlEmpty)"
    and match_free_marks: "length g = kWidth G \<Longrightarrow>
      marks (kShift G) (kWidth G) (match_empty_or_deleted G g) (\<lambda>i. \<not> full_tag (g ! i))"
begin

lemma empty_any:
  "length g = kWidth G \<Longrightarrow> list_all ctrl_ok g \<Longrightarrow>
     mask_any (match_empty G g) \<longleftrightarrow> kCtrlEmpty \<in> set g"
  using marks_any [OF match_empty_marks] by (metis in_set_conv_nth)

lemma free_any:
  "length g = kWidth G \<Longrightarrow>
     mask_any (match_empty_or_deleted G g) \<longleftrightarrow> (\<exists>c \<in> set g. \<not> full_tag c)"
  using marks_any [OF match_free_marks] by (metis in_set_conv_nth)

lemma free_lowest:
  assumes "length g = kWidth G" "mask_any (match_empty_or_deleted G g)"
  shows "mask_lowest (kShift G) (match_empty_or_deleted G g) < kWidth G"
    "\<not> full_tag (g ! mask_lowest (kShift G) (match_empty_or_deleted G g))"
  using marks_lowest [OF match_free_marks] assms by auto

end

section \<open>The vector kernels\<close>

lemma bit_movemask:
  "length v \<le> 32 \<Longrightarrow>
     bit (ucast (movemask_epi8 v) :: u64) k \<longleftrightarrow> k < length v \<and> \<not> full_tag (v ! k)"
  by (auto simp: movemask_epi8_def bit_word_ucast_iff bit_horner_sum_bit_word_iff full_tag_bit)

lemma marks_movemask:
  "length v \<le> 32 \<Longrightarrow>
     marks 0 (length v) (ucast (movemask_epi8 v)) (\<lambda>i. \<not> full_tag (v ! i))"
  by (auto simp: marks_def bit_movemask)

lemma marks_cmpeq:
  assumes "length v \<le> 32"
  shows "marks 0 (length v) (ucast (movemask_epi8 (cmpeq_epi8 v (set1_epi8 (length v) b))))
    (\<lambda>i. v ! i = b)"
proof -
  have l: "length (cmpeq_epi8 v (set1_epi8 (length v) b)) = length v"
    by (simp add: cmpeq_epi8_def set1_epi8_def)
  have "full_tag (cmpeq_epi8 v (set1_epi8 (length v) b) ! i) \<longleftrightarrow> v ! i \<noteq> b" if "i < length v" for i
    using that by (simp add: cmpeq_epi8_def set1_epi8_def full_tag_def)
  then show ?thesis
    using marks_movemask [of "cmpeq_epi8 v (set1_epi8 (length v) b)"] assms
    by (auto simp: marks_def l)
qed

interpretation sse2: ctrl_group GroupSse2
proof
  fix g :: "u8 list" and h2 i
  assume l: "length g = kWidth GroupSse2"
  then have l': "length g = 16" "length g \<le> 32" by (simp_all add: GroupSse2_def)
  note m = marks_cmpeq [OF l'(2), unfolded l'(1)]
  show "i < kWidth GroupSse2 \<Longrightarrow> g ! i = h2 \<Longrightarrow>
      i \<in> set (mask_slots (kShift GroupSse2) (match GroupSse2 g h2))"
    using marks_slots [OF m, of h2] by (simp add: GroupSse2_def)
  show "full_tag h2 \<Longrightarrow> i \<in> set (mask_slots (kShift GroupSse2) (match GroupSse2 g h2)) \<Longrightarrow>
      i < kWidth GroupSse2 \<and> full_tag (g ! i)"
    using marks_slots [OF m, of h2] by (simp add: GroupSse2_def)
  show "marks (kShift GroupSse2) (kWidth GroupSse2) (match_empty GroupSse2 g) (\<lambda>i. g ! i = kCtrlEmpty)"
    using m [of kCtrlEmpty] by (simp add: GroupSse2_def)
  show "marks (kShift GroupSse2) (kWidth GroupSse2) (match_empty_or_deleted GroupSse2 g)
      (\<lambda>i. \<not> full_tag (g ! i))"
    using marks_movemask [OF l'(2)] l'(1) by (simp add: GroupSse2_def)
qed (simp_all add: GroupSse2_def)

interpretation avx2: ctrl_group GroupAvx2
proof
  fix g :: "u8 list" and h2 i
  assume l: "length g = kWidth GroupAvx2"
  then have l': "length g = 32" "length g \<le> 32" by (simp_all add: GroupAvx2_def)
  note m = marks_cmpeq [OF l'(2), unfolded l'(1)]
  show "i < kWidth GroupAvx2 \<Longrightarrow> g ! i = h2 \<Longrightarrow>
      i \<in> set (mask_slots (kShift GroupAvx2) (match GroupAvx2 g h2))"
    using marks_slots [OF m, of h2] by (simp add: GroupAvx2_def)
  show "full_tag h2 \<Longrightarrow> i \<in> set (mask_slots (kShift GroupAvx2) (match GroupAvx2 g h2)) \<Longrightarrow>
      i < kWidth GroupAvx2 \<and> full_tag (g ! i)"
    using marks_slots [OF m, of h2] by (simp add: GroupAvx2_def)
  show "marks (kShift GroupAvx2) (kWidth GroupAvx2) (match_empty GroupAvx2 g) (\<lambda>i. g ! i = kCtrlEmpty)"
    using m [of kCtrlEmpty] by (simp add: GroupAvx2_def)
  show "marks (kShift GroupAvx2) (kWidth GroupAvx2) (match_empty_or_deleted GroupAvx2 g)
      (\<lambda>i. \<not> full_tag (g ! i))"
    using marks_movemask [OF l'(2)] l'(1) by (simp add: GroupAvx2_def)
qed (simp_all add: GroupAvx2_def)

section \<open>The SWAR kernel\<close>

lemma bit_le_nat: "bit (le_nat bs) k \<longleftrightarrow> k < 8 * length bs \<and> bit (bs ! (k div 8)) (k mod 8)"
proof (induction bs arbitrary: k)
  case Nil
  then show ?case by simp
next
  case (Cons b bs)
  have b: "unat b < 2 ^ 8" by (rule order_less_le_trans [OF unsigned_less]) simp
  have "le_nat (b # bs) = push_bit 8 (le_nat bs) + take_bit 8 (unat b)"
    using b by (simp add: push_bit_eq_mult take_bit_nat_eq_self)
  also have "\<dots> = push_bit 8 (le_nat bs) OR take_bit 8 (unat b)"
    by (intro disjunctive_add_eq_or bit_eqI) (auto simp: bit_simps)
  finally have e: "bit (le_nat (b # bs)) k \<longleftrightarrow> (8 \<le> k \<and> bit (le_nat bs) (k - 8)) \<or> (k < 8 \<and> bit b k)"
    by (auto simp: bit_simps)
  show ?case
  proof (cases "k < 8")
    case True
    then show ?thesis unfolding e by simp
  next
    case False
    then obtain j where "k = 8 + j" by (metis le_iff_add not_less)
    moreover from this have "k div 8 = Suc (j div 8)" "k mod 8 = j mod 8" by simp_all
    ultimately show ?thesis unfolding e Cons.IH by simp
  qed
qed

lemma bit_host_word:
  "length bs = 8 \<Longrightarrow> bit (host_word bs :: u64) k \<longleftrightarrow> k < 64 \<and> bit (bs ! (k div 8)) (k mod 8)"
  by (auto simp: host_word_def bit_of_nat_iff bit_le_nat)

lemma replicate8: "replicate 8 x = [x, x, x, x, x, x, x, x]"
  by (simp add: eval_nat_numeral)

lemma kMsbs_bytes: "kMsbs = host_word (replicate 8 0x80)"
  unfolding replicate8 kMsbs_def host_word_def by simp

lemma broadcast_bytes: "kLsbs * ucast h2 = host_word (replicate 8 h2)"
proof -
  have "le_nat (replicate 8 h2) = 0x0101010101010101 * unat h2"
    unfolding replicate8 by simp
  then show ?thesis by (simp add: kLsbs_def host_word_def)
qed

lemma bit_kMsbs: "bit kMsbs k \<longleftrightarrow> k < 64 \<and> k mod 8 = 7"
proof -
  have e: "(0x80 :: u8) = push_bit 7 1" by simp
  have b: "bit (0x80 :: u8) j \<longleftrightarrow> j = 7" for j
    unfolding e bit_push_bit_iff bit_1_iff by auto
  have "replicate 8 (0x80 :: u8) ! (k div 8) = 0x80" if "k < 64" using that by simp
  then show ?thesis using bit_host_word [of "replicate 8 0x80" k] b [of "k mod 8"]
    unfolding kMsbs_bytes by auto
qed

lemma marks_swar:
  assumes "\<And>i. i < 8 \<Longrightarrow> bit m (8 * i + 7) \<longleftrightarrow> P i"
  shows "marks 3 8 (m AND kMsbs) P"
proof -
  have "bit (m AND kMsbs) k \<longleftrightarrow> (\<exists>i<8. k = 8 * i + 7 \<and> P i)" for k
  proof
    assume "bit (m AND kMsbs) k"
    then have k: "bit m k" "k < 64" "k mod 8 = 7" by (auto simp: bit_and_iff bit_kMsbs)
    then have "k = 8 * (k div 8) + 7" "k div 8 < 8" by presburger+
    with k(1) assms show "\<exists>i<8. k = 8 * i + 7 \<and> P i" by metis
  next
    assume "\<exists>i<8. k = 8 * i + 7 \<and> P i"
    then show "bit (m AND kMsbs) k" using assms by (auto simp: bit_and_iff bit_kMsbs)
  qed
  then show ?thesis by (simp add: marks_def)
qed

lemma marks_swar_free:
  assumes "length g = 8"
  shows "marks 3 8 (host_word g AND kMsbs) (\<lambda>i. \<not> full_tag (g ! i))"
  using assms by (intro marks_swar) (simp add: bit_host_word full_tag_bit)

lemma marks_swar_empty:
  assumes "length g = 8" "list_all ctrl_ok g"
  shows "marks 3 8 (host_word g AND push_bit 1 (host_word g) AND kMsbs) (\<lambda>i. g ! i = kCtrlEmpty)"
proof -
  have "bit (host_word g AND push_bit 1 (host_word g) :: u64) (8 * i + 7) \<longleftrightarrow> g ! i = kCtrlEmpty"
    if i: "i < 8" for i
  proof -
    have ok: "ctrl_ok (g ! i)" using assms i by (simp only: list_all_length)
    have "bit (push_bit 1 (host_word g) :: u64) (8 * i + 7) \<longleftrightarrow> bit (host_word g :: u64) (8 * i + 6)"
      using i unfolding bit_push_bit_iff by (auto simp: add.commute)
    then have "bit (host_word g AND push_bit 1 (host_word g) :: u64) (8 * i + 7) \<longleftrightarrow>
        bit (g ! i) 7 \<and> bit (g ! i) 6"
      using i assms(1) by (simp add: bit_and_iff bit_host_word)
    then show ?thesis using empty_bits [OF ok] by simp
  qed
  then show ?thesis unfolding and.assoc [symmetric] by (rule marks_swar)
qed

text \<open>
  The zero-byte test of \<open>match\<close>: the top bit of byte \<open>i\<close> is set exactly if subtracting
  \<open>kLsbs\<close> borrows out of byte \<open>i\<close>.
\<close>

lemma le_nat_take: "n \<le> length bs \<Longrightarrow> le_nat (take n bs) = le_nat bs mod 256 ^ n"
  using le_nat_append [of "take n bs" "drop n bs"] le_nat_bound [of "take n bs"] by simp

lemma le_nat_take_Suc:
  "i < length bs \<Longrightarrow> le_nat (take (Suc i) bs) = le_nat (take i bs) + 256 ^ i * unat (bs ! i)"
  by (simp add: take_Suc_conv_app_nth le_nat_append)

definition ones :: "nat \<Rightarrow> nat" where
  "ones n = le_nat (replicate n 1)"

lemma ones_simps [simp]: "ones 0 = 0" "ones (Suc n) = ones n + 256 ^ n"
  by (simp_all add: ones_def replicate_append_same [symmetric] le_nat_append del: replicate.simps
      add: replicate_0 replicate_Suc)

lemma ones_less: "ones n < 256 ^ n" "ones (Suc n) < 2 * 256 ^ n"
  using le_nat_bound [of "replicate n 1"] by (simp_all add: ones_def [symmetric])

lemma unat_kLsbs: "n \<le> 8 \<Longrightarrow> unat kLsbs mod 256 ^ n = ones n"
proof -
  assume n: "n \<le> 8"
  have "unat kLsbs = le_nat (replicate 8 1)" unfolding replicate8 kLsbs_def by simp
  then show ?thesis using n le_nat_take [of n "replicate 8 1"] by (simp add: ones_def min_def)
qed

lemma borrow_step:
  assumes "i < length bs"
  shows "le_nat (take (Suc i) bs) < ones (Suc i) \<longleftrightarrow>
    bs ! i = 0 \<or> (bs ! i = 1 \<and> le_nat (take i bs) < ones i)"
proof -
  have lo: "le_nat (take i bs) < 256 ^ i" using le_nat_bound [of "take i bs"] assms by simp
  note o = ones_less(1) [of i]
  consider "unat (bs ! i) = 0" | "unat (bs ! i) = 1" | "2 \<le> unat (bs ! i)" by linarith
  then show ?thesis
  proof cases
    case 1
    then have "bs ! i = 0" by (simp add: unat_eq_zero)
    then show ?thesis using lo assms by (simp add: le_nat_take_Suc trans_less_add2)
  next
    case 2
    then have "bs ! i = 1" by (simp add: word_unat_eq_iff)
    then show ?thesis using assms by (simp add: le_nat_take_Suc)
  next
    case 3
    then have "256 ^ i * 2 \<le> 256 ^ i * unat (bs ! i)" by simp
    moreover have "bs ! i \<noteq> 0" "bs ! i \<noteq> 1" using 3 by auto
    ultimately show ?thesis using assms o unfolding le_nat_take_Suc [OF assms] ones_simps by linarith
  qed
qed

text \<open>Subtracting with the borrow: the top bit of the digit below \<open>128 * B\<close>.\<close>

lemma top_bit_of_difference:
  fixes X L B :: int
  assumes "0 \<le> X" "X < 256 * B" "0 \<le> L" "L < 2 * B"
  shows "128 * B \<le> (X - L) mod (256 * B) \<and> X < 128 * B \<longleftrightarrow> X < L"
proof (cases "X < L")
  case True
  then have "(X - L) mod (256 * B) = X - L + 256 * B"
    using assms by (intro int_mod_pos_eq [of _ _ "-1"]) auto
  then show ?thesis using True assms by auto
next
  case False
  then have "(X - L) mod (256 * B) = X - L" using assms by (intro mod_pos_pos_trivial) auto
  then show ?thesis using False assms by auto
qed

lemma bit_top_of_take:
  assumes "n + 7 < 64"
  shows "bit (w :: u64) (n + 7) \<longleftrightarrow> 128 * 2 ^ n \<le> uint w mod (256 * 2 ^ n)"
proof -
  let ?r = "uint w mod (256 * 2 ^ n)"
  have r: "0 \<le> ?r" "?r < 256 * 2 ^ n" by simp_all
  have "bit w (n + 7) \<longleftrightarrow> bit (take_bit (n + 8) (uint w)) (n + 7)"
    using assms by (simp add: bit_take_bit_iff bit_uint_iff)
  also have "take_bit (n + 8) (uint w) = ?r" by (simp add: take_bit_eq_mod power_add mult.commute)
  also have "bit ?r (n + 7) \<longleftrightarrow> odd (?r div (128 * 2 ^ n))"
    by (simp add: bit_iff_odd power_add mult.commute)
  also have "\<dots> \<longleftrightarrow> 128 * 2 ^ n \<le> ?r"
  proof (cases "128 * 2 ^ n \<le> ?r")
    case True
    then have "?r div (128 * 2 ^ n) = 1" using r by (intro int_div_pos_eq [of _ _ _ "?r - 128 * 2 ^ n"]) auto
    with True show ?thesis by simp
  next
    case False
    then have "?r div (128 * 2 ^ n) = 0" using r by (intro div_pos_pos_trivial) auto
    with False show ?thesis by simp
  qed
  finally show ?thesis .
qed

lemma swar_zero_test:
  assumes l: "length xs = 8" and i: "i < 8"
  defines "x \<equiv> host_word xs :: u64"
  shows "bit ((x - kLsbs) AND NOT x) (8 * i + 7) \<longleftrightarrow> le_nat (take (Suc i) xs) < ones (Suc i)"
proof -
  let ?B = "(2::int) ^ (8 * i)" and ?X = "int (le_nat (take (Suc i) xs))" and ?L = "int (ones (Suc i))"
  have B: "int (256 ^ i) = ?B" by (simp add: power_mult)
  have M: "int (256 ^ Suc i) = 256 * ?B" using B by simp
  have dvd: "256 * ?B dvd 2 ^ 64"
  proof -
    have "(2::int) ^ (8 + 8 * i) dvd 2 ^ 64" using i by (intro le_imp_power_dvd) simp
    then show ?thesis by (simp add: power_add)
  qed
  have ux: "uint x mod (256 * ?B) = ?X"
  proof -
    have "le_nat xs < 2 ^ 64" using le_nat_bound [of xs] l by simp
    then have "uint x = int (le_nat xs)"
      by (simp add: x_def host_word_def uint_nat unat_of_nat)
    then have "uint x mod int (256 ^ Suc i) = int (le_nat xs mod 256 ^ Suc i)" by (simp only: of_nat_mod)
    then show ?thesis using le_nat_take [of "Suc i" xs] l i M by simp
  qed
  have uL: "uint kLsbs mod (256 * ?B) = ?L"
    using unat_kLsbs [of "Suc i"] i unfolding M [symmetric] uint_nat of_nat_mod [symmetric] by simp
  have "uint (x - kLsbs) mod (256 * ?B) = (uint x - uint kLsbs) mod (256 * ?B)"
    unfolding uint_word_ariths using dvd by (simp add: mod_mod_cancel)
  also have "\<dots> = (?X - ?L) mod (256 * ?B)"
    by (metis mod_diff_eq ux uL)
  finally have d: "uint (x - kLsbs) mod (256 * ?B) = (?X - ?L) mod (256 * ?B)" .
  have "?X < 256 * ?B" unfolding M [symmetric] of_nat_less_iff
    using le_nat_bound [of "take (Suc i) xs"] l i by simp
  moreover have "?L < 2 * ?B" unfolding B [symmetric] using ones_less(2) [of i] by simp
  ultimately have t: "128 * ?B \<le> (?X - ?L) mod (256 * ?B) \<and> ?X < 128 * ?B \<longleftrightarrow> ?X < ?L"
    by (intro top_bit_of_difference) auto
  have i': "8 * i + 7 < 64" using i by simp
  have "bit ((x - kLsbs) AND NOT x) (8 * i + 7) \<longleftrightarrow>
      128 * ?B \<le> (?X - ?L) mod (256 * ?B) \<and> ?X < 128 * ?B"
    using i' bit_top_of_take [OF i', of "x - kLsbs"] bit_top_of_take [OF i', of x]
    unfolding d ux by (auto simp: bit_and_iff bit_not_iff simp del: ones_simps)
  also note t
  also have "?X < ?L \<longleftrightarrow> le_nat (take (Suc i) xs) < ones (Suc i)" by (rule of_nat_less_iff)
  finally show ?thesis .
qed

lemma xor_eq_iff: "a XOR b = c \<longleftrightarrow> a = b XOR c" for a b c :: "'w::len word"
proof
  assume "a XOR b = c"
  then have "b XOR c = b XOR (a XOR b)" by simp
  also have "\<dots> = a" by (simp add: xor.left_commute [of b a b])
  finally show "a = b XOR c" ..
qed (simp add: xor.commute [of _ b])

lemma chain_Suc:
  "(\<exists>j\<le>Suc i. P j \<and> (\<forall>k. j < k \<and> k \<le> Suc i \<longrightarrow> Q k)) \<longleftrightarrow>
     P (Suc i) \<or> (Q (Suc i) \<and> (\<exists>j\<le>i. P j \<and> (\<forall>k. j < k \<and> k \<le> i \<longrightarrow> Q k)))"
proof
  assume "\<exists>j\<le>Suc i. P j \<and> (\<forall>k. j < k \<and> k \<le> Suc i \<longrightarrow> Q k)"
  then obtain j where "j \<le> Suc i" "P j" "\<And>k. j < k \<Longrightarrow> k \<le> Suc i \<Longrightarrow> Q k" by blast
  then show "P (Suc i) \<or> (Q (Suc i) \<and> (\<exists>j\<le>i. P j \<and> (\<forall>k. j < k \<and> k \<le> i \<longrightarrow> Q k)))"
    using le_Suc_eq [of j i] by (auto 0 3 simp: le_Suc_eq)
next
  assume "P (Suc i) \<or> (Q (Suc i) \<and> (\<exists>j\<le>i. P j \<and> (\<forall>k. j < k \<and> k \<le> i \<longrightarrow> Q k)))"
  then show "\<exists>j\<le>Suc i. P j \<and> (\<forall>k. j < k \<and> k \<le> Suc i \<longrightarrow> Q k)"
    by (metis le_Suc_eq not_less order_refl)
qed

lemma swar_match_bits:
  assumes "length g = 8" "i < 8"
  shows "bit (let x = host_word g XOR (kLsbs * ucast h2) in (x - kLsbs) AND NOT x :: u64) (8 * i + 7) \<longleftrightarrow>
    (\<exists>j\<le>i. g ! j = h2 \<and> (\<forall>k. j < k \<and> k \<le> i \<longrightarrow> g ! k = h2 XOR 1))"
proof -
  let ?xs = "map (\<lambda>c. c XOR h2) g"
  have "host_word g XOR (kLsbs * ucast h2) = (host_word ?xs :: u64)"
    unfolding broadcast_bytes
    using assms(1) by (intro bit_eqI) (auto simp: bit_xor_iff bit_host_word)
  moreover have z: "c XOR h2 = 0 \<longleftrightarrow> c = h2" "c XOR h2 = 1 \<longleftrightarrow> c = h2 XOR 1" for c
    using xor_eq_iff [of c h2] by simp_all
  moreover have "le_nat (take (Suc i) ?xs) < ones (Suc i) \<longleftrightarrow>
      (\<exists>j\<le>i. g ! j = h2 \<and> (\<forall>k. j < k \<and> k \<le> i \<longrightarrow> g ! k = h2 XOR 1))"
    using assms(2)
  proof (induction i)
    case 0
    then show ?case using borrow_step [of 0 ?xs] assms(1) z by simp
  next
    case (Suc i)
    have "le_nat (take (Suc (Suc i)) ?xs) < ones (Suc (Suc i)) \<longleftrightarrow> g ! Suc i = h2 \<or>
        (g ! Suc i = h2 XOR 1 \<and> (\<exists>j\<le>i. g ! j = h2 \<and> (\<forall>k. j < k \<and> k \<le> i \<longrightarrow> g ! k = h2 XOR 1)))"
    proof -
      have b: "le_nat (take (Suc (Suc i)) ?xs) < ones (Suc (Suc i)) \<longleftrightarrow> ?xs ! Suc i = 0 \<or>
          (?xs ! Suc i = 1 \<and> le_nat (take (Suc i) ?xs) < ones (Suc i))"
        by (rule borrow_step) (use Suc.prems assms(1) in simp)
      have n: "?xs ! Suc i = g ! Suc i XOR h2" using Suc.prems assms(1) by simp
      show ?thesis unfolding b n z Suc.IH [OF Suc_lessD [OF Suc.prems]] by (rule refl)
    qed
    also have "\<dots> \<longleftrightarrow> (\<exists>j\<le>Suc i. g ! j = h2 \<and> (\<forall>k. j < k \<and> k \<le> Suc i \<longrightarrow> g ! k = h2 XOR 1))"
      unfolding chain_Suc ..
    finally show ?case .
  qed
  ultimately show ?thesis using swar_zero_test [of ?xs i] assms by (simp add: Let_def)
qed

lemma swar_match_marks:
  assumes "length g = 8"
  shows "marks 3 8 (match GroupSwar g h2)
    (\<lambda>i. \<exists>j\<le>i. g ! j = h2 \<and> (\<forall>k. j < k \<and> k \<le> i \<longrightarrow> g ! k = h2 XOR 1))"
  unfolding GroupSwar_def group_ops.simps Let_def and.assoc [symmetric]
  by (rule marks_swar, rule swar_match_bits [OF assms, unfolded Let_def])

interpretation swar: ctrl_group GroupSwar
proof
  fix g :: "u8 list" and h2 i
  assume l: "length g = kWidth GroupSwar"
  then have l': "length g = 8" by (simp add: GroupSwar_def)
  have w: "kWidth GroupSwar = 8" "kShift GroupSwar = 3" by (simp_all add: GroupSwar_def)
  show "i < kWidth GroupSwar \<Longrightarrow> g ! i = h2 \<Longrightarrow>
      i \<in> set (mask_slots (kShift GroupSwar) (match GroupSwar g h2))"
    using marks_slots [OF swar_match_marks [OF l']] by (auto simp: w)
  have "full_tag h2 \<Longrightarrow> full_tag (h2 XOR 1)"
    by (simp add: full_tag_bit bit_xor_iff bit_1_iff)
  then show "full_tag h2 \<Longrightarrow> i \<in> set (mask_slots (kShift GroupSwar) (match GroupSwar g h2)) \<Longrightarrow>
      i < kWidth GroupSwar \<and> full_tag (g ! i)"
    using marks_slots [OF swar_match_marks [OF l'], of h2] by (auto simp: w le_less)
  show "list_all ctrl_ok g \<Longrightarrow> marks (kShift GroupSwar) (kWidth GroupSwar)
      (match_empty GroupSwar g) (\<lambda>i. g ! i = kCtrlEmpty)"
    using marks_swar_empty [OF l'] by (simp add: GroupSwar_def)
  show "marks (kShift GroupSwar) (kWidth GroupSwar) (match_empty_or_deleted GroupSwar g)
      (\<lambda>i. \<not> full_tag (g ! i))"
    using marks_swar_free [OF l'] by (simp add: GroupSwar_def)
qed (simp_all add: GroupSwar_def)

section \<open>Properties\<close>

text \<open>
  The SWAR compare in full: walking the mask of \<open>match\<close> visits exactly the slots that hold
  the tag and the slots directly above such a slot whose tags differ from it only in bit 0 (a
  run of any length of them). So no slot is missed, and a false candidate needs a true one below.
\<close>

theorem swar_match_exact:
  assumes "length g = 8"
  shows "set (mask_slots (kShift GroupSwar) (match GroupSwar g h2)) =
    {i. i < 8 \<and> (\<exists>j\<le>i. g ! j = h2 \<and> (\<forall>k. j < k \<and> k \<le> i \<longrightarrow> g ! k = h2 XOR 1))}"
  using marks_slots [OF swar_match_marks [OF assms]] by (simp add: GroupSwar_def)

theorem swar_match_exact_witness:
  "3 \<in> set (mask_slots (kShift GroupSwar) (match GroupSwar [9, 4, 5, 5, 7, 255, 128, 4] 4))"
proof -
  have "\<exists>j\<le>3. [9, 4, 5, 5, 7, 255, 128, 4 :: u8] ! j = 4 \<and>
      (\<forall>k. j < k \<and> k \<le> 3 \<longrightarrow> [9, 4, 5, 5, 7, 255, 128, 4 :: u8] ! k = 4 XOR 1)"
    by (rule exI [of _ 1]) (auto simp: le_Suc_eq numeral_eq_Suc)
  then show ?thesis by (subst swar_match_exact) simp_all
qed

end
