(* ===== verification/Level_Search.thy ===== *)
theory Level_Search
  imports Group
begin

text \<open>
  \<^verbatim>\<open>include/itch/simd/level_search.hpp\<close>: \<open>lower_bound\<close> over a sorted array of 32-bit keys,
  scanning from the back. \<open>keys\<close> is the allocation behind the pointer, \<open>n\<close> the number of keys
  in use; a load outside the allocation is \<open>None\<close>. The four variants are proved equal to
  the reference on every sorted prefix, for every setting of the number of linear chunks.
\<close>

section \<open>Reference and binary search\<close>

definition kLevelSearchPad :: nat where
  "kLevelSearchPad = 8"

definition lower_bound :: "u32 list \<Rightarrow> nat \<Rightarrow> u32 \<Rightarrow> nat" where
  "lower_bound keys n key = length (takeWhile (\<lambda>k. k < key) (take n keys))"

definition key_at :: "u32 list \<Rightarrow> nat \<Rightarrow> u32 option" where
  "key_at keys i = (if i < length keys then Some (keys ! i) else None)"

text \<open>\<open>detail::lower_bound_branchless\<close>: the loop narrows \<open>[base, base + n)\<close> to one element.\<close>

function branchless_loop :: "u32 list \<Rightarrow> u32 \<Rightarrow> nat \<Rightarrow> nat \<Rightarrow> (nat \<times> nat) option" where
  "branchless_loop keys key base n =
     (if 1 < n then do {
        let half = n div 2;
        v \<leftarrow> key_at keys (base + half);
        branchless_loop keys key (if v < key then base + half else base) (n - half) }
      else Some (base, n))"
  by pat_completeness auto
termination by (relation "measure (\<lambda>(_, _, _, n). n)") auto

declare branchless_loop.simps [simp del]

definition lower_bound_branchless :: "u32 list \<Rightarrow> nat \<Rightarrow> u32 \<Rightarrow> nat option" where
  "lower_bound_branchless keys n key = do {
     (base, m) \<leftarrow> branchless_loop keys key 0 n;
     if m = 1 then do { v \<leftarrow> key_at keys base; Some (base + of_bool (v < key)) }
     else Some base }"

text \<open>\<open>scalar::lower_bound_from_back\<close>: the loop, and then the binary search.\<close>

fun scalar_scan :: "u32 list \<Rightarrow> u32 \<Rightarrow> nat \<Rightarrow> nat \<Rightarrow> nat option" where
  "scalar_scan keys key stop 0 = Some 0"
| "scalar_scan keys key stop (Suc i) =
     (if Suc i > stop then do {
        v \<leftarrow> key_at keys i;
        if key \<le> v then scalar_scan keys key stop i else Some (Suc i) }
      else Some (Suc i))"

definition scalar_lower_bound_from_back :: "nat \<Rightarrow> u32 list \<Rightarrow> nat \<Rightarrow> u32 \<Rightarrow> nat option" where
  "scalar_lower_bound_from_back Chunks keys n key = do {
     let back = Chunks * kLevelSearchPad mod 2 ^ 32;
     let stop = (if n > back then n - back else 0);
     i \<leftarrow> scalar_scan keys key stop n;
     if i > stop \<or> i = 0 then Some i else lower_bound_branchless keys i key }"

section \<open>Lane masks\<close>

text \<open>A vector of 32-bit lanes is the list of its lanes.\<close>

definition loadu_epi32 :: "nat \<Rightarrow> u32 list \<Rightarrow> nat \<Rightarrow> u32 list option" where
  "loadu_epi32 lanes keys p = (if p + lanes \<le> length keys then Some (take lanes (drop p keys)) else None)"

definition set1_epi32 :: "nat \<Rightarrow> u32 \<Rightarrow> u32 list" where
  "set1_epi32 lanes v = replicate lanes v"

definition cmpgt_epi32 :: "u32 list \<Rightarrow> u32 list \<Rightarrow> u32 list" where
  "cmpgt_epi32 = map2 (\<lambda>a b. if sint b < sint a then - 1 else 0)"

definition cmpeq_epi32 :: "u32 list \<Rightarrow> u32 list \<Rightarrow> u32 list" where
  "cmpeq_epi32 = map2 (\<lambda>a b. if a = b then - 1 else 0)"

definition max_epu32 :: "u32 list \<Rightarrow> u32 list \<Rightarrow> u32 list" where
  "max_epu32 = map2 max"

definition xor_si :: "u32 list \<Rightarrow> u32 list \<Rightarrow> u32 list" where
  "xor_si = map2 (\<lambda>a b. a XOR b)"

definition movemask_ps :: "u32 list \<Rightarrow> u32" where
  "movemask_ps v = horner_sum of_bool 2 (map (\<lambda>x. bit x 31) v)"

definition popcount8 :: "u32 \<Rightarrow> nat" where
  "popcount8 m = length (filter (bit m) [0..<32])"

definition sse2_lt_mask8 :: "u32 list \<Rightarrow> nat \<Rightarrow> u32 list \<Rightarrow> u32 option" where
  "sse2_lt_mask8 keys p key_biased = do {
     let bias = set1_epi32 4 0x80000000;
     lo \<leftarrow> loadu_epi32 4 keys p;
     hi \<leftarrow> loadu_epi32 4 keys (p + 4);
     let m_lo = movemask_ps (cmpgt_epi32 key_biased (xor_si lo bias));
     let m_hi = movemask_ps (cmpgt_epi32 key_biased (xor_si hi bias));
     Some (m_lo OR push_bit 4 m_hi) }"

definition sse41_ge_mask8 :: "u32 list \<Rightarrow> nat \<Rightarrow> u32 list \<Rightarrow> u32 option" where
  "sse41_ge_mask8 keys p k = do {
     lo \<leftarrow> loadu_epi32 4 keys p;
     hi \<leftarrow> loadu_epi32 4 keys (p + 4);
     let m_lo = movemask_ps (cmpeq_epi32 (max_epu32 lo k) lo);
     let m_hi = movemask_ps (cmpeq_epi32 (max_epu32 hi k) hi);
     Some (m_lo OR push_bit 4 m_hi) }"

definition avx2_ge_mask8 :: "u32 list \<Rightarrow> nat \<Rightarrow> u32 list \<Rightarrow> u32 option" where
  "avx2_ge_mask8 keys p k = do {
     v \<leftarrow> loadu_epi32 8 keys p;
     Some (movemask_ps (cmpeq_epi32 (max_epu32 v k) v)) }"

section \<open>The vector searches\<close>

text \<open>
  The chunk loop: \<open>Inl r\<close> is the return from inside the loop, \<open>Inr i\<close> its end with \<open>i\<close>
  elements left.
\<close>

fun lt_scan :: "(nat \<Rightarrow> u32 option) \<Rightarrow> nat \<Rightarrow> nat \<Rightarrow> (nat + nat) option" where
  "lt_scan mask8 0 i = Some (Inr i)"
| "lt_scan mask8 (Suc c) i =
     (if kLevelSearchPad \<le> i then do {
        lt \<leftarrow> mask8 (i - 8);
        if lt \<noteq> 0 then Some (Inl (i - 8 + popcount8 lt)) else lt_scan mask8 c (i - 8) }
      else Some (Inr i))"

fun ge_scan :: "(nat \<Rightarrow> u32 option) \<Rightarrow> nat \<Rightarrow> nat \<Rightarrow> (nat + nat) option" where
  "ge_scan mask8 0 i = Some (Inr i)"
| "ge_scan mask8 (Suc c) i =
     (if kLevelSearchPad \<le> i then do {
        ge \<leftarrow> mask8 (i - 8);
        if ge \<noteq> 0xFF then Some (Inl (i - popcount8 ge)) else ge_scan mask8 c (i - 8) }
      else Some (Inr i))"

definition sse2_lower_bound_from_back :: "nat \<Rightarrow> u32 list \<Rightarrow> nat \<Rightarrow> u32 \<Rightarrow> nat option" where
  "sse2_lower_bound_from_back Chunks keys n key = do {
     let kb = set1_epi32 4 (key XOR 0x80000000);
     r \<leftarrow> lt_scan (\<lambda>p. sse2_lt_mask8 keys p kb) Chunks n;
     case r of
       Inl i \<Rightarrow> Some i
     | Inr i \<Rightarrow>
         if kLevelSearchPad \<le> i then lower_bound_branchless keys i key
         else do {
           m \<leftarrow> sse2_lt_mask8 keys 0 kb;
           Some (popcount8 (m AND (push_bit i 1 - 1))) } }"

definition ge_lower_bound_from_back ::
  "(u32 list \<Rightarrow> nat \<Rightarrow> u32 option) \<Rightarrow> nat \<Rightarrow> u32 list \<Rightarrow> nat \<Rightarrow> u32 \<Rightarrow> nat option" where
  "ge_lower_bound_from_back mask8 Chunks keys n key = do {
     r \<leftarrow> ge_scan (mask8 keys) Chunks n;
     case r of
       Inl i \<Rightarrow> Some i
     | Inr i \<Rightarrow>
         if kLevelSearchPad \<le> i then lower_bound_branchless keys i key
         else do {
           m \<leftarrow> mask8 keys 0;
           Some (i - popcount8 (m AND (push_bit i 1 - 1))) } }"

definition sse41_lower_bound_from_back :: "nat \<Rightarrow> u32 list \<Rightarrow> nat \<Rightarrow> u32 \<Rightarrow> nat option" where
  "sse41_lower_bound_from_back Chunks keys n key =
     ge_lower_bound_from_back (\<lambda>keys p. sse41_ge_mask8 keys p (set1_epi32 4 key)) Chunks keys n key"

definition avx2_lower_bound_from_back :: "nat \<Rightarrow> u32 list \<Rightarrow> nat \<Rightarrow> u32 \<Rightarrow> nat option" where
  "avx2_lower_bound_from_back Chunks keys n key =
     ge_lower_bound_from_back (\<lambda>keys p. avx2_ge_mask8 keys p (set1_epi32 8 key)) Chunks keys n key"

section \<open>The reference\<close>

definition sorted_keys :: "u32 list \<Rightarrow> nat \<Rightarrow> bool" where
  "sorted_keys keys n \<longleftrightarrow> n \<le> length keys \<and> sorted (take n keys)"

lemma lower_bound_le: "lower_bound keys n key \<le> n"
  by (simp add: lower_bound_def) (metis length_take length_takeWhile_le min.bounded_iff)

lemma lower_bound_iff:
  assumes "sorted_keys keys n" "j < n"
  shows "keys ! j < key \<longleftrightarrow> j < lower_bound keys n key"
proof
  let ?xs = "take n keys"
  assume "j < lower_bound keys n key"
  then have "?xs ! j \<in> set (takeWhile (\<lambda>k. k < key) ?xs)"
    unfolding lower_bound_def by (metis nth_mem takeWhile_nth)
  then have "?xs ! j < key" by (rule set_takeWhileD [THEN conjunct2])
  then show "keys ! j < key" using assms(2) by simp
next
  let ?xs = "take n keys" and ?L = "lower_bound keys n key"
  assume lt: "keys ! j < key"
  show "j < ?L"
  proof (rule ccontr)
    assume "\<not> j < ?L"
    then have L: "?L < length ?xs" "?L \<le> j" using assms by (simp_all add: sorted_keys_def)
    then have "\<not> ?xs ! ?L < key" unfolding lower_bound_def by (intro nth_length_takeWhile)
    moreover have "?xs ! ?L \<le> ?xs ! j"
      using L assms by (intro sorted_nth_mono) (simp_all add: sorted_keys_def)
    ultimately show False using lt L assms by simp
  qed
qed

lemma lower_bound_unique:
  assumes "sorted_keys keys n" "i \<le> n" "\<And>j. j < n \<Longrightarrow> keys ! j < key \<longleftrightarrow> j < i"
  shows "lower_bound keys n key = i"
proof -
  let ?L = "lower_bound keys n key"
  have "j < ?L \<longleftrightarrow> j < i" if "j < n" for j
    using assms(3) [OF that] lower_bound_iff [OF assms(1) that] by simp
  moreover have "?L \<le> n" by (rule lower_bound_le)
  ultimately show ?thesis using assms(2) by (metis linorder_neqE_nat order_less_le_trans less_irrefl)
qed

lemma sorted_keys_prefix: "sorted_keys keys n \<Longrightarrow> i \<le> n \<Longrightarrow> sorted_keys keys i"
  unfolding sorted_keys_def by (metis le_trans min.absorb1 sorted_wrt_take take_take)

lemma lower_bound_prefix:
  assumes "sorted_keys keys n" "lower_bound keys n key \<le> i" "i \<le> n"
  shows "lower_bound keys i key = lower_bound keys n key"
  using assms lower_bound_iff [OF assms(1)]
  by (intro lower_bound_unique) (auto intro: sorted_keys_prefix)

lemma branchless_loop_eq:
  assumes "sorted_keys keys n" "base + m \<le> n" "0 < m"
    and "base = 0 \<or> base < lower_bound keys n key" "lower_bound keys n key \<le> base + m"
  shows "\<exists>b. branchless_loop keys key base m = Some (b, 1) \<and> b < n \<and>
    (b = 0 \<or> b < lower_bound keys n key) \<and> lower_bound keys n key \<le> b + 1"
  using assms
proof (induction keys key base m rule: branchless_loop.induct)
  case (1 keys key base m)
  let ?L = "lower_bound keys n key" and ?h = "m div 2"
  show ?case
  proof (cases "1 < m")
    case False
    then have "m = 1" using "1.prems" by simp
    then show ?thesis using "1.prems" by (subst branchless_loop.simps) simp
  next
    case True
    have "base + ?h < n" using "1.prems"(2) True by simp
    then have k: "key_at keys (base + ?h) = Some (keys ! (base + ?h))"
      "keys ! (base + ?h) < key \<longleftrightarrow> base + ?h < ?L"
      using "1.prems"(1) by (auto simp: key_at_def sorted_keys_def lower_bound_iff)
    let ?b = "if keys ! (base + ?h) < key then base + ?h else base"
    have "\<exists>b. branchless_loop keys key ?b (m - ?h) = Some (b, 1) \<and> b < n \<and>
        (b = 0 \<or> b < ?L) \<and> ?L \<le> b + 1"
      using True "1.prems" k(2) by (intro "1.IH" [OF True refl k(1)]) auto
    then show ?thesis using True k(1) by (subst branchless_loop.simps) (simp add: Let_def)
  qed
qed

lemma lower_bound_branchless_eq:
  assumes "sorted_keys keys n"
  shows "lower_bound_branchless keys n key = Some (lower_bound keys n key)"
proof (cases "n = 0")
  case True
  then show ?thesis
    by (simp add: lower_bound_branchless_def lower_bound_def branchless_loop.simps)
next
  case False
  let ?L = "lower_bound keys n key"
  obtain b where b: "branchless_loop keys key 0 n = Some (b, 1)" "b < n"
    "b = 0 \<or> b < ?L" "?L \<le> b + 1"
    using branchless_loop_eq [OF assms, of 0 n key] lower_bound_le [of keys n key] False by auto
  moreover have "key_at keys b = Some (keys ! b)" using b assms by (auto simp: key_at_def sorted_keys_def)
  moreover have "keys ! b < key \<longleftrightarrow> b < ?L" using assms b by (simp add: lower_bound_iff)
  ultimately show ?thesis by (auto simp: lower_bound_branchless_def)
qed

lemma scalar_scan_eq:
  assumes "sorted_keys keys n" "i \<le> n" "lower_bound keys n key \<le> i"
  shows "scalar_scan keys key stop i =
    Some (if i \<le> stop then i else max (lower_bound keys n key) stop)"
  using assms(2,3)
proof (induction i)
  case 0
  then show ?case by simp
next
  case (Suc i)
  have "keys ! i < key \<longleftrightarrow> i < lower_bound keys n key" using assms Suc by (simp add: lower_bound_iff)
  moreover have "key_at keys i = Some (keys ! i)" using assms Suc by (simp add: key_at_def sorted_keys_def)
  ultimately show ?case using Suc by (auto simp: max_def)
qed

lemma scalar_lower_bound_eq:
  assumes s: "sorted_keys keys n"
  shows "scalar_lower_bound_from_back Chunks keys n key = Some (lower_bound keys n key)"
proof -
  let ?L = "lower_bound keys n key"
  define stop where "stop = (let back = Chunks * kLevelSearchPad mod 2 ^ 32 in if n > back then n - back else 0)"
  have st: "stop \<le> n" by (simp add: stop_def Let_def)
  have scan: "scalar_scan keys key stop n = Some (if n \<le> stop then n else max ?L stop)"
    by (rule scalar_scan_eq [OF s]) (simp_all add: lower_bound_le)
  have bl: "lower_bound_branchless keys i key = Some ?L" if "?L \<le> i" "i \<le> n" for i
    using lower_bound_branchless_eq [OF sorted_keys_prefix [OF s that(2)]]
      lower_bound_prefix [OF s that] by simp
  show ?thesis
    unfolding scalar_lower_bound_from_back_def stop_def [unfolded Let_def, symmetric] Let_def scan
    using st lower_bound_le [of keys n key] bl by (auto simp: max_def)
qed

section \<open>Lanes\<close>

lemma popcount8_card: "popcount8 m = card {k. bit m k}"
proof -
  have "{k. bit m k} = set (filter (bit m) [0..<32])"
    using bit_imp_le_length [of m] by auto
  then show ?thesis by (simp add: popcount8_def distinct_card [symmetric])
qed

lemma bit_movemask_ps: "bit (movemask_ps v) k \<longleftrightarrow> k < 32 \<and> k < length v \<and> bit (v ! k) 31"
  by (auto simp: movemask_ps_def bit_horner_sum_bit_word_iff)

lemma bit_lane [simp]: "bit (if c then - 1 else 0 :: u32) 31 \<longleftrightarrow> c"
  by simp

text \<open>The mask has a bit for each of the eight keys from \<open>p\<close> that satisfies \<open>P\<close>.\<close>

definition lane_mask :: "u32 list \<Rightarrow> nat \<Rightarrow> (u32 \<Rightarrow> bool) \<Rightarrow> u32 \<Rightarrow> bool" where
  "lane_mask keys p P m \<longleftrightarrow> (\<forall>k. bit m k \<longleftrightarrow> k < 8 \<and> P (keys ! (p + k)))"

lemma lane_mask_halves:
  assumes "p + 8 \<le> length keys"
    and lo: "\<And>k. bit m_lo k \<longleftrightarrow> k < 4 \<and> P (take 4 (drop p keys) ! k)"
    and hi: "\<And>k. bit m_hi k \<longleftrightarrow> k < 4 \<and> P (take 4 (drop (p + 4) keys) ! k)"
  shows "lane_mask keys p P (m_lo OR push_bit 4 m_hi)"
proof -
  have "bit (m_lo OR push_bit 4 m_hi) k \<longleftrightarrow> k < 8 \<and> P (keys ! (p + k))" for k
  proof (cases "k < 4")
    case True
    then show ?thesis using assms(1) by (auto simp: bit_or_iff bit_push_bit_iff lo)
  next
    case False
    then obtain j where k: "k = 4 + j" by (metis le_iff_add not_less)
    have "bit (push_bit 4 m_hi) (4 + j) \<longleftrightarrow> j < 4 \<and> P (keys ! (p + (4 + j)))"
      unfolding bit_push_bit_iff using assms(1) by (auto simp: hi add.assoc)
    then show ?thesis unfolding k by (simp add: bit_or_iff lo)
  qed
  then show ?thesis by (simp add: lane_mask_def)
qed

lemma max_eq_lanes: "length v = n \<Longrightarrow> bit (movemask_ps (cmpeq_epi32 (max_epu32 v (set1_epi32 n key)) v)) k \<longleftrightarrow>
    k < 32 \<and> k < n \<and> key \<le> v ! k"
  by (auto simp: bit_movemask_ps cmpeq_epi32_def max_epu32_def set1_epi32_def max.absorb_iff1 [symmetric])

lemma sse41_ge_mask8_lanes:
  assumes "p + 8 \<le> length keys"
  shows "\<exists>m. sse41_ge_mask8 keys p (set1_epi32 4 key) = Some m \<and> lane_mask keys p (\<lambda>x. key \<le> x) m"
proof -
  have "lane_mask keys p (\<lambda>x. key \<le> x)
     (movemask_ps (cmpeq_epi32 (max_epu32 (take 4 (drop p keys)) (set1_epi32 4 key)) (take 4 (drop p keys))) OR
      push_bit 4 (movemask_ps (cmpeq_epi32 (max_epu32 (take 4 (drop (p + 4) keys)) (set1_epi32 4 key))
        (take 4 (drop (p + 4) keys)))))"
    using assms by (rule lane_mask_halves) (use assms in \<open>subst max_eq_lanes; auto\<close>)+
  then show ?thesis using assms by (simp add: sse41_ge_mask8_def loadu_epi32_def Let_def)
qed

lemma avx2_ge_mask8_lanes:
  assumes "p + 8 \<le> length keys"
  shows "\<exists>m. avx2_ge_mask8 keys p (set1_epi32 8 key) = Some m \<and> lane_mask keys p (\<lambda>x. key \<le> x) m"
proof -
  have "lane_mask keys p (\<lambda>x. key \<le> x)
     (movemask_ps (cmpeq_epi32 (max_epu32 (take 8 (drop p keys)) (set1_epi32 8 key)) (take 8 (drop p keys))))"
    using assms unfolding lane_mask_def by (subst max_eq_lanes) auto
  then show ?thesis using assms by (simp add: avx2_ge_mask8_def loadu_epi32_def Let_def)
qed

text \<open>Flipping the sign bit turns the unsigned order into the signed one.\<close>

lemma xor_top_bit: "(a :: u32) XOR 0x80000000 = a + 0x80000000"
proof -
  define t :: u32 where "t = push_bit 31 1"
  have t: "bit t k \<longleftrightarrow> k = 31" for k
    unfolding t_def bit_push_bit_iff bit_1_iff by auto
  have tt: "t + t = 0" by (simp add: t_def)
  have t_num: "t = 0x80000000" by (simp add: t_def)
  let ?u = "unset_bit 31 a"
  have "a XOR t = a + t"
  proof (cases "bit a 31")
    case True
    have "a = ?u OR t" using True by (intro bit_eqI) (auto simp: bit_simps t)
    also have "\<dots> = ?u + t"
      by (intro disjunctive_add_eq_or [symmetric] bit_eqI) (auto simp: bit_simps t)
    finally have "a + t = ?u + (t + t)" by (metis add.assoc)
    then have "a + t = ?u" using tt by (simp only: add_0_right)
    moreover have "a XOR t = ?u" using True by (intro bit_eqI) (auto simp: bit_simps t)
    ultimately show ?thesis by simp
  next
    case False
    have "a XOR t = a OR t" using False by (intro bit_eqI) (auto simp: bit_simps t)
    also have "\<dots> = a + t"
      using False by (intro disjunctive_add_eq_or [symmetric] bit_eqI) (auto simp: bit_simps t)
    finally show ?thesis .
  qed
  then show ?thesis unfolding t_num .
qed

lemma sint_bias: "sint ((a :: u32) XOR 0x80000000) = uint a - 2 ^ 31"
proof -
  have "uint a < 2 ^ 32" by (rule order_less_le_trans [OF unsigned_less]) simp
  then have "(uint (a + 0x80000000) + 2 ^ 31) mod 2 ^ 32 = uint a"
    by (simp add: uint_word_ariths mod_simps)
  then show ?thesis
    by (simp add: xor_top_bit sint_uint signed_take_bit_eq_take_bit_shift take_bit_eq_mod)
qed

lemma signed_less_bias: "sint ((a :: u32) XOR 0x80000000) < sint (b XOR 0x80000000) \<longleftrightarrow> a < b"
  by (simp add: sint_bias word_less_def)

lemma cmpgt_lanes:
  assumes "length v = 4"
  shows "bit (movemask_ps (cmpgt_epi32 (set1_epi32 4 (key XOR 0x80000000)) (xor_si v (set1_epi32 4 0x80000000)))) k
    \<longleftrightarrow> k < 4 \<and> v ! k < key"
  using assms
  by (auto simp: bit_movemask_ps cmpgt_epi32_def xor_si_def set1_epi32_def signed_less_bias)

lemma sse2_lt_mask8_lanes:
  assumes "p + 8 \<le> length keys"
  shows "\<exists>m. sse2_lt_mask8 keys p (set1_epi32 4 (key XOR 0x80000000)) = Some m \<and>
    lane_mask keys p (\<lambda>x. x < key) m"
proof -
  have "lane_mask keys p (\<lambda>x. x < key)
     (movemask_ps (cmpgt_epi32 (set1_epi32 4 (key XOR 0x80000000)) (xor_si (take 4 (drop p keys)) (set1_epi32 4 0x80000000))) OR
      push_bit 4 (movemask_ps (cmpgt_epi32 (set1_epi32 4 (key XOR 0x80000000))
        (xor_si (take 4 (drop (p + 4) keys)) (set1_epi32 4 0x80000000)))))"
    using assms by (rule lane_mask_halves) (use assms in \<open>subst cmpgt_lanes; auto\<close>)+
  then show ?thesis using assms by (simp add: sse2_lt_mask8_def loadu_epi32_def Let_def)
qed

section \<open>Chunks\<close>

lemma lt_chunk:
  assumes "sorted_keys keys n" "lower_bound keys n key \<le> i" "i \<le> n" "8 \<le> i"
    and m: "lane_mask keys (i - 8) (\<lambda>x. x < key) m"
  shows "m \<noteq> 0 \<longleftrightarrow> i - 8 < lower_bound keys n key"
    "m \<noteq> 0 \<Longrightarrow> i - 8 + popcount8 m = lower_bound keys n key"
proof -
  let ?L = "lower_bound keys n key"
  have bm: "bit m k \<longleftrightarrow> k < 8 \<and> keys ! (i - 8 + k) < key" for k
    using m unfolding lane_mask_def by (rule spec)
  have b: "bit m k \<longleftrightarrow> k < ?L - (i - 8)" for k
  proof (cases "k < 8")
    case True
    then have "i - 8 + k < n" using assms(3,4) by simp
    then have "keys ! (i - 8 + k) < key \<longleftrightarrow> i - 8 + k < ?L" by (rule lower_bound_iff [OF assms(1)])
    moreover have "i - 8 + k < ?L \<longleftrightarrow> k < ?L - (i - 8)" by linarith
    ultimately show ?thesis using True assms(2) unfolding bm by auto
  next
    case False
    with assms(2) show ?thesis unfolding bm by auto
  qed
  have ex: "(\<exists>k. k < d) \<longleftrightarrow> 0 < d" for d :: nat by auto
  show nz: "m \<noteq> 0 \<longleftrightarrow> i - 8 < ?L" unfolding word_nonzero_bit b ex by (rule zero_less_diff)
  have "popcount8 m = ?L - (i - 8)" by (simp add: popcount8_card b)
  then show "m \<noteq> 0 \<Longrightarrow> i - 8 + popcount8 m = ?L" using nz by simp
qed

lemma word_neq_bit: "(a :: 'a::len word) \<noteq> b \<longleftrightarrow> (\<exists>k. bit a k \<noteq> bit b k)"
proof
  assume ab: "a \<noteq> b"
  show "\<exists>k. bit a k \<noteq> bit b k"
  proof (rule ccontr)
    assume "\<nexists>k. bit a k \<noteq> bit b k"
    then have "bit a k = bit b k" for k by simp
    then have "a = b" by (intro bit_eqI)
    with ab show False ..
  qed
qed auto

lemma ge_chunk:
  assumes "sorted_keys keys n" "lower_bound keys n key \<le> i" "i \<le> n" "8 \<le> i"
    and m: "lane_mask keys (i - 8) (\<lambda>x. key \<le> x) m"
  shows "m \<noteq> 0xFF \<longleftrightarrow> i - 8 < lower_bound keys n key"
    "m \<noteq> 0xFF \<Longrightarrow> i - popcount8 m = lower_bound keys n key"
proof -
  let ?L = "lower_bound keys n key"
  have bm: "bit m k \<longleftrightarrow> k < 8 \<and> \<not> keys ! (i - 8 + k) < key" for k
    using m unfolding lane_mask_def not_less by (rule spec)
  have b: "bit m k \<longleftrightarrow> k \<in> {?L - (i - 8)..<8}" for k
  proof (cases "k < 8")
    case True
    then have "i - 8 + k < n" using assms(3,4) by simp
    then have "keys ! (i - 8 + k) < key \<longleftrightarrow> i - 8 + k < ?L" by (rule lower_bound_iff [OF assms(1)])
    moreover have "i - 8 + k < ?L \<longleftrightarrow> k < ?L - (i - 8)" by linarith
    ultimately show ?thesis using True assms(2) unfolding bm by auto
  next
    case False
    then show ?thesis unfolding bm by auto
  qed
  have ff: "bit (0xFF :: u32) k \<longleftrightarrow> k < 8" for k
  proof -
    have e: "(0xFF :: u32) = mask 8" by (simp add: mask_eq_exp_minus_1)
    show ?thesis unfolding e bit_mask_iff by auto
  qed
  have aux: "(k \<in> {d..<8}) \<noteq> (k < 8) \<longleftrightarrow> k < 8 \<and> k < d" for k d :: nat by auto
  have "m \<noteq> 0xFF \<longleftrightarrow> (\<exists>k. bit m k \<noteq> bit (0xFF :: u32) k)" by (rule word_neq_bit)
  also have "\<dots> \<longleftrightarrow> (\<exists>k<8. k < ?L - (i - 8))" unfolding b ff aux by (rule refl)
  also have "\<dots> \<longleftrightarrow> 0 < ?L - (i - 8)" by (auto intro: exI [of _ 0])
  also have "\<dots> \<longleftrightarrow> i - 8 < ?L" by (rule zero_less_diff)
  finally show nz: "m \<noteq> 0xFF \<longleftrightarrow> i - 8 < ?L" .
  have "{k. bit m k} = {?L - (i - 8)..<8}" using b by blast
  then have "popcount8 m = 8 - (?L - (i - 8))" unfolding popcount8_card by simp
  then show "m \<noteq> 0xFF \<Longrightarrow> i - popcount8 m = ?L" using nz assms by simp
qed

lemma bit_low_mask: "i < 8 \<Longrightarrow> bit (m AND (push_bit i 1 - 1) :: u32) k \<longleftrightarrow> bit m k \<and> k < i"
proof -
  assume "i < 8"
  have "push_bit i 1 - 1 = (mask i :: u32)" by (simp add: mask_eq_exp_minus_1 push_bit_eq_mult)
  then show ?thesis using \<open>i < 8\<close> by (auto simp: bit_and_iff bit_mask_iff)
qed

lemma lt_scan_eq:
  assumes s: "sorted_keys keys n"
    and m: "\<And>p. p + 8 \<le> length keys \<Longrightarrow> \<exists>m. mask8 p = Some m \<and> lane_mask keys p (\<lambda>x. x < key) m"
    and "lower_bound keys n key \<le> i" "i \<le> n"
  shows "lt_scan mask8 c i = Some (Inl (lower_bound keys n key)) \<or>
    (\<exists>j. lt_scan mask8 c i = Some (Inr j) \<and> lower_bound keys n key \<le> j \<and> j \<le> i)"
  using assms(3,4)
proof (induction c arbitrary: i)
  case 0
  then show ?case by simp
next
  case (Suc c)
  show ?case
  proof (cases "8 \<le> i")
    case False
    then show ?thesis using Suc.prems by (simp add: kLevelSearchPad_def)
  next
    case True
    then obtain w where w: "mask8 (i - 8) = Some w" "lane_mask keys (i - 8) (\<lambda>x. x < key) w"
      using m [of "i - 8"] s Suc.prems by (auto simp: sorted_keys_def)
    note c = lt_chunk [OF s Suc.prems True w(2)]
    show ?thesis
    proof (cases "w = 0")
      case False
      then show ?thesis using c True w(1) by (simp add: kLevelSearchPad_def)
    next
      case zero: True
      have "lower_bound keys n key \<le> i - 8" using c zero by simp
      from Suc.IH [OF this] Suc.prems zero True w(1) show ?thesis
        by (fastforce simp: kLevelSearchPad_def)
    qed
  qed
qed

lemma ge_scan_eq:
  assumes s: "sorted_keys keys n"
    and m: "\<And>p. p + 8 \<le> length keys \<Longrightarrow> \<exists>m. mask8 p = Some m \<and> lane_mask keys p (\<lambda>x. key \<le> x) m"
    and "lower_bound keys n key \<le> i" "i \<le> n"
  shows "ge_scan mask8 c i = Some (Inl (lower_bound keys n key)) \<or>
    (\<exists>j. ge_scan mask8 c i = Some (Inr j) \<and> lower_bound keys n key \<le> j \<and> j \<le> i)"
  using assms(3,4)
proof (induction c arbitrary: i)
  case 0
  then show ?case by simp
next
  case (Suc c)
  show ?case
  proof (cases "8 \<le> i")
    case False
    then show ?thesis using Suc.prems by (simp add: kLevelSearchPad_def)
  next
    case True
    then obtain w where w: "mask8 (i - 8) = Some w" "lane_mask keys (i - 8) (\<lambda>x. key \<le> x) w"
      using m [of "i - 8"] s Suc.prems by (auto simp: sorted_keys_def)
    note c = ge_chunk [OF s Suc.prems True w(2)]
    show ?thesis
    proof (cases "w = 0xFF")
      case False
      then show ?thesis using c True w(1) by (simp add: kLevelSearchPad_def)
    next
      case full: True
      have "lower_bound keys n key \<le> i - 8" using c full by simp
      from Suc.IH [OF this] Suc.prems full True w(1) show ?thesis
        by (fastforce simp: kLevelSearchPad_def)
    qed
  qed
qed

text \<open>The tail, with fewer than eight keys left: one load from the front, masked.\<close>

lemma lt_tail:
  assumes "sorted_keys keys n" "lower_bound keys n key \<le> i" "i \<le> n" "i < 8"
    and m: "lane_mask keys 0 (\<lambda>x. x < key) m"
  shows "popcount8 (m AND (push_bit i 1 - 1)) = lower_bound keys n key"
proof -
  have "bit (m AND (push_bit i 1 - 1)) k \<longleftrightarrow> k < lower_bound keys n key" for k
    using assms(2-4) lower_bound_iff [OF assms(1), of k key] m [unfolded lane_mask_def, rule_format, of k]
    unfolding bit_low_mask [OF assms(4)] by auto
  then show ?thesis by (simp add: popcount8_card)
qed

lemma ge_tail:
  assumes "sorted_keys keys n" "lower_bound keys n key \<le> i" "i \<le> n" "i < 8"
    and m: "lane_mask keys 0 (\<lambda>x. key \<le> x) m"
  shows "i - popcount8 (m AND (push_bit i 1 - 1)) = lower_bound keys n key"
proof -
  have "bit (m AND (push_bit i 1 - 1)) k \<longleftrightarrow> k \<in> {lower_bound keys n key..<i}" for k
    using assms(2-4) lower_bound_iff [OF assms(1), of k key] m [unfolded lane_mask_def, rule_format, of k]
    unfolding bit_low_mask [OF assms(4)] by (auto simp: not_less [symmetric])
  then have "{k. bit (m AND (push_bit i 1 - 1)) k} = {lower_bound keys n key..<i}" by blast
  then show ?thesis using assms(2) unfolding popcount8_card by simp
qed

lemma branchless_prefix:
  assumes "sorted_keys keys n" "lower_bound keys n key \<le> i" "i \<le> n"
  shows "lower_bound_branchless keys i key = Some (lower_bound keys n key)"
  using lower_bound_branchless_eq [OF sorted_keys_prefix [OF assms(1,3)]] lower_bound_prefix [OF assms]
  by simp

lemma sse2_lower_bound_eq:
  assumes s: "sorted_keys keys n" and pad: "kLevelSearchPad \<le> length keys"
  shows "sse2_lower_bound_from_back Chunks keys n key = Some (lower_bound keys n key)"
proof -
  let ?kb = "set1_epi32 4 (key XOR 0x80000000)" and ?L = "lower_bound keys n key"
  have scan: "lt_scan (\<lambda>p. sse2_lt_mask8 keys p ?kb) Chunks n = Some (Inl ?L) \<or>
      (\<exists>j. lt_scan (\<lambda>p. sse2_lt_mask8 keys p ?kb) Chunks n = Some (Inr j) \<and> ?L \<le> j \<and> j \<le> n)"
    by (rule lt_scan_eq [OF s _ lower_bound_le order_refl]) (rule sse2_lt_mask8_lanes)
  obtain m where m: "sse2_lt_mask8 keys 0 ?kb = Some m" "lane_mask keys 0 (\<lambda>x. x < key) m"
    using sse2_lt_mask8_lanes [of 0 keys key] pad by (auto simp: kLevelSearchPad_def)
  from scan show ?thesis
  proof (elim disjE exE conjE)
    fix j assume j: "lt_scan (\<lambda>p. sse2_lt_mask8 keys p ?kb) Chunks n = Some (Inr j)" "?L \<le> j" "j \<le> n"
    then show ?thesis
      using m lt_tail [OF s j(2,3) _ m(2)] branchless_prefix [OF s j(2,3)]
      by (simp add: sse2_lower_bound_from_back_def kLevelSearchPad_def)
  qed (simp add: sse2_lower_bound_from_back_def)
qed

lemma ge_lower_bound_eq:
  assumes s: "sorted_keys keys n" and pad: "kLevelSearchPad \<le> length keys"
    and lanes: "\<And>p. p + 8 \<le> length keys \<Longrightarrow>
      \<exists>m. mask8 keys p = Some m \<and> lane_mask keys p (\<lambda>x. key \<le> x) m"
  shows "ge_lower_bound_from_back mask8 Chunks keys n key = Some (lower_bound keys n key)"
proof -
  let ?L = "lower_bound keys n key"
  have scan: "ge_scan (mask8 keys) Chunks n = Some (Inl ?L) \<or>
      (\<exists>j. ge_scan (mask8 keys) Chunks n = Some (Inr j) \<and> ?L \<le> j \<and> j \<le> n)"
    by (rule ge_scan_eq [OF s _ lower_bound_le order_refl]) (rule lanes)
  obtain m where m: "mask8 keys 0 = Some m" "lane_mask keys 0 (\<lambda>x. key \<le> x) m"
    using lanes [of 0] pad by (auto simp: kLevelSearchPad_def)
  from scan show ?thesis
  proof (elim disjE exE conjE)
    fix j assume j: "ge_scan (mask8 keys) Chunks n = Some (Inr j)" "?L \<le> j" "j \<le> n"
    then show ?thesis
      using m ge_tail [OF s j(2,3) _ m(2)] branchless_prefix [OF s j(2,3)]
      by (simp add: ge_lower_bound_from_back_def kLevelSearchPad_def)
  qed (simp add: ge_lower_bound_from_back_def)
qed

lemma sse41_lower_bound_eq:
  "sorted_keys keys n \<Longrightarrow> kLevelSearchPad \<le> length keys \<Longrightarrow>
     sse41_lower_bound_from_back Chunks keys n key = Some (lower_bound keys n key)"
  unfolding sse41_lower_bound_from_back_def
  by (rule ge_lower_bound_eq) (auto intro: sse41_ge_mask8_lanes)

lemma avx2_lower_bound_eq:
  "sorted_keys keys n \<Longrightarrow> kLevelSearchPad \<le> length keys \<Longrightarrow>
     avx2_lower_bound_from_back Chunks keys n key = Some (lower_bound keys n key)"
  unfolding avx2_lower_bound_from_back_def
  by (rule ge_lower_bound_eq) (auto intro: avx2_ge_mask8_lanes)

section \<open>The contract, and the build's choice\<close>

text \<open>What the level arrays need of a search: the insertion point, on a padded allocation.\<close>

locale level_search =
  fixes search :: "u32 list \<Rightarrow> nat \<Rightarrow> u32 \<Rightarrow> nat option"
  assumes search_eq: "sorted_keys keys n \<Longrightarrow> kLevelSearchPad \<le> length keys \<Longrightarrow>
    search keys n key = Some (lower_bound keys n key)"
begin

lemma search_le:
  "sorted_keys keys n \<Longrightarrow> kLevelSearchPad \<le> length keys \<Longrightarrow> search keys n key = Some i \<Longrightarrow> i \<le> n"
  using search_eq lower_bound_le by (metis option.sel)

lemma search_below:
  assumes "sorted_keys keys n" "kLevelSearchPad \<le> length keys" "search keys n key = Some i" "j < n"
  shows "keys ! j < key \<longleftrightarrow> j < i"
  using search_eq [OF assms(1,2), of key] assms(3) lower_bound_iff [OF assms(1,4), of key] by simp

end

text \<open>The instruction sets a build can select, strongest rule first as the headers test them.\<close>

datatype isa = Force_Scalar | Have_AVX2 | Have_SSE41 | Have_SSE2

definition GroupBest :: "isa \<Rightarrow> group_ops" where
  "GroupBest b = (case b of
     Force_Scalar \<Rightarrow> GroupSwar | Have_AVX2 \<Rightarrow> GroupAvx2 | Have_SSE41 \<Rightarrow> GroupSse2 | Have_SSE2 \<Rightarrow> GroupSse2)"

definition kLinearChunks :: nat where
  "kLinearChunks = 4"

definition lower_bound_from_back :: "isa \<Rightarrow> u32 list \<Rightarrow> nat \<Rightarrow> u32 \<Rightarrow> nat option" where
  "lower_bound_from_back b = (case b of
     Force_Scalar \<Rightarrow> scalar_lower_bound_from_back kLinearChunks
   | Have_AVX2 \<Rightarrow> avx2_lower_bound_from_back kLinearChunks
   | Have_SSE41 \<Rightarrow> sse41_lower_bound_from_back kLinearChunks
   | Have_SSE2 \<Rightarrow> sse2_lower_bound_from_back kLinearChunks)"

interpretation best_search: level_search "lower_bound_from_back b" for b
  by unfold_locales (cases b; simp add: lower_bound_from_back_def scalar_lower_bound_eq
      sse2_lower_bound_eq sse41_lower_bound_eq avx2_lower_bound_eq)

interpretation best_group: ctrl_group "GroupBest b" for b
  by (cases b) (simp_all add: GroupBest_def swar.ctrl_group_axioms sse2.ctrl_group_axioms
      avx2.ctrl_group_axioms)

section \<open>Properties\<close>

text \<open>
  C20. Every level search returns \<open>std::lower_bound\<close> on a sorted prefix of a padded
  allocation and reads nothing outside it: the scalar, the SSE2, the SSE4.1 and the AVX2 scan,
  with any number of linear chunks, and the branchless binary search.
\<close>

theorem level_searches_agree:
  assumes "sorted_keys keys n" "kLevelSearchPad \<le> length keys"
  shows "scalar_lower_bound_from_back Chunks keys n key = Some (lower_bound keys n key) \<and>
    sse2_lower_bound_from_back Chunks keys n key = Some (lower_bound keys n key) \<and>
    sse41_lower_bound_from_back Chunks keys n key = Some (lower_bound keys n key) \<and>
    avx2_lower_bound_from_back Chunks keys n key = Some (lower_bound keys n key) \<and>
    lower_bound_branchless keys n key = Some (lower_bound keys n key)"
  using assms by (simp add: scalar_lower_bound_eq sse2_lower_bound_eq sse41_lower_bound_eq
      avx2_lower_bound_eq lower_bound_branchless_eq)

theorem level_searches_agree_witness:
  "sse2_lower_bound_from_back 4 [3, 7, 0xFFFFFFF0, 0, 0, 0, 0, 9] 3 8 = Some 2 \<and>
   sse41_lower_bound_from_back 4 [3, 7, 0xFFFFFFF0, 0, 0, 0, 0, 9] 3 8 = Some 2"
  using level_searches_agree [of "[3, 7, 0xFFFFFFF0, 0, 0, 0, 0, 9]" 3 4 8]
  by (simp add: sorted_keys_def kLevelSearchPad_def lower_bound_def)

end
