(* ===== verification/Block_Move.thy ===== *)
theory Block_Move
  imports Prelude
begin

text \<open>
  \<^verbatim>\<open>include/itch/simd/block_move.hpp\<close>: the overlapping moves of the level arrays, byte by byte
  in blocks of 16, 8 and 4 bytes. They are \<open>memmove\<close> in each direction, and on an array of
  elements they shift the elements.
\<close>

section \<open>Moves of bytes\<close>

text \<open>One load of \<open>k\<close> bytes and one store of them.\<close>

definition copy_block :: "mem \<Rightarrow> nat \<Rightarrow> nat \<Rightarrow> nat \<Rightarrow> mem option" where
  "copy_block m dst src k = do { v \<leftarrow> rd_n m src k; wr_n m dst v }"

function move_up_loop :: "nat \<Rightarrow> nat \<Rightarrow> mem \<Rightarrow> nat \<Rightarrow> (mem \<times> nat) option" where
  "move_up_loop dst src m i =
     (if 16 \<le> i then do {
        m' \<leftarrow> copy_block m (dst + (i - 16)) (src + (i - 16)) 16;
        move_up_loop dst src m' (i - 16) }
      else Some (m, i))"
  by pat_completeness auto
termination by (relation "measure (\<lambda>(_, _, _, i). i)") auto

declare move_up_loop.simps [simp del]

definition move_up :: "mem \<Rightarrow> nat \<Rightarrow> nat \<Rightarrow> nat \<Rightarrow> mem option" where
  "move_up m dst src n = do {
     (m1, i) \<leftarrow> move_up_loop dst src m n;
     (m2, i) \<leftarrow> (if 8 \<le> i
       then do { m' \<leftarrow> copy_block m1 (dst + (i - 8)) (src + (i - 8)) 8; Some (m', i - 8) }
       else Some (m1, i));
     if 4 \<le> i then copy_block m2 dst src 4 else Some m2 }"

function move_down_loop :: "nat \<Rightarrow> nat \<Rightarrow> nat \<Rightarrow> mem \<Rightarrow> nat \<Rightarrow> (mem \<times> nat) option" where
  "move_down_loop dst src n m i =
     (if i + 16 \<le> n then do {
        m' \<leftarrow> copy_block m (dst + i) (src + i) 16;
        move_down_loop dst src n m' (i + 16) }
      else Some (m, i))"
  by pat_completeness auto
termination by (relation "measure (\<lambda>(_, _, n, _, i). n - i)") auto

declare move_down_loop.simps [simp del]

definition move_down :: "mem \<Rightarrow> nat \<Rightarrow> nat \<Rightarrow> nat \<Rightarrow> mem option" where
  "move_down m dst src n = do {
     (m1, i) \<leftarrow> move_down_loop dst src n m 0;
     (m2, i) \<leftarrow> (if i + 8 \<le> n
       then do { m' \<leftarrow> copy_block m1 (dst + i) (src + i) 8; Some (m', i + 8) }
       else Some (m1, i));
     if i + 4 \<le> n then copy_block m2 (dst + i) (src + i) 4 else Some m2 }"

text \<open>\<open>shift_up<T>\<close> and \<open>shift_down<T>\<close> for an array of elements of \<open>sz\<close> bytes at \<open>a\<close>.\<close>

definition shift_up :: "nat \<Rightarrow> mem \<Rightarrow> nat \<Rightarrow> nat \<Rightarrow> nat \<Rightarrow> mem option" where
  "shift_up sz m a pos count = move_up m (a + (pos + 1) * sz) (a + pos * sz) (count * sz)"

definition shift_down :: "nat \<Rightarrow> mem \<Rightarrow> nat \<Rightarrow> nat \<Rightarrow> nat \<Rightarrow> mem option" where
  "shift_down sz m a pos count = move_down m (a + pos * sz) (a + (pos + 1) * sz) (count * sz)"

section \<open>The reference\<close>

text \<open>\<open>memmove\<close>: all of the source is read before anything is written.\<close>

definition memmove :: "mem \<Rightarrow> nat \<Rightarrow> nat \<Rightarrow> nat \<Rightarrow> mem option" where
  "memmove m dst src n = copy_block m dst src n"

text \<open>\<open>m'\<close> is \<open>m\<close> with the part \<open>[lo, hi)\<close> of the region moved.\<close>

definition moved :: "mem \<Rightarrow> nat \<Rightarrow> nat \<Rightarrow> nat \<Rightarrow> nat \<Rightarrow> mem \<Rightarrow> bool" where
  "moved m dst src lo hi m' \<longleftrightarrow> length m' = length m \<and>
     (\<forall>j < length m. m' ! j = (if dst + lo \<le> j \<and> j < dst + hi then m ! (src + (j - dst)) else m ! j))"

lemma moved_none: "moved m dst src i i m"
  unfolding moved_def by auto

lemma copy_block_nth:
  assumes "src + k \<le> length m" "dst + k \<le> length m"
  shows "\<exists>m'. copy_block m dst src k = Some m' \<and> length m' = length m \<and>
    (\<forall>j < length m. m' ! j = (if dst \<le> j \<and> j < dst + k then m ! (src + (j - dst)) else m ! j))"
proof -
  let ?v = "take k (drop src m)"
  have l: "length ?v = k" using assms(1) by simp
  have w: "wr_n m dst ?v = Some (take dst m @ ?v @ drop (dst + length ?v) m)"
    by (rule wr_n_Some) (use assms in simp)
  show ?thesis
    using wr_n_nth [OF w] wr_n_length [OF w] assms l w
    by (auto simp: copy_block_def rd_n_Some)
qed

lemma copy_up:
  assumes "moved m dst src i n m'" "k \<le> i" "i \<le> n" "src \<le> dst" "dst + n \<le> length m"
  shows "\<exists>m''. copy_block m' (dst + (i - k)) (src + (i - k)) k = Some m'' \<and> moved m dst src (i - k) n m''"
proof -
  have l: "length m' = length m" using assms(1) by (simp add: moved_def)
  obtain m'' where "copy_block m' (dst + (i - k)) (src + (i - k)) k = Some m''" "length m'' = length m'"
    "\<forall>j < length m'. m'' ! j = (if dst + (i - k) \<le> j \<and> j < dst + (i - k) + k
       then m' ! (src + (i - k) + (j - (dst + (i - k)))) else m' ! j)"
    using copy_block_nth [of "src + (i - k)" k m' "dst + (i - k)"] assms l by auto
  then show ?thesis using assms l by (auto simp: moved_def)
qed

lemma copy_down:
  assumes "moved m dst src 0 i m'" "i + k \<le> n" "dst \<le> src" "src + n \<le> length m"
  shows "\<exists>m''. copy_block m' (dst + i) (src + i) k = Some m'' \<and> moved m dst src 0 (i + k) m''"
proof -
  have l: "length m' = length m" using assms(1) by (simp add: moved_def)
  obtain m'' where "copy_block m' (dst + i) (src + i) k = Some m''" "length m'' = length m'"
    "\<forall>j < length m'. m'' ! j = (if dst + i \<le> j \<and> j < dst + i + k
       then m' ! (src + i + (j - (dst + i))) else m' ! j)"
    using copy_block_nth [of "src + i" k m' "dst + i"] assms l by auto
  then show ?thesis using assms l by (auto simp: moved_def)
qed

lemma moved_unique: "moved m dst src lo hi a \<Longrightarrow> moved m dst src lo hi b \<Longrightarrow> a = b"
  by (auto simp: moved_def intro: nth_equalityI)

lemma moved_memmove:
  assumes "src + n \<le> length m" "dst + n \<le> length m" "moved m dst src 0 n m'"
  shows "memmove m dst src n = Some m'"
proof -
  obtain m'' where "copy_block m dst src n = Some m''" "moved m dst src 0 n m''"
    using copy_block_nth [OF assms(1,2)] by (auto simp: moved_def)
  then show ?thesis using moved_unique assms(3) by (metis memmove_def)
qed

lemma move_up_loop_eq:
  assumes "moved m dst src i n m'" "i \<le> n" "src \<le> dst" "dst + n \<le> length m"
  shows "\<exists>m''. move_up_loop dst src m' i = Some (m'', i mod 16) \<and> moved m dst src (i mod 16) n m''"
  using assms
proof (induction dst src m' i rule: move_up_loop.induct)
  case (1 dst src m' i)
  show ?case
  proof (cases "16 \<le> i")
    case False
    then show ?thesis using "1.prems" by (subst move_up_loop.simps) simp
  next
    case True
    obtain m1 where m1: "copy_block m' (dst + (i - 16)) (src + (i - 16)) 16 = Some m1"
      "moved m dst src (i - 16) n m1"
      using copy_up [OF "1.prems"(1) True "1.prems"(2-4)] by blast
    have "(i - 16) mod 16 = i mod 16" using True by (simp add: le_mod_geq)
    then show ?thesis
      using "1.IH" [OF True m1] m1(1) "1.prems" True by (subst move_up_loop.simps) simp
  qed
qed

lemma move_up_eq:
  assumes "4 dvd n" "src \<le> dst" "dst + n \<le> length m"
  shows "move_up m dst src n = memmove m dst src n"
proof -
  obtain m1 where m1: "move_up_loop dst src m n = Some (m1, n mod 16)" "moved m dst src (n mod 16) n m1"
    using move_up_loop_eq [OF moved_none order_refl assms(2,3)] by blast
  let ?i = "n mod 16"
  have i: "?i = 0 \<or> ?i = 4 \<or> ?i = 8 \<or> ?i = 12" using assms(1) by presburger
  have in_n: "?i \<le> n" by simp
  obtain m2 where m2: "(if 8 \<le> ?i
      then do { m' \<leftarrow> copy_block m1 (dst + (?i - 8)) (src + (?i - 8)) 8; Some (m', ?i - 8) }
      else Some (m1, ?i)) = Some (m2, ?i mod 8)" "moved m dst src (?i mod 8) n m2"
  proof (cases "8 \<le> ?i")
    case True
    then have "?i mod 8 = ?i - 8" using i by auto
    with copy_up [OF m1(2) True in_n assms(2,3)] True that show ?thesis by auto
  next
    case False
    with m1(2) that show ?thesis by simp
  qed
  have le: "?i mod 8 \<le> n" using in_n by (meson le_trans mod_less_eq_dividend)
  obtain m3 where m3: "(if 4 \<le> ?i mod 8 then copy_block m2 dst src 4 else Some m2) = Some m3"
    "moved m dst src 0 n m3"
  proof (cases "4 \<le> ?i mod 8")
    case True
    then have "?i mod 8 = 4" using i by auto
    with copy_up [OF m2(2) True le assms(2,3)] that show ?thesis by auto
  next
    case False
    then have "?i mod 8 = 0" using i by auto
    with m2(2) that show ?thesis by auto
  qed
  have "move_up m dst src n = Some m3"
    unfolding move_up_def using m1(1) m2(1) m3(1) by simp
  then show ?thesis using moved_memmove [OF _ assms(3) m3(2)] assms(2,3) by simp
qed

lemma move_down_loop_eq:
  assumes "moved m dst src 0 i m'" "i \<le> n" "dst \<le> src" "src + n \<le> length m"
  shows "\<exists>m'' k. move_down_loop dst src n m' i = Some (m'', k) \<and> moved m dst src 0 k m'' \<and>
    k \<le> n \<and> n < k + 16 \<and> (4 dvd i \<longrightarrow> 4 dvd k)"
  using assms
proof (induction dst src n m' i rule: move_down_loop.induct)
  case (1 dst src n m' i)
  show ?case
  proof (cases "i + 16 \<le> n")
    case False
    then show ?thesis using "1.prems" by (subst move_down_loop.simps) simp
  next
    case True
    obtain m1 where m1: "copy_block m' (dst + i) (src + i) 16 = Some m1"
      "moved m dst src 0 (i + 16) m1"
      using copy_down [OF "1.prems"(1) True "1.prems"(3,4)] by blast
    then show ?thesis
      using "1.IH" [OF True m1] "1.prems" True by (subst move_down_loop.simps) auto
  qed
qed

lemma move_down_eq:
  assumes "4 dvd n" "dst \<le> src" "src + n \<le> length m"
  shows "move_down m dst src n = memmove m dst src n"
proof -
  obtain m1 k where m1: "move_down_loop dst src n m 0 = Some (m1, k)" "moved m dst src 0 k m1"
    and k: "k \<le> n" "n < k + 16" "4 dvd k"
    using move_down_loop_eq [OF moved_none _ assms(2,3)] by auto
  have d: "n - k = 0 \<or> n - k = 4 \<or> n - k = 8 \<or> n - k = 12" using k assms(1) by presburger
  obtain m2 k2 where m2: "(if k + 8 \<le> n
      then do { m' \<leftarrow> copy_block m1 (dst + k) (src + k) 8; Some (m', k + 8) }
      else Some (m1, k)) = Some (m2, k2)" "moved m dst src 0 k2 m2" "n = k2 \<or> n = k2 + 4"
  proof (cases "k + 8 \<le> n")
    case True
    then have "n = k + 8 \<or> n = k + 8 + 4" using d by arith
    with copy_down [OF m1(2) True assms(2,3)] True that [of _ "k + 8"] show ?thesis by auto
  next
    case False
    then have "n = k \<or> n = k + 4" using d k(1) by arith
    with m1(2) False that [of m1 k] show ?thesis by auto
  qed
  obtain m3 where m3: "(if k2 + 4 \<le> n then copy_block m2 (dst + k2) (src + k2) 4 else Some m2) = Some m3"
    "moved m dst src 0 n m3"
  proof (cases "k2 + 4 \<le> n")
    case True
    with copy_down [OF m2(2) True assms(2,3)] m2(3) that show ?thesis by auto
  next
    case False
    with m2 that show ?thesis by auto
  qed
  have "move_down m dst src n = Some m3"
    unfolding move_down_def using m1(1) m2(1) m3(1) by simp
  then show ?thesis using moved_memmove [OF assms(3) _ m3(2)] assms(2,3) by simp
qed

section \<open>Arrays of elements\<close>

text \<open>The bytes of an array, and the shifts as the level arrays use them.\<close>

definition array_bytes :: "('a \<Rightarrow> u8 list) \<Rightarrow> 'a list \<Rightarrow> mem" where
  "array_bytes enc xs = concat (map enc xs)"

definition shift_up_elems :: "'a list \<Rightarrow> nat \<Rightarrow> nat \<Rightarrow> 'a list option" where
  "shift_up_elems xs pos count =
     (if pos + 1 + count \<le> length xs
      then Some (take (pos + 1) xs @ take count (drop pos xs) @ drop (pos + 1 + count) xs) else None)"

definition shift_down_elems :: "'a list \<Rightarrow> nat \<Rightarrow> nat \<Rightarrow> 'a list option" where
  "shift_down_elems xs pos count =
     (if pos + 1 + count \<le> length xs
      then Some (take pos xs @ take count (drop (pos + 1) xs) @ drop (pos + count) xs) else None)"

lemma array_bytes_cut:
  assumes "\<forall>x \<in> set xs. length (enc x) = sz"
  shows "length (array_bytes enc xs) = length xs * sz"
    "take (k * sz) (array_bytes enc xs) = array_bytes enc (take k xs)"
    "drop (k * sz) (array_bytes enc xs) = array_bytes enc (drop k xs)"
  using assms
proof (induction xs arbitrary: k)
  case Nil
  { case 1 then show ?case by (simp add: array_bytes_def) }
  { case 2 then show ?case by (simp add: array_bytes_def) }
  { case 3 then show ?case by (simp add: array_bytes_def) }
next
  case (Cons x xs)
  { case 1 then show ?case using Cons.IH(1) by (simp add: array_bytes_def) }
  { case 2 then show ?case using Cons.IH(2) by (cases k) (simp_all add: array_bytes_def) }
  { case 3 then show ?case using Cons.IH(3) by (cases k) (simp_all add: array_bytes_def) }
qed

lemma array_bytes_append: "array_bytes enc (xs @ ys) = array_bytes enc xs @ array_bytes enc ys"
  by (simp add: array_bytes_def)

lemma memmove_elems:
  assumes enc: "\<forall>x \<in> set xs. length (enc x) = sz"
    and b: "d + count \<le> length xs" "s + count \<le> length xs"
  shows "memmove (array_bytes enc xs) (d * sz) (s * sz) (count * sz) =
    Some (array_bytes enc (take d xs @ take count (drop s xs) @ drop (d + count) xs))"
proof -
  note cut = array_bytes_cut [OF enc]
  have enc': "\<forall>x \<in> set (drop s xs). length (enc x) = sz" using enc by (meson in_set_dropD)
  have r: "rd_n (array_bytes enc xs) (s * sz) (count * sz) = Some (array_bytes enc (take count (drop s xs)))"
    using b by (simp add: rd_n_def cut array_bytes_cut(2) [OF enc'] flip: add_mult_distrib)
  have l: "length (array_bytes enc (take count (drop s xs))) = count * sz"
    using array_bytes_cut(1) [of "take count (drop s xs)" enc sz] enc' b by (auto dest: in_set_takeD)
  have "wr_n (array_bytes enc xs) (d * sz) (array_bytes enc (take count (drop s xs))) =
      Some (array_bytes enc (take d xs) @ array_bytes enc (take count (drop s xs)) @
        array_bytes enc (drop (d + count) xs))"
    using b by (simp add: wr_n_def cut l flip: add_mult_distrib)
  then show ?thesis by (simp add: memmove_def copy_block_def r array_bytes_append)
qed

text \<open>
  The block moves are \<open>memmove\<close> although they read and write block by block: upward from the
  top and downward from the bottom, for every overlap and every length that is a multiple of 4,
  without an access outside the two regions.
\<close>

theorem block_moves_are_memmove:
  assumes "4 dvd n" "lo \<le> hi" "hi + n \<le> length m"
  shows "move_up m hi lo n = memmove m hi lo n \<and> move_down m lo hi n = memmove m lo hi n"
  using assms by (simp add: move_up_eq move_down_eq)

theorem block_moves_are_memmove_witness:
  "move_up (map of_nat [0..<28]) 4 0 24 = memmove (map of_nat [0..<28]) 4 0 24 \<and>
   move_down (map of_nat [0..<28]) 0 4 24 = memmove (map of_nat [0..<28]) 0 4 24"
  by (rule block_moves_are_memmove) simp_all

text \<open>
  On the bytes of an array whose elements take a multiple of 4 bytes, \<open>shift_up\<close> and
  \<open>shift_down\<close> are the shifts of its elements by one place.
\<close>

theorem shifts_move_elements:
  assumes enc: "\<forall>x \<in> set xs. length (enc x) = sz" and sz: "4 dvd sz"
    and len: "pos + 1 + count \<le> length xs"
  shows "shift_up sz (array_bytes enc xs) 0 pos count = map_option (array_bytes enc) (shift_up_elems xs pos count) \<and>
    shift_down sz (array_bytes enc xs) 0 pos count = map_option (array_bytes enc) (shift_down_elems xs pos count)"
proof -
  have l: "length (array_bytes enc xs) = length xs * sz" using array_bytes_cut(1) [OF enc] .
  have n: "4 dvd count * sz" using sz by simp
  have b: "(pos + 1) * sz + count * sz \<le> length xs * sz"
    using mult_le_mono1 [OF len, of sz] by (simp add: add_mult_distrib)
  have o: "pos * sz \<le> (pos + 1) * sz" by simp
  have up: "shift_up sz (array_bytes enc xs) 0 pos count =
      memmove (array_bytes enc xs) ((pos + 1) * sz) (pos * sz) (count * sz)"
    using move_up_eq [OF n o, of "array_bytes enc xs"] b l by (simp add: shift_up_def)
  have down: "shift_down sz (array_bytes enc xs) 0 pos count =
      memmove (array_bytes enc xs) (pos * sz) ((pos + 1) * sz) (count * sz)"
    using move_down_eq [OF n o, of "array_bytes enc xs"] b l by (simp add: shift_down_def)
  show ?thesis
    unfolding up down
    using memmove_elems [OF enc, of "pos + 1" count pos] memmove_elems [OF enc, of pos count "pos + 1"] len
    by (simp add: shift_up_elems_def shift_down_elems_def)
qed

theorem shifts_move_elements_witness:
  "shift_up 4 (array_bytes (nat_bytes 4) [7, 8, 9]) 0 0 2 = Some (array_bytes (nat_bytes 4) [7, 7, 8])"
  using shifts_move_elements [of "[7, 8, 9]" "nat_bytes 4" 4 0 2] by (simp add: shift_up_elems_def)

end
