(* ===== verification/Order_Map.thy ===== *)
theory Order_Map
  imports Level_Search
begin

text \<open>
  \<^verbatim>\<open>include/itch/order_map.hpp\<close>: the Swiss table from order references to resting orders. Slots
  are addressed by index (a pointer \<open>slots_ + i\<close> of the code), the group kernel \<open>G\<close> is the
  template parameter, and \<open>alloc\<close> says for which sizes an allocation succeeds (a failed one
  ends the process, the value \<open>None\<close>, as does an access outside the arrays).
\<close>

section \<open>State\<close>

record order =
  o_ref :: u64
  o_price :: u32
  o_shares :: u32
  o_locate :: u16
  o_side :: u8

definition zero_order :: order where
  "zero_order = \<lparr>o_ref = 0, o_price = 0, o_shares = 0, o_locate = 0, o_side = 0\<rparr>"

definition sizeof_order :: nat where
  "sizeof_order = 24"

record omap =
  ctrl :: "u8 list"
  slots :: "order list"
  om_capacity :: nat
  group_mask :: nat
  group_shift :: nat
  om_size :: nat
  om_tombstones :: nat
  growth_left :: nat
  rehashes :: u64
  grows :: u64

section \<open>Hashing\<close>

definition hash :: "u64 \<Rightarrow> u64" where
  "hash ref = ref * 0x9E3779B97F4A7C15"

definition group_index :: "omap \<Rightarrow> u64 \<Rightarrow> nat" where
  "group_index m h = unat (drop_bit (group_shift m) h)"

definition tag :: "omap \<Rightarrow> u64 \<Rightarrow> u8" where
  "tag m h = ucast (drop_bit (group_shift m - 7) h AND 0x7F)"

definition max_load :: "nat \<Rightarrow> nat" where
  "max_load cap = cap - cap div 8"

text \<open>\<open>std::bit_ceil\<close>.\<close>

definition bit_ceil :: "nat \<Rightarrow> nat" where
  "bit_ceil n = (if n \<le> 1 then 1 else 2 ^ bit_width (n - 1))"

definition groups_for :: "group_ops \<Rightarrow> nat \<Rightarrow> nat" where
  "groups_for G orders =
     (let sl = orders + orders div 7 + 1;
          groups = bit_ceil ((sl + kWidth G - 1) div kWidth G) in
      if groups < 2 then 2 else groups)"

section \<open>Allocation\<close>

text \<open>A buffer is zero-filled; a size outside \<open>size_t\<close> cannot be allocated.\<close>

definition large_buffer_ok :: "(nat \<Rightarrow> bool) \<Rightarrow> nat \<Rightarrow> bool" where
  "large_buffer_ok alloc bytes \<longleftrightarrow> bytes < 2 ^ 64 \<and> alloc bytes"

definition om_clear :: "omap \<Rightarrow> omap" where
  "om_clear m = m\<lparr>ctrl := replicate (om_capacity m) kCtrlEmpty, om_size := 0, om_tombstones := 0,
     growth_left := max_load (om_capacity m)\<rparr>"

text \<open>\<open>countr_zero\<close> of the group count, a power of two.\<close>

definition om_allocate :: "(nat \<Rightarrow> bool) \<Rightarrow> group_ops \<Rightarrow> nat \<Rightarrow> omap \<Rightarrow> omap option" where
  "om_allocate alloc G groups m =
     (let cap = groups * kWidth G in
      if large_buffer_ok alloc cap \<and> large_buffer_ok alloc (cap * sizeof_order)
      then Some (om_clear (m\<lparr>om_capacity := cap, group_mask := groups - 1,
             group_shift := 64 - countr_zero (of_nat groups),
             ctrl := replicate cap 0, slots := replicate cap zero_order\<rparr>))
      else None)"

definition empty_omap :: omap where
  "empty_omap = \<lparr>ctrl = [], slots = [], om_capacity = 0, group_mask = 0, group_shift = 64,
     om_size = 0, om_tombstones = 0, growth_left = 0, rehashes = 0, grows = 0\<rparr>"

definition new_omap :: "(nat \<Rightarrow> bool) \<Rightarrow> group_ops \<Rightarrow> nat \<Rightarrow> omap option" where
  "new_omap alloc G expected_orders = om_allocate alloc G (groups_for G expected_orders) empty_omap"

section \<open>Lookup\<close>

definition load_group :: "group_ops \<Rightarrow> omap \<Rightarrow> nat \<Rightarrow> u8 list option" where
  "load_group G m g = rd_n (ctrl m) (g * kWidth G) (kWidth G)"

text \<open>The candidates of one group, in the order of the mask: compare the full reference.\<close>

fun check_slots :: "order list \<Rightarrow> u64 \<Rightarrow> nat list \<Rightarrow> nat option option" where
  "check_slots sl ref [] = Some None"
| "check_slots sl ref (i # is) =
     (if i < length sl
      then if o_ref (sl ! i) = ref then Some (Some i) else check_slots sl ref is
      else None)"

definition next_group :: "omap \<Rightarrow> nat \<Rightarrow> nat \<Rightarrow> nat" where
  "next_group m g step = (g + step) AND group_mask m"

partial_function (option) find_from ::
  "group_ops \<Rightarrow> omap \<Rightarrow> u64 \<Rightarrow> u8 \<Rightarrow> nat \<Rightarrow> nat \<Rightarrow> nat option option" where
  "find_from G m ref h2 g step = do {
     grp \<leftarrow> load_group G m g;
     hit \<leftarrow> check_slots (slots m) ref
       (map (\<lambda>i. g * kWidth G + i) (mask_slots (kShift G) (match G grp h2)));
     if hit \<noteq> None then Some hit
     else if mask_any (match_empty G grp) then Some None
     else find_from G m ref h2 (next_group m g step) (step + 1) }"

definition om_find :: "group_ops \<Rightarrow> omap \<Rightarrow> u64 \<Rightarrow> nat option option" where
  "om_find G m ref = (let h = hash ref in find_from G m ref (tag m h) (group_index m h) 1)"

section \<open>Insertion\<close>

partial_function (option) free_slot_from :: "group_ops \<Rightarrow> omap \<Rightarrow> nat \<Rightarrow> nat \<Rightarrow> nat option" where
  "free_slot_from G m g step = do {
     grp \<leftarrow> load_group G m g;
     let free = match_empty_or_deleted G grp;
     if mask_any free then Some (g * kWidth G + mask_lowest (kShift G) free)
     else free_slot_from G m (next_group m g step) (step + 1) }"

definition om_claim :: "group_ops \<Rightarrow> omap \<Rightarrow> u64 \<Rightarrow> (nat \<times> omap) option" where
  "om_claim G m ref = do {
     let h = hash ref;
     idx \<leftarrow> free_slot_from G m (group_index m h) 1;
     c \<leftarrow> rd (ctrl m) idx;
     let m1 = (if c = kCtrlEmpty then m\<lparr>growth_left := growth_left m - 1\<rparr>
               else m\<lparr>om_tombstones := om_tombstones m - 1\<rparr>);
     Some (idx, m1\<lparr>ctrl := (ctrl m)[idx := tag m h], om_size := om_size m + 1,
             slots := (slots m)[idx := (slots m ! idx)\<lparr>o_ref := ref\<rparr>]\<rparr>) }"

definition om_put :: "omap \<Rightarrow> nat \<Rightarrow> order \<Rightarrow> omap" where
  "om_put m idx ord = m\<lparr>slots := (slots m)[idx := ord]\<rparr>"

definition rehash_with ::
  "(omap \<Rightarrow> u64 \<Rightarrow> (nat \<times> omap) option) \<Rightarrow> (nat \<Rightarrow> bool) \<Rightarrow> group_ops \<Rightarrow> omap \<Rightarrow> omap option" where
  "rehash_with ins alloc G m = do {
     let groups = om_capacity m div kWidth G;
     let grow = (om_size m * 2 > max_load (om_capacity m));
     m0 \<leftarrow> om_allocate alloc G (if grow then groups * 2 else groups) m;
     m1 \<leftarrow> foldO (\<lambda>i m'.
         if full_tag (ctrl m ! i)
         then do { (idx, m'') \<leftarrow> ins m' (o_ref (slots m ! i)); Some (om_put m'' idx (slots m ! i)) }
         else Some m')
       [0..<om_capacity m] m0;
     Some (m1\<lparr>rehashes := rehashes m1 + 1, grows := (if grow then grows m1 + 1 else grows m1)\<rparr>) }"

text \<open>
  \<open>insert\<close> and \<open>rehash_for_insert\<close> call each other; \<open>d\<close> bounds the nesting, and two levels are
  proved to be enough.
\<close>

primrec om_insert_depth ::
  "nat \<Rightarrow> (nat \<Rightarrow> bool) \<Rightarrow> group_ops \<Rightarrow> omap \<Rightarrow> u64 \<Rightarrow> (nat \<times> omap) option" where
  "om_insert_depth 0 alloc G m ref = None"
| "om_insert_depth (Suc d) alloc G m ref = do {
     m1 \<leftarrow> (if growth_left m = 0 then rehash_with (om_insert_depth d alloc G) alloc G m else Some m);
     om_claim G m1 ref }"

definition om_insert :: "(nat \<Rightarrow> bool) \<Rightarrow> group_ops \<Rightarrow> omap \<Rightarrow> u64 \<Rightarrow> (nat \<times> omap) option" where
  "om_insert = om_insert_depth 2"

section \<open>The other operations\<close>

definition om_erase :: "group_ops \<Rightarrow> omap \<Rightarrow> nat \<Rightarrow> omap option" where
  "om_erase G m idx = do {
     grp \<leftarrow> load_group G m (idx div kWidth G);
     Some (if mask_any (match_empty G grp)
       then m\<lparr>ctrl := (ctrl m)[idx := kCtrlEmpty], growth_left := growth_left m + 1, om_size := om_size m - 1\<rparr>
       else m\<lparr>ctrl := (ctrl m)[idx := kCtrlDeleted], om_tombstones := om_tombstones m + 1,
              om_size := om_size m - 1\<rparr>) }"

text \<open>The control group and the first slot that are hinted for a reference.\<close>

definition om_prefetch :: "group_ops \<Rightarrow> omap \<Rightarrow> u64 \<Rightarrow> nat \<times> nat" where
  "om_prefetch G m ref = (let g = group_index m (hash ref) in (g * kWidth G, g * kWidth G))"

definition om_for_each :: "(order \<Rightarrow> 's \<Rightarrow> 's) \<Rightarrow> omap \<Rightarrow> 's \<Rightarrow> 's" where
  "om_for_each f m s =
     fold (\<lambda>i s. if full_tag (ctrl m ! i) then f (slots m ! i) s else s) [0..<om_capacity m] s"

section \<open>The probe sequence\<close>

text \<open>The group visited after \<open>q\<close> steps: triangular numbers, masked.\<close>

fun probe :: "omap \<Rightarrow> nat \<Rightarrow> nat \<Rightarrow> nat" where
  "probe m g 0 = g"
| "probe m g (Suc q) = next_group m (probe m g q) (q + 1)"

lemma and_mask_mod: "(n::nat) AND (2 ^ k - 1) = n mod 2 ^ k"
  by (metis and.commute take_bit_eq_mask take_bit_eq_mod mask_eq_exp_minus_1 and_nat_def)

lemma probe_triangular:
  assumes "group_mask m = 2 ^ k - 1" "g < 2 ^ k"
  shows "probe m g q = (g + q * (q + 1) div 2) mod 2 ^ k"
proof (induction q)
  case 0
  then show ?case using assms(2) by simp
next
  case (Suc q)
  have t: "Suc q * (Suc q + 1) div 2 = q * (q + 1) div 2 + (q + 1)"
  proof -
    have "Suc q * (Suc q + 1) = q * (q + 1) + (q + 1) * 2" by simp
    then show ?thesis by (simp only: div_mult_self3) simp
  qed
  show ?case
    unfolding probe.simps next_group_def assms(1) and_mask_mod Suc.IH t
    by (simp only: mod_add_left_eq add.assoc)
qed

lemma triangular_inj:
  fixes p q g :: nat
  assumes "p < 2 ^ k" "q < p" "(g + q * (q + 1) div 2) mod 2 ^ k = (g + p * (p + 1) div 2) mod 2 ^ k"
  shows False
proof -
  let ?T = "\<lambda>n::nat. n * (n + 1) div 2"
  have le: "?T q \<le> ?T p" using assms(2) by (intro div_le_mono mult_le_mono) simp_all
  have T2: "2 * ?T n = n * (n + 1)" for n :: nat by simp
  have "2 ^ k dvd ?T p - ?T q"
    using assms(3) le by (metis mod_eq_dvd_iff_nat add_le_cancel_left diff_cancel2 add_diff_cancel_left)
  then have "2 * 2 ^ k dvd 2 * (?T p - ?T q)" by (rule mult_dvd_mono [OF dvd_refl])
  also have "2 * (?T p - ?T q) = (p - q) * (p + q + 1)"
  proof -
    obtain d where d: "p = q + d" using assms(2) by (metis less_imp_add_positive)
    have "2 * (?T p - ?T q) = p * (p + 1) - q * (q + 1)" by (simp only: diff_mult_distrib2 T2)
    also have "\<dots> = (p - q) * (p + q + 1)" by (simp add: d algebra_simps)
    finally show ?thesis .
  qed
  finally have dvd: "2 ^ Suc k dvd (p - q) * (p + q + 1)" by simp
  have "odd (p - q) \<or> odd (p + q + 1)" using assms(2) by presburger
  then have "2 ^ Suc k dvd p - q \<or> 2 ^ Suc k dvd p + q + 1"
    using dvd by (metis coprime_dvd_mult_left_iff coprime_dvd_mult_right_iff coprime_power_left_iff
        coprime_left_2_iff_odd)
  moreover have "p - q < 2 ^ Suc k" "0 < p - q" "p + q + 1 < 2 ^ Suc k" using assms(1,2) by auto
  ultimately show False by (auto dest: dvd_imp_le)
qed

text \<open>Within as many steps as there are groups, every group is visited.\<close>

lemma probe_surj:
  assumes "group_mask m = 2 ^ k - 1" "g < 2 ^ k" "x < 2 ^ k"
  shows "\<exists>q < 2 ^ k. probe m g q = x"
proof -
  let ?f = "\<lambda>q. probe m g q"
  have "inj_on ?f {..<2 ^ k}"
    unfolding probe_triangular [OF assms(1,2)]
    by (intro linorder_inj_onI') (use triangular_inj in \<open>fastforce\<close>)
  moreover have "?f ` {..<2 ^ k} \<subseteq> {..<2 ^ k}"
    by (auto simp: probe_triangular [OF assms(1,2)])
  ultimately have "?f ` {..<2 ^ k} = {..<2 ^ k}" by (intro endo_inj_surj) simp_all
  then show ?thesis using assms(3) by (metis imageE lessThan_iff)
qed

section \<open>Invariant and abstraction\<close>

definition full :: "omap \<Rightarrow> nat \<Rightarrow> bool" where
  "full m i \<longleftrightarrow> i < om_capacity m \<and> full_tag (ctrl m ! i)"

definition group_of :: "group_ops \<Rightarrow> omap \<Rightarrow> nat \<Rightarrow> u8 list" where
  "group_of G m g = take (kWidth G) (drop (g * kWidth G) (ctrl m))"

definition key_of :: "omap \<Rightarrow> nat \<Rightarrow> u64" where
  "key_of m i = o_ref (slots m ! i)"

definition home :: "omap \<Rightarrow> u64 \<Rightarrow> nat \<Rightarrow> nat" where
  "home m ref = probe m (group_index m (hash ref))"

text \<open>The shape of the arrays and of the index arithmetic, for \<open>2\<^sup>k\<close> groups.\<close>

definition om_shape :: "group_ops \<Rightarrow> nat \<Rightarrow> omap \<Rightarrow> bool" where
  "om_shape G k m \<longleftrightarrow> 1 \<le> k \<and> k \<le> 64 \<and> om_capacity m = 2 ^ k * kWidth G \<and>
     group_mask m = 2 ^ k - 1 \<and> group_shift m = 64 - k \<and>
     length (ctrl m) = om_capacity m \<and> length (slots m) = om_capacity m \<and> list_all ctrl_ok (ctrl m)"

text \<open>A full slot can be reached: no group before its own on its probe path has an \<open>EMPTY\<close>.\<close>

definition reachable :: "group_ops \<Rightarrow> omap \<Rightarrow> nat \<Rightarrow> bool" where
  "reachable G m i \<longleftrightarrow> (\<exists>p. home m (key_of m i) p = i div kWidth G \<and>
     (\<forall>q<p. kCtrlEmpty \<notin> set (group_of G m (home m (key_of m i) q))))"

definition tag_count :: "(u8 \<Rightarrow> bool) \<Rightarrow> omap \<Rightarrow> nat" where
  "tag_count P m = length (filter P (ctrl m))"

definition counts_ok :: "omap \<Rightarrow> bool" where
  "counts_ok m \<longleftrightarrow> om_size m = tag_count full_tag m \<and> om_tombstones m = tag_count ((=) kCtrlDeleted) m \<and>
     growth_left m + om_size m + om_tombstones m = max_load (om_capacity m)"

definition om_inv :: "group_ops \<Rightarrow> omap \<Rightarrow> bool" where
  "om_inv G m \<longleftrightarrow> (\<exists>k. om_shape G k m) \<and> counts_ok m \<and>
     (\<forall>i. full m i \<longrightarrow> ctrl m ! i = tag m (hash (key_of m i)) \<and> reachable G m i) \<and>
     (\<forall>i j. full m i \<longrightarrow> full m j \<longrightarrow> key_of m i = key_of m j \<longrightarrow> i = j)"

text \<open>The map from references to orders that the table represents.\<close>

definition om_abs :: "omap \<Rightarrow> u64 \<rightharpoonup> order" where
  "om_abs m = map_of (map (\<lambda>i. (key_of m i, slots m ! i))
     (filter (\<lambda>i. full_tag (ctrl m ! i)) [0..<om_capacity m]))"

lemma om_abs_iff:
  assumes "om_inv G m"
  shows "om_abs m r = Some ord \<longleftrightarrow> (\<exists>i. full m i \<and> slots m ! i = ord \<and> key_of m i = r)"
proof -
  let ?idxs = "filter (\<lambda>i. full_tag (ctrl m ! i)) [0..<om_capacity m]"
  have idx: "set ?idxs = {i. full m i}" by (auto simp: full_def)
  have "inj_on (key_of m) {i. full m i}"
    using assms by (auto simp: om_inv_def inj_on_def)
  then have "distinct (map fst (map (\<lambda>i. (key_of m i, slots m ! i)) ?idxs))"
    unfolding idx [symmetric] by (simp add: distinct_map comp_def)
  then show ?thesis
    unfolding om_abs_def using idx by (auto simp: map_of_eq_Some_iff)
qed

lemma om_abs_None: "om_inv G m \<Longrightarrow> om_abs m r = None \<longleftrightarrow> (\<forall>i. full m i \<longrightarrow> key_of m i \<noteq> r)"
  using om_abs_iff [of G m r] by (metis not_None_eq)

lemma om_abs_key: "om_inv G m \<Longrightarrow> om_abs m r = Some ord \<Longrightarrow> o_ref ord = r"
  using om_abs_iff [of G m r ord] by (auto simp: key_of_def)

lemma full_tag_tag: "full_tag (tag m h)"
proof -
  have e: "(0x7F :: u64) = mask 7" by (simp add: mask_eq_exp_minus_1)
  show ?thesis unfolding full_tag_bit tag_def e by (simp add: bit_word_ucast_iff bit_and_iff bit_mask_iff)
qed

lemma shape_group_index:
  assumes "om_shape G k m"
  shows "group_index m h < 2 ^ k"
proof -
  have s: "group_shift m = 64 - k" "k \<le> 64" using assms by (simp_all add: om_shape_def)
  have "unat h < 2 ^ (k + (64 - k))" using s(2) by (intro order_less_le_trans [OF unsigned_less]) simp
  then have "unat h div 2 ^ (64 - k) < 2 ^ k"
    by (simp add: power_add less_mult_imp_div_less)
  then show ?thesis unfolding group_index_def s unat_drop_bit64 .
qed

lemma home_less: "om_shape G k m \<Longrightarrow> home m r q < 2 ^ k"
  unfolding home_def by (subst probe_triangular [of m k]) (auto simp: om_shape_def shape_group_index)

lemma home_cong:
  "group_mask m' = group_mask m \<Longrightarrow> group_shift m' = group_shift m \<Longrightarrow> home m' r q = home m r q"
  by (induction q) (simp_all add: home_def group_index_def next_group_def)

lemma tag_cong: "group_shift m' = group_shift m \<Longrightarrow> tag m' h = tag m h"
  by (simp add: tag_def)

lemma count_update:
  assumes "i < length xs"
  shows "length (filter P (xs[i := c])) + of_bool (P (xs ! i)) = length (filter P xs) + of_bool (P c)"
proof -
  have "filter P xs = filter P (take i xs) @ filter P [xs ! i] @ filter P (drop (Suc i) xs)"
    using id_take_nth_drop [OF assms] by (metis append_Cons append_Nil filter_append)
  then show ?thesis using assms by (simp add: upd_conv_take_nth_drop)
qed

text \<open>The effect of one store into the control bytes on a group.\<close>

lemma group_of_update:
  assumes "ctrl m' = (ctrl m)[idx := c]"
  shows "set (group_of G m' g) \<subseteq> insert c (set (group_of G m g))"
    "0 < kWidth G \<Longrightarrow> g \<noteq> idx div kWidth G \<Longrightarrow> group_of G m' g = group_of G m g"
proof -
  show "set (group_of G m' g) \<subseteq> insert c (set (group_of G m g))"
    unfolding group_of_def assms
    by (cases "idx < g * kWidth G"; cases "idx - g * kWidth G < kWidth G")
      (auto simp: drop_update_swap take_update_swap dest: set_update_subset_insert [THEN subsetD])
  assume w: "0 < kWidth G" and g: "g \<noteq> idx div kWidth G"
  show "group_of G m' g = group_of G m g"
  proof (rule nth_equalityI)
    fix j assume j: "j < length (group_of G m' g)"
    then have "j < kWidth G" "g * kWidth G + j < length (ctrl m)" by (auto simp: group_of_def assms)
    moreover from this have "idx \<noteq> g * kWidth G + j" using g by auto
    ultimately show "group_of G m' g ! j = group_of G m g ! j"
      by (simp add: group_of_def assms)
  qed (simp add: group_of_def assms)
qed

context ctrl_group
begin

lemma slot_group:
  assumes "om_shape G k m" "i < om_capacity m"
  shows "i div kWidth G < 2 ^ k" "i mod kWidth G < kWidth G"
    "group_of G m (i div kWidth G) ! (i mod kWidth G) = ctrl m ! i"
    "i div kWidth G * kWidth G + i mod kWidth G = i"
proof -
  show g: "i div kWidth G < 2 ^ k"
    using assms by (simp add: om_shape_def less_mult_imp_div_less)
  show r: "i mod kWidth G < kWidth G" using width_pos by simp
  show e: "i div kWidth G * kWidth G + i mod kWidth G = i" by simp
  have "i div kWidth G * kWidth G \<le> length (ctrl m)"
    using div_times_less_eq_dividend [of i "kWidth G"] assms unfolding om_shape_def by linarith
  then show "group_of G m (i div kWidth G) ! (i mod kWidth G) = ctrl m ! i"
    using r e by (simp add: group_of_def)
qed

lemma group_slot:
  assumes "om_shape G k m" "g < 2 ^ k" "j < kWidth G"
  shows "g * kWidth G + j < om_capacity m" "(g * kWidth G + j) div kWidth G = g"
    "group_of G m g ! j = ctrl m ! (g * kWidth G + j)"
proof -
  have "(g + 1) * kWidth G \<le> 2 ^ k * kWidth G" using assms(2) by (intro mult_le_mono1) simp
  then show l: "g * kWidth G + j < om_capacity m"
    using assms by (simp add: om_shape_def)
  show "(g * kWidth G + j) div kWidth G = g" using assms(3) by simp
  show "group_of G m g ! j = ctrl m ! (g * kWidth G + j)"
    using assms l by (simp add: group_of_def om_shape_def)
qed

lemma group_props:
  assumes "om_shape G k m" "g < 2 ^ k"
  shows "length (group_of G m g) = kWidth G" "load_group G m g = Some (group_of G m g)"
    "list_all ctrl_ok (group_of G m g)"
proof -
  have "(g + 1) * kWidth G \<le> 2 ^ k * kWidth G" using assms(2) by (intro mult_le_mono1) simp
  then have l: "g * kWidth G + kWidth G \<le> length (ctrl m)"
    using assms(1) by (simp add: om_shape_def)
  then show "length (group_of G m g) = kWidth G" "load_group G m g = Some (group_of G m g)"
    by (simp_all add: group_of_def load_group_def rd_n_def)
  show "list_all ctrl_ok (group_of G m g)"
    using assms(1) by (auto simp: om_shape_def group_of_def list_all_iff dest!: in_set_takeD in_set_dropD)
qed

lemma empty_in_group:
  assumes "om_shape G k m" "i < om_capacity m" "ctrl m ! i = kCtrlEmpty"
  shows "kCtrlEmpty \<in> set (group_of G m (i div kWidth G))"
  using slot_group [OF assms(1,2)] group_props(1) [OF assms(1), of "i div kWidth G"] assms(3)
  by (metis nth_mem)

lemma max_load_less: "om_shape G k m \<Longrightarrow> max_load (om_capacity m) < om_capacity m"
  "om_shape G k m \<Longrightarrow> max_load (2 * om_capacity m) = 2 * max_load (om_capacity m)"
  "om_shape G k m \<Longrightarrow> 0 < max_load (om_capacity m)"
proof -
  assume sh: "om_shape G k m"
  obtain w where w: "kWidth G = 8 * w" "0 < w" using width_dvd width_pos by (auto elim: dvdE)
  have c: "om_capacity m = 8 * (2 ^ k * w)" using sh w by (simp add: om_shape_def)
  have p: "0 < 2 ^ k * w" using w by simp
  show "max_load (om_capacity m) < om_capacity m" unfolding max_load_def c using p by simp
  show "max_load (2 * om_capacity m) = 2 * max_load (om_capacity m)"
  proof -
    have "2 * (8 * n) div 8 = 2 * n" "8 * n div 8 = n" for n :: nat by simp_all
    then show ?thesis unfolding max_load_def c by (metis diff_mult_distrib2)
  qed
  show "0 < max_load (om_capacity m)" unfolding max_load_def c using p by simp
qed

text \<open>The counts leave an \<open>EMPTY\<close> byte somewhere, so every probe ends.\<close>

lemma exists_empty:
  assumes "om_shape G k m" "counts_ok m"
  shows "\<exists>i < om_capacity m. ctrl m ! i = kCtrlEmpty"
proof (rule ccontr)
  assume "\<not> ?thesis"
  then have n: "\<forall>c \<in> set (ctrl m). c \<noteq> kCtrlEmpty"
    using assms(1) by (auto simp: om_shape_def in_set_conv_nth)
  then have "\<forall>c \<in> set (ctrl m). full_tag c \<or> c = kCtrlDeleted"
    using assms(1) by (auto simp: om_shape_def list_all_iff ctrl_ok_def)
  then have "filter (\<lambda>c. \<not> full_tag c) (ctrl m) = filter ((=) kCtrlDeleted) (ctrl m)"
    by (intro filter_cong) (auto simp: kCtrlDeleted_def full_tag_def)
  then have "length (ctrl m) = tag_count full_tag m + tag_count ((=) kCtrlDeleted) m"
    using sum_length_filter_compl [of full_tag "ctrl m"] by (simp add: tag_count_def)
  then show False
    using assms max_load_less(1) [OF assms(1)] by (simp add: counts_ok_def om_shape_def)
qed

lemma exists_empty_probe:
  assumes "om_shape G k m" "counts_ok m"
  shows "\<exists>e < 2 ^ k. kCtrlEmpty \<in> set (group_of G m (home m r e))"
proof -
  obtain i where i: "i < om_capacity m" "ctrl m ! i = kCtrlEmpty" using exists_empty [OF assms] by blast
  have "\<exists>e < 2 ^ k. probe m (group_index m (hash r)) e = i div kWidth G"
    using assms(1) slot_group(1) [OF assms(1) i(1)] shape_group_index [OF assms(1)]
    by (intro probe_surj) (auto simp: om_shape_def)
  then show ?thesis using empty_in_group [OF assms(1) i] by (metis home_def)
qed

text \<open>\<open>find\<close>: candidates are full slots, and a group with an \<open>EMPTY\<close> ends the search.\<close>

lemma check_slots_eq:
  "list_all (\<lambda>i. i < length sl) is \<Longrightarrow> check_slots sl r is = Some (List.find (\<lambda>i. o_ref (sl ! i) = r) is)"
  by (induction "is") auto

lemma check_group:
  assumes "om_shape G k m" "g < 2 ^ k" "full_tag h2"
  defines "cs \<equiv> map (\<lambda>i. g * kWidth G + i) (mask_slots (kShift G) (match G (group_of G m g) h2))"
  shows "\<exists>hit. check_slots (slots m) r cs = Some hit \<and>
    (\<forall>i. hit = Some i \<longrightarrow> full m i \<and> key_of m i = r) \<and>
    (hit = None \<longrightarrow> (\<forall>i. full m i \<and> ctrl m ! i = h2 \<and> key_of m i = r \<longrightarrow> i div kWidth G \<noteq> g))"
proof -
  note gp = group_props [OF assms(1,2)]
  have cs: "full m i" if "i \<in> set cs" for i
  proof -
    from that obtain j where j: "i = g * kWidth G + j" "j \<in> set (mask_slots (kShift G) (match G (group_of G m g) h2))"
      by (auto simp: cs_def)
    then have "j < kWidth G" "full_tag (group_of G m g ! j)" using match_sound [OF gp(1) assms(3)] by auto
    then show ?thesis using group_slot [OF assms(1,2)] by (simp add: j full_def)
  qed
  then have "list_all (\<lambda>i. i < length (slots m)) cs"
    using assms(1) by (auto simp: list_all_iff full_def om_shape_def)
  note eq = check_slots_eq [OF this, of r]
  have miss: "i div kWidth G \<noteq> g" if "List.find (\<lambda>i. o_ref (slots m ! i) = r) cs = None"
    "full m i" "ctrl m ! i = h2" "key_of m i = r" for i
  proof
    assume g: "i div kWidth G = g"
    have i: "i < om_capacity m" using that by (simp add: full_def)
    note sg = slot_group [OF assms(1) i]
    have "i mod kWidth G \<in> set (mask_slots (kShift G) (match G (group_of G m g) h2))"
      using match_complete [OF gp(1) sg(2)] sg(3) g that by simp
    then have "i \<in> set cs" using sg(4) g by (force simp: cs_def image_iff)
    then show False using that by (auto simp: find_None_iff key_of_def)
  qed
  show ?thesis
    unfolding eq using cs miss by (auto simp: find_Some_iff key_of_def)
qed

lemma find_from_spec:
  assumes inv: "om_inv G m" and sh: "om_shape G k m"
    and e: "kCtrlEmpty \<in> set (group_of G m (home m r e))"
    and pre: "p \<le> e" "\<forall>q<p. kCtrlEmpty \<notin> set (group_of G m (home m r q))"
      "\<forall>q<p. \<forall>i. full m i \<and> key_of m i = r \<longrightarrow> i div kWidth G \<noteq> home m r q"
  shows "\<exists>res. find_from G m r (tag m (hash r)) (home m r p) (p + 1) = Some res \<and>
    (case res of None \<Rightarrow> \<forall>i. full m i \<longrightarrow> key_of m i \<noteq> r | Some i \<Rightarrow> full m i \<and> key_of m i = r)"
  using pre
proof (induction "e - p" arbitrary: p rule: less_induct)
  case less
  let ?g = "home m r p" and ?h2 = "tag m (hash r)"
  note gl = home_less [OF sh, of r p]
  note gp = group_props [OF sh gl]
  have tags: "full m i \<Longrightarrow> key_of m i = r \<Longrightarrow> ctrl m ! i = ?h2" for i
    using inv by (auto simp: om_inv_def)
  obtain hit where hit: "check_slots (slots m) r
      (map (\<lambda>i. ?g * kWidth G + i) (mask_slots (kShift G) (match G (group_of G m ?g) ?h2))) = Some hit"
    "\<forall>i. hit = Some i \<longrightarrow> full m i \<and> key_of m i = r"
    "hit = None \<longrightarrow> (\<forall>i. full m i \<and> ctrl m ! i = ?h2 \<and> key_of m i = r \<longrightarrow> i div kWidth G \<noteq> ?g)"
    using check_group [OF sh gl full_tag_tag [of m "hash r"], of r] by blast
  show ?case
  proof (cases hit)
    case (Some i)
    then show ?thesis using hit gp by (subst find_from.simps) simp
  next
    case None
    then have miss: "\<forall>i. full m i \<and> key_of m i = r \<longrightarrow> i div kWidth G \<noteq> ?g" using hit(3) tags by blast
    show ?thesis
    proof (cases "kCtrlEmpty \<in> set (group_of G m ?g)")
      case True
      have "key_of m i \<noteq> r" if f: "full m i" for i
      proof
        assume r: "key_of m i = r"
        obtain p' where p': "home m r p' = i div kWidth G"
          "\<forall>q<p'. kCtrlEmpty \<notin> set (group_of G m (home m r q))"
          using inv f r by (auto simp: om_inv_def reachable_def)
        have "\<not> p < p'" using p'(2) True by blast
        moreover have "\<not> p' < p" using p'(1) less.prems(3) f r by metis
        moreover have "p' \<noteq> p" using p'(1) miss f r by metis
        ultimately show False by linarith
      qed
      then show ?thesis using hit(1) None gp empty_any [OF gp(1,3)] True
        by (subst find_from.simps) simp
    next
      case False
      then have lt: "p < e" using e less.prems(1) by (metis le_neq_implies_less)
      have IH: "\<exists>res. find_from G m r ?h2 (home m r (p + 1)) (p + 1 + 1) = Some res \<and>
        (case res of None \<Rightarrow> \<forall>i. full m i \<longrightarrow> key_of m i \<noteq> r | Some i \<Rightarrow> full m i \<and> key_of m i = r)"
        using lt less.prems miss False by (intro less.hyps) (auto simp: less_Suc_eq)
      have "home m r (p + 1) = next_group m ?g (p + 1)" by (simp add: home_def)
      then show ?thesis using IH hit(1) None gp empty_any [OF gp(1,3)] False
        by (subst find_from.simps) simp
    qed
  qed
qed

lemma find_spec:
  assumes inv: "om_inv G m"
  shows "(om_find G m r = Some None \<and> om_abs m r = None) \<or>
    (\<exists>i. om_find G m r = Some (Some i) \<and> full m i \<and> key_of m i = r \<and> om_abs m r = Some (slots m ! i))"
proof -
  obtain k where sh: "om_shape G k m" using inv by (auto simp: om_inv_def)
  obtain e where e: "kCtrlEmpty \<in> set (group_of G m (home m r e))"
    using exists_empty_probe [OF sh, of r] inv unfolding om_inv_def by blast
  obtain res where "om_find G m r = Some res"
    "case res of None \<Rightarrow> \<forall>i. full m i \<longrightarrow> key_of m i \<noteq> r | Some i \<Rightarrow> full m i \<and> key_of m i = r"
    using find_from_spec [OF inv sh e, of 0] by (auto simp: om_find_def home_def Let_def)
  then show ?thesis
    using om_abs_None [OF inv] om_abs_iff [OF inv] by (cases res) auto
qed

text \<open>Insertion into a free slot that is reachable for the new key.\<close>

lemma claim_inv:
  assumes inv: "om_inv G m" and idx: "idx < om_capacity m" "\<not> full_tag (ctrl m ! idx)"
    and new: "om_abs m r = None"
    and path: "home m r p = idx div kWidth G"
      "\<forall>q<p. kCtrlEmpty \<notin> set (group_of G m (home m r q))"
    and m': "ctrl m' = (ctrl m)[idx := tag m (hash r)]" "slots m' = (slots m)[idx := ord]"
      "o_ref ord = r" "om_capacity m' = om_capacity m" "group_mask m' = group_mask m"
      "group_shift m' = group_shift m" "counts_ok m'"
  shows "om_inv G m' \<and> om_abs m' = (om_abs m)(r \<mapsto> ord) \<and> full m' idx \<and> key_of m' idx = r"
proof -
  obtain k where sh: "om_shape G k m" using inv by (auto simp: om_inv_def)
  have l: "length (ctrl m) = om_capacity m" "length (slots m) = om_capacity m"
    using sh by (simp_all add: om_shape_def)
  have "ctrl_ok (tag m (hash r))" by (simp add: ctrl_ok_def full_tag_tag)
  then have sh': "om_shape G k m'"
    using sh m' by (auto simp: om_shape_def list_all_iff dest!: set_update_subset_insert [THEN subsetD])
  have full': "full m' i \<longleftrightarrow> i = idx \<or> full m i" for i
    using idx l by (auto simp: full_def m' nth_list_update full_tag_tag)
  have nidx: "\<not> full m idx" using idx by (simp add: full_def)
  have key': "key_of m' i = (if i = idx then r else key_of m i)" for i
    using idx l by (auto simp: key_of_def m' nth_list_update)
  have ctrl': "ctrl m' ! i = (if i = idx then tag m (hash r) else ctrl m ! i)" for i
    using idx l by (auto simp: m' nth_list_update)
  have hc: "home m' x q = home m x q" for x q using m' by (intro home_cong) simp_all
  have ne: "kCtrlEmpty \<notin> set (group_of G m' g)" if "kCtrlEmpty \<notin> set (group_of G m g)" for g
  proof -
    have "kCtrlEmpty \<noteq> tag m (hash r)" using full_tag_tag [of m "hash r"]
      by (auto simp: full_tag_def kCtrlEmpty_def)
    then show ?thesis using group_of_update(1) [OF m'(1), of G g] that by auto
  qed
  have new': "full m i \<Longrightarrow> key_of m i \<noteq> r" for i using new om_abs_None [OF inv] by blast
  have inv': "om_inv G m'"
    unfolding om_inv_def
  proof (intro conjI allI impI)
    show "\<exists>k. om_shape G k m'" using sh' by blast
    show "counts_ok m'" by (rule m'(7))
    fix i assume f: "full m' i"
    show "ctrl m' ! i = tag m' (hash (key_of m' i))"
      using f inv nidx by (auto simp: full' key' ctrl' tag_cong [OF m'(6)] om_inv_def)
    show "reachable G m' i"
    proof (cases "i = idx")
      case True
      then show ?thesis using path ne by (auto simp: reachable_def key' hc)
    next
      case False
      then have "reachable G m i" using f inv by (auto simp: full' om_inv_def)
      then show ?thesis using False ne by (auto simp: reachable_def key' hc)
    qed
  next
    fix i j assume "full m' i" "full m' j" "key_of m' i = key_of m' j"
    then show "i = j" using inv new' by (auto simp: full' key' om_inv_def split: if_splits)
  qed
  moreover have "om_abs m' x = ((om_abs m)(r \<mapsto> ord)) x" for x
  proof (cases "x = r")
    case True
    have "slots m' ! idx = ord" using idx l by (simp add: m')
    then show ?thesis using om_abs_iff [OF inv', of r ord] full' key' True by auto
  next
    case False
    have "om_abs m' x = Some v \<longleftrightarrow> om_abs m x = Some v" for v
      using False nidx unfolding om_abs_iff [OF inv'] om_abs_iff [OF inv]
      by (auto simp: full' key' m')
    then show ?thesis using False by (metis fun_upd_other not_None_eq)
  qed
  ultimately show ?thesis using full' key' by auto
qed

lemma free_slot_spec:
  assumes sh: "om_shape G k m" and e: "\<exists>c \<in> set (group_of G m (home m r e)). \<not> full_tag c"
    and pre: "p \<le> e" "\<forall>q<p. \<forall>c \<in> set (group_of G m (home m r q)). full_tag c"
  shows "\<exists>idx p'. free_slot_from G m (home m r p) (p + 1) = Some idx \<and> idx < om_capacity m \<and>
    \<not> full_tag (ctrl m ! idx) \<and> home m r p' = idx div kWidth G \<and>
    (\<forall>q<p'. kCtrlEmpty \<notin> set (group_of G m (home m r q)))"
  using pre
proof (induction "e - p" arbitrary: p rule: less_induct)
  case less
  let ?g = "home m r p"
  note gl = home_less [OF sh, of r p]
  note gp = group_props [OF sh gl]
  have nonempty: "full_tag c \<Longrightarrow> c \<noteq> kCtrlEmpty" for c by (auto simp: full_tag_def kCtrlEmpty_def)
  show ?case
  proof (cases "\<exists>c \<in> set (group_of G m ?g). \<not> full_tag c")
    case True
    then have any: "mask_any (match_empty_or_deleted G (group_of G m ?g))" using free_any [OF gp(1)] by simp
    let ?j = "mask_lowest (kShift G) (match_empty_or_deleted G (group_of G m ?g))"
    note j = free_lowest [OF gp(1) any]
    note gs = group_slot [OF sh gl j(1)]
    have "free_slot_from G m ?g (p + 1) = Some (?g * kWidth G + ?j)"
      using any gp by (subst free_slot_from.simps) (simp add: Let_def)
    moreover have "\<not> full_tag (ctrl m ! (?g * kWidth G + ?j))" using j(2) gs(3) by simp
    ultimately show ?thesis using gs(1,2) less.prems(2) nonempty by metis
  next
    case False
    then have lt: "p < e" using e less.prems(1) by (metis le_neq_implies_less)
    have "\<exists>idx p'. free_slot_from G m (home m r (p + 1)) (p + 1 + 1) = Some idx \<and> idx < om_capacity m \<and>
      \<not> full_tag (ctrl m ! idx) \<and> home m r p' = idx div kWidth G \<and>
      (\<forall>q<p'. kCtrlEmpty \<notin> set (group_of G m (home m r q)))"
      using lt less.prems False by (intro less.hyps) (auto simp: less_Suc_eq)
    moreover have "home m r (p + 1) = next_group m ?g (p + 1)" by (simp add: home_def)
    ultimately show ?thesis using free_any [OF gp(1)] False gp(2)
      by (subst free_slot_from.simps) (simp add: Let_def)
  qed
qed

lemma claim_spec:
  assumes inv: "om_inv G m" and new: "om_abs m r = None" and room: "0 < growth_left m"
  shows "\<exists>idx m' ord. om_claim G m r = Some (idx, m') \<and> om_inv G m' \<and> full m' idx \<and>
    slots m' ! idx = ord \<and> o_ref ord = r \<and> om_abs m' = (om_abs m)(r \<mapsto> ord) \<and>
    om_capacity m' = om_capacity m \<and> om_size m' = om_size m + 1 \<and> growth_left m \<le> growth_left m' + 1"
proof -
  obtain k where sh: "om_shape G k m" using inv by (auto simp: om_inv_def)
  have co: "counts_ok m" using inv by (simp add: om_inv_def)
  have l: "length (ctrl m) = om_capacity m" "length (slots m) = om_capacity m"
    using sh by (simp_all add: om_shape_def)
  obtain e where "kCtrlEmpty \<in> set (group_of G m (home m r e))"
    using exists_empty_probe [OF sh co] by blast
  then have e: "\<exists>c \<in> set (group_of G m (home m r e)). \<not> full_tag c"
    by (rule bexI [rotated]) (simp add: full_tag_def kCtrlEmpty_def)
  obtain idx p where idx: "free_slot_from G m (home m r 0) (0 + 1) = Some idx" "idx < om_capacity m"
    "\<not> full_tag (ctrl m ! idx)" and path: "home m r p = idx div kWidth G"
    "\<forall>q<p. kCtrlEmpty \<notin> set (group_of G m (home m r q))"
    using free_slot_spec [OF sh e, of 0] by auto
  let ?c = "ctrl m ! idx" and ?t = "tag m (hash r)"
  have tag_cases: "?c = kCtrlEmpty \<or> ?c = kCtrlDeleted"
    using sh idx by (auto simp: om_shape_def list_all_length ctrl_ok_def)
  let ?m1 = "if ?c = kCtrlEmpty then m\<lparr>growth_left := growth_left m - 1\<rparr>
    else m\<lparr>om_tombstones := om_tombstones m - 1\<rparr>"
  let ?ord = "(slots m ! idx)\<lparr>o_ref := r\<rparr>"
  let ?m' = "?m1\<lparr>ctrl := (ctrl m)[idx := ?t], om_size := om_size m + 1, slots := (slots m)[idx := ?ord]\<rparr>"
  have claim: "om_claim G m r = Some (idx, ?m')"
    using idx l by (simp add: om_claim_def home_def Let_def rd_def)
  have F: "tag_count full_tag ?m' = tag_count full_tag m + 1"
    using count_update [of idx "ctrl m" full_tag ?t] idx l full_tag_tag by (simp add: tag_count_def)
  have D: "tag_count ((=) kCtrlDeleted) ?m' + of_bool (?c = kCtrlDeleted) = tag_count ((=) kCtrlDeleted) m"
    using count_update [of idx "ctrl m" "(=) kCtrlDeleted" ?t] idx l full_tag_tag [of m "hash r"]
    by (auto simp: tag_count_def full_tag_def kCtrlDeleted_def)
  have "counts_ok ?m'"
    using co room F D tag_cases by (auto simp: counts_ok_def tag_count_def kCtrlEmpty_def kCtrlDeleted_def)
  then have "om_inv G ?m' \<and> om_abs ?m' = (om_abs m)(r \<mapsto> ?ord) \<and> full ?m' idx \<and> key_of ?m' idx = r"
    by (intro claim_inv [OF inv idx(2,3) new path]) simp_all
  moreover have "slots ?m' ! idx = ?ord" using idx l by simp
  ultimately show ?thesis using claim
    by (intro exI [of _ idx] exI [of _ ?m'] exI [of _ ?ord]) auto
qed

text \<open>Writing a whole order into its own slot, and erasing.\<close>

lemma put_spec:
  assumes inv: "om_inv G m" and f: "full m idx" and r: "o_ref ord = key_of m idx"
  shows "om_inv G (om_put m idx ord) \<and> om_abs (om_put m idx ord) = (om_abs m)(key_of m idx \<mapsto> ord) \<and>
    full (om_put m idx ord) i = full m i \<and> key_of (om_put m idx ord) i = key_of m i"
proof -
  let ?m = "om_put m idx ord"
  obtain k where sh: "om_shape G k m" using inv by (auto simp: om_inv_def)
  have l: "idx < length (slots m)" using sh f by (simp add: om_shape_def full_def)
  have full': "full ?m i = full m i" for i by (simp add: full_def om_put_def)
  have key': "key_of ?m i = key_of m i" for i
    using l r by (auto simp: key_of_def om_put_def nth_list_update)
  have hc: "home ?m x q = home m x q" for x q by (rule home_cong) (simp_all add: om_put_def)
  have gc: "group_of G ?m g = group_of G m g" for g by (simp add: group_of_def om_put_def)
  have inv': "om_inv G ?m"
  proof -
    have "om_shape G k ?m" "counts_ok ?m"
      using sh inv by (simp_all add: om_shape_def om_put_def om_inv_def counts_ok_def tag_count_def)
    moreover have "reachable G ?m i = reachable G m i" for i
      unfolding reachable_def key' hc gc by (rule refl)
    moreover have "ctrl ?m = ctrl m" "tag ?m h = tag m h" for h by (simp_all add: om_put_def tag_def)
    ultimately show ?thesis using inv by (auto simp: om_inv_def full' key')
  qed
  have sl: "slots ?m = (slots m)[idx := ord]" by (simp add: om_put_def)
  have uniq: "full m i \<Longrightarrow> key_of m i = key_of m idx \<Longrightarrow> i = idx" for i
    using inv f unfolding om_inv_def by blast
  have "om_abs ?m x = Some v \<longleftrightarrow> ((om_abs m)(key_of m idx \<mapsto> ord)) x = Some v" for x v
  proof (cases "x = key_of m idx")
    case True
    then show ?thesis using f l unfolding om_abs_iff [OF inv'] full' key' sl
      by (auto dest: uniq intro: exI [of _ idx])
  next
    case False
    then show ?thesis using l unfolding om_abs_iff [OF inv'] full' key' sl
      by (auto simp: om_abs_iff [OF inv] nth_list_update)
  qed
  then have "om_abs ?m = (om_abs m)(key_of m idx \<mapsto> ord)"
    by (intro ext) (metis not_None_eq)
  with inv' full' key' show ?thesis by blast
qed

lemma erase_spec:
  assumes inv: "om_inv G m" and f: "full m idx"
  shows "\<exists>m'. om_erase G m idx = Some m' \<and> om_inv G m' \<and>
    om_abs m' = (om_abs m)(key_of m idx := None) \<and> om_size m' + 1 = om_size m \<and>
    om_capacity m' = om_capacity m \<and>
    (ctrl m' ! idx = kCtrlEmpty \<longleftrightarrow> kCtrlEmpty \<in> set (group_of G m (idx div kWidth G)))"
proof -
  obtain k where sh: "om_shape G k m" using inv by (auto simp: om_inv_def)
  have co: "counts_ok m" using inv by (simp add: om_inv_def)
  have idx: "idx < om_capacity m" "full_tag (ctrl m ! idx)" using f by (simp_all add: full_def)
  have l: "length (ctrl m) = om_capacity m" "length (slots m) = om_capacity m"
    using sh by (simp_all add: om_shape_def)
  let ?g = "idx div kWidth G"
  note gl = slot_group(1) [OF sh idx(1)]
  note gp = group_props [OF sh gl]
  define c where "c = (if kCtrlEmpty \<in> set (group_of G m ?g) then kCtrlEmpty else kCtrlDeleted)"
  have c: "\<not> full_tag c" "ctrl_ok c"
    by (auto simp: c_def full_tag_def kCtrlEmpty_def kCtrlDeleted_def ctrl_ok_def)
  obtain m' where m': "om_erase G m idx = Some m'" "ctrl m' = (ctrl m)[idx := c]" "slots m' = slots m"
    "om_capacity m' = om_capacity m" "group_mask m' = group_mask m" "group_shift m' = group_shift m"
    "om_size m' = om_size m - 1"
    "growth_left m' = growth_left m + of_bool (c = kCtrlEmpty)"
    "om_tombstones m' = om_tombstones m + of_bool (c = kCtrlDeleted)"
  proof (cases "kCtrlEmpty \<in> set (group_of G m ?g)")
    case True
    with empty_any [OF gp(1,3)] that gp(2) show ?thesis
      by (auto simp: om_erase_def c_def kCtrlEmpty_def kCtrlDeleted_def)
  next
    case False
    with empty_any [OF gp(1,3)] that gp(2) show ?thesis
      by (auto simp: om_erase_def c_def kCtrlEmpty_def kCtrlDeleted_def)
  qed
  have F: "tag_count full_tag m' + 1 = tag_count full_tag m"
    using count_update [of idx "ctrl m" full_tag c] idx l c by (simp add: tag_count_def m')
  have D: "tag_count ((=) kCtrlDeleted) m' = tag_count ((=) kCtrlDeleted) m + of_bool (c = kCtrlDeleted)"
  proof -
    have "ctrl m ! idx \<noteq> kCtrlDeleted" using idx(2) by (auto simp: full_tag_def kCtrlDeleted_def)
    then show ?thesis
      using count_update [of idx "ctrl m" "(=) kCtrlDeleted" c] idx(1) l
      by (auto simp: tag_count_def m'(2) eq_commute [of kCtrlDeleted])
  qed
  have co': "counts_ok m'"
    using co F D c by (auto simp: counts_ok_def m'(4,7-9) c_def kCtrlEmpty_def kCtrlDeleted_def)
  have sh': "om_shape G k m'"
    using sh c m' by (auto simp: om_shape_def list_all_iff dest!: set_update_subset_insert [THEN subsetD])
  have full': "full m' i \<longleftrightarrow> i \<noteq> idx \<and> full m i" for i
    using idx l c by (auto simp: full_def m' nth_list_update)
  have key': "key_of m' i = key_of m i" for i by (simp add: key_of_def m')
  have hc: "home m' x q = home m x q" for x q using m' by (intro home_cong) simp_all
  have ne: "kCtrlEmpty \<notin> set (group_of G m' g)" if "kCtrlEmpty \<notin> set (group_of G m g)" for g
  proof (cases "c = kCtrlEmpty")
    case True
    have "kCtrlDeleted \<noteq> kCtrlEmpty" by (simp add: kCtrlEmpty_def kCtrlDeleted_def)
    with True have "kCtrlEmpty \<in> set (group_of G m ?g)" unfolding c_def by presburger
    then have "g \<noteq> ?g" using that by metis
    then show ?thesis using group_of_update(2) [OF m'(2) width_pos] that by simp
  next
    case False
    then show ?thesis using group_of_update(1) [OF m'(2), of G g] that by auto
  qed
  have inv': "om_inv G m'"
    unfolding om_inv_def
  proof (intro conjI allI impI)
    show "\<exists>k. om_shape G k m'" using sh' by blast
    show "counts_ok m'" by (rule co')
    fix i assume f: "full m' i"
    then show "ctrl m' ! i = tag m' (hash (key_of m' i))"
      using inv by (auto simp: full' key' m'(2) tag_cong [OF m'(6)] om_inv_def)
    have "reachable G m i" using f inv by (auto simp: full' om_inv_def)
    then show "reachable G m' i" using ne by (auto simp: reachable_def key' hc)
  next
    fix i j assume "full m' i" "full m' j" "key_of m' i = key_of m' j"
    then show "i = j" using inv by (auto simp: full' key' om_inv_def)
  qed
  have "om_abs m' x = Some v \<longleftrightarrow> ((om_abs m)(key_of m idx := None)) x = Some v" for x v
    unfolding om_abs_iff [OF inv'] using inv f
    by (auto simp: full' key' m'(3) om_abs_iff [OF inv] om_inv_def)
  then have "om_abs m' = (om_abs m)(key_of m idx := None)"
    by (intro ext) (metis not_None_eq)
  moreover have "om_size m' + 1 = om_size m"
    using co co' F by (simp add: counts_ok_def)
  moreover have "ctrl m' ! idx = kCtrlEmpty \<longleftrightarrow> kCtrlEmpty \<in> set (group_of G m ?g)"
    using idx l by (simp add: m'(2) c_def kCtrlEmpty_def kCtrlDeleted_def)
  ultimately show ?thesis using m' inv' by blast
qed

text \<open>A fresh allocation is an empty table.\<close>

lemma countr_zero_power: "k < 64 \<Longrightarrow> countr_zero (of_nat (2 ^ k)) = k"
proof -
  assume k: "k < 64"
  have b: "bit (of_nat (2 ^ k) :: u64) n \<longleftrightarrow> n = k" for n
    using k by (auto simp: bit_of_nat_iff bit_exp_iff)
  then have "(of_nat (2 ^ k) :: u64) \<noteq> 0" unfolding word_nonzero_bit by blast
  from countr_zero_props(1) [OF this] b show ?thesis by simp
qed

lemma tag_count_replicate: "ctrl m = replicate n c \<Longrightarrow> tag_count P m = (if P c then n else 0)"
  by (simp add: tag_count_def)

lemma allocate_spec:
  assumes "om_allocate alloc G (2 ^ k) m = Some m'" "1 \<le> k"
  shows "om_inv G m' \<and> om_abs m' = Map.empty \<and> om_capacity m' = 2 ^ k * kWidth G \<and> om_size m' = 0 \<and>
    growth_left m' = max_load (2 ^ k * kWidth G)"
proof -
  have cap: "2 ^ k * kWidth G < 2 ^ 64"
    using assms(1) by (auto simp: om_allocate_def large_buffer_ok_def Let_def split: if_splits)
  have k: "k < 64"
  proof (rule ccontr)
    assume "\<not> k < 64"
    then have "2 ^ 64 * 1 \<le> 2 ^ k * kWidth G"
      using width_pos by (intro mult_le_mono power_increasing) auto
    with cap show False by simp
  qed
  have m': "m' = om_clear (m\<lparr>om_capacity := 2 ^ k * kWidth G, group_mask := 2 ^ k - 1,
      group_shift := 64 - k, ctrl := replicate (2 ^ k * kWidth G) 0,
      slots := replicate (2 ^ k * kWidth G) zero_order\<rparr>)"
    using assms(1) k countr_zero_power [OF k] by (auto simp: om_allocate_def Let_def split: if_splits)
  have c: "ctrl m' = replicate (2 ^ k * kWidth G) kCtrlEmpty" by (simp add: m' om_clear_def)
  have nf: "\<not> full m' i" for i
    by (auto simp: full_def c m' om_clear_def full_tag_def kCtrlEmpty_def)
  have "om_shape G k m'"
    using assms(2) k by (simp add: om_shape_def m' om_clear_def list_all_iff ctrl_ok_def)
  moreover have "counts_ok m'"
    using tag_count_replicate [OF c]
    by (simp add: counts_ok_def m' om_clear_def full_tag_def kCtrlEmpty_def kCtrlDeleted_def)
  ultimately have inv: "om_inv G m'" using nf by (auto simp: om_inv_def)
  then have "om_abs m' = Map.empty" using om_abs_None [OF inv] nf by auto
  with inv show ?thesis by (simp add: m' om_clear_def)
qed

lemma clear_spec:
  assumes "om_inv G m"
  shows "om_inv G (om_clear m) \<and> om_abs (om_clear m) = Map.empty \<and> om_size (om_clear m) = 0"
proof -
  obtain k where sh: "om_shape G k m" using assms by (auto simp: om_inv_def)
  let ?m = "om_clear m"
  have c: "ctrl ?m = replicate (om_capacity m) kCtrlEmpty" by (simp add: om_clear_def)
  have nf: "\<not> full ?m i" for i
    by (auto simp: full_def c om_clear_def full_tag_def kCtrlEmpty_def)
  have "om_shape G k ?m" using sh by (simp add: om_shape_def om_clear_def list_all_iff ctrl_ok_def)
  moreover have "counts_ok ?m"
    using tag_count_replicate [OF c]
    by (simp add: counts_ok_def om_clear_def full_tag_def kCtrlEmpty_def kCtrlDeleted_def)
  ultimately have inv: "om_inv G ?m" using nf by (auto simp: om_inv_def)
  then show ?thesis using om_abs_None [OF inv] nf by (auto simp: om_clear_def)
qed

text \<open>The table is never overfull.\<close>

lemma size_le: "om_inv G m \<Longrightarrow> om_size m + growth_left m \<le> max_load (om_capacity m)"
  by (simp add: om_inv_def counts_ok_def)

lemma full_count: "om_inv G m \<Longrightarrow> card {i. full m i} = om_size m"
proof -
  assume inv: "om_inv G m"
  then have l: "om_capacity m = length (ctrl m)" by (auto simp: om_inv_def om_shape_def)
  show ?thesis
    using inv by (simp add: om_inv_def counts_ok_def tag_count_def length_filter_conv_card full_def l)
qed

text \<open>Copying the full slots of \<open>m\<close> into a fresh table, with an insertion that has room.\<close>

lemma copy_spec:
  assumes inv: "om_inv G m" and m0: "om_inv G m0" "om_abs m0 = Map.empty"
    and room: "om_size m < growth_left m0"
    and ins: "\<And>m' r. 0 < growth_left m' \<Longrightarrow> ins m' r = om_claim G m' r"
    and n: "n \<le> om_capacity m"
  shows "\<exists>m1. foldO (\<lambda>i m'.
         if full_tag (ctrl m ! i)
         then do { (idx, m'') \<leftarrow> ins m' (o_ref (slots m ! i)); Some (om_put m'' idx (slots m ! i)) }
         else Some m') [0..<n] m0 = Some m1 \<and> om_inv G m1 \<and>
     (\<forall>r ord. om_abs m1 r = Some ord \<longleftrightarrow> (\<exists>i<n. full m i \<and> slots m ! i = ord \<and> key_of m i = r)) \<and>
     om_capacity m1 = om_capacity m0 \<and>
     growth_left m0 \<le> growth_left m1 + card {i. i < n \<and> full m i}"
  using n
proof (induction n)
  case 0
  then show ?case using m0 by simp
next
  case (Suc n)
  let ?f = "\<lambda>i m'. if full_tag (ctrl m ! i)
    then do { (idx, m'') \<leftarrow> ins m' (o_ref (slots m ! i)); Some (om_put m'' idx (slots m ! i)) }
    else Some m'"
  obtain m1 where IH: "foldO ?f [0..<n] m0 = Some m1" "om_inv G m1"
    "\<forall>r ord. om_abs m1 r = Some ord \<longleftrightarrow> (\<exists>i<n. full m i \<and> slots m ! i = ord \<and> key_of m i = r)"
    "om_capacity m1 = om_capacity m0"
    "growth_left m0 \<le> growth_left m1 + card {i. i < n \<and> full m i}"
    using Suc.IH Suc.prems by auto
  have step: "foldO ?f [0..<Suc n] m0 = ?f n m1"
    unfolding upt_Suc_append [OF le0] foldO_snoc IH(1) by (rule Option.bind.bind_lunit)
  show ?case
  proof (cases "full_tag (ctrl m ! n)")
    case False
    then have "{i. i < Suc n \<and> full m i} = {i. i < n \<and> full m i}"
      by (auto simp: less_Suc_eq full_def)
    moreover have "(\<exists>i<Suc n. full m i \<and> P i) \<longleftrightarrow> (\<exists>i<n. full m i \<and> P i)" for P
      using False by (auto simp: less_Suc_eq full_def)
    ultimately show ?thesis using step False IH by simp
  next
    case True
    have fn: "full m n" using True Suc.prems by (simp add: full_def)
    have set_Suc: "{i. i < Suc n \<and> full m i} = insert n {i. i < n \<and> full m i}"
      using fn by (auto simp: less_Suc_eq)
    have card_Suc: "card {i. i < Suc n \<and> full m i} = Suc (card {i. i < n \<and> full m i})"
      unfolding set_Suc by simp
    have fin: "finite {i. full m i}" by (simp add: full_def)
    have "card {i. i < Suc n \<and> full m i} \<le> om_size m"
      unfolding full_count [OF inv, symmetric] by (rule card_mono [OF fin]) auto
    then have gl: "0 < growth_left m1" using IH(5) room card_Suc by linarith
    have new: "om_abs m1 (key_of m n) = None"
    proof (rule ccontr)
      assume "om_abs m1 (key_of m n) \<noteq> None"
      then obtain i where "i < n" "full m i" "key_of m i = key_of m n" using IH(3) by blast
      then show False using inv fn by (auto simp: om_inv_def)
    qed
    obtain idx m2 where m2: "om_claim G m1 (key_of m n) = Some (idx, m2)" "om_inv G m2" "full m2 idx"
      "key_of m2 idx = key_of m n" "\<forall>x. x \<noteq> key_of m n \<longrightarrow> om_abs m2 x = om_abs m1 x"
      "om_capacity m2 = om_capacity m1" "growth_left m1 \<le> growth_left m2 + 1"
      using claim_spec [OF IH(2) new gl] by (auto simp: key_of_def)
    let ?m3 = "om_put m2 idx (slots m ! n)"
    have ref: "o_ref (slots m ! n) = key_of m2 idx" using m2(4) by (simp add: key_of_def)
    note put = put_spec [OF m2(2,3) ref]
    have st: "?f n m1 = Some ?m3" using True ins [OF gl] m2(1) by (simp add: key_of_def)
    have abs: "om_abs ?m3 r = Some ord \<longleftrightarrow> (\<exists>i<Suc n. full m i \<and> slots m ! i = ord \<and> key_of m i = r)" for r ord
    proof (cases "r = key_of m n")
      case True
      then show ?thesis using put m2(4) fn inv by (auto simp: less_Suc_eq om_inv_def)
    next
      case False
      then show ?thesis using put m2(4,5) IH(3) by (auto simp: less_Suc_eq)
    qed
    have "om_capacity ?m3 = om_capacity m2" "growth_left ?m3 = growth_left m2" by (simp_all add: om_put_def)
    then have "om_capacity ?m3 = om_capacity m0"
      "growth_left m0 \<le> growth_left ?m3 + card {i. i < Suc n \<and> full m i}"
      using IH(4,5) m2(6,7) card_Suc by linarith+
    moreover have "om_inv G ?m3" using put by blast
    ultimately show ?thesis
      using abs trans [OF step st] by (intro exI [of _ ?m3] conjI allI)
  qed
qed

lemma size_dom:
  assumes i: "om_inv G m"
  shows "om_size m = card (dom (om_abs m))"
proof -
  have dom: "key_of m ` {i. full m i} = dom (om_abs m)"
    using om_abs_iff [OF i] by (fastforce simp: dom_def image_iff)
  have "inj_on (key_of m) {i. full m i}" using i by (auto simp: om_inv_def inj_on_def)
  then show ?thesis unfolding dom [symmetric] by (simp add: card_image full_count [OF i])
qed

lemma rehash_spec:
  assumes inv: "om_inv G m"
    and ins: "\<And>m' r. 0 < growth_left m' \<Longrightarrow> ins m' r = om_claim G m' r"
  defines "groups \<equiv> (if om_size m * 2 > max_load (om_capacity m) then om_capacity m div kWidth G * 2
    else om_capacity m div kWidth G)"
  shows "(om_allocate alloc G groups m = None \<and> rehash_with ins alloc G m = None) \<or>
    (\<exists>m'. rehash_with ins alloc G m = Some m' \<and> om_inv G m' \<and> om_abs m' = om_abs m \<and>
       0 < growth_left m' \<and> om_size m' = om_size m \<and> om_capacity m' = groups * kWidth G)"
proof (cases "om_allocate alloc G groups m")
  case None
  then show ?thesis by (simp add: rehash_with_def groups_def Let_def)
next
  case (Some m0)
  obtain k where sh: "om_shape G k m" using inv by (auto simp: om_inv_def)
  have cap: "om_capacity m = 2 ^ k * kWidth G" "om_capacity m div kWidth G = 2 ^ k"
    using sh width_pos by (simp_all add: om_shape_def)
  obtain k' where k': "groups = 2 ^ k'" "1 \<le> k'" "om_size m < max_load (2 ^ k' * kWidth G)"
  proof (cases "om_size m * 2 > max_load (om_capacity m)")
    case True
    have "max_load (2 ^ Suc k * kWidth G) = 2 * max_load (om_capacity m)"
      using max_load_less(2) [OF sh] by (simp add: cap mult.assoc)
    then have "om_size m < max_load (2 ^ Suc k * kWidth G)"
      using size_le [OF inv] max_load_less(3) [OF sh] by linarith
    then show ?thesis using that [of "Suc k"] True width_pos by (simp add: groups_def cap)
  next
    case False
    then have "om_size m < max_load (2 ^ k * kWidth G)"
      using max_load_less(3) [OF sh] by (simp add: cap)
    then show ?thesis using that [of k] False sh width_pos by (simp add: groups_def cap om_shape_def)
  qed
  have al: "om_allocate alloc G (2 ^ k') m = Some m0" using Some by (simp only: k'(1))
  note m0 = allocate_spec [OF al k'(2)]
  obtain m1 where m1: "foldO (\<lambda>i m'.
         if full_tag (ctrl m ! i)
         then do { (idx, m'') \<leftarrow> ins m' (o_ref (slots m ! i)); Some (om_put m'' idx (slots m ! i)) }
         else Some m') [0..<om_capacity m] m0 = Some m1" "om_inv G m1"
     "\<forall>r ord. om_abs m1 r = Some ord \<longleftrightarrow>
        (\<exists>i<om_capacity m. full m i \<and> slots m ! i = ord \<and> key_of m i = r)"
     "om_capacity m1 = om_capacity m0"
     "growth_left m0 \<le> growth_left m1 + card {i. i < om_capacity m \<and> full m i}"
    using copy_spec [OF inv _ _ _ ins order_refl, of m0] m0 k'(3) by auto
  let ?g = "om_size m * 2 > max_load (om_capacity m)"
  let ?m' = "m1\<lparr>rehashes := rehashes m1 + 1, grows := (if ?g then grows m1 + 1 else grows m1)\<rparr>"
  have r: "rehash_with ins alloc G m = Some ?m'"
    using Some m1(1) by (simp add: rehash_with_def groups_def Let_def)
  have upd: "om_inv G (m1\<lparr>rehashes := a, grows := b\<rparr>) = om_inv G m1"
    "om_abs (m1\<lparr>rehashes := a, grows := b\<rparr>) = om_abs m1" for a b
  proof -
    let ?u = "m1\<lparr>rehashes := a, grows := b\<rparr>"
    have k: "key_of ?u = key_of m1" by (auto simp: key_of_def)
    have h: "home ?u x q = home m1 x q" for x q by (rule home_cong) simp_all
    have g: "group_of G ?u = group_of G m1" by (auto simp: group_of_def)
    have rc: "reachable G ?u = reachable G m1"
      by (rule ext) (simp only: reachable_def k h g)
    show "om_inv G ?u = om_inv G m1"
      unfolding om_inv_def rc k
      by (simp add: om_shape_def counts_ok_def tag_count_def full_def tag_def)
    show "om_abs ?u = om_abs m1" unfolding om_abs_def k by simp
  qed
  have "om_abs m1 r = Some ord \<longleftrightarrow> om_abs m r = Some ord" for r ord
    unfolding m1(3) [rule_format] om_abs_iff [OF inv] by (auto simp: full_def)
  then have abs: "om_abs m1 = om_abs m" by (intro ext) (metis not_None_eq)
  have e: "{i. i < om_capacity m \<and> full m i} = {i. full m i}" by (auto simp: full_def)
  have "0 < growth_left m1" using m1(5) m0 k'(3) unfolding e full_count [OF inv] by linarith
  moreover have "om_size m1 = om_size m" using size_dom [OF inv] size_dom [OF m1(2)] abs by simp
  ultimately show ?thesis using r upd m1(2,4) m0 abs k'(1) by (intro disjI2 exI [of _ ?m']) simp
qed

text \<open>\<open>insert\<close>: it fails only when it has to rehash and an allocation fails.\<close>

lemma insert_depth_1: "0 < growth_left m \<Longrightarrow> om_insert_depth (Suc d) alloc G m r = om_claim G m r"
  by simp

lemma insert_spec:
  assumes inv: "om_inv G m" and new: "om_abs m r = None"
  shows "(\<exists>idx m' ord. om_insert alloc G m r = Some (idx, m') \<and> om_inv G m' \<and> full m' idx \<and>
      slots m' ! idx = ord \<and> o_ref ord = r \<and> om_abs m' = (om_abs m)(r \<mapsto> ord) \<and>
      om_size m' = om_size m + 1) \<or>
    (om_insert alloc G m r = None \<and> growth_left m = 0 \<and>
      (\<exists>groups \<in> {om_capacity m div kWidth G, om_capacity m div kWidth G * 2}.
         om_allocate alloc G groups m = None))"
proof (cases "growth_left m = 0")
  case False
  then have "om_insert alloc G m r = om_claim G m r"
    by (simp add: om_insert_def numeral_2_eq_2)
  then show ?thesis using claim_spec [OF inv new] False by auto
next
  case True
  have ins: "om_insert alloc G m r =
      (case rehash_with (om_insert_depth 1 alloc G) alloc G m of None \<Rightarrow> None | Some m1 \<Rightarrow> om_claim G m1 r)"
    using True by (simp add: om_insert_def numeral_2_eq_2 split: option.splits)
  have i1: "0 < growth_left m' \<Longrightarrow> om_insert_depth 1 alloc G m' x = om_claim G m' x" for m' x
    by simp
  let ?groups = "if om_size m * 2 > max_load (om_capacity m) then om_capacity m div kWidth G * 2
    else om_capacity m div kWidth G"
  have "(om_allocate alloc G ?groups m = None \<and> rehash_with (om_insert_depth 1 alloc G) alloc G m = None) \<or>
    (\<exists>m'. rehash_with (om_insert_depth 1 alloc G) alloc G m = Some m' \<and> om_inv G m' \<and>
       om_abs m' = om_abs m \<and> 0 < growth_left m' \<and> om_size m' = om_size m \<and>
       om_capacity m' = ?groups * kWidth G)"
    by (rule rehash_spec [OF inv]) (rule i1)
  then show ?thesis
  proof (elim disjE exE conjE)
    fix m1
    assume m1: "rehash_with (om_insert_depth 1 alloc G) alloc G m = Some m1" "om_inv G m1"
      "om_abs m1 = om_abs m" "0 < growth_left m1" "om_size m1 = om_size m"
    then show ?thesis using claim_spec [OF m1(2) _ m1(4), of r] new ins by auto
  qed (use ins True in \<open>auto split: if_splits\<close>)
qed

end

section \<open>The size asked for is the room there is\<close>

lemma bit_ceil_ge: "n \<le> bit_ceil n"
  using bit_width_bound [of "n - 1"] by (auto simp: bit_ceil_def)

lemma groups_for_power: "\<exists>k\<ge>1. groups_for G n = 2 ^ k"
proof -
  have "\<exists>k. bit_ceil x = 2 ^ k" for x
    unfolding bit_ceil_def by (cases "x \<le> 1") (auto intro: exI [of _ 0])
  then obtain k where k: "bit_ceil ((n + n div 7 + 1 + kWidth G - 1) div kWidth G) = 2 ^ k" by blast
  show ?thesis
  proof (cases "k = 0")
    case True
    then show ?thesis using k by (intro exI [of _ 1]) (simp add: groups_for_def Let_def)
  next
    case False
    then have "2 \<le> (2::nat) ^ k" by (cases k) simp_all
    then show ?thesis using k False by (intro exI [of _ k]) (auto simp: groups_for_def Let_def)
  qed
qed

lemma ceil_div:
  fixes n w :: nat
  assumes "0 < w"
  shows "n \<le> (n + w - 1) div w * w"
proof -
  obtain d where d: "d = (n + w - 1) div w * w" by blast
  have "n + w - 1 < w + d" unfolding d by (rule dividend_less_div_times [OF assms])
  then have "n \<le> d" by simp
  then show ?thesis unfolding d .
qed

lemma max_load_fits:
  assumes "n + n div 7 + 1 \<le> 8 * c"
  shows "n \<le> max_load (8 * c)"
proof -
  have "8 * c - 8 * c div 8 = 7 * c" by simp
  moreover have "n \<le> 7 * c"
  proof (rule ccontr)
    assume n: "\<not> n \<le> 7 * c"
    then have "7 * c div 7 \<le> n div 7" by (intro div_le_mono) simp
    then have "c \<le> n div 7" by simp
    with n assms show False by linarith
  qed
  ultimately show ?thesis by (simp add: max_load_def)
qed

context ctrl_group
begin

lemma groups_for_room: "n \<le> max_load (groups_for G n * kWidth G)"
proof -
  let ?sl = "n + n div 7 + 1"
  have "?sl \<le> (?sl + kWidth G - 1) div kWidth G * kWidth G" by (rule ceil_div [OF width_pos])
  also have "\<dots> \<le> groups_for G n * kWidth G"
    using bit_ceil_ge [of "(?sl + kWidth G - 1) div kWidth G"]
    by (intro mult_le_mono1) (simp add: groups_for_def Let_def)
  finally have "?sl \<le> groups_for G n * kWidth G" .
  moreover obtain w where "kWidth G = 8 * w" using width_dvd by (auto elim: dvdE)
  ultimately show ?thesis using max_load_fits [of n "groups_for G n * w"] by (simp add: mult.left_commute)
qed

end

section \<open>The table as an interface\<close>

text \<open>
  What the engine relies on: an invariant, the map represented, and handles (slot indices)
  that stay valid until the next insertion.
\<close>

locale order_table =
  fixes inv :: "'t \<Rightarrow> bool" and abs :: "'t \<Rightarrow> u64 \<rightharpoonup> order" and live :: "'t \<Rightarrow> nat \<Rightarrow> bool"
    and get :: "'t \<Rightarrow> nat \<Rightarrow> order"
    and find :: "'t \<Rightarrow> u64 \<Rightarrow> nat option option"
    and ins :: "'t \<Rightarrow> u64 \<Rightarrow> (nat \<times> 't) option"
    and put :: "'t \<Rightarrow> nat \<Rightarrow> order \<Rightarrow> 't"
    and del :: "'t \<Rightarrow> nat \<Rightarrow> 't option"
  assumes find_law: "inv t \<Longrightarrow> (find t r = Some None \<and> abs t r = None) \<or>
      (\<exists>i. find t r = Some (Some i) \<and> live t i \<and> abs t r = Some (get t i) \<and> o_ref (get t i) = r)"
    and ins_law: "inv t \<Longrightarrow> abs t r = None \<Longrightarrow> ins t r = Some (i, t') \<Longrightarrow>
      inv t' \<and> live t' i \<and> o_ref (get t' i) = r \<and> abs t' = (abs t)(r \<mapsto> get t' i)"
    and put_law: "inv t \<Longrightarrow> live t i \<Longrightarrow> o_ref ord = o_ref (get t i) \<Longrightarrow>
      inv (put t i ord) \<and> abs (put t i ord) = (abs t)(o_ref ord \<mapsto> ord) \<and>
      live (put t i ord) j = live t j \<and> get (put t i ord) i = ord"
    and del_law: "inv t \<Longrightarrow> live t i \<Longrightarrow>
      \<exists>t'. del t i = Some t' \<and> inv t' \<and> abs t' = (abs t)(o_ref (get t i) := None)"
begin

lemma find_known:
  assumes "inv t" "abs t r = Some ord"
  shows "\<exists>i. find t r = Some (Some i) \<and> live t i \<and> get t i = ord \<and> o_ref ord = r"
  using find_law [OF assms(1), of r] assms(2) by auto

lemma find_unknown: "inv t \<Longrightarrow> abs t r = None \<Longrightarrow> find t r = Some None"
  using find_law [of t r] by auto

lemma ins_put:
  assumes "inv t" "abs t r = None" "ins t r = Some (i, t')" "o_ref ord = r"
  shows "inv (put t' i ord) \<and> abs (put t' i ord) = (abs t)(r \<mapsto> ord)"
  using ins_law [OF assms(1-3)] put_law [of t' i ord] assms(4) by auto

lemma put_del:
  assumes "inv t" "live t i" "o_ref ord = o_ref (get t i)"
  shows "\<exists>t'. del (put t i ord) i = Some t' \<and> inv t' \<and> abs t' = (abs t)(o_ref ord := None)"
  using put_law [OF assms, of i] del_law [of "put t i ord" i] assms(2) by auto

lemma find_after_insert:
  assumes "inv t" "abs t r = None" "ins t r = Some (i, t')" "o_ref ord = r"
  shows "\<exists>j. find (put t' i ord) r = Some (Some j) \<and> get (put t' i ord) j = ord"
  using find_known [of "put t' i ord" r ord] ins_put [OF assms] by auto

end

definition om_get :: "omap \<Rightarrow> nat \<Rightarrow> order" where
  "om_get m i = slots m ! i"

interpretation best_table: order_table "om_inv (GroupBest b)" om_abs full om_get "om_find (GroupBest b)"
  "om_insert alloc (GroupBest b)" om_put "om_erase (GroupBest b)" for b alloc
proof
  fix m r
  assume inv: "om_inv (GroupBest b) m"
  show "om_find (GroupBest b) m r = Some None \<and> om_abs m r = None \<or>
      (\<exists>i. om_find (GroupBest b) m r = Some (Some i) \<and> full m i \<and> om_abs m r = Some (om_get m i) \<and>
        o_ref (om_get m i) = r)"
    using best_group.find_spec [OF inv, of r] by (auto simp: om_get_def key_of_def)
next
  fix m r i m'
  assume "om_inv (GroupBest b) m" "om_abs m r = None" "om_insert alloc (GroupBest b) m r = Some (i, m')"
  then show "om_inv (GroupBest b) m' \<and> full m' i \<and> o_ref (om_get m' i) = r \<and>
      om_abs m' = (om_abs m)(r \<mapsto> om_get m' i)"
    using best_group.insert_spec [of b m r alloc] by (auto simp: om_get_def)
next
  fix m i j and ord :: order
  assume inv: "om_inv (GroupBest b) m" and f: "full m i" and r: "o_ref ord = o_ref (om_get m i)"
  have "i < length (slots m)" using inv f by (auto simp: om_inv_def om_shape_def full_def)
  then show "om_inv (GroupBest b) (om_put m i ord) \<and> om_abs (om_put m i ord) = (om_abs m)(o_ref ord \<mapsto> ord) \<and>
      full (om_put m i ord) j = full m j \<and> om_get (om_put m i ord) i = ord"
    using best_group.put_spec [OF inv f, of ord j] r by (simp add: om_get_def key_of_def om_put_def)
next
  fix m i
  assume "om_inv (GroupBest b) m" "full m i"
  then show "\<exists>m'. om_erase (GroupBest b) m i = Some m' \<and> om_inv (GroupBest b) m' \<and>
      om_abs m' = (om_abs m)(o_ref (om_get m i) := None)"
    using best_group.erase_spec [of b m i] by (auto simp: om_get_def key_of_def)
qed

section \<open>Properties\<close>

text \<open>
  Triangular probing: from any group, the probe sequence visits every one of the \<open>2\<^sup>k\<close>
  groups within \<open>2\<^sup>k\<close> steps, so a search cannot circle past a group it has not looked at.
\<close>

theorem probe_visits_every_group:
  assumes "group_mask m = 2 ^ k - 1" "g < 2 ^ k"
  shows "(\<lambda>q. probe m g q) ` {..<2 ^ k} = {..<2 ^ k}"
proof
  show "(\<lambda>q. probe m g q) ` {..<2 ^ k} \<subseteq> {..<2 ^ k}"
    by (auto simp: probe_triangular [OF assms])
  show "{..<2 ^ k} \<subseteq> (\<lambda>q. probe m g q) ` {..<2 ^ k}"
    using probe_surj [OF assms] by (force simp: image_iff)
qed

theorem probe_visits_every_group_witness:
  "(\<lambda>q. probe (empty_omap\<lparr>group_mask := 7\<rparr>) 5 q) ` {..<8} = {..<8}"
  using probe_visits_every_group [of "empty_omap\<lparr>group_mask := 7\<rparr>" 3 5] by simp

text \<open>
  C14. \<open>find\<close> is the lookup of the map that the table represents: with every group kernel it
  returns, without leaving the arrays, the slot that holds the order, or no slot exactly if
  the reference is absent (so the slots of erased orders are never returned).
\<close>

theorem om_find_correct:
  assumes "om_inv (GroupBest b) m"
  shows "\<exists>res. om_find (GroupBest b) m r = Some res \<and> map_option (om_get m) res = om_abs m r \<and>
    pred_option (full m) res"
  using best_table.find_law [OF assms, of r] by auto

text \<open>
  C6. \<open>insert\<close> of a new reference adds one order with that reference and keeps all others, also
  across a rehash with growth or a purge of tombstones; the invariant (reachability, unique
  keys, the counts that bound the load) is kept. It fails only when the table has no room left
  and the new arrays cannot be allocated.
\<close>

theorem om_insert_correct:
  assumes "om_inv (GroupBest b) m" "om_abs m r = None"
  shows "(\<exists>idx m' ord. om_insert alloc (GroupBest b) m r = Some (idx, m') \<and> om_inv (GroupBest b) m' \<and>
      full m' idx \<and> om_get m' idx = ord \<and> o_ref ord = r \<and> om_abs m' = (om_abs m)(r \<mapsto> ord) \<and>
      om_size m' = om_size m + 1) \<or>
    (om_insert alloc (GroupBest b) m r = None \<and> growth_left m = 0 \<and>
      (\<exists>groups \<in> {om_capacity m div kWidth (GroupBest b), om_capacity m div kWidth (GroupBest b) * 2}.
         om_allocate alloc (GroupBest b) groups m = None))"
  using best_group.insert_spec [OF assms, of alloc] unfolding om_get_def .

text \<open>
  C15. \<open>erase\<close> removes exactly the order of its slot, and leaves a tombstone only if the
  slot's group has no \<open>EMPTY\<close> byte; no other order becomes unreachable.
\<close>

theorem om_erase_correct:
  assumes "om_inv (GroupBest b) m" "full m idx"
  shows "\<exists>m'. om_erase (GroupBest b) m idx = Some m' \<and> om_inv (GroupBest b) m' \<and>
    om_abs m' = (om_abs m)(key_of m idx := None) \<and> om_size m' + 1 = om_size m \<and>
    (ctrl m' ! idx = kCtrlEmpty \<longleftrightarrow>
      kCtrlEmpty \<in> set (group_of (GroupBest b) m (idx div kWidth (GroupBest b))))"
  using best_group.erase_spec [OF assms] by blast

lemma new_omap_spec:
  assumes "new_omap alloc (GroupBest b) n = Some m"
  shows "om_inv (GroupBest b) m \<and> om_abs m = Map.empty \<and> om_size m = 0 \<and> n \<le> growth_left m"
proof -
  obtain k where k: "groups_for (GroupBest b) n = 2 ^ k" "1 \<le> k" using groups_for_power by metis
  show ?thesis
    using best_group.allocate_spec [OF assms [unfolded new_omap_def k(1)] k(2)]
      best_group.groups_for_room [of n b] by (simp add: k(1))
qed

text \<open>
  A table made for \<open>n\<close> orders starts empty, satisfies the invariant and takes \<open>n\<close> insertions
  into unused slots before it has to rehash.
\<close>

theorem new_omap_presized:
  assumes "new_omap alloc (GroupBest b) n = Some m"
  shows "om_inv (GroupBest b) m \<and> om_abs m = Map.empty \<and> om_size m = 0 \<and> n \<le> growth_left m"
  using assms by (rule new_omap_spec)

section \<open>Witnesses\<close>

lemma sample_omap: "\<exists>m. new_omap (\<lambda>_. True) (GroupBest b) 10 = Some m"
proof -
  have "bit_ceil 1 = 1" "bit_ceil 2 = 2" by (simp_all add: bit_ceil_def bit_width.simps)
  then have "groups_for (GroupBest b) 10 = 2"
    by (cases b) (simp_all add: groups_for_def GroupBest_def GroupSwar_def GroupSse2_def GroupAvx2_def)
  moreover have "kWidth (GroupBest b) \<le> 32"
    by (cases b) (simp_all add: GroupBest_def GroupSwar_def GroupSse2_def GroupAvx2_def)
  ultimately show ?thesis
    by (simp add: new_omap_def om_allocate_def large_buffer_ok_def sizeof_order_def Let_def)
qed

lemma sample_insert:
  "\<exists>m m' i. new_omap (\<lambda>_. True) (GroupBest b) 10 = Some m \<and>
    om_insert (\<lambda>_. True) (GroupBest b) m 42 = Some (i, m') \<and> om_inv (GroupBest b) m' \<and> full m' i \<and>
    key_of m' i = 42 \<and> dom (om_abs m') = {42}"
proof -
  obtain m where m: "new_omap (\<lambda>_. True) (GroupBest b) 10 = Some m" using sample_omap by blast
  note sp = new_omap_spec [OF m]
  show ?thesis
    using best_group.insert_spec [of b m 42 "\<lambda>_. True"] sp m by (auto simp: key_of_def)
qed

theorem new_omap_presized_witness:
  "\<exists>m. new_omap (\<lambda>_. True) (GroupBest Force_Scalar) 10 = Some m \<and> 10 \<le> growth_left m"
  using sample_omap [of Force_Scalar] new_omap_presized [of "\<lambda>_. True" Force_Scalar 10] by blast

theorem om_find_correct_witness:
  "\<exists>m i. dom (om_abs m) = {42} \<and> om_find (GroupBest Have_AVX2) m 42 = Some (Some i) \<and>
    om_find (GroupBest Have_AVX2) m 43 = Some None"
proof -
  obtain m where m: "om_inv (GroupBest Have_AVX2) m" "dom (om_abs m) = {42}"
    using sample_insert [of Have_AVX2] by blast
  have "42 \<in> dom (om_abs m)" "43 \<notin> dom (om_abs m)" unfolding m(2) by simp_all
  then have "om_abs m 42 \<noteq> None" "om_abs m 43 = None" by (simp_all add: domIff)
  then show ?thesis
    using om_find_correct [OF m(1), of 42] om_find_correct [OF m(1), of 43] m(2)
    by (metis map_option_is_None option.exhaust)
qed

theorem om_insert_correct_witness:
  "\<exists>m i m'. new_omap (\<lambda>_. True) (GroupBest Have_SSE41) 10 = Some m \<and>
    om_insert (\<lambda>_. True) (GroupBest Have_SSE41) m 7 = Some (i, m') \<and> dom (om_abs m') = {7} \<and> om_size m' = 1"
proof -
  obtain m where m: "new_omap (\<lambda>_. True) (GroupBest Have_SSE41) 10 = Some m" using sample_omap by blast
  from new_omap_spec [OF m] om_insert_correct [of Have_SSE41 m 7 "\<lambda>_. True"] m show ?thesis by auto
qed

theorem om_erase_correct_witness:
  "\<exists>m i m'. dom (om_abs m) = {42} \<and> full m i \<and> om_erase (GroupBest Have_SSE2) m i = Some m' \<and>
    om_abs m' = Map.empty"
proof -
  obtain m i where m: "om_inv (GroupBest Have_SSE2) m" "full m i" "key_of m i = 42" "dom (om_abs m) = {42}"
    using sample_insert [of Have_SSE2] by blast
  have "x \<notin> dom (om_abs m)" if "x \<noteq> 42" for x using m(4) that by simp
  then have "(om_abs m)(42 := None) = Map.empty" by (intro ext) (auto simp: domIff)
  with om_erase_correct [OF m(1,2)] m show ?thesis by auto
qed

end
