(* ===== verification/Order_Book.thy ===== *)
theory Order_Book
  imports Order_Map Block_Move
begin

text \<open>
  \<^verbatim>\<open>include/itch/order_book.hpp\<close> (\<open>LevelSide\<close>, \<open>OrderBook\<close>) and \<^verbatim>\<open>src/itch/order_book.cpp\<close>: the price
  levels of one side as three parallel arrays, ascending by key with the best level at the
  back, and the two sides of a book. The arrays are lists of their elements (the shifts act on
  elements, which is what the byte moves of \<open>Block_Move\<close> do); an access outside an array and a
  failed allocation are \<open>None\<close>. The abstract side is a map from keys to quantity and count.
\<close>

section \<open>One side of a book\<close>

record level_side =
  ls_keys :: "u32 list"
  ls_qty :: "u64 list"
  ls_orders :: "u32 list"
  ls_size :: nat
  ls_cap :: nat

definition new_side :: level_side where
  "new_side = \<lparr>ls_keys = [], ls_qty = [], ls_orders = [], ls_size = 0, ls_cap = 0\<rparr>"

definition kInitialLevels :: nat where
  "kInitialLevels = 16"

text \<open>\<open>regrow\<close> for elements of \<open>sz\<close> bytes: a fresh zeroed array with the old elements copied in.\<close>

definition regrow :: "(nat \<Rightarrow> bool) \<Rightarrow> nat \<Rightarrow> 'a::zero list \<Rightarrow> nat \<Rightarrow> nat \<Rightarrow> 'a list option" where
  "regrow alloc sz old n cap =
     (if alloc (cap * sz) \<and> n \<le> cap \<and> n \<le> length old
      then Some (take n old @ replicate (cap - n) 0) else None)"

definition ls_grow :: "(nat \<Rightarrow> bool) \<Rightarrow> level_side \<Rightarrow> level_side option" where
  "ls_grow alloc s = do {
     let cap = (if ls_cap s = 0 then kInitialLevels else ls_cap s * 2 mod 2 ^ 32);
     ks \<leftarrow> regrow alloc 4 (ls_keys s) (ls_size s) cap;
     qs \<leftarrow> regrow alloc 8 (ls_qty s) (ls_size s) cap;
     os \<leftarrow> regrow alloc 4 (ls_orders s) (ls_size s) cap;
     Some (s\<lparr>ls_keys := ks, ls_qty := qs, ls_orders := os, ls_cap := cap\<rparr>) }"

definition reserve_initial :: "(nat \<Rightarrow> bool) \<Rightarrow> level_side \<Rightarrow> level_side option" where
  "reserve_initial alloc s = (if ls_cap s = 0 then ls_grow alloc s else Some s)"

definition elem_at :: "'a list \<Rightarrow> nat \<Rightarrow> 'a option" where
  "elem_at xs i = (if i < length xs then Some (xs ! i) else None)"

definition set_at :: "'a list \<Rightarrow> nat \<Rightarrow> 'a \<Rightarrow> 'a list option" where
  "set_at xs i v = (if i < length xs then Some (xs[i := v]) else None)"

definition insert_at :: "'a list \<Rightarrow> nat \<Rightarrow> nat \<Rightarrow> 'a \<Rightarrow> 'a list option" where
  "insert_at xs pos tail v = do {
     ys \<leftarrow> (if tail \<noteq> 0 then shift_up_elems xs pos tail else Some xs);
     set_at ys pos v }"

definition remove_at :: "'a list \<Rightarrow> nat \<Rightarrow> nat \<Rightarrow> 'a list option" where
  "remove_at xs pos tail = (if tail \<noteq> 0 then shift_down_elems xs pos tail else Some xs)"

definition ls_add ::
  "(nat \<Rightarrow> bool) \<Rightarrow> isa \<Rightarrow> level_side \<Rightarrow> u32 \<Rightarrow> u32 \<Rightarrow> (level_side \<times> bool) option" where
  "ls_add alloc b s key shares = do {
     let n = ls_size s;
     pos \<leftarrow> (if n \<noteq> 0 then lower_bound_from_back b (ls_keys s) n key else Some 0);
     hit \<leftarrow> (if pos < n then do { k \<leftarrow> elem_at (ls_keys s) pos; Some (k = key) } else Some False);
     if hit then do {
       q \<leftarrow> elem_at (ls_qty s) pos;
       c \<leftarrow> elem_at (ls_orders s) pos;
       qs \<leftarrow> set_at (ls_qty s) pos (q + ucast shares);
       os \<leftarrow> set_at (ls_orders s) pos (c + 1);
       Some (s\<lparr>ls_qty := qs, ls_orders := os\<rparr>, pos = n - 1) }
     else do {
       s1 \<leftarrow> (if n = ls_cap s then ls_grow alloc s else Some s);
       let tail = n - pos;
       ks \<leftarrow> insert_at (ls_keys s1) pos tail key;
       qs \<leftarrow> insert_at (ls_qty s1) pos tail (ucast shares);
       os \<leftarrow> insert_at (ls_orders s1) pos tail 1;
       Some (s1\<lparr>ls_keys := ks, ls_qty := qs, ls_orders := os, ls_size := n + 1\<rparr>, tail = 0) } }"

datatype reduce_result = KOk | KTopChanged | KMissingLevel

definition ls_reduce ::
  "isa \<Rightarrow> level_side \<Rightarrow> u32 \<Rightarrow> u32 \<Rightarrow> bool \<Rightarrow> (level_side \<times> reduce_result) option" where
  "ls_reduce b s key shares order_gone = do {
     let n = ls_size s;
     if n = 0 then Some (s, KMissingLevel)
     else do {
       pos \<leftarrow> lower_bound_from_back b (ls_keys s) n key;
       hit \<leftarrow> (if pos < n then do { k \<leftarrow> elem_at (ls_keys s) pos; Some (k = key) } else Some False);
       if \<not> hit then Some (s, KMissingLevel)
       else do {
         q \<leftarrow> elem_at (ls_qty s) pos;
         c \<leftarrow> elem_at (ls_orders s) pos;
         let c' = c - (if order_gone then 1 else 0);
         qs \<leftarrow> set_at (ls_qty s) pos (q - ucast shares);
         os \<leftarrow> set_at (ls_orders s) pos c';
         let res = (if pos = n - 1 then KTopChanged else KOk);
         if c' = 0 then do {
           let tail = n - pos - 1;
           ks1 \<leftarrow> remove_at (ls_keys s) pos tail;
           qs1 \<leftarrow> remove_at qs pos tail;
           os1 \<leftarrow> remove_at os pos tail;
           Some (s\<lparr>ls_keys := ks1, ls_qty := qs1, ls_orders := os1, ls_size := n - 1\<rparr>, res) }
         else Some (s\<lparr>ls_qty := qs, ls_orders := os\<rparr>, res) } } }"

text \<open>The accessors count levels from the top; the index arithmetic is unsigned.\<close>

definition top_index :: "level_side \<Rightarrow> nat \<Rightarrow> nat option" where
  "top_index s level = (if level < ls_size s then Some (ls_size s - 1 - level) else None)"

definition ls_key_at :: "level_side \<Rightarrow> nat \<Rightarrow> u32 option" where
  "ls_key_at s level = do { i \<leftarrow> top_index s level; elem_at (ls_keys s) i }"

definition ls_qty_at :: "level_side \<Rightarrow> nat \<Rightarrow> u64 option" where
  "ls_qty_at s level = do { i \<leftarrow> top_index s level; elem_at (ls_qty s) i }"

definition ls_orders_at :: "level_side \<Rightarrow> nat \<Rightarrow> u32 option" where
  "ls_orders_at s level = do { i \<leftarrow> top_index s level; elem_at (ls_orders s) i }"

text \<open>The index of the lines hinted by \<open>prefetch_top\<close>; \<open>None\<close> on an empty side.\<close>

definition prefetch_top :: "level_side \<Rightarrow> nat option" where
  "prefetch_top s = (if ls_size s = 0 then None else Some (ls_size s - 1))"

section \<open>Both sides\<close>

record top_of_book =
  bid_price :: u32
  ask_price :: u32
  bid_qty :: u64
  ask_qty :: u64

record order_book =
  bids :: level_side
  asks :: level_side

definition new_book :: order_book where
  "new_book = \<lparr>bids = new_side, asks = new_side\<rparr>"

definition side_buy :: u8 where
  "side_buy = 0x42"

definition key_for :: "u8 \<Rightarrow> u32 \<Rightarrow> u32" where
  "key_for side price = (if side = side_buy then price else NOT price)"

definition price_of :: "u8 \<Rightarrow> u32 \<Rightarrow> u32" where
  "price_of side key = (if side = side_buy then key else NOT key)"

definition book_side :: "order_book \<Rightarrow> u8 \<Rightarrow> level_side" where
  "book_side bk s = (if s = side_buy then bids bk else asks bk)"

definition set_side :: "order_book \<Rightarrow> u8 \<Rightarrow> level_side \<Rightarrow> order_book" where
  "set_side bk s ls = (if s = side_buy then bk\<lparr>bids := ls\<rparr> else bk\<lparr>asks := ls\<rparr>)"

definition ob_top :: "order_book \<Rightarrow> top_of_book option" where
  "ob_top bk = do {
     (bp, bq) \<leftarrow> (if ls_size (bids bk) = 0 then Some (0, 0)
       else do { p \<leftarrow> ls_key_at (bids bk) 0; q \<leftarrow> ls_qty_at (bids bk) 0; Some (p, q) });
     (ap, aq) \<leftarrow> (if ls_size (asks bk) = 0 then Some (0, 0)
       else do { p \<leftarrow> ls_key_at (asks bk) 0; q \<leftarrow> ls_qty_at (asks bk) 0; Some (NOT p, q) });
     Some \<lparr>bid_price = bp, ask_price = ap, bid_qty = bq, ask_qty = aq\<rparr> }"

definition ob_crossed :: "order_book \<Rightarrow> bool option" where
  "ob_crossed bk =
     (if ls_size (bids bk) = 0 \<or> ls_size (asks bk) = 0 then Some False
      else do {
        x \<leftarrow> ls_key_at (bids bk) 0;
        y \<leftarrow> ls_key_at (asks bk) 0;
        Some (NOT y \<le> x) })"

lemma price_of_key_for [simp]: "price_of s (key_for s p) = p"
  by (simp add: price_of_def key_for_def)

lemma key_for_inj: "key_for s p = key_for s q \<longleftrightarrow> p = q"
  by (metis price_of_key_for)

section \<open>Arrays as lists\<close>

lemma insert_at_eq:
  assumes "n < length xs" "pos \<le> n"
  shows "\<exists>ys. insert_at xs pos (n - pos) v = Some ys \<and> length ys = length xs \<and>
    take (Suc n) ys = take pos xs @ v # drop pos (take n xs)"
proof (cases "n = pos")
  case True
  then show ?thesis using assms by (simp add: insert_at_def set_at_def take_update_swap take_Suc_conv_app_nth
        list_update_append)
next
  case False
  let ?ys = "take (pos + 1) xs @ take (n - pos) (drop pos xs) @ drop (pos + 1 + (n - pos)) xs"
  have ys: "length ?ys = length xs" using assms by simp
  have "take (Suc n) (?ys[pos := v]) = take pos xs @ v # drop pos (take n xs)"
  proof (rule nth_equalityI)
    show "length (take (Suc n) (?ys[pos := v])) = length (take pos xs @ v # drop pos (take n xs))"
      using assms ys by simp
    fix i assume "i < length (take (Suc n) (?ys[pos := v]))"
    then have i: "i < Suc n" by simp
    show "take (Suc n) (?ys[pos := v]) ! i = (take pos xs @ v # drop pos (take n xs)) ! i"
      using i assms by (auto simp: nth_append nth_Cons' nth_list_update)
  qed
  then show ?thesis
    using False assms ys by (simp add: insert_at_def set_at_def shift_up_elems_def)
qed

lemma remove_at_eq:
  assumes "n \<le> length xs" "pos < n"
  shows "\<exists>ys. remove_at xs pos (n - pos - 1) = Some ys \<and> length ys = length xs \<and>
    take (n - 1) ys = take pos xs @ drop (Suc pos) (take n xs)"
proof (cases "n = Suc pos")
  case True
  then show ?thesis using assms by (simp add: remove_at_def)
next
  case False
  let ?ys = "take pos xs @ take (n - pos - 1) (drop (pos + 1) xs) @ drop (pos + (n - pos - 1)) xs"
  have "take (n - 1) ?ys = take pos xs @ drop (Suc pos) (take n xs)"
    using assms False by (simp add: drop_take)
  then show ?thesis using False assms by (simp add: remove_at_def shift_down_elems_def)
qed

section \<open>The levels as a sorted list\<close>

definition levels :: "level_side \<Rightarrow> (u32 \<times> u64 \<times> u32) list" where
  "levels s = zip (take (ls_size s) (ls_keys s)) (zip (take (ls_size s) (ls_qty s)) (take (ls_size s) (ls_orders s)))"

definition ls_shape :: "level_side \<Rightarrow> bool" where
  "ls_shape s \<longleftrightarrow> length (ls_keys s) = ls_cap s \<and> length (ls_qty s) = ls_cap s \<and>
     length (ls_orders s) = ls_cap s \<and> ls_size s \<le> ls_cap s \<and> (ls_cap s = 0 \<or> kInitialLevels \<le> ls_cap s) \<and>
     ls_cap s < 2 ^ 32"

definition ls_inv :: "level_side \<Rightarrow> bool" where
  "ls_inv s \<longleftrightarrow> ls_shape s \<and> sorted_wrt (<) (map fst (levels s)) \<and> (\<forall>(k, q, c) \<in> set (levels s). c \<noteq> 0)"

text \<open>The abstract side: quantity and number of orders per key.\<close>

definition ls_abs :: "level_side \<Rightarrow> u32 \<rightharpoonup> u64 \<times> u32" where
  "ls_abs s = map_of (levels s)"

lemma length_levels: "ls_shape s \<Longrightarrow> length (levels s) = ls_size s"
  by (simp add: levels_def ls_shape_def)

lemma levels_keys: "ls_shape s \<Longrightarrow> map fst (levels s) = take (ls_size s) (ls_keys s)"
  by (simp add: levels_def ls_shape_def)

lemma levels_nth:
  "ls_shape s \<Longrightarrow> i < ls_size s \<Longrightarrow> levels s ! i = (ls_keys s ! i, ls_qty s ! i, ls_orders s ! i)"
  by (simp add: levels_def ls_shape_def)

lemma inv_sorted_keys:
  assumes "ls_inv s"
  shows "sorted_keys (ls_keys s) (ls_size s)" "0 < ls_size s \<Longrightarrow> kLevelSearchPad \<le> length (ls_keys s)"
proof -
  have sh: "ls_shape s" using assms by (simp add: ls_inv_def)
  then have "sorted_wrt (<) (take (ls_size s) (ls_keys s))"
    using assms levels_keys [OF sh] by (simp add: ls_inv_def)
  then show "sorted_keys (ls_keys s) (ls_size s)"
    using sh by (simp add: sorted_keys_def ls_shape_def strict_sorted_imp_sorted)
  show "0 < ls_size s \<Longrightarrow> kLevelSearchPad \<le> length (ls_keys s)"
    using sh by (auto simp: ls_shape_def kLevelSearchPad_def kInitialLevels_def)
qed

lemma search_pos:
  assumes "ls_inv s"
  shows "(if ls_size s \<noteq> 0 then lower_bound_from_back b (ls_keys s) (ls_size s) key else Some 0) =
    Some (lower_bound (ls_keys s) (ls_size s) key)"
proof (cases "ls_size s = 0")
  case True
  then show ?thesis using lower_bound_le [of "ls_keys s" "ls_size s" key] by simp
next
  case False
  then show ?thesis using best_search.search_eq inv_sorted_keys [OF assms] by simp
qed

text \<open>The position of a key in a strictly ascending level list.\<close>

definition level_pos :: "(u32 \<times> 'v) list \<Rightarrow> u32 \<Rightarrow> nat" where
  "level_pos lv key = length (takeWhile (\<lambda>k. k < key) (map fst lv))"

lemma level_pos_levels:
  "ls_shape s \<Longrightarrow> lower_bound (ls_keys s) (ls_size s) key = level_pos (levels s) key"
  by (simp add: lower_bound_def level_pos_def levels_keys)

lemma level_split:
  fixes key :: u32
  assumes "sorted_wrt (<) (map fst lv)"
  defines "p \<equiv> level_pos lv key"
  shows "p \<le> length lv" "\<forall>k \<in> fst ` set (take p lv). k < key" "\<forall>k \<in> fst ` set (drop p lv). key \<le> k"
proof -
  show p: "p \<le> length lv"
    unfolding p_def level_pos_def by (metis length_map length_takeWhile_le)
  have t: "map fst (take p lv) = takeWhile (\<lambda>k. k < key) (map fst lv)"
    by (simp add: p_def level_pos_def take_map [symmetric] takeWhile_eq_take [symmetric])
  then have "set (map fst (take p lv)) \<subseteq> {k. k < key}" by (metis mem_Collect_eq set_takeWhileD subsetI)
  then show "\<forall>k \<in> fst ` set (take p lv). k < key" by auto
  have d: "map fst (drop p lv) = dropWhile (\<lambda>k. k < key) (map fst lv)"
    by (simp add: p_def level_pos_def drop_map [symmetric] dropWhile_eq_drop [symmetric])
  show "\<forall>k \<in> fst ` set (drop p lv). key \<le> k"
  proof (cases "drop p lv")
    case Nil
    then show ?thesis by simp
  next
    case (Cons x xs)
    then have "\<not> fst x < key"
      using d hd_dropWhile [of "\<lambda>k. k < key" "map fst lv"] by (metis list.sel(1) list.simps(3) list.simps(9))
    moreover have "sorted_wrt (<) (map fst (drop p lv))"
      using assms by (simp add: drop_map [symmetric] sorted_wrt_drop)
    ultimately show ?thesis using Cons by fastforce
  qed
qed

lemma level_hit:
  fixes key :: u32
  assumes "sorted_wrt (<) (map fst lv)"
  defines "p \<equiv> level_pos lv key"
  shows "map_of lv key = (if p < length lv \<and> fst (lv ! p) = key then Some (snd (lv ! p)) else None)"
proof (cases "p < length lv \<and> fst (lv ! p) = key")
  case True
  have "distinct (map fst lv)" using assms strict_sorted_iff by blast
  moreover have "(key, snd (lv ! p)) \<in> set lv" using True by (metis nth_mem prod.collapse)
  ultimately show ?thesis using True by simp
next
  case False
  note sp = level_split [OF assms(1), of key, folded p_def]
  have "key \<notin> fst ` set lv"
  proof
    assume "key \<in> fst ` set lv"
    then have "key \<in> fst ` set (drop p lv)"
      using sp(2) by (metis Un_iff append_take_drop_id image_Un less_irrefl set_append)
    then obtain j where j: "j < length (drop p lv)" "fst (drop p lv ! j) = key"
      by (auto simp: in_set_conv_nth image_iff)
    show False
    proof (cases "j = 0")
      case True
      then show False using j False sp(1) by simp
    next
      case jn: False
      have "fst (lv ! p) < fst (lv ! (p + j))"
        using sorted_wrt_nth_less [OF assms(1), of p "p + j"] jn j by simp
      then have "fst (lv ! p) < key" using j sp(1) by simp
      moreover have "key \<le> fst (lv ! p)"
        using sp(3) j by (metis Cons_nth_drop_Suc add_lessD1 image_eqI length_drop less_diff_conv2
            list.set_intros(1) add.commute not_add_less1 leI diff_is_0_eq' less_nat_zero_code)
      ultimately show False by simp
    qed
  qed
  then have "map_of lv key = None" using map_of_eq_None_iff by metis
  then show ?thesis using False by auto
qed

lemma map_of_insert_mid:
  assumes "k \<notin> fst ` set (xs @ ys)"
  shows "map_of (xs @ (k, v) # ys) = (map_of (xs @ ys))(k \<mapsto> v)"
proof -
  have "map_of xs k = None" unfolding map_of_eq_None_iff using assms by auto
  then show ?thesis by (auto simp: map_add_def split: option.splits)
qed

lemma map_of_update_at:
  assumes "distinct (map fst lv)" "p < length lv"
  shows "map_of (lv[p := (fst (lv ! p), v)]) = (map_of lv)(fst (lv ! p) \<mapsto> v)"
proof -
  have lv: "lv = take p lv @ (fst (lv ! p), snd (lv ! p)) # drop (Suc p) lv"
    using id_take_nth_drop [OF assms(2)] by simp
  have n: "fst (lv ! p) \<notin> fst ` set (take p lv @ drop (Suc p) lv)"
    using assms(1) by (subst (asm) lv) auto
  have "lv[p := (fst (lv ! p), v)] = take p lv @ (fst (lv ! p), v) # drop (Suc p) lv"
    using assms(2) by (simp add: upd_conv_take_nth_drop)
  then have "map_of (lv[p := (fst (lv ! p), v)]) =
      (map_of (take p lv @ drop (Suc p) lv))(fst (lv ! p) \<mapsto> v)"
    using map_of_insert_mid [OF n] by simp
  moreover have "map_of lv = (map_of (take p lv @ drop (Suc p) lv))(fst (lv ! p) \<mapsto> snd (lv ! p))"
    using map_of_insert_mid [OF n, of "snd (lv ! p)"] arg_cong [OF lv, of map_of] by (rule trans [rotated])
  ultimately show ?thesis by simp
qed

lemma map_of_remove_at:
  assumes "distinct (map fst lv)" "p < length lv"
  shows "map_of (take p lv @ drop (Suc p) lv) = (map_of lv)(fst (lv ! p) := None)"
proof -
  have lv: "lv = take p lv @ (fst (lv ! p), snd (lv ! p)) # drop (Suc p) lv"
    using id_take_nth_drop [OF assms(2)] by simp
  have n: "fst (lv ! p) \<notin> fst ` set (take p lv @ drop (Suc p) lv)"
    using assms(1) by (subst (asm) lv) auto
  then have "map_of (take p lv @ drop (Suc p) lv) (fst (lv ! p)) = None"
    by (simp only: map_of_eq_None_iff) simp
  then show ?thesis
    using trans [OF arg_cong [OF lv, of map_of] map_of_insert_mid [OF n, of "snd (lv ! p)"]]
    by (metis fun_upd_triv fun_upd_upd)
qed

lemma top_position:
  fixes lv :: "(u32 \<times> 'v) list"
  assumes "sorted_wrt (<) (map fst lv)" "p < length lv"
  shows "p = length lv - 1 \<longleftrightarrow> (\<forall>k \<in> fst ` set lv. k \<le> fst (lv ! p))"
proof
  assume p: "p = length lv - 1"
  show "\<forall>k \<in> fst ` set lv. k \<le> fst (lv ! p)"
  proof
    fix k assume "k \<in> fst ` set lv"
    then obtain i where i: "i < length lv" "k = fst (lv ! i)" by (auto simp: in_set_conv_nth)
    then show "k \<le> fst (lv ! p)"
      using sorted_wrt_nth_less [OF assms(1), of i p] p assms(2)
      by (cases "i = p") (auto intro: less_imp_le)
  qed
next
  assume all: "\<forall>k \<in> fst ` set lv. k \<le> fst (lv ! p)"
  show "p = length lv - 1"
  proof (rule ccontr)
    assume "p \<noteq> length lv - 1"
    then have "p < length lv - 1" using assms(2) by simp
    then have "fst (lv ! p) < fst (lv ! (length lv - 1))"
      using sorted_wrt_nth_less [OF assms(1), of p "length lv - 1"] by simp
    moreover have "lv ! (length lv - 1) \<in> set lv" using assms(2) by simp
    ultimately show False using all by fastforce
  qed
qed

lemma levels_update:
  assumes "ls_shape s" "i < ls_size s"
  shows "levels (s\<lparr>ls_qty := (ls_qty s)[i := q], ls_orders := (ls_orders s)[i := c]\<rparr>) =
    (levels s)[i := (ls_keys s ! i, q, c)]"
proof (rule nth_equalityI)
  fix j
  let ?s = "s\<lparr>ls_qty := (ls_qty s)[i := q], ls_orders := (ls_orders s)[i := c]\<rparr>"
  have sh: "ls_shape ?s" using assms(1) by (simp add: ls_shape_def)
  assume "j < length (levels ?s)"
  then have j: "j < ls_size s" using length_levels [OF sh] by simp
  have "i < length (ls_qty s)" "i < length (ls_orders s)" using assms by (auto simp: ls_shape_def)
  then show "levels ?s ! j = (levels s)[i := (ls_keys s ! i, q, c)] ! j"
    using j levels_nth [OF sh, of j] levels_nth [OF assms(1) j] length_levels [OF assms(1)]
    by (cases "i = j") simp_all
qed (use assms in \<open>simp add: levels_def ls_shape_def\<close>)

lemma levels_of_takes:
  assumes "take n ks = K" "take n qs = Q" "take n os = C"
  shows "levels (s\<lparr>ls_keys := ks, ls_qty := qs, ls_orders := os, ls_size := n\<rparr>) = zip K (zip Q C)"
  using assms by (simp add: levels_def)

lemma zip3_insert:
  "length K = length Q \<Longrightarrow> length Q = length C \<Longrightarrow> p \<le> length K \<Longrightarrow>
   zip (take p K @ k # drop p K) (zip (take p Q @ q # drop p Q) (take p C @ c # drop p C)) =
     take p (zip K (zip Q C)) @ (k, q, c) # drop p (zip K (zip Q C))"
  by (simp add: take_zip drop_zip)

lemma zip3_remove:
  "length K = length Q \<Longrightarrow> length Q = length C \<Longrightarrow> p < length K \<Longrightarrow>
   zip (take p K @ drop (Suc p) K) (zip (take p Q @ drop (Suc p) Q) (take p C @ drop (Suc p) C)) =
     take p (zip K (zip Q C)) @ drop (Suc p) (zip K (zip Q C))"
  by (simp add: take_zip drop_zip)

lemma regrow_Some:
  "regrow alloc sz old n cap = Some ys \<Longrightarrow>
     n \<le> cap \<and> n \<le> length old \<and> length ys = cap \<and> take n ys = take n old"
  by (auto simp: regrow_def split: if_splits)

lemma grow_spec:
  assumes "ls_shape s" "ls_size s = ls_cap s" "ls_grow alloc s = Some s'"
  shows "ls_shape s' \<and> levels s' = levels s \<and> ls_size s' = ls_size s \<and> ls_size s < ls_cap s'"
proof -
  let ?cap = "if ls_cap s = 0 then kInitialLevels else ls_cap s * 2 mod 2 ^ 32"
  obtain ks qs os where r: "regrow alloc 4 (ls_keys s) (ls_size s) ?cap = Some ks"
    "regrow alloc 8 (ls_qty s) (ls_size s) ?cap = Some qs"
    "regrow alloc 4 (ls_orders s) (ls_size s) ?cap = Some os"
    "s' = s\<lparr>ls_keys := ks, ls_qty := qs, ls_orders := os, ls_cap := ?cap\<rparr>"
    using assms(3) by (auto simp: ls_grow_def Let_def Option.bind_eq_Some_conv)
  note R = regrow_Some [OF r(1)] regrow_Some [OF r(2)] regrow_Some [OF r(3)]
  have cap: "ls_cap s = 0 \<or> 16 \<le> ls_cap s" "ls_cap s < 2 ^ 32" "ls_cap s \<le> ?cap"
    using assms R by (simp_all add: ls_shape_def kInitialLevels_def)
  have big: "ls_cap s < ?cap \<and> kInitialLevels \<le> ?cap \<and> ?cap < 2 ^ 32"
  proof (cases "ls_cap s = 0")
    case True
    then show ?thesis by (simp add: kInitialLevels_def)
  next
    case False
    have "ls_cap s * 2 < 2 ^ 32"
    proof (rule ccontr)
      assume n: "\<not> ?thesis"
      then have "ls_cap s * 2 mod 2 ^ 32 = ls_cap s * 2 - 2 ^ 32"
        using cap(2) by (simp add: le_mod_geq)
      then show False using cap n False by simp
    qed
    then show ?thesis using False cap(1) by (simp add: kInitialLevels_def)
  qed
  show ?thesis using R big assms(1,2) by (simp add: r(4) ls_shape_def levels_def)
qed

text \<open>
  \<open>add\<close>: the level of the key gains the shares and one order, or a level of one order is
  inserted; the flag says whether the key is at the top afterwards. It fails only when a full
  side cannot grow.
\<close>

definition add_level :: "(u32 \<rightharpoonup> u64 \<times> u32) \<Rightarrow> u32 \<Rightarrow> u32 \<Rightarrow> (u32 \<rightharpoonup> u64 \<times> u32)" where
  "add_level lv key shares = lv(key \<mapsto> (case lv key of
     None \<Rightarrow> (ucast shares, 1)
   | Some (q, c) \<Rightarrow> (q + ucast shares, c + 1)))"

text \<open>The facts about a side that both operations start from.\<close>

abbreviation pos_of :: "level_side \<Rightarrow> u32 \<Rightarrow> nat" where
  "pos_of s key \<equiv> level_pos (levels s) key"

lemma side_facts:
  assumes "ls_inv s"
  shows "ls_shape s" "sorted_wrt (<) (map fst (levels s))" "distinct (map fst (levels s))"
    "\<forall>(k, q, c) \<in> set (levels s). c \<noteq> 0" "length (levels s) = ls_size s"
    "ls_size s \<le> length (ls_keys s)" "ls_size s \<le> length (ls_qty s)" "ls_size s \<le> length (ls_orders s)"
    "dom (ls_abs s) = fst ` set (levels s)" "pos_of s key \<le> ls_size s"
proof -
  show sh: "ls_shape s" and srt: "sorted_wrt (<) (map fst (levels s))"
    and "\<forall>(k, q, c) \<in> set (levels s). c \<noteq> 0" using assms by (simp_all add: ls_inv_def)
  show "distinct (map fst (levels s))" using srt strict_sorted_iff by blast
  show ln: "length (levels s) = ls_size s" by (rule length_levels [OF sh])
  show "ls_size s \<le> length (ls_keys s)" "ls_size s \<le> length (ls_qty s)" "ls_size s \<le> length (ls_orders s)"
    using sh by (simp_all add: ls_shape_def)
  show "dom (ls_abs s) = fst ` set (levels s)" by (simp add: ls_abs_def dom_map_of_conv_image_fst)
  show "pos_of s key \<le> ls_size s" using level_split(1) [OF srt, of key] ln by simp
qed

lemma search_hit:
  assumes "ls_inv s"
  shows "(if ls_size s \<noteq> 0 then lower_bound_from_back b (ls_keys s) (ls_size s) key else Some 0) =
      Some (pos_of s key)"
    "(if pos_of s key < ls_size s
      then do { k \<leftarrow> elem_at (ls_keys s) (pos_of s key); Some (k = key) } else Some False) =
      Some (key \<in> dom (ls_abs s))"
    "ls_abs s key = (if key \<in> dom (ls_abs s)
      then Some (ls_qty s ! pos_of s key, ls_orders s ! pos_of s key) else None)"
    "key \<in> dom (ls_abs s) \<Longrightarrow> pos_of s key < ls_size s \<and> ls_keys s ! pos_of s key = key"
proof -
  note f = side_facts [OF assms]
  show "(if ls_size s \<noteq> 0 then lower_bound_from_back b (ls_keys s) (ls_size s) key else Some 0) =
      Some (pos_of s key)"
    using search_pos [OF assms] level_pos_levels [OF f(1)] by simp
  have h: "ls_abs s key = (if pos_of s key < ls_size s \<and> ls_keys s ! pos_of s key = key
      then Some (ls_qty s ! pos_of s key, ls_orders s ! pos_of s key) else None)"
    using level_hit [OF f(2), of key] f(5) levels_nth [OF f(1)] by (auto simp: ls_abs_def)
  then have d: "key \<in> dom (ls_abs s) \<longleftrightarrow> pos_of s key < ls_size s \<and> ls_keys s ! pos_of s key = key"
    by (simp add: domIff)
  with h show "ls_abs s key = (if key \<in> dom (ls_abs s)
      then Some (ls_qty s ! pos_of s key, ls_orders s ! pos_of s key) else None)" by simp
  from d show "key \<in> dom (ls_abs s) \<Longrightarrow> pos_of s key < ls_size s \<and> ls_keys s ! pos_of s key = key" by simp
  from d show "(if pos_of s key < ls_size s
      then do { k \<leftarrow> elem_at (ls_keys s) (pos_of s key); Some (k = key) } else Some False) =
      Some (key \<in> dom (ls_abs s))"
    using f(6) by (simp add: elem_at_def)
qed

text \<open>Overwriting the entry of a key that is present, and the position of the top.\<close>

lemma update_present:
  fixes q :: u64
  assumes inv: "ls_inv s" and k: "key \<in> dom (ls_abs s)" and c: "c \<noteq> 0"
  defines "s' \<equiv> s\<lparr>ls_qty := (ls_qty s)[pos_of s key := q], ls_orders := (ls_orders s)[pos_of s key := c]\<rparr>"
  shows "ls_inv s' \<and> ls_abs s' = (ls_abs s)(key \<mapsto> (q, c))"
proof -
  note f = side_facts [OF inv]
  note p = search_hit(4) [OF inv k]
  let ?p = "pos_of s key"
  have e: "fst (levels s ! ?p) = key" using levels_nth [OF f(1)] p by simp
  have lv: "levels s' = (levels s)[?p := (fst (levels s ! ?p), q, c)]"
    unfolding s'_def using levels_update [OF f(1)] p e by simp
  have "map fst (levels s') = map fst (levels s)"
  proof -
    have "?p < length (levels s)" using p f(5) by simp
    then have "fst (levels s ! ?p) = map fst (levels s) ! ?p" by simp
    then show ?thesis unfolding lv map_update fst_conv by (simp only: list_update_id)
  qed
  moreover have "\<forall>(k, q, c) \<in> set (levels s'). c \<noteq> 0"
    unfolding lv using f(4) c by (auto dest!: set_update_subset_insert [THEN subsetD])
  moreover have "ls_shape s'" using f(1) by (simp add: ls_shape_def s'_def)
  ultimately have "ls_inv s'" using f(2) by (simp add: ls_inv_def)
  moreover have "ls_abs s' = (ls_abs s)(key \<mapsto> (q, c))"
    using map_of_update_at [OF f(3), of ?p "(q, c)"] p f(5) e unfolding ls_abs_def lv by simp
  ultimately show ?thesis by simp
qed

lemma top_present:
  assumes "ls_inv s" "key \<in> dom (ls_abs s)"
  shows "pos_of s key = ls_size s - 1 \<longleftrightarrow> (\<forall>k \<in> dom (ls_abs s). k \<le> key)"
  using top_position [OF side_facts(2) [OF assms(1)], of "pos_of s key"] search_hit(4) [OF assms]
    side_facts(5,9) [OF assms(1)] levels_nth [OF side_facts(1) [OF assms(1)]] by simp

text \<open>Inserting a level into arrays with room.\<close>

lemma insert_level:
  assumes inv: "ls_inv s" and k: "key \<notin> dom (ls_abs s)"
    and s1: "ls_shape s1" "levels s1 = levels s" "ls_size s1 = ls_size s" "ls_size s < ls_cap s1"
  defines "p \<equiv> pos_of s key" and "n \<equiv> ls_size s"
  shows "\<exists>ks qs os. insert_at (ls_keys s1) p (n - p) key = Some ks \<and>
    insert_at (ls_qty s1) p (n - p) q = Some qs \<and> insert_at (ls_orders s1) p (n - p) 1 = Some os \<and>
    ls_shape (s1\<lparr>ls_keys := ks, ls_qty := qs, ls_orders := os, ls_size := n + 1\<rparr>) \<and>
    levels (s1\<lparr>ls_keys := ks, ls_qty := qs, ls_orders := os, ls_size := n + 1\<rparr>) =
      take p (levels s) @ (key, q, 1) # drop p (levels s)"
proof -
  have l: "n < length (ls_keys s1)" "n < length (ls_qty s1)" "n < length (ls_orders s1)"
    using s1 by (simp_all add: ls_shape_def n_def)
  have pn: "p \<le> n" using side_facts(10) [OF inv] by (simp add: p_def n_def)
  obtain ks qs os where i: "insert_at (ls_keys s1) p (n - p) key = Some ks" "length ks = length (ls_keys s1)"
      "take (Suc n) ks = take p (ls_keys s1) @ key # drop p (take n (ls_keys s1))"
    "insert_at (ls_qty s1) p (n - p) q = Some qs" "length qs = length (ls_qty s1)"
      "take (Suc n) qs = take p (ls_qty s1) @ q # drop p (take n (ls_qty s1))"
    "insert_at (ls_orders s1) p (n - p) 1 = Some os" "length os = length (ls_orders s1)"
      "take (Suc n) os = take p (ls_orders s1) @ 1 # drop p (take n (ls_orders s1))"
    using insert_at_eq [OF l(1) pn, of key] insert_at_eq [OF l(2) pn, of q]
      insert_at_eq [OF l(3) pn, of 1] by metis
  have tk: "take p (ls_keys s1) = take p (take n (ls_keys s1))"
    "take p (ls_qty s1) = take p (take n (ls_qty s1))"
    "take p (ls_orders s1) = take p (take n (ls_orders s1))" using pn by simp_all
  let ?s = "s1\<lparr>ls_keys := ks, ls_qty := qs, ls_orders := os, ls_size := n + 1\<rparr>"
  have "levels ?s = zip (take (Suc n) ks) (zip (take (Suc n) qs) (take (Suc n) os))"
    by (simp add: levels_def)
  also have "\<dots> = take p (levels s1) @ (key, q, 1) # drop p (levels s1)"
    unfolding i(3) i(6) i(9) tk levels_def s1(3) n_def [symmetric]
    by (rule zip3_insert) (use l pn in simp_all)
  finally have "levels ?s = take p (levels s) @ (key, q, 1) # drop p (levels s)" by (simp only: s1(2))
  moreover have "ls_shape ?s" using s1 i(2,5,8) by (simp add: ls_shape_def n_def)
  ultimately show ?thesis using i(1,4,7) by blast
qed

lemma inserted_inv:
  assumes inv: "ls_inv s" and k: "key \<notin> dom (ls_abs s)" and sh: "ls_shape s'"
    and lv: "levels s' = take (pos_of s key) (levels s) @ (key, q, 1) # drop (pos_of s key) (levels s)"
  shows "ls_inv s' \<and> ls_abs s' = (ls_abs s)(key \<mapsto> (q, 1))"
proof -
  note f = side_facts [OF inv]
  note sp = level_split [OF f(2), of key]
  let ?A = "take (pos_of s key) (levels s)" and ?B = "drop (pos_of s key) (levels s)"
  have nk: "key \<notin> fst ` set (?A @ ?B)" using k f(9) by simp
  have "\<forall>x \<in> fst ` set ?B. key < x"
    using sp(3) nk by (metis Un_iff image_Un le_neq_trans set_append)
  moreover have "sorted_wrt (<) (map fst ?A)" "sorted_wrt (<) (map fst ?B)"
    using f(2) by (simp_all add: take_map [symmetric] drop_map [symmetric] sorted_wrt_take sorted_wrt_drop)
  ultimately have "sorted_wrt (<) (map fst (levels s'))"
    unfolding lv using sp(2) by (fastforce simp: sorted_wrt_append)
  moreover have "\<forall>(k, q, c) \<in> set (levels s'). c \<noteq> 0"
    unfolding lv using f(4) by (auto dest: in_set_takeD in_set_dropD)
  ultimately have "ls_inv s'" using sh by (simp add: ls_inv_def)
  moreover have "ls_abs s' = (ls_abs s)(key \<mapsto> (q, 1))"
    using map_of_insert_mid [OF nk, of "(q, 1)"] unfolding ls_abs_def lv by simp
  ultimately show ?thesis by simp
qed

lemma top_absent:
  assumes inv: "ls_inv s" and k: "key \<notin> dom (ls_abs s)"
  shows "ls_size s - pos_of s key = 0 \<longleftrightarrow> (\<forall>k \<in> dom (ls_abs s). k \<le> key)"
proof (cases "pos_of s key = ls_size s")
  case True
  then have "take (pos_of s key) (levels s) = levels s" using side_facts(5) [OF inv] by simp
  then show ?thesis using level_split(2) [OF side_facts(2) [OF inv], of key] True
    unfolding side_facts(9) [OF inv] by (metis diff_self_eq_0 less_imp_le)
next
  case pl: False
  note f = side_facts [OF inv]
  let ?p = "pos_of s key"
  have pn: "?p \<le> ls_size s" by (rule f(10))
  then have "levels s ! ?p \<in> set (drop ?p (levels s))" using pl f(5)
    by (metis Cons_nth_drop_Suc le_neq_implies_less list.set_intros(1))
  then have "key \<le> fst (levels s ! ?p)" "fst (levels s ! ?p) \<in> fst ` set (levels s)"
    using level_split(3) [OF f(2), of key] by (auto dest: in_set_dropD)
  moreover have "fst (levels s ! ?p) \<noteq> key" using calculation(2) k unfolding f(9) by metis
  ultimately have "\<not> (\<forall>k \<in> dom (ls_abs s). k \<le> key)" unfolding f(9) by (metis antisym)
  then show ?thesis using pl pn by simp
qed

lemma add_spec:
  assumes inv: "ls_inv s" and cnt: "\<And>q c. ls_abs s key = Some (q, c) \<Longrightarrow> c + 1 \<noteq> 0"
  shows "(\<exists>s' t. ls_add alloc b s key shares = Some (s', t) \<and> ls_inv s' \<and>
      ls_abs s' = add_level (ls_abs s) key shares \<and> (t \<longleftrightarrow> (\<forall>k \<in> dom (ls_abs s). k \<le> key))) \<or>
    (ls_add alloc b s key shares = None \<and> ls_size s = ls_cap s \<and> ls_grow alloc s = None)"
proof (cases "key \<in> dom (ls_abs s)")
  case True
  note h = search_hit [OF inv] and f = side_facts [OF inv]
  let ?p = "pos_of s key"
  have abs: "ls_abs s key = Some (ls_qty s ! ?p, ls_orders s ! ?p)" using h(3) True by simp
  let ?s = "s\<lparr>ls_qty := (ls_qty s)[?p := ls_qty s ! ?p + ucast shares],
    ls_orders := (ls_orders s)[?p := ls_orders s ! ?p + 1]\<rparr>"
  have "ls_add alloc b s key shares = Some (?s, ?p = ls_size s - 1)"
    unfolding ls_add_def Let_def h(1) h(2) bind.bind_lunit
    using True h(4) [OF True] f(7,8) by (simp add: elem_at_def set_at_def)
  then show ?thesis
    using update_present [OF inv True cnt [OF abs]] top_present [OF inv True]
    by (auto simp: add_level_def abs)
next
  case False
  note h = search_hit [OF inv] and f = side_facts [OF inv]
  let ?p = "pos_of s key" and ?n = "ls_size s"
  have none: "ls_abs s key = None" using False unfolding domIff by blast
  show ?thesis
  proof (cases "if ?n = ls_cap s then ls_grow alloc s else Some s")
    case None
    then have "ls_add alloc b s key shares = None"
      unfolding ls_add_def Let_def h(1) h(2) bind.bind_lunit using False by simp
    with None show ?thesis by (auto split: if_splits)
  next
    case (Some s1)
    have s1: "ls_shape s1" "levels s1 = levels s" "ls_size s1 = ?n" "?n < ls_cap s1"
    proof -
      have "ls_size s \<le> ls_cap s" using f(1) by (simp add: ls_shape_def)
      then have "ls_shape s1 \<and> levels s1 = levels s \<and> ls_size s1 = ?n \<and> ?n < ls_cap s1"
        using grow_spec [OF f(1), of alloc s1] Some f(1) by (cases "?n = ls_cap s") simp_all
      then show "ls_shape s1" "levels s1 = levels s" "ls_size s1 = ?n" "?n < ls_cap s1" by simp_all
    qed
    obtain ks qs os where i: "insert_at (ls_keys s1) ?p (?n - ?p) key = Some ks"
      "insert_at (ls_qty s1) ?p (?n - ?p) (ucast shares) = Some qs"
      "insert_at (ls_orders s1) ?p (?n - ?p) 1 = Some os"
      "ls_shape (s1\<lparr>ls_keys := ks, ls_qty := qs, ls_orders := os, ls_size := ?n + 1\<rparr>)"
      "levels (s1\<lparr>ls_keys := ks, ls_qty := qs, ls_orders := os, ls_size := ?n + 1\<rparr>) =
        take ?p (levels s) @ (key, ucast shares, 1) # drop ?p (levels s)"
      using insert_level [OF inv False s1, of "ucast shares"] by blast
    let ?s = "s1\<lparr>ls_keys := ks, ls_qty := qs, ls_orders := os, ls_size := ?n + 1\<rparr>"
    have "ls_add alloc b s key shares = Some (?s, ?n - ?p = 0)"
      unfolding ls_add_def Let_def h(1) h(2) bind.bind_lunit using False Some i(1-3) by simp
    then show ?thesis
      using inserted_inv [OF inv False i(4,5)] top_absent [OF inv False]
      by (auto simp: add_level_def none)
  qed
qed

text \<open>
  \<open>reduce\<close>: an absent key is reported and changes nothing; a present level loses the shares
  and, with the order, one of its count, and disappears with its last order.
\<close>

definition reduce_level ::
  "(u32 \<rightharpoonup> u64 \<times> u32) \<Rightarrow> u32 \<Rightarrow> u32 \<Rightarrow> bool \<Rightarrow> (u32 \<rightharpoonup> u64 \<times> u32)" where
  "reduce_level lv key shares gone = (case lv key of
     None \<Rightarrow> lv
   | Some (q, c) \<Rightarrow>
       let c' = c - (if gone then 1 else 0) in
       if c' = 0 then lv(key := None) else lv(key \<mapsto> (q - ucast shares, c')))"

lemma remove_level:
  assumes inv: "ls_inv s" and k: "key \<in> dom (ls_abs s)"
  defines "p \<equiv> pos_of s key" and "n \<equiv> ls_size s"
  shows "\<exists>ks qs os. remove_at (ls_keys s) p (n - p - 1) = Some ks \<and>
    remove_at ((ls_qty s)[p := q]) p (n - p - 1) = Some qs \<and>
    remove_at ((ls_orders s)[p := c]) p (n - p - 1) = Some os \<and>
    ls_inv (s\<lparr>ls_keys := ks, ls_qty := qs, ls_orders := os, ls_size := n - 1\<rparr>) \<and>
    ls_abs (s\<lparr>ls_keys := ks, ls_qty := qs, ls_orders := os, ls_size := n - 1\<rparr>) = (ls_abs s)(key := None)"
proof -
  note f = side_facts [OF inv]
  have p: "p < n" "ls_keys s ! p = key" using search_hit(4) [OF inv k] by (simp_all add: p_def n_def)
  have l: "n \<le> length (ls_keys s)" "n \<le> length ((ls_qty s)[p := q])" "n \<le> length ((ls_orders s)[p := c])"
    using f(6-8) by (simp_all add: n_def)
  obtain ks qs os where r: "remove_at (ls_keys s) p (n - p - 1) = Some ks" "length ks = length (ls_keys s)"
      "take (n - 1) ks = take p (ls_keys s) @ drop (Suc p) (take n (ls_keys s))"
    "remove_at ((ls_qty s)[p := q]) p (n - p - 1) = Some qs" "length qs = length ((ls_qty s)[p := q])"
      "take (n - 1) qs = take p ((ls_qty s)[p := q]) @ drop (Suc p) (take n ((ls_qty s)[p := q]))"
    "remove_at ((ls_orders s)[p := c]) p (n - p - 1) = Some os" "length os = length ((ls_orders s)[p := c])"
      "take (n - 1) os = take p ((ls_orders s)[p := c]) @ drop (Suc p) (take n ((ls_orders s)[p := c]))"
    using remove_at_eq [OF l(1) p(1)] remove_at_eq [OF l(2) p(1)] remove_at_eq [OF l(3) p(1)] by metis
  let ?s = "s\<lparr>ls_keys := ks, ls_qty := qs, ls_orders := os, ls_size := n - 1\<rparr>"
  have tk: "take p (xs[p := v]) = take p (take n xs)"
      "drop (Suc p) (take n (xs[p := v])) = drop (Suc p) (take n xs)"
      "take p xs = take p (take n xs)" for xs :: "'x list" and v
    using p(1) by (simp_all add: take_update_swap [of n] take_update_cancel)
  have "levels ?s = zip (take (n - 1) ks) (zip (take (n - 1) qs) (take (n - 1) os))"
    by (simp add: levels_def)
  also have "\<dots> = zip (take p (take n (ls_keys s)) @ drop (Suc p) (take n (ls_keys s)))
      (zip (take p (take n (ls_qty s)) @ drop (Suc p) (take n (ls_qty s)))
        (take p (take n (ls_orders s)) @ drop (Suc p) (take n (ls_orders s))))"
    unfolding r(3) r(6) r(9) tk(1,2) tk(3) [of "ls_keys s"] by (rule refl)
  also have "\<dots> = take p (levels s) @ drop (Suc p) (levels s)"
    unfolding levels_def n_def [symmetric] by (rule zip3_remove) (use l p in simp_all)
  finally have lv: "levels ?s = take p (levels s) @ drop (Suc p) (levels s)" .
  have "sorted_wrt (<) (map fst (levels ?s))"
    using f(2) unfolding lv
    by (subst (asm) id_take_nth_drop [of p]) (use p f(5) in \<open>auto simp: sorted_wrt_append n_def\<close>)
  moreover have "\<forall>(k, q, c) \<in> set (levels ?s). c \<noteq> 0"
    unfolding lv using f(4) by (auto dest: in_set_takeD in_set_dropD)
  moreover have "ls_shape ?s" using f(1) r(2,5,8) by (auto simp: ls_shape_def n_def)
  ultimately have "ls_inv ?s" by (simp add: ls_inv_def)
  moreover have "ls_abs ?s = (ls_abs s)(key := None)"
    using map_of_remove_at [OF f(3), of p] p f(5) levels_nth [OF f(1)]
    unfolding ls_abs_def lv by (simp add: n_def)
  ultimately show ?thesis using r(1,4,7) by blast
qed

lemma reduce_spec:
  assumes inv: "ls_inv s"
  shows "\<exists>s' r. ls_reduce b s key shares gone = Some (s', r) \<and> ls_inv s' \<and>
    ls_abs s' = reduce_level (ls_abs s) key shares gone \<and>
    r = (if key \<notin> dom (ls_abs s) then KMissingLevel
         else if \<forall>k \<in> dom (ls_abs s). k \<le> key then KTopChanged else KOk)"
proof (cases "ls_size s = 0")
  case True
  then have "ls_abs s = Map.empty" by (simp add: ls_abs_def levels_def)
  with True inv show ?thesis by (simp add: ls_reduce_def reduce_level_def)
next
  case False
  note h = search_hit [OF inv] and f = side_facts [OF inv]
  let ?p = "pos_of s key"
  have pos: "lower_bound_from_back b (ls_keys s) (ls_size s) key = Some ?p" using h(1) False by simp
  show ?thesis
  proof (cases "key \<in> dom (ls_abs s)")
    case absent: False
    then have "ls_reduce b s key shares gone = Some (s, KMissingLevel)"
      unfolding ls_reduce_def Let_def pos bind.bind_lunit h(2) using False by simp
    moreover have "ls_abs s key = None" using absent unfolding domIff by blast
    ultimately show ?thesis using inv absent by (simp add: reduce_level_def)
  next
    case True
    have abs: "ls_abs s key = Some (ls_qty s ! ?p, ls_orders s ! ?p)" using h(3) True by simp
    let ?q = "ls_qty s ! ?p - ucast shares" and ?c = "ls_orders s ! ?p - (if gone then 1 else 0)"
    let ?r = "if ?p = ls_size s - 1 then KTopChanged else KOk"
    have r: "?r = (if key \<notin> dom (ls_abs s) then KMissingLevel
        else if \<forall>k \<in> dom (ls_abs s). k \<le> key then KTopChanged else KOk)"
      using top_present [OF inv True] True by simp
    show ?thesis
    proof (cases "?c = 0")
      case c: False
      have "ls_reduce b s key shares gone =
          Some (s\<lparr>ls_qty := (ls_qty s)[?p := ?q], ls_orders := (ls_orders s)[?p := ?c]\<rparr>, ?r)"
        unfolding ls_reduce_def Let_def pos bind.bind_lunit h(2)
        using False True h(4) [OF True] f(7,8) c by (simp add: elem_at_def set_at_def)
      then show ?thesis
        using update_present [OF inv True c, of ?q] c unfolding r by (simp add: reduce_level_def abs Let_def)
    next
      case c: True
      obtain ks qs os where d: "remove_at (ls_keys s) ?p (ls_size s - ?p - 1) = Some ks"
        "remove_at ((ls_qty s)[?p := ?q]) ?p (ls_size s - ?p - 1) = Some qs"
        "remove_at ((ls_orders s)[?p := ?c]) ?p (ls_size s - ?p - 1) = Some os"
        "ls_inv (s\<lparr>ls_keys := ks, ls_qty := qs, ls_orders := os, ls_size := ls_size s - 1\<rparr>)"
        "ls_abs (s\<lparr>ls_keys := ks, ls_qty := qs, ls_orders := os, ls_size := ls_size s - 1\<rparr>) =
          (ls_abs s)(key := None)"
        using remove_level [OF inv True, of ?q ?c] by blast
      have "ls_reduce b s key shares gone =
          Some (s\<lparr>ls_keys := ks, ls_qty := qs, ls_orders := os, ls_size := ls_size s - 1\<rparr>, ?r)"
        unfolding ls_reduce_def Let_def pos bind.bind_lunit h(2)
        using False True h(4) [OF True] f(7,8) c d(1-3) by (simp add: elem_at_def set_at_def)
      then show ?thesis using d(4,5) c unfolding r by (simp add: reduce_level_def abs Let_def)
    qed
  qed
qed

section \<open>The contract of a side\<close>

text \<open>The best level of an abstract side: its greatest key with its quantity.\<close>

definition best :: "(u32 \<rightharpoonup> u64 \<times> u32) \<Rightarrow> (u32 \<times> u64) option" where
  "best lv = (if dom lv = {} then None else Some (Max (dom lv), fst (the (lv (Max (dom lv))))))"

lemma best_eqI:
  assumes "finite (dom lv)" "finite (dom lv')" "k \<in> dom lv" "key < k"
    "\<And>x. x \<noteq> key \<Longrightarrow> lv' x = lv x"
  shows "best lv' = best lv"
proof -
  let ?M = "Max (dom lv)"
  have M: "?M \<in> dom lv" by (rule Max_in [OF assms(1)]) (use assms(3) in blast)
  have kM: "key < ?M" by (rule order_less_le_trans [OF assms(4) Max_ge [OF assms(1,3)]])
  have M': "?M \<in> dom lv'" using M kM assms(5) [of ?M] by (simp add: domIff)
  have "x \<le> ?M" if "x \<in> dom lv'" for x
  proof (cases "x = key")
    case False
    then have "x \<in> dom lv" using assms(5) [of x] that by (simp add: domIff)
    then show ?thesis using assms(1) by simp
  qed (use kM in simp)
  then have "Max (dom lv') = ?M" using assms(2) M' by (intro Max_eqI) auto
  moreover have "lv' ?M = lv ?M" using kM assms(5) by (metis less_irrefl)
  ultimately show ?thesis using M M' by (auto simp: best_def)
qed

locale level_store =
  fixes inv :: "'s \<Rightarrow> bool" and abs :: "'s \<Rightarrow> (u32 \<rightharpoonup> u64 \<times> u32)"
    and add :: "'s \<Rightarrow> u32 \<Rightarrow> u32 \<Rightarrow> ('s \<times> bool) option"
    and reduce :: "'s \<Rightarrow> u32 \<Rightarrow> u32 \<Rightarrow> bool \<Rightarrow> ('s \<times> reduce_result) option"
  assumes finite_abs: "finite (dom (abs s))"
    and add_law: "inv s \<Longrightarrow> (\<And>q c. abs s key = Some (q, c) \<Longrightarrow> c + 1 \<noteq> 0) \<Longrightarrow>
      add s key shares = Some (s', t) \<Longrightarrow>
      inv s' \<and> abs s' = add_level (abs s) key shares \<and> (t \<longleftrightarrow> (\<forall>k \<in> dom (abs s). k \<le> key))"
    and reduce_law: "inv s \<Longrightarrow> \<exists>s' r. reduce s key shares gone = Some (s', r) \<and> inv s' \<and>
      abs s' = reduce_level (abs s) key shares gone \<and>
      r = (if key \<notin> dom (abs s) then KMissingLevel
           else if \<forall>k \<in> dom (abs s). k \<le> key then KTopChanged else KOk)"
begin

text \<open>An operation that does not report a new top leaves the best level as it was.\<close>

lemma add_keeps_best:
  assumes "inv s" "\<And>q c. abs s key = Some (q, c) \<Longrightarrow> c + 1 \<noteq> 0" "add s key shares = Some (s', False)"
  shows "best (abs s') = best (abs s)"
proof -
  note l = add_law [OF assms(1) _ assms(3), of]
  have s': "abs s' = add_level (abs s) key shares" "\<not> (\<forall>k \<in> dom (abs s). k \<le> key)"
    using l assms(2) by auto
  then obtain k where "k \<in> dom (abs s)" "key < k" by (auto simp: not_le)
  then show ?thesis
    using finite_abs by (intro best_eqI [of _ _ k key]) (auto simp: s'(1) add_level_def)
qed

lemma reduce_keeps_best:
  assumes "inv s" "reduce s key shares gone = Some (s', r)" "r \<noteq> KTopChanged"
  shows "best (abs s') = best (abs s)"
proof -
  have s': "abs s' = reduce_level (abs s) key shares gone"
    and r: "r = (if key \<notin> dom (abs s) then KMissingLevel
      else if \<forall>k \<in> dom (abs s). k \<le> key then KTopChanged else KOk)"
    using reduce_law [OF assms(1), of key shares gone] assms(2) by auto
  show ?thesis
  proof (cases "key \<in> dom (abs s)")
    case False
    then have "abs s key = None" unfolding domIff by blast
    then show ?thesis by (simp add: s' reduce_level_def)
  next
    case True
    then obtain k where "k \<in> dom (abs s)" "key < k" using r assms(3) by (auto simp: not_le split: if_splits)
    then show ?thesis
      using finite_abs by (intro best_eqI [of _ _ k key])
        (auto simp: s' reduce_level_def Let_def split: option.split)
  qed
qed

end

interpretation level_arrays: level_store ls_inv ls_abs "ls_add alloc b" "ls_reduce b" for alloc b
proof
  fix s :: level_side
  show "finite (dom (ls_abs s))" by (simp add: ls_abs_def finite_dom_map_of)
next
  fix s key shares s' t
  assume "ls_inv s" "\<And>q c. ls_abs s key = Some (q, c) \<Longrightarrow> c + 1 \<noteq> 0"
    "ls_add alloc b s key shares = Some (s', t)"
  then show "ls_inv s' \<and> ls_abs s' = add_level (ls_abs s) key shares \<and> (t \<longleftrightarrow> (\<forall>k \<in> dom (ls_abs s). k \<le> key))"
    using add_spec [of s key alloc b shares] by auto
next
  fix s key shares gone
  assume "ls_inv s"
  then show "\<exists>s' r. ls_reduce b s key shares gone = Some (s', r) \<and> ls_inv s' \<and>
      ls_abs s' = reduce_level (ls_abs s) key shares gone \<and>
      r = (if key \<notin> dom (ls_abs s) then KMissingLevel
           else if \<forall>k \<in> dom (ls_abs s). k \<le> key then KTopChanged else KOk)"
    by (rule reduce_spec)
qed

section \<open>Best prices\<close>

lemma new_side_inv: "ls_inv new_side" "ls_abs new_side = Map.empty"
  by (simp_all add: ls_inv_def ls_shape_def new_side_def levels_def ls_abs_def)

lemma reserve_spec:
  assumes "ls_inv s" "reserve_initial alloc s = Some s'"
  shows "ls_inv s' \<and> ls_abs s' = ls_abs s"
proof (cases "ls_cap s = 0")
  case True
  then have "ls_size s = ls_cap s" using assms(1) by (simp add: ls_inv_def ls_shape_def)
  then show ?thesis using grow_spec [of s alloc s'] assms True
    by (auto simp: reserve_initial_def ls_inv_def ls_abs_def)
next
  case False
  then show ?thesis using assms by (simp add: reserve_initial_def)
qed

lemma size_zero_iff: "ls_inv s \<Longrightarrow> ls_size s = 0 \<longleftrightarrow> dom (ls_abs s) = {}"
  using side_facts(5,9) [of s] by (metis image_is_empty length_0_conv set_empty)

text \<open>Level 0 of a side that is not empty is its best level.\<close>

lemma top_level:
  assumes inv: "ls_inv s" and ne: "ls_size s \<noteq> 0"
  shows "\<exists>k q. ls_key_at s 0 = Some k \<and> ls_qty_at s 0 = Some q \<and> best (ls_abs s) = Some (k, q) \<and>
    k = Max (dom (ls_abs s))"
proof -
  note f = side_facts [OF inv]
  let ?i = "ls_size s - 1"
  have i: "?i < ls_size s" using ne by simp
  note nth = levels_nth [OF f(1) i]
  have k: "ls_key_at s 0 = Some (ls_keys s ! ?i)" "ls_qty_at s 0 = Some (ls_qty s ! ?i)"
    using i f(6,7) by (simp_all add: ls_key_at_def ls_qty_at_def top_index_def elem_at_def)
  have "(ls_keys s ! ?i, ls_qty s ! ?i, ls_orders s ! ?i) \<in> set (levels s)"
    using nth i f(5) nth_mem by metis
  then have abs: "ls_abs s (ls_keys s ! ?i) = Some (ls_qty s ! ?i, ls_orders s ! ?i)"
    using f(3) by (simp add: ls_abs_def)
  have "\<forall>k \<in> fst ` set (levels s). k \<le> ls_keys s ! ?i"
    using top_position [OF f(2), of ?i] i f(5) nth by simp
  then have "Max (dom (ls_abs s)) = ls_keys s ! ?i"
    using abs level_arrays.finite_abs unfolding f(9) [symmetric] by (intro Max_eqI) auto
  with k abs show ?thesis by (auto simp: best_def)
qed

definition book_inv :: "order_book \<Rightarrow> bool" where
  "book_inv bk \<longleftrightarrow> ls_inv (bids bk) \<and> ls_inv (asks bk)"

text \<open>The top of book from the abstract sides.\<close>

definition top_spec :: "(u32 \<rightharpoonup> u64 \<times> u32) \<Rightarrow> (u32 \<rightharpoonup> u64 \<times> u32) \<Rightarrow> top_of_book" where
  "top_spec B A =
     \<lparr>bid_price = (case best B of None \<Rightarrow> 0 | Some (k, q) \<Rightarrow> k),
      ask_price = (case best A of None \<Rightarrow> 0 | Some (k, q) \<Rightarrow> NOT k),
      bid_qty = (case best B of None \<Rightarrow> 0 | Some (k, q) \<Rightarrow> q),
      ask_qty = (case best A of None \<Rightarrow> 0 | Some (k, q) \<Rightarrow> q)\<rparr>"

lemma ob_top_eq: "book_inv bk \<Longrightarrow> ob_top bk = Some (top_spec (ls_abs (bids bk)) (ls_abs (asks bk)))"
proof -
  assume inv: "book_inv bk"
  have side: "(if ls_size s = 0 then Some (0, 0)
       else do { p \<leftarrow> ls_key_at s 0; q \<leftarrow> ls_qty_at s 0; Some (f p, q) }) =
      Some (case best (ls_abs s) of None \<Rightarrow> (0, 0) | Some (k, q) \<Rightarrow> (f k, q))"
    if "ls_inv s" for s and f :: "u32 \<Rightarrow> u32"
  proof (cases "ls_size s = 0")
    case True
    then show ?thesis using size_zero_iff [OF that] by (simp add: best_def)
  next
    case False
    then show ?thesis using top_level [OF that False] by auto
  qed
  show ?thesis
    using inv side [of "bids bk" "\<lambda>k. k"] side [of "asks bk" "\<lambda>k. NOT k"]
    by (auto simp: book_inv_def ob_top_def top_spec_def split: option.splits)
qed

text \<open>Keys of the ask side are complements, so the greatest key is the least price.\<close>

lemma not_le_not: "NOT a \<le> b \<longleftrightarrow> NOT b \<le> (a :: u32)"
proof -
  have n: "unat (NOT w) = 2 ^ 32 - 1 - unat w" for w :: u32
  proof -
    have "NOT w = - 1 - w" by (simp add: not_eq_complement)
    moreover have "unat ((- 1 :: u32) - w) = unat (- 1 :: u32) - unat w" by (rule unat_sub) simp
    moreover have "unat (- 1 :: u32) = 2 ^ 32 - 1"
      by (simp add: unsigned_minus_1_eq_mask mask_eq_exp_minus_1)
    ultimately show ?thesis by simp
  qed
  have "unat a < 2 ^ 32" "unat b < 2 ^ 32" by (rule order_less_le_trans [OF unsigned_less], simp)+
  then show ?thesis unfolding word_le_nat_alt n by linarith
qed

lemma ob_crossed_eq:
  assumes "book_inv bk"
  shows "ob_crossed bk = Some (\<exists>x \<in> dom (ls_abs (bids bk)). \<exists>y \<in> dom (ls_abs (asks bk)). NOT y \<le> x)"
proof -
  have inv: "ls_inv (bids bk)" "ls_inv (asks bk)" using assms by (simp_all add: book_inv_def)
  show ?thesis
  proof (cases "ls_size (bids bk) = 0 \<or> ls_size (asks bk) = 0")
    case True
    then show ?thesis using size_zero_iff inv by (auto simp: ob_crossed_def)
  next
    case False
    let ?B = "dom (ls_abs (bids bk))" and ?A = "dom (ls_abs (asks bk))"
    have fin: "finite ?B" "finite ?A" by (rule level_arrays.finite_abs)+
    have ne: "?B \<noteq> {}" "?A \<noteq> {}" using False size_zero_iff inv by auto
    have eq: "ob_crossed bk = Some (NOT (Max ?A) \<le> Max ?B)"
      using False top_level [OF inv(1)] top_level [OF inv(2)] by (auto simp: ob_crossed_def)
    have "NOT (Max ?A) \<le> Max ?B" if "x \<in> ?B" "y \<in> ?A" "NOT y \<le> x" for x y
    proof -
      have "NOT y \<le> Max ?B" using that fin by (metis Max_ge order_trans)
      then have "NOT (Max ?B) \<le> y" by (simp only: not_le_not)
      also have "y \<le> Max ?A" using that fin by simp
      finally show ?thesis by (simp only: not_le_not)
    qed
    then show ?thesis using eq Max_in [OF fin(1) ne(1)] Max_in [OF fin(2) ne(2)] by auto
  qed
qed

section \<open>Properties\<close>

text \<open>
  C16. Adding an order to a side: the level of its key gains the shares and one order, or a new
  level with one order is inserted in its place; the arrays stay sorted, no level is empty,
  and the returned flag says exactly whether the key is now the best. With every search
  kernel, in bounds; it fails only if a full side cannot grow.
\<close>

theorem ls_add_correct:
  assumes "ls_inv s" "\<And>q c. ls_abs s key = Some (q, c) \<Longrightarrow> c + 1 \<noteq> 0"
  shows "(\<exists>s' t. ls_add alloc b s key shares = Some (s', t) \<and> ls_inv s' \<and>
      ls_abs s' = add_level (ls_abs s) key shares \<and> (t \<longleftrightarrow> (\<forall>k \<in> dom (ls_abs s). k \<le> key))) \<or>
    (ls_add alloc b s key shares = None \<and> ls_size s = ls_cap s \<and> ls_grow alloc s = None)"
  using assms by (rule add_spec)

text \<open>
  C17. Reducing a level: the result tells an absent key (nothing changes) from a change at the
  best level and one below it; the level loses the shares and, with its order, one of its
  count, and is removed from the sorted arrays with its last order.
\<close>

theorem ls_reduce_correct:
  assumes "ls_inv s"
  shows "\<exists>s' r. ls_reduce b s key shares gone = Some (s', r) \<and> ls_inv s' \<and>
    ls_abs s' = reduce_level (ls_abs s) key shares gone \<and>
    r = (if key \<notin> dom (ls_abs s) then KMissingLevel
         else if \<forall>k \<in> dom (ls_abs s). k \<le> key then KTopChanged else KOk)"
  using assms by (rule reduce_spec)

text \<open>
  A book is reported as locked or crossed exactly if some bid price is at or above some
  ask price, whatever levels there are.
\<close>

theorem ob_crossed_correct:
  assumes "book_inv bk"
  shows "ob_crossed bk = Some (\<exists>x \<in> dom (ls_abs (bids bk)). \<exists>y \<in> dom (ls_abs (asks bk)).
    price_of 0x53 y \<le> price_of side_buy x)"
  using ob_crossed_eq [OF assms] by (simp add: price_of_def side_buy_def)

section \<open>Witnesses\<close>

lemma sample_side:
  "\<exists>s t. ls_add (\<lambda>_. True) Have_SSE41 new_side 500 30 = Some (s, t) \<and> ls_inv s \<and> ls_abs s = [500 \<mapsto> (30, 1)]"
proof -
  have "ls_grow (\<lambda>_. True) new_side \<noteq> None"
    by (simp add: ls_grow_def regrow_def new_side_def kInitialLevels_def)
  then show ?thesis
    using add_spec [OF new_side_inv(1), of 500 "\<lambda>_. True" Have_SSE41 30] new_side_inv(2)
    by (auto simp: add_level_def)
qed

theorem ls_add_correct_witness:
  "\<exists>s t. ls_add (\<lambda>_. True) Have_AVX2 new_side 500 30 = Some (s, t) \<and> ls_abs s = [500 \<mapsto> (30, 1)] \<and> t"
proof -
  have "ls_grow (\<lambda>_. True) new_side \<noteq> None"
    by (simp add: ls_grow_def regrow_def new_side_def kInitialLevels_def)
  then show ?thesis
    using ls_add_correct [OF new_side_inv(1), of 500 "\<lambda>_. True" Have_AVX2 30] new_side_inv(2)
    by (auto simp: add_level_def)
qed

theorem ls_reduce_correct_witness:
  "\<exists>s s'. ls_abs s = [500 \<mapsto> (30, 1)] \<and> ls_reduce Have_SSE2 s 500 30 True = Some (s', KTopChanged) \<and>
    ls_abs s' = Map.empty"
proof -
  obtain s where s: "ls_inv s" "ls_abs s = [500 \<mapsto> (30, 1)]" using sample_side by blast
  from ls_reduce_correct [OF s(1), of Have_SSE2 500 30 True] s show ?thesis
    by (auto simp: reduce_level_def)
qed

theorem ob_crossed_correct_witness:
  "\<exists>s. ls_abs s = [500 \<mapsto> (30, 1)] \<and> ob_crossed \<lparr>bids = s, asks = new_side\<rparr> = Some False"
proof -
  obtain s where s: "ls_inv s" "ls_abs s = [500 \<mapsto> (30, 1)]" using sample_side by blast
  then have "book_inv \<lparr>bids = s, asks = new_side\<rparr>" using new_side_inv by (simp add: book_inv_def)
  from ob_crossed_correct [OF this] s new_side_inv(2) show ?thesis by auto
qed

end
