(* ===== verification/Book_Engine.thy ===== *)
theory Book_Engine
  imports Order_Book
begin

text \<open>
  \<^verbatim>\<open>include/itch/order_book.hpp\<close> (\<open>BookEngine\<close>): order events applied to the global order map and
  to the level books of each locate. The abstract engine is the map of live orders alone; the
  level books are proved to be its aggregation at all times.
\<close>

section \<open>State and operations\<close>

record engine =
  eng_orders :: omap
  eng_books :: "u16 \<Rightarrow> order_book"
  unknown_ref :: u64
  missing_level :: u64
  overfill :: u64

text \<open>The pointer to the book is the locate it belongs to; \<open>None\<close> is \<open>nullptr\<close>.\<close>

record book_update =
  bu_book :: "u16 option"
  bu_price :: u32
  bu_locate :: u16
  bu_side :: u8
  bu_top_changed :: bool

definition no_update :: book_update where
  "no_update = \<lparr>bu_book = None, bu_price = 0, bu_locate = 0, bu_side = 0, bu_top_changed = False\<rparr>"

definition update_of :: "u16 \<Rightarrow> u32 \<Rightarrow> u8 \<Rightarrow> bool \<Rightarrow> book_update" where
  "update_of locate price side t =
     \<lparr>bu_book = Some locate, bu_price = price, bu_locate = locate, bu_side = side, bu_top_changed = t\<rparr>"

definition kMaxLocate :: nat where
  "kMaxLocate = 65536"

text \<open>An \<open>OrderBook\<close> takes 64 bytes: two sides of three pointers and two 32-bit numbers.\<close>

definition new_engine :: "(nat \<Rightarrow> bool) \<Rightarrow> isa \<Rightarrow> nat \<Rightarrow> engine option" where
  "new_engine alloc b expected_orders = do {
     m \<leftarrow> new_omap alloc (GroupBest b) expected_orders;
     if alloc (kMaxLocate * 64)
     then Some \<lparr>eng_orders = m, eng_books = (\<lambda>_. new_book), unknown_ref = 0, missing_level = 0, overfill = 0\<rparr>
     else None }"

definition set_book_side :: "engine \<Rightarrow> u16 \<Rightarrow> u8 \<Rightarrow> level_side \<Rightarrow> engine" where
  "set_book_side e locate side s =
     e\<lparr>eng_books := (eng_books e)(locate := set_side (eng_books e locate) side s)\<rparr>"

definition eng_add ::
  "(nat \<Rightarrow> bool) \<Rightarrow> isa \<Rightarrow> engine \<Rightarrow> u16 \<Rightarrow> u64 \<Rightarrow> u8 \<Rightarrow> u32 \<Rightarrow> u32 \<Rightarrow> (engine \<times> book_update) option" where
  "eng_add alloc b e locate ref side shares price = do {
     (i, m) \<leftarrow> om_insert alloc (GroupBest b) (eng_orders e) ref;
     let m' = om_put m i ((om_get m i)\<lparr>o_price := price, o_shares := shares, o_locate := locate, o_side := side\<rparr>);
     (s, t) \<leftarrow> ls_add alloc b (book_side (eng_books e locate) side) (key_for side price) shares;
     Some (set_book_side (e\<lparr>eng_orders := m'\<rparr>) locate side s, update_of locate price side t) }"

definition apply_reduce :: "isa \<Rightarrow> engine \<Rightarrow> order \<Rightarrow> u32 \<Rightarrow> bool \<Rightarrow> (engine \<times> book_update) option" where
  "apply_reduce b e ord shares gone = do {
     (s, r) \<leftarrow> ls_reduce b (book_side (eng_books e (o_locate ord)) (o_side ord))
       (key_for (o_side ord) (o_price ord)) shares gone;
     let e1 = set_book_side e (o_locate ord) (o_side ord) s;
     Some (if r = KMissingLevel then e1\<lparr>missing_level := missing_level e1 + 1\<rparr> else e1,
           update_of (o_locate ord) (o_price ord) (o_side ord) (r = KTopChanged)) }"

definition eng_erase :: "isa \<Rightarrow> engine \<Rightarrow> nat \<Rightarrow> engine option" where
  "eng_erase b e i = do {
     m \<leftarrow> om_erase (GroupBest b) (eng_orders e) i;
     Some (e\<lparr>eng_orders := m\<rparr>) }"

definition eng_reduce :: "isa \<Rightarrow> engine \<Rightarrow> u64 \<Rightarrow> u32 \<Rightarrow> (engine \<times> book_update) option" where
  "eng_reduce b e ref shares = do {
     f \<leftarrow> om_find (GroupBest b) (eng_orders e) ref;
     case f of
       None \<Rightarrow> Some (e\<lparr>unknown_ref := unknown_ref e + 1\<rparr>, no_update)
     | Some i \<Rightarrow> do {
         let ord = om_get (eng_orders e) i;
         let (e1, sh) = (if o_shares ord < shares then (e\<lparr>overfill := overfill e + 1\<rparr>, o_shares ord)
                         else (e, shares));
         if sh = 0 then Some (e1, update_of (o_locate ord) (o_price ord) (o_side ord) False)
         else do {
           let ord' = ord\<lparr>o_shares := o_shares ord - sh\<rparr>;
           let e2 = e1\<lparr>eng_orders := om_put (eng_orders e1) i ord'\<rparr>;
           let gone = (o_shares ord' = 0);
           (e3, u) \<leftarrow> apply_reduce b e2 ord' sh gone;
           e4 \<leftarrow> (if gone then eng_erase b e3 i else Some e3);
           Some (e4, u) } } }"

definition eng_remove :: "isa \<Rightarrow> engine \<Rightarrow> u64 \<Rightarrow> (engine \<times> book_update) option" where
  "eng_remove b e ref = do {
     f \<leftarrow> om_find (GroupBest b) (eng_orders e) ref;
     case f of
       None \<Rightarrow> Some (e\<lparr>unknown_ref := unknown_ref e + 1\<rparr>, no_update)
     | Some i \<Rightarrow> do {
         let ord = om_get (eng_orders e) i;
         (e1, u) \<leftarrow> apply_reduce b e ord (o_shares ord) True;
         e2 \<leftarrow> eng_erase b e1 i;
         Some (e2, u) } }"

definition eng_replace ::
  "(nat \<Rightarrow> bool) \<Rightarrow> isa \<Rightarrow> engine \<Rightarrow> u64 \<Rightarrow> u64 \<Rightarrow> u32 \<Rightarrow> u32 \<Rightarrow> (engine \<times> book_update) option" where
  "eng_replace alloc b e old_ref new_ref shares price = do {
     f \<leftarrow> om_find (GroupBest b) (eng_orders e) old_ref;
     case f of
       None \<Rightarrow> Some (e\<lparr>unknown_ref := unknown_ref e + 1\<rparr>, no_update)
     | Some i \<Rightarrow> do {
         let ord = om_get (eng_orders e) i;
         (e1, removed) \<leftarrow> apply_reduce b e ord (o_shares ord) True;
         e2 \<leftarrow> eng_erase b e1 i;
         (e3, added) \<leftarrow> eng_add alloc b e2 (o_locate ord) new_ref (o_side ord) shares price;
         Some (e3, added\<lparr>bu_top_changed := bu_top_changed added \<or> bu_top_changed removed\<rparr>) } }"

definition eng_prepare :: "(nat \<Rightarrow> bool) \<Rightarrow> engine \<Rightarrow> u16 \<Rightarrow> engine option" where
  "eng_prepare alloc e locate = do {
     s1 \<leftarrow> reserve_initial alloc (bids (eng_books e locate));
     s2 \<leftarrow> reserve_initial alloc (asks (eng_books e locate));
     Some (e\<lparr>eng_books := (eng_books e)(locate := \<lparr>bids = s1, asks = s2\<rparr>)\<rparr>) }"

text \<open>The prefetch hints: what is computed for them; they have no effect on the state.\<close>

definition prefetch_order :: "isa \<Rightarrow> engine \<Rightarrow> u64 \<Rightarrow> nat \<times> nat" where
  "prefetch_order b e ref = om_prefetch (GroupBest b) (eng_orders e) ref"

definition prefetch_levels_side :: "engine \<Rightarrow> u16 \<Rightarrow> u8 \<Rightarrow> nat option" where
  "prefetch_levels_side e locate side = prefetch_top (book_side (eng_books e locate) side)"

definition prefetch_levels :: "engine \<Rightarrow> u16 \<Rightarrow> nat option \<times> nat option" where
  "prefetch_levels e locate = (prefetch_top (bids (eng_books e locate)), prefetch_top (asks (eng_books e locate)))"

section \<open>The abstract engine\<close>

text \<open>The key of an order in its side's array, and the orders that make up one level.\<close>

definition okey :: "order \<Rightarrow> u32" where
  "okey ord = key_for (o_side ord) (o_price ord)"

definition in_level :: "u16 \<Rightarrow> bool \<Rightarrow> u32 \<Rightarrow> order \<Rightarrow> bool" where
  "in_level locate bid key ord \<longleftrightarrow> o_locate ord = locate \<and> (o_side ord = side_buy) = bid \<and> okey ord = key"

definition level_refs :: "(u64 \<rightharpoonup> order) \<Rightarrow> u16 \<Rightarrow> bool \<Rightarrow> u32 \<Rightarrow> u64 set" where
  "level_refs M locate bid key = {r. \<exists>ord. M r = Some ord \<and> in_level locate bid key ord}"

definition level_shares :: "(u64 \<rightharpoonup> order) \<Rightarrow> u64 set \<Rightarrow> nat" where
  "level_shares M R = (\<Sum>r\<in>R. unat (o_shares (the (M r))))"

text \<open>A side of a locate: the total of shares and the number of the live orders per key.\<close>

definition level_spec :: "(u64 \<rightharpoonup> order) \<Rightarrow> u16 \<Rightarrow> bool \<Rightarrow> (u32 \<rightharpoonup> u64 \<times> u32)" where
  "level_spec M locate bid = (\<lambda>key. let R = level_refs M locate bid key in
     if R = {} then None else Some (of_nat (level_shares M R), of_nat (card R)))"

lemma level_refs_upd:
  "level_refs (M(r := v)) locate bid key =
     (case v of Some ord \<Rightarrow> (if in_level locate bid key ord then insert r (level_refs M locate bid key)
                        else level_refs M locate bid key - {r})
              | None \<Rightarrow> level_refs M locate bid key - {r})"
  by (auto simp: level_refs_def split: option.splits)

lemma level_refs_notin: "M r = None \<Longrightarrow> r \<notin> level_refs M locate bid key"
  by (simp add: level_refs_def)

lemma level_shares_other: "r \<notin> R \<Longrightarrow> level_shares (M(r := v)) R = level_shares M R"
  unfolding level_shares_def by (intro sum.cong) auto

lemma level_shares_insert:
  "finite R \<Longrightarrow> r \<notin> R \<Longrightarrow>
     level_shares (M(r \<mapsto> ord)) (insert r R) = unat (o_shares ord) + level_shares M R"
  using level_shares_other [of r R M "Some ord"] by (simp add: level_shares_def)

lemma finite_level_refs: "finite (dom M) \<Longrightarrow> finite (level_refs M locate bid key)"
  by (rule finite_subset [of _ "dom M"]) (auto simp: level_refs_def)

lemma card_level_refs: "finite (dom M) \<Longrightarrow> card (level_refs M locate bid key) \<le> card (dom M)"
  by (rule card_mono) (auto simp: level_refs_def)

lemma ucast_of_nat: "(ucast (w :: u32) :: u64) = of_nat (unat w)"
  by (simp add: word_unat_eq_iff unsigned_ucast_eq unat_of_nat take_bit_eq_mod)

text \<open>Adding a new order adds to one level.\<close>

lemma level_spec_eq:
  "level_spec M locate bid key =
     (if level_refs M locate bid key = {} then None
      else Some (of_nat (level_shares M (level_refs M locate bid key)), of_nat (card (level_refs M locate bid key))))"
  by (simp add: level_spec_def Let_def)

lemma level_spec_other:
  assumes "r \<notin> level_refs M locate bid key" "level_refs (M(r := v)) locate bid key = level_refs M locate bid key"
  shows "level_spec (M(r := v)) locate bid key = level_spec M locate bid key"
  unfolding level_spec_eq assms(2) level_shares_other [OF assms(1)] by (rule refl)

lemma in_level_okey: "in_level locate bid (okey ord) ord \<longleftrightarrow> locate = o_locate ord \<and> bid = (o_side ord = side_buy)"
  by (auto simp: in_level_def)

lemma level_spec_add_hit:
  assumes "finite (dom M)" "M r = None" "in_level locate bid key ord"
  shows "level_spec (M(r \<mapsto> ord)) locate bid key = add_level (level_spec M locate bid) key (o_shares ord) key"
proof -
  let ?R = "level_refs M locate bid key"
  have R: "r \<notin> ?R" "finite ?R" using assms(1,2) level_refs_notin finite_level_refs by auto
  have refs: "level_refs (M(r \<mapsto> ord)) locate bid key = insert r ?R"
    using assms(3) by (simp add: level_refs_upd)
  have "level_spec (M(r \<mapsto> ord)) locate bid key =
      Some (of_nat (unat (o_shares ord) + level_shares M ?R), of_nat (Suc (card ?R)))"
    unfolding level_spec_eq refs level_shares_insert [OF R(2,1)] card_insert_disjoint [OF R(2,1)]
    by (simp only: insert_not_empty if_False)
  then have l: "level_spec (M(r \<mapsto> ord)) locate bid key =
      Some (of_nat (level_shares M ?R) + ucast (o_shares ord), of_nat (card ?R) + 1)"
    by (simp only: ucast_of_nat of_nat_add of_nat_Suc add.commute)
  show ?thesis
  proof (cases "?R = {}")
    case True
    have "level_shares M ?R = 0" "card ?R = 0" unfolding True level_shares_def by simp_all
    moreover have "level_spec M locate bid key = None" using True by (simp add: level_spec_eq)
    ultimately show ?thesis unfolding l add_level_def by simp
  next
    case False
    then have "level_spec M locate bid key = Some (of_nat (level_shares M ?R), of_nat (card ?R))"
      by (simp only: level_spec_eq if_False)
    then show ?thesis unfolding l add_level_def by simp
  qed
qed

lemma level_spec_add:
  assumes "finite (dom M)" "M r = None"
  shows "level_spec (M(r \<mapsto> ord)) locate bid =
    (if locate = o_locate ord \<and> bid = (o_side ord = side_buy)
     then add_level (level_spec M locate bid) (okey ord) (o_shares ord) else level_spec M locate bid)"
proof (rule ext)
  fix key
  show "level_spec (M(r \<mapsto> ord)) locate bid key =
    (if locate = o_locate ord \<and> bid = (o_side ord = side_buy)
     then add_level (level_spec M locate bid) (okey ord) (o_shares ord) else level_spec M locate bid) key"
  proof (cases "in_level locate bid key ord")
    case True
    then have "key = okey ord" "locate = o_locate ord \<and> bid = (o_side ord = side_buy)"
      by (auto simp: in_level_def)
    then show ?thesis using level_spec_add_hit [OF assms True] by simp
  next
    case False
    have r: "r \<notin> level_refs M locate bid key" using assms(2) by (rule level_refs_notin)
    then have "level_spec (M(r \<mapsto> ord)) locate bid key = level_spec M locate bid key"
      using False by (intro level_spec_other) (simp_all add: level_refs_upd)
    moreover have "key \<noteq> okey ord" if "locate = o_locate ord \<and> bid = (o_side ord = side_buy)"
      using that False by (auto simp: in_level_def)
    ultimately show ?thesis by (auto simp: add_level_def)
  qed
qed

text \<open>Removing an order takes it out of its level, and shrinking it takes shares out.\<close>

lemma count_of_nat: "n < 2 ^ 32 \<Longrightarrow> (of_nat n :: u32) = 0 \<longleftrightarrow> n = 0"
  by (simp add: word_of_nat_eq_0_iff dvd_eq_mod_eq_0)

lemma level_of_member:
  assumes "finite (dom M)" "M r = Some ord" "in_level locate bid key ord"
  defines "R \<equiv> level_refs M locate bid key - {r}"
  shows "level_refs M locate bid key = insert r R" "r \<notin> R" "finite R"
    "level_spec M locate bid key =
      Some (ucast (o_shares ord) + of_nat (level_shares M R), of_nat (card R) + 1)"
    "card R < card (dom M)"
proof -
  show ins: "level_refs M locate bid key = insert r R"
    using assms(2,3) by (auto simp: R_def level_refs_def)
  show r: "r \<notin> R" by (simp add: R_def)
  show fin: "finite R" using finite_level_refs [OF assms(1)] by (simp add: R_def)
  have "level_shares M (insert r R) = unat (o_shares ord) + level_shares M R"
    using r fin by (simp add: level_shares_def assms(2))
  then have "level_spec M locate bid key =
      Some (of_nat (unat (o_shares ord) + level_shares M R), of_nat (Suc (card R)))"
    unfolding level_spec_eq ins card_insert_disjoint [OF fin r] by (simp only: insert_not_empty if_False)
  then show "level_spec M locate bid key =
      Some (ucast (o_shares ord) + of_nat (level_shares M R), of_nat (card R) + 1)"
    by (simp only: ucast_of_nat of_nat_add of_nat_Suc add.commute)
  have "card (insert r R) \<le> card (dom M)" unfolding ins [symmetric] by (rule card_level_refs [OF assms(1)])
  then show "card R < card (dom M)" by (simp add: card_insert_disjoint [OF fin r])
qed

lemma level_spec_remove_hit:
  assumes "finite (dom M)" "card (dom M) < 2 ^ 32" "M r = Some ord" "in_level locate bid key ord"
  shows "level_spec (M(r := None)) locate bid key =
    reduce_level (level_spec M locate bid) key (o_shares ord) True key"
proof -
  define R where "R = level_refs M locate bid key - {r}"
  note m = level_of_member [OF assms(1,3,4), folded R_def]
  have refs: "level_refs (M(r := None)) locate bid key = R" by (simp add: level_refs_upd R_def)
  have "card R < 2 ^ 32" using m(5) assms(2) by linarith
  then have c: "(of_nat (card R) :: u32) = 0 \<longleftrightarrow> R = {}" using m(3) by (simp add: count_of_nat)
  have "level_spec (M(r := None)) locate bid key =
      (if R = {} then None else Some (of_nat (level_shares M R), of_nat (card R)))"
    unfolding level_spec_eq refs level_shares_other [OF m(2)] by (rule refl)
  then show ?thesis using c by (simp add: reduce_level_def m(4))
qed

lemma level_spec_shrink_hit:
  assumes "finite (dom M)" "card (dom M) < 2 ^ 32" "M r = Some ord" "in_level locate bid key ord"
    "sh \<le> o_shares ord"
  shows "level_spec (M(r \<mapsto> ord\<lparr>o_shares := o_shares ord - sh\<rparr>)) locate bid key =
    reduce_level (level_spec M locate bid) key sh False key"
proof -
  let ?ord = "ord\<lparr>o_shares := o_shares ord - sh\<rparr>"
  define R where "R = level_refs M locate bid key - {r}"
  note m = level_of_member [OF assms(1,3,4), folded R_def]
  let ?M = "M(r \<mapsto> ?ord)"
  have il: "in_level locate bid key ?ord" using assms(4) by (simp add: in_level_def okey_def)
  have "level_refs ?M locate bid key - {r} = R" by (auto simp: level_refs_upd il R_def)
  then have "level_spec ?M locate bid key =
      Some (ucast (o_shares ord - sh) + of_nat (level_shares ?M R), of_nat (card R) + 1)"
    using level_of_member(4) [of ?M r ?ord locate bid key] assms(1) il by simp
  moreover have "level_shares ?M R = level_shares M R" by (rule level_shares_other [OF m(2)])
  moreover have "(ucast (o_shares ord - sh) :: u64) = ucast (o_shares ord) - ucast sh"
    unfolding ucast_of_nat unat_sub [OF assms(5)]
    using assms(5) by (intro of_nat_diff) (simp add: word_le_nat_alt)
  moreover have "(of_nat (card R) :: u32) + 1 \<noteq> 0"
  proof -
    have "Suc (card R) < 2 ^ 32" using m(5) assms(2) by linarith
    then show ?thesis using count_of_nat [of "Suc (card R)"] by (simp add: add.commute)
  qed
  ultimately show ?thesis
    by (simp only: reduce_level_def m(4) option.case prod.case Let_def if_False diff_0_right fun_upd_same
        add_diff_eq diff_add_eq)
qed

text \<open>The two as updates of the whole side.\<close>

lemma level_spec_miss:
  assumes "\<not> in_level locate bid key ord" "M r = Some ord"
  shows "level_spec (M(r := None)) locate bid key = level_spec M locate bid key"
    "level_spec (M(r \<mapsto> ord\<lparr>o_shares := x\<rparr>)) locate bid key = level_spec M locate bid key"
proof -
  have r: "r \<notin> level_refs M locate bid key" using assms by (auto simp: level_refs_def)
  have n: "\<not> in_level locate bid key (ord\<lparr>o_shares := x\<rparr>)"
    using assms(1) by (simp add: in_level_def okey_def)
  show "level_spec (M(r := None)) locate bid key = level_spec M locate bid key"
    using r by (intro level_spec_other) (simp_all add: level_refs_upd)
  show "level_spec (M(r \<mapsto> ord\<lparr>o_shares := x\<rparr>)) locate bid key = level_spec M locate bid key"
    using r n by (intro level_spec_other) (simp_all add: level_refs_upd)
qed

lemma reduce_level_other: "k \<noteq> key \<Longrightarrow> reduce_level lv key sh gone k = lv k"
  by (auto simp: reduce_level_def Let_def split: option.splits)

lemma level_spec_remove:
  assumes "finite (dom M)" "card (dom M) < 2 ^ 32" "M r = Some ord"
  shows "level_spec (M(r := None)) locate bid =
    (if locate = o_locate ord \<and> bid = (o_side ord = side_buy)
     then reduce_level (level_spec M locate bid) (okey ord) (o_shares ord) True else level_spec M locate bid)"
proof (rule ext)
  fix key
  show "level_spec (M(r := None)) locate bid key =
    (if locate = o_locate ord \<and> bid = (o_side ord = side_buy)
     then reduce_level (level_spec M locate bid) (okey ord) (o_shares ord) True
     else level_spec M locate bid) key"
  proof (cases "in_level locate bid key ord")
    case True
    then have "key = okey ord" "locate = o_locate ord \<and> bid = (o_side ord = side_buy)"
      by (auto simp: in_level_def)
    then show ?thesis using level_spec_remove_hit [OF assms True] by simp
  next
    case False
    then have "key \<noteq> okey ord" if "locate = o_locate ord \<and> bid = (o_side ord = side_buy)"
      using that by (auto simp: in_level_def)
    then show ?thesis using level_spec_miss(1) [of locate bid key ord M r, OF False assms(3)]
      by (auto simp: reduce_level_other)
  qed
qed

lemma level_spec_shrink:
  assumes "finite (dom M)" "card (dom M) < 2 ^ 32" "M r = Some ord" "sh \<le> o_shares ord"
  shows "level_spec (M(r \<mapsto> ord\<lparr>o_shares := o_shares ord - sh\<rparr>)) locate bid =
    (if locate = o_locate ord \<and> bid = (o_side ord = side_buy)
     then reduce_level (level_spec M locate bid) (okey ord) sh False else level_spec M locate bid)"
proof (rule ext)
  fix key
  show "level_spec (M(r \<mapsto> ord\<lparr>o_shares := o_shares ord - sh\<rparr>)) locate bid key =
    (if locate = o_locate ord \<and> bid = (o_side ord = side_buy)
     then reduce_level (level_spec M locate bid) (okey ord) sh False else level_spec M locate bid) key"
  proof (cases "in_level locate bid key ord")
    case True
    then have "key = okey ord" "locate = o_locate ord \<and> bid = (o_side ord = side_buy)"
      by (auto simp: in_level_def)
    then show ?thesis using level_spec_shrink_hit [OF assms(1-3) True assms(4)] by simp
  next
    case False
    then have "key \<noteq> okey ord" if "locate = o_locate ord \<and> bid = (o_side ord = side_buy)"
      using that by (auto simp: in_level_def)
    then show ?thesis using level_spec_miss(2) [of locate bid key ord M r, OF False assms(3)]
      by (auto simp: reduce_level_other)
  qed
qed

section \<open>The invariant\<close>

text \<open>Every side of every book is the aggregation of the live orders.\<close>

definition books_ok :: "(u64 \<rightharpoonup> order) \<Rightarrow> (u16 \<Rightarrow> order_book) \<Rightarrow> bool" where
  "books_ok M books \<longleftrightarrow> (\<forall>loc sd. ls_inv (book_side (books loc) sd) \<and>
     ls_abs (book_side (books loc) sd) = level_spec M loc (sd = side_buy))"

abbreviation eng_map :: "engine \<Rightarrow> u64 \<rightharpoonup> order" where
  "eng_map e \<equiv> om_abs (eng_orders e)"

definition eng_inv :: "isa \<Rightarrow> engine \<Rightarrow> bool" where
  "eng_inv b e \<longleftrightarrow> om_inv (GroupBest b) (eng_orders e) \<and> card (dom (eng_map e)) < 2 ^ 32 \<and>
     books_ok (eng_map e) (eng_books e)"

lemma book_side_set_side [simp]:
  "book_side (set_side bk s ls) t = (if (t = side_buy) = (s = side_buy) then ls else book_side bk t)"
  by (auto simp: book_side_def set_side_def)

lemma books_ok_book_inv: "books_ok M books \<Longrightarrow> book_inv (books loc)"
proof -
  assume "books_ok M books"
  then have "ls_inv (book_side (books loc) side_buy)" "ls_inv (book_side (books loc) 0)"
    unfolding books_ok_def by blast+
  then show "book_inv (books loc)" by (simp add: book_inv_def book_side_def side_buy_def)
qed

lemma books_ok_update:
  assumes "books_ok M books" "ls_inv s" "ls_abs s = level_spec M' loc (sd = side_buy)"
    "\<And>l bid. \<not> (l = loc \<and> bid = (sd = side_buy)) \<Longrightarrow> level_spec M' l bid = level_spec M l bid"
  shows "books_ok M' (books(loc := set_side (books loc) sd s))"
  unfolding books_ok_def
proof (intro allI)
  fix l t
  have ok: "ls_inv (book_side (books l) t)" "ls_abs (book_side (books l) t) = level_spec M l (t = side_buy)"
    using assms(1) by (auto simp: books_ok_def)
  show "ls_inv (book_side ((books(loc := set_side (books loc) sd s)) l) t) \<and>
      ls_abs (book_side ((books(loc := set_side (books loc) sd s)) l) t) = level_spec M' l (t = side_buy)"
  proof (cases "l = loc \<and> (t = side_buy) = (sd = side_buy)")
    case True
    then show ?thesis using assms(2,3) by simp
  next
    case False
    then have "book_side ((books(loc := set_side (books loc) sd s)) l) t = book_side (books l) t" by auto
    moreover have "level_spec M' l (t = side_buy) = level_spec M l (t = side_buy)"
      using False by (intro assms(4)) auto
    ultimately show ?thesis using ok by simp
  qed
qed

text \<open>The tops of book depend on the best levels only.\<close>

definition tops :: "(u16 \<Rightarrow> order_book) \<Rightarrow> u16 \<Rightarrow> top_of_book option" where
  "tops books l = ob_top (books l)"

lemma tops_update:
  assumes "books_ok M books" "ls_inv s" "best (ls_abs s) = best (ls_abs (book_side (books loc) sd))"
  shows "tops (books(loc := set_side (books loc) sd s)) = tops books"
proof (rule ext)
  fix l
  let ?bk = "set_side (books loc) sd s"
  have inv: "book_inv (books loc)" by (rule books_ok_book_inv [OF assms(1)])
  have "book_inv ?bk" using inv assms(2) by (simp add: book_inv_def set_side_def)
  moreover have "best (ls_abs (bids ?bk)) = best (ls_abs (bids (books loc)))"
    "best (ls_abs (asks ?bk)) = best (ls_abs (asks (books loc)))"
    using assms(3) by (simp_all add: set_side_def book_side_def split: if_splits)
  ultimately have "ob_top ?bk = ob_top (books loc)"
    using ob_top_eq [OF inv] ob_top_eq [of ?bk] by (simp add: top_spec_def)
  then show "tops (books(loc := ?bk)) l = tops books l" by (simp add: tops_def)
qed

lemma finite_orders: "om_inv (GroupBest b) m \<Longrightarrow> finite (dom (om_abs m))"
  by (simp add: om_abs_def finite_dom_map_of)

text \<open>Whether an event at an order's level touches the best level of its side.\<close>

definition hits_top :: "(u64 \<rightharpoonup> order) \<Rightarrow> u16 \<Rightarrow> u8 \<Rightarrow> u32 \<Rightarrow> bool" where
  "hits_top M loc sd price \<longleftrightarrow> (\<forall>k \<in> dom (level_spec M loc (sd = side_buy)). k \<le> key_for sd price)"

lemma order_level: "finite (dom M) \<Longrightarrow> M r = Some ord \<Longrightarrow>
  okey ord \<in> dom (level_spec M (o_locate ord) (o_side ord = side_buy))"
  by (simp add: level_of_member(4) [of M r ord] in_level_def domIff)

text \<open>A reduction of a live order's level: complete for the whole order, partial otherwise.\<close>

lemma apply_reduce_spec:
  assumes ok: "books_ok M (eng_books e)" and M: "finite (dom M)" "card (dom M) < 2 ^ 32" "M r = Some ord"
    and same: "o_locate ord' = o_locate ord" "o_price ord' = o_price ord" "o_side ord' = o_side ord"
    and sh: "gone \<Longrightarrow> sh = o_shares ord" "sh \<le> o_shares ord"
  defines "M' \<equiv> (if gone then M(r := None) else M(r \<mapsto> ord\<lparr>o_shares := o_shares ord - sh\<rparr>))"
    and "t \<equiv> hits_top M (o_locate ord) (o_side ord) (o_price ord)"
  shows "\<exists>books'. apply_reduce b e ord' sh gone =
      Some (e\<lparr>eng_books := books'\<rparr>, update_of (o_locate ord) (o_price ord) (o_side ord) t) \<and>
    books_ok M' books' \<and> (\<not> t \<longrightarrow> tops books' = tops (eng_books e))"
proof -
  let ?loc = "o_locate ord" and ?sd = "o_side ord"
  let ?s = "book_side (eng_books e ?loc) ?sd" and ?bid = "?sd = side_buy"
  have inv: "ls_inv ?s" and abs: "ls_abs ?s = level_spec M ?loc ?bid" using ok by (auto simp: books_ok_def)
  obtain s' res where red: "ls_reduce b ?s (okey ord) sh gone = Some (s', res)" "ls_inv s'"
    "ls_abs s' = reduce_level (level_spec M ?loc ?bid) (okey ord) sh gone"
    "res = (if okey ord \<notin> dom (level_spec M ?loc ?bid) then KMissingLevel
      else if \<forall>k \<in> dom (level_spec M ?loc ?bid). k \<le> okey ord then KTopChanged else KOk)"
    using reduce_spec [OF inv, of b "okey ord" sh gone] unfolding abs by blast
  have res: "res = (if t then KTopChanged else KOk)"
    using order_level [OF M(1,3)] unfolding red(4) by (simp add: t_def hits_top_def okey_def)
  let ?books = "(eng_books e)(?loc := set_side (eng_books e ?loc) ?sd s')"
  have M': "level_spec M' l bid = (if l = ?loc \<and> bid = ?bid
      then reduce_level (level_spec M l bid) (okey ord) sh gone else level_spec M l bid)" for l bid
    using level_spec_remove [OF M, of l bid] level_spec_shrink [OF M sh(2), of l bid] sh(1)
    unfolding M'_def by (cases gone) simp_all
  have "books_ok M' ?books" by (rule books_ok_update [OF ok red(2)]) (simp_all only: M' red(3) simp_thms if_True if_False)
  moreover have "tops ?books = tops (eng_books e)" if "\<not> t"
    using level_arrays.reduce_keeps_best [OF inv red(1)] res that by (intro tops_update [OF ok red(2)]) simp
  moreover have "apply_reduce b e ord' sh gone =
      Some (e\<lparr>eng_books := ?books\<rparr>, update_of ?loc (o_price ord) ?sd t)"
    using red(1) by (simp add: apply_reduce_def same okey_def set_book_side_def res)
  ultimately show ?thesis by blast
qed

section \<open>The operations refine a map of live orders\<close>

text \<open>
  The abstract events. An execution or cancellation is clamped to the shares that rest; one
  of no shares changes nothing.
\<close>

definition fill :: "order \<Rightarrow> u32 \<Rightarrow> u32" where
  "fill ord shares = (if o_shares ord < shares then o_shares ord else shares)"

definition abs_reduce :: "(u64 \<rightharpoonup> order) \<Rightarrow> u64 \<Rightarrow> u32 \<Rightarrow> (u64 \<rightharpoonup> order)" where
  "abs_reduce M ref shares = (case M ref of
     None \<Rightarrow> M
   | Some ord \<Rightarrow>
       if fill ord shares = 0 then M
       else if fill ord shares = o_shares ord then M(ref := None)
       else M(ref \<mapsto> ord\<lparr>o_shares := o_shares ord - fill ord shares\<rparr>))"

definition new_order :: "u64 \<Rightarrow> u32 \<Rightarrow> u32 \<Rightarrow> u16 \<Rightarrow> u8 \<Rightarrow> order" where
  "new_order ref price shares locate side =
     \<lparr>o_ref = ref, o_price = price, o_shares = shares, o_locate = locate, o_side = side\<rparr>"

definition abs_replace :: "(u64 \<rightharpoonup> order) \<Rightarrow> u64 \<Rightarrow> u64 \<Rightarrow> u32 \<Rightarrow> u32 \<Rightarrow> (u64 \<rightharpoonup> order)" where
  "abs_replace M old_ref new_ref shares price = (case M old_ref of
     None \<Rightarrow> M
   | Some ord \<Rightarrow> M(old_ref := None, new_ref \<mapsto> new_order new_ref price shares (o_locate ord) (o_side ord)))"

lemma card_remove: "finite (dom M) \<Longrightarrow> M r = Some ord \<Longrightarrow> Suc (card (dom (M(r := None)))) = card (dom M)"
  using card_Suc_Diff1 [of "dom M" r] by (simp add: domI)

lemma card_shrink: "M r = Some ord \<Longrightarrow> card (dom (M(r \<mapsto> ord'))) = card (dom M)"
  by (simp add: insert_absorb domI)

text \<open>After the level has been reduced, the order leaves the table.\<close>

lemma remove_order_spec:
  assumes inv: "eng_inv b e" and ord: "eng_map e r = Some ord"
    and i: "full (eng_orders e) i" "om_get (eng_orders e) i = ord"
  defines "t \<equiv> hits_top (eng_map e) (o_locate ord) (o_side ord) (o_price ord)"
  shows "\<exists>m' books'. apply_reduce b e ord (o_shares ord) True =
      Some (e\<lparr>eng_books := books'\<rparr>, update_of (o_locate ord) (o_price ord) (o_side ord) t) \<and>
    eng_erase b (e\<lparr>eng_books := books'\<rparr>) i = Some (e\<lparr>eng_orders := m', eng_books := books'\<rparr>) \<and>
    eng_inv b (e\<lparr>eng_orders := m', eng_books := books'\<rparr>) \<and> om_abs m' = (eng_map e)(r := None) \<and>
    (\<not> t \<longrightarrow> tops books' = tops (eng_books e))"
proof -
  have om: "om_inv (GroupBest b) (eng_orders e)" and card: "card (dom (eng_map e)) < 2 ^ 32"
    and ok: "books_ok (eng_map e) (eng_books e)" using inv by (auto simp: eng_inv_def)
  have ref: "o_ref ord = r" by (rule om_abs_key [OF om ord])
  note fin = finite_orders [OF om]
  obtain books' where a: "apply_reduce b e ord (o_shares ord) True =
      Some (e\<lparr>eng_books := books'\<rparr>, update_of (o_locate ord) (o_price ord) (o_side ord) t)"
    "books_ok ((eng_map e)(r := None)) books'" "\<not> t \<longrightarrow> tops books' = tops (eng_books e)"
    using apply_reduce_spec [OF ok fin card ord refl refl refl, of True "o_shares ord" b]
    unfolding t_def by auto
  obtain m' where d: "om_erase (GroupBest b) (eng_orders e) i = Some m'" "om_inv (GroupBest b) m'"
    "om_abs m' = (eng_map e)(r := None)"
    using best_table.del_law [OF om i(1)] i(2) ref by auto
  have "card (dom (om_abs m')) < 2 ^ 32"
    unfolding d(3) using card_remove [OF fin ord] card by linarith
  then have "eng_inv b (e\<lparr>eng_orders := m', eng_books := books'\<rparr>)"
    using d(2,3) a(2) by (simp add: eng_inv_def)
  moreover have "eng_erase b (e\<lparr>eng_books := books'\<rparr>) i = Some (e\<lparr>eng_orders := m', eng_books := books'\<rparr>)"
    using d(1) by (simp add: eng_erase_def)
  ultimately show ?thesis using a(1,3) d(3) by blast
qed

lemma remove_spec:
  assumes inv: "eng_inv b e" and ord: "eng_map e r = Some ord"
  defines "t \<equiv> hits_top (eng_map e) (o_locate ord) (o_side ord) (o_price ord)"
  shows "\<exists>m' books'. eng_remove b e r = Some (e\<lparr>eng_orders := m', eng_books := books'\<rparr>,
      update_of (o_locate ord) (o_price ord) (o_side ord) t) \<and>
    eng_inv b (e\<lparr>eng_orders := m', eng_books := books'\<rparr>) \<and> om_abs m' = (eng_map e)(r := None) \<and>
    (\<not> t \<longrightarrow> tops books' = tops (eng_books e))"
proof -
  have om: "om_inv (GroupBest b) (eng_orders e)" using inv by (simp add: eng_inv_def)
  obtain i where i: "om_find (GroupBest b) (eng_orders e) r = Some (Some i)" "full (eng_orders e) i"
    "om_get (eng_orders e) i = ord" using best_table.find_known [OF om ord] by blast
  obtain m' books' where r: "apply_reduce b e ord (o_shares ord) True =
      Some (e\<lparr>eng_books := books'\<rparr>, update_of (o_locate ord) (o_price ord) (o_side ord) t)"
    "eng_erase b (e\<lparr>eng_books := books'\<rparr>) i = Some (e\<lparr>eng_orders := m', eng_books := books'\<rparr>)"
    "eng_inv b (e\<lparr>eng_orders := m', eng_books := books'\<rparr>)" "om_abs m' = (eng_map e)(r := None)"
    "\<not> t \<longrightarrow> tops books' = tops (eng_books e)"
    using remove_order_spec [OF inv ord i(2,3)] unfolding t_def by blast
  have "eng_remove b e r = Some (e\<lparr>eng_orders := m', eng_books := books'\<rparr>,
      update_of (o_locate ord) (o_price ord) (o_side ord) t)"
    by (simp add: eng_remove_def i(1,3) Let_def r(1,2))
  then show ?thesis using r(3-5) by blast
qed

lemma unknown_spec:
  assumes inv: "eng_inv b e" and none: "eng_map e r = None"
  shows "eng_remove b e r = Some (e\<lparr>unknown_ref := unknown_ref e + 1\<rparr>, no_update)"
    "eng_reduce b e r shares = Some (e\<lparr>unknown_ref := unknown_ref e + 1\<rparr>, no_update)"
    "eng_replace alloc b e r new shares price = Some (e\<lparr>unknown_ref := unknown_ref e + 1\<rparr>, no_update)"
    "eng_inv b (e\<lparr>unknown_ref := unknown_ref e + 1\<rparr>)"
proof -
  have "om_inv (GroupBest b) (eng_orders e)" using inv by (simp add: eng_inv_def)
  then have f: "om_find (GroupBest b) (eng_orders e) r = Some None" using none by (rule best_table.find_unknown)
  show "eng_remove b e r = Some (e\<lparr>unknown_ref := unknown_ref e + 1\<rparr>, no_update)"
    "eng_reduce b e r shares = Some (e\<lparr>unknown_ref := unknown_ref e + 1\<rparr>, no_update)"
    "eng_replace alloc b e r new shares price = Some (e\<lparr>unknown_ref := unknown_ref e + 1\<rparr>, no_update)"
    by (simp_all add: eng_remove_def eng_reduce_def eng_replace_def f)
  show "eng_inv b (e\<lparr>unknown_ref := unknown_ref e + 1\<rparr>)" using inv by (simp add: eng_inv_def)
qed

text \<open>Executions and cancellations.\<close>

lemma fill_le: "fill ord sh \<le> o_shares ord"
  by (simp add: fill_def not_less)

definition count_fill :: "order \<Rightarrow> u32 \<Rightarrow> engine \<Rightarrow> engine" where
  "count_fill ord shares e = (if o_shares ord < shares then e\<lparr>overfill := overfill e + 1\<rparr> else e)"

lemma count_fill_simps [simp]:
  "eng_orders (count_fill ord shares e) = eng_orders e" "eng_books (count_fill ord shares e) = eng_books e"
  "missing_level (count_fill ord shares e) = missing_level e"
  "unknown_ref (count_fill ord shares e) = unknown_ref e"
  "eng_inv b (count_fill ord shares e) = eng_inv b e"
  "eng_inv b ((count_fill ord shares e)\<lparr>eng_orders := m, eng_books := books\<rparr>) =
    eng_inv b (e\<lparr>eng_orders := m, eng_books := books\<rparr>)"
  by (simp_all add: count_fill_def eng_inv_def)

lemma eng_reduce_eq:
  fixes shares :: u32
  assumes "om_find (GroupBest b) (eng_orders e) r = Some (Some i)" "om_get (eng_orders e) i = ord"
  defines "e1 \<equiv> count_fill ord shares e" and "sh \<equiv> fill ord shares"
  defines "ord' \<equiv> ord\<lparr>o_shares := o_shares ord - sh\<rparr>"
  shows "eng_reduce b e r shares =
    (if sh = 0 then Some (e1, update_of (o_locate ord) (o_price ord) (o_side ord) False)
     else do {
       (e3, u) \<leftarrow> apply_reduce b (e1\<lparr>eng_orders := om_put (eng_orders e1) i ord'\<rparr>) ord' sh (sh = o_shares ord);
       e4 \<leftarrow> (if sh = o_shares ord then eng_erase b e3 i else Some e3);
       Some (e4, u) })"
proof -
  have "(if o_shares ord < shares then (e\<lparr>overfill := overfill e + 1\<rparr>, o_shares ord) else (e, shares)) = (e1, sh)"
    by (simp add: e1_def sh_def count_fill_def fill_def)
  moreover have "o_shares ord' = 0 \<longleftrightarrow> sh = o_shares ord" by (auto simp: ord'_def)
  ultimately show ?thesis
    unfolding eng_reduce_def assms(1) bind.bind_lunit option.case assms(2) Let_def prod.case ord'_def
    by simp
qed

lemma reduce_order_spec:
  fixes sh :: u32
  assumes inv: "eng_inv b e" and ord: "eng_map e r = Some ord"
    and i: "full (eng_orders e) i" "om_get (eng_orders e) i = ord"
    and sh: "sh \<noteq> 0" "sh \<le> o_shares ord"
  defines "t \<equiv> hits_top (eng_map e) (o_locate ord) (o_side ord) (o_price ord)"
    and "ord' \<equiv> ord\<lparr>o_shares := o_shares ord - sh\<rparr>"
    and "M' \<equiv> (if sh = o_shares ord then (eng_map e)(r := None)
      else (eng_map e)(r \<mapsto> ord\<lparr>o_shares := o_shares ord - sh\<rparr>))"
  shows "\<exists>m' books'. do {
      (e3, u) \<leftarrow> apply_reduce b (e\<lparr>eng_orders := om_put (eng_orders e) i ord'\<rparr>) ord' sh (sh = o_shares ord);
      e4 \<leftarrow> (if sh = o_shares ord then eng_erase b e3 i else Some e3);
      Some (e4, u) } = Some (e\<lparr>eng_orders := m', eng_books := books'\<rparr>,
      update_of (o_locate ord) (o_price ord) (o_side ord) t) \<and>
    eng_inv b (e\<lparr>eng_orders := m', eng_books := books'\<rparr>) \<and> om_abs m' = M' \<and>
    (\<not> t \<longrightarrow> tops books' = tops (eng_books e))"
proof -
  have om: "om_inv (GroupBest b) (eng_orders e)" and card: "card (dom (eng_map e)) < 2 ^ 32"
    and ok: "books_ok (eng_map e) (eng_books e)" using inv by (auto simp: eng_inv_def)
  have ref: "o_ref ord = r" "o_ref ord' = o_ref (om_get (eng_orders e) i)"
    using om_abs_key [OF om ord] by (simp_all add: ord'_def i(2))
  note fin = finite_orders [OF om]
  have same: "o_locate ord' = o_locate ord" "o_price ord' = o_price ord" "o_side ord' = o_side ord"
    by (simp_all add: ord'_def)
  let ?e = "e\<lparr>eng_orders := om_put (eng_orders e) i ord'\<rparr>"
  have ok': "books_ok (eng_map e) (eng_books ?e)" using ok by simp
  obtain books' where a: "apply_reduce b ?e ord' sh (sh = o_shares ord) =
      Some (?e\<lparr>eng_books := books'\<rparr>, update_of (o_locate ord) (o_price ord) (o_side ord) t)"
    "books_ok M' books'" "\<not> t \<longrightarrow> tops books' = tops (eng_books e)"
    using apply_reduce_spec [OF ok' fin card ord same, of "sh = o_shares ord" sh b] sh(2)
    unfolding t_def M'_def by auto
  have "card (dom M') < 2 ^ 32"
    using card_remove [OF fin ord] card_shrink [of "eng_map e" r ord, OF ord] card by (simp add: M'_def)
  then have inv': "eng_inv b (e\<lparr>eng_orders := m', eng_books := books'\<rparr>)"
    if "om_inv (GroupBest b) m'" "om_abs m' = M'" for m'
    using that a(2) by (simp add: eng_inv_def)
  show ?thesis
  proof (cases "sh = o_shares ord")
    case True
    obtain m' where d: "om_erase (GroupBest b) (om_put (eng_orders e) i ord') i = Some m'"
      "om_inv (GroupBest b) m'" "om_abs m' = (eng_map e)(o_ref ord' := None)"
      using best_table.put_del [OF om i(1) ref(2)] by blast
    have "om_abs m' = M'" using d(3) ref True by (simp add: M'_def i(2))
    then show ?thesis using inv' [OF d(2)] a(1,3) d(1) True
      by (intro exI [of _ m'] exI [of _ books']) (simp add: eng_erase_def)
  next
    case False
    let ?m = "om_put (eng_orders e) i ord'"
    have p: "om_inv (GroupBest b) ?m" "om_abs ?m = (eng_map e)(o_ref ord' \<mapsto> ord')"
      using best_table.put_law [OF om i(1) ref(2)] by auto
    have "om_abs ?m = M'" using p(2) ref False by (simp add: M'_def i(2) ord'_def)
    then show ?thesis using inv' [OF p(1)] a(1,3) False
      by (intro exI [of _ ?m] exI [of _ books']) simp
  qed
qed

lemma reduce_known_spec:
  fixes shares :: u32
  assumes inv: "eng_inv b e" and ord: "eng_map e r = Some ord"
  defines "t \<equiv> fill ord shares \<noteq> 0 \<and> hits_top (eng_map e) (o_locate ord) (o_side ord) (o_price ord)"
  shows "\<exists>m' books'. eng_reduce b e r shares =
      Some ((count_fill ord shares e)\<lparr>eng_orders := m', eng_books := books'\<rparr>,
      update_of (o_locate ord) (o_price ord) (o_side ord) t) \<and>
    eng_inv b (e\<lparr>eng_orders := m', eng_books := books'\<rparr>) \<and> om_abs m' = abs_reduce (eng_map e) r shares \<and>
    (\<not> t \<longrightarrow> tops books' = tops (eng_books e))"
proof -
  have om: "om_inv (GroupBest b) (eng_orders e)" using inv by (simp add: eng_inv_def)
  obtain i where i: "om_find (GroupBest b) (eng_orders e) r = Some (Some i)" "full (eng_orders e) i"
    "om_get (eng_orders e) i = ord" using best_table.find_known [OF om ord] by blast
  note eq = eng_reduce_eq [OF i(1,3), of shares]
  show ?thesis
  proof (cases "fill ord shares = 0")
    case True
    then show ?thesis
      using inv by (intro exI [of _ "eng_orders e"] exI [of _ "eng_books e"])
        (simp add: eq t_def abs_reduce_def ord count_fill_def)
  next
    case False
    let ?c = "count_fill ord shares e"
    have a: "eng_inv b ?c" "om_abs (eng_orders ?c) r = Some ord" "full (eng_orders ?c) i"
      "om_get (eng_orders ?c) i = ord" using inv ord i by simp_all
    have M': "abs_reduce (eng_map e) r shares = (if fill ord shares = o_shares ord then (eng_map e)(r := None)
        else (eng_map e)(r \<mapsto> ord\<lparr>o_shares := o_shares ord - fill ord shares\<rparr>))"
      using False by (simp add: abs_reduce_def ord)
    have t: "t = hits_top (eng_map e) (o_locate ord) (o_side ord) (o_price ord)" using False by (simp add: t_def)
    show ?thesis
      using reduce_order_spec [OF a False fill_le] unfolding eq if_not_P [OF False] M' t
      by (simp only: count_fill_simps)
  qed
qed

text \<open>Additions: they fail only if the table or the side is full and cannot grow.\<close>

definition no_room :: "(nat \<Rightarrow> bool) \<Rightarrow> isa \<Rightarrow> engine \<Rightarrow> u16 \<Rightarrow> u8 \<Rightarrow> bool" where
  "no_room alloc b e loc sd \<longleftrightarrow>
     (growth_left (eng_orders e) = 0 \<and>
       (\<exists>groups \<in> {om_capacity (eng_orders e) div kWidth (GroupBest b),
           om_capacity (eng_orders e) div kWidth (GroupBest b) * 2}.
          om_allocate alloc (GroupBest b) groups (eng_orders e) = None)) \<or>
     (let s = book_side (eng_books e loc) sd in ls_size s = ls_cap s \<and> ls_grow alloc s = None)"

lemma level_count:
  assumes "finite (dom M)" "card (dom M) + 1 < 2 ^ 32" "level_spec M loc bid key = Some (q, c)"
  shows "c + 1 \<noteq> 0"
proof -
  let ?n = "card (level_refs M loc bid key)"
  have "c = of_nat ?n" using assms(3) by (auto simp: level_spec_eq split: if_splits)
  moreover have "?n \<le> card (dom M)" by (rule card_level_refs [OF assms(1)])
  then have "Suc ?n < 2 ^ 32" using assms(2) by linarith
  then have "(of_nat (Suc ?n) :: u32) \<noteq> 0" using count_of_nat [of "Suc ?n"] by simp
  ultimately show ?thesis by (simp add: add.commute)
qed

lemma add_order_spec:
  fixes loc :: u16 and sd :: u8 and price :: u32
  assumes inv: "eng_inv b e" and new: "eng_map e ref = None" and card: "card (dom (eng_map e)) + 1 < 2 ^ 32"
  defines "t \<equiv> hits_top (eng_map e) loc sd price"
  shows "(\<exists>m' books'. eng_add alloc b e loc ref sd shares price =
      Some (e\<lparr>eng_orders := m', eng_books := books'\<rparr>, update_of loc price sd t) \<and>
    eng_inv b (e\<lparr>eng_orders := m', eng_books := books'\<rparr>) \<and>
    om_abs m' = (eng_map e)(ref \<mapsto> new_order ref price shares loc sd) \<and>
    (\<not> t \<longrightarrow> tops books' = tops (eng_books e))) \<or>
    (eng_add alloc b e loc ref sd shares price = None \<and> no_room alloc b e loc sd)"
proof -
  have om: "om_inv (GroupBest b) (eng_orders e)" and ok: "books_ok (eng_map e) (eng_books e)"
    using inv by (auto simp: eng_inv_def)
  let ?M = "eng_map e" and ?s = "book_side (eng_books e loc) sd" and ?bid = "sd = side_buy"
  let ?ord = "new_order ref price shares loc sd" and ?M' = "(eng_map e)(ref \<mapsto> new_order ref price shares loc sd)"
  note fin = finite_orders [OF om]
  have s: "ls_inv ?s" "ls_abs ?s = level_spec ?M loc ?bid" using ok by (auto simp: books_ok_def)
  have cnt: "c + 1 \<noteq> 0" if "ls_abs ?s (key_for sd price) = Some (q, c)" for q c
    using that level_count [OF fin card] unfolding s(2) by blast
  consider (full) "om_insert alloc (GroupBest b) (eng_orders e) ref = None" "no_room alloc b e loc sd"
    | (ins) i m where "om_insert alloc (GroupBest b) (eng_orders e) ref = Some (i, m)"
    using best_group.insert_spec [OF om new, of alloc] by (auto simp: no_room_def)
  then show ?thesis
  proof cases
    case full
    then show ?thesis by (simp add: eng_add_def)
  next
    case ins
    define m' where "m' = om_put m i ((om_get m i)\<lparr>o_price := price, o_shares := shares, o_locate := loc, o_side := sd\<rparr>)"
    have get: "o_ref (om_get m i) = ref" using best_table.ins_law [OF om new ins] by simp
    then have ord: "(om_get m i)\<lparr>o_price := price, o_shares := shares, o_locate := loc, o_side := sd\<rparr> = ?ord"
      by (cases "om_get m i") (simp add: new_order_def)
    have m': "om_inv (GroupBest b) m'" "om_abs m' = ?M'"
      using best_table.ins_put [OF om new ins, of ?ord] ord by (simp_all add: m'_def new_order_def)
    have eq: "eng_add alloc b e loc ref sd shares price = do {
        (s', t) \<leftarrow> ls_add alloc b ?s (key_for sd price) shares;
        Some (set_book_side (e\<lparr>eng_orders := m'\<rparr>) loc sd s', update_of loc price sd t) }"
      unfolding eng_add_def ins bind.bind_lunit prod.case Let_def m'_def [symmetric] by simp
    show ?thesis
    proof (cases "ls_add alloc b ?s (key_for sd price) shares")
      case None
      then have "ls_size ?s = ls_cap ?s \<and> ls_grow alloc ?s = None"
        using add_spec [of ?s "key_for sd price" alloc b shares, OF s(1) cnt] by auto
      then show ?thesis by (simp add: eq None no_room_def)
    next
      case (Some st)
      obtain s' u where st: "st = (s', u)" by (cases st)
      note add = Some [unfolded st]
      have r: "ls_inv s'" "ls_abs s' = add_level (ls_abs ?s) (key_for sd price) shares" "u = t"
        using level_arrays.add_law [OF s(1) cnt add] by (auto simp: s(2) t_def hits_top_def)
      let ?books = "(eng_books e)(loc := set_side (eng_books e loc) sd s')"
      have M': "level_spec ?M' l bid = (if l = loc \<and> bid = ?bid
          then add_level (level_spec ?M l bid) (key_for sd price) shares else level_spec ?M l bid)" for l bid
        using level_spec_add [OF fin new, of ?ord l bid] by (simp add: new_order_def okey_def)
      have books: "books_ok ?M' ?books"
        by (rule books_ok_update [OF ok r(1)]) (simp_all only: M' r(2) s(2) simp_thms if_True if_False)
      have "tops ?books = tops (eng_books e)" if "\<not> t"
        using level_arrays.add_keeps_best [OF s(1) cnt] add r(3) that by (intro tops_update [OF ok r(1)]) simp
      moreover have "card (dom ?M') < 2 ^ 32" using card fin new by (simp add: domIff)
      then have "eng_inv b (e\<lparr>eng_orders := m', eng_books := ?books\<rparr>)"
        using m' books by (simp add: eng_inv_def)
      moreover have "eng_add alloc b e loc ref sd shares price =
          Some (e\<lparr>eng_orders := m', eng_books := ?books\<rparr>, update_of loc price sd t)"
        by (simp add: eq add r(3) set_book_side_def)
      ultimately show ?thesis using m'(2) by blast
    qed
  qed
qed

text \<open>A replacement is a removal and an addition on the same side of the same locate.\<close>

lemma replace_spec:
  fixes price :: u32
  assumes inv: "eng_inv b e" and ord: "eng_map e old_ref = Some ord"
    and new: "new_ref = old_ref \<or> eng_map e new_ref = None"
  defines "M1 \<equiv> (eng_map e)(old_ref := None)"
  defines "t \<equiv> hits_top M1 (o_locate ord) (o_side ord) price \<or>
    hits_top (eng_map e) (o_locate ord) (o_side ord) (o_price ord)"
  shows "(\<exists>m' books'. eng_replace alloc b e old_ref new_ref shares price =
      Some (e\<lparr>eng_orders := m', eng_books := books'\<rparr>, update_of (o_locate ord) price (o_side ord) t) \<and>
    eng_inv b (e\<lparr>eng_orders := m', eng_books := books'\<rparr>) \<and>
    om_abs m' = abs_replace (eng_map e) old_ref new_ref shares price \<and>
    (\<not> t \<longrightarrow> tops books' = tops (eng_books e))) \<or>
    (eng_replace alloc b e old_ref new_ref shares price = None \<and>
      (\<exists>e2. fst ` set_option (eng_remove b e old_ref) = {e2} \<and> no_room alloc b e2 (o_locate ord) (o_side ord)))"
proof -
  have om: "om_inv (GroupBest b) (eng_orders e)" and card: "card (dom (eng_map e)) < 2 ^ 32"
    using inv by (auto simp: eng_inv_def)
  obtain i where i: "om_find (GroupBest b) (eng_orders e) old_ref = Some (Some i)" "full (eng_orders e) i"
    "om_get (eng_orders e) i = ord" using best_table.find_known [OF om ord] by blast
  let ?loc = "o_locate ord" and ?sd = "o_side ord" and ?tr = "hits_top (eng_map e) (o_locate ord) (o_side ord) (o_price ord)"
  obtain m1 books1 where r: "apply_reduce b e ord (o_shares ord) True =
      Some (e\<lparr>eng_books := books1\<rparr>, update_of ?loc (o_price ord) ?sd ?tr)"
    "eng_erase b (e\<lparr>eng_books := books1\<rparr>) i = Some (e\<lparr>eng_orders := m1, eng_books := books1\<rparr>)"
    "eng_inv b (e\<lparr>eng_orders := m1, eng_books := books1\<rparr>)" "om_abs m1 = M1"
    "\<not> ?tr \<longrightarrow> tops books1 = tops (eng_books e)"
    using remove_order_spec [OF inv ord i(2,3)] unfolding M1_def by blast
  let ?e2 = "e\<lparr>eng_orders := m1, eng_books := books1\<rparr>"
  have rem: "eng_remove b e old_ref = Some (?e2, update_of ?loc (o_price ord) ?sd ?tr)"
    by (simp add: eng_remove_def i(1,3) Let_def r(1,2))
  have eq: "eng_replace alloc b e old_ref new_ref shares price = do {
      (e3, added) \<leftarrow> eng_add alloc b ?e2 ?loc new_ref ?sd shares price;
      Some (e3, added\<lparr>bu_top_changed := bu_top_changed added \<or> ?tr\<rparr>) }"
    by (simp add: eng_replace_def i(1,3) Let_def r(1,2) update_of_def)
  have new': "eng_map ?e2 new_ref = None" using new by (auto simp: r(4) M1_def)
  have card': "card (dom (eng_map ?e2)) + 1 < 2 ^ 32"
    using card_remove [OF finite_orders [OF om] ord] card by (simp add: r(4) M1_def)
  from add_order_spec [OF r(3) new' card', of alloc ?loc ?sd shares price] show ?thesis
  proof
    assume "\<exists>m' books'. eng_add alloc b ?e2 ?loc new_ref ?sd shares price =
        Some (?e2\<lparr>eng_orders := m', eng_books := books'\<rparr>, update_of ?loc price ?sd (hits_top (eng_map ?e2) ?loc ?sd price)) \<and>
      eng_inv b (?e2\<lparr>eng_orders := m', eng_books := books'\<rparr>) \<and>
      om_abs m' = (eng_map ?e2)(new_ref \<mapsto> new_order new_ref price shares ?loc ?sd) \<and>
      (\<not> hits_top (eng_map ?e2) ?loc ?sd price \<longrightarrow> tops books' = tops (eng_books ?e2))"
    then obtain m' books' where a: "eng_add alloc b ?e2 ?loc new_ref ?sd shares price =
        Some (e\<lparr>eng_orders := m', eng_books := books'\<rparr>, update_of ?loc price ?sd (hits_top M1 ?loc ?sd price))"
      "eng_inv b (e\<lparr>eng_orders := m', eng_books := books'\<rparr>)"
      "om_abs m' = M1(new_ref \<mapsto> new_order new_ref price shares ?loc ?sd)"
      "\<not> hits_top M1 ?loc ?sd price \<longrightarrow> tops books' = tops books1"
      by (auto simp: r(4))
    have "eng_replace alloc b e old_ref new_ref shares price =
        Some (e\<lparr>eng_orders := m', eng_books := books'\<rparr>, update_of ?loc price ?sd t)"
      by (simp add: eq a(1) update_of_def t_def)
    moreover have "om_abs m' = abs_replace (eng_map e) old_ref new_ref shares price"
      by (simp add: a(3) abs_replace_def ord M1_def)
    moreover have "tops books' = tops (eng_books e)" if "\<not> t" using that a(4) r(5) by (simp add: t_def)
    ultimately show ?thesis using a(2) by blast
  next
    assume "eng_add alloc b ?e2 ?loc new_ref ?sd shares price = None \<and> no_room alloc b ?e2 ?loc ?sd"
    then show ?thesis by (simp add: eq rem)
  qed
qed

section \<open>Start-up and allocation\<close>

lemma new_engine_spec:
  assumes "new_engine alloc b n = Some e"
  shows "eng_inv b e \<and> eng_map e = Map.empty \<and> n \<le> growth_left (eng_orders e) \<and> missing_level e = 0"
proof -
  obtain m where m: "new_omap alloc (GroupBest b) n = Some m"
    "e = \<lparr>eng_orders = m, eng_books = (\<lambda>_. new_book), unknown_ref = 0, missing_level = 0, overfill = 0\<rparr>"
    using assms by (auto simp: new_engine_def bind_eq_Some_conv split: if_splits)
  note sp = new_omap_spec [OF m(1)]
  have "level_spec Map.empty loc bid = Map.empty" for loc bid
    by (rule ext) (simp add: level_spec_eq level_refs_def)
  moreover have "ls_inv (book_side new_book sd)" "ls_abs (book_side new_book sd) = Map.empty" for sd
    using new_side_inv by (simp_all add: book_side_def new_book_def)
  ultimately show ?thesis using sp by (simp add: m(2) eng_inv_def books_ok_def)
qed

lemma books_ok_side:
  "books_ok M books \<Longrightarrow> ls_inv (book_side (books loc) sd) \<and>
     ls_abs (book_side (books loc) sd) = level_spec M loc (sd = side_buy)"
  by (simp add: books_ok_def)

lemma prepare_spec:
  assumes inv: "eng_inv b e"
  shows "(\<exists>books'. eng_prepare alloc e loc = Some (e\<lparr>eng_books := books'\<rparr>) \<and>
      eng_inv b (e\<lparr>eng_books := books'\<rparr>) \<and> tops books' = tops (eng_books e)) \<or>
    (eng_prepare alloc e loc = None \<and> (\<exists>sd. ls_grow alloc (book_side (eng_books e loc) sd) = None))"
proof -
  let ?bk = "eng_books e loc"
  have ok: "books_ok (eng_map e) (eng_books e)" using inv by (simp add: eng_inv_def)
  have bi: "ls_inv (bids ?bk)" "ls_inv (asks ?bk)"
    using books_ok_book_inv [OF ok, of loc] by (simp_all add: book_inv_def)
  have sides: "book_side ?bk side_buy = bids ?bk" "book_side ?bk 0 = asks ?bk"
    by (simp_all add: book_side_def side_buy_def)
  show ?thesis
  proof (cases "eng_prepare alloc e loc")
    case None
    then have "reserve_initial alloc (bids ?bk) = None \<or> reserve_initial alloc (asks ?bk) = None"
      by (auto simp: eng_prepare_def bind_eq_None_conv)
    then have "ls_grow alloc (bids ?bk) = None \<or> ls_grow alloc (asks ?bk) = None"
      by (auto simp: reserve_initial_def split: if_splits)
    then show ?thesis using None sides by metis
  next
    case (Some e')
    then obtain s1 s2 where s: "reserve_initial alloc (bids ?bk) = Some s1"
      "reserve_initial alloc (asks ?bk) = Some s2" "e' = e\<lparr>eng_books := (eng_books e)(loc := \<lparr>bids = s1, asks = s2\<rparr>)\<rparr>"
      by (auto simp: eng_prepare_def bind_eq_Some_conv)
    note r1 = reserve_spec [OF bi(1) s(1)] and r2 = reserve_spec [OF bi(2) s(2)]
    let ?books = "(eng_books e)(loc := \<lparr>bids = s1, asks = s2\<rparr>)"
    have same: "ls_inv (book_side (?books l) sd) \<and> ls_abs (book_side (?books l) sd) = ls_abs (book_side (eng_books e l) sd)"
      for l sd
      using r1 r2 books_ok_side [OF ok, of l sd] by (cases "l = loc"; cases "sd = side_buy") (simp_all add: book_side_def)
    have "books_ok (eng_map e) ?books"
      unfolding books_ok_def using same books_ok_side [OF ok] by simp
    then have inv': "eng_inv b (e\<lparr>eng_books := ?books\<rparr>)" using inv by (simp add: eng_inv_def)
    have "ob_top (?books l) = ob_top (eng_books e l)" for l
      using ob_top_eq [OF books_ok_book_inv [OF ok], of l]
        ob_top_eq [OF books_ok_book_inv [OF \<open>books_ok (eng_map e) ?books\<close>], of l] r1 r2 by simp
    then have "tops ?books = tops (eng_books e)" by (intro ext) (simp add: tops_def)
    with Some s(3) inv' show ?thesis by blast
  qed
qed

section \<open>Events and reachable states\<close>

text \<open>The events of the engine's interface, one per operation that changes it.\<close>

datatype event =
    Add u16 u64 u8 u32 u32
  | Reduce u64 u32
  | Remove u64
  | Replace u64 u64 u32 u32
  | Prepare u16

fun apply_event :: "(nat \<Rightarrow> bool) \<Rightarrow> isa \<Rightarrow> event \<Rightarrow> engine \<Rightarrow> (engine \<times> book_update) option" where
  "apply_event alloc b (Add loc ref side shares price) e = eng_add alloc b e loc ref side shares price"
| "apply_event alloc b (Reduce ref shares) e = eng_reduce b e ref shares"
| "apply_event alloc b (Remove ref) e = eng_remove b e ref"
| "apply_event alloc b (Replace old_ref new_ref shares price) e =
     eng_replace alloc b e old_ref new_ref shares price"
| "apply_event alloc b (Prepare loc) e = do { e' \<leftarrow> eng_prepare alloc e loc; Some (e', no_update) }"

text \<open>What an event does to the map of live orders, and which orders it may be applied to.\<close>

fun abs_event :: "event \<Rightarrow> (u64 \<rightharpoonup> order) \<Rightarrow> (u64 \<rightharpoonup> order)" where
  "abs_event (Add loc ref side shares price) M = M(ref \<mapsto> new_order ref price shares loc side)"
| "abs_event (Reduce ref shares) M = abs_reduce M ref shares"
| "abs_event (Remove ref) M = M(ref := None)"
| "abs_event (Replace old_ref new_ref shares price) M = abs_replace M old_ref new_ref shares price"
| "abs_event (Prepare loc) M = M"

fun admissible :: "event \<Rightarrow> (u64 \<rightharpoonup> order) \<Rightarrow> bool" where
  "admissible (Add loc ref side shares price) M \<longleftrightarrow> M ref = None \<and> card (dom M) + 1 < 2 ^ 32"
| "admissible (Replace old_ref new_ref shares price) M \<longleftrightarrow> new_ref = old_ref \<or> M new_ref = None"
| "admissible (Reduce ref shares) M \<longleftrightarrow> True"
| "admissible (Remove ref) M \<longleftrightarrow> True"
| "admissible (Prepare loc) M \<longleftrightarrow> True"

fun unknown :: "event \<Rightarrow> (u64 \<rightharpoonup> order) \<Rightarrow> bool" where
  "unknown (Reduce ref shares) M \<longleftrightarrow> M ref = None"
| "unknown (Remove ref) M \<longleftrightarrow> M ref = None"
| "unknown (Replace old_ref new_ref shares price) M \<longleftrightarrow> M old_ref = None"
| "unknown _ M \<longleftrightarrow> False"

fun overfills :: "event \<Rightarrow> (u64 \<rightharpoonup> order) \<Rightarrow> bool" where
  "overfills (Reduce ref shares) M \<longleftrightarrow> (case M ref of None \<Rightarrow> False | Some ord \<Rightarrow> o_shares ord < shares)"
| "overfills _ M \<longleftrightarrow> False"

fun out_of_memory :: "(nat \<Rightarrow> bool) \<Rightarrow> isa \<Rightarrow> engine \<Rightarrow> event \<Rightarrow> bool" where
  "out_of_memory alloc b e (Add loc ref side shares price) \<longleftrightarrow> no_room alloc b e loc side"
| "out_of_memory alloc b e (Replace old_ref new_ref shares price) \<longleftrightarrow>
     (\<exists>ord e2. eng_map e old_ref = Some ord \<and> fst ` set_option (eng_remove b e old_ref) = {e2} \<and>
       no_room alloc b e2 (o_locate ord) (o_side ord))"
| "out_of_memory alloc b e (Prepare loc) \<longleftrightarrow> (\<exists>sd. ls_grow alloc (book_side (eng_books e loc) sd) = None)"
| "out_of_memory alloc b e (Reduce ref shares) \<longleftrightarrow> False"
| "out_of_memory alloc b e (Remove ref) \<longleftrightarrow> False"

text \<open>The statement that every operation is proved to meet.\<close>

definition event_ok :: "isa \<Rightarrow> event \<Rightarrow> engine \<Rightarrow> engine \<Rightarrow> book_update \<Rightarrow> bool" where
  "event_ok b ev e e' u \<longleftrightarrow> eng_inv b e' \<and> eng_map e' = abs_event ev (eng_map e) \<and>
     (\<not> bu_top_changed u \<longrightarrow> tops (eng_books e') = tops (eng_books e)) \<and>
     missing_level e' = missing_level e \<and>
     unknown_ref e' = unknown_ref e + (if unknown ev (eng_map e) then 1 else 0) \<and>
     overfill e' = overfill e + (if overfills ev (eng_map e) then 1 else 0)"

lemma fun_upd_none: "M r = None \<Longrightarrow> M(r := None) = M"
  by (simp add: fun_upd_idem)

lemma unknown_ok:
  assumes "eng_inv b e" "eng_map e r = None"
  shows "event_ok b (Reduce r shares) e (e\<lparr>unknown_ref := unknown_ref e + 1\<rparr>) no_update"
    "event_ok b (Remove r) e (e\<lparr>unknown_ref := unknown_ref e + 1\<rparr>) no_update"
    "event_ok b (Replace r new shares price) e (e\<lparr>unknown_ref := unknown_ref e + 1\<rparr>) no_update"
  using unknown_spec(4) [OF assms] assms(2)
  by (simp_all add: event_ok_def abs_reduce_def abs_replace_def fun_upd_none)

lemma event_refines:
  assumes inv: "eng_inv b e" and adm: "admissible ev (eng_map e)"
  shows "(\<exists>e' u. apply_event alloc b ev e = Some (e', u) \<and> event_ok b ev e e' u) \<or>
    (apply_event alloc b ev e = None \<and> out_of_memory alloc b e ev)"
proof (cases ev)
  case (Add loc ref side shares price)
  then have "eng_map e ref = None" "card (dom (eng_map e)) + 1 < 2 ^ 32" using adm by simp_all
  from add_order_spec [OF inv this, of alloc loc side shares price] show ?thesis
    by (elim disjE exE conjE) (simp_all add: Add event_ok_def update_of_def)
next
  case (Reduce ref shares)
  show ?thesis
  proof (cases "eng_map e ref")
    case None
    with unknown_spec(2) [OF inv None] unknown_ok(1) [OF inv None] Reduce show ?thesis by simp
  next
    case (Some ord)
    from reduce_known_spec [OF inv Some, of shares] show ?thesis
      by (elim exE conjE) (simp add: Reduce event_ok_def update_of_def Some count_fill_def eng_inv_def)
  qed
next
  case (Remove ref)
  show ?thesis
  proof (cases "eng_map e ref")
    case None
    with unknown_spec(1) [OF inv None] unknown_ok(2) [OF inv None] Remove show ?thesis by simp
  next
    case (Some ord)
    from remove_spec [OF inv Some] show ?thesis
      by (elim exE conjE) (simp add: Remove event_ok_def update_of_def Some)
  qed
next
  case (Replace old_ref new_ref shares price)
  show ?thesis
  proof (cases "eng_map e old_ref")
    case None
    with unknown_spec(3) [OF inv None] unknown_ok(3) [OF inv None] Replace show ?thesis by simp
  next
    case (Some ord)
    have "new_ref = old_ref \<or> eng_map e new_ref = None" using adm Replace by simp
    from replace_spec [OF inv Some this, of alloc shares price] show ?thesis
      by (elim disjE exE conjE) (simp_all add: Replace event_ok_def update_of_def Some)
  qed
next
  case (Prepare loc)
  from prepare_spec [OF inv, of alloc loc] show ?thesis
    by (elim disjE exE conjE) (simp_all add: Prepare event_ok_def no_update_def, blast)
qed

inductive reachable_engine :: "(nat \<Rightarrow> bool) \<Rightarrow> isa \<Rightarrow> engine \<Rightarrow> bool" for alloc b where
  start: "new_engine alloc b n = Some e \<Longrightarrow> reachable_engine alloc b e"
| step: "reachable_engine alloc b e \<Longrightarrow> admissible ev (eng_map e) \<Longrightarrow>
    apply_event alloc b ev e = Some (e', u) \<Longrightarrow> reachable_engine alloc b e'"

lemma event_step:
  assumes "eng_inv b e" "admissible ev (eng_map e)" "apply_event alloc b ev e = Some (e', u)"
  shows "event_ok b ev e e' u"
  using event_refines [OF assms(1,2), of alloc] assms(3) by auto

lemma reachable_inv: "reachable_engine alloc b e \<Longrightarrow> eng_inv b e \<and> missing_level e = 0"
proof (induction rule: reachable_engine.induct)
  case (start n e)
  then show ?case using new_engine_spec by blast
next
  case (step e ev e' u)
  then show ?case using event_step [of b e ev alloc e' u] by (simp add: event_ok_def)
qed

lemma level_shares_bound:
  "finite R \<Longrightarrow> level_shares M R \<le> card R * (2 ^ 32 - 1)"
proof (induction R rule: finite_induct)
  case empty
  then show ?case by (simp add: level_shares_def)
next
  case (insert r R)
  have "unat (o_shares (the (M r))) < 2 ^ 32" by (rule order_less_le_trans [OF unsigned_less]) simp
  then have "unat (o_shares (the (M r))) \<le> 2 ^ 32 - 1" by linarith
  then show ?case using insert by (simp add: level_shares_def)
qed

lemma level_exact:
  assumes "finite (dom M)" "card (dom M) < 2 ^ 32" "level_spec M loc bid key = Some (q, c)"
  shows "unat q = level_shares M (level_refs M loc bid key) \<and> unat c = card (level_refs M loc bid key) \<and> 0 < c"
proof -
  let ?R = "level_refs M loc bid key"
  have R: "?R \<noteq> {}" "finite ?R" "card ?R < 2 ^ 32"
    using assms(3) finite_level_refs [OF assms(1)] card_level_refs [OF assms(1), of loc bid key] assms(2)
    by (auto simp: level_spec_eq split: if_splits)
  have eq: "q = of_nat (level_shares M ?R)" "c = of_nat (card ?R)"
    using assms(3) R(1) by (simp_all add: level_spec_eq)
  have "level_shares M ?R \<le> card ?R * (2 ^ 32 - 1)" by (rule level_shares_bound [OF R(2)])
  also have "\<dots> \<le> 2 ^ 32 * (2 ^ 32 - 1)" using R(3) by (intro mult_le_mono1) simp
  also have "\<dots> < 2 ^ 64" by simp
  finally have "unat q = level_shares M ?R" by (simp add: eq(1) unat_of_nat)
  moreover have "unat c = card ?R" using R(3) by (simp add: eq(2) unat_of_nat)
  moreover have "0 < card ?R" using R(1,2) by (simp add: card_gt_0_iff)
  ultimately show ?thesis by (simp add: word_less_nat_alt)
qed

section \<open>Properties\<close>

text \<open>
  C3. The books are the aggregation of the live orders. In every state the engine can reach, by
  any sequence of additions of new references, executions, cancellations, deletions,
  replacements and pre-allocations, each side of each locate has exactly one level per price
  of a live order, with their shares and number; the top of book follows from those; and the
  bug counter \<open>missing_level\<close> is zero.
\<close>

theorem engine_books_aggregate_orders:
  assumes "reachable_engine alloc b e"
  shows "ls_abs (book_side (eng_books e loc) sd) = level_spec (eng_map e) loc (sd = side_buy) \<and>
    ob_top (eng_books e loc) = Some (top_spec (level_spec (eng_map e) loc True) (level_spec (eng_map e) loc False)) \<and>
    missing_level e = 0"
proof -
  have inv: "books_ok (eng_map e) (eng_books e)" "missing_level e = 0"
    using reachable_inv [OF assms] by (simp_all add: eng_inv_def)
  have "ls_abs (bids (eng_books e loc)) = level_spec (eng_map e) loc True"
    "ls_abs (asks (eng_books e loc)) = level_spec (eng_map e) loc False"
    using books_ok_side [OF inv(1), of loc side_buy] books_ok_side [OF inv(1), of loc 0]
    by (simp_all add: book_side_def side_buy_def)
  then show ?thesis
    using books_ok_side [OF inv(1), of loc sd] ob_top_eq [OF books_ok_book_inv [OF inv(1)], of loc] inv(2)
    by simp
qed

text \<open>
  C2. Each event refines its effect on the map of live orders: it keeps the invariant, changes
  the map as the abstract event does, leaves every top of book alone unless its update says
  the top changed, counts unknown references and overfills exactly, and never finds a level
  missing. It has no result only when memory runs out, which executions, cancellations and
  deletions cannot cause.
\<close>

theorem engine_events_refine_order_map:
  assumes "eng_inv b e" "admissible ev (eng_map e)"
  shows "(\<exists>e' u. apply_event alloc b ev e = Some (e', u) \<and> eng_inv b e' \<and>
      eng_map e' = abs_event ev (eng_map e) \<and>
      (\<not> bu_top_changed u \<longrightarrow> (\<forall>loc. ob_top (eng_books e' loc) = ob_top (eng_books e loc))) \<and>
      missing_level e' = missing_level e \<and>
      unknown_ref e' = unknown_ref e + (if unknown ev (eng_map e) then 1 else 0) \<and>
      overfill e' = overfill e + (if overfills ev (eng_map e) then 1 else 0)) \<or>
    (apply_event alloc b ev e = None \<and> out_of_memory alloc b e ev)"
  using event_refines [OF assms, of alloc] unfolding event_ok_def
  by (auto simp: tops_def fun_eq_iff)


text \<open>
  A replacement of a known order keeps its locate and side, takes the new reference, price
  and size, and reports a new top exactly if the removed level or the added one is the best of
  its side at that moment.
\<close>

theorem eng_replace_correct:
  assumes "eng_inv b e" "eng_map e old_ref = Some ord" "new_ref = old_ref \<or> eng_map e new_ref = None"
    "eng_replace alloc b e old_ref new_ref shares price = Some (e', u)"
  shows "eng_map e' = (eng_map e)(old_ref := None, new_ref \<mapsto>
      \<lparr>o_ref = new_ref, o_price = price, o_shares = shares, o_locate = o_locate ord, o_side = o_side ord\<rparr>) \<and>
    u = \<lparr>bu_book = Some (o_locate ord), bu_price = price, bu_locate = o_locate ord, bu_side = o_side ord,
      bu_top_changed = hits_top ((eng_map e)(old_ref := None)) (o_locate ord) (o_side ord) price \<or>
        hits_top (eng_map e) (o_locate ord) (o_side ord) (o_price ord)\<rparr>"
  using replace_spec [OF assms(1-3), of alloc shares price] assms(2,4)
  by (auto simp: update_of_def abs_replace_def new_order_def)

section \<open>Witnesses\<close>

lemma sample_engine:
  "\<exists>e. new_engine (\<lambda>_. True) b 10 = Some e \<and> eng_inv b e \<and> eng_map e = Map.empty \<and> 10 \<le> growth_left (eng_orders e)"
proof -
  obtain m where "new_omap (\<lambda>_. True) (GroupBest b) 10 = Some m" using sample_omap by blast
  then obtain e where "new_engine (\<lambda>_. True) b 10 = Some e" by (simp add: new_engine_def)
  then show ?thesis using new_engine_spec by blast
qed

text \<open>An addition takes at most one slot from the growth allowance, a removal none.\<close>

lemma claim_growth: "om_claim G m r = Some (i, m') \<Longrightarrow> growth_left m \<le> Suc (growth_left m')"
  by (auto simp: om_claim_def Let_def bind_eq_Some_conv split: if_splits)

lemma insert_growth:
  assumes "0 < growth_left m" "om_insert alloc G m r = Some (i, m')"
  shows "growth_left m \<le> Suc (growth_left m')"
proof -
  have "om_insert alloc G m r = om_claim G m r"
    using assms(1) by (simp add: om_insert_def numeral_2_eq_2)
  then show ?thesis using claim_growth [of G m r i m'] assms(2) by simp
qed

lemma add_growth:
  assumes "0 < growth_left (eng_orders e)" "eng_add alloc b e loc r sd shares price = Some (e', u)"
  shows "growth_left (eng_orders e) \<le> Suc (growth_left (eng_orders e'))"
proof -
  obtain i m where m: "om_insert alloc (GroupBest b) (eng_orders e) r = Some (i, m)"
    "growth_left (eng_orders e') = growth_left m"
    using assms(2) unfolding eng_add_def bind_eq_Some_conv
    by (elim exE conjE) (clarsimp simp: Let_def om_put_def set_book_side_def bind_eq_Some_conv)
  then show ?thesis using insert_growth [OF assms(1) m(1)] by simp
qed

lemma apply_reduce_orders: "apply_reduce b e ord sh gone = Some (e', u) \<Longrightarrow> eng_orders e' = eng_orders e"
  by (cases "ls_reduce b (book_side (eng_books e (o_locate ord)) (o_side ord))
      (key_for (o_side ord) (o_price ord)) sh gone")
    (clarsimp simp: apply_reduce_def Let_def set_book_side_def split: prod.splits if_splits)+

lemma remove_growth:
  assumes "eng_remove b e r = Some (e', u)"
  shows "growth_left (eng_orders e) \<le> growth_left (eng_orders e')"
  using assms apply_reduce_orders
  by (fastforce simp: eng_remove_def eng_erase_def om_erase_def Let_def bind_eq_Some_conv
      split: option.splits if_splits)

lemma empty_side_room:
  assumes "eng_inv b e" "eng_map e = Map.empty" "0 < growth_left (eng_orders e)"
  shows "\<not> no_room (\<lambda>_. True) b e loc sd"
proof -
  let ?s = "book_side (eng_books e loc) sd"
  have s: "ls_inv ?s" "ls_abs ?s = level_spec Map.empty loc (sd = side_buy)"
    using books_ok_side [of "eng_map e" "eng_books e" loc sd] assms(1,2) by (simp_all add: eng_inv_def)
  have "ls_abs ?s = Map.empty" unfolding s(2) by (rule ext) (simp add: level_spec_eq level_refs_def)
  then have "ls_size ?s = 0" using size_zero_iff [OF s(1)] by simp
  then have "ls_grow (\<lambda>_. True) ?s \<noteq> None" if "ls_size ?s = ls_cap ?s"
    using that s(1) by (simp add: ls_grow_def regrow_def ls_inv_def ls_shape_def kInitialLevels_def)
  then show ?thesis using assms(3) by (auto simp: no_room_def Let_def)
qed

lemma sample_add:
  "\<exists>e e' u. new_engine (\<lambda>_. True) b 10 = Some e \<and> admissible (Add 7 42 side_buy 100 5000) (eng_map e) \<and>
    apply_event (\<lambda>_. True) b (Add 7 42 side_buy 100 5000) e = Some (e', u) \<and> eng_inv b e' \<and>
    eng_map e' = [42 \<mapsto> new_order 42 5000 100 7 side_buy] \<and> 0 < growth_left (eng_orders e')"
proof -
  obtain e where e: "new_engine (\<lambda>_. True) b 10 = Some e" "eng_inv b e" "eng_map e = Map.empty"
    "10 \<le> growth_left (eng_orders e)" using sample_engine by blast
  have adm: "admissible (Add 7 42 side_buy 100 5000) (eng_map e)" by (simp add: e(3))
  have "\<not> no_room (\<lambda>_. True) b e 7 side_buy" using empty_side_room [OF e(2,3)] e(4) by simp
  then obtain e' u where a: "apply_event (\<lambda>_. True) b (Add 7 42 side_buy 100 5000) e = Some (e', u)"
    "event_ok b (Add 7 42 side_buy 100 5000) e e' u"
    using event_refines [OF e(2) adm, of "\<lambda>_. True"] by auto
  moreover have "0 < growth_left (eng_orders e')"
    using add_growth [of e "\<lambda>_. True" b 7 42 side_buy 100 5000 e' u] a(1) e(4) by simp
  ultimately show ?thesis using e adm by (auto simp: event_ok_def)
qed

theorem engine_books_aggregate_orders_witness:
  "\<exists>e. reachable_engine (\<lambda>_. True) Have_AVX2 e \<and> eng_map e = [42 \<mapsto> new_order 42 5000 100 7 side_buy] \<and>
    ls_abs (book_side (eng_books e 7) side_buy) = level_spec [42 \<mapsto> new_order 42 5000 100 7 side_buy] 7 True"
proof -
  obtain e where e: "reachable_engine (\<lambda>_. True) Have_AVX2 e"
    "eng_map e = [42 \<mapsto> new_order 42 5000 100 7 side_buy]"
    using sample_add [of Have_AVX2] reachable_engine.intros by blast
  from engine_books_aggregate_orders [OF e(1), of 7 side_buy] e show ?thesis by auto
qed

theorem engine_events_refine_order_map_witness:
  "\<exists>e e' u. eng_map e = [42 \<mapsto> new_order 42 5000 100 7 side_buy] \<and>
    apply_event (\<lambda>_. True) Have_SSE2 (Reduce 42 30) e = Some (e', u) \<and>
    eng_map e' = [42 \<mapsto> new_order 42 5000 70 7 side_buy] \<and> unknown_ref e' = unknown_ref e"
proof -
  obtain e where e: "eng_inv Have_SSE2 e" "eng_map e = [42 \<mapsto> new_order 42 5000 100 7 side_buy]"
    using sample_add [of Have_SSE2] by blast
  have "admissible (Reduce 42 30) (eng_map e)" by simp
  from engine_events_refine_order_map [OF e(1) this, of "\<lambda>_. True"]
  obtain e' u where "apply_event (\<lambda>_. True) Have_SSE2 (Reduce 42 30) e = Some (e', u)"
    "eng_map e' = abs_event (Reduce 42 30) (eng_map e)" "unknown_ref e' = unknown_ref e"
    by (auto simp: e(2))
  moreover have "abs_event (Reduce 42 30) (eng_map e) = [42 \<mapsto> new_order 42 5000 70 7 side_buy]"
    by (simp add: e(2) abs_reduce_def fill_def new_order_def)
  ultimately show ?thesis using e(2) by metis
qed


theorem eng_replace_correct_witness:
  "\<exists>e e' u. eng_map e = [42 \<mapsto> new_order 42 5000 100 7 side_buy] \<and>
    eng_replace (\<lambda>_. True) Have_SSE41 e 42 43 60 5100 = Some (e', u) \<and>
    eng_map e' = [43 \<mapsto> new_order 43 5100 60 7 side_buy] \<and> bu_locate u = 7"
proof -
  obtain e where e: "eng_inv Have_SSE41 e" "eng_map e = [42 \<mapsto> new_order 42 5000 100 7 side_buy]"
    "0 < growth_left (eng_orders e)" using sample_add [of Have_SSE41] by blast
  have ord: "eng_map e 42 = Some (new_order 42 5000 100 7 side_buy)" "43 = (42 :: u64) \<or> eng_map e 43 = None"
    by (simp_all add: e(2))
  obtain e2 u2 where r: "eng_remove Have_SSE41 e 42 = Some (e2, u2)" "eng_inv Have_SSE41 e2"
    "eng_map e2 = (eng_map e)(42 := None)" using remove_spec [OF e(1) ord(1)] by auto
  have "eng_map e2 = Map.empty" by (simp add: r(3) e(2) fun_eq_iff)
  then have "\<not> no_room (\<lambda>_. True) Have_SSE41 e2 7 side_buy"
    using empty_side_room [OF r(2)] remove_growth [OF r(1)] e(3) by simp
  then obtain e' u where a: "eng_replace (\<lambda>_. True) Have_SSE41 e 42 43 60 5100 = Some (e', u)"
    using replace_spec [OF e(1) ord, of "\<lambda>_. True" 60 5100] r(1) by (auto simp: new_order_def)
  from eng_replace_correct [OF e(1) ord a] show ?thesis
    using a e(2) by (intro exI [of _ e] exI [of _ e'] exI [of _ u] conjI) (simp_all add: new_order_def fun_eq_iff)
qed

end
