(* ===== verification/Book_Builder.thy ===== *)
theory Book_Builder
  imports Book_Engine Parser
begin

text \<open>
  \<^verbatim>\<open>include/itch/book_builder.hpp\<close>: the parser handler that applies order messages to the engine
  and forwards the rest to a sink. The sink is a record of the operations it declares over its
  own state (an operation it does not declare is \<open>None\<close>); \<open>on_book\<close> also gets the engine, which a
  sink can read through the reference it holds and through the update's pointer to a book.
\<close>

section \<open>Sinks\<close>

record 's sink =
  sk_wants :: "('s \<Rightarrow> u8 \<Rightarrow> u16 \<Rightarrow> bool) option"
  sk_on_book :: "mtype \<Rightarrow> (engine \<Rightarrow> message \<Rightarrow> book_update \<Rightarrow> 's \<Rightarrow> 's) option"
  sk_on :: "mtype \<Rightarrow> (message \<Rightarrow> 's \<Rightarrow> 's) option"

definition null_sink :: "unit sink" where
  "null_sink = \<lparr>sk_wants = None, sk_on_book = (\<lambda>_. None), sk_on = (\<lambda>_. None)\<rparr>"

fun is_book_message :: "mtype \<Rightarrow> bool" where
  "is_book_message TAddOrder \<longleftrightarrow> True"
| "is_book_message TAddOrderMpid \<longleftrightarrow> True"
| "is_book_message TOrderExecuted \<longleftrightarrow> True"
| "is_book_message TOrderExecutedWithPrice \<longleftrightarrow> True"
| "is_book_message TOrderCancel \<longleftrightarrow> True"
| "is_book_message TOrderDelete \<longleftrightarrow> True"
| "is_book_message TOrderReplace \<longleftrightarrow> True"
| "is_book_message _ \<longleftrightarrow> False"

section \<open>The builder\<close>

record 's builder =
  bb_engine :: engine
  bb_sink :: 's

definition notify :: "'s sink \<Rightarrow> message \<Rightarrow> engine \<times> book_update \<Rightarrow> 's builder \<Rightarrow> 's builder" where
  "notify S m = (\<lambda>(e, u) B. case sk_on_book S (mtype_of m) of
     None \<Rightarrow> B\<lparr>bb_engine := e\<rparr>
   | Some f \<Rightarrow> B\<lparr>bb_engine := e, bb_sink := f e m u (bb_sink B)\<rparr>)"

definition forward :: "'s sink \<Rightarrow> message \<Rightarrow> 's builder \<Rightarrow> 's builder" where
  "forward S m B = (case sk_on S (mtype_of m) of
     None \<Rightarrow> B
   | Some f \<Rightarrow> B\<lparr>bb_sink := f m (bb_sink B)\<rparr>)"

text \<open>One equation per \<open>on\<close> overload; the last one is the forwarding template.\<close>

fun bb_on :: "(nat \<Rightarrow> bool) \<Rightarrow> isa \<Rightarrow> 's sink \<Rightarrow> message \<Rightarrow> 's builder \<Rightarrow> 's builder option" where
  "bb_on alloc b S (AddOrder m) B = do {
     r \<leftarrow> eng_add alloc b (bb_engine B) (locate m) (ao_ref m) (ao_side m) (ao_shares m) (ao_price m);
     Some (notify S (AddOrder m) r B) }"
| "bb_on alloc b S (AddOrderMpid m) B = do {
     r \<leftarrow> eng_add alloc b (bb_engine B) (locate m) (aom_ref m) (aom_side m) (aom_shares m) (aom_price m);
     Some (notify S (AddOrderMpid m) r B) }"
| "bb_on alloc b S (OrderExecuted m) B = do {
     r \<leftarrow> eng_reduce b (bb_engine B) (oe_ref m) (oe_executed_shares m);
     Some (notify S (OrderExecuted m) r B) }"
| "bb_on alloc b S (OrderExecutedWithPrice m) B = do {
     r \<leftarrow> eng_reduce b (bb_engine B) (oep_ref m) (oep_executed_shares m);
     Some (notify S (OrderExecutedWithPrice m) r B) }"
| "bb_on alloc b S (OrderCancel m) B = do {
     r \<leftarrow> eng_reduce b (bb_engine B) (oc_ref m) (oc_cancelled_shares m);
     Some (notify S (OrderCancel m) r B) }"
| "bb_on alloc b S (OrderDelete m) B = do {
     r \<leftarrow> eng_remove b (bb_engine B) (od_ref m);
     Some (notify S (OrderDelete m) r B) }"
| "bb_on alloc b S (OrderReplace m) B = do {
     r \<leftarrow> eng_replace alloc b (bb_engine B) (orp_original_ref m) (orp_new_ref m) (orp_shares m) (orp_price m);
     Some (notify S (OrderReplace m) r B) }"
| "bb_on alloc b S (StockDirectory m) B = do {
     e \<leftarrow> eng_prepare alloc (bb_engine B) (locate m);
     Some (forward S (StockDirectory m) (B\<lparr>bb_engine := e\<rparr>)) }"
| "bb_on alloc b S m B = Some (forward S m B)"

text \<open>The message types for which an \<open>on\<close> exists.\<close>

definition bb_handles :: "'s sink \<Rightarrow> mtype \<Rightarrow> bool" where
  "bb_handles S t \<longleftrightarrow> is_book_message t \<or> t = TStockDirectory \<or> sk_on S t \<noteq> None"

definition bb_wants :: "'s sink \<Rightarrow> ('s builder \<Rightarrow> u8 \<Rightarrow> u16 \<Rightarrow> bool) option" where
  "bb_wants S = map_option (\<lambda>w B. w (bb_sink B)) (sk_wants S)"

text \<open>What is hinted: a group and slot of the order map, or the top lines of one side or both.\<close>

datatype hint = Hint_Order "nat \<times> nat" | Hint_Side "nat option" | Hint_Sides "nat option \<times> nat option"

definition bb_hints ::
  "isa \<Rightarrow> 's sink \<Rightarrow> 's builder \<Rightarrow> mem \<Rightarrow> nat \<Rightarrow> nat \<Rightarrow> hint list option" where
  "bb_hints b S B buf p len =
     (if len < 19 then Some []
      else do {
        wanted \<leftarrow> (case sk_wants S of
            None \<Rightarrow> Some True
          | Some w \<Rightarrow> do { ty \<leftarrow> rd buf p; loc \<leftarrow> load_be16 buf (p + 1); Some (w (bb_sink B) ty loc) });
        if \<not> wanted then Some []
        else do {
          ty \<leftarrow> rd buf p;
          if ty \<in> {0x41, 0x46} then do {
            r \<leftarrow> load_be64 buf (p + 11);
            sides \<leftarrow> (if 20 \<le> len then do {
                loc \<leftarrow> load_be16 buf (p + 1);
                sd \<leftarrow> rd buf (p + 19);
                Some [Hint_Side (prefetch_levels_side (bb_engine B) loc sd)] } else Some []);
            Some (Hint_Order (prefetch_order b (bb_engine B) r) # sides) }
          else if ty \<in> {0x45, 0x43, 0x58, 0x44} then do {
            r \<leftarrow> load_be64 buf (p + 11);
            loc \<leftarrow> load_be16 buf (p + 1);
            Some [Hint_Order (prefetch_order b (bb_engine B) r), Hint_Sides (prefetch_levels (bb_engine B) loc)] }
          else if ty = 0x55 then do {
            r \<leftarrow> load_be64 buf (p + 11);
            new \<leftarrow> (if 27 \<le> len then do {
                r' \<leftarrow> load_be64 buf (p + 19);
                Some [Hint_Order (prefetch_order b (bb_engine B) r')] } else Some []);
            loc \<leftarrow> load_be16 buf (p + 1);
            Some (Hint_Order (prefetch_order b (bb_engine B) r) # new @
              [Hint_Sides (prefetch_levels (bb_engine B) loc)]) }
          else Some [] } })"

definition bb_prefetch :: "isa \<Rightarrow> 's sink \<Rightarrow> 's builder \<Rightarrow> mem \<Rightarrow> nat \<Rightarrow> nat \<Rightarrow> unit option" where
  "bb_prefetch b S B buf p len = map_option (\<lambda>_. ()) (bb_hints b S B buf p len)"

definition bb_handler :: "(nat \<Rightarrow> bool) \<Rightarrow> isa \<Rightarrow> 's sink \<Rightarrow> 's builder handler" where
  "bb_handler alloc b S =
     \<lparr>handles = bb_handles S, on_msg = bb_on alloc b S, wants = bb_wants S, prefetch = Some (bb_prefetch b S)\<rparr>"

section \<open>The builder as a prefetching handler\<close>

lemma load_be64_in: "p + 8 \<le> length m \<Longrightarrow> load_be64 m p = Some (be_word (take 8 (drop p m)))"
  by (simp add: load_be64_eq mem_simps)

lemma bb_hints_safe:
  assumes "p + n \<le> length buf"
  shows "\<exists>hs. bb_hints b S B buf p n = Some hs"
proof (cases "n < 19")
  case True
  then show ?thesis by (simp add: bb_hints_def)
next
  case False
  then have r: "rd buf p = Some (buf ! p)" "load_be16 buf (p + 1) = Some (be_word (take 2 (drop (p + 1) buf)))"
    "load_be64 buf (p + 11) = Some (be_word (take 8 (drop (p + 11) buf)))"
    using assms by (simp_all add: rd_Some load_be16_in load_be64_in)
  have r20: "20 \<le> n \<Longrightarrow> rd buf (p + 19) = Some (buf ! (p + 19))" using assms by (simp add: rd_Some)
  have r27: "27 \<le> n \<Longrightarrow> load_be64 buf (p + 19) = Some (be_word (take 8 (drop (p + 19) buf)))"
    using assms by (simp add: load_be64_in)
  show ?thesis
    using False unfolding bb_hints_def
    by (cases "20 \<le> n"; cases "27 \<le> n"; cases "sk_wants S") (simp_all add: r [simplified] r20 r27)
qed

interpretation builder: lookahead_handler "bb_handler alloc b S" "bb_prefetch b S" for alloc b S
proof
  show "prefetch (bb_handler alloc b S) = Some (bb_prefetch b S)" by (simp add: bb_handler_def)
next
  fix p n and buf :: mem and h :: "'a builder"
  assume "p + n \<le> length buf"
  then show "bb_prefetch b S h buf p n = Some ()"
    using bb_hints_safe [of p n buf b S h] by (auto simp: bb_prefetch_def)
qed

section \<open>Messages as events\<close>

fun event_of :: "message \<Rightarrow> event option" where
  "event_of (AddOrder m) = Some (Add (locate m) (ao_ref m) (ao_side m) (ao_shares m) (ao_price m))"
| "event_of (AddOrderMpid m) = Some (Add (locate m) (aom_ref m) (aom_side m) (aom_shares m) (aom_price m))"
| "event_of (OrderExecuted m) = Some (Reduce (oe_ref m) (oe_executed_shares m))"
| "event_of (OrderExecutedWithPrice m) = Some (Reduce (oep_ref m) (oep_executed_shares m))"
| "event_of (OrderCancel m) = Some (Reduce (oc_ref m) (oc_cancelled_shares m))"
| "event_of (OrderDelete m) = Some (Remove (od_ref m))"
| "event_of (OrderReplace m) = Some (Replace (orp_original_ref m) (orp_new_ref m) (orp_shares m) (orp_price m))"
| "event_of (StockDirectory m) = Some (Prepare (locate m))"
| "event_of m = None"

lemma bb_engine_notify [simp]: "bb_engine (notify S m r B) = fst r"
  by (auto simp: notify_def split: prod.split option.split)

lemma bb_engine_forward [simp]: "bb_engine (forward S m B) = bb_engine B"
  by (simp add: forward_def split: option.split)

text \<open>A message acts on the engine as its event, and a message without an event not at all.\<close>

lemma bb_on_event:
  "map_option bb_engine (bb_on alloc b S m B) = (case event_of m of
     None \<Rightarrow> Some (bb_engine B)
   | Some ev \<Rightarrow> map_option fst (apply_event alloc b ev (bb_engine B)))"
  by (cases "(alloc, b, S, m, B)" rule: bb_on.cases)
    (auto simp: map_option_case Option.bind_eq_Some_conv Option.bind_eq_None_conv split: option.splits)

lemma event_handled: "event_of m \<noteq> None \<Longrightarrow> handles (bb_handler alloc b S) (mtype_of m)"
  by (cases m) (simp_all add: bb_handler_def bb_handles_def)

section \<open>A stream as a sequence of events\<close>

text \<open>
  The events of a list of records, as the bytes give them: those of the well-formed messages
  that the sink's filter \<open>accepts\<close>.
\<close>

definition accepts :: "'s sink \<Rightarrow> (u8 \<Rightarrow> u16 \<Rightarrow> bool) \<Rightarrow> bool" where
  "accepts S acc \<longleftrightarrow> (case sk_wants S of None \<Rightarrow> acc = (\<lambda>_ _. True) | Some w \<Rightarrow> w = (\<lambda>_. acc))"

definition verdict_events :: "(u8 \<Rightarrow> u16 \<Rightarrow> bool) \<Rightarrow> verdict \<Rightarrow> event list" where
  "verdict_events acc v = (case v of
     Message m \<Rightarrow>
       (if acc (kType (mtype_of m)) (locate (header_of m))
        then (case event_of m of Some ev \<Rightarrow> [ev] | None \<Rightarrow> []) else [])
   | _ \<Rightarrow> [])"

definition stream_events :: "(u8 \<Rightarrow> u16 \<Rightarrow> bool) \<Rightarrow> u8 list list \<Rightarrow> event list" where
  "stream_events acc fs = concat (map (\<lambda>bs. verdict_events acc (classify bs)) fs)"

definition apply_events :: "(nat \<Rightarrow> bool) \<Rightarrow> isa \<Rightarrow> event list \<Rightarrow> engine \<Rightarrow> engine option" where
  "apply_events alloc b = foldO (\<lambda>ev e. map_option fst (apply_event alloc b ev e))"

lemma wanted_accepts:
  "accepts S acc \<Longrightarrow> wanted (bb_handler alloc b S) m B = acc (kType (mtype_of m)) (locate (header_of m))"
  by (auto simp: accepts_def wanted_def bb_handler_def bb_wants_def split: option.splits)

lemma apply_events_single: "apply_events alloc b [ev] e = map_option fst (apply_event alloc b ev e)"
  by (simp add: apply_events_def) (cases "apply_event alloc b ev e"; simp)

lemma apply_events_Nil [simp]: "apply_events alloc b [] e = Some e"
  by (simp add: apply_events_def)

lemma verdict_engine:
  assumes "accepts S acc"
  shows "map_option (\<lambda>P. bb_engine (handler_state P)) (apply_verdict (bb_handler alloc b S) v P) =
    apply_events alloc b (verdict_events acc v) (bb_engine (handler_state P))"
proof (cases v)
  case (Message m)
  let ?H = "bb_handler alloc b S"
  have on: "map_option bb_engine (on_msg ?H m B) = (case event_of m of
      None \<Rightarrow> Some (bb_engine B) | Some ev \<Rightarrow> map_option fst (apply_event alloc b ev (bb_engine B)))" for B
    using bb_on_event [of alloc b S m B] by (simp add: bb_handler_def)
  show ?thesis
    using on [of "handler_state P"] event_handled [of m alloc b S]
    by (auto simp: Message verdict_events_def apply_events_single wanted_accepts [OF assms] Let_def
        option.map_comp comp_def split: option.split)
qed (simp_all add: verdict_events_def)

lemma apply_events_append:
  "apply_events alloc b (xs @ ys) e = do { e' \<leftarrow> apply_events alloc b xs e; apply_events alloc b ys e' }"
  by (simp add: apply_events_def foldO_append)

lemma stream_engine:
  assumes "accepts S acc"
  shows "map_option (\<lambda>P. bb_engine (handler_state P))
      (foldO (\<lambda>bs. apply_verdict (bb_handler alloc b S) (classify bs)) fs P) =
    apply_events alloc b (stream_events acc fs) (bb_engine (handler_state P))"
proof (induction fs arbitrary: P)
  case Nil
  then show ?case by (simp add: stream_events_def apply_events_def)
next
  case (Cons bs fs)
  have "stream_events acc (bs # fs) = verdict_events acc (classify bs) @ stream_events acc fs"
    by (simp add: stream_events_def)
  then show ?case
    using Cons.IH verdict_engine [OF assms, of alloc b "classify bs" P]
    by (cases "apply_verdict (bb_handler alloc b S) (classify bs) P")
      (auto simp: apply_events_append simp flip: verdict_engine [OF assms, of alloc b "classify bs" P])
qed

text \<open>Events are admissible in sequence; then so is every state on the way.\<close>

fun admissible_all :: "event list \<Rightarrow> (u64 \<rightharpoonup> order) \<Rightarrow> bool" where
  "admissible_all [] M \<longleftrightarrow> True"
| "admissible_all (ev # evs) M \<longleftrightarrow> admissible ev M \<and> admissible_all evs (abs_event ev M)"

lemma admissible_all_append: "admissible_all (xs @ ys) M \<longleftrightarrow> admissible_all xs M \<and> admissible_all ys (fold abs_event xs M)"
  by (induction xs arbitrary: M) simp_all

fun count_events :: "(event \<Rightarrow> (u64 \<rightharpoonup> order) \<Rightarrow> bool) \<Rightarrow> event list \<Rightarrow> (u64 \<rightharpoonup> order) \<Rightarrow> u64" where
  "count_events Q [] M = 0"
| "count_events Q (ev # evs) M = (if Q ev M then 1 else 0) + count_events Q evs (abs_event ev M)"

lemma apply_events_refine:
  assumes "eng_inv b e" "admissible_all evs (eng_map e)"
  shows "(\<exists>e'. apply_events alloc b evs e = Some e' \<and> eng_inv b e' \<and>
      eng_map e' = fold abs_event evs (eng_map e) \<and> missing_level e' = missing_level e \<and>
      unknown_ref e' = unknown_ref e + count_events unknown evs (eng_map e) \<and>
      overfill e' = overfill e + count_events overfills evs (eng_map e)) \<or>
    (apply_events alloc b evs e = None \<and>
      (\<exists>xs ev ys e1. evs = xs @ ev # ys \<and> apply_events alloc b xs e = Some e1 \<and> out_of_memory alloc b e1 ev))"
  using assms
proof (induction evs arbitrary: e)
  case Nil
  then show ?case by (simp add: apply_events_def)
next
  case (Cons ev evs)
  from event_refines [OF Cons.prems(1), of ev alloc] Cons.prems(2)
  consider (ok) e1 u where "apply_event alloc b ev e = Some (e1, u)" "event_ok b ev e e1 u"
    | (oom) "apply_event alloc b ev e = None" "out_of_memory alloc b e ev" by auto
  then show ?case
  proof cases
    case oom
    then have "apply_events alloc b (ev # evs) e = None" "apply_events alloc b [] e = Some e"
      by (simp_all add: apply_events_def)
    with oom(2) show ?thesis by (metis append_Nil)
  next
    case ok
    note o = ok(2) [unfolded event_ok_def]
    have step: "apply_events alloc b (ev # xs) e = apply_events alloc b xs e1" for xs
      by (simp add: apply_events_def ok(1))
    have "admissible_all evs (eng_map e1)" using Cons.prems(2) o by simp
    then consider (go) e' where "apply_events alloc b evs e1 = Some e'" "eng_inv b e'"
        "eng_map e' = fold abs_event evs (eng_map e1)" "missing_level e' = missing_level e1"
        "unknown_ref e' = unknown_ref e1 + count_events unknown evs (eng_map e1)"
        "overfill e' = overfill e1 + count_events overfills evs (eng_map e1)"
      | (stop) xs ev' ys e2 where "apply_events alloc b evs e1 = None" "evs = xs @ ev' # ys"
        "apply_events alloc b xs e1 = Some e2" "out_of_memory alloc b e2 ev'"
      using Cons.IH [of e1] o by blast
    then show ?thesis
    proof cases
      case go
      then show ?thesis using o by (simp add: step)
    next
      case stop
      then have "ev # evs = (ev # xs) @ ev' # ys" "apply_events alloc b (ev # xs) e = Some e2"
        by (simp_all add: step)
      with stop(1,4) show ?thesis by (metis step)
    qed
  qed
qed

section \<open>Properties\<close>

text \<open>
  The prefetching stream parser with the book builder is the plain one: the hints read
  nothing outside their records, cover every complete record once and in order, and change
  neither the final state nor the number of bytes consumed, whatever the distance.
\<close>

theorem builder_prefetch_neutral:
  assumes "len \<le> length buf" "0 < D"
  shows "parse_stream_prefetch D (bb_handler alloc b S) buf len P =
    do { (P', off) \<leftarrow> parse_stream (bb_handler alloc b S) buf len P;
         Some (P', off, fst (recs buf len 0)) }"
  using assms by (rule builder.parse_stream_prefetch_eq)

text \<open>A whole buffer: the run over its events, or the event at which memory runs out.\<close>

lemma builder_stream:
  assumes "len \<le> length buf" "frames (take len buf) = (fs, rest)" "accepts S acc"
    and "eng_inv b (bb_engine (handler_state P))" "bb_engine (handler_state P) = e"
    and "admissible_all (stream_events acc fs) (eng_map e)"
  shows "(\<exists>P' e'. parse_stream (bb_handler alloc b S) buf len P = Some (P', len - length rest) \<and>
      bb_engine (handler_state P') = e' \<and> eng_inv b e' \<and>
      eng_map e' = fold abs_event (stream_events acc fs) (eng_map e) \<and> missing_level e' = missing_level e \<and>
      unknown_ref e' = unknown_ref e + count_events unknown (stream_events acc fs) (eng_map e) \<and>
      overfill e' = overfill e + count_events overfills (stream_events acc fs) (eng_map e)) \<or>
    (parse_stream (bb_handler alloc b S) buf len P = None \<and>
      (\<exists>xs ev ys e1. stream_events acc fs = xs @ ev # ys \<and> apply_events alloc b xs e = Some e1 \<and>
        out_of_memory alloc b e1 ev))"
proof -
  let ?run = "foldO (\<lambda>bs. apply_verdict (bb_handler alloc b S) (classify bs)) fs P"
  have ps: "parse_stream (bb_handler alloc b S) buf len P = map_option (\<lambda>P'. (P', len - length rest)) ?run"
    using parse_stream_cut [OF assms(1), of "bb_handler alloc b S" P] assms(2)
    by (cases ?run) simp_all
  have run: "map_option (\<lambda>P. bb_engine (handler_state P)) ?run = apply_events alloc b (stream_events acc fs) e"
    using stream_engine [OF assms(3), of alloc b fs P] assms(5) by simp
  have inv: "eng_inv b e" using assms(4,5) by simp
  show ?thesis
    using apply_events_refine [OF inv assms(6), of alloc]
  proof (elim disjE exE conjE)
    fix e'
    assume a: "apply_events alloc b (stream_events acc fs) e = Some e'" and r: "eng_inv b e'"
      "eng_map e' = fold abs_event (stream_events acc fs) (eng_map e)" "missing_level e' = missing_level e"
      "unknown_ref e' = unknown_ref e + count_events unknown (stream_events acc fs) (eng_map e)"
      "overfill e' = overfill e + count_events overfills (stream_events acc fs) (eng_map e)"
    obtain P' where "?run = Some P'" "bb_engine (handler_state P') = e'" using run a by auto
    then show ?thesis using ps r by (intro disjI1 exI [of _ P'] exI [of _ e']) simp
  next
    fix xs ev ys e1
    assume n: "apply_events alloc b (stream_events acc fs) e = None"
      and o: "stream_events acc fs = xs @ ev # ys" "apply_events alloc b xs e = Some e1" "out_of_memory alloc b e1 ev"
    have "?run = None" using run n by simp
    then have "parse_stream (bb_handler alloc b S) buf len P = None" using ps by simp
    then show ?thesis using o by blast
  qed
qed

text \<open>
  C4. Building books from a byte stream: the engine that a buffer leaves behind holds exactly
  the orders that the messages of the buffer, cut and classified from its bytes and filtered
  by the sink, leave live; the books aggregate them, unknown references and overfills are
  counted, and no level is ever missing. Parsing fails to end only when memory runs out at
  one of the events.
\<close>

theorem builder_stream_refines:
  assumes "len \<le> length buf" "frames (take len buf) = (fs, rest)" "accepts S acc"
    and "eng_inv b (bb_engine (handler_state P))" "bb_engine (handler_state P) = e"
    and "admissible_all (stream_events acc fs) (eng_map e)"
  shows "(\<exists>P' e'. parse_stream (bb_handler alloc b S) buf len P = Some (P', len - length rest) \<and>
      bb_engine (handler_state P') = e' \<and> eng_inv b e' \<and>
      eng_map e' = fold abs_event (stream_events acc fs) (eng_map e) \<and> missing_level e' = missing_level e \<and>
      unknown_ref e' = unknown_ref e + count_events unknown (stream_events acc fs) (eng_map e) \<and>
      overfill e' = overfill e + count_events overfills (stream_events acc fs) (eng_map e)) \<or>
    (parse_stream (bb_handler alloc b S) buf len P = None \<and>
      (\<exists>xs ev ys e1. stream_events acc fs = xs @ ev # ys \<and> apply_events alloc b xs e = Some e1 \<and>
        out_of_memory alloc b e1 ev))"
  using assms by (rule builder_stream)

section \<open>Witnesses\<close>

lemma delete_bytes: "drop 2 delete_record = 0x44 # [0, 7] @ replicate 15 0 @ [42]"
  by (simp add: delete_record_def)

lemma sample_frames: "frames (take 21 delete_record) = ([drop 2 delete_record], [])"
proof -
  have "be_bytes 2 (19 :: u16) = [0, 19]" by code_simp
  then have "take 21 delete_record = concat (map framed [drop 2 delete_record]) @ []"
    by (simp add: framed_def delete_record_def)
  moreover have "length (drop 2 delete_record) < 2 ^ 16" by (simp add: delete_record_def)
  ultimately show ?thesis using frames_concat [of "[drop 2 delete_record]" "[]"]
    by (simp add: frames_incomplete incomplete_def)
qed

lemma le_nat_zeros: "le_nat (replicate n 0) = 0"
  by (induction n) simp_all

lemma sample_decode:
  "decode TOrderDelete (drop 2 delete_record) 0 =
     Some (OrderDelete \<lparr>locate = 7, tracking = 0, timestamp = 0, od_ref = 42\<rparr>)"
  unfolding delete_bytes
  by (simp add: decode_def load_be_eq load_be48_overread_def rd_n_def be_word_def le_nat_zeros)

lemma sample_events: "stream_events (\<lambda>_ _. True) [drop 2 delete_record] = [Remove 42]"
proof -
  have "find (\<lambda>t. kType t = 0x44) AllMessages = Some TOrderDelete" using find_kType [of TOrderDelete] by simp
  moreover have "length (drop 2 delete_record) = kLength TOrderDelete" by (simp add: delete_record_def)
  ultimately have "classify (drop 2 delete_record) =
      Message (OrderDelete \<lparr>locate = 7, tracking = 0, timestamp = 0, od_ref = 42\<rparr>)"
    unfolding classify_def using sample_decode by (simp add: delete_bytes)
  then show ?thesis by (simp add: stream_events_def verdict_events_def)
qed

theorem builder_prefetch_neutral_witness:
  "\<forall>P. parse_stream_prefetch 8 (bb_handler (\<lambda>_. True) Have_SSE2 null_sink) delete_record 21 P =
    do { (P', off) \<leftarrow> parse_stream (bb_handler (\<lambda>_. True) Have_SSE2 null_sink) delete_record 21 P;
         Some (P', off, fst (recs delete_record 21 0)) }"
  by (intro allI builder_prefetch_neutral) (simp_all add: delete_record_def)

theorem builder_stream_refines_witness:
  "\<exists>P P'. parse_stream (bb_handler (\<lambda>_. True) Have_SSE2 null_sink) delete_record 21 P = Some (P', 21) \<and>
    eng_map (bb_engine (handler_state P')) = Map.empty \<and>
    unknown_ref (bb_engine (handler_state P')) = unknown_ref (bb_engine (handler_state P)) + 1"
proof -
  obtain e where e: "eng_inv Have_SSE2 e" "eng_map e = Map.empty" using sample_engine by blast
  let ?P = "new_parser \<lparr>bb_engine = e, bb_sink = ()\<rparr>"
  have b: "bb_engine (handler_state ?P) = e" by (simp add: new_parser_def)
  have oom: "\<not> out_of_memory (\<lambda>_. True) Have_SSE2 e1 (Remove 42)" for e1 by simp
  have one: "\<not> (\<exists>xs ev ys e1. [Remove 42] = xs @ ev # ys \<and> apply_events (\<lambda>_. True) Have_SSE2 xs e = Some e1 \<and>
      out_of_memory (\<lambda>_. True) Have_SSE2 e1 ev)"
    by (auto simp: Cons_eq_append_conv)
  have l: "21 \<le> length delete_record" "21 - length ([] :: u8 list) = 21" by (simp_all add: delete_record_def)
  have h: "accepts null_sink (\<lambda>_ _. True)" "eng_inv Have_SSE2 (bb_engine (handler_state ?P))"
    "admissible_all (stream_events (\<lambda>_ _. True) [drop 2 delete_record]) (eng_map e)"
    using e b by (simp_all add: accepts_def null_sink_def sample_events)
  obtain P' where "parse_stream (bb_handler (\<lambda>_. True) Have_SSE2 null_sink) delete_record 21 ?P = Some (P', 21)"
    "eng_map (bb_engine (handler_state P')) = fold abs_event [Remove 42] (eng_map e)"
    "unknown_ref (bb_engine (handler_state P')) = unknown_ref e + count_events unknown [Remove 42] (eng_map e)"
    using builder_stream_refines [OF l(1) sample_frames h(1,2) b h(3), of "\<lambda>_. True"] one
    unfolding sample_events l(2) by blast
  then show ?thesis using b e(2) by (intro exI [of _ ?P] exI [of _ P']) simp
qed

end
