(* ===== verification/Spsc_Ring.thy ===== *)
theory Spsc_Ring
  imports Prelude
begin

text \<open>
  \<^verbatim>\<open>include/itch/spsc_ring.hpp\<close>: the bounded single-producer single-consumer ring with free-running
  64-bit indices. First the operations as they run alone, a bounded queue; then producer and
  consumer interleaved at every access to shared memory, where the acquire load of the other
  side's index may return any value it has had since the last load. Slots are plain memory:
  the proof that no slot is ever read and written at the same time is what makes this
  interleaving the behaviour of the release/acquire code.
\<close>

section \<open>The ring and its operations\<close>

record 'a spsc =
  pr_tail :: u64
  pr_cached_head :: u64
  co_head :: u64
  co_cached_tail :: u64
  sp_slots :: "'a list"

definition slot_index :: "nat \<Rightarrow> u64 \<Rightarrow> nat" where
  "slot_index N i = unat (i AND (of_nat N - 1))"

definition push_full :: "nat \<Rightarrow> 'a spsc \<Rightarrow> bool" where
  "push_full N r \<longleftrightarrow> pr_tail r - pr_cached_head r = of_nat N"

definition push_reload :: "u64 \<Rightarrow> 'a spsc \<Rightarrow> 'a spsc" where
  "push_reload h r = r\<lparr>pr_cached_head := h\<rparr>"

definition push_write :: "nat \<Rightarrow> 'a \<Rightarrow> 'a spsc \<Rightarrow> 'a spsc" where
  "push_write N x r = r\<lparr>sp_slots := (sp_slots r)[slot_index N (pr_tail r) := x]\<rparr>"

definition push_publish :: "'a spsc \<Rightarrow> 'a spsc" where
  "push_publish r = r\<lparr>pr_tail := pr_tail r + 1\<rparr>"

definition try_push :: "nat \<Rightarrow> 'a \<Rightarrow> 'a spsc \<Rightarrow> bool \<times> 'a spsc" where
  "try_push N x r =
     (let r1 = (if push_full N r then push_reload (co_head r) r else r) in
      if push_full N r \<and> push_full N r1 then (False, r1)
      else (True, push_publish (push_write N x r1)))"

definition pop_empty :: "'a spsc \<Rightarrow> bool" where
  "pop_empty r \<longleftrightarrow> co_head r = co_cached_tail r"

definition pop_reload :: "u64 \<Rightarrow> 'a spsc \<Rightarrow> 'a spsc" where
  "pop_reload t r = r\<lparr>co_cached_tail := t\<rparr>"

definition pop_read :: "nat \<Rightarrow> u64 \<Rightarrow> 'a spsc \<Rightarrow> 'a" where
  "pop_read N i r = sp_slots r ! slot_index N (co_head r + i)"

definition pop_publish :: "u64 \<Rightarrow> 'a spsc \<Rightarrow> 'a spsc" where
  "pop_publish n r = r\<lparr>co_head := co_head r + n\<rparr>"

definition try_pop :: "nat \<Rightarrow> 'a spsc \<Rightarrow> 'a option \<times> 'a spsc" where
  "try_pop N r =
     (let r1 = (if pop_empty r then pop_reload (pr_tail r) r else r) in
      if pop_empty r \<and> pop_empty r1 then (None, r1)
      else (Some (pop_read N 0 r1), pop_publish 1 r1))"

definition batch_avail :: "u64 \<Rightarrow> 'a spsc \<Rightarrow> u64" where
  "batch_avail mx r = (let avail = co_cached_tail r - co_head r in if mx < avail then mx else avail)"

text \<open>The callback gets the items in order; the model returns their list.\<close>

definition pop_batch :: "nat \<Rightarrow> u64 \<Rightarrow> 'a spsc \<Rightarrow> 'a list \<times> 'a spsc" where
  "pop_batch N mx r =
     (let r1 = (if pop_empty r then pop_reload (pr_tail r) r else r);
          avail = batch_avail mx r1 in
      (map (\<lambda>i. pop_read N (of_nat i) r1) [0..<unat avail],
       if avail \<noteq> 0 then pop_publish avail r1 else r1))"

definition size_approx :: "'a spsc \<Rightarrow> u64" where
  "size_approx r = pr_tail r - co_head r"

definition new_ring :: "'a list \<Rightarrow> 'a spsc" where
  "new_ring junk = \<lparr>pr_tail = 0, pr_cached_head = 0, co_head = 0, co_cached_tail = 0, sp_slots = junk\<rparr>"

section \<open>Indices\<close>

text \<open>The static assertion on the capacity; the storage fits the address space.\<close>

definition valid_cap :: "nat \<Rightarrow> bool" where
  "valid_cap N \<longleftrightarrow> (\<exists>k. 1 \<le> k \<and> k < 64 \<and> N = 2 ^ k)"

text \<open>
  The 64-bit indices against the true counts: \<open>T\<close> items pushed, \<open>H\<close> released by the consumer,
  the producer has seen \<open>sh\<close> of those and the consumer \<open>st\<close> of the pushes.
\<close>

definition rep :: "nat \<Rightarrow> 'a spsc \<Rightarrow> nat \<Rightarrow> nat \<Rightarrow> nat \<Rightarrow> nat \<Rightarrow> bool" where
  "rep N r T H sh st \<longleftrightarrow> valid_cap N \<and> length (sp_slots r) = N \<and> pr_tail r = of_nat T \<and>
     pr_cached_head r = of_nat sh \<and> co_head r = of_nat H \<and> co_cached_tail r = of_nat st \<and>
     sh \<le> H \<and> H \<le> st \<and> st \<le> T \<and> T \<le> sh + N"

named_theorems ring_simps \<open>the pieces of the ring's operations\<close>

lemmas ring_defs [ring_simps] = push_reload_def push_write_def push_publish_def pop_reload_def pop_publish_def

lemma cap_pos: "valid_cap N \<Longrightarrow> 2 \<le> N \<and> N < 2 ^ 64"
proof -
  assume "valid_cap N"
  then obtain k where k: "1 \<le> k" "k < 64" "N = 2 ^ k" by (auto simp: valid_cap_def)
  have "(2 :: nat) ^ 1 \<le> 2 ^ k" "(2 :: nat) ^ k < 2 ^ 64"
    using k(1,2) by (intro power_increasing power_strict_increasing; simp)+
  then show ?thesis using k(3) by simp
qed

lemma slot_index_of_nat:
  assumes "valid_cap N"
  shows "slot_index N (of_nat n) = n mod N"
proof -
  obtain k where k: "1 \<le> k" "k < 64" "N = 2 ^ k" using assms by (auto simp: valid_cap_def)
  have "(of_nat N :: u64) - 1 = mask k" by (simp add: k(3) mask_eq_exp_minus_1)
  then have "slot_index N (of_nat n) = unat (take_bit k (of_nat n :: u64))"
    by (simp add: slot_index_def take_bit_eq_mask)
  also have "\<dots> = n mod 2 ^ 64 mod 2 ^ k"
    by (subst unsigned_take_bit_eq) (simp add: unat_of_nat take_bit_eq_mod)
  also have "\<dots> = n mod 2 ^ k"
    using k(2) by (intro mod_mod_cancel le_imp_power_dvd) simp
  finally show ?thesis by (simp add: k(3))
qed

lemma diff_of_nat: "a \<le> b \<Longrightarrow> (of_nat b :: u64) - of_nat a = of_nat (b - a)"
  by (simp add: of_nat_diff)

lemma unat_of_nat64: "n < 2 ^ 64 \<Longrightarrow> unat (of_nat n :: u64) = n"
  by (simp add: unat_of_nat)

lemma of_nat_eq64: "a < 2 ^ 64 \<Longrightarrow> b < 2 ^ 64 \<Longrightarrow> (of_nat a :: u64) = of_nat b \<longleftrightarrow> a = b"
  using unat_of_nat64 [of a] unat_of_nat64 [of b] by metis

lemma rep_full: "rep N r T H sh st \<Longrightarrow> push_full N r \<longleftrightarrow> T = sh + N"
proof -
  assume r: "rep N r T H sh st"
  have d: "pr_tail r - pr_cached_head r = of_nat (T - sh)" "T - sh \<le> N" "N < 2 ^ 64" "sh \<le> T"
    using r diff_of_nat [of sh T] cap_pos [of N] by (auto simp: rep_def)
  have "push_full N r \<longleftrightarrow> T - sh = N"
    unfolding push_full_def d(1) using d(2,3) by (intro of_nat_eq64) simp_all
  then show ?thesis using d(4) by auto
qed

lemma rep_empty: "rep N r T H sh st \<Longrightarrow> pop_empty r \<longleftrightarrow> H = st"
proof -
  assume r: "rep N r T H sh st"
  have d: "co_cached_tail r - co_head r = of_nat (st - H)" "st - H \<le> N" "N < 2 ^ 64" "H \<le> st"
    using r diff_of_nat [of H st] cap_pos [of N] by (auto simp: rep_def)
  have "pop_empty r \<longleftrightarrow> co_cached_tail r - co_head r = of_nat 0" by (auto simp: pop_empty_def)
  also have "\<dots> \<longleftrightarrow> st - H = 0"
    unfolding d(1) using d(2,3) by (intro of_nat_eq64) simp_all
  finally show ?thesis using d(4) by auto
qed

lemma rep_avail:
  assumes "rep N r T H sh st"
  shows "unat (batch_avail mx r) = min (st - H) (unat mx)"
proof -
  have r: "co_cached_tail r - co_head r = of_nat (st - H)" "st - H < 2 ^ 64"
    using assms diff_of_nat [of H st] cap_pos [of N] by (auto simp: rep_def)
  have "unat (of_nat (st - H) :: u64) = st - H" using r(2) by (simp add: unat_of_nat)
  then show ?thesis by (auto simp: batch_avail_def Let_def r(1) word_less_nat_alt)
qed

lemma rep_slot:
  assumes "rep N r T H sh st"
  shows "slot_index N (pr_tail r) = T mod N" "pop_read N (of_nat i) r = sp_slots r ! ((H + i) mod N)"
proof -
  have v: "valid_cap N" "pr_tail r = of_nat T" "co_head r = of_nat H" using assms by (simp_all add: rep_def)
  show "slot_index N (pr_tail r) = T mod N" by (simp add: v(2) slot_index_of_nat [OF v(1)])
  have "co_head r + of_nat i = of_nat (H + i)" by (simp add: v(3))
  then show "pop_read N (of_nat i) r = sp_slots r ! ((H + i) mod N)"
    unfolding pop_read_def by (simp only: slot_index_of_nat [OF v(1)])
qed

text \<open>Distinct items of the window occupy distinct slots.\<close>

lemma mod_window: "i < j \<Longrightarrow> j < i + N \<Longrightarrow> i mod N \<noteq> j mod (N :: nat)"
proof
  assume a: "i < j" "j < i + N" "i mod N = j mod N"
  then have "(j - i) mod N = 0" by (metis less_imp_le mod_eq_dvd_iff_nat mod_0_imp_dvd dvd_imp_mod_0)
  moreover have "(j - i) mod N = j - i" using a by (intro mod_less) linarith
  ultimately show False using a by simp
qed

section \<open>The ring as a bounded queue\<close>

definition holds :: "nat \<Rightarrow> 'a spsc \<Rightarrow> nat \<Rightarrow> 'a list \<Rightarrow> bool" where
  "holds N r H xs \<longleftrightarrow> (\<forall>i < length xs. sp_slots r ! ((H + i) mod N) = xs ! i)"

definition ring_queue :: "nat \<Rightarrow> 'a spsc \<Rightarrow> 'a list \<Rightarrow> bool" where
  "ring_queue N r xs \<longleftrightarrow> (\<exists>H sh st. rep N r (H + length xs) H sh st \<and> holds N r H xs)"

lemma rep_reload_head: "rep N r T H sh st \<Longrightarrow> sh \<le> v \<Longrightarrow> v \<le> H \<Longrightarrow> rep N (push_reload (of_nat v) r) T H v st"
  by (simp add: rep_def ring_simps)

lemma rep_reload_tail: "rep N r T H sh st \<Longrightarrow> st \<le> v \<Longrightarrow> v \<le> T \<Longrightarrow> rep N (pop_reload (of_nat v) r) T H sh v"
  by (simp add: rep_def ring_simps)

lemma rep_write: "rep N r T H sh st \<Longrightarrow> rep N (push_write N x r) T H sh st"
  by (simp add: rep_def ring_simps)

lemma rep_push: "rep N r T H sh st \<Longrightarrow> T < sh + N \<Longrightarrow> rep N (push_publish r) (T + 1) H sh st"
  by (simp add: rep_def ring_simps)

lemma rep_pop: "rep N r T H sh st \<Longrightarrow> H + n \<le> st \<Longrightarrow> w = of_nat n \<Longrightarrow> rep N (pop_publish w r) T (H + n) sh st"
  by (simp add: rep_def ring_simps)

lemma slots_simps [simp]:
  "sp_slots (push_reload h r) = sp_slots r" "sp_slots (push_publish r) = sp_slots r"
  "sp_slots (pop_reload t r) = sp_slots r" "sp_slots (pop_publish w r) = sp_slots r"
  by (simp_all add: ring_simps)

lemma write_slot:
  assumes "rep N r T H sh st" "T < H + N"
  shows "sp_slots (push_write N x r) ! (T mod N) = x"
    "H \<le> k \<Longrightarrow> k < T \<Longrightarrow> sp_slots (push_write N x r) ! (k mod N) = sp_slots r ! (k mod N)"
proof -
  have v: "valid_cap N" "length (sp_slots r) = N" using assms(1) by (simp_all add: rep_def)
  have N: "0 < N" using cap_pos [OF v(1)] by simp
  show "sp_slots (push_write N x r) ! (T mod N) = x"
    using N by (simp add: push_write_def rep_slot(1) [OF assms(1)] v(2))
  show "sp_slots (push_write N x r) ! (k mod N) = sp_slots r ! (k mod N)" if "H \<le> k" "k < T"
    using that assms(2) mod_window [of k T N]
    by (simp add: push_write_def rep_slot(1) [OF assms(1)])
qed

lemma holds_slots: "sp_slots r' = sp_slots r \<Longrightarrow> holds N r' H xs = holds N r H xs"
  by (simp add: holds_def)

lemma holds_push:
  assumes "rep N r (H + length xs) H sh st" "length xs < N" "holds N r H xs"
  shows "holds N (push_publish (push_write N x r)) H (xs @ [x])"
  unfolding holds_def
proof (intro allI impI)
  fix i assume i: "i < length (xs @ [x])"
  note w = write_slot [OF assms(1), where x = x]
  show "sp_slots (push_publish (push_write N x r)) ! ((H + i) mod N) = (xs @ [x]) ! i"
  proof (cases "i = length xs")
    case True
    then show ?thesis using w(1) assms(2) by simp
  next
    case False
    then have l: "i < length xs" using i by simp
    have "sp_slots (push_write N x r) ! ((H + i) mod N) = sp_slots r ! ((H + i) mod N)"
      by (rule w(2)) (use l assms(2) in simp_all)
    then show ?thesis using l assms(3) by (simp add: holds_def nth_append)
  qed
qed

lemma push_spec:
  assumes "ring_queue N r xs" "try_push N x r = (ok, r')"
  shows "ok = (length xs < N) \<and> ring_queue N r' (if ok then xs @ [x] else xs)"
proof -
  obtain H sh st where r: "rep N r (H + length xs) H sh st" "holds N r H xs"
    using assms(1) by (auto simp: ring_queue_def)
  have f: "push_full N r \<longleftrightarrow> H + length xs = sh + N" by (rule rep_full [OF r(1)])
  have le: "sh \<le> H" "co_head r = of_nat H" "H + length xs \<le> sh + N" using r(1) by (simp_all add: rep_def)
  define r1 where "r1 = (if push_full N r then push_reload (co_head r) r else r)"
  define sh1 where "sh1 = (if push_full N r then H else sh)"
  have r1: "rep N r1 (H + length xs) H sh1 st" "holds N r1 H xs"
    using r rep_reload_head [OF r(1) le(1) order_refl] le(2)
    by (auto simp: r1_def sh1_def holds_slots [of "push_reload h r" r for h])
  have f1: "push_full N r1 \<longleftrightarrow> H + length xs = sh1 + N" by (rule rep_full [OF r1(1)])
  have full: "(push_full N r \<and> push_full N r1) = (length xs = N)"
    unfolding f1 using f le by (auto simp: sh1_def)
  have eq: "try_push N x r = (if length xs = N then (False, r1) else (True, push_publish (push_write N x r1)))"
    unfolding try_push_def Let_def r1_def [symmetric] full by (rule refl)
  have lt: "length xs \<noteq> N \<Longrightarrow> length xs < N \<and> H + length xs < sh1 + N"
    using r1(1) f1 full le f by (auto simp: rep_def sh1_def split: if_splits)
  show ?thesis
  proof (cases "length xs = N")
    case True
    then show ?thesis using assms(2) r1 by (auto simp: eq ring_queue_def)
  next
    case False
    have "rep N (push_publish (push_write N x r1)) (H + length (xs @ [x])) H sh1 st"
      using rep_push [OF rep_write [OF r1(1), of x]] lt [OF False] by simp
    then have "ring_queue N (push_publish (push_write N x r1)) (xs @ [x])"
      using holds_push [OF r1(1) _ r1(2)] lt [OF False] unfolding ring_queue_def by blast
    then show ?thesis using assms(2) False lt [OF False] by (simp add: eq)
  qed
qed

text \<open>A pop in either form first refreshes the cached tail if the ring looks empty.\<close>

lemma refresh_tail:
  assumes "ring_queue N r xs"
  shows "\<exists>H sh st. rep N (if pop_empty r then pop_reload (pr_tail r) r else r) (H + length xs) H sh st \<and>
    holds N (if pop_empty r then pop_reload (pr_tail r) r else r) H xs \<and> (st = H \<longrightarrow> pop_empty r \<and> xs = [])"
proof -
  obtain H sh st where r: "rep N r (H + length xs) H sh st" "holds N r H xs"
    using assms by (auto simp: ring_queue_def)
  have t: "pr_tail r = of_nat (H + length xs)" "st \<le> H + length xs" using r(1) by (auto simp: rep_def)
  show ?thesis
  proof (cases "pop_empty r")
    case True
    have "rep N (pop_reload (pr_tail r) r) (H + length xs) H sh (H + length xs)"
      unfolding t(1) by (rule rep_reload_tail [OF r(1) t(2) order_refl])
    then show ?thesis using True r(2) by (intro exI) (auto simp: holds_slots [of "pop_reload v r" r for v])
  next
    case False
    then show ?thesis using r rep_empty [OF r(1)] by auto
  qed
qed

lemma holds_drop: "holds N r H xs \<Longrightarrow> n \<le> length xs \<Longrightarrow> holds N r (H + n) (drop n xs)"
  by (simp add: holds_def add.assoc)

lemma pop_spec:
  assumes "ring_queue N r xs" "try_pop N r = (res, r')"
  shows "res = (case xs of [] \<Rightarrow> None | x # _ \<Rightarrow> Some x) \<and> ring_queue N r' (tl xs)"
proof -
  define r1 where "r1 = (if pop_empty r then pop_reload (pr_tail r) r else r)"
  obtain H sh st where r1: "rep N r1 (H + length xs) H sh st" "holds N r1 H xs" "st = H \<longrightarrow> pop_empty r \<and> xs = []"
    using refresh_tail [OF assms(1)] unfolding r1_def by blast
  have le: "H \<le> st" "st \<le> H + length xs" using r1(1) by (auto simp: rep_def)
  have e: "(pop_empty r \<and> pop_empty r1) = (st = H)" using r1(3) rep_empty [OF r1(1)] by auto
  have eq: "try_pop N r = (if st = H then (None, r1) else (Some (pop_read N 0 r1), pop_publish 1 r1))"
    unfolding try_pop_def Let_def r1_def [symmetric] e by (rule refl)
  show ?thesis
  proof (cases "st = H")
    case True
    then show ?thesis using assms(2) r1 unfolding eq by (auto simp: ring_queue_def)
  next
    case False
    then obtain x ys where xs: "xs = x # ys" using le by (cases xs) auto
    have "pop_read N 0 r1 = x"
      using rep_slot(2) [OF r1(1), of 0] r1(2) [unfolded holds_def xs, rule_format, of 0] by simp
    moreover have "rep N (pop_publish 1 r1) (H + 1 + length ys) (H + 1) sh st"
      using rep_pop [OF r1(1), of 1 1] False le by (simp add: xs)
    moreover have "holds N (pop_publish 1 r1) (H + 1) ys"
      using holds_drop [OF r1(2), of 1] by (simp add: xs holds_slots [of "pop_publish 1 r1" r1])
    ultimately have "ring_queue N (pop_publish 1 r1) ys" unfolding ring_queue_def by blast
    with \<open>pop_read N 0 r1 = x\<close> show ?thesis using assms(2) False xs unfolding eq by auto
  qed
qed

lemma batch_spec:
  assumes "ring_queue N r xs" "pop_batch N mx r = (ys, r')"
  shows "\<exists>zs. xs = ys @ zs \<and> ring_queue N r' zs \<and> length ys \<le> unat mx \<and> (ys = [] \<longrightarrow> xs = [] \<or> mx = 0)"
proof -
  define r1 where "r1 = (if pop_empty r then pop_reload (pr_tail r) r else r)"
  obtain H sh st where r1: "rep N r1 (H + length xs) H sh st" "holds N r1 H xs" "st = H \<longrightarrow> pop_empty r \<and> xs = []"
    using refresh_tail [OF assms(1)] unfolding r1_def by blast
  let ?n = "unat (batch_avail mx r1)"
  have n: "?n = min (st - H) (unat mx)" by (rule rep_avail [OF r1(1)])
  have le: "st \<le> H + length xs" "H \<le> st" using r1(1) by (auto simp: rep_def)
  then have nl: "?n \<le> length xs" "H + ?n \<le> st" using n by auto
  have eq: "ys = map (\<lambda>i. pop_read N (of_nat i) r1) [0..<?n]"
    "r' = (if batch_avail mx r1 \<noteq> 0 then pop_publish (batch_avail mx r1) r1 else r1)"
    using assms(2) unfolding pop_batch_def Let_def r1_def [symmetric] by simp_all
  have "pop_read N (of_nat i) r1 = xs ! i" if "i < ?n" for i
    using that rep_slot(2) [OF r1(1), of i] r1(2) nl(1) by (simp add: holds_def)
  then have ys: "ys = take ?n xs" unfolding eq(1) using nl(1) by (intro nth_equalityI) simp_all
  have "ring_queue N r' (drop ?n xs)"
  proof (cases "batch_avail mx r1 = 0")
    case True
    then show ?thesis using r1 by (auto simp: eq(2) ring_queue_def)
  next
    case False
    have "rep N r' (H + ?n + length (drop ?n xs)) (H + ?n) sh st"
      using rep_pop [OF r1(1) nl(2), of "batch_avail mx r1"] False nl(1) by (simp add: eq(2))
    moreover have "holds N r' (H + ?n) (drop ?n xs)"
      using holds_drop [OF r1(2) nl(1)] False by (simp add: eq(2) holds_slots [of "pop_publish w r1" r1 for w])
    ultimately show ?thesis unfolding ring_queue_def by blast
  qed
  moreover have "ys = [] \<longrightarrow> xs = [] \<or> mx = 0"
    using ys n nl le r1(3) by (auto simp: unat_eq_zero min_def split: if_splits)
  ultimately show ?thesis using ys n nl(1) by (intro exI [of _ "drop ?n xs"]) simp
qed

section \<open>The contract of a bounded queue\<close>

fun push_all :: "('a \<Rightarrow> 'q \<Rightarrow> bool \<times> 'q) \<Rightarrow> 'a list \<Rightarrow> 'q \<Rightarrow> nat \<times> 'q" where
  "push_all push [] q = (0, q)"
| "push_all push (x # xs) q =
     (let (ok, q1) = push x q; (dropped, q2) = push_all push xs q1
      in (if ok then dropped else Suc dropped, q2))"

locale bounded_queue =
  fixes content :: "'q \<Rightarrow> 'a list \<Rightarrow> bool" and cap :: nat
    and push :: "'a \<Rightarrow> 'q \<Rightarrow> bool \<times> 'q" and pop :: "'q \<Rightarrow> 'a option \<times> 'q"
  assumes push_law: "content q xs \<Longrightarrow> push x q = (ok, q') \<Longrightarrow>
      ok = (length xs < cap) \<and> content q' (if ok then xs @ [x] else xs)"
    and pop_law: "content q xs \<Longrightarrow> pop q = (res, q') \<Longrightarrow>
      res = (case xs of [] \<Rightarrow> None | x # _ \<Rightarrow> Some x) \<and> content q' (tl xs)"
    and bound: "content q xs \<Longrightarrow> length xs \<le> cap"
begin

lemma push_all_spec:
  assumes "content q xs" "push_all push ys q = (dropped, q')"
  shows "content q' (xs @ take (cap - length xs) ys) \<and> dropped = length ys - (cap - length xs)"
  using assms
proof (induction ys arbitrary: q q' xs dropped)
  case Nil
  then show ?case by simp
next
  case (Cons y ys)
  obtain ok q1 where p: "push y q = (ok, q1)" by fastforce
  obtain d q2 where r: "push_all push ys q1 = (d, q2)" by fastforce
  note l = push_law [OF Cons.prems(1) p]
  have e: "q' = q2" "dropped = (if ok then d else Suc d)" using Cons.prems(2) p r by simp_all
  show ?case
  proof (cases ok)
    case True
    then have c: "content q1 (xs @ [y])" and lt: "length xs < cap" using l by auto
    have "take (cap - length xs) (y # ys) = y # take (cap - length (xs @ [y])) ys"
      using lt by (simp add: take_Cons' Suc_diff_Suc)
    then show ?thesis using Cons.IH [OF c r] e True lt by auto
  next
    case False
    then have c: "content q1 xs" and "cap - length xs = 0" using l bound [OF Cons.prems(1)] by auto
    then show ?thesis using Cons.IH [OF c r] e False by auto
  qed
qed

lemma pop_after_push:
  assumes "content q []" "0 < cap" "push x q = (ok, q1)" "pop q1 = (res, q2)"
  shows "res = Some x \<and> content q2 []"
  using push_law [OF assms(1,3)] pop_law [OF _ assms(4), of "[x]"] assms(2) by auto

end

interpretation ring: bounded_queue "ring_queue N" N "try_push N" "try_pop N" for N
proof
  show "ok = (length xs < N) \<and> ring_queue N q' (if ok then xs @ [x] else xs)"
    if "ring_queue N q xs" "try_push N x q = (ok, q')" for q xs and x :: 'b and ok q'
    using that by (rule push_spec)
  show "res = (case xs of [] \<Rightarrow> None | x # _ \<Rightarrow> Some x) \<and> ring_queue N q' (tl xs)"
    if "ring_queue N q xs" "try_pop N q = (res, q')" for q and xs :: "'b list" and res q'
    using that by (rule pop_spec)
  show "length xs \<le> N" if "ring_queue N q xs" for q and xs :: "'b list"
    using that by (auto simp: ring_queue_def rep_def)
qed

lemma new_ring_queue: "valid_cap (length junk) \<Longrightarrow> ring_queue (length junk) (new_ring junk) []"
  unfolding ring_queue_def by (intro exI [of _ 0]) (simp add: rep_def new_ring_def holds_def)

section \<open>Producer and consumer, interleaved\<close>

text \<open>
  Where each side is: \<open>P_Full\<close> after the producer found the ring full by its cached head,
  \<open>P_Write\<close> before it writes the slot, \<open>P_Store\<close> before it publishes the tail; \<open>C_Empty\<close>
  before the consumer reloads the tail (for a batch of at most \<open>mx\<close>, or one \<open>try_pop\<close>),
  \<open>C_Read i n\<close> after \<open>i\<close> of \<open>n\<close> reads, \<open>C_Store n\<close> before it publishes the head.
\<close>

datatype 'a producer_pc = P_Idle | P_Full 'a | P_Write 'a | P_Store 'a

datatype consumer_pc = C_Idle | C_Empty u64 | C_Pop_Empty | C_Read nat u64 | C_Store u64

text \<open>
  The last six fields only observe: the items pushed, taken and refused, the number of items
  whose slots the consumer has released, and how much each side has seen of the other.
\<close>

record 'a system =
  ring_of :: "'a spsc"
  ppc :: "'a producer_pc"
  cpc :: consumer_pc
  sent :: "'a list"
  got :: "'a list"
  refused :: "'a list"
  released :: nat
  seen_head :: nat
  seen_tail :: nat

definition system_start :: "'a list \<Rightarrow> 'a system" where
  "system_start junk = \<lparr>ring_of = new_ring junk, ppc = P_Idle, cpc = C_Idle, sent = [], got = [], refused = [],
     released = 0, seen_head = 0, seen_tail = 0\<rparr>"

inductive ring_step :: "nat \<Rightarrow> 'a system \<Rightarrow> 'a system \<Rightarrow> bool" for N where
  push_begin: "ppc s = P_Idle \<Longrightarrow>
    ring_step N s (s\<lparr>ppc := (if push_full N (ring_of s) then P_Full x else P_Write x)\<rparr>)"
| push_look: "ppc s = P_Full x \<Longrightarrow> seen_head s \<le> v \<Longrightarrow> v \<le> released s \<Longrightarrow>
    r' = push_reload (of_nat v) (ring_of s) \<Longrightarrow>
    ring_step N s (if push_full N r'
      then s\<lparr>ring_of := r', seen_head := v, ppc := P_Idle, refused := refused s @ [x]\<rparr>
      else s\<lparr>ring_of := r', seen_head := v, ppc := P_Write x\<rparr>)"
| push_slot: "ppc s = P_Write x \<Longrightarrow>
    ring_step N s (s\<lparr>ring_of := push_write N x (ring_of s), ppc := P_Store x\<rparr>)"
| push_done: "ppc s = P_Store x \<Longrightarrow>
    ring_step N s (s\<lparr>ring_of := push_publish (ring_of s), ppc := P_Idle, sent := sent s @ [x]\<rparr>)"
| batch_begin: "cpc s = C_Idle \<Longrightarrow>
    ring_step N s (s\<lparr>cpc := (if pop_empty (ring_of s) then C_Empty mx else C_Read 0 (batch_avail mx (ring_of s)))\<rparr>)"
| batch_look: "cpc s = C_Empty mx \<Longrightarrow> seen_tail s \<le> v \<Longrightarrow> v \<le> length (sent s) \<Longrightarrow>
    r' = pop_reload (of_nat v) (ring_of s) \<Longrightarrow>
    ring_step N s (s\<lparr>ring_of := r', seen_tail := v, cpc := C_Read 0 (batch_avail mx r')\<rparr>)"
| pop_begin: "cpc s = C_Idle \<Longrightarrow>
    ring_step N s (s\<lparr>cpc := (if pop_empty (ring_of s) then C_Pop_Empty else C_Read 0 1)\<rparr>)"
| pop_look: "cpc s = C_Pop_Empty \<Longrightarrow> seen_tail s \<le> v \<Longrightarrow> v \<le> length (sent s) \<Longrightarrow>
    r' = pop_reload (of_nat v) (ring_of s) \<Longrightarrow>
    ring_step N s (s\<lparr>ring_of := r', seen_tail := v, cpc := (if pop_empty r' then C_Idle else C_Read 0 1)\<rparr>)"
| read: "cpc s = C_Read i n \<Longrightarrow> i < unat n \<Longrightarrow>
    ring_step N s (s\<lparr>got := got s @ [pop_read N (of_nat i) (ring_of s)], cpc := C_Read (i + 1) n\<rparr>)"
| read_end: "cpc s = C_Read i n \<Longrightarrow> \<not> i < unat n \<Longrightarrow>
    ring_step N s (s\<lparr>cpc := (if n \<noteq> 0 then C_Store n else C_Idle)\<rparr>)"
| pop_done: "cpc s = C_Store n \<Longrightarrow>
    ring_step N s (s\<lparr>ring_of := pop_publish n (ring_of s), released := released s + unat n, cpc := C_Idle\<rparr>)"

inductive ring_reachable :: "'a list \<Rightarrow> 'a system \<Rightarrow> bool" for junk where
  start: "ring_reachable junk (system_start junk)"
| step: "ring_reachable junk s \<Longrightarrow> ring_step (length junk) s s' \<Longrightarrow> ring_reachable junk s'"

text \<open>The invariant: the counts, the window of live slots, and what each side is allowed to touch.\<close>

definition reading :: "consumer_pc \<Rightarrow> nat \<times> nat" where
  "reading c = (case c of C_Read i n \<Rightarrow> (i, unat n) | C_Store n \<Rightarrow> (unat n, unat n) | _ \<Rightarrow> (0, 0))"

definition producer_ok :: "nat \<Rightarrow> 'a system \<Rightarrow> bool" where
  "producer_ok N s \<longleftrightarrow> (case ppc s of
     P_Write x \<Rightarrow> length (sent s) < seen_head s + N
   | P_Store x \<Rightarrow> length (sent s) < seen_head s + N \<and> sp_slots (ring_of s) ! (length (sent s) mod N) = x
   | _ \<Rightarrow> True)"

definition consumer_ok :: "'a system \<Rightarrow> bool" where
  "consumer_ok s \<longleftrightarrow> (let (i, n) = reading (cpc s) in i \<le> n \<and> released s + n \<le> seen_tail s \<and>
     got s = take (released s + i) (sent s))"

definition window_ok :: "nat \<Rightarrow> 'a system \<Rightarrow> bool" where
  "window_ok N s \<longleftrightarrow> (\<forall>k. released s \<le> k \<and> k < length (sent s) \<longrightarrow> sp_slots (ring_of s) ! (k mod N) = sent s ! k)"

definition sys_inv :: "nat \<Rightarrow> 'a system \<Rightarrow> bool" where
  "sys_inv N s \<longleftrightarrow> rep N (ring_of s) (length (sent s)) (released s) (seen_head s) (seen_tail s) \<and>
     producer_ok N s \<and> consumer_ok s \<and> window_ok N s"

lemma window_slots: "sp_slots (ring_of s') = sp_slots (ring_of s) \<Longrightarrow> sent s' = sent s \<Longrightarrow>
  released s \<le> released s' \<Longrightarrow> window_ok N s \<Longrightarrow> window_ok N s'"
  by (auto simp: window_ok_def)

lemma producer_steps:
  assumes inv: "sys_inv N s"
  shows "ppc s = P_Idle \<Longrightarrow> sys_inv N (s\<lparr>ppc := (if push_full N (ring_of s) then P_Full x else P_Write x)\<rparr>)"
    "ppc s = P_Full x \<Longrightarrow> seen_head s \<le> v \<Longrightarrow> v \<le> released s \<Longrightarrow> r' = push_reload (of_nat v) (ring_of s) \<Longrightarrow>
      sys_inv N (if push_full N r'
        then s\<lparr>ring_of := r', seen_head := v, ppc := P_Idle, refused := refused s @ [x]\<rparr>
        else s\<lparr>ring_of := r', seen_head := v, ppc := P_Write x\<rparr>)"
    "ppc s = P_Write x \<Longrightarrow> sys_inv N (s\<lparr>ring_of := push_write N x (ring_of s), ppc := P_Store x\<rparr>)"
    "ppc s = P_Store x \<Longrightarrow> sys_inv N (s\<lparr>ring_of := push_publish (ring_of s), ppc := P_Idle, sent := sent s @ [x]\<rparr>)"
proof -
  let ?T = "length (sent s)"
  have r: "rep N (ring_of s) ?T (released s) (seen_head s) (seen_tail s)" and p: "producer_ok N s"
    and c: "consumer_ok s" and w: "window_ok N s" using inv by (simp_all add: sys_inv_def)
  have le: "seen_head s \<le> released s" "released s \<le> seen_tail s" "seen_tail s \<le> ?T" "?T \<le> seen_head s + N"
    using r by (simp_all add: rep_def)
  show "sys_inv N (s\<lparr>ppc := (if push_full N (ring_of s) then P_Full x else P_Write x)\<rparr>)" if "ppc s = P_Idle"
    using r c w le(4) rep_full [OF r] by (auto simp: sys_inv_def producer_ok_def consumer_ok_def window_ok_def)
  show "sys_inv N (if push_full N r'
        then s\<lparr>ring_of := r', seen_head := v, ppc := P_Idle, refused := refused s @ [x]\<rparr>
        else s\<lparr>ring_of := r', seen_head := v, ppc := P_Write x\<rparr>)"
    if "ppc s = P_Full x" "seen_head s \<le> v" "v \<le> released s" "r' = push_reload (of_nat v) (ring_of s)"
  proof -
    have r': "rep N r' ?T (released s) v (seen_tail s)" unfolding that(4) by (rule rep_reload_head [OF r that(2,3)])
    have "?T \<le> v + N" using le(4) that(2) by simp
    then show ?thesis
      using r' c w rep_full [OF r'] by (auto simp: sys_inv_def producer_ok_def consumer_ok_def window_ok_def that(4))
  qed
  show "sys_inv N (s\<lparr>ring_of := push_write N x (ring_of s), ppc := P_Store x\<rparr>)" if "ppc s = P_Write x"
  proof -
    have t: "?T < seen_head s + N" using p that by (simp add: producer_ok_def)
    then have T: "?T < released s + N" using le(1) by simp
    note ws = write_slot [OF r T, where x = x]
    have "sp_slots (push_write N x (ring_of s)) ! (k mod N) = sp_slots (ring_of s) ! (k mod N)"
      if "released s \<le> k" "k < ?T" for k using ws(2) that by blast
    then show ?thesis
      using rep_write [OF r] c w t ws(1) by (auto simp: sys_inv_def producer_ok_def consumer_ok_def window_ok_def)
  qed
  show "sys_inv N (s\<lparr>ring_of := push_publish (ring_of s), ppc := P_Idle, sent := sent s @ [x]\<rparr>)"
    if "ppc s = P_Store x"
  proof -
    have t: "?T < seen_head s + N" "sp_slots (ring_of s) ! (?T mod N) = x"
      using p that by (simp_all add: producer_ok_def)
    obtain i n where rd: "reading (cpc s) = (i, n)" by fastforce
    have cl: "i \<le> n" "released s + n \<le> seen_tail s" "got s = take (released s + i) (sent s)"
      using c rd by (simp_all add: consumer_ok_def)
    then have "got s = take (released s + i) (sent s @ [x])" using le(3) by simp
    then have "consumer_ok (s\<lparr>ring_of := push_publish (ring_of s), ppc := P_Idle, sent := sent s @ [x]\<rparr>)"
      using cl rd by (simp add: consumer_ok_def)
    moreover have "window_ok N (s\<lparr>ring_of := push_publish (ring_of s), ppc := P_Idle, sent := sent s @ [x]\<rparr>)"
      using w t(2) by (auto simp: window_ok_def nth_append less_Suc_eq)
    ultimately show ?thesis
      using rep_push [OF r t(1)] by (simp add: sys_inv_def producer_ok_def)
  qed
qed

lemma consumer_ok_simps [simp]:
  "consumer_ok (s\<lparr>cpc := C_Idle\<rparr>) = (released s \<le> seen_tail s \<and> got s = take (released s) (sent s))"
  "consumer_ok (s\<lparr>cpc := C_Empty mx\<rparr>) = (released s \<le> seen_tail s \<and> got s = take (released s) (sent s))"
  "consumer_ok (s\<lparr>cpc := C_Pop_Empty\<rparr>) = (released s \<le> seen_tail s \<and> got s = take (released s) (sent s))"
  "consumer_ok (s\<lparr>cpc := C_Read i n\<rparr>) =
     (i \<le> unat n \<and> released s + unat n \<le> seen_tail s \<and> got s = take (released s + i) (sent s))"
  "consumer_ok (s\<lparr>cpc := C_Store n\<rparr>) =
     (released s + unat n \<le> seen_tail s \<and> got s = take (released s + unat n) (sent s))"
  by (simp_all add: consumer_ok_def reading_def)

lemma consumer_idle: "consumer_ok s \<Longrightarrow> cpc s \<in> {C_Idle, C_Empty mx, C_Pop_Empty} \<Longrightarrow>
  released s \<le> seen_tail s \<and> got s = take (released s) (sent s)"
  by (auto simp: consumer_ok_def reading_def)

text \<open>An invariant of the parts a step does not touch.\<close>

lemma sys_inv_consumer:
  assumes "sys_inv N s" "rep N r' (length (sent s)) (released s) (seen_head s) st"
    "sp_slots r' = sp_slots (ring_of s)" "consumer_ok (s\<lparr>seen_tail := st, cpc := c\<rparr>)"
  shows "sys_inv N (s\<lparr>ring_of := r', seen_tail := st, cpc := c\<rparr>)"
  using assms by (auto simp: sys_inv_def producer_ok_def consumer_ok_def window_ok_def split: producer_pc.splits)

lemma avail_ok:
  assumes "rep N r T H sh st"
  shows "H + unat (batch_avail mx r) \<le> st" "\<not> pop_empty r \<Longrightarrow> H + 1 \<le> st"
  using rep_avail [OF assms, of mx] rep_empty [OF assms] assms by (auto simp: rep_def)

lemma consumer_begin:
  assumes inv: "sys_inv N s" and idle: "cpc s = C_Idle"
  shows "sys_inv N (s\<lparr>cpc := (if pop_empty (ring_of s) then C_Empty mx else C_Read 0 (batch_avail mx (ring_of s)))\<rparr>)"
    "sys_inv N (s\<lparr>cpc := (if pop_empty (ring_of s) then C_Pop_Empty else C_Read 0 1)\<rparr>)"
proof -
  have r: "rep N (ring_of s) (length (sent s)) (released s) (seen_head s) (seen_tail s)"
    and c: "consumer_ok s" using inv by (simp_all add: sys_inv_def)
  have idle_ok: "released s \<le> seen_tail s \<and> got s = take (released s) (sent s)"
    by (rule consumer_idle [OF c]) (simp add: idle)
  note step = sys_inv_consumer [OF inv r refl, simplified]
  note a = avail_ok [OF r]
  show "sys_inv N (s\<lparr>cpc := (if pop_empty (ring_of s) then C_Empty mx else C_Read 0 (batch_avail mx (ring_of s)))\<rparr>)"
    using step [of "C_Empty mx"] step [of "C_Read 0 (batch_avail mx (ring_of s))"] idle_ok a(1) [of mx] by simp
  show "sys_inv N (s\<lparr>cpc := (if pop_empty (ring_of s) then C_Pop_Empty else C_Read 0 1)\<rparr>)"
    using step [of C_Pop_Empty] step [of "C_Read 0 1"] idle_ok a(2) by simp
qed

lemma consumer_look:
  assumes inv: "sys_inv N s" and v: "seen_tail s \<le> v" "v \<le> length (sent s)"
    and r': "r' = pop_reload (of_nat v) (ring_of s)"
  shows "cpc s = C_Empty mx \<Longrightarrow>
      sys_inv N (s\<lparr>ring_of := r', seen_tail := v, cpc := C_Read 0 (batch_avail mx r')\<rparr>)"
    "cpc s = C_Pop_Empty \<Longrightarrow>
      sys_inv N (s\<lparr>ring_of := r', seen_tail := v, cpc := (if pop_empty r' then C_Idle else C_Read 0 1)\<rparr>)"
proof -
  have r: "rep N (ring_of s) (length (sent s)) (released s) (seen_head s) (seen_tail s)"
    and c: "consumer_ok s" using inv by (simp_all add: sys_inv_def)
  have rv: "rep N r' (length (sent s)) (released s) (seen_head s) v"
    unfolding r' by (rule rep_reload_tail [OF r v])
  have sl: "sp_slots r' = sp_slots (ring_of s)" by (simp add: r')
  note step = sys_inv_consumer [OF inv rv sl] and a = avail_ok [OF rv]
  show "sys_inv N (s\<lparr>ring_of := r', seen_tail := v, cpc := C_Read 0 (batch_avail mx r')\<rparr>)" if "cpc s = C_Empty mx"
  proof -
    have "released s \<le> seen_tail s \<and> got s = take (released s) (sent s)"
      by (rule consumer_idle [OF c, of mx]) (simp add: that)
    then show ?thesis using a(1) [of mx] by (intro step) (simp add: consumer_ok_def reading_def)
  qed
  show "sys_inv N (s\<lparr>ring_of := r', seen_tail := v, cpc := (if pop_empty r' then C_Idle else C_Read 0 1)\<rparr>)"
    if "cpc s = C_Pop_Empty"
  proof -
    have "released s \<le> seen_tail s \<and> got s = take (released s) (sent s)"
      by (rule consumer_idle [OF c]) (simp add: that)
    then show ?thesis using a(2) v(1) by (intro step) (auto simp: consumer_ok_def reading_def)
  qed
qed

lemma consumer_read:
  assumes inv: "sys_inv N s"
  shows "cpc s = C_Read i n \<Longrightarrow> i < unat n \<Longrightarrow>
      sys_inv N (s\<lparr>got := got s @ [pop_read N (of_nat i) (ring_of s)], cpc := C_Read (i + 1) n\<rparr>)"
    "cpc s = C_Read i n \<Longrightarrow> \<not> i < unat n \<Longrightarrow> sys_inv N (s\<lparr>cpc := (if n \<noteq> 0 then C_Store n else C_Idle)\<rparr>)"
    "cpc s = C_Store n \<Longrightarrow>
      sys_inv N (s\<lparr>ring_of := pop_publish n (ring_of s), released := released s + unat n, cpc := C_Idle\<rparr>)"
proof -
  have r: "rep N (ring_of s) (length (sent s)) (released s) (seen_head s) (seen_tail s)"
    and c: "consumer_ok s" and p: "producer_ok N s" and w: "window_ok N s" using inv by (simp_all add: sys_inv_def)
  have le: "seen_tail s \<le> length (sent s)" using r by (simp add: rep_def)
  show "sys_inv N (s\<lparr>got := got s @ [pop_read N (of_nat i) (ring_of s)], cpc := C_Read (i + 1) n\<rparr>)"
    if "cpc s = C_Read i n" "i < unat n"
  proof -
    have ok: "i \<le> unat n" "released s + unat n \<le> seen_tail s" "got s = take (released s + i) (sent s)"
      using c that(1) by (simp_all add: consumer_ok_def reading_def)
    have k: "released s + i < length (sent s)" using ok(2) that(2) le by simp
    have "pop_read N (of_nat i) (ring_of s) = sent s ! (released s + i)"
      using w k by (simp add: rep_slot(2) [OF r] window_ok_def)
    then have "got s @ [pop_read N (of_nat i) (ring_of s)] = take (released s + (i + 1)) (sent s)"
      using ok(3) k by (simp add: take_Suc_conv_app_nth)
    then show ?thesis
      using r p w ok(2) that(2) by (auto simp: sys_inv_def producer_ok_def window_ok_def consumer_ok_def reading_def
          split: producer_pc.splits)
  qed
  show "sys_inv N (s\<lparr>cpc := (if n \<noteq> 0 then C_Store n else C_Idle)\<rparr>)" if "cpc s = C_Read i n" "\<not> i < unat n"
  proof -
    have ok: "i = unat n" "released s + unat n \<le> seen_tail s" "got s = take (released s + unat n) (sent s)"
      using c that by (simp_all add: consumer_ok_def reading_def)
    then show ?thesis using r p w by (auto simp: sys_inv_def producer_ok_def window_ok_def split: producer_pc.splits)
  qed
  show "sys_inv N (s\<lparr>ring_of := pop_publish n (ring_of s), released := released s + unat n, cpc := C_Idle\<rparr>)"
    if "cpc s = C_Store n"
  proof -
    have ok: "released s + unat n \<le> seen_tail s" "got s = take (released s + unat n) (sent s)"
      using c that by (simp_all add: consumer_ok_def reading_def)
    have "rep N (pop_publish n (ring_of s)) (length (sent s)) (released s + unat n) (seen_head s) (seen_tail s)"
      by (rule rep_pop [OF r ok(1)]) simp
    then show ?thesis
      using p w ok by (auto simp: sys_inv_def producer_ok_def window_ok_def consumer_ok_def reading_def
          split: producer_pc.splits)
  qed
qed

lemma step_inv: "ring_step N s s' \<Longrightarrow> sys_inv N s \<Longrightarrow> sys_inv N s'"
proof (induction rule: ring_step.induct)
  case (push_begin s x)
  then show ?case by (intro producer_steps(1))
next
  case (push_look s x v r')
  then show ?case by (intro producer_steps(2))
next
  case (push_slot s x)
  then show ?case by (intro producer_steps(3))
next
  case (push_done s x)
  then show ?case by (intro producer_steps(4))
next
  case (batch_begin s mx)
  then show ?case by (intro consumer_begin(1))
next
  case (batch_look s mx v r')
  then show ?case by (intro consumer_look(1))
next
  case (pop_begin s)
  then show ?case by (intro consumer_begin(2))
next
  case (pop_look s v r')
  then show ?case by (intro consumer_look(2))
next
  case (read s i n)
  then show ?case by (intro consumer_read(1))
next
  case (read_end s i n)
  then show ?case by (intro consumer_read(2))
next
  case (pop_done s n)
  then show ?case by (intro consumer_read(3))
qed

lemma reachable_sys_inv:
  assumes "valid_cap (length junk)"
  shows "ring_reachable junk s \<Longrightarrow> sys_inv (length junk) s"
proof (induction rule: ring_reachable.induct)
  case start
  show ?case using assms
    by (simp add: sys_inv_def system_start_def new_ring_def rep_def producer_ok_def consumer_ok_def
        window_ok_def reading_def)
next
  case (step s s')
  then show ?case using step_inv by blast
qed

section \<open>Properties\<close>

text \<open>
  C8. First in, first out, with nothing lost, repeated or reordered: whatever the interleaving of
  pushes, pops and batches, and however stale the indices the two sides have seen, the items
  the consumer has taken are the first of those the producer has pushed, also after the 64-bit
  indices wrap; and never more than \<open>N\<close> items wait in the ring.
\<close>

theorem ring_fifo:
  assumes "valid_cap (length junk)" "ring_reachable junk s"
  shows "got s = take (length (got s)) (sent s) \<and> released s \<le> length (got s) \<and>
    length (got s) \<le> length (sent s) \<and> length (sent s) \<le> released s + length junk"
proof -
  obtain i n where rd: "reading (cpc s) = (i, n)" by fastforce
  have inv: "rep (length junk) (ring_of s) (length (sent s)) (released s) (seen_head s) (seen_tail s)" "consumer_ok s"
    using reachable_sys_inv [OF assms] by (simp_all add: sys_inv_def)
  then have "got s = take (released s + i) (sent s)" "released s + i \<le> length (sent s)"
    using rd by (auto simp: consumer_ok_def rep_def)
  then show ?thesis using inv(1) by (auto simp: rep_def min_absorb2)
qed

text \<open>
  C18. No data race: in no reachable state is the producer about to write the slot that the
  consumer is about to read. This is what lets the slots be plain memory.
\<close>

theorem ring_race_free:
  assumes "valid_cap (length junk)" "ring_reachable junk s" "ppc s = P_Write x" "cpc s = C_Read i n" "i < unat n"
  shows "slot_index (length junk) (pr_tail (ring_of s)) \<noteq>
    slot_index (length junk) (co_head (ring_of s) + of_nat i)"
proof -
  let ?N = "length junk"
  have inv: "rep ?N (ring_of s) (length (sent s)) (released s) (seen_head s) (seen_tail s)" "consumer_ok s" "producer_ok ?N s"
    using reachable_sys_inv [OF assms(1,2)] by (simp_all add: sys_inv_def)
  have w: "released s + i < length (sent s)" "length (sent s) < released s + i + ?N"
    using inv assms(3-5) by (auto simp: consumer_ok_def reading_def producer_ok_def rep_def)
  have "co_head (ring_of s) + of_nat i = of_nat (released s + i)" using inv(1) by (simp add: rep_def)
  then have "slot_index ?N (co_head (ring_of s) + of_nat i) = (released s + i) mod ?N"
    by (simp only: slot_index_of_nat [OF assms(1)])
  then show ?thesis using mod_window [OF w] rep_slot(1) [OF inv(1)] by simp
qed

text \<open>
  Alone, the ring is a bounded queue of \<open>N\<close> items: a push is refused exactly if \<open>N\<close> wait and
  otherwise appends; pushing a list keeps what fits, and the rest is counted as dropped.
\<close>

theorem ring_push_all:
  assumes "ring_queue N r xs" "push_all (try_push N) ys r = (dropped, r')"
  shows "ring_queue N r' (xs @ take (N - length xs) ys) \<and> dropped = length ys - (N - length xs)"
  using assms by (rule ring.push_all_spec)

text \<open>
  A batch takes the oldest items in order, at most \<open>max\<close> of them, leaves the others, and
  comes back empty only if the ring is empty or nothing was asked for.
\<close>

theorem ring_pop_batch:
  assumes "ring_queue N r xs" "pop_batch N mx r = (ys, r')"
  shows "\<exists>zs. xs = ys @ zs \<and> ring_queue N r' zs \<and> length ys \<le> unat mx \<and> (ys = [] \<longrightarrow> xs = [] \<or> mx = 0)"
  using assms by (rule batch_spec)

section \<open>Witnesses\<close>

lemma valid_cap_2: "valid_cap (length [0 :: nat, 0])" "length [0 :: nat, 0] = 2"
  by (simp_all add: valid_cap_def) (intro exI [of _ 1], simp)

lemma sample_queue: "ring_queue 2 (new_ring [0 :: nat, 0]) []"
  using new_ring_queue [OF valid_cap_2(1)] unfolding valid_cap_2(2) .

lemma ring_reach_step:
  "ring_reachable junk s \<Longrightarrow> ring_step (length junk) s s' \<Longrightarrow> s' = s'' \<Longrightarrow> ring_reachable junk s''"
  using ring_reachable.step by blast

text \<open>One item pushed, the consumer about to read it, the producer about to write the next.\<close>

definition sample_system :: "nat system" where
  "sample_system = \<lparr>ring_of = \<lparr>pr_tail = 1, pr_cached_head = 0, co_head = 0, co_cached_tail = 1, sp_slots = [7, 0]\<rparr>,
     ppc = P_Write 8, cpc = C_Read 0 1, sent = [7], got = [], refused = [], released = 0, seen_head = 0,
     seen_tail = 1\<rparr>"

lemma sample_reachable: "ring_reachable [0, 0] sample_system"
proof -
  let ?s0 = "system_start [0 :: nat, 0]"
  have r0: "ring_reachable [0, 0] ?s0" by (rule ring_reachable.start)
  have r1: "ring_reachable [0, 0] (?s0\<lparr>ppc := P_Write 7\<rparr>)"
    by (rule ring_reach_step [OF r0 push_begin [where x = 7]])
      (simp_all add: system_start_def new_ring_def push_full_def)
  have r2: "ring_reachable [0, 0] (?s0\<lparr>ppc := P_Store 7, ring_of := (ring_of ?s0)\<lparr>sp_slots := [7, 0]\<rparr>\<rparr>)"
    by (rule ring_reach_step [OF r1 push_slot [where x = 7]])
      (simp_all add: system_start_def new_ring_def push_write_def slot_index_def)
  have r3: "ring_reachable [0, 0] (?s0\<lparr>ppc := P_Idle, sent := [7],
      ring_of := (ring_of ?s0)\<lparr>pr_tail := 1, sp_slots := [7, 0]\<rparr>\<rparr>)"
    by (rule ring_reach_step [OF r2 push_done [where x = 7]])
      (simp_all add: system_start_def new_ring_def push_publish_def)
  have r4: "ring_reachable [0, 0] (?s0\<lparr>ppc := P_Write 8, sent := [7],
      ring_of := (ring_of ?s0)\<lparr>pr_tail := 1, sp_slots := [7, 0]\<rparr>\<rparr>)"
    by (rule ring_reach_step [OF r3 push_begin [where x = 8]])
      (simp_all add: system_start_def new_ring_def push_full_def)
  have r5: "ring_reachable [0, 0] (?s0\<lparr>ppc := P_Write 8, cpc := C_Pop_Empty, sent := [7],
      ring_of := (ring_of ?s0)\<lparr>pr_tail := 1, sp_slots := [7, 0]\<rparr>\<rparr>)"
    by (rule ring_reach_step [OF r4 pop_begin])
      (simp_all add: system_start_def new_ring_def pop_empty_def)
  show ?thesis
    by (rule ring_reach_step [OF r5 pop_look [where v = 1, OF _ _ _ refl]])
      (simp_all add: system_start_def new_ring_def pop_empty_def pop_reload_def sample_system_def)
qed

theorem ring_fifo_witness:
  "got sample_system = take (length (got sample_system)) (sent sample_system) \<and>
    length (sent sample_system) \<le> released sample_system + 2 \<and> sent sample_system = [7]"
  using ring_fifo [OF valid_cap_2(1) sample_reachable] by (simp add: sample_system_def)

theorem ring_race_free_witness:
  "slot_index 2 (pr_tail (ring_of sample_system)) \<noteq> slot_index 2 (co_head (ring_of sample_system) + of_nat 0)"
  using ring_race_free [OF valid_cap_2(1) sample_reachable, of 8 0 1] unfolding valid_cap_2(2)
  by (simp add: sample_system_def)

theorem ring_push_all_witness:
  "\<exists>r'. push_all (try_push 2) [5, 6, 7] (new_ring [0 :: nat, 0]) = (1, r') \<and> ring_queue 2 r' [5, 6]"
proof -
  obtain d r' where p: "push_all (try_push 2) [5, 6, 7] (new_ring [0 :: nat, 0]) = (d, r')" by fastforce
  from ring_push_all [OF sample_queue p] p show ?thesis by simp
qed

theorem ring_pop_batch_witness:
  "\<exists>r r' ys zs. ring_queue 2 r [5, 6] \<and> pop_batch 2 256 r = (ys, r') \<and> [5, 6] = ys @ zs \<and> ring_queue 2 r' zs \<and>
    ys \<noteq> ([] :: nat list)"
proof -
  obtain d r where "push_all (try_push 2) [5, 6] (new_ring [0 :: nat, 0]) = (d, r)" by fastforce
  from ring.push_all_spec [OF sample_queue this] have r: "ring_queue 2 r [5, 6]" by simp
  obtain ys r' where b: "pop_batch 2 256 r = (ys, r')" by fastforce
  from ring_pop_batch [OF r b] r b show ?thesis by fastforce
qed

end
