(* ===== verification/Bbo_Cache.thy ===== *)
theory Bbo_Cache
  imports Prelude
begin

text \<open>
  \<^verbatim>\<open>include/itch/bbo_cache.hpp\<close>: the seqlock that publishes a top of book from one writer to any
  number of readers. First the operations as they run alone; then writer and reader on a memory
  in which a relaxed load may return an old value: every atomic keeps the history of its
  stores, a store carries the view of its thread at the last release, and acquire loads and
  fences raise the reader's view. The proof is that no snapshot is torn in spite of that.
\<close>

section \<open>The cache and its operations\<close>

record bbo_snapshot =
  snap_bid_price :: u32
  snap_ask_price :: u32
  snap_bid_qty :: u64
  snap_ask_qty :: u64
  snap_timestamp :: u64

definition no_snapshot :: bbo_snapshot where
  "no_snapshot = \<lparr>snap_bid_price = 0, snap_ask_price = 0, snap_bid_qty = 0, snap_ask_qty = 0, snap_timestamp = 0\<rparr>"

record bbo_cache =
  bc_seq :: u64
  bc_prices :: u64
  bc_bid_qty :: u64
  bc_ask_qty :: u64
  bc_ts :: u64

definition new_bbo :: bbo_cache where
  "new_bbo = \<lparr>bc_seq = 0, bc_prices = 0, bc_bid_qty = 0, bc_ask_qty = 0, bc_ts = 0\<rparr>"

definition pack :: "u32 \<Rightarrow> u32 \<Rightarrow> u64" where
  "pack lo hi = ucast lo OR push_bit 32 (ucast hi)"

definition snapshot_of :: "u64 \<Rightarrow> u64 \<Rightarrow> u64 \<Rightarrow> u64 \<Rightarrow> bbo_snapshot" where
  "snapshot_of prices bid ask ts = \<lparr>snap_bid_price = ucast prices, snap_ask_price = ucast (drop_bit 32 prices),
     snap_bid_qty = bid, snap_ask_qty = ask, snap_timestamp = ts\<rparr>"

definition bbo_store :: "bbo_snapshot \<Rightarrow> bbo_cache \<Rightarrow> bbo_cache" where
  "bbo_store s c =
     (let sq = bc_seq c;
          c1 = c\<lparr>bc_seq := sq + 1\<rparr>;
          c2 = c1\<lparr>bc_prices := pack (snap_bid_price s) (snap_ask_price s)\<rparr>;
          c3 = c2\<lparr>bc_bid_qty := snap_bid_qty s, bc_ask_qty := snap_ask_qty s, bc_ts := snap_timestamp s\<rparr>
      in c3\<lparr>bc_seq := sq + 2\<rparr>)"

definition bbo_try_load :: "bbo_cache \<Rightarrow> bbo_snapshot option" where
  "bbo_try_load c =
     (let s1 = bc_seq c in
      if s1 AND 1 \<noteq> 0 then None
      else let out = snapshot_of (bc_prices c) (bc_bid_qty c) (bc_ask_qty c) (bc_ts c); s2 = bc_seq c
           in if s1 = s2 then Some out else None)"

text \<open>\<open>load\<close> spins until an attempt succeeds; while no one writes, an attempt fails again as it failed before.\<close>

partial_function (option) bbo_load :: "bbo_cache \<Rightarrow> bbo_snapshot option" where
  "bbo_load c = (case bbo_try_load c of Some s \<Rightarrow> Some s | None \<Rightarrow> bbo_load c)"

lemma bbo_load_eq: "bbo_try_load c = Some s \<Longrightarrow> bbo_load c = Some s"
  by (subst bbo_load.simps) simp

definition bbo_version :: "bbo_cache \<Rightarrow> u64" where
  "bbo_version c = bc_seq c div 2"

lemma unpack:
  "ucast (pack lo hi) = lo" "ucast (drop_bit 32 (pack lo hi)) = hi"
proof -
  show "ucast (pack lo hi) = lo"
    by (rule bit_word_eqI) (auto simp: pack_def bit_simps)
  show "ucast (drop_bit 32 (pack lo hi)) = hi"
    by (rule bit_word_eqI) (auto simp: pack_def bit_simps dest: bit_imp_le_length)
qed

lemma snapshot_of_pack:
  "snapshot_of (pack (snap_bid_price s) (snap_ask_price s)) (snap_bid_qty s) (snap_ask_qty s) (snap_timestamp s) = s"
  by (simp add: snapshot_of_def unpack)

section \<open>Memory with views\<close>

datatype loc = Seq | Prices | BidQty | AskQty | Ts

type_synonym view = "loc \<Rightarrow> nat"

text \<open>Each atomic's stores, oldest first, with the view each one publishes.\<close>

type_synonym history = "loc \<Rightarrow> (u64 \<times> view) list"

definition join :: "view \<Rightarrow> view \<Rightarrow> view" where
  "join V W = (\<lambda>l. max (V l) (W l))"

text \<open>A thread's current view, what an acquire fence would add, and its view at the last release fence.\<close>

record thread =
  cur :: view
  acq :: view
  rel :: view

definition store_relaxed :: "loc \<Rightarrow> u64 \<Rightarrow> history \<times> thread \<Rightarrow> history \<times> thread" where
  "store_relaxed l v = (\<lambda>(h, t). let i = length (h l) in
     (h(l := h l @ [(v, (rel t)(l := i))]), t\<lparr>cur := (cur t)(l := i)\<rparr>))"

definition store_release :: "loc \<Rightarrow> u64 \<Rightarrow> history \<times> thread \<Rightarrow> history \<times> thread" where
  "store_release l v = (\<lambda>(h, t). let i = length (h l) in
     (h(l := h l @ [(v, (cur t)(l := i))]), t\<lparr>cur := (cur t)(l := i)\<rparr>))"

definition fence_release :: "thread \<Rightarrow> thread" where
  "fence_release t = t\<lparr>rel := cur t\<rparr>"

definition fence_acquire :: "thread \<Rightarrow> thread" where
  "fence_acquire t = t\<lparr>cur := join (cur t) (acq t)\<rparr>"

text \<open>A load may return any store of the location that is not older than the thread's view.\<close>

definition may_load :: "history \<Rightarrow> thread \<Rightarrow> loc \<Rightarrow> nat \<Rightarrow> bool" where
  "may_load h t l i \<longleftrightarrow> cur t l \<le> i \<and> i < length (h l)"

definition load_relaxed :: "history \<Rightarrow> loc \<Rightarrow> nat \<Rightarrow> thread \<Rightarrow> u64 \<times> thread" where
  "load_relaxed h l i t = (fst (h l ! i), t\<lparr>cur := (cur t)(l := i), acq := join (acq t) (snd (h l ! i))\<rparr>)"

definition load_acquire :: "history \<Rightarrow> loc \<Rightarrow> nat \<Rightarrow> thread \<Rightarrow> u64 \<times> thread" where
  "load_acquire h l i t = (fst (h l ! i), t\<lparr>cur := join ((cur t)(l := i)) (snd (h l ! i))\<rparr>)"

section \<open>Writer and reader\<close>

text \<open>The program counters name the next access.\<close>

datatype writer_pc = W_Idle | W_Fence u64 bbo_snapshot | W_Prices u64 bbo_snapshot | W_Bid u64 bbo_snapshot
  | W_Ask u64 bbo_snapshot | W_Ts u64 bbo_snapshot | W_Seq u64 bbo_snapshot

datatype reader_pc = R_Idle | R_Prices u64 | R_Bid u64 u64 | R_Ask u64 u64 u64 | R_Ts u64 u64 u64 u64
  | R_Fence u64 u64 u64 u64 u64 | R_Seq u64 u64 u64 u64 u64

text \<open>\<open>stored\<close> and \<open>loaded\<close> only observe: the snapshots whose store has begun, and what the reader got.\<close>

record seqlock =
  hist :: history
  writer :: thread
  wpc :: writer_pc
  reader :: thread
  rpc :: reader_pc
  stored :: "bbo_snapshot list"
  loaded :: "bbo_snapshot list"

definition zero_thread :: thread where
  "zero_thread = \<lparr>cur = (\<lambda>_. 0), acq = (\<lambda>_. 0), rel = (\<lambda>_. 0)\<rparr>"

definition seqlock_start :: seqlock where
  "seqlock_start = \<lparr>hist = (\<lambda>_. [(0, \<lambda>_. 0)]), writer = zero_thread, wpc = W_Idle, reader = zero_thread,
     rpc = R_Idle, stored = [], loaded = []\<rparr>"

definition last_seq :: "seqlock \<Rightarrow> u64" where
  "last_seq s = fst (last (hist s Seq))"

definition run_store :: "(history \<times> thread \<Rightarrow> history \<times> thread) \<Rightarrow> writer_pc \<Rightarrow> seqlock \<Rightarrow> seqlock" where
  "run_store f pc s = (let (h, t) = f (hist s, writer s) in s\<lparr>hist := h, writer := t, wpc := pc\<rparr>)"

text \<open>The writer is the only one to store, so its load of \<open>seq\<close> returns the last value.\<close>

inductive writer_step :: "seqlock \<Rightarrow> seqlock \<Rightarrow> bool" where
  w_begin: "wpc s = W_Idle \<Longrightarrow> sq = last_seq s \<Longrightarrow>
    writer_step s ((run_store (store_relaxed Seq (sq + 1)) (W_Fence sq b) s)\<lparr>stored := stored s @ [b]\<rparr>)"
| w_fence: "wpc s = W_Fence sq b \<Longrightarrow> writer_step s (s\<lparr>writer := fence_release (writer s), wpc := W_Prices sq b\<rparr>)"
| w_prices: "wpc s = W_Prices sq b \<Longrightarrow>
    writer_step s (run_store (store_relaxed Prices (pack (snap_bid_price b) (snap_ask_price b))) (W_Bid sq b) s)"
| w_bid: "wpc s = W_Bid sq b \<Longrightarrow> writer_step s (run_store (store_relaxed BidQty (snap_bid_qty b)) (W_Ask sq b) s)"
| w_ask: "wpc s = W_Ask sq b \<Longrightarrow> writer_step s (run_store (store_relaxed AskQty (snap_ask_qty b)) (W_Ts sq b) s)"
| w_ts: "wpc s = W_Ts sq b \<Longrightarrow> writer_step s (run_store (store_relaxed Ts (snap_timestamp b)) (W_Seq sq b) s)"
| w_seq: "wpc s = W_Seq sq b \<Longrightarrow> writer_step s (run_store (store_release Seq (sq + 2)) W_Idle s)"

inductive reader_step :: "seqlock \<Rightarrow> seqlock \<Rightarrow> bool" where
  r_begin: "rpc s = R_Idle \<Longrightarrow> may_load (hist s) (reader s) Seq i \<Longrightarrow>
    load_acquire (hist s) Seq i (reader s) = (s1, t) \<Longrightarrow>
    reader_step s (s\<lparr>reader := t, rpc := (if s1 AND 1 \<noteq> 0 then R_Idle else R_Prices s1)\<rparr>)"
| r_prices: "rpc s = R_Prices s1 \<Longrightarrow> may_load (hist s) (reader s) Prices i \<Longrightarrow>
    load_relaxed (hist s) Prices i (reader s) = (p, t) \<Longrightarrow> reader_step s (s\<lparr>reader := t, rpc := R_Bid s1 p\<rparr>)"
| r_bid: "rpc s = R_Bid s1 p \<Longrightarrow> may_load (hist s) (reader s) BidQty i \<Longrightarrow>
    load_relaxed (hist s) BidQty i (reader s) = (bq, t) \<Longrightarrow> reader_step s (s\<lparr>reader := t, rpc := R_Ask s1 p bq\<rparr>)"
| r_ask: "rpc s = R_Ask s1 p bq \<Longrightarrow> may_load (hist s) (reader s) AskQty i \<Longrightarrow>
    load_relaxed (hist s) AskQty i (reader s) = (aq, t) \<Longrightarrow> reader_step s (s\<lparr>reader := t, rpc := R_Ts s1 p bq aq\<rparr>)"
| r_ts: "rpc s = R_Ts s1 p bq aq \<Longrightarrow> may_load (hist s) (reader s) Ts i \<Longrightarrow>
    load_relaxed (hist s) Ts i (reader s) = (ts, t) \<Longrightarrow>
    reader_step s (s\<lparr>reader := t, rpc := R_Fence s1 p bq aq ts\<rparr>)"
| r_fence: "rpc s = R_Fence s1 p bq aq ts \<Longrightarrow>
    reader_step s (s\<lparr>reader := fence_acquire (reader s), rpc := R_Seq s1 p bq aq ts\<rparr>)"
| r_seq: "rpc s = R_Seq s1 p bq aq ts \<Longrightarrow> may_load (hist s) (reader s) Seq i \<Longrightarrow>
    load_relaxed (hist s) Seq i (reader s) = (s2, t) \<Longrightarrow>
    reader_step s (s\<lparr>reader := t, rpc := R_Idle, loaded := (if s1 = s2 then loaded s @ [snapshot_of p bq aq ts] else loaded s)\<rparr>)"

inductive seqlock_reachable :: "seqlock \<Rightarrow> bool" where
  start: "seqlock_reachable seqlock_start"
| by_writer: "seqlock_reachable s \<Longrightarrow> writer_step s s' \<Longrightarrow> seqlock_reachable s'"
| by_reader: "seqlock_reachable s \<Longrightarrow> reader_step s s' \<Longrightarrow> seqlock_reachable s'"

section \<open>The invariant\<close>

text \<open>What the stores put at each place: store \<open>k\<close> (from 1) makes the \<open>k\<close>-th entry of every field.\<close>

fun snap_field :: "loc \<Rightarrow> bbo_snapshot \<Rightarrow> u64" where
  "snap_field Seq b = 0"
| "snap_field Prices b = pack (snap_bid_price b) (snap_ask_price b)"
| "snap_field BidQty b = snap_bid_qty b"
| "snap_field AskQty b = snap_ask_qty b"
| "snap_field Ts b = snap_timestamp b"

definition ver :: "bbo_snapshot list \<Rightarrow> nat \<Rightarrow> bbo_snapshot" where
  "ver st j = (if j = 0 then no_snapshot else st ! (j - 1))"

lemma field_no_snapshot [simp]: "snap_field l no_snapshot = 0"
  by (cases l) (simp_all add: no_snapshot_def pack_def)

lemma snapshot_of_fields: "snapshot_of (snap_field Prices b) (snap_field BidQty b) (snap_field AskQty b) (snap_field Ts b) = b"
  by (simp add: snapshot_of_pack)

lemma ver_append: "j \<le> length st \<Longrightarrow> ver (st @ xs) j = ver st j"
  by (simp add: ver_def nth_append)

definition entries :: "writer_pc \<Rightarrow> nat \<Rightarrow> loc \<Rightarrow> nat" where
  "entries pc k l = (case pc of
     W_Idle \<Rightarrow> (if l = Seq then 2 * k + 1 else k + 1)
   | W_Fence _ _ \<Rightarrow> (if l = Seq then 2 * k else k)
   | W_Prices _ _ \<Rightarrow> (if l = Seq then 2 * k else k)
   | W_Bid _ _ \<Rightarrow> (if l = Seq then 2 * k else if l = Prices then k + 1 else k)
   | W_Ask _ _ \<Rightarrow> (if l = Seq then 2 * k else if l \<in> {Prices, BidQty} then k + 1 else k)
   | W_Ts _ _ \<Rightarrow> (if l = Seq then 2 * k else if l = Ts then k else k + 1)
   | W_Seq _ _ \<Rightarrow> (if l = Seq then 2 * k else k + 1))"

definition writer_ok :: "seqlock \<Rightarrow> bool" where
  "writer_ok s \<longleftrightarrow> (let k = length (stored s); pending = (\<lambda>sq b. 0 < k \<and> sq = of_nat (2 * k - 2) \<and> b = last (stored s)) in
     (\<forall>l. length (hist s l) = entries (wpc s) k l \<and> cur (writer s) l + 1 = length (hist s l)) \<and>
     (case wpc s of W_Idle \<Rightarrow> True | W_Fence sq b \<Rightarrow> pending sq b
      | W_Prices sq b \<Rightarrow> pending sq b \<and> rel (writer s) Seq = 2 * k - 1
      | W_Bid sq b \<Rightarrow> pending sq b \<and> rel (writer s) Seq = 2 * k - 1
      | W_Ask sq b \<Rightarrow> pending sq b \<and> rel (writer s) Seq = 2 * k - 1
      | W_Ts sq b \<Rightarrow> pending sq b \<and> rel (writer s) Seq = 2 * k - 1
      | W_Seq sq b \<Rightarrow> pending sq b))"

definition seq_entry_ok :: "history \<Rightarrow> nat \<Rightarrow> bool" where
  "seq_entry_ok h i \<longleftrightarrow> fst (h Seq ! i) = of_nat i \<and> (even i \<longrightarrow> (\<forall>l. l \<noteq> Seq \<longrightarrow> i div 2 \<le> snd (h Seq ! i) l))"

definition field_entry_ok :: "bbo_snapshot list \<Rightarrow> history \<Rightarrow> loc \<Rightarrow> nat \<Rightarrow> bool" where
  "field_entry_ok st h l i \<longleftrightarrow> fst (h l ! i) = snap_field l (ver st i) \<and> (0 < i \<longrightarrow> 2 * i - 1 \<le> snd (h l ! i) Seq)"

definition hist_ok :: "bbo_snapshot list \<Rightarrow> history \<Rightarrow> bool" where
  "hist_ok st h \<longleftrightarrow> (\<forall>i < length (h Seq). seq_entry_ok h i) \<and>
     (\<forall>l i. l \<noteq> Seq \<longrightarrow> i < length (h l) \<longrightarrow> field_entry_ok st h l i)"

text \<open>What a reader in the middle of an attempt has: the first sequence value and the fields so far.\<close>

fun attempt :: "reader_pc \<Rightarrow> (u64 \<times> (loc \<times> u64) list) option" where
  "attempt R_Idle = None"
| "attempt (R_Prices s1) = Some (s1, [])"
| "attempt (R_Bid s1 p) = Some (s1, [(Prices, p)])"
| "attempt (R_Ask s1 p bq) = Some (s1, [(Prices, p), (BidQty, bq)])"
| "attempt (R_Ts s1 p bq aq) = Some (s1, [(Prices, p), (BidQty, bq), (AskQty, aq)])"
| "attempt (R_Fence s1 p bq aq ts) = Some (s1, [(Prices, p), (BidQty, bq), (AskQty, aq), (Ts, ts)])"
| "attempt (R_Seq s1 p bq aq ts) = Some (s1, [(Prices, p), (BidQty, bq), (AskQty, aq), (Ts, ts)])"

definition seq_floor :: "reader_pc \<Rightarrow> thread \<Rightarrow> nat" where
  "seq_floor pc t = (case pc of R_Seq _ _ _ _ _ \<Rightarrow> cur t Seq | _ \<Rightarrow> acq t Seq)"

definition got_field :: "history \<Rightarrow> nat \<Rightarrow> nat \<Rightarrow> loc \<times> u64 \<Rightarrow> bool" where
  "got_field h j fl = (\<lambda>(l, v). l \<noteq> Seq \<and>
     (\<exists>i. j \<le> i \<and> i < length (h l) \<and> v = fst (h l ! i) \<and> (0 < i \<longrightarrow> 2 * i - 1 \<le> fl)))"

definition attempt_ok :: "history \<Rightarrow> thread \<Rightarrow> nat \<Rightarrow> u64 \<times> (loc \<times> u64) list \<Rightarrow> bool" where
  "attempt_ok h t fl = (\<lambda>(s1, vs). \<exists>j. s1 = of_nat (2 * j) \<and> 2 * j < length (h Seq) \<and>
     (\<forall>l. l \<noteq> Seq \<longrightarrow> j \<le> cur t l) \<and> list_all (got_field h j fl) vs)"

definition reader_ok :: "seqlock \<Rightarrow> bool" where
  "reader_ok s \<longleftrightarrow> pred_option (attempt_ok (hist s) (reader s) (seq_floor (rpc s) (reader s))) (attempt (rpc s))"

definition loaded_ok :: "seqlock \<Rightarrow> bool" where
  "loaded_ok s \<longleftrightarrow> (\<exists>js. loaded s = map (ver (stored s)) js \<and> sorted js \<and>
     (\<forall>j \<in> set js. j \<le> length (stored s) \<and> 2 * j \<le> cur (reader s) Seq))"

definition seqlock_inv :: "seqlock \<Rightarrow> bool" where
  "seqlock_inv s \<longleftrightarrow> writer_ok s \<and> hist_ok (stored s) (hist s) \<and> reader_ok s \<and>
     (length (stored s) < 2 ^ 63 \<longrightarrow> loaded_ok s)"

section \<open>Stores keep the invariant\<close>

lemma entry_upd: "l' \<noteq> l \<Longrightarrow> (h(l := v)) l' = h l'"
  by simp

lemma hist_ok_seq:
  assumes "hist_ok st h" "v = of_nat (length (h Seq))"
    "even (length (h Seq)) \<Longrightarrow> (\<forall>l. l \<noteq> Seq \<longrightarrow> length (h Seq) div 2 \<le> w l)"
  shows "hist_ok st (h(Seq := h Seq @ [(v, w)]))"
proof -
  have "seq_entry_ok (h(Seq := h Seq @ [(v, w)])) i" if "i < Suc (length (h Seq))" for i
    using that assms by (cases "i = length (h Seq)") (auto simp: hist_ok_def seq_entry_ok_def nth_append)
  moreover have "field_entry_ok st (h(Seq := h Seq @ [(v, w)])) l i" if "l \<noteq> Seq" "i < length (h l)" for l i
    using that assms(1) by (auto simp: hist_ok_def field_entry_ok_def)
  ultimately show ?thesis by (auto simp: hist_ok_def)
qed

lemma hist_ok_field:
  assumes "hist_ok st h" "l \<noteq> Seq" "v = snap_field l (ver st (length (h l)))"
    "0 < length (h l) \<Longrightarrow> 2 * length (h l) - 1 \<le> w Seq"
  shows "hist_ok st (h(l := h l @ [(v, w)]))"
proof -
  let ?h = "h(l := h l @ [(v, w)])"
  have "field_entry_ok st ?h l' i" if "l' \<noteq> Seq" "i < length (?h l')" for l' i
  proof (cases "l' = l")
    case True
    then show ?thesis using that assms
      by (cases "i = length (h l)") (auto simp: hist_ok_def field_entry_ok_def nth_append)
  next
    case False
    then show ?thesis using that assms(1) by (auto simp: hist_ok_def field_entry_ok_def)
  qed
  moreover have "seq_entry_ok ?h i" if "i < length (h Seq)" for i
    using that assms(1,2) by (auto simp: hist_ok_def seq_entry_ok_def)
  ultimately show ?thesis using assms(2) by (auto simp: hist_ok_def)
qed

lemma hist_ok_stored:
  assumes "hist_ok st h" "\<And>l. l \<noteq> Seq \<Longrightarrow> length (h l) \<le> length st + 1"
  shows "hist_ok (st @ xs) h"
proof -
  have "field_entry_ok (st @ xs) h l i" if "l \<noteq> Seq" "i < length (h l)" for l i
    using that assms(1) assms(2) [of l] ver_append [of i st xs] by (auto simp: hist_ok_def field_entry_ok_def)
  then show ?thesis using assms(1) by (auto simp: hist_ok_def)
qed

text \<open>Appending to a history and to the list of stores leaves the reader's facts true.\<close>

lemma got_field_grows:
  assumes "got_field h j fl x" "\<And>l. \<exists>xs. h' l = h l @ xs"
  shows "got_field h' j fl x"
proof -
  obtain l v where x: "x = (l, v)" by (cases x)
  obtain i where i: "j \<le> i" "i < length (h l)" "v = fst (h l ! i)" "0 < i \<longrightarrow> 2 * i - 1 \<le> fl" "l \<noteq> Seq"
    using assms(1) by (auto simp: got_field_def x)
  obtain xs where "h' l = h l @ xs" using assms(2) by blast
  then have "i < length (h' l)" "h' l ! i = h l ! i" using i(2) by (simp_all add: nth_append)
  then show ?thesis using i unfolding got_field_def x by auto
qed

lemma reader_ok_grows:
  assumes "reader_ok s" "\<And>l. \<exists>xs. hist s' l = hist s l @ xs" "reader s' = reader s" "rpc s' = rpc s"
  shows "reader_ok s'"
proof (cases "attempt (rpc s)")
  case None
  then show ?thesis using assms(4) by (simp add: reader_ok_def)
next
  case (Some a)
  obtain s1 vs where a: "a = (s1, vs)" by (cases a)
  let ?fl = "seq_floor (rpc s) (reader s)"
  obtain j where j: "s1 = of_nat (2 * j)" "2 * j < length (hist s Seq)" "\<forall>l. l \<noteq> Seq \<longrightarrow> j \<le> cur (reader s) l"
    "list_all (got_field (hist s) j ?fl) vs"
    using assms(1) Some a by (auto simp: reader_ok_def attempt_ok_def)
  obtain xs where "hist s' Seq = hist s Seq @ xs" using assms(2) by blast
  then have "2 * j < length (hist s' Seq)" using j(2) by simp
  moreover have "list_all (got_field (hist s') j ?fl) vs"
    using j(4) got_field_grows [OF _ assms(2)] by (auto simp: list_all_iff)
  ultimately show ?thesis using j(1,3) Some a assms(3,4) by (auto simp: reader_ok_def attempt_ok_def)
qed

lemma loaded_ok_grows:
  assumes "loaded_ok s" "stored s' = stored s @ xs" "loaded s' = loaded s" "reader s' = reader s"
  shows "loaded_ok s'"
proof -
  obtain js where js: "loaded s = map (ver (stored s)) js" "sorted js"
    "\<forall>j \<in> set js. j \<le> length (stored s) \<and> 2 * j \<le> cur (reader s) Seq" using assms(1) by (auto simp: loaded_ok_def)
  then have "loaded s' = map (ver (stored s')) js" unfolding assms(2,3) by (auto simp: ver_append)
  then show ?thesis using js(2,3) unfolding loaded_ok_def assms(2,4) by (auto intro!: exI [of _ js])
qed

lemma run_store_simps [simp]:
  "stored (run_store f pc s) = stored s" "loaded (run_store f pc s) = loaded s"
  "reader (run_store f pc s) = reader s" "rpc (run_store f pc s) = rpc s" "wpc (run_store f pc s) = pc"
  "hist (run_store f pc s) = fst (f (hist s, writer s))" "writer (run_store f pc s) = snd (f (hist s, writer s))"
  by (simp_all add: run_store_def split: prod.split)

lemma store_simps [simp]:
  "fst (store_relaxed l v (h, t)) = h(l := h l @ [(v, (rel t)(l := length (h l)))])"
  "snd (store_relaxed l v (h, t)) = t\<lparr>cur := (cur t)(l := length (h l))\<rparr>"
  "fst (store_release l v (h, t)) = h(l := h l @ [(v, (cur t)(l := length (h l)))])"
  "snd (store_release l v (h, t)) = t\<lparr>cur := (cur t)(l := length (h l))\<rparr>"
  by (simp_all add: store_relaxed_def store_release_def Let_def)

text \<open>A step that only appends to the history keeps what does not concern the writer.\<close>

lemma writer_frame:
  assumes "seqlock_inv s" "writer_ok s'" "hist_ok (stored s') (hist s')" "\<And>l. \<exists>xs. hist s' l = hist s l @ xs"
    "reader s' = reader s" "rpc s' = rpc s" "loaded s' = loaded s" "stored s' = stored s @ xs"
  shows "seqlock_inv s'"
  using assms reader_ok_grows [of s s'] loaded_ok_grows [of s s' xs] by (auto simp: seqlock_inv_def)

lemma last_entry: "h \<noteq> [] \<Longrightarrow> last h = h ! (length h - 1)"
  by (rule last_conv_nth)

lemma writer_field_step:
  assumes inv: "seqlock_inv s" and l: "l \<noteq> Seq" and k: "length (hist s l) = length (stored s)" "0 < length (stored s)"
    and b: "b = last (stored s)" and rel: "rel (writer s) Seq = 2 * length (stored s) - 1"
    and ok: "writer_ok (run_store (store_relaxed l (snap_field l b)) pc s)"
  shows "seqlock_inv (run_store (store_relaxed l (snap_field l b)) pc s)"
proof (rule writer_frame [OF inv ok, where xs = "[]"])
  have "ver (stored s) (length (hist s l)) = b"
    using k b by (auto simp: ver_def last_conv_nth)
  then show "hist_ok (stored (run_store (store_relaxed l (snap_field l b)) pc s))
      (hist (run_store (store_relaxed l (snap_field l b)) pc s))"
    using inv l k rel by (auto simp: seqlock_inv_def intro!: hist_ok_field)
qed auto

lemma writer_ok_simps:
  assumes "writer_ok s"
  shows "length (hist s l) = entries (wpc s) (length (stored s)) l" "cur (writer s) l + 1 = length (hist s l)"
  using assms by (simp_all add: writer_ok_def Let_def)

lemma loc_Seq: "l \<noteq> Prices \<Longrightarrow> l \<noteq> BidQty \<Longrightarrow> l \<noteq> AskQty \<Longrightarrow> l \<noteq> Ts \<Longrightarrow> l = Seq"
  by (cases l) simp_all

lemma writer_step_inv: "writer_step s s' \<Longrightarrow> seqlock_inv s \<Longrightarrow> seqlock_inv s'"
proof (induction rule: writer_step.induct)
  case (w_begin s sq b)
  let ?k = "length (stored s)" and ?s' = "(run_store (store_relaxed Seq (sq + 1)) (W_Fence sq b) s)\<lparr>stored := stored s @ [b]\<rparr>"
  have ok: "writer_ok s" "hist_ok (stored s) (hist s)" using w_begin(3) by (auto simp: seqlock_inv_def)
  have len: "length (hist s Seq) = 2 * ?k + 1" "\<And>l. l \<noteq> Seq \<Longrightarrow> length (hist s l) = ?k + 1"
    using writer_ok_simps(1) [OF ok(1)] w_begin(1) by (auto simp: entries_def)
  have "seq_entry_ok (hist s) (2 * ?k)" using ok(2) len(1) by (simp add: hist_ok_def)
  moreover have "hist s Seq \<noteq> []" using len(1) by auto
  ultimately have sq: "sq = of_nat (2 * ?k)"
    using w_begin(2) len(1) by (simp add: last_seq_def last_conv_nth seq_entry_ok_def)
  have "hist_ok (stored s @ [b]) (hist s)" by (rule hist_ok_stored [OF ok(2)]) (simp add: len(2))
  then have "hist_ok (stored ?s') (hist ?s')" using len(1) sq by (auto intro!: hist_ok_seq)
  moreover have "writer_ok ?s'"
    using writer_ok_simps [OF ok(1)] w_begin(1) sq by (auto simp: writer_ok_def entries_def Let_def)
  ultimately show ?case by (intro writer_frame [OF w_begin(3), where xs = "[b]"]) auto
next
  case (w_fence s sq b)
  have ok: "writer_ok s" using w_fence(2) by (simp add: seqlock_inv_def)
  then have "cur (writer s) Seq = 2 * length (stored s) - 1"
    using writer_ok_simps [OF ok, of Seq] w_fence(1) by (simp add: entries_def)
  with ok have "writer_ok (s\<lparr>writer := fence_release (writer s), wpc := W_Prices sq b\<rparr>)"
    using w_fence(1)
    by (auto simp: writer_ok_def entries_def fence_release_def Let_def)
  then show ?case using w_fence(2)
    by (intro writer_frame [OF w_fence(2), where xs = "[]"]) (auto simp: seqlock_inv_def)
next
  case (w_prices s sq b)
  have "writer_ok s" using w_prices(2) by (simp add: seqlock_inv_def)
  then show ?case using w_prices(1)
    by (intro writer_field_step [where l = Prices, simplified] w_prices(2))
      (auto simp: writer_ok_def entries_def Let_def intro: loc_Seq split: if_splits)
next
  case (w_bid s sq b)
  have "writer_ok s" using w_bid(2) by (simp add: seqlock_inv_def)
  then show ?case using w_bid(1)
    by (intro writer_field_step [where l = BidQty, simplified] w_bid(2))
      (auto simp: writer_ok_def entries_def Let_def intro: loc_Seq split: if_splits)
next
  case (w_ask s sq b)
  have "writer_ok s" using w_ask(2) by (simp add: seqlock_inv_def)
  then show ?case using w_ask(1)
    by (intro writer_field_step [where l = AskQty, simplified] w_ask(2))
      (auto simp: writer_ok_def entries_def Let_def intro: loc_Seq split: if_splits)
next
  case (w_ts s sq b)
  have "writer_ok s" using w_ts(2) by (simp add: seqlock_inv_def)
  then show ?case using w_ts(1)
    by (intro writer_field_step [where l = Ts, simplified] w_ts(2))
      (auto simp: writer_ok_def entries_def Let_def intro: loc_Seq split: if_splits)
next
  case (w_seq s sq b)
  let ?k = "length (stored s)" and ?s' = "run_store (store_release Seq (sq + 2)) W_Idle s"
  have ok: "writer_ok s" "hist_ok (stored s) (hist s)" using w_seq(2) by (auto simp: seqlock_inv_def)
  have k: "0 < ?k" "sq = of_nat (2 * ?k - 2)" using ok(1) w_seq(1) by (simp_all add: writer_ok_def Let_def)
  have "cur (writer s) l = ?k" if "l \<noteq> Seq" for l
    using writer_ok_simps [OF ok(1), of l] w_seq(1) that by (simp add: entries_def)
  moreover have "length (hist s Seq) = 2 * ?k"
    using writer_ok_simps(1) [OF ok(1), of Seq] w_seq(1) by (simp add: entries_def)
  ultimately have len: "length (hist s Seq) = 2 * ?k" "\<And>l. l \<noteq> Seq \<Longrightarrow> cur (writer s) l = ?k" by simp_all
  have "2 * ?k = (2 * ?k - 2) + 2" using k(1) by linarith
  then have "sq + 2 = of_nat (2 * ?k)" unfolding k(2) by (metis of_nat_add of_nat_numeral)
  then have "hist_ok (stored ?s') (hist ?s')" using len ok(2) by (auto intro!: hist_ok_seq)
  moreover have "writer_ok ?s'"
    using writer_ok_simps [OF ok(1)] w_seq(1) by (auto simp: writer_ok_def entries_def Let_def)
  ultimately show ?case by (intro writer_frame [OF w_seq(2), where xs = "[]"]) auto
qed

section \<open>Loads keep the invariant\<close>

lemma entry_bound: "writer_ok s \<Longrightarrow> length (hist s Seq) \<le> 2 * length (stored s) + 1"
  using writer_ok_simps(1) [of s Seq] by (simp add: entries_def split: writer_pc.splits)

lemma got_field_mono: "got_field h j fl x \<Longrightarrow> fl \<le> fl' \<Longrightarrow> got_field h j fl' x"
  unfolding got_field_def by (cases x) (auto intro: order_trans)

lemma loaded_ok_view:
  assumes "loaded_ok s" "stored s' = stored s" "loaded s' = loaded s" "cur (reader s) Seq \<le> cur (reader s') Seq"
  shows "loaded_ok s'"
  using assms by (auto simp: loaded_ok_def intro: order_trans)

lemma writer_ok_cong:
  assumes "hist s' = hist s" "writer s' = writer s" "wpc s' = wpc s" "stored s' = stored s"
  shows "writer_ok s' = writer_ok s"
  unfolding writer_ok_def assms by (rule refl)

lemma reader_frame:
  assumes "seqlock_inv s" "reader_ok s'" "hist s' = hist s" "writer s' = writer s" "wpc s' = wpc s" "stored s' = stored s"
    "loaded s' = loaded s" "cur (reader s) Seq \<le> cur (reader s') Seq"
  shows "seqlock_inv s'"
  using assms loaded_ok_view [of s s'] writer_ok_cong [of s' s] by (auto simp: seqlock_inv_def)

text \<open>Loading a snap_field: the attempt gains one entry.\<close>

lemma attempt_load:
  assumes h: "hist_ok st h" and a: "attempt_ok h t (acq t Seq) (s1, vs)" and l: "l \<noteq> Seq" "may_load h t l i"
    and ld: "load_relaxed h l i t = (v, t')"
  shows "attempt_ok h t' (acq t' Seq) (s1, vs @ [(l, v)])" "cur t' Seq = cur t Seq"
proof -
  have t': "t' = t\<lparr>cur := (cur t)(l := i), acq := join (acq t) (snd (h l ! i))\<rparr>" "v = fst (h l ! i)"
    using ld by (auto simp: load_relaxed_def)
  obtain j where j: "s1 = of_nat (2 * j)" "2 * j < length (h Seq)" "\<forall>l. l \<noteq> Seq \<longrightarrow> j \<le> cur t l"
    "list_all (got_field h j (acq t Seq)) vs" using a by (auto simp: attempt_ok_def)
  have i: "i < length (h l)" "j \<le> i" using l j(3) by (auto simp: may_load_def intro: order_trans)
  have fl: "acq t Seq \<le> acq t' Seq" by (simp add: t' join_def)
  have "field_entry_ok st h l i" using h l(1) i(1) by (simp add: hist_ok_def)
  then have "0 < i \<longrightarrow> 2 * i - 1 \<le> acq t' Seq" by (auto simp: field_entry_ok_def t' join_def)
  then have "got_field h j (acq t' Seq) (l, v)" using l(1) i t'(2) by (auto simp: got_field_def)
  moreover have "list_all (got_field h j (acq t' Seq)) vs"
    using j(4) fl got_field_mono by (auto simp: list_all_iff)
  ultimately show "attempt_ok h t' (acq t' Seq) (s1, vs @ [(l, v)])"
    using j i(2) t' by (auto simp: attempt_ok_def intro!: exI [of _ j])
  show "cur t' Seq = cur t Seq" using l(1) by (simp add: t')
qed

text \<open>The first load: an even value is that of a finished store, whose fields are then in view.\<close>

lemma attempt_begin:
  assumes h: "hist_ok st h" and l: "may_load h t Seq i" and ld: "load_acquire h Seq i t = (s1, t')" and ev: "s1 AND 1 = 0"
  shows "attempt_ok h t' fl (s1, [])"
proof -
  have t': "t' = t\<lparr>cur := join ((cur t)(Seq := i)) (snd (h Seq ! i))\<rparr>" "s1 = fst (h Seq ! i)"
    using ld by (auto simp: load_acquire_def)
  have i: "i < length (h Seq)" using l by (simp add: may_load_def)
  then have e: "seq_entry_ok h i" using h by (simp add: hist_ok_def)
  then have s1: "s1 = of_nat i" by (simp add: t' seq_entry_ok_def)
  have "even i"
  proof (rule ccontr)
    assume "odd i"
    then have "i AND 1 = 1" by (simp add: and_one_eq odd_iff_mod_2_eq_one)
    moreover have "of_nat (i AND 1) = s1 AND 1" by (simp only: s1 of_nat_and_eq of_nat_1)
    ultimately show False using ev by simp
  qed
  then have "s1 = of_nat (2 * (i div 2))" "2 * (i div 2) < length (h Seq)" using s1 i by simp_all
  moreover have "\<forall>l. l \<noteq> Seq \<longrightarrow> i div 2 \<le> cur t' l"
    using e \<open>even i\<close> by (auto simp: t' join_def seq_entry_ok_def intro: le_max_iff_disj [THEN iffD2])
  ultimately show ?thesis by (auto simp: attempt_ok_def intro!: exI [of _ "i div 2"])
qed

text \<open>The last load: an unchanged value means that all fields came from the same store.\<close>

lemma attempt_end:
  assumes h: "hist_ok st h" and a: "attempt_ok h t (cur t Seq) (s1, [(Prices, p), (BidQty, bq), (AskQty, aq), (Ts, ts)])"
    and l: "may_load h t Seq i" and s2: "fst (h Seq ! i) = s1" and small: "length (h Seq) < 2 ^ 64"
  shows "\<exists>j. i = 2 * j \<and> snapshot_of p bq aq ts = ver st j"
proof -
  obtain j where j: "s1 = of_nat (2 * j)" "2 * j < length (h Seq)"
    "list_all (got_field h j (cur t Seq)) [(Prices, p), (BidQty, bq), (AskQty, aq), (Ts, ts)]"
    using a by (auto simp: attempt_ok_def)
  have i: "cur t Seq \<le> i" "i < length (h Seq)" using l by (simp_all add: may_load_def)
  have "(of_nat i :: u64) = of_nat (2 * j)"
    using h i(2) s2 j(1) by (simp add: hist_ok_def seq_entry_ok_def)
  then have "unat (of_nat i :: u64) = unat (of_nat (2 * j) :: u64)" by (rule arg_cong)
  then have ij: "i = 2 * j" using i(2) j(2) small by (simp only: unat_of_nat) simp
  have eq: "v = snap_field l (ver st j)" if "got_field h j (cur t Seq) (l, v)" for l v
  proof -
    from that obtain k where k: "l \<noteq> Seq" "j \<le> k" "k < length (h l)" "v = fst (h l ! k)"
      "0 < k \<longrightarrow> 2 * k - 1 \<le> cur t Seq" by (auto simp: got_field_def)
    have "k = j" using k(2,5) i(1) ij by (cases "k = 0") auto
    then show ?thesis using h k(1,3,4) by (simp add: hist_ok_def field_entry_ok_def)
  qed
  then have "p = snap_field Prices (ver st j)" "bq = snap_field BidQty (ver st j)" "aq = snap_field AskQty (ver st j)"
    "ts = snap_field Ts (ver st j)"
    using j(3) eq [of Prices p] eq [of BidQty bq] eq [of AskQty aq] eq [of Ts ts] by simp_all
  then show ?thesis using ij snapshot_of_fields [of "ver st j"] by simp
qed

lemma cur_grows:
  "load_acquire h Seq i t = (v, t') \<Longrightarrow> may_load h t Seq i \<Longrightarrow> cur t Seq \<le> cur t' Seq"
  "cur t Seq \<le> cur (fence_acquire t) Seq"
  by (auto simp: load_acquire_def fence_acquire_def join_def may_load_def)

lemma attempt_fence:
  "attempt_ok h t (acq t Seq) a \<Longrightarrow> attempt_ok h (fence_acquire t) (cur (fence_acquire t) Seq) a"
proof -
  assume a: "attempt_ok h t (acq t Seq) a"
  obtain s1 vs where e: "a = (s1, vs)" by (cases a)
  have "acq t Seq \<le> cur (fence_acquire t) Seq" "\<And>l. cur t l \<le> cur (fence_acquire t) l"
    by (simp_all add: fence_acquire_def join_def)
  note le = this
  obtain j where j: "s1 = of_nat (2 * j)" "2 * j < length (h Seq)" "\<forall>l. l \<noteq> Seq \<longrightarrow> j \<le> cur t l"
    "list_all (got_field h j (acq t Seq)) vs" using a by (auto simp: attempt_ok_def e)
  have "list_all (got_field h j (cur (fence_acquire t) Seq)) vs"
    using j(4) got_field_mono [OF _ le(1)] by (auto simp: list_all_iff)
  moreover have "\<forall>l. l \<noteq> Seq \<longrightarrow> j \<le> cur (fence_acquire t) l" using j(3) le(2) by (meson order_trans)
  ultimately show ?thesis using j(1,2) by (auto simp: attempt_ok_def e)
qed

lemma reader_load_step:
  assumes inv: "seqlock_inv s" and pc: "attempt (rpc s) = Some (s1, vs)" "seq_floor (rpc s) (reader s) = acq (reader s) Seq"
    and l: "l \<noteq> Seq" "may_load (hist s) (reader s) l i" "load_relaxed (hist s) l i (reader s) = (v, t')"
    and pc': "attempt pc' = Some (s1, vs @ [(l, v)])" "seq_floor pc' t' = acq t' Seq"
  shows "seqlock_inv (s\<lparr>reader := t', rpc := pc'\<rparr>)"
proof -
  have h: "hist_ok (stored s) (hist s)" "reader_ok s" using inv by (simp_all add: seqlock_inv_def)
  have "attempt_ok (hist s) (reader s) (acq (reader s) Seq) (s1, vs)" using h(2) pc by (simp add: reader_ok_def)
  note al = attempt_load [OF h(1) this l]
  have "reader_ok (s\<lparr>reader := t', rpc := pc'\<rparr>)" using al(1) pc' by (simp add: reader_ok_def)
  then show ?thesis using al(2) by (intro reader_frame [OF inv]) simp_all
qed

lemma loaded_ok_snoc:
  assumes "loaded_ok s" "i = 2 * j" "cur (reader s) Seq \<le> i" "j \<le> length (stored s)" "out = ver (stored s) j"
    "cur t Seq = i"
  shows "loaded_ok (s\<lparr>reader := t, rpc := pc, loaded := loaded s @ [out]\<rparr>)"
proof -
  obtain js where js: "loaded s = map (ver (stored s)) js" "sorted js"
    "\<forall>j \<in> set js. j \<le> length (stored s) \<and> 2 * j \<le> cur (reader s) Seq" using assms(1) by (auto simp: loaded_ok_def)
  have "2 * k \<le> 2 * j" if "k \<in> set js" for k using js(3) that assms(2,3) by (meson order_trans)
  then have "\<forall>k \<in> set js. k \<le> j" by auto
  then have "sorted (js @ [j])" using js(2) by (simp add: sorted_append)
  moreover have "\<forall>k \<in> set (js @ [j]). k \<le> length (stored s) \<and> 2 * k \<le> cur t Seq"
    using js(3) assms(2-4,6) by (auto intro: order_trans)
  ultimately show ?thesis using js(1) assms(5) unfolding loaded_ok_def by (intro exI [of _ "js @ [j]"]) simp
qed

lemma reader_step_inv: "reader_step s s' \<Longrightarrow> seqlock_inv s \<Longrightarrow> seqlock_inv s'"
proof (induction rule: reader_step.induct)
  case (r_begin s i s1 t)
  have h: "hist_ok (stored s) (hist s)" using r_begin(4) by (simp add: seqlock_inv_def)
  have "reader_ok (s\<lparr>reader := t, rpc := (if s1 AND 1 \<noteq> 0 then R_Idle else R_Prices s1)\<rparr>)"
    using attempt_begin [OF h r_begin(2,3)] by (simp add: reader_ok_def)
  then show ?case using cur_grows(1) [OF r_begin(3,2)] by (intro reader_frame [OF r_begin(4)]) simp_all
next
  case (r_prices s s1 i p t)
  then show ?case by (intro reader_load_step [where l = Prices]) (simp_all add: seq_floor_def)
next
  case (r_bid s s1 p i bq t)
  then show ?case by (intro reader_load_step [where l = BidQty]) (simp_all add: seq_floor_def)
next
  case (r_ask s s1 p bq i aq t)
  then show ?case by (intro reader_load_step [where l = AskQty]) (simp_all add: seq_floor_def)
next
  case (r_ts s s1 p bq aq i ts t)
  then show ?case by (intro reader_load_step [where l = Ts]) (simp_all add: seq_floor_def)
next
  case (r_fence s s1 p bq aq ts)
  have "reader_ok s" using r_fence(2) by (simp add: seqlock_inv_def)
  then have "reader_ok (s\<lparr>reader := fence_acquire (reader s), rpc := R_Seq s1 p bq aq ts\<rparr>)"
    using attempt_fence r_fence(1) by (simp add: reader_ok_def seq_floor_def)
  then show ?case using cur_grows(2) by (intro reader_frame [OF r_fence(2)]) simp_all
next
  case (r_seq s s1 p bq aq ts i s2 t)
  let ?s' = "s\<lparr>reader := t, rpc := R_Idle, loaded := (if s1 = s2 then loaded s @ [snapshot_of p bq aq ts] else loaded s)\<rparr>"
  have inv: "writer_ok s" "hist_ok (stored s) (hist s)" "reader_ok s" using r_seq(4) by (simp_all add: seqlock_inv_def)
  have t: "s2 = fst (hist s Seq ! i)" "cur t Seq = i" using r_seq(3) by (auto simp: load_relaxed_def)
  have le: "cur (reader s) Seq \<le> i" "i < length (hist s Seq)" using r_seq(2) by (simp_all add: may_load_def)
  have "loaded_ok ?s'" if small: "length (stored s) < 2 ^ 63" and l: "loaded_ok s"
  proof (cases "s1 = s2")
    case False
    then show ?thesis using loaded_ok_view [OF l, of ?s'] t(2) le(1) by simp
  next
    case True
    have b: "length (hist s Seq) \<le> 2 * length (stored s) + 1" by (rule entry_bound [OF inv(1)])
    have "attempt_ok (hist s) (reader s) (cur (reader s) Seq)
        (s1, [(Prices, p), (BidQty, bq), (AskQty, aq), (Ts, ts)])"
      using inv(3) r_seq(1) by (simp add: reader_ok_def seq_floor_def)
    moreover have "length (hist s Seq) < 2 ^ 64" using b small by simp
    ultimately obtain j where j: "i = 2 * j" "snapshot_of p bq aq ts = ver (stored s) j"
      using attempt_end [OF inv(2) _ r_seq(2)] t(1) True by blast
    have "j \<le> length (stored s)" using j(1) le(2) b by simp
    then show ?thesis using loaded_ok_snoc [OF l j(1) le(1) _ j(2) t(2), of R_Idle] True by simp
  qed
  moreover have "writer_ok ?s'" using writer_ok_cong [of ?s' s] inv(1) by simp
  ultimately show ?case using r_seq(4) by (simp add: seqlock_inv_def reader_ok_def)
qed

lemma seqlock_start_inv: "seqlock_inv seqlock_start"
proof -
  have "writer_ok seqlock_start" "reader_ok seqlock_start"
    by (simp_all add: seqlock_start_def writer_ok_def entries_def zero_thread_def reader_ok_def)
  moreover have "hist_ok [] (hist seqlock_start)"
    by (simp add: seqlock_start_def hist_ok_def seq_entry_ok_def field_entry_ok_def ver_def)
  moreover have "loaded_ok seqlock_start"
    unfolding loaded_ok_def by (intro exI [of _ "[]"]) (simp add: seqlock_start_def)
  ultimately show ?thesis by (simp add: seqlock_inv_def seqlock_start_def)
qed

lemma seqlock_reachable_inv: "seqlock_reachable s \<Longrightarrow> seqlock_inv s"
  by (induction rule: seqlock_reachable.induct)
    (auto intro: seqlock_start_inv writer_step_inv reader_step_inv)

section \<open>Alone\<close>

lemma bbo_store_eq:
  "bbo_store s c = \<lparr>bc_seq = bc_seq c + 2, bc_prices = pack (snap_bid_price s) (snap_ask_price s),
     bc_bid_qty = snap_bid_qty s, bc_ask_qty = snap_ask_qty s, bc_ts = snap_timestamp s\<rparr>"
  by (cases c) (simp add: bbo_store_def Let_def)

lemma fold_store_seq: "bc_seq (fold bbo_store ss c) = bc_seq c + of_nat (2 * length ss)"
  by (induction ss arbitrary: c) (simp_all add: bbo_store_eq)

lemma even_and_1: "(of_nat (2 * n) :: u64) AND 1 = 0"
proof -
  have "(of_nat (2 * n) :: u64) AND 1 = of_nat (2 * n AND 1)" by (simp only: of_nat_and_eq of_nat_1)
  then show ?thesis by (simp add: and_one_eq)
qed

section \<open>Properties\<close>

text \<open>
  C7. No torn snapshot, on weak memory: in every execution of writer and reader, where the
  relaxed loads may return any value that the acquire and release operations do not exclude,
  each snapshot the reader accepts is exactly one that a single store wrote (or the initial
  zeros), and successive snapshots never go back to an older store. The bound is the sequence
  number's: \<open>2\<^sup>6\<^sup>3\<close> stores before it repeats.
\<close>

theorem bbo_no_torn_snapshot:
  assumes "seqlock_reachable s" "length (stored s) < 2 ^ 63"
  shows "\<exists>js. loaded s = map (\<lambda>j. if j = 0 then no_snapshot else stored s ! (j - 1)) js \<and> sorted js \<and>
    (\<forall>j \<in> set js. j \<le> length (stored s))"
  using seqlock_reachable_inv [OF assms(1)] assms(2) unfolding seqlock_inv_def loaded_ok_def ver_def by auto

text \<open>
  Alone, an attempt to load succeeds and returns the last snapshot stored, both prices
  unpacked from their shared word, and the version counts the stores.
\<close>

theorem bbo_store_load:
  assumes "length ss < 2 ^ 63"
  shows "bbo_try_load (fold bbo_store ss new_bbo) = Some (last (no_snapshot # ss)) \<and>
    bbo_version (fold bbo_store ss new_bbo) = of_nat (length ss)"
proof -
  let ?c = "fold bbo_store ss new_bbo"
  have sq: "bc_seq ?c = of_nat (2 * length ss)" using fold_store_seq [of ss new_bbo] by (simp add: new_bbo_def)
  have "snapshot_of (bc_prices ?c) (bc_bid_qty ?c) (bc_ask_qty ?c) (bc_ts ?c) = last (no_snapshot # ss)"
  proof (cases ss rule: rev_cases)
    case Nil
    then show ?thesis by (simp add: new_bbo_def snapshot_of_def no_snapshot_def)
  next
    case (snoc xs b)
    then show ?thesis by (simp add: bbo_store_eq snapshot_of_pack)
  qed
  moreover have "bc_seq ?c AND 1 = 0" unfolding sq by (rule even_and_1)
  moreover have "bbo_version ?c = of_nat (length ss)"
  proof -
    have l: "2 * length ss < 2 ^ 64" "length ss < 2 ^ 64" using assms by simp_all
    have "unat (of_nat (2 * length ss) :: u64) = 2 * length ss" using l(1) by (simp only: unat_of_nat) simp
    then have "unat (bbo_version ?c) = length ss" by (simp add: bbo_version_def sq unat_div)
    moreover have "unat (of_nat (length ss) :: u64) = length ss" using l(2) by (simp only: unat_of_nat) simp
    ultimately show ?thesis by (simp add: word_unat_eq_iff)
  qed
  ultimately show ?thesis by (simp add: bbo_try_load_def Let_def)
qed

section \<open>Witnesses\<close>

lemma seqlock_by_reader:
  "seqlock_reachable s \<Longrightarrow> reader_step s s' \<Longrightarrow> s' = s'' \<Longrightarrow> seqlock_reachable s''"
  using by_reader by blast

text \<open>A store has begun, but the reader still reads the old sequence value, and the old fields.\<close>

lemma sample_seqlock:
  "\<exists>s. seqlock_reachable s \<and> stored s = [b] \<and> loaded s = [no_snapshot]"
proof -
  define h where "h = (hist seqlock_start)(Seq := [(0, \<lambda>_. 0), (1, (\<lambda>_. 0)(Seq := 1))])"
  define w where "w = zero_thread\<lparr>cur := (\<lambda>_. 0)(Seq := 1)\<rparr>"
  let ?s = "\<lambda>pc ld. \<lparr>hist = h, writer = w, wpc = W_Fence 0 b, reader = zero_thread, rpc = pc, stored = [b], loaded = ld\<rparr>"
  note defs = h_def w_def seqlock_start_def zero_thread_def may_load_def load_acquire_def load_relaxed_def
    fence_acquire_def join_def fun_upd_idem
  have "writer_step seqlock_start ((run_store (store_relaxed Seq (0 + 1)) (W_Fence 0 b) seqlock_start)\<lparr>stored := stored seqlock_start @ [b]\<rparr>)"
    by (rule w_begin) (simp_all add: seqlock_start_def last_seq_def)
  moreover have "(run_store (store_relaxed Seq (0 + 1)) (W_Fence 0 b) seqlock_start)\<lparr>stored := stored seqlock_start @ [b]\<rparr> = ?s R_Idle []"
    by (simp add: run_store_def store_relaxed_def defs split: prod.split)
  ultimately have r0: "seqlock_reachable (?s R_Idle [])" using seqlock_reachable.start by_writer by metis
  have h0: "h l ! 0 = (0, \<lambda>_. 0)" "may_load h zero_thread l 0" for l by (simp_all add: defs)
  have z: "zero_thread\<lparr>cur := (cur zero_thread)(l := 0)\<rparr> = zero_thread" for l
    by (simp add: zero_thread_def fun_upd_idem)
  have ld: "load_relaxed h l 0 zero_thread = (0, zero_thread)" "load_acquire h l 0 zero_thread = (0, zero_thread)" for l
    unfolding load_relaxed_def load_acquire_def h0(1) by (simp_all add: defs)
  note loads = ld h0(2)
  have fence: "fence_acquire zero_thread = zero_thread" by (simp add: defs)
  have r1: "seqlock_reachable (?s (R_Prices 0) [])"
    by (rule seqlock_by_reader [OF r0 r_begin [where i = 0 and ?s1.0 = 0 and t = zero_thread]]) (simp_all add: loads)
  have r2: "seqlock_reachable (?s (R_Bid 0 0) [])"
    by (rule seqlock_by_reader [OF r1 r_prices [where i = 0 and t = zero_thread]]) (simp_all add: loads)
  have r3: "seqlock_reachable (?s (R_Ask 0 0 0) [])"
    by (rule seqlock_by_reader [OF r2 r_bid [where i = 0 and t = zero_thread]]) (simp_all add: loads)
  have r4: "seqlock_reachable (?s (R_Ts 0 0 0 0) [])"
    by (rule seqlock_by_reader [OF r3 r_ask [where i = 0 and t = zero_thread]]) (simp_all add: loads)
  have r5: "seqlock_reachable (?s (R_Fence 0 0 0 0 0) [])"
    by (rule seqlock_by_reader [OF r4 r_ts [where i = 0 and t = zero_thread]]) (simp_all add: loads)
  have r6: "seqlock_reachable (?s (R_Seq 0 0 0 0 0) [])"
    by (rule seqlock_by_reader [OF r5 r_fence]) (simp_all add: fence)
  have "seqlock_reachable (?s R_Idle [snapshot_of 0 0 0 0])"
    by (rule seqlock_by_reader [OF r6 r_seq [where i = 0 and t = zero_thread and ?s2.0 = 0 and ?s1.0 = 0
        and p = 0 and bq = 0 and aq = 0 and ts = 0]]) (simp_all add: loads)
  moreover have "snapshot_of 0 0 0 0 = no_snapshot" by (simp add: snapshot_of_def no_snapshot_def)
  ultimately show ?thesis by (intro exI [of _ "?s R_Idle [no_snapshot]"]) simp
qed

theorem bbo_no_torn_snapshot_witness:
  "\<exists>s. seqlock_reachable s \<and> loaded s = [no_snapshot] \<and>
    (\<exists>js. [no_snapshot] = map (\<lambda>j. if j = 0 then no_snapshot else [no_snapshot\<lparr>snap_bid_price := 5\<rparr>] ! (j - 1)) js \<and> sorted js)"
proof -
  obtain s where s: "seqlock_reachable s" "stored s = [no_snapshot\<lparr>snap_bid_price := 5\<rparr>]" "loaded s = [no_snapshot]"
    using sample_seqlock by blast
  have "length (stored s) < 2 ^ 63" by (simp add: s(2))
  from bbo_no_torn_snapshot [OF s(1) this] show ?thesis unfolding s(2,3)
    by (intro exI [of _ s] conjI s(1,3)) (elim exE conjE, intro exI conjI)
qed

theorem bbo_store_load_witness:
  "bbo_try_load (fold bbo_store [no_snapshot\<lparr>snap_bid_price := 5\<rparr>] new_bbo) = Some (no_snapshot\<lparr>snap_bid_price := 5\<rparr>)"
  using bbo_store_load [of "[no_snapshot\<lparr>snap_bid_price := 5\<rparr>]"] by simp

end
