(* ===== verification/Histogram.thy ===== *)
theory Histogram
  imports Prelude
begin

text \<open>
  \<^verbatim>\<open>include/itch/histogram.hpp\<close>: the log-linear latency histogram. Bucket numbers are \<open>nat\<close>
  (\<open>size_t\<close>), samples and counts 64-bit. The three floating-point steps of \<open>percentile\<close> (the
  comparisons of \<open>p\<close> with 0 and 100, and the rank) are arguments of the model.
\<close>

section \<open>Buckets\<close>

definition kSubBits :: nat where "kSubBits = 8"

definition kLinear :: nat where "kLinear = 2 ^ kSubBits"

definition kHalf :: nat where "kHalf = 2 ^ (kSubBits - 1)"

definition kBuckets :: nat where "kBuckets = kLinear + (64 - kSubBits) * kHalf"

lemmas bucket_consts = kSubBits_def kLinear_def kHalf_def kBuckets_def

definition hist_index :: "u64 \<Rightarrow> nat" where
  "hist_index v =
     (if unat v < kLinear then unat v
      else let e = bit_width (unat v) - 1;
               shift = e - (kSubBits - 1);
               top = drop_bit shift v
           in kLinear + (shift - 1) * kHalf + (unat top - kHalf))"

definition hist_lower_bound :: "nat \<Rightarrow> u64" where
  "hist_lower_bound i =
     (if i < kLinear then of_nat i
      else let j = i - kLinear;
               shift = j div kHalf + 1;
               top = kHalf + j mod kHalf
           in push_bit shift (of_nat top))"

definition hist_upper_bound :: "nat \<Rightarrow> u64" where
  "hist_upper_bound i =
     (if i < kLinear then of_nat i
      else let j = i - kLinear;
               shift = j div kHalf + 1;
               top = kHalf + j mod kHalf
           in push_bit shift (of_nat top + 1) - 1)"

section \<open>The histogram\<close>

record histogram =
  hg_counts :: "u64 list"
  hg_count :: u64
  hg_sum :: u64
  hg_min :: u64
  hg_max :: u64

definition new_histogram :: histogram where
  "new_histogram = \<lparr>hg_counts = replicate kBuckets 0, hg_count = 0, hg_sum = 0, hg_min = - 1, hg_max = 0\<rparr>"

text \<open>An index outside the array, undefined behaviour, is \<open>None\<close>.\<close>

definition hist_record :: "u64 \<Rightarrow> histogram \<Rightarrow> histogram option" where
  "hist_record v h =
     (let i = hist_index v in
      if i < length (hg_counts h)
      then Some \<lparr>hg_counts = (hg_counts h)[i := hg_counts h ! i + 1], hg_count = hg_count h + 1,
             hg_sum = hg_sum h + v,
             hg_min = (if v < hg_min h then v else hg_min h),
             hg_max = (if hg_max h < v then v else hg_max h)\<rparr>
      else None)"

fun percentile_scan :: "u64 \<Rightarrow> u64 \<Rightarrow> u64 list \<Rightarrow> nat \<Rightarrow> u64 \<Rightarrow> u64" where
  "percentile_scan target mx [] i cum = mx"
| "percentile_scan target mx (c # cs) i cum =
     (let cum' = cum + c in
      if target \<le> cum'
      then (let hi = hist_upper_bound i in if hi < mx then hi else mx)
      else percentile_scan target mx cs (i + 1) cum')"

text \<open>\<open>positive\<close> is \<open>p > 0.0\<close>, \<open>full\<close> is \<open>p >= 100.0\<close>, \<open>rank\<close> the rank rounded up.\<close>

definition percentile :: "bool \<Rightarrow> bool \<Rightarrow> u64 \<Rightarrow> histogram \<Rightarrow> u64" where
  "percentile positive full rank h =
     (if hg_count h = 0 then 0
      else if \<not> positive then hg_min h
      else if full then hg_max h
      else percentile_scan (if rank = 0 then 1 else rank) (hg_max h) (hg_counts h) 0 0)"

definition hist_min :: "histogram \<Rightarrow> u64" where
  "hist_min h = (if hg_count h \<noteq> 0 then hg_min h else 0)"

definition hist_merge :: "histogram \<Rightarrow> histogram \<Rightarrow> histogram" where
  "hist_merge h o' =
     \<lparr>hg_counts = map2 (+) (hg_counts h) (hg_counts o'), hg_count = hg_count h + hg_count o',
      hg_sum = hg_sum h + hg_sum o',
      hg_min = (if hg_count o' \<noteq> 0 \<and> hg_min o' < hg_min h then hg_min o' else hg_min h),
      hg_max = (if hg_max h < hg_max o' then hg_max o' else hg_max h)\<rparr>"

section \<open>What the buckets hold\<close>

text \<open>The bounds as natural numbers: no wrap, although the last bucket ends at \<open>2\<^sup>6\<^sup>4 - 1\<close>.\<close>

definition bucket_lo :: "nat \<Rightarrow> nat" where
  "bucket_lo i = (if i < 256 then i else (128 + (i - 256) mod 128) * 2 ^ ((i - 256) div 128 + 1))"

definition bucket_size :: "nat \<Rightarrow> nat" where
  "bucket_size i = (if i < 256 then 1 else 2 ^ ((i - 256) div 128 + 1))"

lemma bucket_lo_Suc: "bucket_lo (Suc i) = bucket_lo i + bucket_size i"
proof -
  consider "i < 255" | "i = 255" | (big) j where "i = 256 + j" using le_Suc_ex [of 256 i] by fastforce
  then show ?thesis
  proof cases
    case big
    show ?thesis
    proof (cases "Suc (j mod 128) = 128")
      case True
      then have "Suc j mod 128 = 0" "Suc j div 128 = Suc (j div 128)" "j mod 128 = 127"
        by (simp_all add: mod_Suc div_Suc)
      then show ?thesis by (simp add: big bucket_lo_def bucket_size_def Suc_diff_le)
    next
      case False
      then have "Suc j mod 128 = Suc (j mod 128)" "Suc j div 128 = j div 128"
        by (simp_all add: mod_Suc div_Suc)
      then show ?thesis by (simp add: big bucket_lo_def bucket_size_def Suc_diff_le algebra_simps)
    qed
  qed (simp_all add: bucket_lo_def bucket_size_def)
qed

lemma bucket_size_pos: "0 < bucket_size i"
  by (simp add: bucket_size_def)

lemma bucket_lo_mono: "i < j \<Longrightarrow> bucket_lo i + bucket_size i \<le> bucket_lo j"
proof (induction j)
  case (Suc j)
  then show ?case by (cases "i = j") (auto simp: bucket_lo_Suc intro: trans_le_add1)
qed simp

lemma bucket_unique:
  assumes "bucket_lo i \<le> x" "x < bucket_lo i + bucket_size i" "bucket_lo j \<le> x" "x < bucket_lo j + bucket_size j"
  shows "i = j"
  using bucket_lo_mono [of i j] bucket_lo_mono [of j i] assms by (cases i j rule: linorder_cases) auto

lemma bucket_end: "i < 7424 \<Longrightarrow> bucket_lo i + bucket_size i \<le> 2 ^ 64"
proof -
  assume i: "i < 7424"
  have "bucket_lo i + bucket_size i = bucket_lo (Suc i)" by (simp add: bucket_lo_Suc)
  also have "\<dots> \<le> bucket_lo 7424"
    using i bucket_lo_mono [of "Suc i" 7424] bucket_size_pos [of "Suc i"] by (cases "Suc i = 7424") auto
  also have "\<dots> = 2 ^ 64" by (simp add: bucket_lo_def)
  finally show ?thesis .
qed

lemma unat_bounds:
  assumes "i < kBuckets"
  shows "unat (hist_lower_bound i) = bucket_lo i" "unat (hist_upper_bound i) = bucket_lo i + bucket_size i - 1"
proof -
  let ?s = "(i - 256) div 128 + 1" and ?t = "128 + (i - 256) mod 128"
  have i: "i < 7424" using assms by (simp add: bucket_consts)
  have end_i: "bucket_lo i + bucket_size i \<le> 2 ^ 64" by (rule bucket_end [OF i])
  have "unat (hist_lower_bound i) = bucket_lo i \<and> unat (hist_upper_bound i) = bucket_lo i + bucket_size i - 1"
  proof (cases "i < 256")
    case True
    then show ?thesis by (simp add: hist_lower_bound_def hist_upper_bound_def bucket_consts bucket_lo_def
          bucket_size_def unat_of_nat)
  next
    case False
    have lo: "bucket_lo i = ?t * 2 ^ ?s" and sz: "bucket_size i = 2 ^ ?s" using False
      by (simp_all add: bucket_lo_def bucket_size_def)
    have w: "push_bit ?s (of_nat n :: u64) = of_nat (n * 2 ^ ?s)" for n
      by (simp add: push_bit_eq_mult)
    have "hist_lower_bound i = of_nat (bucket_lo i)" unfolding lo
      unfolding hist_lower_bound_def Let_def w [symmetric] using False by (simp add: bucket_consts)
    moreover have "bucket_lo i < 2 ^ 64" using end_i bucket_size_pos [of i] by linarith
    ultimately have l: "unat (hist_lower_bound i) = bucket_lo i" by (simp only: unat_of_nat) simp
    have "hist_upper_bound i = of_nat ((?t + 1) * 2 ^ ?s) - 1"
      using False w [of "?t + 1"] by (simp add: hist_upper_bound_def bucket_consts Let_def add.commute)
    also have "(?t + 1) * 2 ^ ?s = (bucket_lo i + bucket_size i - 1) + 1"
      using bucket_size_pos [of i] by (simp add: lo sz algebra_simps)
    also have "(of_nat \<dots> :: u64) - 1 = of_nat (bucket_lo i + bucket_size i - 1)" by (simp only: of_nat_add of_nat_1) simp
    finally have "hist_upper_bound i = of_nat (bucket_lo i + bucket_size i - 1)" .
    moreover have "bucket_lo i + bucket_size i - 1 < 2 ^ 64" using end_i bucket_size_pos [of i] by linarith
    ultimately have "unat (hist_upper_bound i) = bucket_lo i + bucket_size i - 1" by (simp only: unat_of_nat) simp
    with l show ?thesis by simp
  qed
  then show "unat (hist_lower_bound i) = bucket_lo i" "unat (hist_upper_bound i) = bucket_lo i + bucket_size i - 1"
    by simp_all
qed

lemma index_bucket:
  "hist_index v < kBuckets \<and> bucket_lo (hist_index v) \<le> unat v \<and>
     unat v < bucket_lo (hist_index v) + bucket_size (hist_index v)"
proof (cases "unat v < 256")
  case True
  then show ?thesis by (simp add: hist_index_def bucket_consts bucket_lo_def bucket_size_def)
next
  case False
  let ?w = "bit_width (unat v)"
  define s where "s = ?w - 8"
  have w: "2 ^ (?w - 1) \<le> unat v" "unat v < 2 ^ ?w"
    using bit_width_lower [of "unat v"] bit_width_bound [of "unat v"] False by simp_all
  have "8 < ?w"
  proof (rule ccontr)
    assume "\<not> 8 < ?w"
    then have "(2 :: nat) ^ ?w \<le> 2 ^ 8" by (intro power_increasing) simp_all
    then show False using w(2) False by simp
  qed
  moreover have "?w \<le> 64" by (rule bit_width_le) (use unsigned_less [of v] in simp)
  ultimately have s: "1 \<le> s" "s \<le> 56" "?w = s + 8" by (simp_all add: s_def)
  define t where "t = unat v div 2 ^ s"
  have pos: "(0 :: nat) < 2 ^ s" by simp
  have t: "128 \<le> t" "t < 256"
  proof -
    have "(2 :: nat) ^ (?w - 1) = 128 * 2 ^ s" "(2 :: nat) ^ ?w = 256 * 2 ^ s" using s by (simp_all add: power_add)
    then have "128 * 2 ^ s \<le> unat v" "unat v < 256 * 2 ^ s" using w by simp_all
    then show "128 \<le> t" "t < 256" unfolding t_def
      using pos by (simp_all add: less_eq_div_iff_mult_less_eq div_less_iff_less_mult)
  qed
  have top: "unat (drop_bit s v) = t" by (simp only: t_def unat_drop_bit64)
  have idx: "hist_index v = 256 + (s - 1) * 128 + (t - 128)"
    using False top s by (simp add: hist_index_def bucket_consts Let_def)
  have "(s - 1) * 128 \<le> 55 * 128" using s by (intro mult_le_mono1) simp
  then have b: "hist_index v < kBuckets" using t by (simp add: idx bucket_consts)
  have j: "hist_index v - 256 = (s - 1) * 128 + (t - 128)" by (simp add: idx)
  have dm: "((s - 1) * 128 + x) mod 128 = x" "((s - 1) * 128 + x) div 128 = s - 1" if "x < 128" for x
    using that by simp_all
  have "t - 128 < 128" using t by simp
  note dm [OF this]
  then have "bucket_lo (hist_index v) = t * 2 ^ s" "bucket_size (hist_index v) = 2 ^ s"
    using t s(1) idx by (simp_all add: bucket_lo_def bucket_size_def j)
  moreover have "t * 2 ^ s \<le> unat v" "unat v < t * 2 ^ s + 2 ^ s"
    unfolding t_def using div_mult_mod_eq [of "unat v" "2 ^ s"] mod_less_divisor [OF pos, of "unat v"] by linarith+
  ultimately show ?thesis using b by simp
qed

lemma index_iff:
  "hist_index v = i \<longleftrightarrow> bucket_lo i \<le> unat v \<and> unat v < bucket_lo i + bucket_size i"
  using index_bucket [of v] bucket_unique [of "hist_index v" "unat v" i] by auto

lemma index_mono: "v \<le> w \<Longrightarrow> hist_index v \<le> hist_index w"
proof (rule ccontr)
  assume a: "v \<le> w" "\<not> hist_index v \<le> hist_index w"
  then have "bucket_lo (hist_index w) + bucket_size (hist_index w) \<le> bucket_lo (hist_index v)"
    by (intro bucket_lo_mono) simp
  then show False using index_bucket [of v] index_bucket [of w] a(1) by (simp add: word_le_nat_alt)
qed

section \<open>What a histogram represents\<close>

definition hist_rep :: "histogram \<Rightarrow> u64 list \<Rightarrow> bool" where
  "hist_rep h vs \<longleftrightarrow>
     hg_counts h = map (\<lambda>i. of_nat (length (filter (\<lambda>v. hist_index v = i) vs))) [0..<kBuckets] \<and>
     hg_count h = of_nat (length vs) \<and> hg_sum h = sum_list vs \<and>
     hg_min h = fold min vs (- 1) \<and> hg_max h = fold max vs 0"

lemma new_histogram_rep: "hist_rep new_histogram []"
  by (simp add: hist_rep_def new_histogram_def map_replicate_const)

lemma record_rep:
  assumes "hist_rep h vs"
  shows "\<exists>h'. hist_record v h = Some h' \<and> hist_rep h' (vs @ [v])"
proof -
  let ?c = "\<lambda>vs i. of_nat (length (filter (\<lambda>v. hist_index v = i) vs)) :: u64"
  have i: "hist_index v < length (hg_counts h)" using assms index_bucket [of v] by (simp add: hist_rep_def)
  have "(map (?c vs) [0..<kBuckets])[hist_index v := ?c vs (hist_index v) + 1] = map (?c (vs @ [v])) [0..<kBuckets]"
    by (rule nth_equalityI) (auto simp: nth_list_update)
  then show ?thesis using i assms
    by (auto simp: hist_record_def Let_def hist_rep_def min_def max_def not_less dual_order.order_iff_strict)
qed

lemma fold_max_ge: "(a :: 'a :: linorder) \<le> fold max vs a"
proof (induction vs arbitrary: a)
  case (Cons w vs)
  show ?case using Cons.IH [of "max w a"] by (auto intro: order_trans)
qed simp

lemma fold_max_mem: "v \<in> set vs \<Longrightarrow> v \<le> fold max vs (a :: 'a :: linorder)"
proof (induction vs arbitrary: a)
  case (Cons w vs)
  then show ?case using fold_max_ge [of "max w a" vs] by (auto intro: order_trans)
qed simp

lemma fold_min_start: "fold min vs (min a b) = min (fold min vs a) (b :: 'a :: linorder)"
  by (induction vs arbitrary: a) (simp_all add: min.assoc [symmetric])

lemma fold_max_start: "fold max vs (max a b) = max (fold max vs a) (b :: 'a :: linorder)"
  by (induction vs arbitrary: a) (simp_all add: max.assoc [symmetric])

section \<open>Ranks\<close>

text \<open>In a sorted list, the elements that satisfy a downward-closed predicate are the first ones.\<close>

lemma rank_filter:
  assumes "sorted xs" "\<And>v w. v \<le> w \<Longrightarrow> P w \<Longrightarrow> P v" "0 < t" "t \<le> length xs"
  shows "t \<le> length (filter P xs) \<longleftrightarrow> P (xs ! (t - 1))"
proof
  assume p: "P (xs ! (t - 1))"
  have "P v" if "v \<in> set (take t xs)" for v
  proof -
    from that obtain i where i: "i < t" "v = xs ! i" using assms(4) by (auto simp: in_set_conv_nth)
    then have "v \<le> xs ! (t - 1)" using assms by (auto intro: sorted_nth_mono)
    then show ?thesis using p assms(2) by blast
  qed
  then have "filter P (take t xs) = take t xs" by simp
  moreover have "length (filter P xs) = length (filter P (take t xs)) + length (filter P (drop t xs))"
    by (metis append_take_drop_id filter_append length_append)
  ultimately show "t \<le> length (filter P xs)" using assms(4) by simp
next
  assume l: "t \<le> length (filter P xs)"
  show "P (xs ! (t - 1))"
  proof (rule ccontr)
    assume n: "\<not> P (xs ! (t - 1))"
    have "\<not> P v" if "v \<in> set (drop (t - 1) xs)" for v
    proof -
      from that obtain i where i: "i < length xs - (t - 1)" "v = xs ! (t - 1 + i)"
        by (auto simp: in_set_conv_nth)
      then have "xs ! (t - 1) \<le> v" using assms by (auto intro!: sorted_nth_mono)
      then show ?thesis using n assms(2) by blast
    qed
    then have "filter P (drop (t - 1) xs) = []" by (simp add: filter_empty_conv)
    moreover have "length (filter P xs) = length (filter P (take (t - 1) xs)) + length (filter P (drop (t - 1) xs))"
      by (metis append_take_drop_id filter_append length_append)
    moreover have "length (filter P (take (t - 1) xs)) \<le> t - 1"
      by (rule order_trans [OF length_filter_le]) simp
    ultimately show False using l assms(3) by simp
  qed
qed

definition below :: "u64 list \<Rightarrow> nat \<Rightarrow> nat" where
  "below vs i = length (filter (\<lambda>v. hist_index v < i) vs)"

lemma below_Suc: "below vs (Suc i) = below vs i + length (filter (\<lambda>v. hist_index v = i) vs)"
  unfolding below_def by (induction vs) auto

lemma below_le: "below vs i \<le> length vs"
  by (simp add: below_def)

lemma below_rank:
  assumes "0 < t" "t \<le> length vs"
  shows "t \<le> below vs (Suc i) \<longleftrightarrow> hist_index (sort vs ! (t - 1)) \<le> i"
proof -
  have "below vs (Suc i) = length (filter (\<lambda>v. hist_index v \<le> i) (sort vs))"
    by (simp add: below_def filter_sort less_Suc_eq_le)
  moreover have "t \<le> length (filter (\<lambda>v. hist_index v \<le> i) (sort vs)) \<longleftrightarrow> hist_index (sort vs ! (t - 1)) \<le> i"
    by (rule rank_filter) (use assms in \<open>auto intro: order_trans [OF index_mono]\<close>)
  ultimately show ?thesis by simp
qed

lemma scan_spec:
  assumes t: "0 < unat t" "unat t \<le> length vs" "length vs < 2 ^ 64" and k: "k = hist_index (sort vs ! (unat t - 1))"
    and n: "k < n" and i: "i \<le> k"
  shows "percentile_scan t mx (map (\<lambda>i. of_nat (length (filter (\<lambda>v. hist_index v = i) vs))) [i..<n]) i (of_nat (below vs i)) =
    (let hi = hist_upper_bound k in if hi < mx then hi else mx)"
  using i
proof (induction "k - i" arbitrary: i)
  case 0
  then have ik: "i = k" by simp
  have "unat (of_nat (below vs (Suc k)) :: u64) = below vs (Suc k)"
    using below_le [of vs "Suc k"] t(3) by (simp add: unat_of_nat)
  moreover have "unat t \<le> below vs (Suc k)" using below_rank [OF t(1,2), of k] k by simp
  ultimately have "t \<le> of_nat (below vs (Suc k))" by (simp add: word_le_nat_alt)
  then show ?case using n by (subst upt_conv_Cons) (simp_all add: ik below_Suc Let_def)
next
  case (Suc d)
  then have ik: "i < k" by simp
  have "unat (of_nat (below vs (Suc i)) :: u64) = below vs (Suc i)"
    using below_le [of vs "Suc i"] t(3) by (simp add: unat_of_nat)
  moreover have "\<not> unat t \<le> below vs (Suc i)" using below_rank [OF t(1,2), of i] k ik by simp
  ultimately have "\<not> t \<le> of_nat (below vs (Suc i))" by (simp add: word_le_nat_alt)
  moreover have "d = k - Suc i" "Suc i \<le> k" using Suc.hyps(2) ik by simp_all
  note Suc.hyps(1) [OF this]
  ultimately show ?case using n ik by (subst upt_conv_Cons) (simp_all add: below_Suc Let_def)
qed

lemma percentile_spec:
  assumes "hist_rep h vs" "0 < unat rank" "unat rank \<le> length vs" "length vs < 2 ^ 64"
  shows "percentile True False rank h =
    (let hi = hist_upper_bound (hist_index (sort vs ! (unat rank - 1))) in if hi < hg_max h then hi else hg_max h)"
proof -
  have "unat (of_nat (length vs) :: u64) = length vs" using assms(4) by (simp add: unat_of_nat)
  then have "hg_count h \<noteq> 0" using assms by (auto simp: hist_rep_def)
  moreover have "rank \<noteq> 0" using assms(2) by auto
  moreover have "below vs 0 = 0" by (simp add: below_def)
  moreover note scan_spec [OF assms(2-4) refl, of kBuckets 0 "hg_max h"] index_bucket
  ultimately show ?thesis using assms(1) by (simp add: percentile_def hist_rep_def)
qed

lemma merge_rep:
  assumes "hist_rep h vs" "hist_rep o' ws" "length ws < 2 ^ 64"
  shows "hist_rep (hist_merge h o') (vs @ ws)"
proof -
  have c: "hg_counts (hist_merge h o') =
      map (\<lambda>i. of_nat (length (filter (\<lambda>v. hist_index v = i) (vs @ ws)))) [0..<kBuckets]"
    using assms(1,2) by (intro nth_equalityI) (simp_all add: hist_merge_def hist_rep_def)
  have "unat (of_nat (length ws) :: u64) = length ws" using assms(3) by (simp add: unat_of_nat)
  then have z: "hg_count o' \<noteq> 0 \<longleftrightarrow> ws \<noteq> []" using assms(2) by (auto simp: hist_rep_def)
  have top: "x \<le> (- 1 :: u64)" for x by simp
  have mn: "fold min (vs @ ws) (- 1) = min (hg_min h) (hg_min o')"
    using assms(1,2) fold_min_start [of ws "- 1" "fold min vs (- 1)"]
    by (simp add: hist_rep_def min_absorb2 [OF top] min.commute)
  have mx: "fold max (vs @ ws) 0 = max (hg_max h) (hg_max o')"
    using assms(1,2) fold_max_start [of ws 0 "fold max vs 0"] by (simp add: hist_rep_def max.commute)
  have "hg_min (hist_merge h o') = min (hg_min h) (hg_min o')"
    using z assms(1,2) by (auto simp: hist_merge_def min_def hist_rep_def not_le)
  moreover have "hg_max (hist_merge h o') = max (hg_max h) (hg_max o')" by (auto simp: hist_merge_def max_def)
  ultimately show ?thesis using c mn mx assms(1,2) by (simp add: hist_rep_def hist_merge_def)
qed

lemma hist_bucket_bounds_aux:
  "hist_index v < kBuckets \<and> hist_lower_bound (hist_index v) \<le> v \<and> v \<le> hist_upper_bound (hist_index v) \<and>
    unat (hist_upper_bound (hist_index v)) \<le> unat v + unat v div 128"
proof -
  let ?i = "hist_index v"
  note b = index_bucket [of v]
  have u: "unat (hist_lower_bound ?i) = bucket_lo ?i" "unat (hist_upper_bound ?i) = bucket_lo ?i + bucket_size ?i - 1"
    using unat_bounds b by blast+
  have "bucket_size ?i - 1 \<le> unat v div 128"
  proof (cases "?i < 256")
    case False
    then have "128 * bucket_size ?i \<le> bucket_lo ?i" by (simp add: bucket_size_def bucket_lo_def)
    then have "128 * bucket_size ?i \<le> unat v" using b by linarith
    then have "bucket_size ?i \<le> unat v div 128" by linarith
    then show ?thesis by simp
  qed (simp add: bucket_size_def)
  then show ?thesis using b u by (auto simp: word_le_nat_alt)
qed

section \<open>Properties\<close>

text \<open>
  Every sample has a bucket of the array, lies between its bounds, and the upper bound that
  is reported for it exceeds it by at most one part in 128; the last bucket's bound does not
  wrap although the shift that computes it does.
\<close>

theorem hist_bucket_bounds:
  "hist_index v < kBuckets \<and> hist_lower_bound (hist_index v) \<le> v \<and> v \<le> hist_upper_bound (hist_index v) \<and>
    unat (hist_upper_bound (hist_index v)) \<le> unat v + unat v div 128"
  by (rule hist_bucket_bounds_aux)


text \<open>
  Recording keeps every sample: it never leaves the array, and merging two histograms gives
  the histogram of all samples of both.
\<close>

theorem hist_record_merge:
  assumes "hist_rep h vs" "hist_rep o' ws" "length ws < 2 ^ 64"
  shows "(\<exists>h'. hist_record v h = Some h' \<and> hist_rep h' (vs @ [v])) \<and> hist_rep (hist_merge h o') (vs @ ws)"
  using record_rep [OF assms(1)] merge_rep [OF assms] by blast

section \<open>Witnesses\<close>

lemma sample_histogram: "\<exists>h. hist_rep h [300, 7, 1000]"
  using record_rep [OF new_histogram_rep, of 300] record_rep [of _ "[300]" 7] record_rep [of _ "[300, 7]" 1000]
  by fastforce


theorem hist_record_merge_witness:
  "\<exists>h. hist_rep h [300, 7, 1000] \<and> hist_rep (hist_merge h h) [300, 7, 1000, 300, 7, 1000]"
proof -
  obtain h where h: "hist_rep h [300, 7, 1000]" using sample_histogram by blast
  from hist_record_merge [OF h h] h show ?thesis by auto
qed

end
