(* ===== verification/Packet.thy ===== *)
theory Packet
  imports Bytes
begin

text \<open>
  \<^verbatim>\<open>include/net/packet.hpp\<close>: the parser of Ethernet / IPv4 / UDP frames of the kernel-bypass path.
  A read outside the frame is \<open>None\<close>; the datagram is written only on success.
\<close>

section \<open>The parser\<close>

datatype frame_error = FE_Ok | FE_Truncated | FE_NotIpv4 | FE_BadIpHeader | FE_Fragment | FE_NotUdp | FE_BadUdpLength

record udp_datagram =
  payload :: nat
  dg_len :: nat
  src_ip :: u32
  dst_ip :: u32
  src_port :: u16
  dst_port :: u16

definition net_be16 :: "mem \<Rightarrow> nat \<Rightarrow> u16 option" where
  "net_be16 m p = do { a \<leftarrow> rd m p; b \<leftarrow> rd m (p + 1); Some (push_bit 8 (ucast a) OR ucast b) }"

definition net_be32 :: "mem \<Rightarrow> nat \<Rightarrow> u32 option" where
  "net_be32 m p = do {
     a \<leftarrow> rd m p; b \<leftarrow> rd m (p + 1); c \<leftarrow> rd m (p + 2); d \<leftarrow> rd m (p + 3);
     Some (push_bit 24 (ucast a) OR push_bit 16 (ucast b) OR push_bit 8 (ucast c) OR ucast d) }"

definition kEth :: nat where "kEth = 14"
definition kVlan :: nat where "kVlan = 4"
definition kIpMin :: nat where "kIpMin = 20"
definition kUdp :: nat where "kUdp = 8"

lemmas header_sizes = kEth_def kVlan_def kIpMin_def kUdp_def

text \<open>From the UDP header on; \<open>ip\<close> is the offset of the IPv4 header.\<close>

definition parse_udp :: "mem \<Rightarrow> nat \<Rightarrow> nat \<Rightarrow> nat \<Rightarrow> (frame_error \<times> udp_datagram option) option" where
  "parse_udp frame ip ihl ip_total =
     (if ip_total < ihl + kUdp then Some (FE_Truncated, None)
      else do {
        let udp = ip + ihl;
        ulen \<leftarrow> net_be16 frame (udp + 4);
        if unat ulen < kUdp \<or> ip_total - ihl < unat ulen then Some (FE_BadUdpLength, None)
        else do {
          si \<leftarrow> net_be32 frame (ip + 12);
          di \<leftarrow> net_be32 frame (ip + 16);
          sp \<leftarrow> net_be16 frame udp;
          dp \<leftarrow> net_be16 frame (udp + 2);
          Some (FE_Ok, Some \<lparr>payload = udp + kUdp, dg_len = unat ulen - kUdp, src_ip = si, dst_ip = di,
            src_port = sp, dst_port = dp\<rparr>) } })"

definition parse_ipv4 :: "mem \<Rightarrow> nat \<Rightarrow> nat \<Rightarrow> (frame_error \<times> udp_datagram option) option" where
  "parse_ipv4 frame len off =
     (if len < off + kIpMin then Some (FE_Truncated, None)
      else do {
        b0 \<leftarrow> rd frame off;
        let version = drop_bit 4 b0;
        let ihl = unat (b0 AND 0x0F) * 4;
        if version \<noteq> 4 \<or> ihl < kIpMin then Some (FE_BadIpHeader, None)
        else do {
          total \<leftarrow> net_be16 frame (off + 2);
          if unat total < ihl \<or> len < off + unat total then Some (FE_Truncated, None)
          else do {
            frag \<leftarrow> net_be16 frame (off + 6);
            if frag AND 0x2000 \<noteq> 0 \<or> frag AND 0x1FFF \<noteq> 0 then Some (FE_Fragment, None)
            else do {
              proto \<leftarrow> rd frame (off + 9);
              if proto \<noteq> 17 then Some (FE_NotUdp, None)
              else parse_udp frame off ihl (unat total) } } } })"

definition parse_udp_frame :: "mem \<Rightarrow> nat \<Rightarrow> (frame_error \<times> udp_datagram option) option" where
  "parse_udp_frame frame len =
     (if len < kEth then Some (FE_Truncated, None)
      else do {
        ethertype \<leftarrow> net_be16 frame 12;
        if ethertype = 0x8100 \<or> ethertype = 0x88A8
        then if len < kEth + kVlan then Some (FE_Truncated, None)
             else do {
               inner \<leftarrow> net_be16 frame (12 + kVlan);
               if inner \<noteq> 0x0800 then Some (FE_NotIpv4, None)
               else parse_ipv4 frame len (12 + kVlan + 2) }
        else if ethertype \<noteq> 0x0800 then Some (FE_NotIpv4, None)
        else parse_ipv4 frame len (12 + 2) })"

section \<open>Reading big-endian numbers byte by byte\<close>

lemma be_word_Cons:
  assumes "256 ^ length bs \<le> (2 :: nat) ^ LENGTH('w::len)"
  shows "(be_word (a # bs) :: 'w word) = push_bit (8 * length bs) (ucast a) OR be_word bs"
proof -
  have e: "(256 :: nat) ^ length bs = 2 ^ (8 * length bs)" by (simp add: power_mult)
  have "unat (be_word bs :: 'w word) < 2 ^ (8 * length bs)"
    using unat_be_word [OF assms] le_nat_bound [of "rev bs"] by (simp add: e)
  then have "push_bit (8 * length bs) (ucast a) OR (be_word bs :: 'w word) =
      push_bit (8 * length bs) (ucast a) + be_word bs" by (rule push_bit_or_eq_add)
  also have "\<dots> = of_nat (le_nat (rev bs) + 2 ^ (8 * length bs) * unat a)"
    by (simp add: be_word_def push_bit_eq_mult ac_simps)
  finally show ?thesis by (simp add: be_word_def le_nat_append e)
qed

lemma be_word_single: "be_word [a] = ucast a"
  by (simp add: be_word_def)

lemma be_word_2: "(push_bit 8 (ucast a) OR ucast b :: u16) = be_word [a, b]"
  by (simp add: be_word_Cons be_word_single)

lemma be_word_4:
  "(push_bit 24 (ucast a) OR push_bit 16 (ucast b) OR push_bit 8 (ucast c) OR ucast d :: u32) = be_word [a, b, c, d]"
  by (simp add: be_word_Cons be_word_single)

lemma net_be16_eq: "net_be16 m p = load_be16 m p"
proof (cases "p + 2 \<le> length m")
  case True
  then have "take 2 (drop p m) = [m ! p, m ! (p + 1)]"
    by (intro nth_equalityI) (auto simp: less_Suc_eq numeral_2_eq_2)
  then show ?thesis using True
    by (simp add: net_be16_def load_be16_eq rd_Some rd_n_Some be_word_2)
next
  case False
  then show ?thesis by (auto simp: net_be16_def load_be16_eq rd_def rd_n_def)
qed

lemma net_be32_eq: "net_be32 m p = load_be32 m p"
proof (cases "p + 4 \<le> length m")
  case True
  then have "take 4 (drop p m) = [m ! p, m ! (p + 1), m ! (p + 2), m ! (p + 3)]"
    by (intro nth_equalityI) (auto simp: less_Suc_eq eval_nat_numeral)
  then show ?thesis using True
    by (simp add: net_be32_def load_be32_eq rd_Some rd_n_Some be_word_4)
next
  case False
  then show ?thesis by (auto simp: net_be32_def load_be32_eq rd_def rd_n_def)
qed

section \<open>The parser stays in the frame\<close>

lemma reads_in:
  "p < length m \<Longrightarrow> \<exists>b. rd m p = Some b"
  "p + 2 \<le> length m \<Longrightarrow> \<exists>w. net_be16 m p = Some w"
  "p + 4 \<le> length m \<Longrightarrow> \<exists>d. net_be32 m p = Some d"
  by (auto simp: net_be16_eq net_be32_eq load_be_eq rd_def rd_n_def)

lemma parse_udp_total:
  assumes "kIpMin \<le> ihl" "ip + ip_total \<le> length frame"
  shows "\<exists>r d. parse_udp frame ip ihl ip_total = Some (r, d) \<and> (r = FE_Ok) = (d \<noteq> None) \<and>
    (\<forall>g. d = Some g \<longrightarrow> ip + ihl + kUdp \<le> payload g \<and> payload g + dg_len g \<le> ip + ip_total)"
proof (cases "ip_total < ihl + kUdp")
  case True
  then show ?thesis by (simp add: parse_udp_def)
next
  case False
  have b: "ip + ihl + 8 \<le> length frame" "20 \<le> ihl" using False assms by (simp_all add: header_sizes)
  obtain w where w: "net_be16 frame (ip + ihl + 4) = Some w" using reads_in(2) [of "ip + ihl + 4" frame] b by auto
  obtain si di where i: "net_be32 frame (ip + 12) = Some si" "net_be32 frame (ip + 16) = Some di"
    using reads_in(3) [of "ip + 12" frame] reads_in(3) [of "ip + 16" frame] b by auto
  obtain sp dp where p: "net_be16 frame (ip + ihl) = Some sp" "net_be16 frame (ip + ihl + 2) = Some dp"
    using reads_in(2) [of "ip + ihl" frame] reads_in(2) [of "ip + ihl + 2" frame] b by auto
  show ?thesis
    using False by (simp add: parse_udp_def Let_def w i p p(2) [simplified]) (simp add: header_sizes, linarith?)
qed

lemma parse_ipv4_total:
  assumes "len \<le> length frame"
  shows "\<exists>r d. parse_ipv4 frame len off = Some (r, d) \<and> (r = FE_Ok) = (d \<noteq> None) \<and>
    (\<forall>g. d = Some g \<longrightarrow> off + kIpMin + kUdp \<le> payload g \<and> payload g + dg_len g \<le> len)"
proof (cases "len < off + kIpMin")
  case True
  then show ?thesis by (simp add: parse_ipv4_def)
next
  case False
  have b: "off + 20 \<le> length frame" using False assms by (simp add: header_sizes)
  obtain b0 where b0: "rd frame off = Some b0" using reads_in(1) [of off frame] b by auto
  obtain tot where tot: "net_be16 frame (off + 2) = Some tot" using reads_in(2) [of "off + 2" frame] b by auto
  obtain fr where fr: "net_be16 frame (off + 6) = Some fr" using reads_in(2) [of "off + 6" frame] b by auto
  obtain pr where pr: "rd frame (off + 9) = Some pr" using reads_in(1) [of "off + 9" frame] b by auto
  let ?ihl = "unat (b0 AND 0x0F) * 4"
  show ?thesis
  proof (cases "drop_bit 4 b0 \<noteq> 4 \<or> ?ihl < kIpMin \<or> unat tot < ?ihl \<or> len < off + unat tot \<or>
      fr AND 0x2000 \<noteq> 0 \<or> fr AND 0x1FFF \<noteq> 0 \<or> pr \<noteq> 17")
    case True
    then show ?thesis using False by (auto simp: parse_ipv4_def Let_def b0 tot [simplified] fr pr)
  next
    case ok: False
    then have "parse_ipv4 frame len off = parse_udp frame off ?ihl (unat tot)"
      using False by (simp add: parse_ipv4_def Let_def b0 tot [simplified] fr pr)
    moreover have "kIpMin \<le> ?ihl" "off + unat tot \<le> length frame" "off + unat tot \<le> len" using ok assms by auto
    ultimately show ?thesis using parse_udp_total [of ?ihl off "unat tot" frame] by fastforce
  qed
qed

section \<open>Frames from their parts\<close>

record frame_parts =
  fp_macs :: "u8 list"
  fp_tag :: "u8 list"
  fp_words :: nat
  fp_tos :: u8
  fp_id :: "u8 list"
  fp_frag :: u16
  fp_ttl :: u8
  fp_cksum :: "u8 list"
  fp_src :: u32
  fp_dst :: u32
  fp_opts :: "u8 list"
  fp_sport :: u16
  fp_dport :: u16
  fp_ucksum :: "u8 list"
  fp_data :: "u8 list"
  fp_pad :: "u8 list"

text \<open>A frame that the parser is meant to accept, padding after the datagram included.\<close>

definition wf_parts :: "frame_parts \<Rightarrow> bool" where
  "wf_parts f \<longleftrightarrow> length (fp_macs f) = 12 \<and>
     (fp_tag f = [] \<or> (length (fp_tag f) = 4 \<and> take 2 (fp_tag f) \<in> {[0x81, 0x00], [0x88, 0xA8]})) \<and>
     5 \<le> fp_words f \<and> fp_words f \<le> 15 \<and> length (fp_id f) = 2 \<and> length (fp_cksum f) = 2 \<and>
     length (fp_opts f) + 20 = 4 * fp_words f \<and> length (fp_ucksum f) = 2 \<and>
     fp_frag f AND 0x3FFF = 0 \<and> 4 * fp_words f + 8 + length (fp_data f) < 2 ^ 16"

definition udp_part :: "frame_parts \<Rightarrow> u8 list" where
  "udp_part f = be_bytes 2 (fp_sport f) @ be_bytes 2 (fp_dport f) @
     be_bytes 2 (of_nat (8 + length (fp_data f)) :: u16) @ fp_ucksum f @ fp_data f @ fp_pad f"

definition ip_header :: "frame_parts \<Rightarrow> u8 list" where
  "ip_header f = [0x40 OR of_nat (fp_words f), fp_tos f] @
     be_bytes 2 (of_nat (4 * fp_words f + 8 + length (fp_data f)) :: u16) @ fp_id f @ be_bytes 2 (fp_frag f) @
     [fp_ttl f, 17] @ fp_cksum f @ be_bytes 4 (fp_src f) @ be_bytes 4 (fp_dst f)"

definition build_frame :: "frame_parts \<Rightarrow> u8 list" where
  "build_frame f = (fp_macs f @ fp_tag f @ [0x08, 0x00]) @ ip_header f @ fp_opts f @ udp_part f"

lemma rd_mid: "k < length ys \<Longrightarrow> p = length xs + k \<Longrightarrow> rd (xs @ ys @ zs) p = Some (ys ! k)"
  by (simp add: rd_def nth_append)

lemma rd_n_mid: "length bs = n \<Longrightarrow> p = length xs \<Longrightarrow> rd_n (xs @ bs @ ys) p n = Some bs"
  by (simp add: rd_n_def)

lemma net_be16_mid: "p = length xs \<Longrightarrow> net_be16 (xs @ be_bytes 2 w @ ys) p = Some w"
  by (simp add: net_be16_eq load_be16_eq rd_n_mid byte_simps)

lemma net_be16_bytes: "length bs = 2 \<Longrightarrow> p = length xs \<Longrightarrow> net_be16 (xs @ bs @ ys) p = Some (be_word bs)"
  by (simp add: net_be16_eq load_be16_eq rd_n_mid)

lemma net_be32_mid: "p = length xs \<Longrightarrow> net_be32 (xs @ be_bytes 4 w @ ys) p = Some w"
  by (simp add: net_be32_eq load_be32_eq rd_n_mid byte_simps)

lemma length_ip_header: "wf_parts f \<Longrightarrow> length (ip_header f) = 20"
  by (simp add: ip_header_def wf_parts_def)

lemma length_udp_part: "wf_parts f \<Longrightarrow> length (udp_part f) = 8 + length (fp_data f) + length (fp_pad f)"
  by (simp add: udp_part_def wf_parts_def)

text \<open>The UDP part, after any headers.\<close>

lemma parse_udp_built:
  assumes wf: "wf_parts f" and ip: "ip = length xs" "ihl = 4 * fp_words f"
  shows "parse_udp (xs @ ip_header f @ fp_opts f @ udp_part f) ip ihl (ihl + 8 + length (fp_data f)) =
    Some (FE_Ok, Some \<lparr>payload = ip + ihl + 8, dg_len = length (fp_data f), src_ip = fp_src f, dst_ip = fp_dst f,
      src_port = fp_sport f, dst_port = fp_dport f\<rparr>)"
proof -
  let ?m = "xs @ ip_header f @ fp_opts f @ udp_part f"
  have l: "length (ip_header f) = 20" "length (fp_opts f) + 20 = ihl" "length (fp_ucksum f) = 2"
    "length (fp_cksum f) = 2" "length (fp_id f) = 2" "8 + length (fp_data f) < 2 ^ 16"
    using wf length_ip_header ip(2) by (auto simp: wf_parts_def)
  let ?h = "xs @ ip_header f @ fp_opts f"
  have h: "length ?h = ip + ihl" using l ip(1) by simp
  have m: "?m = ?h @ udp_part f" by simp
  have u: "net_be16 ?m (ip + ihl) = Some (fp_sport f)" "net_be16 ?m (ip + ihl + 2) = Some (fp_dport f)"
    "net_be16 ?m (ip + ihl + 4) = Some (of_nat (8 + length (fp_data f)))"
    using net_be16_mid [of "ip + ihl" ?h "fp_sport f"] net_be16_mid [of "ip + ihl + 2" "?h @ be_bytes 2 (fp_sport f)" "fp_dport f"]
      net_be16_mid [of "ip + ihl + 4" "?h @ be_bytes 2 (fp_sport f) @ be_bytes 2 (fp_dport f)"
        "of_nat (8 + length (fp_data f))"] h
    by (simp_all add: udp_part_def)
  let ?i = "xs @ [0x40 OR of_nat (fp_words f), fp_tos f] @
     be_bytes 2 (of_nat (4 * fp_words f + 8 + length (fp_data f)) :: u16) @ fp_id f @ be_bytes 2 (fp_frag f) @
     [fp_ttl f, 17] @ fp_cksum f"
  have i: "net_be32 ?m (ip + 12) = Some (fp_src f)" "net_be32 ?m (ip + 16) = Some (fp_dst f)"
    using net_be32_mid [of "ip + 12" ?i "fp_src f"] net_be32_mid [of "ip + 16" "?i @ be_bytes 4 (fp_src f)" "fp_dst f"] l ip(1)
    by (simp_all add: ip_header_def)
  have ul: "unat (of_nat (8 + length (fp_data f)) :: u16) = 8 + length (fp_data f)"
    using l(6) by (simp only: unat_of_nat) simp
  show ?thesis
    unfolding parse_udp_def Let_def u i bind.bind_lunit ul by (simp add: header_sizes)
qed

lemma ip_first_byte:
  assumes "5 \<le> w" "w \<le> 15"
  shows "drop_bit 4 (0x40 OR of_nat w :: u8) = 4" "unat ((0x40 OR of_nat w :: u8) AND 0x0F) = w"
proof -
  have all: "\<forall>w \<in> set [5..<16]. drop_bit 4 (0x40 OR of_nat w :: u8) = 4 \<and> unat ((0x40 OR of_nat w :: u8) AND 0x0F) = w"
    by code_simp
  have "w \<in> set [5..<16]" unfolding set_upt atLeastLessThan_iff using assms by (intro conjI) linarith+
  from bspec [OF all this]
  show "drop_bit 4 (0x40 OR of_nat w :: u8) = 4" "unat ((0x40 OR of_nat w :: u8) AND 0x0F) = w" by blast+
qed

lemma frag_bits:
  assumes "w AND 0x3FFF = (0 :: u16)"
  shows "w AND 0x2000 = 0" "w AND 0x1FFF = 0"
proof -
  have m: "(0x2000 :: u16) = 0x3FFF AND 0x2000" "(0x1FFF :: u16) = 0x3FFF AND 0x1FFF" by simp_all
  show "w AND 0x2000 = 0" by (subst m(1)) (simp only: and.assoc [symmetric] assms, simp)
  show "w AND 0x1FFF = 0" by (subst m(2)) (simp only: and.assoc [symmetric] assms, simp)
qed


text \<open>The IPv4 part, after a link header \<open>l\<close>.\<close>

lemma parse_ipv4_built:
  assumes wf: "wf_parts f" and off: "off = length l"
  shows "parse_ipv4 (l @ ip_header f @ fp_opts f @ udp_part f)
      (length (l @ ip_header f @ fp_opts f @ udp_part f)) off =
    Some (FE_Ok, Some \<lparr>payload = off + 4 * fp_words f + 8, dg_len = length (fp_data f), src_ip = fp_src f,
      dst_ip = fp_dst f, src_port = fp_sport f, dst_port = fp_dport f\<rparr>)"
proof -
  let ?m = "l @ ip_header f @ fp_opts f @ udp_part f"
  let ?ihl = "4 * fp_words f"
  have w: "5 \<le> fp_words f" "fp_words f \<le> 15" "?ihl + 8 + length (fp_data f) < 2 ^ 16" "length (fp_id f) = 2"
    "fp_frag f AND 0x3FFF = 0" "length (fp_opts f) + 20 = ?ihl" using wf by (auto simp: wf_parts_def)
  have len: "length ?m = off + ?ihl + 8 + length (fp_data f) + length (fp_pad f)"
    using wf w off by (simp add: length_ip_header length_udp_part)
  have b0: "rd ?m off = Some (0x40 OR of_nat (fp_words f))"
    using rd_mid [of 0 "ip_header f" off l "fp_opts f @ udp_part f"] wf off
    by (simp add: length_ip_header) (simp add: ip_header_def)
  have tot: "net_be16 ?m (off + 2) = Some (of_nat (?ihl + 8 + length (fp_data f)))"
    using net_be16_mid [of "off + 2" "l @ [0x40 OR of_nat (fp_words f), fp_tos f]"
      "of_nat (?ihl + 8 + length (fp_data f))"] off
    by (simp add: ip_header_def)
  have fr: "net_be16 ?m (off + 6) = Some (fp_frag f)"
    using net_be16_mid [of "off + 6" "l @ [0x40 OR of_nat (fp_words f), fp_tos f] @
      be_bytes 2 (of_nat (?ihl + 8 + length (fp_data f)) :: u16) @ fp_id f" "fp_frag f"] off w(4)
    by (simp add: ip_header_def)
  have pr: "rd ?m (off + 9) = Some 17"
    using rd_mid [of 1 "[fp_ttl f, 17]" "off + 9" "l @ [0x40 OR of_nat (fp_words f), fp_tos f] @
      be_bytes 2 (of_nat (?ihl + 8 + length (fp_data f)) :: u16) @ fp_id f @ be_bytes 2 (fp_frag f)"] off w(4)
    by (simp add: ip_header_def)
  have ut: "unat (of_nat (?ihl + 8 + length (fp_data f)) :: u16) = ?ihl + 8 + length (fp_data f)"
    using w(3) by (simp only: unat_of_nat) simp
  have fw: "unat ((0x40 OR of_nat (fp_words f) :: u8) AND 0x0F) * 4 = ?ihl"
    by (simp only: ip_first_byte(2) [OF w(1,2)] mult.commute)
  have u: "parse_udp ?m off ?ihl (?ihl + 8 + length (fp_data f)) =
    Some (FE_Ok, Some \<lparr>payload = off + ?ihl + 8, dg_len = length (fp_data f), src_ip = fp_src f,
      dst_ip = fp_dst f, src_port = fp_sport f, dst_port = fp_dport f\<rparr>)"
    by (rule parse_udp_built [OF wf off refl])
  have g: "\<not> length ?m < off + kIpMin" "\<not> ?ihl < kIpMin" "\<not> ?ihl + 8 + length (fp_data f) < ?ihl"
    "\<not> length ?m < off + (?ihl + 8 + length (fp_data f))"
    using w(1) unfolding len by (simp_all add: header_sizes)
  show ?thesis
    unfolding parse_ipv4_def Let_def b0 bind.bind_lunit fw tot ut fr pr ip_first_byte(1) [OF w(1,2)] frag_bits [OF w(5)]
    using g by (simp only: u if_False simp_thms)
qed

section \<open>What the parser promises\<close>

lemma parse_frame_total:
  assumes "len \<le> length frame"
  shows "\<exists>r d. parse_udp_frame frame len = Some (r, d) \<and> (r = FE_Ok) = (d \<noteq> None) \<and>
    (\<forall>g. d = Some g \<longrightarrow> kEth + kIpMin + kUdp \<le> payload g \<and> payload g + dg_len g \<le> len)"
proof (cases "len < kEth")
  case True
  then show ?thesis by (simp add: parse_udp_frame_def)
next
  case False
  obtain et where et: "net_be16 frame 12 = Some et"
    using reads_in(2) [of 12 frame] False assms by (auto simp: header_sizes)
  show ?thesis
  proof (cases "et = 0x8100 \<or> et = 0x88A8")
    case tag: True
    show ?thesis
    proof (cases "len < kEth + kVlan")
      case True
      then show ?thesis using False tag by (auto simp: parse_udp_frame_def et)
    next
      case long: False
      obtain inner where inner: "net_be16 frame (12 + kVlan) = Some inner"
        using reads_in(2) [of "12 + kVlan" frame] long assms by (auto simp: header_sizes)
      show ?thesis
        using False tag long parse_ipv4_total [OF assms, of "12 + kVlan + 2"]
        unfolding parse_udp_frame_def et bind.bind_lunit inner by (auto simp: header_sizes)
    qed
  next
    case plain: False
    then show ?thesis
      using False parse_ipv4_total [OF assms, of "12 + 2"]
      unfolding parse_udp_frame_def et bind.bind_lunit by (auto simp: header_sizes)
  qed
qed

text \<open>C23. For any bytes and any length within them, the frame parser reads only inside the frame and returns a verdict.
  It returns a datagram exactly when the verdict is \<open>FE_Ok\<close>, and the payload of that datagram lies behind the Ethernet, IPv4
  and UDP headers and ends inside the frame.\<close>

theorem parse_udp_frame_in_bounds:
  assumes "len \<le> length frame"
  shows "\<exists>r d. parse_udp_frame frame len = Some (r, d) \<and> (r = FE_Ok) = (d \<noteq> None) \<and>
    (\<forall>g. d = Some g \<longrightarrow> kEth + kIpMin + kUdp \<le> payload g \<and> payload g + dg_len g \<le> len)"
  using assms by (rule parse_frame_total)

lemma ethertype_plain:
  "length macs = 12 \<Longrightarrow> net_be16 (macs @ [0x08, 0x00] @ r) 12 = Some 0x0800"
  using net_be16_bytes [of "[0x08, 0x00]" 12 macs r] by (simp add: be_word_2 [symmetric])

lemma ethertype_tagged:
  assumes "length macs = 12" "t = [a, b, c, d]" "[a, b] \<in> {[0x81, 0x00], [0x88, 0xA8]}"
  shows "net_be16 (macs @ t @ r) 12 \<in> {Some 0x8100, Some 0x88A8}"
  using net_be16_bytes [of "[a, b]" 12 macs "[c, d] @ r"] assms by (auto simp: be_word_2 [symmetric])

text \<open>C22. A frame put together from an Ethernet header (with or without one 802.1Q or 802.1ad tag), an unfragmented
  IPv4 header with any options, a UDP header and a payload, with any padding behind it, parses to \<open>FE_Ok\<close>
  and gives back the addresses, the ports and exactly the bytes of the payload.\<close>

theorem parse_built_frame:
  assumes wf: "wf_parts f"
  shows "\<exists>g. parse_udp_frame (build_frame f) (length (build_frame f)) = Some (FE_Ok, Some g) \<and>
    take (dg_len g) (drop (payload g) (build_frame f)) = fp_data f \<and> src_ip g = fp_src f \<and> dst_ip g = fp_dst f \<and>
    src_port g = fp_sport f \<and> dst_port g = fp_dport f"
proof -
  let ?l = "fp_macs f @ fp_tag f @ [0x08, 0x00]" and ?b = "build_frame f"
  have b: "?b = ?l @ ip_header f @ fp_opts f @ udp_part f" by (simp add: build_frame_def)
  have macs: "length (fp_macs f) = 12" using wf by (simp add: wf_parts_def)
  let ?g = "\<lparr>payload = length ?l + 4 * fp_words f + 8, dg_len = length (fp_data f), src_ip = fp_src f,
      dst_ip = fp_dst f, src_port = fp_sport f, dst_port = fp_dport f\<rparr>"
  have v4: "parse_ipv4 ?b (length ?b) (length ?l) = Some (FE_Ok, Some ?g)"
    unfolding b by (rule parse_ipv4_built [OF wf refl])
  have big: "kEth + kVlan \<le> length ?b" "kEth \<le> length ?b"
    using wf by (simp_all add: b length_ip_header length_udp_part macs header_sizes)
  have "parse_udp_frame ?b (length ?b) = Some (FE_Ok, Some ?g)"
  proof (cases "fp_tag f = []")
    case True
    then have "net_be16 ?b 12 = Some 0x0800" using ethertype_plain [OF macs] by (simp add: b)
    then show ?thesis using v4 True macs big(2) by (simp add: parse_udp_frame_def)
  next
    case False
    then have lt: "length (fp_tag f) = 4" and pre: "take 2 (fp_tag f) \<in> {[0x81, 0x00], [0x88, 0xA8]}"
      using wf by (auto simp: wf_parts_def)
    obtain a b' c d where t: "fp_tag f = [a, b', c, d]"
      using lt by (auto simp: length_Suc_conv numeral_eq_Suc)
    then have ab: "[a, b'] \<in> {[0x81, 0x00], [0x88, 0xA8]}" using pre by simp
    have e: "net_be16 ?b 12 \<in> {Some 0x8100, Some 0x88A8}"
      using ethertype_tagged [OF macs t ab] by (simp add: b)
    have i: "net_be16 ?b (12 + kVlan) = Some 0x0800"
      using net_be16_bytes [of "[0x08, 0x00]" "12 + kVlan" "fp_macs f @ fp_tag f"] macs lt
      by (simp add: b be_word_2 [symmetric] kVlan_def)
    show ?thesis
      using e i v4 macs lt big by (auto simp: parse_udp_frame_def kVlan_def)
  qed
  moreover have "take (length (fp_data f)) (drop (length ?l + 4 * fp_words f + 8) ?b) = fp_data f"
  proof -
    let ?h = "?l @ ip_header f @ fp_opts f @ be_bytes 2 (fp_sport f) @ be_bytes 2 (fp_dport f) @
      be_bytes 2 (of_nat (8 + length (fp_data f)) :: u16) @ fp_ucksum f"
    have "?b = ?h @ fp_data f @ fp_pad f" by (simp add: b udp_part_def)
    moreover have "length ?h = length ?l + 4 * fp_words f + 8"
      using wf length_ip_header [OF wf] by (simp add: wf_parts_def)
    ultimately show ?thesis by (metis append_eq_conv_conj)
  qed
  ultimately show ?thesis by auto
qed

section \<open>Witnesses\<close>

definition sample_parts :: frame_parts where
  "sample_parts = \<lparr>fp_macs = replicate 12 2, fp_tag = [0x81, 0x00, 0, 7], fp_words = 6, fp_tos = 0, fp_id = [0, 1],
     fp_frag = 0x4000, fp_ttl = 64, fp_cksum = [0, 0], fp_src = 0x0A000001, fp_dst = 0xEF010101, fp_opts = [1, 1, 1, 1],
     fp_sport = 5000, fp_dport = 26477, fp_ucksum = [0, 0], fp_data = [1, 2, 3], fp_pad = [0, 0]\<rparr>"

lemma sample_parts_wf: "wf_parts sample_parts"
  by (simp add: wf_parts_def sample_parts_def)

theorem parse_udp_frame_in_bounds_witness:
  "\<exists>r d. parse_udp_frame (replicate 60 0x45) 50 = Some (r, d) \<and> (r = FE_Ok) = (d \<noteq> None) \<and>
    (\<forall>g. d = Some g \<longrightarrow> kEth + kIpMin + kUdp \<le> payload g \<and> payload g + dg_len g \<le> 50)"
  by (rule parse_udp_frame_in_bounds) simp

theorem parse_built_frame_witness:
  "\<exists>g. parse_udp_frame (build_frame sample_parts) (length (build_frame sample_parts)) = Some (FE_Ok, Some g) \<and>
    take (dg_len g) (drop (payload g) (build_frame sample_parts)) = [1, 2, 3] \<and> dst_port g = 26477"
  using parse_built_frame [OF sample_parts_wf] by (auto simp: sample_parts_def)

end
