(* ===== verification/Add_Order_Decode.thy ===== *)
theory Add_Order_Decode
  imports Codec
begin

text \<open>
  \<^verbatim>\<open>include/itch/simd/add_order_decode.hpp\<close>: the fields of an Add Order by scalar big-endian
  loads and by byte shuffles (SSSE3 and AVX2). The shuffle tables are computed from \<open>kAddOrderSrc\<close> as the \<open>consteval\<close>
  functions of the source do; a load outside the buffer is \<open>None\<close>.
\<close>

section \<open>The fields and the shuffle tables\<close>

record AddOrderFields =
  af_ref :: u64
  af_timestamp :: u64
  af_shares :: u32
  af_price :: u32
  af_locate :: u16
  af_tracking :: u16
  af_side :: u8
  af_zero :: "u8 list"

definition kAddOrderOverread :: nat where
  "kAddOrderOverread = 48"

text \<open>The wire byte that feeds each output byte, \<open>-1\<close> for a zero.\<close>

definition kAddOrderSrc :: "int list" where
  "kAddOrderSrc =
     [18, 17, 16, 15, 14, 13, 12, 11,
      10, 9, 8, 7, 6, 5, -1, -1,
      23, 22, 21, 20,
      35, 34, 33, 32,
      2, 1,
      4, 3,
      19,
      -1, -1, -1]"

definition shuffle_mask :: "int \<Rightarrow> nat \<Rightarrow> u8 list" where
  "shuffle_mask chunk out_base =
     map (\<lambda>k. let src = kAddOrderSrc ! (out_base + k) in
       if src \<ge> 0 \<and> src div 16 = chunk then of_int (src mod 16) else of_int (-128)) [0..<16]"

definition kMask :: "int \<Rightarrow> nat \<Rightarrow> u8 list" where
  "kMask chunk out_base = shuffle_mask chunk out_base"

definition kMask256 :: "int \<Rightarrow> u8 list" where
  "kMask256 chunk = map (\<lambda>k. kMask chunk 0 ! k) [0..<16] @ map (\<lambda>k. kMask chunk 16 ! k) [0..<16]"

section \<open>The instructions\<close>

text \<open>\<open>PSHUFB\<close>: a control byte with its top bit set writes zero, any other selects by its low four bits.
  \<open>VPSHUFB\<close> does so in each 128-bit lane.\<close>

definition mm_shuffle_epi8 :: "u8 list \<Rightarrow> u8 list \<Rightarrow> u8 list" where
  "mm_shuffle_epi8 v m = map (\<lambda>c. if bit c 7 then 0 else v ! unat (c AND 0x0F)) m"

definition mm256_shuffle_epi8 :: "u8 list \<Rightarrow> u8 list \<Rightarrow> u8 list" where
  "mm256_shuffle_epi8 v m =
     mm_shuffle_epi8 (take 16 v) (take 16 m) @ mm_shuffle_epi8 (drop 16 v) (drop 16 m)"

definition mm_or :: "u8 list \<Rightarrow> u8 list \<Rightarrow> u8 list" where
  "mm_or = map2 (OR)"

definition mm256_broadcast :: "u8 list \<Rightarrow> u8 list" where
  "mm256_broadcast v = v @ v"

section \<open>The three decoders\<close>

text \<open>What the two or one stores leave in the 32 bytes of the structure.\<close>

definition fields_of_bytes :: "u8 list \<Rightarrow> AddOrderFields" where
  "fields_of_bytes bs =
     \<lparr>af_ref = host_word (take 8 bs), af_timestamp = host_word (take 8 (drop 8 bs)),
      af_shares = host_word (take 4 (drop 16 bs)), af_price = host_word (take 4 (drop 20 bs)),
      af_locate = host_word (take 2 (drop 24 bs)), af_tracking = host_word (take 2 (drop 26 bs)),
      af_side = bs ! 28, af_zero = drop 29 bs\<rparr>"

definition scalar_decode_add_order :: "mem \<Rightarrow> nat \<Rightarrow> AddOrderFields option" where
  "scalar_decode_add_order m p = do {
     r \<leftarrow> load_be64 m (p + 11);
     t \<leftarrow> load_be48_overread m (p + 5);
     sh \<leftarrow> load_be32 m (p + 20);
     pr \<leftarrow> load_be32 m (p + 32);
     loc \<leftarrow> load_be16 m (p + 1);
     trk \<leftarrow> load_be16 m (p + 3);
     sd \<leftarrow> rd m (p + 19);
     Some \<lparr>af_ref = r, af_timestamp = t, af_shares = sh, af_price = pr, af_locate = loc, af_tracking = trk,
       af_side = sd, af_zero = [0, 0, 0]\<rparr> }"

definition ssse3_decode_add_order :: "mem \<Rightarrow> nat \<Rightarrow> AddOrderFields option" where
  "ssse3_decode_add_order m p = do {
     c0 \<leftarrow> rd_n m p 16;
     c1 \<leftarrow> rd_n m (p + 16) 16;
     c2 \<leftarrow> rd_n m (p + 32) 16;
     let lo = mm_or (mm_shuffle_epi8 c0 (kMask 0 0)) (mm_shuffle_epi8 c1 (kMask 1 0));
     let hi = mm_or (mm_or (mm_shuffle_epi8 c0 (kMask 0 16)) (mm_shuffle_epi8 c1 (kMask 1 16)))
       (mm_shuffle_epi8 c2 (kMask 2 16));
     Some (fields_of_bytes (lo @ hi)) }"

definition avx2_decode_add_order :: "mem \<Rightarrow> nat \<Rightarrow> AddOrderFields option" where
  "avx2_decode_add_order m p = do {
     b0 \<leftarrow> rd_n m p 16;
     b1 \<leftarrow> rd_n m (p + 16) 16;
     b2 \<leftarrow> rd_n m (p + 32) 16;
     let c0 = mm256_broadcast b0;
     let c1 = mm256_broadcast b1;
     let c2 = mm256_broadcast b2;
     let out = mm_or (mm_or (mm256_shuffle_epi8 c0 (kMask256 0)) (mm256_shuffle_epi8 c1 (kMask256 1)))
       (mm256_shuffle_epi8 c2 (kMask256 2));
     Some (fields_of_bytes out) }"

section \<open>The shuffles as a permutation of the wire bytes\<close>

lemma take_drop_map: "p + n \<le> length m \<Longrightarrow> take n (drop p m) = map (\<lambda>i. m ! (p + i)) [0..<n]"
  by (rule nth_equalityI) auto

text \<open>The wire byte of each output byte: the tables of the chunks OR to the permutation the header comment describes.\<close>

definition permuted :: "mem \<Rightarrow> nat \<Rightarrow> u8 list" where
  "permuted m p = map (\<lambda>src. if src < 0 then 0 else m ! (p + nat src)) kAddOrderSrc"

lemma mask_values:
  "kMask 0 0 = [128, 128, 128, 15, 14, 13, 12, 11, 10, 9, 8, 7, 6, 5, 128, 128]"
  "kMask 1 0 = [2, 1, 0, 128, 128, 128, 128, 128, 128, 128, 128, 128, 128, 128, 128, 128]"
  "kMask 2 0 = replicate 16 128"
  "kMask 0 16 = [128, 128, 128, 128, 128, 128, 128, 128, 2, 1, 4, 3, 128, 128, 128, 128]"
  "kMask 1 16 = [7, 6, 5, 4, 128, 128, 128, 128, 128, 128, 128, 128, 3, 128, 128, 128]"
  "kMask 2 16 = [128, 128, 128, 128, 3, 2, 1, 0, 128, 128, 128, 128, 128, 128, 128, 128]"
  by code_simp+

lemma bit7_128: "bit (128 :: u8) 7"
  by code_simp

lemmas shuffle_simps = mm_shuffle_epi8_def mm_or_def take_drop_map bit7_128

lemma lo_half:
  assumes "p + 48 \<le> length m"
  shows "mm_or (mm_shuffle_epi8 (take 16 (drop p m)) (kMask 0 0)) (mm_shuffle_epi8 (take 16 (drop (p + 16) m)) (kMask 1 0))
    = take 16 (permuted m p)"
  using assms unfolding mask_values permuted_def kAddOrderSrc_def
  by (simp add: shuffle_simps) (simp add: add.commute)

lemma hi_half:
  assumes "p + 48 \<le> length m"
  shows "mm_or (mm_or (mm_shuffle_epi8 (take 16 (drop p m)) (kMask 0 16)) (mm_shuffle_epi8 (take 16 (drop (p + 16) m)) (kMask 1 16)))
      (mm_shuffle_epi8 (take 16 (drop (p + 32) m)) (kMask 2 16))
    = drop 16 (permuted m p)"
  using assms unfolding mask_values permuted_def kAddOrderSrc_def
  by (simp add: shuffle_simps) (simp add: add.commute)


text \<open>The AVX2 tables are the SSSE3 ones side by side, and both lanes see the same chunk.\<close>

lemma length_kMask [simp]: "length (kMask c o') = 16"
  by (simp add: kMask_def shuffle_mask_def)

lemma kMask256_halves: "take 16 (kMask256 c) = kMask c 0" "drop 16 (kMask256 c) = kMask c 16"
  by (simp_all add: kMask256_def) (metis length_kMask map_nth)+

lemma length_shuffle [simp]: "length (mm_shuffle_epi8 v c) = length c"
  by (simp add: mm_shuffle_epi8_def)

lemma mm256_shuffle_broadcast:
  assumes "length v = 16"
  shows "mm256_shuffle_epi8 (mm256_broadcast v) (kMask256 c) = mm_shuffle_epi8 v (kMask c 0) @ mm_shuffle_epi8 v (kMask c 16)"
  using assms by (simp add: mm256_shuffle_epi8_def mm256_broadcast_def kMask256_halves)

lemma mm_or_append: "length a = length c \<Longrightarrow> mm_or (a @ b) (c @ d) = mm_or a c @ mm_or b d"
  by (simp add: mm_or_def)

lemma length_mm_or [simp]: "length (mm_or a b) = min (length a) (length b)"
  by (simp add: mm_or_def)

lemma mm_or_zero:
  assumes "length a = 16"
  shows "mm_or a (mm_shuffle_epi8 v (kMask 2 0)) = a"
  using assms unfolding mask_values
  by (intro nth_equalityI) (simp_all add: mm_or_def mm_shuffle_epi8_def bit7_128)

lemma ssse3_decode_eq:
  assumes "p + 48 \<le> length m"
  shows "ssse3_decode_add_order m p = Some (fields_of_bytes (permuted m p))"
proof -
  have r: "rd_n m p 16 = Some (take 16 (drop p m))" "rd_n m (p + 16) 16 = Some (take 16 (drop (p + 16) m))"
    "rd_n m (p + 32) 16 = Some (take 16 (drop (p + 32) m))" using assms by (simp_all add: rd_n_Some)
  show ?thesis
    unfolding ssse3_decode_add_order_def r bind.bind_lunit Let_def lo_half [OF assms] hi_half [OF assms]
    by (simp only: append_take_drop_id)
qed

lemma avx2_decode_eq:
  assumes "p + 48 \<le> length m"
  shows "avx2_decode_add_order m p = Some (fields_of_bytes (permuted m p))"
proof -
  have r: "rd_n m p 16 = Some (take 16 (drop p m))" "rd_n m (p + 16) 16 = Some (take 16 (drop (p + 16) m))"
    "rd_n m (p + 32) 16 = Some (take 16 (drop (p + 32) m))" using assms by (simp_all add: rd_n_Some)
  have t: "length (take 16 (permuted m p)) = 16" by (simp add: permuted_def kAddOrderSrc_def)
  have l: "length (take 16 (drop p m)) = 16" "length (take 16 (drop (p + 16) m)) = 16"
    "length (take 16 (drop (p + 32) m)) = 16" using assms by simp_all
  show ?thesis
    unfolding avx2_decode_add_order_def r bind.bind_lunit Let_def mm256_shuffle_broadcast [OF l(1)]
      mm256_shuffle_broadcast [OF l(2)] mm256_shuffle_broadcast [OF l(3)]
    by (simp only: mm_or_append length_shuffle length_kMask length_mm_or min.idem t mm_or_zero [OF t]
      lo_half [OF assms] hi_half [OF assms] append_take_drop_id)
qed

section \<open>The shuffles against the loads\<close>

lemma be_word_host_word: "be_word bs = host_word (rev bs)"
  by (simp add: be_word_def host_word_def)

lemma host_word_zeros: "host_word [a, b, c, d, e, f, 0, 0] = host_word [a, b, c, d, e, f]"
  by (simp add: host_word_def)

lemma scalar_decode_eq:
  assumes "p + 36 \<le> length m"
  shows "scalar_decode_add_order m p = Some (fields_of_bytes (permuted m p))"
proof -
  have r: "load_be64 m (p + 11) = Some (host_word (take 8 (permuted m p)))"
    "load_be48_overread m (p + 5) = Some (host_word (take 8 (drop 8 (permuted m p))))"
    "load_be32 m (p + 20) = Some (host_word (take 4 (drop 16 (permuted m p))))"
    "load_be32 m (p + 32) = Some (host_word (take 4 (drop 20 (permuted m p))))"
    "load_be16 m (p + 1) = Some (host_word (take 2 (drop 24 (permuted m p))))"
    "load_be16 m (p + 3) = Some (host_word (take 2 (drop 26 (permuted m p))))"
    "rd m (p + 19) = Some (permuted m p ! 28)"
    using assms
    by (simp_all add: load_be_eq load_be48_overread_eq rd_n_Some rd_Some take_drop_map be_word_host_word host_word_zeros
      permuted_def kAddOrderSrc_def add.commute upt_rec [of "Suc _"] eval_nat_numeral)
  have z: "drop 29 (permuted m p) = [0, 0, 0]" by (simp add: permuted_def kAddOrderSrc_def)
  show ?thesis
    unfolding scalar_decode_add_order_def r bind.bind_lunit fields_of_bytes_def z by (rule refl)
qed


text \<open>The generic decoder of \<^verbatim>\<open>messages.hpp\<close> and the scalar one read the same fields.\<close>

definition fields_of_message :: "MsgAddOrder \<Rightarrow> AddOrderFields" where
  "fields_of_message a =
     \<lparr>af_ref = ao_ref a, af_timestamp = timestamp a, af_shares = ao_shares a, af_price = ao_price a, af_locate = locate a,
      af_tracking = tracking a, af_side = ao_side a, af_zero = [0, 0, 0]\<rparr>"

lemma scalar_decode_message:
  assumes "p + 36 \<le> length m"
  shows "\<exists>a. decode TAddOrder m p = Some (AddOrder a) \<and> scalar_decode_add_order m p = Some (fields_of_message a)"
proof -
  obtain r sh pr loc trk t sd st where
    "load_be64 m (p + 11) = Some r" "load_be32 m (p + 20) = Some sh" "load_be32 m (p + 32) = Some pr"
    "load_be16 m (p + 1) = Some loc" "load_be16 m (p + 3) = Some trk" "load_be48_overread m (p + 5) = Some t"
    "rd m (p + 19) = Some sd" "rd_n m (p + 24) 8 = Some st"
    using assms by (simp add: load_be_eq load_be48_overread_eq rd_n_Some rd_Some)
  note loads = this this(4) [simplified]
  show ?thesis
    by (simp add: decode_def scalar_decode_add_order_def loads) (simp add: fields_of_message_def)
qed

text \<open>C25. With 48 readable bytes, the SSSE3 and the AVX2 decoder give exactly the fields of the scalar
  decoder, which are those of the Add Order that the generic decoder reads there.\<close>

theorem add_order_decoders_agree:
  assumes "p + kAddOrderOverread \<le> length m"
  shows "ssse3_decode_add_order m p = scalar_decode_add_order m p \<and>
    avx2_decode_add_order m p = scalar_decode_add_order m p \<and>
    (\<exists>a. decode TAddOrder m p = Some (AddOrder a) \<and> scalar_decode_add_order m p = Some (fields_of_message a))"
proof -
  have "p + 48 \<le> length m" "p + 36 \<le> length m" using assms by (simp_all add: kAddOrderOverread_def)
  then show ?thesis using scalar_decode_message [of p m] by (simp add: ssse3_decode_eq avx2_decode_eq scalar_decode_eq)
qed

theorem add_order_decoders_agree_witness:
  "ssse3_decode_add_order (replicate 50 7) 2 = scalar_decode_add_order (replicate 50 7) 2 \<and>
    avx2_decode_add_order (replicate 50 7) 2 = scalar_decode_add_order (replicate 50 7) 2"
  using add_order_decoders_agree [of 2 "replicate 50 7"] by (simp add: kAddOrderOverread_def)

end
