(* ===== verification/Symbol_Directory.thy ===== *)
theory Symbol_Directory
  imports Codec "HOL-Library.AList"
begin

text \<open>
  \<^verbatim>\<open>include/itch/symbol_directory.hpp\<close>: the mapping between stock locates and symbols, filled from
  Stock Directory messages. The flat array is a function of the 16-bit locate (every index is in range); the
  \<open>unordered_map\<close> from packed symbols is an association list with distinct keys.
\<close>

section \<open>State and operations\<close>

record symbol_directory =
  symbols :: "u16 \<Rightarrow> alpha"
  by_symbol :: "(u64 \<times> u16) list"

definition new_directory :: symbol_directory where
  "new_directory = \<lparr>symbols = (\<lambda>_. replicate 8 0x20), by_symbol = []\<rparr>"

definition pack_symbol :: "alpha \<Rightarrow> u64" where
  "pack_symbol s = host_word (take 8 s)"

definition dir_add :: "u16 \<Rightarrow> alpha \<Rightarrow> symbol_directory \<Rightarrow> symbol_directory" where
  "dir_add loc stock d =
     d\<lparr>symbols := (symbols d)(loc := stock), by_symbol := AList.update (pack_symbol stock) loc (by_symbol d)\<rparr>"

definition dir_on :: "MsgStockDirectory \<Rightarrow> symbol_directory \<Rightarrow> symbol_directory" where
  "dir_on m d = dir_add (locate m) (sd_stock m) d"

definition dir_symbol :: "symbol_directory \<Rightarrow> u16 \<Rightarrow> u8 list" where
  "dir_symbol d loc = trimmed (symbols d loc)"

definition dir_locate :: "symbol_directory \<Rightarrow> u8 list \<Rightarrow> u16 option" where
  "dir_locate d stock =
     (if 8 < length stock then None
      else
        let padded = stock @ drop (length stock) (replicate 8 0x20)
        in map_of (by_symbol d) (pack_symbol padded))"

definition dir_size :: "symbol_directory \<Rightarrow> nat" where
  "dir_size d = length (by_symbol d)"

section \<open>Padding and trimming\<close>

definition pad8 :: "u8 list \<Rightarrow> alpha" where
  "pad8 s = s @ replicate (8 - length s) 0x20"

lemma dir_locate_eq:
  "dir_locate d s = (if length s \<le> 8 then map_of (by_symbol d) (pack_symbol (pad8 s)) else None)"
  by (simp add: dir_locate_def pad8_def)

lemma length_pad8: "length s \<le> 8 \<Longrightarrow> length (pad8 s) = 8"
  by (simp add: pad8_def)

lemma trim_len_le: "trim_len a n \<le> n"
  by (induction n) auto

lemma trim_len_spaces: "trim_len a n \<le> i \<Longrightarrow> i < n \<Longrightarrow> a ! i = 0x20"
  by (induction n) (auto simp: less_Suc_eq split: if_splits)

lemma trim_len_last: "trim_len a n = 0 \<or> a ! (trim_len a n - 1) \<noteq> 0x20"
  by (induction n) auto

lemma length_trimmed: "length (trimmed a) \<le> length a"
  by (simp add: trimmed_def)

lemma pad8_trimmed:
  assumes "length a = 8"
  shows "pad8 (trimmed a) = a"
proof (rule nth_equalityI)
  show "length (pad8 (trimmed a)) = length a"
    using assms length_trimmed [of a] by (simp add: length_pad8)
next
  fix i
  assume "i < length (pad8 (trimmed a))"
  then have "i < 8" using assms length_trimmed [of a] by (simp add: length_pad8)
  then show "pad8 (trimmed a) ! i = a ! i"
    using assms trim_len_le [of a 8] trim_len_spaces [of a 8 i]
    by (auto simp: pad8_def trimmed_def nth_append)
qed

lemma trimmed_no_space: "trimmed a = [] \<or> last (trimmed a) \<noteq> 0x20"
  using trim_len_last [of a "length a"] trim_len_le [of a "length a"]
  by (auto simp: trimmed_def last_conv_nth)

lemma pack_symbol_back: "length a = 8 \<Longrightarrow> host_bytes 8 (pack_symbol a) = a"
  by (simp add: pack_symbol_def host_bytes_host_word)

lemma pack_symbol_inj: "length a = 8 \<Longrightarrow> length b = 8 \<Longrightarrow> pack_symbol a = pack_symbol b \<longleftrightarrow> a = b"
  by (metis pack_symbol_back)

section \<open>The directory after a sequence of entries\<close>

definition directory :: "(u16 \<times> alpha) list \<Rightarrow> symbol_directory" where
  "directory adds = fold (\<lambda>(loc, stock). dir_add loc stock) adds new_directory"

definition dir_rep :: "(u16 \<times> alpha) list \<Rightarrow> symbol_directory \<Rightarrow> bool" where
  "dir_rep adds d \<longleftrightarrow>
     (\<forall>loc. symbols d loc = (case map_of (rev adds) loc of None \<Rightarrow> replicate 8 0x20 | Some stock \<Rightarrow> stock)) \<and>
     distinct (map fst (by_symbol d)) \<and>
     fst ` set (by_symbol d) = pack_symbol ` snd ` set adds \<and>
     (\<forall>s. length s = 8 \<longrightarrow> map_of (by_symbol d) (pack_symbol s) = map_of (rev (map prod.swap adds)) s)"

lemma dir_rep_new: "dir_rep [] new_directory"
  by (simp add: dir_rep_def new_directory_def)

lemma by_symbol_add:
  assumes "distinct (map fst (by_symbol d))"
  shows "distinct (map fst (by_symbol (dir_add loc stock d)))"
    "fst ` set (by_symbol (dir_add loc stock d)) = insert (pack_symbol stock) (fst ` set (by_symbol d))"
    "map_of (by_symbol (dir_add loc stock d)) = (map_of (by_symbol d))(pack_symbol stock \<mapsto> loc)"
proof -
  show m: "map_of (by_symbol (dir_add loc stock d)) = (map_of (by_symbol d))(pack_symbol stock \<mapsto> loc)"
    by (simp add: dir_add_def update_conv')
  show "distinct (map fst (by_symbol (dir_add loc stock d)))"
    using assms by (simp add: dir_add_def distinct_update)
  show "fst ` set (by_symbol (dir_add loc stock d)) = insert (pack_symbol stock) (fst ` set (by_symbol d))"
    unfolding dom_map_of_conv_image_fst [symmetric] m by simp
qed

lemma map_of_rev_snoc: "map_of (rev (xs @ [(k, v)])) = (map_of (rev xs))(k \<mapsto> v)"
  by simp

lemma dir_rep_add:
  assumes "dir_rep adds d" "length stock = 8"
  shows "dir_rep (adds @ [(loc, stock)]) (dir_add loc stock d)"
proof -
  have d: "distinct (map fst (by_symbol d))" using assms(1) by (simp add: dir_rep_def)
  have look: "map_of (by_symbol (dir_add loc stock d)) (pack_symbol s) = map_of (rev (map prod.swap (adds @ [(loc, stock)]))) s"
    if "length s = 8" for s
    unfolding by_symbol_add(3) [OF d] map_append list.map swap_simp map_of_rev_snoc
    using assms that by (simp add: dir_rep_def pack_symbol_inj)
  have "symbols (dir_add loc stock d) = (symbols d)(loc := stock)" by (simp add: dir_add_def)
  then have syms: "symbols (dir_add loc stock d) l =
      (case map_of (rev (adds @ [(loc, stock)])) l of None \<Rightarrow> replicate 8 0x20 | Some a \<Rightarrow> a)" for l
    unfolding map_of_rev_snoc using assms(1) by (simp add: dir_rep_def)
  show ?thesis
    unfolding dir_rep_def by_symbol_add(2) [OF d]
    using look syms by_symbol_add(1) [OF d] assms(1) by (simp add: dir_rep_def)
qed

lemma directory_rep:
  assumes "\<forall>(loc, stock) \<in> set adds. length stock = 8"
  shows "dir_rep adds (directory adds)"
  using assms
proof (induction adds rule: rev_induct)
  case Nil
  then show ?case by (simp add: directory_def dir_rep_new)
next
  case (snoc x adds)
  then show ?case using dir_rep_add by (cases x) (auto simp: directory_def)
qed

text \<open>After any sequence of directory entries, a locate shows the trimmed symbol of its last entry (the empty string if
  it has none); a query of at most eight characters finds the locate of the last entry whose symbol is the query padded with spaces, a
  longer one nothing; and the size is the number of different symbols.\<close>

theorem directory_lookups:
  assumes "\<forall>(loc, stock) \<in> set adds. length stock = 8"
  shows "(\<forall>loc. dir_symbol (directory adds) loc = (case map_of (rev adds) loc of None \<Rightarrow> [] | Some stock \<Rightarrow> trimmed stock)) \<and>
    (\<forall>s. dir_locate (directory adds) s =
      (if length s \<le> 8 then map_of (rev (map prod.swap adds)) (pad8 s) else None)) \<and>
    dir_size (directory adds) = card (snd ` set adds)"
proof -
  let ?d = "directory adds"
  have r: "dir_rep adds ?d" using assms by (rule directory_rep)
  have blank: "trimmed (replicate 8 0x20) = []" by (simp add: trimmed_def eval_nat_numeral)
  have inj: "inj_on pack_symbol (snd ` set adds)"
    using assms pack_symbol_inj by (fastforce simp: inj_on_def)
  have "dir_size ?d = card (fst ` set (by_symbol ?d))"
    using r by (metis dir_rep_def dir_size_def distinct_card length_map set_map)
  also have "\<dots> = card (snd ` set adds)" using r card_image [OF inj] by (simp add: dir_rep_def)
  finally have "dir_size ?d = card (snd ` set adds)" .
  moreover have "dir_symbol ?d loc = (case map_of (rev adds) loc of None \<Rightarrow> [] | Some stock \<Rightarrow> trimmed stock)" for loc
    using r blank by (cases "map_of (rev adds) loc") (simp_all only: dir_rep_def dir_symbol_def option.case)
  moreover have "dir_locate ?d s = (if length s \<le> 8 then map_of (rev (map prod.swap adds)) (pad8 s) else None)" for s
    unfolding dir_locate_eq using r length_pad8 [of s] by (simp only: dir_rep_def split: if_split) blast
  ultimately show ?thesis by blast
qed

text \<open>What an entry stores can be found by the symbol as it is displayed: after adding a symbol for a locate, querying the
  trimmed symbol of that locate returns the locate, and the displayed symbol has no trailing space.\<close>

theorem directory_round_trip:
  assumes "length (sd_stock m) = 8"
  shows "dir_locate (dir_on m d) (dir_symbol (dir_on m d) (locate m)) = Some (locate m) \<and>
    pad8 (dir_symbol (dir_on m d) (locate m)) = sd_stock m \<and>
    (dir_symbol (dir_on m d) (locate m) = [] \<or> last (dir_symbol (dir_on m d) (locate m)) \<noteq> 0x20)"
  using assms length_trimmed [of "sd_stock m"] trimmed_no_space [of "sd_stock m"]
  by (simp add: dir_on_def dir_add_def dir_symbol_def dir_locate_eq pad8_trimmed update_conv')

section \<open>Witnesses\<close>

definition sample_stock :: alpha where
  "sample_stock = [0x41, 0x41, 0x50, 0x4C, 0x20, 0x20, 0x20, 0x20]"

definition sample_directory_message :: MsgStockDirectory where
  "sample_directory_message =
     \<lparr>locate = 13, tracking = 0, timestamp = 0, sd_stock = sample_stock, sd_market_category = 0x51, sd_financial_status = 0x4E,
      sd_round_lot_size = 100, sd_round_lots_only = 0x4E, sd_issue_classification = 0x43, sd_issue_subtype = [0x5A, 0x20],
      sd_authenticity = 0x50, sd_short_sale_threshold = 0x4E, sd_ipo_flag = 0x4E, sd_luld_ref_price_tier = 0x31,
      sd_etp_flag = 0x4E, sd_etp_leverage_factor = 0, sd_inverse_indicator = 0x4E\<rparr>"

lemma sample_stock_shown: "pad8 [0x41, 0x41, 0x50, 0x4C] = sample_stock" "trimmed sample_stock = [0x41, 0x41, 0x50, 0x4C]"
  "length sample_stock = 8"
  by code_simp+

theorem directory_lookups_witness:
  "dir_locate (directory [(7, sample_stock), (9, sample_stock)]) [0x41, 0x41, 0x50, 0x4C] = Some 9 \<and>
    dir_symbol (directory [(7, sample_stock), (9, sample_stock)]) 7 = [0x41, 0x41, 0x50, 0x4C] \<and>
    dir_size (directory [(7, sample_stock), (9, sample_stock)]) = 1"
  using directory_lookups [of "[(7, sample_stock), (9, sample_stock)]"] by (simp add: sample_stock_shown)

theorem directory_round_trip_witness:
  "dir_locate (dir_on sample_directory_message new_directory) (dir_symbol (dir_on sample_directory_message new_directory) 13) = Some 13"
  using directory_round_trip [of sample_directory_message new_directory]
  by (simp add: sample_directory_message_def sample_stock_def)

end
