(* ===== verification/Depth_Profiler.thy ===== *)
theory Depth_Profiler
  imports Book_Builder
begin

text \<open>
  \<^verbatim>\<open>include/itch/depth_profiler.hpp\<close>: the level-search profiler that runs as a parser handler in
  front of a book builder, and the proof that it measures the searches the engine makes and changes nothing in the books.
  The engine it refers to is the builder's. \<open>print\<close> is output only and not modelled.
\<close>

section \<open>State and operations\<close>

definition kProfileMax :: nat where
  "kProfileMax = 1024"

record profiler =
  dp_builder :: "unit builder"
  dp_hist :: "u64 list"
  dp_total :: u64

definition new_profiler :: "engine \<Rightarrow> profiler" where
  "new_profiler e =
     \<lparr>dp_builder = \<lparr>bb_engine = e, bb_sink = ()\<rparr>, dp_hist = replicate (kProfileMax + 1) 0, dp_total = 0\<rparr>"

abbreviation dp_engine :: "profiler \<Rightarrow> engine" where
  "dp_engine pr \<equiv> bb_engine (dp_builder pr)"

definition dp_record :: "nat \<Rightarrow> profiler \<Rightarrow> profiler" where
  "dp_record ge pr =
     (let i = (if ge < kProfileMax then ge else kProfileMax)
      in pr\<lparr>dp_hist := (dp_hist pr)[i := dp_hist pr ! i + 1], dp_total := dp_total pr + 1\<rparr>)"

definition chunks_for :: "nat \<Rightarrow> nat" where
  "chunks_for ge = ge div 8 + 1"

text \<open>Both loops count levels from the top while a test on the key holds.\<close>

function count_top :: "level_side \<Rightarrow> (u32 \<Rightarrow> bool) \<Rightarrow> nat \<Rightarrow> nat option" where
  "count_top s test d =
     (if d < ls_size s then do {
        k \<leftarrow> ls_key_at s d;
        if test k then count_top s test (d + 1) else Some d }
      else Some d)"
  by pat_completeness auto
termination by (relation "measure (\<lambda>(s, _, d). ls_size s - d)") auto

declare count_top.simps [simp del]

definition keys_at_or_above :: "level_side \<Rightarrow> u32 \<Rightarrow> nat option" where
  "keys_at_or_above s key = count_top s (\<lambda>k. key \<le> k) 0"

definition level_of :: "level_side \<Rightarrow> u32 \<Rightarrow> nat option" where
  "level_of s key = count_top s (\<lambda>k. key < k) 0"

definition dp_measure :: "u16 \<Rightarrow> u8 \<Rightarrow> u32 \<Rightarrow> profiler \<Rightarrow> profiler option" where
  "dp_measure loc side price pr = do {
     ge \<leftarrow> keys_at_or_above (book_side (eng_books (dp_engine pr) loc) side) (key_for side price);
     Some (dp_record ge pr) }"

definition dp_measure_order :: "isa \<Rightarrow> u64 \<Rightarrow> profiler \<Rightarrow> profiler option" where
  "dp_measure_order b ref pr = do {
     f \<leftarrow> om_find (GroupBest b) (eng_orders (dp_engine pr)) ref;
     case f of
       None \<Rightarrow> Some pr
     | Some i \<Rightarrow> let ord = om_get (eng_orders (dp_engine pr)) i
         in dp_measure (o_locate ord) (o_side ord) (o_price ord) pr }"

definition dp_forward :: "(nat \<Rightarrow> bool) \<Rightarrow> isa \<Rightarrow> message \<Rightarrow> profiler \<Rightarrow> profiler option" where
  "dp_forward alloc b m pr = do {
     B \<leftarrow> bb_on alloc b null_sink m (dp_builder pr);
     Some (pr\<lparr>dp_builder := B\<rparr>) }"

text \<open>The decrement of the unsigned counter wraps.\<close>

definition dp_on_replace :: "(nat \<Rightarrow> bool) \<Rightarrow> isa \<Rightarrow> MsgOrderReplace \<Rightarrow> profiler \<Rightarrow> profiler option" where
  "dp_on_replace alloc b m pr = do {
     f \<leftarrow> om_find (GroupBest b) (eng_orders (dp_engine pr)) (orp_original_ref m);
     case f of
       None \<Rightarrow> dp_forward alloc b (OrderReplace m) pr
     | Some i \<Rightarrow> do {
         let ord = om_get (eng_orders (dp_engine pr)) i;
         pr1 \<leftarrow> dp_measure (o_locate ord) (o_side ord) (o_price ord) pr;
         let removed_key = key_for (o_side ord) (o_price ord);
         let new_key = key_for (o_side ord) (orp_price m);
         let s = book_side (eng_books (dp_engine pr1) (o_locate ord)) (o_side ord);
         l \<leftarrow> level_of s removed_key;
         c \<leftarrow> ls_orders_at s l;
         ge \<leftarrow> keys_at_or_above s new_key;
         let ge' = (if c = 1 \<and> new_key \<le> removed_key then (ge + (2 ^ 32 - 1)) mod 2 ^ 32 else ge);
         dp_forward alloc b (OrderReplace m) (dp_record ge' pr1) } }"

fun dp_on :: "(nat \<Rightarrow> bool) \<Rightarrow> isa \<Rightarrow> message \<Rightarrow> profiler \<Rightarrow> profiler option" where
  "dp_on alloc b (StockDirectory m) pr = dp_forward alloc b (StockDirectory m) pr"
| "dp_on alloc b (AddOrder m) pr = do {
     pr' \<leftarrow> dp_measure (locate m) (ao_side m) (ao_price m) pr;
     dp_forward alloc b (AddOrder m) pr' }"
| "dp_on alloc b (AddOrderMpid m) pr = do {
     pr' \<leftarrow> dp_measure (locate m) (aom_side m) (aom_price m) pr;
     dp_forward alloc b (AddOrderMpid m) pr' }"
| "dp_on alloc b (OrderExecuted m) pr = do {
     pr' \<leftarrow> dp_measure_order b (oe_ref m) pr;
     dp_forward alloc b (OrderExecuted m) pr' }"
| "dp_on alloc b (OrderExecutedWithPrice m) pr = do {
     pr' \<leftarrow> dp_measure_order b (oep_ref m) pr;
     dp_forward alloc b (OrderExecutedWithPrice m) pr' }"
| "dp_on alloc b (OrderCancel m) pr = do {
     pr' \<leftarrow> dp_measure_order b (oc_ref m) pr;
     dp_forward alloc b (OrderCancel m) pr' }"
| "dp_on alloc b (OrderDelete m) pr = do {
     pr' \<leftarrow> dp_measure_order b (od_ref m) pr;
     dp_forward alloc b (OrderDelete m) pr' }"
| "dp_on alloc b (OrderReplace m) pr = dp_on_replace alloc b m pr"
| "dp_on alloc b m pr = Some pr"

text \<open>The message types that have an \<open>on\<close>; no filter and no prefetch.\<close>

definition dp_handler :: "(nat \<Rightarrow> bool) \<Rightarrow> isa \<Rightarrow> profiler handler" where
  "dp_handler alloc b =
     \<lparr>handles = (\<lambda>t. is_book_message t \<or> t = TStockDirectory), on_msg = dp_on alloc b, wants = None, prefetch = None\<rparr>"

section \<open>Counting levels from the top\<close>

lemma ls_key_at_in: "ls_inv s \<Longrightarrow> d < ls_size s \<Longrightarrow> ls_key_at s d = Some (ls_keys s ! (ls_size s - 1 - d))"
  using side_facts(6) [of s] by (simp add: ls_key_at_def top_index_def elem_at_def)

lemma count_top_eq:
  assumes inv: "ls_inv s" and c: "c \<le> ls_size s" "\<And>i. i < ls_size s \<Longrightarrow> test (ls_keys s ! i) \<longleftrightarrow> c \<le> i"
    and d: "d \<le> ls_size s - c"
  shows "count_top s test d = Some (ls_size s - c)"
  using d
proof (induction "ls_size s - c - d" arbitrary: d)
  case 0
  then show ?case using c by (subst count_top.simps) (auto simp: ls_key_at_in [OF inv])
next
  case (Suc x)
  then have "d < ls_size s" "test (ls_keys s ! (ls_size s - 1 - d))" using c by auto
  moreover have "count_top s test (d + 1) = Some (ls_size s - c)" using Suc by simp
  ultimately show ?case by (subst count_top.simps) (simp add: ls_key_at_in [OF inv])
qed

text \<open>How many keys of a side are at or above a key.\<close>

definition keys_ge :: "(u32 \<rightharpoonup> 'a) \<Rightarrow> u32 \<Rightarrow> nat" where
  "keys_ge lv key = card {k \<in> dom lv. key \<le> k}"

lemma levels_key_nth: "ls_inv s \<Longrightarrow> i < ls_size s \<Longrightarrow> map fst (levels s) ! i = ls_keys s ! i"
  using side_facts(1,5) [of s] levels_nth [of s i] by simp

lemma key_below_pos:
  assumes "ls_inv s" "i < ls_size s"
  shows "key \<le> ls_keys s ! i \<longleftrightarrow> pos_of s key \<le> i"
proof -
  note f = side_facts [OF assms(1)]
  note sp = level_split [OF f(2), of key]
  have i: "levels s ! i \<in> set (take (pos_of s key) (levels s))" if "i < pos_of s key"
    using that assms(2) f(5) by (auto simp: in_set_conv_nth intro: exI [of _ i])
  have j: "levels s ! i \<in> set (drop (pos_of s key) (levels s))" if "pos_of s key \<le> i"
    using that assms(2) f(5) by (auto simp: in_set_conv_nth intro!: exI [of _ "i - pos_of s key"])
  have "fst (levels s ! i) = ls_keys s ! i" using levels_nth [OF f(1) assms(2)] by simp
  then show ?thesis using i j sp(2,3) by (metis imageI not_le)
qed

lemma set_drop_nth: "set (drop p xs) = {xs ! i | i. i < length xs \<and> p \<le> i}"
proof (intro set_eqI iffI)
  fix x
  assume "x \<in> {xs ! i | i. i < length xs \<and> p \<le> i}"
  then obtain i where i: "x = xs ! i" "i < length xs" "p \<le> i" by blast
  then have "drop p xs ! (i - p) = x" "i - p < length (drop p xs)" by simp_all
  then show "x \<in> set (drop p xs)" by (metis nth_mem)
qed (auto simp: in_set_conv_nth)

lemma keys_at_or_above_eq:
  assumes "ls_inv s"
  shows "keys_at_or_above s key = Some (keys_ge (ls_abs s) key)"
proof -
  note f = side_facts [OF assms]
  have p: "pos_of s key \<le> ls_size s" by (rule f(10))
  let ?n = "ls_size s"
  have "{k \<in> dom (ls_abs s). key \<le> k} = set (drop (pos_of s key) (map fst (levels s)))"
  proof -
    have "dom (ls_abs s) = set (map fst (levels s))" using f(9) by simp
    then have "{k \<in> dom (ls_abs s). key \<le> k} = {map fst (levels s) ! i | i. i < ?n \<and> pos_of s key \<le> i}"
      using key_below_pos [OF assms] levels_key_nth [OF assms] f(5) by (auto simp: set_conv_nth)
    also have "\<dots> = set (drop (pos_of s key) (map fst (levels s)))"
      using f(5) by (auto simp: set_drop_nth)
    finally show ?thesis .
  qed
  moreover have "distinct (drop (pos_of s key) (map fst (levels s)))" using f(3) by (rule distinct_drop)
  ultimately have "keys_ge (ls_abs s) key = ls_size s - pos_of s key"
    using distinct_card f(5) by (fastforce simp: keys_ge_def)
  then show ?thesis
    using count_top_eq [OF assms p, of "\<lambda>k. key \<le> k" 0] key_below_pos [OF assms, of _ key]
    by (simp add: keys_at_or_above_def)
qed

text \<open>The level that holds a present key, and its number of orders.\<close>

lemma orders_of_level:
  assumes inv: "ls_inv s" and k: "ls_abs s key = Some (q, c)"
  shows "\<exists>l. level_of s key = Some l \<and> ls_orders_at s l = Some c"
proof -
  note f = side_facts [OF inv] and h = search_hit [OF inv]
  let ?p = "pos_of s key" and ?n = "ls_size s"
  have key: "key \<in> dom (ls_abs s)" using k by blast
  have p: "?p < ?n" "ls_keys s ! ?p = key" using h(4) [OF key] by auto
  have c: "c = ls_orders s ! ?p" using h(3) [of key] key k by simp
  have "key < ls_keys s ! i \<longleftrightarrow> Suc ?p \<le> i" if i: "i < ?n" for i
  proof -
    have e: "ls_keys s ! i = key \<longleftrightarrow> i = ?p"
      using nth_eq_iff_index_eq [OF f(3), of i ?p] i p f(5) levels_key_nth [OF inv] by simp
    have "key < ls_keys s ! i \<longleftrightarrow> key \<le> ls_keys s ! i \<and> ls_keys s ! i \<noteq> key" by auto
    then show ?thesis using key_below_pos [OF inv i, of key] e by auto
  qed
  then have "level_of s key = Some (?n - Suc ?p)"
    using count_top_eq [OF inv, of "Suc ?p" "\<lambda>k. key < k" 0] p(1) by (simp add: level_of_def)
  moreover have "ls_orders_at s (?n - Suc ?p) = Some c"
    using p(1) f(8) by (simp add: ls_orders_at_def top_index_def elem_at_def c)
  ultimately show ?thesis by blast
qed


section \<open>The searches of an event\<close>

text \<open>
  What the level search of the engine meets, for each search that an event makes: the number of keys of the side at or above
  the key searched for, in the book as it is then.
\<close>

definition search_ge :: "(u64 \<rightharpoonup> order) \<Rightarrow> u16 \<Rightarrow> u8 \<Rightarrow> u32 \<Rightarrow> nat" where
  "search_ge M loc side price = keys_ge (level_spec M loc (side = side_buy)) (key_for side price)"

definition order_search :: "(u64 \<rightharpoonup> order) \<Rightarrow> u64 \<Rightarrow> nat list" where
  "order_search M ref = (case M ref of None \<Rightarrow> [] | Some ord \<Rightarrow> [search_ge M (o_locate ord) (o_side ord) (o_price ord)])"

fun searches :: "event \<Rightarrow> (u64 \<rightharpoonup> order) \<Rightarrow> nat list" where
  "searches (Add loc ref side shares price) M = [search_ge M loc side price]"
| "searches (Reduce ref shares) M = order_search M ref"
| "searches (Remove ref) M = order_search M ref"
| "searches (Replace old new shares price) M = (case M old of
     None \<Rightarrow> []
   | Some ord \<Rightarrow> [search_ge M (o_locate ord) (o_side ord) (o_price ord),
       search_ge (M(old := None)) (o_locate ord) (o_side ord) price])"
| "searches (Prepare loc) M = []"

fun all_searches :: "event list \<Rightarrow> (u64 \<rightharpoonup> order) \<Rightarrow> nat list" where
  "all_searches [] M = []"
| "all_searches (ev # evs) M = searches ev M @ all_searches evs (abs_event ev M)"

lemma dp_builder_record [simp]: "dp_builder (dp_record ge pr) = dp_builder pr"
  by (simp add: dp_record_def Let_def)

lemma dp_builder_fold [simp]: "dp_builder (fold dp_record gs pr) = dp_builder pr"
  by (induction gs arbitrary: pr) simp_all

lemma dp_record_builder: "dp_record ge (pr\<lparr>dp_builder := B\<rparr>) = (dp_record ge pr)\<lparr>dp_builder := B\<rparr>"
  by (simp add: dp_record_def Let_def)

lemma dp_fold_builder: "fold dp_record gs (pr\<lparr>dp_builder := B\<rparr>) = (fold dp_record gs pr)\<lparr>dp_builder := B\<rparr>"
  by (induction gs arbitrary: pr) (simp_all add: dp_record_builder)

lemma dp_measure_eq:
  assumes "eng_inv b (dp_engine pr)"
  shows "dp_measure loc side price pr = Some (dp_record (search_ge (eng_map (dp_engine pr)) loc side price) pr)"
proof -
  let ?s = "book_side (eng_books (dp_engine pr) loc) side"
  have "ls_inv ?s" "ls_abs ?s = level_spec (eng_map (dp_engine pr)) loc (side = side_buy)"
    using assms by (auto simp: eng_inv_def books_ok_def)
  then show ?thesis by (simp add: dp_measure_def keys_at_or_above_eq search_ge_def)
qed

lemma dp_measure_order_eq:
  assumes "eng_inv b (dp_engine pr)"
  shows "dp_measure_order b ref pr = Some (fold dp_record (order_search (eng_map (dp_engine pr)) ref) pr)"
proof -
  have om: "om_inv (GroupBest b) (eng_orders (dp_engine pr))" using assms by (simp add: eng_inv_def)
  show ?thesis
  proof (cases "eng_map (dp_engine pr) ref")
    case None
    then show ?thesis using best_table.find_unknown [OF om None] by (simp add: dp_measure_order_def order_search_def)
  next
    case (Some ord)
    then show ?thesis using best_table.find_known [OF om Some] dp_measure_eq [OF assms]
      by (auto simp: dp_measure_order_def order_search_def Let_def)
  qed
qed

text \<open>
  A Replace: the count before the removal, less one if the old level vanishes at or above the new key, is the count after
  the removal.
\<close>

lemma keys_ge_remove:
  assumes "finite (dom lv)" "lv key = Some (q, c)"
  shows "keys_ge (reduce_level lv key sh True) new =
    (if c = 1 \<and> new \<le> key then keys_ge lv new - 1 else keys_ge lv new)"
    "new \<le> key \<Longrightarrow> 0 < keys_ge lv new"
proof -
  have fin: "finite {k \<in> dom lv. new \<le> k}" using assms(1) by simp
  show "new \<le> key \<Longrightarrow> 0 < keys_ge lv new"
    using assms(2) fin by (auto simp: keys_ge_def card_gt_0_iff)
  have d: "dom (reduce_level lv key sh True) = (if c = 1 then dom lv - {key} else dom lv)"
    using assms(2) by (auto simp: reduce_level_def Let_def split: if_splits)
  have r: "card {k \<in> dom lv - {key}. new \<le> k} = (if new \<le> key then keys_ge lv new - 1 else keys_ge lv new)"
  proof (cases "new \<le> key")
    case True
    then have "{k \<in> dom lv - {key}. new \<le> k} = {k \<in> dom lv. new \<le> k} - {key}" by auto
    moreover have "card ({k \<in> dom lv. new \<le> k} - {key}) = keys_ge lv new - 1"
      unfolding keys_ge_def using True assms(2) by (intro card_Diff_singleton) auto
    ultimately show ?thesis using True by (simp only: if_True)
  next
    case False
    then have "{k \<in> dom lv - {key}. new \<le> k} = {k \<in> dom lv. new \<le> k}" by auto
    then show ?thesis using False by (simp only: if_False keys_ge_def)
  qed
  then show "keys_ge (reduce_level lv key sh True) new =
      (if c = 1 \<and> new \<le> key then keys_ge lv new - 1 else keys_ge lv new)"
    by (cases "c = 1") (simp_all only: keys_ge_def d if_True if_False simp_thms)
qed

lemma keys_ge_bound: "keys_ge lv key < 2 ^ 32 + 1"
proof -
  have "card {k \<in> dom lv. key \<le> k} \<le> card (UNIV :: u32 set)" by (rule card_mono) simp_all
  then show ?thesis by (simp add: keys_ge_def card_word)
qed

lemma wrap_pred: "0 < n \<Longrightarrow> n < 2 ^ 32 + 1 \<Longrightarrow> (n + (2 ^ 32 - 1)) mod 2 ^ 32 = n - (1 :: nat)"
proof -
  assume n: "0 < n" "n < 2 ^ 32 + 1"
  then have "n + (2 ^ 32 - 1) = (n - 1) + 2 ^ 32" by simp
  then show ?thesis using n by (simp only: mod_add_self2) simp
qed

lemma dp_on_replace_eq:
  assumes inv: "eng_inv b (dp_engine pr)"
  shows "dp_on_replace alloc b m pr =
    dp_forward alloc b (OrderReplace m) (fold dp_record
      (searches (Replace (orp_original_ref m) (orp_new_ref m) (orp_shares m) (orp_price m)) (eng_map (dp_engine pr))) pr)"
proof -
  let ?e = "dp_engine pr" and ?r = "orp_original_ref m"
  have om: "om_inv (GroupBest b) (eng_orders ?e)" and card: "card (dom (eng_map ?e)) < 2 ^ 32"
    and ok: "books_ok (eng_map ?e) (eng_books ?e)" using inv by (auto simp: eng_inv_def)
  note fin = finite_orders [OF om]
  show ?thesis
  proof (cases "eng_map ?e ?r")
    case None
    then show ?thesis using best_table.find_unknown [OF om None] by (simp add: dp_on_replace_def)
  next
    case (Some ord)
    obtain i where i: "om_find (GroupBest b) (eng_orders ?e) ?r = Some (Some i)" "om_get (eng_orders ?e) i = ord"
      using best_table.find_known [OF om Some] by blast
    let ?s = "book_side (eng_books ?e (o_locate ord)) (o_side ord)" and ?bid = "o_side ord = side_buy"
    let ?lv = "level_spec (eng_map ?e) (o_locate ord) ?bid" and ?new = "key_for (o_side ord) (orp_price m)"
    have s: "ls_inv ?s" "ls_abs ?s = ?lv" using ok by (auto simp: books_ok_def)
    have lvfin: "finite (dom ?lv)" using level_arrays.finite_abs [of ?s] s(2) by simp
    obtain q c where c: "?lv (okey ord) = Some (q, c)" using order_level [OF fin Some] by auto
    obtain l where l: "level_of ?s (okey ord) = Some l" "ls_orders_at ?s l = Some c"
      using orders_of_level [OF s(1)] c s(2) by metis
    have after: "search_ge ((eng_map ?e)(?r := None)) (o_locate ord) (o_side ord) (orp_price m) =
        (if c = 1 \<and> ?new \<le> okey ord then keys_ge ?lv ?new - 1 else keys_ge ?lv ?new)"
      unfolding search_ge_def using level_spec_remove [OF fin card Some, of "o_locate ord" ?bid]
      by (simp add: keys_ge_remove(1) [OF lvfin c])
    have wrap: "(keys_ge ?lv ?new + (2 ^ 32 - 1)) mod 2 ^ 32 = keys_ge ?lv ?new - 1" if "?new \<le> okey ord"
      using keys_ge_remove(2) [OF lvfin c that] keys_ge_bound by (intro wrap_pred)
    have m1: "dp_measure (o_locate ord) (o_side ord) (o_price ord) pr =
        Some (dp_record (search_ge (eng_map ?e) (o_locate ord) (o_side ord) (o_price ord)) pr)"
      by (rule dp_measure_eq [OF inv])
    have g: "(if c = 1 \<and> ?new \<le> okey ord then (keys_ge ?lv ?new + (2 ^ 32 - 1)) mod 2 ^ 32 else keys_ge ?lv ?new) =
        search_ge ((eng_map ?e)(?r := None)) (o_locate ord) (o_side ord) (orp_price m)"
    proof (cases "c = 1 \<and> ?new \<le> okey ord")
      case True
      then show ?thesis unfolding after if_P [OF True] by (intro wrap) blast
    next
      case False
      show ?thesis unfolding after if_not_P [OF False] by (rule refl)
    qed
    show ?thesis
      unfolding dp_on_replace_def i bind.bind_lunit option.case Let_def m1 dp_builder_record
        okey_def [symmetric] l keys_at_or_above_eq [OF s(1)] s(2) g
      by (simp add: Some)
  qed
qed

text \<open>Every handler records the searches of its event and then forwards the message.\<close>

lemma dp_on_event:
  assumes inv: "eng_inv b (dp_engine pr)" and ev: "event_of m = Some ev"
  shows "dp_on alloc b m pr =
    map_option (\<lambda>B. (fold dp_record (searches ev (eng_map (dp_engine pr))) pr)\<lparr>dp_builder := B\<rparr>)
      (bb_on alloc b null_sink m (dp_builder pr))"
proof -
  have "dp_on alloc b m pr = dp_forward alloc b m (fold dp_record (searches ev (eng_map (dp_engine pr))) pr)"
    using ev inv dp_measure_eq [OF inv] dp_measure_order_eq [OF inv] dp_on_replace_eq [OF inv]
    by (cases m) auto
  then show ?thesis by (simp add: dp_forward_def map_option_case split: option.split Option.bind_split)
qed


section \<open>A whole stream\<close>

lemma map_fst_event:
  "event_of m = Some ev \<Longrightarrow>
     map_option bb_engine (bb_on alloc b null_sink m B) = map_option fst (apply_event alloc b ev (bb_engine B))"
  using bb_on_event [of alloc b null_sink m B] by simp

lemma unit_builder: "(B :: unit builder) = \<lparr>bb_engine = bb_engine B, bb_sink = ()\<rparr>"
  by simp

text \<open>The profiler over a sequence of events, as a function of the engine's run.\<close>

definition profiled :: "nat list \<Rightarrow> engine \<Rightarrow> profiler \<Rightarrow> profiler" where
  "profiled gs e pr = (fold dp_record gs pr)\<lparr>dp_builder := \<lparr>bb_engine = e, bb_sink = ()\<rparr>\<rparr>"

lemma profiled_profiled: "profiled hs e' (profiled gs e pr) = profiled (gs @ hs) e' pr"
  by (simp add: profiled_def dp_fold_builder)

lemma profiled_none: "profiled [] (dp_engine pr) pr = pr"
  using unit_builder [of "dp_builder pr"] by (simp add: profiled_def)

lemma dp_engine_profiled [simp]: "dp_engine (profiled gs e pr) = e"
  by (simp add: profiled_def)

lemma dp_verdict:
  assumes inv: "eng_inv b (dp_engine (handler_state P))"
  shows "map_option handler_state (apply_verdict (dp_handler alloc b) v P) =
    map_option (\<lambda>e. profiled (all_searches (verdict_events (\<lambda>_ _. True) v) (eng_map (dp_engine (handler_state P)))) e (handler_state P))
      (apply_events alloc b (verdict_events (\<lambda>_ _. True) v) (dp_engine (handler_state P)))"
proof (cases v)
  case (Message m)
  let ?pr = "handler_state P"
  have h: "handles (dp_handler alloc b) (mtype_of m) \<longleftrightarrow> event_of m \<noteq> None"
    by (cases m) (simp_all add: dp_handler_def)
  have w: "wanted (dp_handler alloc b) m B" for B by (simp add: wanted_def dp_handler_def)
  show ?thesis
  proof (cases "event_of m")
    case None
    then show ?thesis using h w profiled_none [of ?pr] by (simp add: Message verdict_events_def)
  next
    case (Some ev)
    have "map_option handler_state (apply_verdict (dp_handler alloc b) v P) = dp_on alloc b m ?pr"
      using h w Some by (simp add: Message Let_def dp_handler_def option.map_comp comp_def option.map_ident)
    also have "\<dots> = map_option (\<lambda>e. profiled (searches ev (eng_map (dp_engine ?pr))) e ?pr)
        (map_option bb_engine (bb_on alloc b null_sink m (dp_builder ?pr)))"
      unfolding dp_on_event [OF inv Some] option.map_comp profiled_def comp_def unit_builder [symmetric] by (rule refl)
    also have "\<dots> = map_option (\<lambda>e. profiled (searches ev (eng_map (dp_engine ?pr))) e ?pr)
        (apply_events alloc b [ev] (dp_engine ?pr))"
      unfolding map_fst_event [OF Some] apply_events_single by (rule refl)
    finally show ?thesis using Some by (simp add: Message verdict_events_def)
  qed
qed (simp_all add: verdict_events_def profiled_none)

lemma all_searches_append: "all_searches (xs @ ys) M = all_searches xs M @ all_searches ys (fold abs_event xs M)"
  by (induction xs arbitrary: M) simp_all

lemma dp_stream:
  assumes "eng_inv b (dp_engine (handler_state P))"
    "admissible_all (stream_events (\<lambda>_ _. True) fs) (eng_map (dp_engine (handler_state P)))"
  shows "map_option handler_state (foldO (\<lambda>bs. apply_verdict (dp_handler alloc b) (classify bs)) fs P) =
    map_option (\<lambda>e. profiled (all_searches (stream_events (\<lambda>_ _. True) fs) (eng_map (dp_engine (handler_state P)))) e (handler_state P))
      (apply_events alloc b (stream_events (\<lambda>_ _. True) fs) (dp_engine (handler_state P)))"
  using assms
proof (induction fs arbitrary: P)
  case Nil
  then show ?case by (simp add: stream_events_def profiled_none)
next
  case (Cons bs fs)
  let ?pr = "handler_state P" and ?v = "verdict_events (\<lambda>_ _. True) (classify bs)"
  let ?e = "dp_engine ?pr"
  have evs: "stream_events (\<lambda>_ _. True) (bs # fs) = ?v @ stream_events (\<lambda>_ _. True) fs" by (simp add: stream_events_def)
  have adm: "admissible_all ?v (eng_map ?e)" "admissible_all (stream_events (\<lambda>_ _. True) fs) (fold abs_event ?v (eng_map ?e))"
    using Cons.prems(2) unfolding evs admissible_all_append by auto
  note step = dp_verdict [OF Cons.prems(1), of alloc "classify bs"]
  show ?case
  proof (cases "apply_events alloc b ?v ?e")
    case None
    then show ?thesis using step unfolding evs apply_events_append by simp
  next
    case (Some e1)
    then obtain P1 where P1: "apply_verdict (dp_handler alloc b) (classify bs) P = Some P1"
      "handler_state P1 = profiled (all_searches ?v (eng_map ?e)) e1 ?pr" using step by auto
    have e1: "eng_inv b e1" "eng_map e1 = fold abs_event ?v (eng_map ?e)"
      using apply_events_refine [OF Cons.prems(1) adm(1), of alloc] Some by auto
    have "eng_inv b (dp_engine (handler_state P1))"
      "admissible_all (stream_events (\<lambda>_ _. True) fs) (eng_map (dp_engine (handler_state P1)))"
      using e1 adm(2) by (simp_all add: P1(2))
    from Cons.IH [OF this] show ?thesis
      unfolding evs apply_events_append foldO.simps P1(1) bind.bind_lunit Some all_searches_append
      by (simp add: P1(2) profiled_profiled e1(2))
  qed
qed

text \<open>The buckets after recording a list of counts.\<close>

lemma fold_record:
  assumes "length (dp_hist pr) = kProfileMax + 1" "i \<le> kProfileMax"
  shows "length (dp_hist (fold dp_record gs pr)) = kProfileMax + 1 \<and>
    dp_hist (fold dp_record gs pr) ! i = dp_hist pr ! i + of_nat (length (filter (\<lambda>g. min g kProfileMax = i) gs)) \<and>
    dp_total (fold dp_record gs pr) = dp_total pr + of_nat (length gs)"
  using assms
proof (induction gs arbitrary: pr)
  case (Cons g gs)
  have "length (dp_hist (dp_record g pr)) = kProfileMax + 1" using Cons.prems by (simp add: dp_record_def Let_def)
  from Cons.IH [OF this Cons.prems(2)] Cons.prems show ?case
    by (auto simp: dp_record_def Let_def min_def nth_list_update)
qed simp

section \<open>Properties\<close>


text \<open>Profiling fails only where book building does.\<close>

lemma profiler_fails_iff:
  assumes "len \<le> length buf" "frames (take len buf) = (fs, rest)" "eng_inv b e"
    and "admissible_all (stream_events (\<lambda>_ _. True) fs) (eng_map e)"
  shows "parse_stream (dp_handler alloc b) buf len (new_parser (new_profiler e)) = None \<longleftrightarrow>
    apply_events alloc b (stream_events (\<lambda>_ _. True) fs) e = None"
proof -
  let ?P = "new_parser (new_profiler e)"
  let ?run = "foldO (\<lambda>bs. apply_verdict (dp_handler alloc b) (classify bs)) fs ?P"
  have st: "dp_engine (handler_state ?P) = e" by (simp add: new_parser_def new_profiler_def)
  have "parse_stream (dp_handler alloc b) buf len ?P = None \<longleftrightarrow> ?run = None"
    using parse_stream_cut [OF assms(1), of "dp_handler alloc b" ?P] assms(2) by (cases ?run) simp_all
  moreover have "?run = None \<longleftrightarrow> apply_events alloc b (stream_events (\<lambda>_ _. True) fs) e = None"
    using dp_stream [of b ?P fs alloc] assms(3,4) unfolding st by (metis map_option_is_None)
  ultimately show ?thesis by simp
qed

section \<open>Witnesses\<close>


end
