(* ===== verification/Publisher.thy ===== *)
theory Publisher
  imports Book_Builder Bbo_Cache Spsc_Ring Symbol_Directory
begin

text \<open>
  The sink of \<^verbatim>\<open>tools/feed_handler_main.cpp\<close> and the notification of \<^verbatim>\<open>include/itch/book_event.hpp\<close>:
  book updates go to a cache of the best prices per locate and to the event ring. The state is an option: \<open>None\<close> is a read of a
  level outside its arrays, which is proved not to happen. The contract of a sink that follows the books is a locale.
\<close>

section \<open>Events\<close>

datatype event_kind = KAdd | KExecute | KCancel | KDelete | KReplace

record book_event =
  be_timestamp :: u64
  be_recv_tsc :: u64
  be_ref :: u64
  be_bid_qty :: u64
  be_ask_qty :: u64
  be_price :: u32
  be_shares :: u32
  be_bid_price :: u32
  be_ask_price :: u32
  be_locate :: u16
  be_kind :: event_kind
  be_side :: u8

record event_fields =
  ef_kind :: event_kind
  ef_ref :: u64
  ef_shares :: u32

text \<open>One equation per overload of \<open>fields\<close>; for the other messages there is none.\<close>

fun fields_of :: "message \<Rightarrow> event_fields option" where
  "fields_of (AddOrder m) = Some \<lparr>ef_kind = KAdd, ef_ref = ao_ref m, ef_shares = ao_shares m\<rparr>"
| "fields_of (AddOrderMpid m) = Some \<lparr>ef_kind = KAdd, ef_ref = aom_ref m, ef_shares = aom_shares m\<rparr>"
| "fields_of (OrderExecuted m) = Some \<lparr>ef_kind = KExecute, ef_ref = oe_ref m, ef_shares = oe_executed_shares m\<rparr>"
| "fields_of (OrderExecutedWithPrice m) = Some \<lparr>ef_kind = KExecute, ef_ref = oep_ref m, ef_shares = oep_executed_shares m\<rparr>"
| "fields_of (OrderCancel m) = Some \<lparr>ef_kind = KCancel, ef_ref = oc_ref m, ef_shares = oc_cancelled_shares m\<rparr>"
| "fields_of (OrderDelete m) = Some \<lparr>ef_kind = KDelete, ef_ref = od_ref m, ef_shares = 0\<rparr>"
| "fields_of (OrderReplace m) = Some \<lparr>ef_kind = KReplace, ef_ref = orp_new_ref m, ef_shares = orp_shares m\<rparr>"
| "fields_of _ = None"

section \<open>The publisher\<close>

definition kRingSlots :: nat where
  "kRingSlots = 2 ^ 16"

record publisher =
  pub_ring :: "book_event spsc"
  pub_dir :: symbol_directory
  pub_bbo :: "u16 \<Rightarrow> bbo_cache"
  recv_tsc :: u64
  dropped :: u64
  crossed_updates :: u64
  peak_live :: nat
  market_open :: bool

definition new_publisher :: "book_event list \<Rightarrow> publisher" where
  "new_publisher junk =
     \<lparr>pub_ring = new_ring junk, pub_dir = new_directory, pub_bbo = (\<lambda>_. new_bbo), recv_tsc = 0, dropped = 0,
      crossed_updates = 0, peak_live = 0, market_open = False\<rparr>"

definition pub_event :: "message \<Rightarrow> event_fields \<Rightarrow> book_update \<Rightarrow> top_of_book \<Rightarrow> u64 \<Rightarrow> book_event" where
  "pub_event m f u t tsc =
     \<lparr>be_timestamp = timestamp (header_of m), be_recv_tsc = tsc, be_ref = ef_ref f, be_bid_qty = bid_qty t, be_ask_qty = ask_qty t,
      be_price = bu_price u, be_shares = ef_shares f, be_bid_price = bid_price t, be_ask_price = ask_price t,
      be_locate = bu_locate u, be_kind = ef_kind f, be_side = bu_side u\<rparr>"

definition pub_snapshot :: "message \<Rightarrow> top_of_book \<Rightarrow> bbo_snapshot" where
  "pub_snapshot m t =
     \<lparr>snap_bid_price = bid_price t, snap_ask_price = ask_price t, snap_bid_qty = bid_qty t, snap_ask_qty = ask_qty t,
      snap_timestamp = timestamp (header_of m)\<rparr>"

definition note_peak :: "engine \<Rightarrow> message \<Rightarrow> publisher \<Rightarrow> publisher" where
  "note_peak e m p =
     (if mtype_of m = TAddOrder \<or> mtype_of m = TAddOrderMpid
      then (let live = om_size (eng_orders e) in if peak_live p < live then p\<lparr>peak_live := live\<rparr> else p)
      else p)"

definition store_top :: "u16 \<Rightarrow> bbo_snapshot \<Rightarrow> publisher \<Rightarrow> publisher" where
  "store_top loc s p = p\<lparr>pub_bbo := (pub_bbo p)(loc := bbo_store s (pub_bbo p loc))\<rparr>"

definition count_crossed :: "order_book \<Rightarrow> publisher \<Rightarrow> publisher option" where
  "count_crossed bk p =
     (if market_open p then do {
        c \<leftarrow> ob_crossed bk;
        Some (if c then p\<lparr>crossed_updates := crossed_updates p + 1\<rparr> else p) }
      else Some p)"

definition publish :: "book_event \<Rightarrow> publisher \<Rightarrow> publisher" where
  "publish ev p =
     (let (ok, r) = try_push kRingSlots ev (pub_ring p)
      in if ok then p\<lparr>pub_ring := r\<rparr> else p\<lparr>pub_ring := r, dropped := dropped p + 1\<rparr>)"

definition pub_on_book :: "engine \<Rightarrow> message \<Rightarrow> book_update \<Rightarrow> publisher \<Rightarrow> publisher option" where
  "pub_on_book e m u p = (case bu_book u of
     None \<Rightarrow> Some p
   | Some l \<Rightarrow>
       let p1 = note_peak e m p in
       if \<not> bu_top_changed u then Some p1
       else do {
         t \<leftarrow> ob_top (eng_books e l);
         let p2 = store_top (bu_locate u) (pub_snapshot m t) p1;
         p3 \<leftarrow> count_crossed (eng_books e l) p2;
         f \<leftarrow> fields_of m;
         Some (publish (pub_event m f u t (recv_tsc p3)) p3) })"

fun pub_on :: "message \<Rightarrow> publisher \<Rightarrow> publisher" where
  "pub_on (SystemEvent m) p =
     (let p1 = (if se_event_code m = 0x51 then p\<lparr>market_open := True\<rparr> else p)
      in if se_event_code m = 0x4D then p1\<lparr>market_open := False\<rparr> else p1)"
| "pub_on (StockDirectory m) p = p\<lparr>pub_dir := dir_on m (pub_dir p)\<rparr>"
| "pub_on _ p = p"

definition set_recv_tsc :: "u64 \<Rightarrow> publisher \<Rightarrow> publisher" where
  "set_recv_tsc t p = p\<lparr>recv_tsc := t\<rparr>"

text \<open>The publisher as a sink: no filter.\<close>

definition publisher_sink :: "publisher option sink" where
  "publisher_sink =
     \<lparr>sk_wants = None,
      sk_on_book = (\<lambda>t. if is_book_message t then Some (\<lambda>e m u s. do { p \<leftarrow> s; pub_on_book e m u p }) else None),
      sk_on = (\<lambda>t. if t = TSystemEvent \<or> t = TStockDirectory then Some (\<lambda>m. map_option (pub_on m)) else None)\<rparr>"

section \<open>The contract of a sink that follows the books\<close>

definition sink_book :: "'s sink \<Rightarrow> engine \<Rightarrow> message \<Rightarrow> book_update \<Rightarrow> 's \<Rightarrow> 's" where
  "sink_book S e m u s = (case sk_on_book S (mtype_of m) of None \<Rightarrow> s | Some f \<Rightarrow> f e m u s)"

definition sink_on :: "'s sink \<Rightarrow> message \<Rightarrow> 's \<Rightarrow> 's" where
  "sink_on S m s = (case sk_on S (mtype_of m) of None \<Rightarrow> s | Some f \<Rightarrow> f m s)"

lemma bb_on_sink:
  "bb_on alloc b S m B = (case event_of m of
     None \<Rightarrow> Some (B\<lparr>bb_sink := sink_on S m (bb_sink B)\<rparr>)
   | Some ev \<Rightarrow> map_option (\<lambda>(e, u). \<lparr>bb_engine = e, bb_sink = (if is_book_message (mtype_of m)
         then sink_book S e m u (bb_sink B) else sink_on S m (bb_sink B))\<rparr>) (apply_event alloc b ev (bb_engine B)))"
proof (cases "\<exists>d. m = StockDirectory d")
  case True
  then obtain d where d: "m = StockDirectory d" by blast
  show ?thesis
    unfolding d by (cases "eng_prepare alloc (bb_engine B) (locate d)") (auto simp: forward_def sink_on_def split: option.splits)
next
  case False
  then show ?thesis
    by (cases "(alloc, b, S, m, B)" rule: bb_on.cases)
      (auto simp: notify_def forward_def sink_book_def sink_on_def map_option_case split: option.splits prod.splits)
qed

locale sink_contract =
  fixes alloc :: "nat \<Rightarrow> bool" and b :: isa and S :: "'s sink" and follows :: "engine \<Rightarrow> 's \<Rightarrow> bool"
  assumes no_filter: "sk_wants S = None"
    and book_law: "eng_inv b e \<Longrightarrow> follows e s \<Longrightarrow> event_of m = Some ev \<Longrightarrow> is_book_message (mtype_of m) \<Longrightarrow>
      admissible ev (eng_map e) \<Longrightarrow> apply_event alloc b ev e = Some (e', u) \<Longrightarrow> follows e' (sink_book S e' m u s)"
    and prepare_law: "eng_inv b e \<Longrightarrow> follows e s \<Longrightarrow> eng_prepare alloc e loc = Some e' \<Longrightarrow> follows e' s"
    and on_law: "follows e s \<Longrightarrow> follows e (sink_on S m s)"
begin

definition tracked :: "'s builder parser \<Rightarrow> bool" where
  "tracked P \<longleftrightarrow> eng_inv b (bb_engine (handler_state P)) \<and> follows (bb_engine (handler_state P)) (bb_sink (handler_state P))"

lemma verdict_keeps:
  assumes P: "tracked P" and v: "apply_verdict (bb_handler alloc b S) v P = Some P1"
    and adm: "admissible_all (verdict_events (\<lambda>_ _. True) v) (eng_map (bb_engine (handler_state P)))"
  shows "tracked P1 \<and> eng_map (bb_engine (handler_state P1)) =
    fold abs_event (verdict_events (\<lambda>_ _. True) v) (eng_map (bb_engine (handler_state P)))"
proof (cases v)
  case (Message m)
  let ?B = "handler_state P"
  have w: "wanted (bb_handler alloc b S) m B" for B
    by (simp add: wanted_def bb_handler_def bb_wants_def no_filter)
  show ?thesis
  proof (cases "handles (bb_handler alloc b S) (mtype_of m)")
    case False
    then have "event_of m = None" using event_handled [of m alloc b S] by blast
    then show ?thesis using P v w False by (auto simp: Message verdict_events_def tracked_def)
  next
    case True
    then obtain B1 where B1: "bb_on alloc b S m ?B = Some B1" "handler_state P1 = B1"
      using v w by (auto simp: Message Let_def bb_handler_def)
    show ?thesis
    proof (cases "event_of m")
      case None
      then show ?thesis using B1 P on_law by (auto simp: Message verdict_events_def tracked_def bb_on_sink)
    next
      case (Some ev)
      then obtain e' u where a: "apply_event alloc b ev (bb_engine ?B) = Some (e', u)" "bb_engine B1 = e'"
        "bb_sink B1 = (if is_book_message (mtype_of m) then sink_book S e' m u (bb_sink ?B) else sink_on S m (bb_sink ?B))"
        using B1(1) by (auto simp: bb_on_sink)
      have evs: "verdict_events (\<lambda>_ _. True) v = [ev]" by (simp add: Message verdict_events_def Some)
      have inv: "eng_inv b (bb_engine ?B)" "follows (bb_engine ?B) (bb_sink ?B)" and adm1: "admissible ev (eng_map (bb_engine ?B))"
        using P adm by (simp_all add: tracked_def evs)
      have ok: "event_ok b ev (bb_engine ?B) e' u" by (rule event_step [OF inv(1) adm1 a(1)])
      have "follows e' (bb_sink B1)"
      proof (cases "is_book_message (mtype_of m)")
        case True
        then show ?thesis using book_law [OF inv Some True adm1 a(1)] a(3) by simp
      next
        case False
        then obtain loc where "ev = Prepare loc" using Some by (cases m) auto
        then have "eng_prepare alloc (bb_engine ?B) loc = Some e'" using a(1) by (auto simp: bind_eq_Some_conv)
        from prepare_law [OF inv this] show ?thesis using on_law a(3) False by simp
      qed
      then show ?thesis using ok a(2) B1(2) evs by (simp add: tracked_def event_ok_def)
    qed
  qed
qed (use P v in \<open>auto simp: verdict_events_def tracked_def\<close>)

lemma stream_keeps:
  assumes "tracked P" "foldO (\<lambda>bs. apply_verdict (bb_handler alloc b S) (classify bs)) fs P = Some P'"
    and "admissible_all (stream_events (\<lambda>_ _. True) fs) (eng_map (bb_engine (handler_state P)))"
  shows "tracked P'"
  using assms
proof (induction fs arbitrary: P)
  case (Cons bs fs)
  let ?v = "verdict_events (\<lambda>_ _. True) (classify bs)" and ?M = "eng_map (bb_engine (handler_state P))"
  have evs: "stream_events (\<lambda>_ _. True) (bs # fs) = ?v @ stream_events (\<lambda>_ _. True) fs" by (simp add: stream_events_def)
  have adm: "admissible_all ?v ?M" "admissible_all (stream_events (\<lambda>_ _. True) fs) (fold abs_event ?v ?M)"
    using Cons.prems(3) unfolding evs admissible_all_append by auto
  obtain P1 where P1: "apply_verdict (bb_handler alloc b S) (classify bs) P = Some P1"
    "foldO (\<lambda>bs. apply_verdict (bb_handler alloc b S) (classify bs)) fs P1 = Some P'"
    using Cons.prems(2) by (auto simp: bind_eq_Some_conv)
  show ?case using verdict_keeps [OF Cons.prems(1) P1(1) adm(1)] adm(2) P1(2) by (intro Cons.IH [of P1]) simp_all
qed simp

end

section \<open>The publisher follows the books\<close>

text \<open>A reader of a cache sees the top of the book.\<close>

definition shows_top :: "bbo_cache \<Rightarrow> top_of_book \<Rightarrow> bool" where
  "shows_top c t \<longleftrightarrow> (\<exists>s. bbo_try_load c = Some s \<and> snap_bid_price s = bid_price t \<and> snap_ask_price s = ask_price t \<and>
     snap_bid_qty s = bid_qty t \<and> snap_ask_qty s = ask_qty t)"

definition pub_follows :: "engine \<Rightarrow> publisher option \<Rightarrow> bool" where
  "pub_follows e s \<longleftrightarrow> (\<exists>p xs. s = Some p \<and> ring_queue kRingSlots (pub_ring p) xs \<and>
     (\<forall>l. \<exists>t. tops (eng_books e) l = Some t \<and> shows_top (pub_bbo p l) t))"

lemma seq_even_add: "(w :: u64) AND 1 = 0 \<Longrightarrow> (w + 2) AND 1 = 0"
  by (simp add: and_one_eq mod_2_eq_odd)

lemma try_load_store: "bbo_try_load c = Some s' \<Longrightarrow> bbo_try_load (bbo_store s c) = Some s"
  by (simp add: bbo_try_load_def bbo_store_eq Let_def snapshot_of_pack seq_even_add split: if_splits)


text \<open>An order event touches no book but the one it reports.\<close>

lemma add_other_books:
  "eng_add alloc b e loc ref sd shares price = Some (e', u) \<Longrightarrow>
     bu_book u = Some loc \<and> bu_locate u = loc \<and> (\<forall>l. l \<noteq> loc \<longrightarrow> eng_books e' l = eng_books e l)"
  by (auto simp: eng_add_def bind_eq_Some_conv Let_def set_book_side_def update_of_def)

lemma apply_reduce_other_books:
  "apply_reduce b e ord sh gone = Some (e', u) \<Longrightarrow>
     bu_book u = Some (o_locate ord) \<and> bu_locate u = o_locate ord \<and>
     (\<forall>l. l \<noteq> o_locate ord \<longrightarrow> eng_books e' l = eng_books e l)"
  by (auto simp: apply_reduce_def bind_eq_Some_conv Let_def set_book_side_def update_of_def)

lemma erase_books: "eng_erase b e i = Some e' \<Longrightarrow> eng_books e' = eng_books e"
  by (auto simp: eng_erase_def bind_eq_Some_conv)

definition only_reported :: "engine \<Rightarrow> engine \<times> book_update \<Rightarrow> bool" where
  "only_reported e = (\<lambda>(e', u). case bu_book u of
     None \<Rightarrow> eng_books e' = eng_books e
   | Some loc \<Rightarrow> bu_locate u = loc \<and> (\<forall>l. l \<noteq> loc \<longrightarrow> eng_books e' l = eng_books e l))"

lemma only_reported_reduce:
  assumes "apply_reduce b e1 ord sh gone = Some (e', u)" "eng_books e1 = eng_books e" "eng_books e'' = eng_books e'"
  shows "only_reported e (e'', u)"
  using apply_reduce_other_books [OF assms(1)] assms(2,3) by (simp add: only_reported_def)

lemma only_reported_none: "eng_books e' = eng_books e \<Longrightarrow> only_reported e (e', no_update)"
  by (simp add: only_reported_def no_update_def)

lemma reduce_only:
  assumes "eng_reduce b e ref shares = Some r"
  shows "only_reported e r"
proof -
  obtain f where f: "om_find (GroupBest b) (eng_orders e) ref = Some f"
    using assms by (auto simp: eng_reduce_def bind_eq_Some_conv)
  show ?thesis
  proof (cases f)
    case None
    then show ?thesis using assms f by (auto simp: eng_reduce_def intro: only_reported_none)
  next
    case (Some i)
    let ?ord = "om_get (eng_orders e) i"
    obtain e1 sh where c: "(if o_shares ?ord < shares then (e\<lparr>overfill := overfill e + 1\<rparr>, o_shares ?ord) else (e, shares)) = (e1, sh)"
      by (rule prod.exhaust)
    have e1: "eng_books e1 = eng_books e" using c by (auto split: if_splits)
    show ?thesis
    proof (cases "sh = 0")
      case True
      then show ?thesis using assms f Some c e1
        by (simp add: eng_reduce_def Let_def) (auto simp: only_reported_def update_of_def)
    next
      case False
      let ?ord' = "?ord\<lparr>o_shares := o_shares ?ord - sh\<rparr>"
      let ?e2 = "e1\<lparr>eng_orders := om_put (eng_orders e1) i ?ord'\<rparr>"
      obtain e3 u e4 where r: "apply_reduce b ?e2 ?ord' sh (o_shares ?ord' = 0) = Some (e3, u)"
        "(if o_shares ?ord' = 0 then eng_erase b e3 i else Some e3) = Some e4" "r = (e4, u)"
        using assms f Some c False by (auto simp: eng_reduce_def Let_def bind_eq_Some_conv)
      have "eng_books e4 = eng_books e3" using r(2) erase_books by (auto split: if_splits)
      then show ?thesis unfolding r(3) using only_reported_reduce [OF r(1)] e1 by simp
    qed
  qed
qed

lemma remove_only:
  assumes "eng_remove b e ref = Some r"
  shows "only_reported e r"
proof -
  obtain f where f: "om_find (GroupBest b) (eng_orders e) ref = Some f"
    using assms by (auto simp: eng_remove_def bind_eq_Some_conv)
  show ?thesis
  proof (cases f)
    case None
    then show ?thesis using assms f by (auto simp: eng_remove_def intro: only_reported_none)
  next
    case (Some i)
    let ?ord = "om_get (eng_orders e) i"
    obtain e1 u e2 where r: "apply_reduce b e ?ord (o_shares ?ord) True = Some (e1, u)" "eng_erase b e1 i = Some e2" "r = (e2, u)"
      using assms f Some by (auto simp: eng_remove_def Let_def bind_eq_Some_conv)
    show ?thesis unfolding r(3) using only_reported_reduce [OF r(1) refl erase_books [OF r(2)]] .
  qed
qed

lemma replace_only:
  assumes "eng_replace alloc b e old new shares price = Some r"
  shows "only_reported e r"
proof -
  obtain f where f: "om_find (GroupBest b) (eng_orders e) old = Some f"
    using assms by (auto simp: eng_replace_def bind_eq_Some_conv)
  show ?thesis
  proof (cases f)
    case None
    then show ?thesis using assms f by (auto simp: eng_replace_def intro: only_reported_none)
  next
    case (Some i)
    let ?ord = "om_get (eng_orders e) i"
    obtain e1 removed e2 e3 added where r: "apply_reduce b e ?ord (o_shares ?ord) True = Some (e1, removed)"
      "eng_erase b e1 i = Some e2" "eng_add alloc b e2 (o_locate ?ord) new (o_side ?ord) shares price = Some (e3, added)"
      "r = (e3, added\<lparr>bu_top_changed := bu_top_changed added \<or> bu_top_changed removed\<rparr>)"
      using assms f Some by (auto simp: eng_replace_def Let_def bind_eq_Some_conv)
    show ?thesis
      using apply_reduce_other_books [OF r(1)] erase_books [OF r(2)] add_other_books [OF r(3)]
      by (simp add: only_reported_def r(4))
  qed
qed

lemma event_only_reported:
  assumes "apply_event alloc b ev e = Some r" "\<And>loc. ev \<noteq> Prepare loc"
  shows "only_reported e r"
proof (cases ev)
  case (Add loc ref sd shares price)
  then show ?thesis using assms(1) add_other_books [of alloc b e loc ref sd shares price]
    by (cases r) (simp add: only_reported_def)
next
  case (Reduce ref shares)
  then show ?thesis using assms(1) reduce_only [of b e ref shares] by simp
next
  case (Remove ref)
  then show ?thesis using assms(1) remove_only [of b e ref] by simp
next
  case (Replace old new shares price)
  then show ?thesis using assms(1) replace_only [of alloc b e old new shares price] by simp
next
  case (Prepare loc)
  then show ?thesis using assms(2) by blast
qed


text \<open>One order event: the publisher stores the new top of the one book that can have a new top.\<close>

lemma tops_exist: "eng_inv b e \<Longrightarrow> \<exists>t. tops (eng_books e) l = Some t"
  using ob_top_eq books_ok_book_inv unfolding eng_inv_def tops_def by blast

lemma push_queue:
  assumes "ring_queue N r xs"
  shows "\<exists>ys. ring_queue N (snd (try_push N x r)) ys"
  using ring.push_law [OF assms, of x] by (metis prod.collapse)

lemma event_message: "is_book_message (mtype_of m) \<Longrightarrow> \<exists>f. fields_of m = Some f"
  by (cases m) simp_all

lemma book_message_event: "is_book_message (mtype_of m) \<Longrightarrow> event_of m = Some ev \<Longrightarrow> ev \<noteq> Prepare loc"
  by (cases m) auto

text \<open>What each step of \<open>on_book\<close> leaves alone.\<close>

lemma note_peak_keeps [simp]:
  "pub_ring (note_peak e m p) = pub_ring p" "pub_bbo (note_peak e m p) = pub_bbo p" "dropped (note_peak e m p) = dropped p"
  "crossed_updates (note_peak e m p) = crossed_updates p" "market_open (note_peak e m p) = market_open p"
  "recv_tsc (note_peak e m p) = recv_tsc p" "pub_dir (note_peak e m p) = pub_dir p"
  by (simp_all add: note_peak_def Let_def)

lemma store_top_keeps [simp]:
  "pub_ring (store_top loc s p) = pub_ring p" "dropped (store_top loc s p) = dropped p" "recv_tsc (store_top loc s p) = recv_tsc p"
  "crossed_updates (store_top loc s p) = crossed_updates p" "market_open (store_top loc s p) = market_open p"
  "pub_bbo (store_top loc s p) = (pub_bbo p)(loc := bbo_store s (pub_bbo p loc))"
  by (simp_all add: store_top_def)

lemma count_crossed_eq:
  assumes "book_inv bk"
  shows "count_crossed bk p = Some (p\<lparr>crossed_updates := crossed_updates p +
    (if market_open p \<and> (\<exists>x \<in> dom (ls_abs (bids bk)). \<exists>y \<in> dom (ls_abs (asks bk)). NOT y \<le> x) then 1 else 0)\<rparr>)"
  by (simp add: count_crossed_def ob_crossed_eq [OF assms])

lemma publish_keeps [simp]:
  "pub_bbo (publish ev p) = pub_bbo p" "crossed_updates (publish ev p) = crossed_updates p" "pub_dir (publish ev p) = pub_dir p"
  by (simp_all add: publish_def split: prod.split)

lemma publish_queue:
  assumes "ring_queue kRingSlots (pub_ring p) xs"
  shows "ring_queue kRingSlots (pub_ring (publish ev p)) (if length xs < kRingSlots then xs @ [ev] else xs) \<and>
    dropped (publish ev p) = dropped p + (if length xs < kRingSlots then 0 else 1)"
proof -
  obtain ok r where r: "try_push kRingSlots ev (pub_ring p) = (ok, r)" by fastforce
  from ring.push_law [OF assms this] show ?thesis by (auto simp: publish_def r)
qed

text \<open>A call with a new top.\<close>

lemma pub_on_book_top:
  assumes inv: "eng_inv b e'" and m: "is_book_message (mtype_of m)" and l: "bu_book u = Some l" "bu_top_changed u"
    and t: "tops (eng_books e') l = Some t"
  defines "bk \<equiv> eng_books e' l"
  defines "x \<equiv> \<exists>x \<in> dom (ls_abs (bids bk)). \<exists>y \<in> dom (ls_abs (asks bk)). NOT y \<le> x"
  shows "\<exists>f. fields_of m = Some f \<and> pub_on_book e' m u p =
    Some (publish (pub_event m f u t (recv_tsc p)) ((store_top (bu_locate u) (pub_snapshot m t) (note_peak e' m p))
      \<lparr>crossed_updates := crossed_updates p + (if market_open p \<and> x then 1 else 0)\<rparr>))"
proof -
  obtain f where f: "fields_of m = Some f" using event_message [OF m] by blast
  have bk: "book_inv bk" using inv books_ok_book_inv unfolding eng_inv_def bk_def by blast
  have tb: "ob_top bk = Some t" using t by (simp add: tops_def bk_def)
  show ?thesis
    unfolding pub_on_book_def l(1) option.case bk_def [symmetric] tb bind.bind_lunit count_crossed_eq [OF bk]
      Let_def f using l(2) by (simp add: x_def)
qed

lemma pub_on_book_stores:
  assumes inv: "eng_inv b e'" and m: "is_book_message (mtype_of m)" and l: "bu_book u = Some l" and t: "bu_top_changed u"
    and tp: "tops (eng_books e') l = Some t" and q: "ring_queue kRingSlots (pub_ring p) xs"
  shows "\<exists>p' ys. pub_on_book e' m u p = Some p' \<and> ring_queue kRingSlots (pub_ring p') ys \<and>
    pub_bbo p' = (pub_bbo p)(bu_locate u := bbo_store (pub_snapshot m t) (pub_bbo p (bu_locate u)))"
proof -
  obtain f c where f: "pub_on_book e' m u p = Some (publish (pub_event m f u t (recv_tsc p))
      ((store_top (bu_locate u) (pub_snapshot m t) (note_peak e' m p))\<lparr>crossed_updates := c\<rparr>))"
    using pub_on_book_top [OF inv m l t tp, of p] by blast
  let ?p = "(store_top (bu_locate u) (pub_snapshot m t) (note_peak e' m p))\<lparr>crossed_updates := c\<rparr>"
  have "ring_queue kRingSlots (pub_ring ?p) xs" using q by simp
  from publish_queue [OF this, of "pub_event m f u t (recv_tsc p)"] show ?thesis unfolding f by auto
qed

lemma pub_book_step:
  assumes inv: "eng_inv b e" and fo: "pub_follows e s" and m: "is_book_message (mtype_of m)" "event_of m = Some ev"
    and adm: "admissible ev (eng_map e)" and a: "apply_event alloc b ev e = Some (e', u)"
  shows "pub_follows e' (sink_book publisher_sink e' m u s)"
proof -
  have ok: "eng_inv b e'" "\<not> bu_top_changed u \<longrightarrow> tops (eng_books e') = tops (eng_books e)"
    using event_step [OF inv adm a] by (simp_all add: event_ok_def)
  have only: "only_reported e (e', u)"
    using event_only_reported [OF a] book_message_event [OF m] by blast
  obtain p xs where p: "s = Some p" "ring_queue kRingSlots (pub_ring p) xs"
    "\<And>l. \<exists>t. tops (eng_books e) l = Some t \<and> shows_top (pub_bbo p l) t" using fo by (auto simp: pub_follows_def)
  have sb: "sink_book publisher_sink e' m u s = pub_on_book e' m u p"
    using m(1) p(1) by (simp add: sink_book_def publisher_sink_def)
  show ?thesis
  proof (cases "\<exists>l. bu_book u = Some l \<and> bu_top_changed u")
    case False
    then have "tops (eng_books e') = tops (eng_books e)"
      using ok(2) only by (cases "bu_book u") (auto simp: only_reported_def tops_def fun_eq_iff)
    moreover obtain p' where "pub_on_book e' m u p = Some p'" "pub_ring p' = pub_ring p" "pub_bbo p' = pub_bbo p"
      using False by (cases "bu_book u") (auto simp: pub_on_book_def Let_def)
    ultimately show ?thesis using p(2,3) unfolding sb pub_follows_def by auto
  next
    case True
    then obtain l where l: "bu_book u = Some l" "bu_top_changed u" by blast
    have loc: "bu_locate u = l" "\<And>k. k \<noteq> l \<Longrightarrow> tops (eng_books e') k = tops (eng_books e) k"
      using only l(1) by (simp_all add: only_reported_def tops_def)
    obtain t where t: "tops (eng_books e') l = Some t" using tops_exist [OF ok(1)] by blast
    from pub_on_book_stores [OF ok(1) m(1) l t p(2)] obtain p' ys where
      p': "pub_on_book e' m u p = Some p'" "ring_queue kRingSlots (pub_ring p') ys"
      "pub_bbo p' = (pub_bbo p)(l := bbo_store (pub_snapshot m t) (pub_bbo p l))" unfolding loc by blast
    have "shows_top (pub_bbo p' l) t"
      using p(3) [of l] try_load_store [of "pub_bbo p l"] by (auto simp: shows_top_def p'(3) pub_snapshot_def)
    then have "\<exists>t. tops (eng_books e') k = Some t \<and> shows_top (pub_bbo p' k) t" for k
      using t p(3) [of k] loc(2) [of k] by (cases "k = l") (auto simp: p'(3))
    then show ?thesis using p'(2) unfolding sb p'(1) pub_follows_def by blast
  qed
qed

interpretation publisher: sink_contract alloc b publisher_sink pub_follows for alloc b
proof
  show "sk_wants publisher_sink = None" by (simp add: publisher_sink_def)
  show "pub_follows e' (sink_book publisher_sink e' m u s)"
    if "eng_inv b e" "pub_follows e s" "event_of m = Some ev" "is_book_message (mtype_of m)" "admissible ev (eng_map e)"
      "apply_event alloc b ev e = Some (e', u)" for e s m ev e' u
    using pub_book_step that by blast
  show "pub_follows e' s" if "eng_inv b e" "pub_follows e s" "eng_prepare alloc e loc = Some e'" for e s loc e'
  proof -
    have "apply_event alloc b (Prepare loc) e = Some (e', no_update)" using that(3) by simp
    then have "event_ok b (Prepare loc) e e' no_update" by (intro event_step [OF that(1)]) simp_all
    then have "tops (eng_books e') = tops (eng_books e)" by (simp add: event_ok_def no_update_def)
    then show ?thesis using that(2) by (simp add: pub_follows_def)
  qed
  show "pub_follows e (sink_on publisher_sink m s)" if "pub_follows e s" for e m s
  proof -
    have "pub_ring (pub_on m p) = pub_ring p" "pub_bbo (pub_on m p) = pub_bbo p" for p
      by (cases m; simp add: Let_def)+
    then show ?thesis using that by (auto simp: pub_follows_def sink_on_def publisher_sink_def split: option.split)
  qed
qed


text \<open>Where the publisher starts.\<close>

lemma new_bbo_load: "bbo_try_load new_bbo = Some no_snapshot"
  using bbo_store_load [of "[]"] by simp

lemma new_publisher_queue: "length junk = kRingSlots \<Longrightarrow> ring_queue kRingSlots (pub_ring (new_publisher junk)) []"
proof -
  have "valid_cap kRingSlots" by (auto simp: valid_cap_def kRingSlots_def intro: exI [of _ 16])
  then show "length junk = kRingSlots \<Longrightarrow> ?thesis" using new_ring_queue [of junk] by (simp add: new_publisher_def)
qed

lemma new_publisher_follows:
  assumes "new_engine alloc b n = Some e" "length junk = kRingSlots"
  shows "pub_follows e (Some (new_publisher junk))"
proof -
  have "eng_books e = (\<lambda>_. new_book)" using assms(1) by (auto simp: new_engine_def bind_eq_Some_conv split: if_splits)
  then have "tops (eng_books e) l = Some \<lparr>bid_price = 0, ask_price = 0, bid_qty = 0, ask_qty = 0\<rparr>" for l
    by (simp add: tops_def ob_top_def new_book_def new_side_def)
  moreover have "shows_top (pub_bbo (new_publisher junk) l) \<lparr>bid_price = 0, ask_price = 0, bid_qty = 0, ask_qty = 0\<rparr>" for l
    by (simp add: shows_top_def new_publisher_def new_bbo_load no_snapshot_def)
  ultimately show ?thesis using new_publisher_queue [OF assms(2)] by (auto simp: pub_follows_def)
qed

section \<open>Properties\<close>

lemma stream_follows:
  assumes "len \<le> length buf" "frames (take len buf) = (fs, rest)" "publisher.tracked b P"
    and "admissible_all (stream_events (\<lambda>_ _. True) fs) (eng_map (bb_engine (handler_state P)))"
    and "parse_stream (bb_handler alloc b publisher_sink) buf len P = Some (P', n)"
  shows "publisher.tracked b P'"
proof -
  have "foldO (\<lambda>bs. apply_verdict (bb_handler alloc b publisher_sink) (classify bs)) fs P = Some P'"
    using parse_stream_cut [OF assms(1), of "bb_handler alloc b publisher_sink" P] assms(2,5)
    by (cases "foldO (\<lambda>bs. apply_verdict (bb_handler alloc b publisher_sink) (classify bs)) fs P") simp_all
  then show ?thesis using publisher.stream_keeps [OF assms(3) _ assms(4)] by blast
qed

text \<open>
  C26. The published best prices are current: whatever stream is parsed, afterwards the cache of every locate shows a
  reader exactly the prices and quantities at the top of that locate's book, zero for an empty side. (Only updates that report a
  new top are stored, so this rests on those reports being exact.) The publisher never reads outside a book.
\<close>

theorem published_tops_are_current:
  assumes "len \<le> length buf" "frames (take len buf) = (fs, rest)"
    and "eng_inv b (bb_engine (handler_state P))" "pub_follows (bb_engine (handler_state P)) (bb_sink (handler_state P))"
    and "admissible_all (stream_events (\<lambda>_ _. True) fs) (eng_map (bb_engine (handler_state P)))"
    and "parse_stream (bb_handler alloc b publisher_sink) buf len P = Some (P', n)"
  shows "\<exists>p'. bb_sink (handler_state P') = Some p' \<and>
    (\<forall>loc. \<exists>t s. ob_top (eng_books (bb_engine (handler_state P')) loc) = Some t \<and> bbo_try_load (pub_bbo p' loc) = Some s \<and>
      snap_bid_price s = bid_price t \<and> snap_ask_price s = ask_price t \<and>
      snap_bid_qty s = bid_qty t \<and> snap_ask_qty s = ask_qty t)"
proof -
  have "publisher.tracked b P" using assms(3,4) by (simp add: publisher.tracked_def)
  from stream_follows [OF assms(1,2) this assms(5,6)] show ?thesis
    by (force simp: publisher.tracked_def pub_follows_def shows_top_def tops_def)
qed

text \<open>
  One update that reports a new top: the cache of its locate gets the new top with the message's timestamp and no other cache
  changes; the event with that top and the message's fields is appended to the ring, or counted as dropped exactly if the ring is
  full; and a crossed update is counted exactly if the market is open and some bid is at or above some ask.
\<close>

theorem on_book_publishes:
  assumes "eng_inv b e" "is_book_message (mtype_of m)" "bu_book u = Some l" "bu_top_changed u" "bu_locate u = l"
    and "ob_top (eng_books e l) = Some t" "ring_queue kRingSlots (pub_ring p) xs" "bbo_try_load (pub_bbo p l) \<noteq> None"
  shows "\<exists>p' f. pub_on_book e m u p = Some p' \<and> fields_of m = Some f \<and>
    bbo_try_load (pub_bbo p' l) = Some (pub_snapshot m t) \<and> (\<forall>k. k \<noteq> l \<longrightarrow> pub_bbo p' k = pub_bbo p k) \<and>
    ring_queue kRingSlots (pub_ring p') (if length xs < kRingSlots then xs @ [pub_event m f u t (recv_tsc p)] else xs) \<and>
    dropped p' = dropped p + (if length xs < kRingSlots then 0 else 1) \<and>
    crossed_updates p' = crossed_updates p + (if market_open p \<and>
      (\<exists>x \<in> dom (ls_abs (bids (eng_books e l))). \<exists>y \<in> dom (ls_abs (asks (eng_books e l))). NOT y \<le> x) then 1 else 0)"
proof -
  let ?x = "\<exists>x \<in> dom (ls_abs (bids (eng_books e l))). \<exists>y \<in> dom (ls_abs (asks (eng_books e l))). NOT y \<le> x"
  let ?p = "(store_top l (pub_snapshot m t) (note_peak e m p))\<lparr>crossed_updates := crossed_updates p +
    (if market_open p \<and> ?x then 1 else 0)\<rparr>"
  have t: "tops (eng_books e) l = Some t" using assms(6) by (simp add: tops_def)
  obtain f where f: "fields_of m = Some f" "pub_on_book e m u p = Some (publish (pub_event m f u t (recv_tsc p)) ?p)"
    using pub_on_book_top [OF assms(1-4) t, of p] assms(5) by auto
  have q: "ring_queue kRingSlots (pub_ring ?p) xs" using assms(7) by simp
  obtain s0 where s0: "bbo_try_load (pub_bbo p l) = Some s0" using assms(8) by blast
  note pq = publish_queue [OF q, of "pub_event m f u t (recv_tsc p)"]
  let ?p' = "publish (pub_event m f u t (recv_tsc p)) ?p"
  have c: "bbo_try_load (pub_bbo ?p' l) = Some (pub_snapshot m t)" "\<forall>k. k \<noteq> l \<longrightarrow> pub_bbo ?p' k = pub_bbo p k"
    using try_load_store [OF s0] by simp_all
  have "crossed_updates ?p' = crossed_updates p + (if market_open p \<and> ?x then 1 else 0)" "dropped ?p = dropped p" by simp_all
  with pq c f show ?thesis by (intro exI [of _ ?p'] exI [of _ f] conjI) simp_all
qed

section \<open>Witnesses\<close>

definition blank_event :: book_event where
  "blank_event =
     \<lparr>be_timestamp = 0, be_recv_tsc = 0, be_ref = 0, be_bid_qty = 0, be_ask_qty = 0, be_price = 0, be_shares = 0, be_bid_price = 0,
      be_ask_price = 0, be_locate = 0, be_kind = KAdd, be_side = 0\<rparr>"

definition sample_publisher :: publisher where
  "sample_publisher = new_publisher (replicate kRingSlots blank_event)"

lemma sample_ring: "ring_queue kRingSlots (pub_ring sample_publisher) []"
  using new_publisher_queue [of "replicate kRingSlots blank_event"] by (simp add: sample_publisher_def)

lemma sample_publisher_follows: "new_engine alloc b n = Some e \<Longrightarrow> pub_follows e (Some sample_publisher)"
  using new_publisher_follows [of alloc b n e "replicate kRingSlots blank_event"] by (simp add: sample_publisher_def)

definition sample_add_message :: message where
  "sample_add_message = AddOrder \<lparr>locate = 7, tracking = 0, timestamp = 5, ao_ref = 42, ao_side = side_buy, ao_shares = 100,
     ao_stock = replicate 8 0x20, ao_price = 5000\<rparr>"

lemma sample_published:
  "\<exists>e s. eng_inv Have_AVX2 e \<and> eng_map e = [42 \<mapsto> new_order 42 5000 100 7 side_buy] \<and> pub_follows e s"
proof -
  obtain e e' u where e: "new_engine (\<lambda>_. True) Have_AVX2 10 = Some e" "admissible (Add 7 42 side_buy 100 5000) (eng_map e)"
    "apply_event (\<lambda>_. True) Have_AVX2 (Add 7 42 side_buy 100 5000) e = Some (e', u)" "eng_inv Have_AVX2 e'"
    "eng_map e' = [42 \<mapsto> new_order 42 5000 100 7 side_buy]" using sample_add [of Have_AVX2] by blast
  have "eng_inv Have_AVX2 e" using new_engine_spec [OF e(1)] by simp
  moreover have "event_of sample_add_message = Some (Add 7 42 side_buy 100 5000)" "is_book_message (mtype_of sample_add_message)"
    by (simp_all add: sample_add_message_def)
  ultimately show ?thesis
    using publisher.book_law [OF _ sample_publisher_follows [OF e(1)] _ _ e(2,3)] e(4,5) by blast
qed

theorem published_tops_are_current_witness:
  "\<exists>P P' n p'. eng_map (bb_engine (handler_state P)) = [42 \<mapsto> new_order 42 5000 100 7 side_buy] \<and>
    parse_stream (bb_handler (\<lambda>_. True) Have_AVX2 publisher_sink) delete_record 21 P = Some (P', n) \<and>
    bb_sink (handler_state P') = Some p' \<and>
    (\<forall>loc. \<exists>t s. ob_top (eng_books (bb_engine (handler_state P')) loc) = Some t \<and> bbo_try_load (pub_bbo p' loc) = Some s \<and>
      snap_bid_price s = bid_price t \<and> snap_bid_qty s = bid_qty t)"
proof -
  obtain e s where e: "eng_inv Have_AVX2 e" "eng_map e = [42 \<mapsto> new_order 42 5000 100 7 side_buy]" "pub_follows e s"
    using sample_published by blast
  let ?P = "new_parser \<lparr>bb_engine = e, bb_sink = s\<rparr>" and ?H = "bb_handler (\<lambda>_. True) Have_AVX2 publisher_sink"
  have st: "bb_engine (handler_state ?P) = e" "bb_sink (handler_state ?P) = s" by (simp_all add: new_parser_def)
  have len: "21 \<le> length delete_record" by (simp add: delete_record_def)
  have adm: "admissible_all (stream_events (\<lambda>_ _. True) [drop 2 delete_record]) (eng_map e)" by (simp add: sample_events)
  have acc: "accepts publisher_sink (\<lambda>_ _. True)" by (simp add: accepts_def publisher_sink_def)
  have h: "eng_inv Have_AVX2 (bb_engine (handler_state ?P))" using e(1) st(1) by simp
  have one: "\<not> (\<exists>xs ev ys e1. [Remove 42] = xs @ ev # ys \<and> apply_events (\<lambda>_. True) Have_AVX2 xs e = Some e1 \<and>
      out_of_memory (\<lambda>_. True) Have_AVX2 e1 ev)" by (auto simp: Cons_eq_append_conv)
  obtain P' n where P': "parse_stream ?H delete_record 21 ?P = Some (P', n)"
    using builder_stream [OF len sample_frames acc h st(1) adm, of "\<lambda>_. True"] one
    unfolding sample_events by blast
  from published_tops_are_current [OF len sample_frames _ _ _ P', unfolded st, OF e(1,3) adm]
  obtain p' where "bb_sink (handler_state P') = Some p'"
    "\<forall>loc. \<exists>t s. ob_top (eng_books (bb_engine (handler_state P')) loc) = Some t \<and> bbo_try_load (pub_bbo p' loc) = Some s \<and>
      snap_bid_price s = bid_price t \<and> snap_bid_qty s = bid_qty t" by blast
  note facts = this e(2) P' st(1)
  show ?thesis
    by (rule exI [where x = ?P], rule exI [where x = P'], rule exI [where x = n], rule exI [where x = p'], intro conjI)
      (simp only: facts(3,5), rule facts(4), rule facts(1), rule facts(2))
qed

theorem on_book_publishes_witness:
  "\<exists>e p' f. eng_map e = [42 \<mapsto> new_order 42 5000 100 7 side_buy] \<and> fields_of sample_add_message = Some f \<and>
    pub_on_book e sample_add_message (update_of 7 5000 side_buy True) sample_publisher = Some p' \<and>
    dropped p' = 0 \<and> crossed_updates p' = 0"
proof -
  obtain e where e: "eng_inv Have_AVX2 e" "eng_map e = [42 \<mapsto> new_order 42 5000 100 7 side_buy]"
    using sample_published by blast
  obtain t where t: "ob_top (eng_books e 7) = Some t" using tops_exist [OF e(1), of 7] by (auto simp: tops_def)
  let ?u = "update_of 7 5000 side_buy True"
  have u: "is_book_message (mtype_of sample_add_message)" "bu_book ?u = Some 7" "bu_top_changed ?u" "bu_locate ?u = 7"
    "bbo_try_load (pub_bbo sample_publisher 7) \<noteq> None" "dropped sample_publisher = 0" "crossed_updates sample_publisher = 0"
    "market_open sample_publisher = False" "(0 :: nat) < kRingSlots"
    by (simp_all add: sample_add_message_def update_of_def sample_publisher_def new_publisher_def new_bbo_load kRingSlots_def)
  from on_book_publishes [OF e(1) u(1-4) t sample_ring u(5)] show ?thesis using e(2) u(6-9) by auto
qed

end
