(* ===== verification/Command_Line.thy ===== *)
theory Command_Line
  imports Prelude
begin

text \<open>
  The command line of \<^verbatim>\<open>tools/feed_handler_main.cpp\<close>: \<open>Config\<close>, \<open>parse_int\<close> with the
  \<open>strtol\<close> it relies on, and \<open>parse_args\<close>. A call of \<open>usage\<close> ends the program; it is \<open>Inl\<close> of the exit code. The arguments
  are those after the program's name.
\<close>

section \<open>Numbers\<close>

definition is_space :: "char \<Rightarrow> bool" where
  "is_space c \<longleftrightarrow> c \<in> {CHR 0x20, CHR 0x09, CHR 0x0A, CHR 0x0B, CHR 0x0C, CHR 0x0D}"

definition is_digit :: "char \<Rightarrow> bool" where
  "is_digit c \<longleftrightarrow> 48 \<le> (of_char c :: nat) \<and> (of_char c :: nat) \<le> 57"

fun digits_value :: "string \<Rightarrow> nat \<Rightarrow> nat" where
  "digits_value [] acc = acc"
| "digits_value (c # cs) acc = digits_value cs (10 * acc + (of_char c - 48))"

text \<open>
  \<open>strtol(s, &end, 10)\<close>: the value, clamped to the 64-bit \<open>long\<close>, and the text that \<open>end\<close> points to; with no digits the value is 0 and
  \<open>end\<close> is \<open>s\<close>.
\<close>

definition strtol :: "string \<Rightarrow> int \<times> string" where
  "strtol s =
     (let s1 = dropWhile is_space s;
          neg = (s1 \<noteq> [] \<and> hd s1 = CHR ''-'');
          s2 = (if s1 \<noteq> [] \<and> (hd s1 = CHR ''-'' \<or> hd s1 = CHR ''+'') then tl s1 else s1);
          ds = takeWhile is_digit s2;
          v = int (digits_value ds 0)
      in if ds = [] then (0, s)
         else (if neg then max (- (2 ^ 63)) (- v) else min (2 ^ 63 - 1) v, dropWhile is_digit s2))"

definition parse_int :: "string \<Rightarrow> int + int" where
  "parse_int s = (let (v, rest) = strtol s in if rest = s \<or> rest \<noteq> [] \<or> v < 0 then Inl 2 else Inr v)"

text \<open>\<open>static_cast<int>\<close>.\<close>

definition to_int32 :: "int \<Rightarrow> int" where
  "to_int32 v = sint (word_of_int v :: u32)"

section \<open>The configuration\<close>

record config =
  replay_path :: string
  mcast_group :: string
  mcast_port :: u16
  iface_ip :: string
  xdp_iface :: string
  xdp_queue :: u32
  xdp_native :: bool
  xdp_zero_copy :: bool
  xdp_prog :: string
  cf_symbol :: string
  stats_secs :: int
  cpu_feed :: int
  cpu_consumer :: int
  cf_latency :: bool
  cf_perf :: bool
  depth_profile :: bool
  cf_prefetch :: int
  expected_orders :: u64

definition default_config :: config where
  "default_config =
     \<lparr>replay_path = [], mcast_group = [], mcast_port = 0, iface_ip = [], xdp_iface = [], xdp_queue = 0,
      xdp_native = False, xdp_zero_copy = False, xdp_prog = [], cf_symbol = [], stats_secs = 5, cpu_feed = - 1,
      cpu_consumer = - 1, cf_latency = False, cf_perf = False, depth_profile = False, cf_prefetch = 16,
      expected_orders = push_bit 20 8\<rparr>"

section \<open>Options\<close>

text \<open>\<open>v.rfind(':')\<close>: the parts before and after the last colon.\<close>

definition split_colon :: "string \<Rightarrow> (string \<times> string) option" where
  "split_colon v =
     (if CHR '':'' \<in> set v
      then let after = takeWhile (\<lambda>c. c \<noteq> CHR '':'') (rev v)
           in Some (take (length v - length after - 1) v, rev after)
      else None)"

definition flag_option :: "string \<Rightarrow> config \<Rightarrow> config option" where
  "flag_option a c =
     (if a = ''--xdp-native'' then Some (c\<lparr>xdp_native := True\<rparr>)
      else if a = ''--xdp-zerocopy'' then Some (c\<lparr>xdp_zero_copy := True\<rparr>)
      else if a = ''--latency'' then Some (c\<lparr>cf_latency := True\<rparr>)
      else if a = ''--perf'' then Some (c\<lparr>cf_perf := True\<rparr>)
      else if a = ''--depth-profile'' then Some (c\<lparr>depth_profile := True\<rparr>)
      else None)"

definition value_options :: "string list" where
  "value_options =
     [''--replay'', ''--mcast'', ''--iface'', ''--port'', ''--xdp'', ''--xdp-prog'', ''--symbol'', ''--prefetch'', ''--stats'',
      ''--orders'', ''--cpu-feed'', ''--cpu-consumer'']"

definition with_int :: "string \<Rightarrow> (int \<Rightarrow> config) \<Rightarrow> int + config" where
  "with_int v f = (case parse_int v of Inl code \<Rightarrow> Inl code | Inr n \<Rightarrow> Inr (f n))"

definition set_mcast :: "string \<Rightarrow> config \<Rightarrow> int + config" where
  "set_mcast v c = (case split_colon v of
     None \<Rightarrow> Inl 2
   | Some (grp, prt) \<Rightarrow> with_int prt (\<lambda>n. c\<lparr>mcast_group := grp, mcast_port := word_of_int n\<rparr>))"

definition set_xdp :: "string \<Rightarrow> config \<Rightarrow> int + config" where
  "set_xdp v c = (case split_colon v of
     None \<Rightarrow> Inr (c\<lparr>xdp_iface := v\<rparr>)
   | Some (ifc, queue) \<Rightarrow> with_int queue (\<lambda>n. c\<lparr>xdp_iface := ifc, xdp_queue := word_of_int n\<rparr>))"

definition set_prefetch :: "string \<Rightarrow> config \<Rightarrow> int + config" where
  "set_prefetch v c = (case parse_int v of
     Inl code \<Rightarrow> Inl code
   | Inr n \<Rightarrow> let p = to_int32 n in
       if p \<noteq> 0 \<and> p \<noteq> 8 \<and> p \<noteq> 16 \<and> p \<noteq> 32 then Inl 2 else Inr (c\<lparr>cf_prefetch := p\<rparr>))"

definition value_option :: "string \<Rightarrow> string \<Rightarrow> config \<Rightarrow> int + config" where
  "value_option a v c =
     (if a = ''--replay'' then Inr (c\<lparr>replay_path := v\<rparr>)
      else if a = ''--mcast'' then set_mcast v c
      else if a = ''--iface'' then Inr (c\<lparr>iface_ip := v\<rparr>)
      else if a = ''--port'' then with_int v (\<lambda>n. c\<lparr>mcast_port := word_of_int n\<rparr>)
      else if a = ''--xdp'' then set_xdp v c
      else if a = ''--xdp-prog'' then Inr (c\<lparr>xdp_prog := v\<rparr>)
      else if a = ''--symbol'' then Inr (c\<lparr>cf_symbol := v\<rparr>)
      else if a = ''--prefetch'' then set_prefetch v c
      else if a = ''--stats'' then with_int v (\<lambda>n. c\<lparr>stats_secs := to_int32 n\<rparr>)
      else if a = ''--orders'' then with_int v (\<lambda>n. c\<lparr>expected_orders := word_of_int n\<rparr>)
      else if a = ''--cpu-feed'' then with_int v (\<lambda>n. c\<lparr>cpu_feed := to_int32 n\<rparr>)
      else if a = ''--cpu-consumer'' then with_int v (\<lambda>n. c\<lparr>cpu_consumer := to_int32 n\<rparr>)
      else Inl 2)"

text \<open>The loop over the arguments; an option that takes a value uses up the next argument.\<close>

fun parse_opts :: "string list \<Rightarrow> config \<Rightarrow> int + config" where
  "parse_opts [] c = Inr c"
| "parse_opts (a # rest) c = (case flag_option a c of
     Some c' \<Rightarrow> parse_opts rest c'
   | None \<Rightarrow>
       if a \<in> set value_options then
         (case rest of
            [] \<Rightarrow> Inl 2
          | v # rest' \<Rightarrow> (case value_option a v c of Inl code \<Rightarrow> Inl code | Inr c' \<Rightarrow> parse_opts rest' c'))
       else if a = ''--help'' \<or> a = ''-h'' then Inl 0
       else Inl 2)"

definition parse_args :: "string list \<Rightarrow> int + config" where
  "parse_args args = (case parse_opts args default_config of
     Inl code \<Rightarrow> Inl code
   | Inr c \<Rightarrow>
       let live = (mcast_port c \<noteq> 0) in
       if (replay_path c = []) = (\<not> live) then Inl 2
       else if xdp_iface c \<noteq> [] \<and> \<not> live then Inl 2
       else Inr c)"

section \<open>What a configuration promises\<close>

definition config_ok :: "config \<Rightarrow> bool" where
  "config_ok c \<longleftrightarrow> cf_prefetch c \<in> {0, 8, 16, 32} \<and> - (2 ^ 31) \<le> stats_secs c \<and> stats_secs c < 2 ^ 31 \<and>
     - (2 ^ 31) \<le> cpu_feed c \<and> cpu_feed c < 2 ^ 31 \<and> - (2 ^ 31) \<le> cpu_consumer c \<and> cpu_consumer c < 2 ^ 31"

lemma to_int32_range: "- (2 ^ 31) \<le> to_int32 v \<and> to_int32 v < 2 ^ 31"
  using sint_range_size [of "word_of_int v :: u32"] by (simp add: to_int32_def word_size)

lemma default_ok: "config_ok default_config"
  by (simp add: config_ok_def default_config_def)

lemma flag_ok: "flag_option a c = Some c' \<Longrightarrow> config_ok c' = config_ok c"
  by (auto simp: flag_option_def config_ok_def split: if_splits)

text \<open>A result that is exit code 2 or a configuration in order; each branch of the options gives one.\<close>

definition ok_result :: "int + config \<Rightarrow> bool" where
  "ok_result r \<longleftrightarrow> (case r of Inl code \<Rightarrow> code = 2 | Inr c \<Rightarrow> config_ok c)"

named_theorems option_oks \<open>options keep a configuration in order\<close>

lemma ok_if [option_oks]: "ok_result x \<Longrightarrow> ok_result y \<Longrightarrow> ok_result (if t then x else y)"
  by simp

lemma ok_Inl [option_oks]: "ok_result (Inl 2)"
  by (simp add: ok_result_def)

lemma ok_Inr [option_oks]: "config_ok c \<Longrightarrow> ok_result (Inr c)"
  by (simp add: ok_result_def)

lemma parse_int_code: "parse_int v = Inl code \<Longrightarrow> code = 2"
  by (auto simp: parse_int_def split: prod.splits if_splits)

lemma ok_with_int [option_oks]: "(\<And>n. config_ok (f n)) \<Longrightarrow> ok_result (with_int v f)"
  using parse_int_code by (auto simp: with_int_def ok_result_def split: sum.split)

lemma ok_mcast [option_oks]: "config_ok c \<Longrightarrow> ok_result (set_mcast v c)"
  by (auto simp: set_mcast_def config_ok_def split: option.split intro!: option_oks)

lemma ok_xdp [option_oks]: "config_ok c \<Longrightarrow> ok_result (set_xdp v c)"
  by (auto simp: set_xdp_def config_ok_def split: option.split intro!: option_oks)

lemma ok_prefetch [option_oks]: "config_ok c \<Longrightarrow> ok_result (set_prefetch v c)"
  using parse_int_code [of v] by (auto simp: set_prefetch_def config_ok_def ok_result_def Let_def split: sum.split)

lemma ok_fields [option_oks]:
  "config_ok c \<Longrightarrow> config_ok (c\<lparr>replay_path := v\<rparr>)" "config_ok c \<Longrightarrow> config_ok (c\<lparr>iface_ip := v\<rparr>)"
  "config_ok c \<Longrightarrow> config_ok (c\<lparr>xdp_prog := v\<rparr>)" "config_ok c \<Longrightarrow> config_ok (c\<lparr>cf_symbol := v\<rparr>)"
  "config_ok c \<Longrightarrow> config_ok (c\<lparr>mcast_port := w\<rparr>)" "config_ok c \<Longrightarrow> config_ok (c\<lparr>expected_orders := x\<rparr>)"
  "config_ok c \<Longrightarrow> config_ok (c\<lparr>stats_secs := to_int32 n\<rparr>)" "config_ok c \<Longrightarrow> config_ok (c\<lparr>cpu_feed := to_int32 n\<rparr>)"
  "config_ok c \<Longrightarrow> config_ok (c\<lparr>cpu_consumer := to_int32 n\<rparr>)"
  using to_int32_range by (simp_all add: config_ok_def)

lemma value_result: "config_ok c \<Longrightarrow> ok_result (value_option a v c)"
  unfolding value_option_def by (intro option_oks)

lemma value_ok: "config_ok c \<Longrightarrow> value_option a v c = Inr c' \<Longrightarrow> config_ok c'"
  using value_result [of c a v] by (simp add: ok_result_def)

lemma parse_opts_ok: "config_ok c \<Longrightarrow> parse_opts args c = Inr c' \<Longrightarrow> config_ok c'"
proof (induction args c rule: parse_opts.induct)
  case (2 a rest c)
  show ?case
  proof (cases "flag_option a c")
    case (Some c1)
    then show ?thesis using 2 flag_ok [OF Some] by simp
  next
    case None
    with "2.prems"(2) obtain v rest' c1 where r: "a \<in> set value_options" "rest = v # rest'" "value_option a v c = Inr c1"
      "parse_opts rest' c1 = Inr c'"
      by (auto split: if_split_asm list.split_asm sum.split_asm)
    then show ?thesis using "2.IH"(1) [OF None r(1,2,3)] value_ok [OF "2.prems"(1) r(3)] by blast
  qed
qed simp


lemma parse_opts_exit: "config_ok c \<Longrightarrow> parse_opts args c = Inl code \<Longrightarrow> code = 2 \<or> code = 0 \<and> (''--help'' \<in> set args \<or> ''-h'' \<in> set args)"
proof (induction args c rule: parse_opts.induct)
  case (2 a rest c)
  show ?case
  proof (cases "flag_option a c")
    case (Some c1)
    then show ?thesis using 2 flag_ok [OF Some] by auto
  next
    case None
    show ?thesis
    proof (cases "a \<in> set value_options")
      case False
      then show ?thesis using "2.prems" None by (auto split: if_split_asm)
    next
      case True
      show ?thesis
      proof (cases rest)
        case Nil
        then show ?thesis using "2.prems" None True by simp
      next
        case (Cons v rest')
        show ?thesis
        proof (cases "value_option a v c")
          case (Inl n)
          then show ?thesis using "2.prems" None True Cons value_result [OF "2.prems"(1), of a v] by (simp add: ok_result_def)
        next
          case (Inr c1)
          then show ?thesis using "2.prems" None True Cons "2.IH"(1) [OF None True Cons Inr] value_ok [OF "2.prems"(1) Inr] by auto
        qed
      qed
    qed
  qed
qed simp

text \<open>
  Whatever the arguments, a configuration that is accepted has exactly one of a file to replay and a live port, an AF_XDP
  interface only with a live port, a prefetch distance of 0, 8, 16 or 32, and its integers in the range of \<open>int\<close>; otherwise the
  program exits with code 2, or with 0 only if help was asked for.
\<close>

theorem parse_args_accepts:
  "case parse_args args of
     Inr c \<Rightarrow> ((replay_path c \<noteq> []) = (mcast_port c = 0)) \<and> (xdp_iface c = [] \<or> 0 < mcast_port c) \<and>
       cf_prefetch c \<in> {0, 8, 16, 32} \<and> stats_secs c \<in> {- (2 ^ 31)..<2 ^ 31} \<and>
       cpu_feed c \<in> {- (2 ^ 31)..<2 ^ 31} \<and> cpu_consumer c \<in> {- (2 ^ 31)..<2 ^ 31}
   | Inl code \<Rightarrow> code = 2 \<or> (code = 0 \<and> (''--help'' \<in> set args \<or> ''-h'' \<in> set args))"
proof (cases "parse_opts args default_config")
  case (Inl code)
  then show ?thesis using parse_opts_exit [OF default_ok Inl] by (simp add: parse_args_def)
next
  case (Inr c)
  have ok: "config_ok c" by (rule parse_opts_ok [OF default_ok Inr])
  show ?thesis
  proof (cases "(replay_path c = []) = (mcast_port c = 0) \<or> (xdp_iface c \<noteq> [] \<and> mcast_port c = 0)")
    case True
    then have "parse_args args = Inl 2" by (auto simp: parse_args_def Inr Let_def)
    then show ?thesis by simp
  next
    case False
    then have "parse_args args = Inr c" by (auto simp: parse_args_def Inr Let_def)
    then show ?thesis using False ok by (auto simp: config_ok_def word_gt_0)
  qed
qed


text \<open>
  Ports are not checked against their width: a port number of 65536 or more is silently reduced modulo \<open>2\<^sup>1\<^sup>6\<close>. Given as
  \<open>--port 65537\<close> it is accepted as port 1, and \<open>--port 65536\<close> is refused as if no port had been given.
\<close>

theorem port_wraps:
  "parse_args [''--port'', ''65537''] = Inr (default_config\<lparr>mcast_port := 1\<rparr>) \<and> parse_args [''--port'', ''65536''] = Inl 2"
proof -
  have d: "parse_int ''65537'' = Inr 65537" "parse_int ''65536'' = Inr 65536"
    by (simp_all add: parse_int_def strtol_def Let_def is_space_def is_digit_def)
  have f: "flag_option ''--port'' c = None" "''--port'' \<in> set value_options" for c
    by (simp_all add: flag_option_def value_options_def)
  have v: "value_option ''--port'' x c = with_int x (\<lambda>n. c\<lparr>mcast_port := word_of_int n\<rparr>)" for x c
    by (simp add: value_option_def)
  show ?thesis by (simp add: parse_args_def f v with_int_def d) (simp add: default_config_def)
qed

end
