(* ===== verification/Feed_Handler.thy ===== *)
theory Feed_Handler
  imports Publisher Mold Histogram
begin

text \<open>
  The loops of \<^verbatim>\<open>tools/feed_handler_main.cpp\<close>: replay of a file in slices, replay with latency measurement,
  the live loop over received packets, and the consumer of the event ring. What the environment decides is a parameter: \<open>running k\<close> says
  that no signal has come before iteration \<open>k\<close>, the time-stamp counter is read from a function, the received packets are a list of
  polls. Printing, thread pinning and the performance counters are left out.
\<close>

section \<open>Replay in slices\<close>

definition kSlice :: nat where
  "kSlice = 64 * 2 ^ 20"

definition parse_slice :: "int \<Rightarrow> 'h handler \<Rightarrow> mem \<Rightarrow> nat \<Rightarrow> 'h parser \<Rightarrow> ('h parser \<times> nat) option" where
  "parse_slice pf H p n P =
     (if pf = 8 \<or> pf = 16 \<or> pf = 32
      then do { (P', used, _) \<leftarrow> parse_stream_prefetch (nat pf) H p n P; Some (P', used) }
      else parse_stream H p n P)"

text \<open>The loop from offset \<open>off\<close>; the result is the parser and the offset reached.\<close>

function replay_from ::
  "nat \<Rightarrow> (nat \<Rightarrow> bool) \<Rightarrow> int \<Rightarrow> 'h handler \<Rightarrow> mem \<Rightarrow> nat \<Rightarrow> nat \<Rightarrow> nat \<Rightarrow> 'h parser \<Rightarrow> ('h parser \<times> nat) option" where
  "replay_from chunk running pf H buf len k off P =
     (if off < len \<and> running k then do {
        let n = min chunk (len - off);
        (P', used) \<leftarrow> parse_slice pf H (drop off buf) n P;
        if used = 0 then Some (P', off)
        else replay_from chunk running pf H buf len (k + 1) (off + used) P' }
      else Some (P, off))"
  by pat_completeness auto
termination
  by (relation "measure (\<lambda>(_, _, _, _, _, len, _, off, _). len - off)") auto

declare replay_from.simps [simp del]

definition run_replay :: "(nat \<Rightarrow> bool) \<Rightarrow> int \<Rightarrow> 'h handler \<Rightarrow> mem \<Rightarrow> 'h parser \<Rightarrow> ('h parser \<times> nat) option" where
  "run_replay running pf H buf P = replay_from kSlice running pf H buf (length buf) 0 0 P"

section \<open>Replay with latencies\<close>

text \<open>\<open>tsc k\<close> gives the two readings around message \<open>k\<close>.\<close>

function latency_from ::
  "(nat \<Rightarrow> bool) \<Rightarrow> (nat \<Rightarrow> u64 \<times> u64) \<Rightarrow> 'h handler \<Rightarrow> mem \<Rightarrow> nat \<Rightarrow> nat \<Rightarrow> nat \<Rightarrow> 'h parser \<times> histogram \<Rightarrow>
     ('h parser \<times> histogram) option" where
  "latency_from running tsc H buf len k off PH =
     (if off + 2 \<le> len \<and> running k then do {
        n \<leftarrow> load_be16 buf off;
        if off + 2 + unat n > len then Some PH
        else do {
          let (t0, t1) = tsc k;
          P' \<leftarrow> parse H buf (off + 2) (unat n) (fst PH);
          h' \<leftarrow> hist_record (t1 - t0) (snd PH);
          latency_from running tsc H buf len (k + 1) (off + 2 + unat n) (P', h') } }
      else Some PH)"
  by pat_completeness auto
termination
  by (relation "measure (\<lambda>(_, _, _, _, len, _, off, _). len - off)") auto

declare latency_from.simps [simp del]

section \<open>The live loop\<close>

record 'h live =
  lv_running :: bool
  lv_seq :: mold_sequencer
  lv_gaps :: u64
  lv_lost :: u64
  lv_parser :: "'h parser"

text \<open>A packet is its time stamp and its payload; \<open>set_tsc\<close> is \<open>pub.set_recv_tsc\<close>.\<close>

definition live_packet :: "(u64 \<Rightarrow> 'h \<Rightarrow> 'h) \<Rightarrow> 'h handler \<Rightarrow> u64 \<times> mem \<Rightarrow> 'h live \<Rightarrow> 'h live option" where
  "live_packet set_tsc H = (\<lambda>(tsc, pkt) L. do {
     let P = (lv_parser L)\<lparr>handler_state := set_tsc tsc (handler_state (lv_parser L))\<rparr>;
     (S', r, dl) \<leftarrow> on_packet pkt (length pkt) (lv_seq L);
     P' \<leftarrow> foldO (\<lambda>(p, n, _). parse H pkt p n) dl P;
     let L1 = L\<lparr>lv_seq := S', lv_parser := P'\<rparr>;
     let L2 = (if gap_count r \<noteq> 0 then L1\<lparr>lv_gaps := lv_gaps L1 + 1, lv_lost := lv_lost L1 + gap_count r\<rparr> else L1);
     Some (if end_of_session r then L2\<lparr>lv_running := False\<rparr> else L2) })"

fun live_loop ::
  "(u64 \<Rightarrow> 'h \<Rightarrow> 'h) \<Rightarrow> 'h handler \<Rightarrow> (nat \<Rightarrow> bool) \<Rightarrow> nat \<Rightarrow> (u64 \<times> mem) list list \<Rightarrow> 'h live \<Rightarrow> 'h live option" where
  "live_loop set_tsc H running k [] L = Some L"
| "live_loop set_tsc H running k (poll # polls) L =
     (if lv_running L \<and> running k then do {
        L' \<leftarrow> foldO (live_packet set_tsc H) poll L;
        live_loop set_tsc H running (k + 1) polls L' }
      else Some L)"

definition publisher_tsc :: "u64 \<Rightarrow> publisher option builder \<Rightarrow> publisher option builder" where
  "publisher_tsc t B = B\<lparr>bb_sink := map_option (set_recv_tsc t) (bb_sink B)\<rparr>"

section \<open>The consumer\<close>

definition hook :: "book_event \<Rightarrow> u64 \<Rightarrow> u64" where
  "hook e c = c + ucast (be_bid_price e XOR be_ask_price e)"

text \<open>
  \<open>feed_done k\<close> is what iteration \<open>k\<close> reads from the flag. The loop may spin for ever, so it is given a number of iterations;
  \<open>None\<close> says that it did not end within them.
\<close>

fun consumer_loop :: "nat \<Rightarrow> (nat \<Rightarrow> bool) \<Rightarrow> nat \<Rightarrow> book_event spsc \<times> u64 \<times> u64 \<Rightarrow> (book_event spsc \<times> u64 \<times> u64) option" where
  "consumer_loop 0 feed_done k s = None"
| "consumer_loop (Suc fuel) feed_done k (r, n, c) =
     (let (es, r') = pop_batch kRingSlots 256 r;
          s' = (r', n + of_nat (length es), fold hook es c)
      in if es = [] \<and> feed_done k \<and> size_approx r' = 0 then Some s'
         else consumer_loop fuel feed_done (k + 1) s')"

section \<open>Slices cut no record\<close>

lemma parse_slice_builder:
  assumes "n \<le> length p"
  shows "parse_slice pf (bb_handler alloc b S) p n P = parse_stream (bb_handler alloc b S) p n P"
proof (cases "pf = 8 \<or> pf = 16 \<or> pf = 32")
  case True
  then have "0 < nat pf" by auto
  then show ?thesis
    using True builder.parse_stream_prefetch_eq [OF assms, of "nat pf" alloc b S P]
    by (cases "parse_stream (bb_handler alloc b S) p n P") (auto simp: parse_slice_def)
next
  case False
  then show ?thesis by (simp add: parse_slice_def)
qed

text \<open>What is left of a buffer is shorter than a prefix and the longest record.\<close>

lemma rest_short: "frames xs = (fs, rest) \<Longrightarrow> length rest < 65537"
proof -
  assume f: "frames xs = (fs, rest)"
  have "unat (be_word (take 2 rest) :: u16) < 2 ^ 16" by (rule order_less_le_trans [OF unsigned_less]) simp
  then show ?thesis using frames_rest [OF f] by (cases "2 \<le> length rest") auto
qed

lemma frames_of_prefix:
  assumes "frames (take n xs) = (fs1, r1)" "n \<le> length xs"
  defines "used \<equiv> n - length r1"
  shows "used + length r1 = n" "take used xs = concat (map framed fs1)" "used = 0 \<Longrightarrow> fs1 = []"
    "frames (drop used xs) = (fs2, r2) \<Longrightarrow> frames xs = (fs1 @ fs2, r2)"
proof -
  have p: "take n xs = concat (map framed fs1) @ r1" by (rule frames_partition [OF assms(1)])
  have l: "n = length (concat (map framed fs1)) + length r1"
    using arg_cong [OF p, of length] assms(2) by simp
  show u: "used + length r1 = n" using l by (simp add: used_def)
  have ul: "used = length (concat (map framed fs1))" using l by (simp add: used_def)
  have "take used (take n xs) = concat (map framed fs1)" unfolding p ul by simp
  then show t: "take used xs = concat (map framed fs1)" using u by (simp add: min_def)
  show "used = 0 \<Longrightarrow> fs1 = []" using ul by (cases fs1) (simp_all add: framed_def)
  show "frames xs = (fs1 @ fs2, r2)" if "frames (drop used xs) = (fs2, r2)"
  proof -
    have "xs = concat (map framed fs1) @ drop used xs" using t by (metis append_take_drop_id)
    moreover have "\<forall>bs \<in> set fs1. length bs < 2 ^ 16" using frames_length [OF assms(1)] by blast
    ultimately show ?thesis using frames_concat [of fs1 "drop used xs"] that by simp
  qed
qed

lemma replay_from_eq:
  assumes "65537 \<le> chunk" "len \<le> length buf" "\<And>k. running k" "off \<le> len"
  shows "replay_from chunk running pf (bb_handler alloc b S) buf len k off P =
    (let (fs, rest) = frames (drop off (take len buf))
     in do { P' \<leftarrow> foldO (\<lambda>bs. apply_verdict (bb_handler alloc b S) (classify bs)) fs P; Some (P', len - length rest) })"
  using assms(4)
proof (induction "len - off" arbitrary: k off P rule: less_induct)
  case less
  let ?H = "bb_handler alloc b S" and ?x = "drop off (take len buf)" and ?n = "min chunk (len - off)"
  let ?run = "foldO (\<lambda>bs. apply_verdict ?H (classify bs))"
  have lx: "length ?x = len - off" using assms(2) by simp
  show ?case
  proof (cases "off < len")
    case False
    then have "frames ?x = ([], [])" by (simp add: frames_incomplete incomplete_def)
    then show ?thesis using False less.prems by (subst replay_from.simps) simp
  next
    case True
    obtain fs1 r1 where f1: "frames (take ?n ?x) = (fs1, r1)" by fastforce
    let ?used = "?n - length r1"
    note pre = frames_of_prefix [OF f1]
    have nx: "?n \<le> length ?x" using lx by simp
    have tk: "take ?n (drop off buf) = take ?n ?x"
      unfolding drop_take take_take by (simp only: min.assoc min.idem)
    have ps: "parse_slice pf ?H (drop off buf) ?n P = do { P' \<leftarrow> ?run fs1 P; Some (P', ?used) }"
    proof -
      have nb: "?n \<le> length (drop off buf)" using assms(2) by simp
      show ?thesis unfolding parse_slice_builder [OF nb] parse_stream_cut [OF nb] tk f1 Let_def prod.case by (rule refl)
    qed
    show ?thesis
    proof (cases "?used = 0")
      case zero: True
      have fs1: "fs1 = []" using pre(3) [OF nx] zero by simp
      have "?n = len - off"
      proof (rule ccontr)
        assume "?n \<noteq> len - off"
        then have "?n = chunk" by simp
        then show False using pre(1) [OF nx] zero rest_short [OF f1] assms(1) by simp
      qed
      then have fx: "frames ?x = ([], ?x)"
        using f1 fs1 lx pre(1) [OF nx] zero frames_partition [OF f1] by simp
      show ?thesis
        using True assms(3) zero less.prems by (subst replay_from.simps) (simp add: ps fs1 fx Let_def assms(2))
    next
      case pos: False
      obtain fs2 r2 where f2: "frames (drop ?used ?x) = (fs2, r2)" by fastforce
      have fx: "frames ?x = (fs1 @ fs2, r2)" by (rule pre(4) [OF nx f2])
      have o: "off + ?used \<le> len" using True by simp
      have IH: "replay_from chunk running pf ?H buf len (Suc k) (off + ?used) P1 =
          do { P' \<leftarrow> ?run fs2 P1; Some (P', len - length r2) }" for P1
        using less.hyps [OF _ o, of "Suc k" P1] pos True f2 by (simp add: add.commute)
      show ?thesis
        using True assms(3) pos
        by (subst replay_from.simps) (simp add: ps fx Let_def IH foldO_append)
    qed
  qed
qed


section \<open>One latency sample per record\<close>

lemma latency_from_eq:
  assumes "len \<le> length buf" "\<And>k. running k" "hist_rep h vs"
  shows "parse_stream_from H buf len off P = Some (P', e) \<Longrightarrow>
    \<exists>h'. latency_from running tsc H buf len k off (P, h) = Some (P', h') \<and>
      hist_rep h' (vs @ map (\<lambda>i. snd (tsc i) - fst (tsc i)) [k..<k + length (fst (recs buf len off))])"
  using assms
proof (induction H buf len off P arbitrary: k h vs rule: parse_stream_from.induct)
  case (1 H buf len off P)
  obtain rs e' where r: "recs buf len off = (rs, e')" by fastforce
  from r show ?case
  proof (cases rule: recs_unfold)
    case last
    have ps: "P' = P"
      using "1.prems"(1) last(3) "1.prems"(2)
      by (subst (asm) parse_stream_from.simps) (auto simp: load_be16_in split: if_splits)
    have "latency_from running tsc H buf len k off (P, h) = Some (P, h)"
      using last(3) "1.prems"(2) by (subst latency_from.simps) (auto simp: load_be16_in)
    then show ?thesis using ps last(1) r "1.prems"(4) by simp
  next
    case (more n rs')
    let ?w = "be_word (take 2 (drop off buf)) :: u16"
    have ld: "off + 2 \<le> len" "load_be16 buf off = Some ?w" "unat ?w = n" "\<not> len < off + 2 + unat ?w"
      using more(3,4) "1.prems"(2) by (auto simp: load_be16_in)
    obtain P1 where P1: "parse H buf (off + 2) n P = Some P1" "parse_stream_from H buf len (off + 2 + n) P1 = Some (P', e)"
      using "1.prems"(1) ld by (subst (asm) parse_stream_from.simps) (auto simp: bind_eq_Some_conv)
    let ?d = "snd (tsc k) - fst (tsc k)"
    obtain h1 where h1: "hist_record ?d h = Some h1" "hist_rep h1 (vs @ [?d])" using record_rep [OF "1.prems"(4)] by blast
    obtain h' where h': "latency_from running tsc H buf len (Suc k) (off + 2 + n) (P1, h1) = Some (P', h')"
      "hist_rep h' ((vs @ [?d]) @ map (\<lambda>i. snd (tsc i) - fst (tsc i)) [Suc k..<Suc k + length rs'])"
      using "1.IH" [OF ld(1,2,4), unfolded ld(3), OF P1 "1.prems"(2,3) h1(2), of "Suc k"] unfolding more(2) fst_conv by blast
    have "latency_from running tsc H buf len k off (P, h) = Some (P', h')"
      using ld P1(1) h1(1) h'(1) "1.prems"(3) by (subst latency_from.simps) (simp add: case_prod_beta Let_def)
    moreover have "[k..<k + length (fst (recs buf len off))] = k # [Suc k..<Suc k + length rs']"
      using r more(1) by (simp add: upt_conv_Cons del: upt_Suc)
    ultimately show ?thesis using h'(2) by (simp del: upt_Suc)
  qed
qed

section \<open>The live loop over packets\<close>

text \<open>The loop stops only between polls: it has processed the packets of the polls before.\<close>

lemma live_loop_prefix:
  "live_loop set_tsc H running k polls L = Some L' \<Longrightarrow>
     \<exists>j \<le> length polls. foldO (live_packet set_tsc H) (concat (take j polls)) L = Some L' \<and>
       (j = length polls \<or> \<not> lv_running L' \<or> \<not> running (k + j))"
proof (induction set_tsc H running k polls L rule: live_loop.induct)
  case (2 set_tsc H running k poll polls L)
  show ?case
  proof (cases "lv_running L \<and> running k")
    case False
    then show ?thesis using "2.prems" by (intro exI [of _ 0]) auto
  next
    case True
    then obtain L1 where L1: "foldO (live_packet set_tsc H) poll L = Some L1"
      "live_loop set_tsc H running (k + 1) polls L1 = Some L'" using "2.prems" by (auto simp: bind_eq_Some_conv)
    from "2.IH" [OF True L1] obtain j where "j \<le> length polls"
      "foldO (live_packet set_tsc H) (concat (take j polls)) L1 = Some L'"
      "j = length polls \<or> \<not> lv_running L' \<or> \<not> running (k + 1 + j)" by blast
    then show ?thesis using L1(1) by (intro exI [of _ "Suc j"]) (simp add: foldO_append)
  qed
qed simp


text \<open>The parser accounts for every call, whatever the record.\<close>

definition parsed :: "'h parser \<Rightarrow> u64" where
  "parsed P = messages (stats P) + unknown_type (stats P) + bad_length (stats P) + empty (stats P)"

lemma call_table_stats: "call_table H ty buf p P = Some P' \<Longrightarrow> stats P' = stats P"
  by (auto simp: call_table_def bind_eq_Some_conv split: option.splits)

lemma parse_counts: "parse H buf p n P = Some P' \<Longrightarrow> parsed P' = parsed P + 1"
  by (auto simp: parse_def parsed_def Let_def bind_eq_Some_conv dest!: call_table_stats split: if_splits option.splits)

lemma deliveries_count:
  "foldO (\<lambda>(p, n, _). parse H pkt p n) dl P = Some P' \<Longrightarrow> parsed P' = parsed P + of_nat (length dl)"
proof (induction dl arbitrary: P)
  case (Cons d dl)
  then show ?case using parse_counts [of H pkt "fst d" "fst (snd d)" P]
    by (cases d) (auto simp: bind_eq_Some_conv)
qed simp

lemma live_packet_counts:
  assumes "live_packet set_tsc H (tsc, pkt) L = Some L'"
  shows "\<exists>S' r dl. on_packet pkt (length pkt) (lv_seq L) = Some (S', r, dl) \<and> lv_seq L' = S' \<and>
    lv_lost L' = lv_lost L + gap_count r \<and> lv_gaps L' = lv_gaps L + (if gap_count r \<noteq> 0 then 1 else 0) \<and>
    parsed (lv_parser L') = parsed (lv_parser L) + of_nat (length dl)"
proof -
  let ?P = "(lv_parser L)\<lparr>handler_state := set_tsc tsc (handler_state (lv_parser L))\<rparr>"
  obtain S' r dl P' where 1: "on_packet pkt (length pkt) (lv_seq L) = Some (S', r, dl)"
    "foldO (\<lambda>(p, n, _). parse H pkt p n) dl ?P = Some P'"
    using assms by (auto simp: live_packet_def Let_def bind_eq_Some_conv)
  have "parsed P' = parsed (lv_parser L) + of_nat (length dl)"
    using deliveries_count [OF 1(2)] by (simp add: parsed_def)
  then show ?thesis using assms 1 by (auto simp: live_packet_def Let_def)
qed

lemma live_fold_counts:
  assumes "foldO (live_packet set_tsc H) ps L = Some L'"
  shows "\<exists>ds gs. mold_run (map snd ps) (lv_seq L) = Some (lv_seq L', ds, gs) \<and>
    lv_lost L' = lv_lost L + of_nat (sum_list (map snd gs)) \<and>
    lv_gaps L' = lv_gaps L + of_nat (length (filter (\<lambda>g. snd g \<noteq> 0) gs)) \<and>
    parsed (lv_parser L') = parsed (lv_parser L) + of_nat (length ds)"
  using assms
proof (induction ps arbitrary: L)
  case (Cons q ps)
  obtain tsc pkt where q: "q = (tsc, pkt)" by fastforce
  obtain L1 where L1: "live_packet set_tsc H (tsc, pkt) L = Some L1" "foldO (live_packet set_tsc H) ps L1 = Some L'"
    using Cons.prems by (auto simp: q bind_eq_Some_conv)
  obtain S' r dl where 1: "on_packet pkt (length pkt) (lv_seq L) = Some (S', r, dl)" "lv_seq L1 = S'"
    "lv_lost L1 = lv_lost L + gap_count r" "lv_gaps L1 = lv_gaps L + (if gap_count r \<noteq> 0 then 1 else 0)"
    "parsed (lv_parser L1) = parsed (lv_parser L) + of_nat (length dl)" using live_packet_counts [OF L1(1)] by blast
  obtain ds gs where 2: "mold_run (map snd ps) S' = Some (lv_seq L', ds, gs)"
    "lv_lost L' = lv_lost L1 + of_nat (sum_list (map snd gs))"
    "lv_gaps L' = lv_gaps L1 + of_nat (length (filter (\<lambda>g. snd g \<noteq> 0) gs))"
    "parsed (lv_parser L') = parsed (lv_parser L1) + of_nat (length ds)" using Cons.IH [OF L1(2)] 1(2) by blast
  let ?g = "(unat (gap_first r), unat (gap_count r))"
  have "mold_run (map snd (q # ps)) (lv_seq L) = Some (lv_seq L', seqs dl @ ds, ?g # gs)" by (simp add: q 1(1) 2(1))
  moreover have "unat (gap_count r) \<noteq> 0 \<longleftrightarrow> gap_count r \<noteq> 0" by (simp add: unat_eq_zero)
  moreover have "length (seqs dl) = length dl" by (simp add: seqs_def)
  ultimately show ?case
    using 1(3-5) 2(2-4) by (intro exI [of _ "seqs dl @ ds"] exI [of _ "?g # gs"]) (simp add: add.assoc)
qed simp

text \<open>Nothing received can stop the loop abnormally, or make it read outside a packet.\<close>

lemma live_packet_returns:
  assumes "I (handler_state (lv_parser L))" "\<And>t h. I h \<Longrightarrow> I (set_tsc t h)"
    and op: "\<And>m h. I h \<Longrightarrow> handles H (mtype_of m) \<Longrightarrow> \<exists>h'. on_msg H m h = Some h' \<and> I h'"
  shows "\<exists>L'. live_packet set_tsc H (tsc, pkt) L = Some L' \<and> I (handler_state (lv_parser L'))"
proof -
  let ?P = "(lv_parser L)\<lparr>handler_state := set_tsc tsc (handler_state (lv_parser L))\<rparr>"
  obtain S' r dl where 1: "on_packet pkt (length pkt) (lv_seq L) = Some (S', r, dl)" "inside (length pkt) dl"
    using on_packet_total [OF order_refl, of pkt "lv_seq L"] by blast
  have "\<exists>P'. foldO (\<lambda>(p, n, _). parse H pkt p n) dl ?P = Some P' \<and> I (handler_state P')"
  proof (rule foldO_total [where I = "\<lambda>P. I (handler_state P)"])
    fix d and P :: "'a parser"
    assume "d \<in> set dl" "I (handler_state P)"
    moreover obtain p n s where "d = (p, n, s)" by (metis prod_cases3)
    ultimately show "\<exists>P'. (case d of (p, n, _) \<Rightarrow> parse H pkt p n) P = Some P' \<and> I (handler_state P')"
      using 1(2) parse_returns [where I = I, OF _ _ op] by (fastforce simp: list_all_iff)
  qed (simp add: assms)
  then show ?thesis using 1(1) by (auto simp: live_packet_def Let_def)
qed

lemma live_loop_returns:
  assumes "I (handler_state (lv_parser L))" "\<And>t h. I h \<Longrightarrow> I (set_tsc t h)"
    and "\<And>m h. I h \<Longrightarrow> handles H (mtype_of m) \<Longrightarrow> \<exists>h'. on_msg H m h = Some h' \<and> I h'"
  shows "\<exists>L'. live_loop set_tsc H running k polls L = Some L' \<and> I (handler_state (lv_parser L'))"
  using assms(1)
proof (induction polls arbitrary: k L)
  case (Cons poll polls)
  have "\<exists>L'. foldO (live_packet set_tsc H) poll L = Some L' \<and> I (handler_state (lv_parser L'))"
    using live_packet_returns [where I = I, OF _ assms(2,3)] Cons.prems
    by (intro foldO_total [where I = "\<lambda>L. I (handler_state (lv_parser L))"]) auto
  then show ?case using Cons by auto
qed simp

section \<open>The consumer drains the ring\<close>

lemma size_of_queue:
  assumes "ring_queue N r xs"
  shows "size_approx r = of_nat (length xs)"
  using assms by (auto simp: ring_queue_def rep_def size_approx_def)

lemma consumer_drains_aux:
  assumes "ring_queue kRingSlots r xs" "length xs < fuel" "\<And>k. feed_done k"
  shows "\<exists>r'. consumer_loop fuel feed_done k (r, n, c) = Some (r', n + of_nat (length xs), fold hook xs c) \<and>
    ring_queue kRingSlots r' []"
  using assms(1,2)
proof (induction fuel arbitrary: r xs k n c)
  case (Suc fuel)
  obtain es r' where p: "pop_batch kRingSlots 256 r = (es, r')" by fastforce
  obtain zs where z: "xs = es @ zs" "ring_queue kRingSlots r' zs" "es = [] \<longrightarrow> xs = []"
    using batch_spec [OF Suc.prems(1) p] by auto
  show ?case
  proof (cases "es = []")
    case True
    then have "size_approx r' = 0" "xs = []" using z size_of_queue [OF z(2)] by simp_all
    then show ?thesis using True z assms(3) by (simp add: p)
  next
    case False
    have "length zs < fuel" using Suc.prems(2) z(1) False by (cases es) simp_all
    from Suc.IH [OF z(2) this, of "Suc k" "n + of_nat (length es)" "fold hook es c"] show ?thesis
      using False z(1) by (auto simp: p add.assoc)
  qed
qed simp

section \<open>Properties\<close>

text \<open>
  C29. Replaying a file in slices of 64 MiB, with any of the prefetch distances, is parsing it whole: the slices cut no record, so
  the parser and its handler end in the same state and the same bytes are consumed, up to the trailing partial record.
\<close>

theorem replay_parses_whole_file:
  assumes "\<And>k. running k"
  shows "run_replay running pf (bb_handler alloc b S) buf P = parse_stream (bb_handler alloc b S) buf (length buf) P"
  using replay_from_eq [of kSlice "length buf" buf running 0 pf alloc b S 0 P] assms
    parse_stream_cut [of "length buf" buf "bb_handler alloc b S" P]
  by (simp add: run_replay_def kSlice_def)

text \<open>
  Measuring latencies changes nothing in what is parsed, and records exactly one sample per record: the difference of the
  two readings around its call.
\<close>

theorem latency_one_sample_per_record:
  assumes "\<And>k. running k" "parse_stream H buf (length buf) P = Some (P', e)" "frames buf = (fs, rest)"
  shows "\<exists>h. latency_from running tsc H buf (length buf) 0 0 (P, new_histogram) = Some (P', h) \<and>
    hist_rep h (map (\<lambda>i. snd (tsc i) - fst (tsc i)) [0..<length fs])"
proof -
  have "length (fst (recs buf (length buf) 0)) = length fs"
    using recs_frames [of "length buf" buf 0] assms(3) by simp
  then show ?thesis
    using latency_from_eq [OF order_refl, where H = H and buf = buf and tsc = tsc and P' = P' and P = P and e = e and off = 0
        and vs = "[]" and k = 0 and running = running and h = new_histogram] assms(1,2) new_histogram_rep
    by (simp add: parse_stream_def)
qed



text \<open>
  Whatever bytes are received, the live loop ends normally and reads inside the packets only, when the operations of the handler do:
  an invariant \<open>I\<close> of the handler under which they end, and which they keep, is kept by the whole loop.
\<close>

theorem live_loop_total:
  assumes "I (handler_state (lv_parser L))" "\<And>t h. I h \<Longrightarrow> I (set_tsc t h)"
    and "\<And>m h. I h \<Longrightarrow> handles H (mtype_of m) \<Longrightarrow> \<exists>h'. on_msg H m h = Some h' \<and> I h'"
  shows "\<exists>L'. live_loop set_tsc H running 0 polls L = Some L' \<and> I (handler_state (lv_parser L'))"
  using assms by (rule live_loop_returns)

section \<open>Witnesses\<close>

theorem replay_parses_whole_file_witness:
  "\<forall>P. run_replay (\<lambda>_. True) 16 (bb_handler (\<lambda>_. True) Have_AVX2 publisher_sink) delete_record P =
    parse_stream (bb_handler (\<lambda>_. True) Have_AVX2 publisher_sink) delete_record 21 P"
  using replay_parses_whole_file [of "\<lambda>_. True" 16 "\<lambda>_. True" Have_AVX2 publisher_sink delete_record]
  by (simp add: delete_record_def)

theorem latency_one_sample_per_record_witness:
  "\<exists>P' h. latency_from (\<lambda>_. True) (\<lambda>i. (of_nat (100 * i), of_nat (100 * i + 40))) skip_handler delete_record 21 0 0
      (new_parser (), new_histogram) = Some (P', h) \<and> hist_rep h [40]"
proof -
  have l: "length delete_record = 21" "take 21 delete_record = delete_record" by (simp_all add: delete_record_def)
  have f: "frames delete_record = ([drop 2 delete_record], [])" using sample_frames unfolding l(2) .
  obtain P' e where p: "parse_stream skip_handler delete_record (length delete_record) (new_parser ()) = Some (P', e)"
    using parse_stream_cut [of 21 delete_record skip_handler "new_parser ()"] f l
    by (cases "classify (drop 2 delete_record)") (auto simp: skip_handler_def wanted_def Let_def)
  have e: "[0..<length [drop 2 delete_record]] = [0]" by simp
  from latency_one_sample_per_record [OF _ p f, of "\<lambda>_. True" "\<lambda>i. (of_nat (100 * i), of_nat (100 * i + 40))"]
  show ?thesis unfolding e l(1) by auto
qed

text \<open>A session \<open>A...A\<close> in which number 5 is expected when the packet with 7 and 8 comes, twice.\<close>

definition sample_live :: "unit live" where
  "sample_live = \<lparr>lv_running = True, lv_seq = \<lparr>seq_session = replicate 10 65, seq_next = 5\<rparr>, lv_gaps = 0, lv_lost = 0,
     lv_parser = new_parser ()\<rparr>"

abbreviation sample_polls :: "(u64 \<times> mem) list list" where
  "sample_polls \<equiv> [[(1, sample_packet)], [(2, [0]), (3, sample_packet)]]"

theorem live_loop_total_witness:
  "\<exists>L'. live_loop (\<lambda>_ h. h) skip_handler (\<lambda>_. True) 0 sample_polls sample_live = Some L'"
  using live_loop_total [of "\<lambda>_. True" sample_live "\<lambda>_ h. h" skip_handler "\<lambda>_. True" sample_polls]
  by (auto simp: skip_handler_def)


definition sample_event :: book_event where
  "sample_event = \<lparr>be_timestamp = 9, be_recv_tsc = 1, be_ref = 42, be_bid_qty = 100, be_ask_qty = 0, be_price = 5000, be_shares = 100,
     be_bid_price = 5000, be_ask_price = 0xFFFFFFFF, be_locate = 7, be_kind = KAdd, be_side = 0x42\<rparr>"


end
