(* ===== verification/Synthetic_Feed.thy ===== *)
theory Synthetic_Feed
  imports Book_Builder Complex_Main
begin

text \<open>
  \<^verbatim>\<open>include/itch/sim/synthetic_feed.hpp\<close>: the generator of self-consistent sessions. The random engine and the distributions of
  the standard library are a parameter, a record of draw functions; what is relied on is that an integer is drawn from its range.
  The \<open>double\<close>s are reals, so that rounding is left out; only the choice of a symbol and of a branch depends on them, and
  every choice is covered. \<open>None\<close> is an index outside a vector.
\<close>

section \<open>Random draws\<close>

record 'g rng_ops =
  rng_seed :: "u64 \<Rightarrow> 'g"
  rng_next :: "'g \<Rightarrow> u64 \<times> 'g"
  uniform_int :: "nat \<Rightarrow> nat \<Rightarrow> 'g \<Rightarrow> nat \<times> 'g"
  uniform_real :: "'g \<Rightarrow> real \<times> 'g"
  geometric :: "real \<Rightarrow> 'g \<Rightarrow> u32 \<times> 'g"
  bernoulli :: "real \<Rightarrow> 'g \<Rightarrow> bool \<times> 'g"
  std_pow :: "real \<Rightarrow> real \<Rightarrow> real"

definition draws_in_range :: "'g rng_ops \<Rightarrow> bool" where
  "draws_in_range R \<longleftrightarrow> (\<forall>lo hi g. lo \<le> hi \<longrightarrow> fst (uniform_int R lo hi g) \<in> {lo..hi})"

section \<open>State\<close>

record feed_config =
  cfg_symbols :: nat
  cfg_events :: nat
  cfg_initial_orders :: nat
  cfg_zipf_s :: real
  cfg_depth_p :: real
  cfg_seed :: u64

record live_order =
  lo_ref :: u64
  lo_price :: u32
  lo_shares :: u32
  lo_side :: u8

record feed_symbol =
  sym_mid :: u32
  sym_live :: "live_order list"

record 'g feed =
  sf_rng :: 'g
  sf_syms :: "feed_symbol list"
  sf_cdf :: "real list"
  sf_out :: mem
  sf_next_ref :: u64
  sf_next_match :: u64
  sf_ts :: u64
  sf_messages :: u64

definition kTick :: u32 where
  "kTick = 100"

definition new_feed :: "feed_config \<Rightarrow> 'g rng_ops \<Rightarrow> 'g feed" where
  "new_feed c R = \<lparr>sf_rng = rng_seed R (cfg_seed c), sf_syms = [], sf_cdf = [], sf_out = [], sf_next_ref = 1,
     sf_next_match = 1, sf_ts = 34200000000000, sf_messages = 0\<rparr>"

text \<open>A draw takes its value from the engine and leaves the engine advanced.\<close>

definition draw :: "('g \<Rightarrow> 'a \<times> 'g) \<Rightarrow> 'g feed \<Rightarrow> 'a \<times> 'g feed" where
  "draw f F = (let (x, g) = f (sf_rng F) in (x, F\<lparr>sf_rng := g\<rparr>))"

definition sym_at :: "'g feed \<Rightarrow> nat \<Rightarrow> feed_symbol option" where
  "sym_at F s = (if s < length (sf_syms F) then Some (sf_syms F ! s) else None)"

definition live_at :: "feed_symbol \<Rightarrow> nat \<Rightarrow> live_order option" where
  "live_at s i = (if i < length (sym_live s) then Some (sym_live s ! i) else None)"

definition set_live :: "nat \<Rightarrow> (live_order list \<Rightarrow> live_order list) \<Rightarrow> 'g feed \<Rightarrow> 'g feed" where
  "set_live s f F = F\<lparr>sf_syms := (sf_syms F)[s := sym_live_update f (sf_syms F ! s)]\<rparr>"

section \<open>Symbols and prices\<close>

definition cdf_of :: "feed_config \<Rightarrow> 'g rng_ops \<Rightarrow> real list" where
  "cdf_of c R =
     (let step = (\<lambda>i (acc, cdf). let a = acc + 1 / std_pow R (real (i + 1)) (cfg_zipf_s c) in (a, cdf @ [a]));
          (acc, cdf) = fold step [0..<cfg_symbols c] (0, [])
      in map (\<lambda>x. x / acc) cdf)"

definition draw_mid :: "'g rng_ops \<Rightarrow> nat \<Rightarrow> 'g feed \<Rightarrow> 'g feed" where
  "draw_mid R i F =
     (let (p, F1) = draw (uniform_int R (10 * 100) (500 * 100)) F
      in F1\<lparr>sf_syms := (sf_syms F1)[i := (sf_syms F1 ! i)\<lparr>sym_mid := of_nat p * kTick\<rparr>]\<rparr>)"

definition init_symbols :: "feed_config \<Rightarrow> 'g rng_ops \<Rightarrow> 'g feed \<Rightarrow> 'g feed" where
  "init_symbols c R F =
     (let F1 = F\<lparr>sf_syms := replicate (cfg_symbols c) \<lparr>sym_mid = 0, sym_live = []\<rparr>\<rparr>;
          F2 = fold (draw_mid R) [0..<cfg_symbols c] F1
      in F2\<lparr>sf_cdf := cdf_of c R\<rparr>)"

text \<open>\<open>std::lower_bound\<close> on the increasing \<open>cdf_\<close>.\<close>

definition pick_symbol :: "feed_config \<Rightarrow> 'g rng_ops \<Rightarrow> 'g feed \<Rightarrow> nat \<times> 'g feed" where
  "pick_symbol c R F =
     (let (u, F1) = draw (uniform_real R) F
      in (min (length (takeWhile (\<lambda>x. x < u) (sf_cdf F1))) (cfg_symbols c - 1), F1))"

definition pick_price :: "feed_config \<Rightarrow> 'g rng_ops \<Rightarrow> feed_symbol \<Rightarrow> u8 \<Rightarrow> 'g feed \<Rightarrow> u32 \<times> 'g feed" where
  "pick_price c R s side F =
     (let (behind, F1) = draw (geometric R (cfg_depth_p c)) F
      in (if side = 0x42 then sym_mid s - kTick * (1 + behind) else sym_mid s + kTick * (1 + behind), F1))"

definition pick_shares :: "'g rng_ops \<Rightarrow> 'g feed \<Rightarrow> u32 \<times> 'g feed" where
  "pick_shares R F = (let (k, F1) = draw (uniform_int R 1 10) F in (100 * of_nat k, F1))"

section \<open>Writing messages\<close>

definition fill_header :: "'g rng_ops \<Rightarrow> nat \<Rightarrow> 'g feed \<Rightarrow> Header \<times> 'g feed" where
  "fill_header R loc F =
     (let (x, F1) = draw (rng_next R) F;
          ts = sf_ts F1 + (1 + (x AND 0xFF))
      in (\<lparr>locate = of_nat (loc + 1), tracking = 0, timestamp = ts\<rparr>, F1\<lparr>sf_ts := ts\<rparr>))"

fun decimal :: "nat \<Rightarrow> u8 list" where
  "decimal n = (if n < 10 then [0x30 + of_nat n] else decimal (n div 10) @ [0x30 + of_nat (n mod 10)])"

declare decimal.simps [simp del]

definition stock_of :: "nat \<Rightarrow> alpha" where
  "stock_of loc = (let name = 0x53 # decimal loc; n = min (length name) 8 in take n name @ replicate (8 - n) 0x20)"

definition write_message :: "message \<Rightarrow> 'g feed \<Rightarrow> 'g feed option" where
  "write_message m F = do {
     let p = length (sf_out F);
     let len = kLength (mtype_of m);
     out1 \<leftarrow> store_be16 (sf_out F @ replicate (2 + len) 0) p (of_nat len);
     (out2, _) \<leftarrow> encode m out1 (p + 2);
     Some (F\<lparr>sf_out := out2, sf_messages := sf_messages F + 1\<rparr>) }"

definition emit_system :: "u8 \<Rightarrow> 'g feed \<Rightarrow> 'g feed option" where
  "emit_system code F =
     (let ts = sf_ts F + 1000
      in write_message (SystemEvent \<lparr>locate = 0, tracking = 0, timestamp = ts, se_event_code = code\<rparr>) (F\<lparr>sf_ts := ts\<rparr>))"

definition emit_directory :: "'g rng_ops \<Rightarrow> nat \<Rightarrow> 'g feed \<Rightarrow> 'g feed option" where
  "emit_directory R loc F =
     (let (h, F1) = fill_header R loc F
      in write_message (StockDirectory \<lparr>locate = locate h, tracking = tracking h, timestamp = timestamp h,
           sd_stock = stock_of loc, sd_market_category = 0x51, sd_financial_status = 0x4E, sd_round_lot_size = 100,
           sd_round_lots_only = 0x4E, sd_issue_classification = 0x43, sd_issue_subtype = [0x5A, 0x20], sd_authenticity = 0x50,
           sd_short_sale_threshold = 0x4E, sd_ipo_flag = 0x4E, sd_luld_ref_price_tier = 0x31, sd_etp_flag = 0x4E,
           sd_etp_leverage_factor = 0, sd_inverse_indicator = 0x4E\<rparr>) F1)"

section \<open>Order events\<close>

definition add_message :: "Header \<Rightarrow> bool \<Rightarrow> nat \<Rightarrow> live_order \<Rightarrow> message" where
  "add_message h mpid loc ord =
     (if mpid
      then AddOrderMpid \<lparr>locate = locate h, tracking = tracking h, timestamp = timestamp h, aom_ref = lo_ref ord,
        aom_side = lo_side ord, aom_shares = lo_shares ord, aom_stock = stock_of loc, aom_price = lo_price ord,
        aom_attribution = [0x4D, 0x50, 0x49, 0x44]\<rparr>
      else AddOrder \<lparr>locate = locate h, tracking = tracking h, timestamp = timestamp h, ao_ref = lo_ref ord,
        ao_side = lo_side ord, ao_shares = lo_shares ord, ao_stock = stock_of loc, ao_price = lo_price ord\<rparr>)"

definition add_order :: "feed_config \<Rightarrow> 'g rng_ops \<Rightarrow> nat \<Rightarrow> 'g feed \<Rightarrow> 'g feed option" where
  "add_order c R loc F = do {
     s \<leftarrow> sym_at F loc;
     let (buy, F1) = draw (bernoulli R (1 / 2)) F;
     let side = (if buy then 0x42 else 0x53);
     let ref = sf_next_ref F1;
     let (price, F2) = pick_price c R s side (F1\<lparr>sf_next_ref := ref + 1\<rparr>);
     let (shares, F3) = pick_shares R F2;
     let ord = \<lparr>lo_ref = ref, lo_price = price, lo_shares = shares, lo_side = side\<rparr>;
     let (mpid, F4) = draw (bernoulli R (5 / 100)) (set_live loc (\<lambda>v. v @ [ord]) F3);
     let (h, F5) = fill_header R loc F4;
     write_message (add_message h mpid loc ord) F5 }"

definition erase_live :: "nat \<Rightarrow> nat \<Rightarrow> 'g feed \<Rightarrow> 'g feed" where
  "erase_live loc idx = set_live loc (\<lambda>v. butlast (v[idx := last v]))"

definition delete_order :: "'g rng_ops \<Rightarrow> nat \<Rightarrow> nat \<Rightarrow> 'g feed \<Rightarrow> 'g feed option" where
  "delete_order R loc idx F = do {
     let (h, F1) = fill_header R loc F;
     s \<leftarrow> sym_at F1 loc;
     ord \<leftarrow> live_at s idx;
     F2 \<leftarrow> write_message (OrderDelete \<lparr>locate = locate h, tracking = tracking h, timestamp = timestamp h, od_ref = lo_ref ord\<rparr>) F1;
     Some (erase_live loc idx F2) }"

definition replace_order :: "feed_config \<Rightarrow> 'g rng_ops \<Rightarrow> nat \<Rightarrow> nat \<Rightarrow> 'g feed \<Rightarrow> 'g feed option" where
  "replace_order c R loc idx F = do {
     s \<leftarrow> sym_at F loc;
     ord \<leftarrow> live_at s idx;
     let (h, F1) = fill_header R loc F;
     let new = sf_next_ref F1;
     let (shares, F2) = pick_shares R (F1\<lparr>sf_next_ref := new + 1\<rparr>);
     let (price, F3) = pick_price c R s (lo_side ord) F2;
     F4 \<leftarrow> write_message (OrderReplace \<lparr>locate = locate h, tracking = tracking h, timestamp = timestamp h,
       orp_original_ref = lo_ref ord, orp_new_ref = new, orp_shares = shares, orp_price = price\<rparr>) F3;
     Some (set_live loc (\<lambda>v. v[idx := ord\<lparr>lo_ref := new, lo_shares := shares, lo_price := price\<rparr>]) F4) }"

text \<open>The end of a cancel and of an execution: the shares are taken off, and an order without any is erased.\<close>

definition take_shares :: "nat \<Rightarrow> nat \<Rightarrow> live_order \<Rightarrow> u32 \<Rightarrow> 'g feed \<Rightarrow> 'g feed" where
  "take_shares loc idx ord qty F =
     (let left = lo_shares ord - qty;
          F1 = set_live loc (\<lambda>v. v[idx := ord\<lparr>lo_shares := left\<rparr>]) F
      in if left = 0 then erase_live loc idx F1 else F1)"

definition cancel_order :: "'g rng_ops \<Rightarrow> nat \<Rightarrow> nat \<Rightarrow> 'g feed \<Rightarrow> 'g feed option" where
  "cancel_order R loc idx F = do {
     s \<leftarrow> sym_at F loc;
     ord \<leftarrow> live_at s idx;
     let (h, F1) = fill_header R loc F;
     let (all, F2) = draw (bernoulli R (1 / 2)) F1;
     let qty = (if all then lo_shares ord else max 1 (lo_shares ord div 2));
     F3 \<leftarrow> write_message (OrderCancel \<lparr>locate = locate h, tracking = tracking h, timestamp = timestamp h, oc_ref = lo_ref ord,
       oc_cancelled_shares = qty\<rparr>) F2;
     Some (take_shares loc idx ord qty F3) }"

definition execute_message :: "bool \<Rightarrow> Header \<Rightarrow> live_order \<Rightarrow> u32 \<Rightarrow> u64 \<Rightarrow> message" where
  "execute_message priced h ord qty num =
     (if priced
      then OrderExecutedWithPrice \<lparr>locate = locate h, tracking = tracking h, timestamp = timestamp h, oep_ref = lo_ref ord,
        oep_executed_shares = qty, oep_match_number = num, oep_printable = 0x59, oep_execution_price = lo_price ord\<rparr>
      else OrderExecuted \<lparr>locate = locate h, tracking = tracking h, timestamp = timestamp h, oe_ref = lo_ref ord,
        oe_executed_shares = qty, oe_match_number = num\<rparr>)"

definition execute_order :: "'g rng_ops \<Rightarrow> nat \<Rightarrow> nat \<Rightarrow> 'g feed \<Rightarrow> 'g feed option" where
  "execute_order R loc idx F = do {
     s \<leftarrow> sym_at F loc;
     ord \<leftarrow> live_at s idx;
     let (all, F1) = draw (bernoulli R (1 / 2)) F;
     let qty = (if all then lo_shares ord else max 1 (lo_shares ord div 3));
     let (priced, F2) = draw (bernoulli R (2 / 10)) F1;
     let (h, F3) = fill_header R loc F2;
     let num = sf_next_match F3;
     F4 \<leftarrow> write_message (execute_message priced h ord qty num) (F3\<lparr>sf_next_match := num + 1\<rparr>);
     Some (take_shares loc idx ord qty F4) }"

definition trade :: "'g rng_ops \<Rightarrow> nat \<Rightarrow> 'g feed \<Rightarrow> 'g feed option" where
  "trade R loc F = do {
     let (h, F1) = fill_header R loc F;
     let (shares, F2) = pick_shares R F1;
     s \<leftarrow> sym_at F2 loc;
     let num = sf_next_match F2;
     write_message (Trade \<lparr>locate = locate h, tracking = tracking h, timestamp = timestamp h, tr_ref = 0, tr_side = 0x42,
       tr_shares = shares, tr_stock = stock_of loc, tr_price = sym_mid s, tr_match_number = num\<rparr>) (F2\<lparr>sf_next_match := num + 1\<rparr>) }"

definition drift :: "nat \<Rightarrow> real \<Rightarrow> 'g feed \<Rightarrow> 'g feed" where
  "drift loc u F =
     (let s = sf_syms F ! loc
      in F\<lparr>sf_syms := (sf_syms F)[loc :=
           if 9995 / 10000 < u then s\<lparr>sym_mid := sym_mid s + kTick\<rparr>
           else if 999 / 1000 < u then s\<lparr>sym_mid := sym_mid s - kTick\<rparr> else s]\<rparr>)"

definition feed_step :: "feed_config \<Rightarrow> 'g rng_ops \<Rightarrow> 'g feed \<Rightarrow> 'g feed option" where
  "feed_step c R F = do {
     let (loc, F1) = pick_symbol c R F;
     s \<leftarrow> sym_at F1 loc;
     let (u, F2) = draw (uniform_real R) F1;
     if sym_live s = [] \<or> u < 42 / 100 then add_order c R loc F2
     else do {
       let (idx, F3) = draw (uniform_int R 0 (length (sym_live s) - 1)) F2;
       F4 \<leftarrow> (if u < 78 / 100 then delete_order R loc idx F3
         else if u < 88 / 100 then replace_order c R loc idx F3
         else if u < 93 / 100 then cancel_order R loc idx F3
         else if u < 98 / 100 then execute_order R loc idx F3
         else trade R loc F3);
       Some (drift loc u F4) } }"

section \<open>The session\<close>

partial_function (option) drain_symbol :: "'g rng_ops \<Rightarrow> nat \<Rightarrow> 'g feed \<Rightarrow> 'g feed option" where
  "drain_symbol R loc F = do {
     s \<leftarrow> sym_at F loc;
     if sym_live s = [] then Some F
     else do {
       F' \<leftarrow> delete_order R loc (length (sym_live s) - 1) F;
       drain_symbol R loc F' } }"

definition drain :: "feed_config \<Rightarrow> 'g rng_ops \<Rightarrow> 'g feed \<Rightarrow> 'g feed option" where
  "drain c R = foldO (drain_symbol R) [0..<cfg_symbols c]"

definition seed_orders :: "feed_config \<Rightarrow> 'g rng_ops \<Rightarrow> nat \<Rightarrow> 'g feed \<Rightarrow> 'g feed option" where
  "seed_orders c R loc = foldO (\<lambda>_. add_order c R loc) [0..<cfg_initial_orders c]"

definition build_feed :: "feed_config \<Rightarrow> 'g rng_ops \<Rightarrow> 'g feed \<Rightarrow> (mem \<times> 'g feed) option" where
  "build_feed c R F = do {
     let F1 = init_symbols c R (F\<lparr>sf_out := []\<rparr>);
     F2 \<leftarrow> emit_system 0x4F F1;
     F3 \<leftarrow> foldO (emit_directory R) [0..<cfg_symbols c] F2;
     F4 \<leftarrow> emit_system 0x51 F3;
     F5 \<leftarrow> foldO (seed_orders c R) [0..<cfg_symbols c] F4;
     F6 \<leftarrow> foldO (\<lambda>_. feed_step c R) [0..<cfg_events c] F5;
     F7 \<leftarrow> drain c R F6;
     F8 \<leftarrow> emit_system 0x4D F7;
     F9 \<leftarrow> emit_system 0x43 F8;
     Some (sf_out F9, F9\<lparr>sf_out := []\<rparr>) }"

section \<open>What is written\<close>

text \<open>A well-formed message is appended as one record, and the record is classified as the message.\<close>

lemma write_message_eq:
  assumes "wf_message m"
  shows "write_message m F =
    Some (F\<lparr>sf_out := sf_out F @ framed (wire m), sf_messages := sf_messages F + 1\<rparr>)"
proof -
  let ?l = "kLength (mtype_of m)" and ?p = "length (sf_out F)"
  have l: "length (wire m) = ?l" using assms by (intro length_wire wf_message_fit)
  have 1: "store_be16 (sf_out F @ replicate (2 + ?l) 0) ?p (of_nat ?l) =
      Some (sf_out F @ be_bytes 2 (of_nat ?l :: u16) @ replicate ?l 0)"
    by (simp add: store_be_eq mem_simps)
  have 2: "encode m (sf_out F @ be_bytes 2 (of_nat ?l :: u16) @ replicate ?l 0) (?p + 2) =
      Some (sf_out F @ be_bytes 2 (of_nat ?l :: u16) @ wire m, ?l)"
    using encode_eq [OF wf_message_fit [OF assms], of "?p + 2"] l by (simp add: mem_simps)
  show ?thesis unfolding write_message_def Let_def 1 using 2 by (simp add: framed_def l)
qed

lemma length_stock_of [simp]: "length (stock_of loc) = 8"
  by (simp add: stock_of_def Let_def min_def)

section \<open>Live orders and the orders of the messages\<close>

definition order_of :: "nat \<Rightarrow> live_order \<Rightarrow> order" where
  "order_of loc ord = new_order (lo_ref ord) (lo_price ord) (lo_shares ord) (of_nat (loc + 1)) (lo_side ord)"

lemma order_of_simps [simp]:
  "o_ref (order_of loc ord) = lo_ref ord" "o_shares (order_of loc ord) = lo_shares ord"
  "o_locate (order_of loc ord) = of_nat (loc + 1)" "o_side (order_of loc ord) = lo_side ord" "o_price (order_of loc ord) = lo_price ord"
  by (simp_all add: order_of_def new_order_def)

lemma order_of_shares: "order_of loc (ord\<lparr>lo_shares := q\<rparr>) = order_of loc ord\<lparr>o_shares := q\<rparr>"
  by (simp add: order_of_def new_order_def)

text \<open>The list of a symbol holds exactly the orders of its locate, each one once.\<close>

definition lists :: "nat \<Rightarrow> live_order list \<Rightarrow> (u64 \<rightharpoonup> order) \<Rightarrow> bool" where
  "lists loc L M \<longleftrightarrow> distinct (map lo_ref L) \<and> (\<forall>ord \<in> set L. lo_shares ord \<noteq> 0) \<and>
     (\<forall>r x. M r = Some x \<and> o_locate x = of_nat (loc + 1) \<longleftrightarrow> (\<exists>ord \<in> set L. r = lo_ref ord \<and> x = order_of loc ord))"

definition agrees :: "live_order list list \<Rightarrow> (u64 \<rightharpoonup> order) \<Rightarrow> bool" where
  "agrees lives M \<longleftrightarrow> (\<forall>loc < length lives. lists loc (lives ! loc) M) \<and>
     (\<forall>x \<in> ran M. \<exists>loc < length lives. o_locate x = of_nat (loc + 1))"

text \<open>A change of the orders of one locate concerns the list of that symbol only.\<close>

definition only_at :: "nat \<Rightarrow> (u64 \<rightharpoonup> order) \<Rightarrow> (u64 \<rightharpoonup> order) \<Rightarrow> bool" where
  "only_at loc M M' \<longleftrightarrow> (\<forall>r x. M r \<noteq> M' r \<longrightarrow> M r = Some x \<or> M' r = Some x \<longrightarrow> o_locate x = of_nat (loc + 1))"

lemma locate_inj: "loc < 65535 \<Longrightarrow> loc' < 65535 \<Longrightarrow> (of_nat (loc + 1) :: u16) = of_nat (loc' + 1) \<Longrightarrow> loc = loc'"
proof -
  assume l: "loc < 65535" "loc' < 65535" and e: "(of_nat (loc + 1) :: u16) = of_nat (loc' + 1)"
  have u: "unat (of_nat n :: u16) = n" if "n < 65536" for n using that by (simp add: unat_of_nat)
  have b: "loc + 1 < 65536" "loc' + 1 < 65536" using l by simp_all
  have "loc + 1 = loc' + 1" using arg_cong [OF e, of unat] unfolding u [OF b(1)] u [OF b(2)] .
  then show "loc = loc'" by simp
qed

lemma lists_iff:
  "lists loc L M \<Longrightarrow> M r = Some x \<and> o_locate x = of_nat (loc + 1) \<longleftrightarrow> (\<exists>ord \<in> set L. r = lo_ref ord \<and> x = order_of loc ord)"
  unfolding lists_def by (elim conjE) (erule allE, erule allE)

lemma lists_at: "lists loc L M \<Longrightarrow> ord \<in> set L \<Longrightarrow> M (lo_ref ord) = Some (order_of loc ord)"
  using lists_iff [of loc L M "lo_ref ord" "order_of loc ord"] by blast

lemma lists_only:
  assumes "lists loc' L M" "only_at loc M M'" "of_nat (loc' + 1) \<noteq> (of_nat (loc + 1) :: u16)"
  shows "lists loc' L M'"
proof -
  have "(M' r = Some x \<and> o_locate x = of_nat (loc' + 1)) = (M r = Some x \<and> o_locate x = of_nat (loc' + 1))" for r x
    using assms(2,3) unfolding only_at_def by metis
  then show ?thesis using assms(1) by (simp add: lists_def)
qed

lemma agrees_change:
  assumes "agrees lives M" "length lives \<le> 65535" "loc < length lives" "only_at loc M M'" "lists loc L M'"
  shows "agrees (lives[loc := L]) M'"
  unfolding agrees_def
proof (intro conjI allI impI ballI)
  fix l assume l: "l < length (lives[loc := L])"
  show "lists l (lives[loc := L] ! l) M'"
  proof (cases "l = loc")
    case False
    then have "of_nat (l + 1) \<noteq> (of_nat (loc + 1) :: u16)" using l assms(2,3) locate_inj [of l loc] by auto
    then show ?thesis using False l assms(1,4) lists_only [of l "lives ! l" M loc M'] by (simp add: agrees_def)
  qed (use l assms in simp)
next
  fix x assume "x \<in> ran M'"
  then obtain r where r: "M' r = Some x" by (auto simp: ran_def)
  show "\<exists>l < length (lives[loc := L]). o_locate x = of_nat (l + 1)"
  proof (cases "M r = M' r")
    case True
    then have "x \<in> ran M" using r by (auto simp: ran_def)
    then show ?thesis using assms(1) by (simp add: agrees_def)
  next
    case False
    then show ?thesis using r assms(3,4) unfolding only_at_def by (metis length_list_update)
  qed
qed

text \<open>The four changes of a list, with what they do to the orders.\<close>

lemma lists_add:
  assumes "lists loc L M" "M (lo_ref ord) = None" "lo_shares ord \<noteq> 0"
  shows "lists loc (L @ [ord]) (M(lo_ref ord \<mapsto> order_of loc ord))"
proof -
  have "lo_ref ord \<noteq> lo_ref o'" if "o' \<in> set L" for o' using lists_at [OF assms(1) that] assms(2) by auto
  then show ?thesis
    using assms lists_iff [OF assms(1)] unfolding lists_def by (auto split: if_splits)
qed

lemma set_replace:
  assumes "distinct (map f (ps @ y # qs))" "f x = f y \<or> (\<forall>z \<in> set (ps @ y # qs). f z \<noteq> f x)"
  shows "set (ps @ x # qs) = insert x {z \<in> set (ps @ y # qs). f z \<noteq> f y}" "distinct (map f (ps @ x # qs))"
proof -
  have n: "f y \<notin> f ` (set ps \<union> set qs)" using assms(1) by auto
  have *: "f z \<noteq> f y" if "z \<in> set ps \<union> set qs" for z using n imageI [OF that, of f] by metis
  show "set (ps @ x # qs) = insert x {z \<in> set (ps @ y # qs). f z \<noteq> f y}" using * by auto
  have "f x \<notin> f ` (set ps \<union> set qs)"
  proof
    assume "f x \<in> f ` (set ps \<union> set qs)"
    then obtain z where "f x = f z" "z \<in> set ps \<union> set qs" by (rule imageE)
    then show False using assms(2) * [of z] by auto
  qed
  then show "distinct (map f (ps @ x # qs))" using assms(1) by (simp add: image_Un)
qed

lemma set_erase:
  assumes "distinct (map f L)" "i < length L"
  shows "set (butlast (L[i := last L])) = {x \<in> set L. f x \<noteq> f (L ! i)}" "distinct (map f (butlast (L[i := last L])))"
proof -
  obtain us l where L: "L = us @ [l]" using assms(2) by (metis append_butlast_last_id list.size(3) not_less_zero)
  have l: "f l \<notin> f ` set us" "distinct (map f us)" using assms(1) by (auto simp: L)
  have l': "f z \<noteq> f l" if "z \<in> set us" for z using l(1) imageI [OF that, of f] by metis
  have *: "set (butlast (L[i := last L])) = {x \<in> set L. f x \<noteq> f (L ! i)} \<and> distinct (map f (butlast (L[i := last L])))"
  proof (cases "i < length us")
    case False
    then have i: "i = length us" using assms(2) L by simp
    have "butlast (L[i := last L]) = us" "L ! i = l" by (simp_all add: L i)
    then show ?thesis using l(2) l' by (auto simp: L)
  next
    case True
    then obtain ps x qs where us: "us = ps @ x # qs" "length ps = i" by (metis id_take_nth_drop length_take min.absorb4)
    have u: "L ! i = x" "butlast (L[i := last L]) = ps @ l # qs"
      using us(2) by (simp_all add: L us(1) nth_append list_update_append butlast_append)
    have "f l = f x \<or> (\<forall>z \<in> set (ps @ x # qs). f z \<noteq> f l)" using l' us(1) by blast
    from set_replace [OF l(2) [unfolded us(1)] this] show ?thesis
      using l' [of x] unfolding u by (auto simp: L us(1) dest: sym)
  qed
  then show "set (butlast (L[i := last L])) = {x \<in> set L. f x \<noteq> f (L ! i)}" "distinct (map f (butlast (L[i := last L])))" by simp_all
qed

lemma lists_erase:
  assumes "lists loc L M" "i < length L"
  shows "lists loc (butlast (L[i := last L])) (M(lo_ref (L ! i) := None))"
proof -
  have d: "distinct (map lo_ref L)" using assms(1) by (simp add: lists_def)
  note e = set_erase [OF d assms(2)]
  show ?thesis using assms(1) lists_iff [OF assms(1)] e(2) unfolding lists_def e(1) by auto
qed

lemma set_update_distinct:
  assumes "distinct (map f L)" "i < length L" "f x = f (L ! i) \<or> (\<forall>z \<in> set L. f z \<noteq> f x)"
  shows "set (L[i := x]) = insert x {y \<in> set L. f y \<noteq> f (L ! i)}" "distinct (map f (L[i := x]))"
proof -
  obtain ps y qs where L: "L = ps @ y # qs" "length ps = i" by (metis assms(2) id_take_nth_drop length_take min.absorb4)
  then have u: "L[i := x] = ps @ x # qs" "L ! i = y" by (simp_all add: list_update_append nth_append)
  show "set (L[i := x]) = insert x {y \<in> set L. f y \<noteq> f (L ! i)}" "distinct (map f (L[i := x]))"
    using set_replace [of f ps y qs x] assms(1,3) unfolding u unfolding L(1) by blast+
qed

lemma lists_update:
  assumes "lists loc L M" "i < length L" "lo_shares ord \<noteq> 0" "lo_ref ord = lo_ref (L ! i) \<or> M (lo_ref ord) = None"
  shows "lists loc (L[i := ord]) (M(lo_ref (L ! i) := None, lo_ref ord \<mapsto> order_of loc ord))"
proof -
  have d: "distinct (map lo_ref L)" using assms(1) by (simp add: lists_def)
  have fresh: "lo_ref ord = lo_ref (L ! i) \<or> (\<forall>o' \<in> set L. lo_ref o' \<noteq> lo_ref ord)"
    using assms(4) lists_at [OF assms(1)] by fastforce
  note e = set_update_distinct [OF d assms(2) fresh]
  have old: "\<forall>r x. M r = Some x \<and> o_locate x = of_nat (loc + 1) \<longleftrightarrow> (\<exists>ord \<in> set L. r = lo_ref ord \<and> x = order_of loc ord)"
    and nz: "\<forall>ord \<in> set L. lo_shares ord \<noteq> 0" using assms(1) by (simp_all add: lists_def)
  have only: "o' = ord" if "o' \<in> insert ord {y \<in> set L. lo_ref y \<noteq> lo_ref (L ! i)}" "lo_ref o' = lo_ref ord" for o'
    using that fresh by (elim insertE disjE) simp_all
  show ?thesis
    unfolding lists_def e(1)
  proof (intro conjI allI)
    show "(M(lo_ref (L ! i) := None, lo_ref ord \<mapsto> order_of loc ord)) r = Some x \<and> o_locate x = of_nat (loc + 1) \<longleftrightarrow>
      (\<exists>ord \<in> insert ord {y \<in> set L. lo_ref y \<noteq> lo_ref (L ! i)}. r = lo_ref ord \<and> x = order_of loc ord)" for r x
    proof (cases "r = lo_ref ord")
      case True
      have "(\<exists>o' \<in> insert ord {y \<in> set L. lo_ref y \<noteq> lo_ref (L ! i)}. lo_ref ord = lo_ref o' \<and> x = order_of loc o') \<longleftrightarrow> x = order_of loc ord"
        by (intro iffI; (elim bexE conjE)?; (drule (1) only [OF _ HOL.sym])?; simp)
      moreover have "(M(lo_ref (L ! i) := None, lo_ref ord \<mapsto> order_of loc ord)) (lo_ref ord) = Some x \<and> o_locate x = of_nat (loc + 1) \<longleftrightarrow>
        x = order_of loc ord" unfolding fun_upd_same option.inject by (metis order_of_simps(3))
      ultimately show ?thesis unfolding True by (rule trans [OF _ HOL.sym, rotated])
    next
      case False
      then show ?thesis using old [rule_format, of r x] by auto
    qed
  qed (use e(2) nz assms(3) in auto)
qed

lemma only_at_upd:
  assumes "\<And>x. M r = Some x \<Longrightarrow> o_locate x = of_nat (loc + 1)" "\<And>x. v = Some x \<Longrightarrow> o_locate x = of_nat (loc + 1)"
  shows "only_at loc M (M(r := v))"
  unfolding only_at_def using assms by auto

lemma only_at_trans:
  assumes "only_at loc M M1" "only_at loc M1 M2"
  shows "only_at loc M M2"
  unfolding only_at_def
proof (intro allI impI)
  fix r x assume n: "M r \<noteq> M2 r" and x: "M r = Some x \<or> M2 r = Some x"
  show "o_locate x = of_nat (loc + 1)"
  proof (cases "M r = M1 r")
    case True
    then show ?thesis using n x assms(2) unfolding only_at_def by metis
  next
    case False
    then show ?thesis
    proof (cases "M1 r = M2 r")
      case True
      then show ?thesis using n x assms(1) unfolding only_at_def by metis
    next
      case ne: False
      then show ?thesis using False x assms unfolding only_at_def by blast
    qed
  qed
qed

section \<open>Consistent sessions\<close>

text \<open>
  A consistent event adds an unused reference or refers to a live order, and takes no more shares than the order has: a replay neither
  meets an unknown reference nor fills an order beyond its shares.
\<close>

fun consistent :: "event \<Rightarrow> (u64 \<rightharpoonup> order) \<Rightarrow> bool" where
  "consistent (Add loc ref side shares price) M \<longleftrightarrow> M ref = None \<and> shares \<noteq> 0 \<and> card (dom M) + 1 < 2 ^ 32"
| "consistent (Reduce ref shares) M \<longleftrightarrow> (\<exists>ord. M ref = Some ord \<and> shares \<noteq> 0 \<and> shares \<le> o_shares ord)"
| "consistent (Remove ref) M \<longleftrightarrow> M ref \<noteq> None"
| "consistent (Replace old_ref new_ref shares price) M \<longleftrightarrow> M old_ref \<noteq> None \<and> M new_ref = None \<and> shares \<noteq> 0"
| "consistent (Prepare loc) M \<longleftrightarrow> True"

fun consistent_all :: "event list \<Rightarrow> (u64 \<rightharpoonup> order) \<Rightarrow> bool" where
  "consistent_all [] M \<longleftrightarrow> True"
| "consistent_all (ev # evs) M \<longleftrightarrow> consistent ev M \<and> consistent_all evs (abs_event ev M)"

lemma consistent_all_append:
  "consistent_all (xs @ ys) M \<longleftrightarrow> consistent_all xs M \<and> consistent_all ys (fold abs_event xs M)"
  by (induction xs arbitrary: M) simp_all

lemma consistent_facts: "consistent ev M \<Longrightarrow> admissible ev M \<and> \<not> unknown ev M \<and> \<not> overfills ev M"
  by (cases ev) (auto simp: not_less)

lemma consistent_all_facts:
  "consistent_all evs M \<Longrightarrow> admissible_all evs M \<and> count_events unknown evs M = 0 \<and> count_events overfills evs M = 0"
  by (induction evs arbitrary: M) (simp_all add: consistent_facts)

definition msg_events :: "message list \<Rightarrow> event list" where
  "msg_events ms = concat (map (\<lambda>m. case event_of m of Some ev \<Rightarrow> [ev] | None \<Rightarrow> []) ms)"

lemma msg_events_append [simp]: "msg_events (xs @ ys) = msg_events xs @ msg_events ys"
  by (simp add: msg_events_def)

lemma msg_events_single [simp]: "msg_events [m] = (case event_of m of Some ev \<Rightarrow> [ev] | None \<Rightarrow> [])" "msg_events [] = []"
  by (simp_all add: msg_events_def)

lemma stream_events_wire:
  "list_all wf_message ms \<Longrightarrow> stream_events (\<lambda>_ _. True) (map wire ms) = msg_events ms"
  by (induction ms) (simp_all add: stream_events_def msg_events_def verdict_events_def classify_wire)

definition live_after :: "message list \<Rightarrow> (u64 \<rightharpoonup> order)" where
  "live_after ms = fold abs_event (msg_events ms) Map.empty"

lemma live_after_append: "live_after (ms @ [m]) = fold abs_event (msg_events [m]) (live_after ms)"
  by (simp add: live_after_def)

section \<open>The invariant of the generator\<close>

text \<open>
  After at most \<open>k\<close> messages \<open>ms\<close> and at most \<open>n\<close> order references: what is written is consistent, and the vectors \<open>live\<close> of the symbols hold
  the orders that it leaves live.
\<close>

definition feed_inv :: "nat \<Rightarrow> nat \<Rightarrow> nat \<Rightarrow> message list \<Rightarrow> 'g feed \<Rightarrow> bool" where
  "feed_inv nsym n k ms F \<longleftrightarrow> sf_out F = concat (map (\<lambda>m. framed (wire m)) ms) \<and> list_all wf_message ms \<and>
     length ms \<le> k \<and> sf_messages F = of_nat (length ms) \<and> consistent_all (msg_events ms) Map.empty \<and>
     length (sf_syms F) = nsym \<and> agrees (map sym_live (sf_syms F)) (live_after ms) \<and>
     finite (dom (live_after ms)) \<and> card (dom (live_after ms)) \<le> n \<and> (\<forall>r \<in> dom (live_after ms). r < sf_next_ref F) \<and>
     unat (sf_next_ref F) \<le> n + 1 \<and> unat (sf_ts F) \<le> 34200000000000 + 1000 * k"

lemma feed_inv_mono: "feed_inv nsym n k ms F \<Longrightarrow> n \<le> n' \<Longrightarrow> k \<le> k' \<Longrightarrow> feed_inv nsym n' k' ms F"
  unfolding feed_inv_def by (elim conjE) (intro conjI; simp)

lemma feed_inv_draw [simp]:
  "feed_inv nsym n k ms (F\<lparr>sf_rng := g\<rparr>) = feed_inv nsym n k ms F"
  "feed_inv nsym n k ms (F\<lparr>sf_cdf := cdf\<rparr>) = feed_inv nsym n k ms F"
  by (simp_all add: feed_inv_def)

lemma feed_inv_emit:
  assumes "feed_inv nsym n k ms F" "wf_message m" "consistent_all (msg_events [m]) (live_after ms)"
    and "sf_out F' = sf_out F @ framed (wire m)" "sf_messages F' = sf_messages F + 1" "length (sf_syms F') = nsym"
    and "agrees (map sym_live (sf_syms F')) (live_after (ms @ [m]))"
    and "finite (dom (live_after (ms @ [m])))" "card (dom (live_after (ms @ [m]))) \<le> n'"
    and "\<forall>r \<in> dom (live_after (ms @ [m])). r < sf_next_ref F'"
    and "unat (sf_next_ref F') \<le> n' + 1" "unat (sf_ts F') \<le> 34200000000000 + 1000 * (k + 1)"
  shows "feed_inv nsym n' (k + 1) (ms @ [m]) F'"
  using assms by (simp add: feed_inv_def consistent_all_append live_after_def)

text \<open>A message without an event.\<close>

lemma feed_inv_emit_other:
  assumes "feed_inv nsym n k ms F" "wf_message m" "event_of m = None \<or> (\<exists>l. event_of m = Some (Prepare l))"
    and "sf_out F' = sf_out F @ framed (wire m)" "sf_messages F' = sf_messages F + 1"
    and "map sym_live (sf_syms F') = map sym_live (sf_syms F)" "sf_next_ref F' = sf_next_ref F"
    and "unat (sf_ts F') \<le> 34200000000000 + 1000 * (k + 1)"
  shows "feed_inv nsym n (k + 1) (ms @ [m]) F'"
proof -
  have e: "live_after (ms @ [m]) = live_after ms" "consistent_all (msg_events [m]) (live_after ms)"
    using assms(3) by (auto simp: live_after_def)
  have i: "length (sf_syms F') = nsym" "agrees (map sym_live (sf_syms F)) (live_after ms)" "finite (dom (live_after ms))"
    "card (dom (live_after ms)) \<le> n" "\<forall>r \<in> dom (live_after ms). r < sf_next_ref F" "unat (sf_next_ref F) \<le> n + 1"
    using assms(1) arg_cong [OF assms(6), of length] by (simp_all add: feed_inv_def)
  show ?thesis
    by (rule feed_inv_emit [OF assms(1,2) e(2) assms(4,5)]) (use i assms(8) in \<open>simp_all add: e(1) assms(6,7)\<close>)
qed

section \<open>Draws leave all but the engine alone\<close>

lemma draw_split: obtains x g where "draw f F = (x, F\<lparr>sf_rng := g\<rparr>)" "f (sf_rng F) = (x, g)"
  by (cases "f (sf_rng F)") (simp add: draw_def)

lemma pick_price_split: obtains x g where "pick_price c R s side F = (x, F\<lparr>sf_rng := g\<rparr>)"
  by (rule draw_split [of "geometric R (cfg_depth_p c)" F]) (simp add: pick_price_def)

lemma pick_shares_split:
  assumes "draws_in_range R"
  obtains x g where "pick_shares R F = (x, F\<lparr>sf_rng := g\<rparr>)" "x \<noteq> 0"
proof (rule draw_split [of "uniform_int R 1 10" F])
  fix k g assume d: "draw (uniform_int R 1 10) F = (k, F\<lparr>sf_rng := g\<rparr>)" and u: "uniform_int R 1 10 (sf_rng F) = (k, g)"
  have "k \<in> {1..10}" using assms u unfolding draws_in_range_def by (metis fst_conv numeral_One one_le_numeral)
  then have "unat (100 * of_nat k :: u32) = 100 * k" by (simp add: unat_word_ariths unat_of_nat)
  then have "(100 * of_nat k :: u32) \<noteq> 0" using \<open>k \<in> {1..10}\<close> by (metis atLeastAtMost_iff mult_is_0 not_one_le_zero unat_0 zero_neq_numeral)
  with d that show thesis by (simp add: pick_shares_def)
qed

text \<open>Clocks and headers: the timestamp stays within 48 bits.\<close>

lemma ts_advance:
  assumes "unat (t :: u64) \<le> 34200000000000 + 1000 * k" "k < 2 ^ 37" "unat d \<le> 1000"
  shows "unat (t + d) \<le> 34200000000000 + 1000 * (k + 1)" "unat (t + d) < 2 ^ 48"
proof -
  have "unat t + unat d < 2 ^ 48" using assms by simp
  then have "unat (t + d) = unat t + unat d" by (simp add: unat_word_ariths)
  then show "unat (t + d) \<le> 34200000000000 + 1000 * (k + 1)" "unat (t + d) < 2 ^ 48" using assms by simp_all
qed

lemma fill_header_split:
  assumes "unat (sf_ts F) \<le> 34200000000000 + 1000 * k" "k < 2 ^ 37"
  obtains g ts where "fill_header R loc F = (\<lparr>locate = of_nat (loc + 1), tracking = 0, timestamp = ts\<rparr>, F\<lparr>sf_rng := g, sf_ts := ts\<rparr>)"
    "unat ts \<le> 34200000000000 + 1000 * (k + 1)" "unat ts < 2 ^ 48"
proof (rule draw_split [of "rng_next R" F])
  fix x g assume d: "draw (rng_next R) F = (x, F\<lparr>sf_rng := g\<rparr>)"
  have m: "unat (x AND 0xFF) < 256"
    using word_and_le1 [of x "0xFF"] by (simp add: word_le_nat_alt)
  have "unat (1 + (x AND 0xFF)) \<le> 1000"
    using m by (simp add: unat_word_ariths)
  note ts = ts_advance [OF assms this]
  show thesis by (rule that [OF _ ts, where g = g]) (simp add: fill_header_def d Let_def)
qed

section \<open>One message about one symbol\<close>

abbreviation live_of :: "'g feed \<Rightarrow> nat \<Rightarrow> live_order list" where
  "live_of F loc \<equiv> sym_live (sf_syms F ! loc)"

lemma feed_lists:
  assumes "feed_inv nsym n k ms F" "loc < nsym"
  shows "lists loc (live_of F loc) (live_after ms)" "loc < length (sf_syms F)"
  using assms by (auto simp: feed_inv_def agrees_def)

lemma feed_agrees_at:
  assumes "feed_inv nsym n k ms F" "nsym \<le> 65535" "loc < nsym" "only_at loc (live_after ms) M'" "lists loc (sym_live s) M'"
  shows "agrees (map sym_live ((sf_syms F)[loc := s])) M'"
  using agrees_change [of "map sym_live (sf_syms F)" "live_after ms" loc M' "sym_live s"] assms
  by (simp add: feed_inv_def map_update)

text \<open>An event that uses no new reference, and one that uses the next.\<close>

lemma feed_inv_same:
  assumes F: "feed_inv nsym n k ms F" "nsym \<le> 65535" "loc < nsym"
    and m: "wf_message m" "event_of m = Some ev" "consistent ev (live_after ms)"
    and M': "M' = abs_event ev (live_after ms)" "only_at loc (live_after ms) M'" "lists loc (sym_live s) M'" "dom M' \<subseteq> dom (live_after ms)"
    and F': "sf_out F' = sf_out F @ framed (wire m)" "sf_messages F' = sf_messages F + 1" "sf_syms F' = (sf_syms F)[loc := s]"
      "sf_next_ref F' = sf_next_ref F" "unat (sf_ts F') \<le> 34200000000000 + 1000 * (k + 1)"
  shows "feed_inv nsym n (k + 1) (ms @ [m]) F'"
proof -
  have i: "length (sf_syms F) = nsym" "finite (dom (live_after ms))" "card (dom (live_after ms)) \<le> n"
    "\<forall>r \<in> dom (live_after ms). r < sf_next_ref F" "unat (sf_next_ref F) \<le> n + 1" using F(1) by (simp_all add: feed_inv_def)
  have la: "live_after (ms @ [m]) = M'" by (simp add: live_after_append m(2) M'(1))
  have c: "consistent_all (msg_events [m]) (live_after ms)" using m(2,3) by simp
  have "card (dom M') \<le> n" using card_mono [OF i(2) M'(4)] i(3) by simp
  moreover have "finite (dom M')" using i(2) M'(4) by (rule rev_finite_subset)
  moreover have "\<forall>r \<in> dom M'. r < sf_next_ref F'" using i(4) subsetD [OF M'(4)] unfolding F'(4) by blast
  moreover have "agrees (map sym_live (sf_syms F')) M'"
    unfolding F'(3) by (rule feed_agrees_at [OF F M'(2,3)])
  moreover have "length (sf_syms F') = nsym" "unat (sf_next_ref F') \<le> n + 1" using i(1,5) F'(3,4) by simp_all
  ultimately show ?thesis using feed_inv_emit [OF F(1) m(1) c F'(1,2)] F'(5) unfolding la by blast
qed

lemma feed_inv_next:
  assumes F: "feed_inv nsym n k ms F" "nsym \<le> 65535" "loc < nsym" "n < 2 ^ 32"
    and m: "wf_message m" "event_of m = Some ev" "consistent ev (live_after ms)"
    and M': "M' = abs_event ev (live_after ms)" "only_at loc (live_after ms) M'" "lists loc (sym_live s) M'"
      "dom M' \<subseteq> insert (sf_next_ref F) (dom (live_after ms))"
    and F': "sf_out F' = sf_out F @ framed (wire m)" "sf_messages F' = sf_messages F + 1" "sf_syms F' = (sf_syms F)[loc := s]"
      "sf_next_ref F' = sf_next_ref F + 1" "unat (sf_ts F') \<le> 34200000000000 + 1000 * (k + 1)"
  shows "feed_inv nsym (n + 1) (k + 1) (ms @ [m]) F'"
proof -
  have i: "length (sf_syms F) = nsym" "finite (dom (live_after ms))" "card (dom (live_after ms)) \<le> n"
    "\<forall>r \<in> dom (live_after ms). r < sf_next_ref F" "unat (sf_next_ref F) \<le> n + 1" using F(1) by (simp_all add: feed_inv_def)
  have la: "live_after (ms @ [m]) = M'" by (simp add: live_after_append m(2) M'(1))
  have c: "consistent_all (msg_events [m]) (live_after ms)" using m(2,3) by simp
  have "card (dom M') \<le> card (insert (sf_next_ref F) (dom (live_after ms)))" using i(2) M'(4) by (intro card_mono) auto
  then have "card (dom M') \<le> n + 1" using i(2,3) card_insert_le_m1 [of "n + 1"] by (auto simp: card_insert_if split: if_splits)
  moreover have "finite (dom M')" using i(2) M'(4) by (meson finite_insert finite_subset)
  moreover have u: "unat (sf_next_ref F + 1) = unat (sf_next_ref F) + 1" using i(5) F(4) by (simp add: unat_word_ariths)
  moreover have "\<forall>r \<in> dom M'. r < sf_next_ref F'"
  proof
    fix r assume "r \<in> dom M'"
    then have "r = sf_next_ref F \<or> r < sf_next_ref F" using subsetD [OF M'(4)] i(4) by blast
    then show "r < sf_next_ref F'" using u unfolding F'(4) by (auto simp: word_less_nat_alt)
  qed
  moreover have "agrees (map sym_live (sf_syms F')) M'"
    unfolding F'(3) by (rule feed_agrees_at [OF F(1-3) M'(2,3)])
  moreover have "length (sf_syms F') = nsym" "unat (sf_next_ref F') \<le> n + 1 + 1" using i(1,5) F'(3,4) u by simp_all
  ultimately show ?thesis using feed_inv_emit [OF F(1) m(1) c F'(1,2)] F'(5) unfolding la by blast
qed

section \<open>Every operation keeps the invariant\<close>

lemma feed_ts: "feed_inv nsym n k ms F \<Longrightarrow> unat (sf_ts F) \<le> 34200000000000 + 1000 * k"
  by (simp add: feed_inv_def)

lemma sym_at_in: "feed_inv nsym n k ms F \<Longrightarrow> loc < nsym \<Longrightarrow> sym_at F loc = Some (sf_syms F ! loc)"
  by (simp add: sym_at_def feed_inv_def)

lemma next_unused: "feed_inv nsym n k ms F \<Longrightarrow> live_after ms (sf_next_ref F) = None"
  by (rule ccontr) (auto simp: feed_inv_def)

lemma add_message_facts:
  "event_of (add_message h mpid loc ord) = Some (Add (locate h) (lo_ref ord) (lo_side ord) (lo_shares ord) (lo_price ord))"
  "unat (timestamp h) < 2 ^ 48 \<Longrightarrow> wf_message (add_message h mpid loc ord)"
  by (simp_all add: add_message_def wf_message_def)

lemma add_order_keeps:
  assumes F: "feed_inv nsym n k ms F" and b: "nsym \<le> 65535" "loc < nsym" "n + 1 < 2 ^ 32" "k < 2 ^ 37" and R: "draws_in_range R"
  shows "\<exists>F' ms'. add_order c R loc F = Some F' \<and> feed_inv nsym (n + 1) (k + 1) ms' F'"
proof -
  let ?s = "sf_syms F ! loc" and ?ref = "sf_next_ref F"
  obtain buy g1 where d1: "draw (bernoulli R (1 / 2)) F = (buy, F\<lparr>sf_rng := g1\<rparr>)" by (rule draw_split)
  obtain side where sd: "(if buy then 0x42 else 0x53 :: u8) = side" by simp
  let ?F1 = "F\<lparr>sf_rng := g1, sf_next_ref := ?ref + 1\<rparr>"
  obtain price g2 where d2: "pick_price c R ?s side ?F1 = (price, ?F1\<lparr>sf_rng := g2\<rparr>)" by (rule pick_price_split)
  obtain shares g3 where d3: "pick_shares R (?F1\<lparr>sf_rng := g2\<rparr>) = (shares, ?F1\<lparr>sf_rng := g3\<rparr>)" "shares \<noteq> 0"
    by (rule pick_shares_split [OF R, of "?F1\<lparr>sf_rng := g2\<rparr>"]) simp
  let ?ord = "\<lparr>lo_ref = ?ref, lo_price = price, lo_shares = shares, lo_side = side\<rparr>"
  let ?F3 = "set_live loc (\<lambda>v. v @ [?ord]) (?F1\<lparr>sf_rng := g3\<rparr>)"
  obtain mpid g4 where d4: "draw (bernoulli R (5 / 100)) ?F3 = (mpid, ?F3\<lparr>sf_rng := g4\<rparr>)" by (rule draw_split)
  have ts3: "unat (sf_ts (?F3\<lparr>sf_rng := g4\<rparr>)) \<le> 34200000000000 + 1000 * k" using feed_ts [OF F] by (simp add: set_live_def)
  obtain g5 ts where d5: "fill_header R loc (?F3\<lparr>sf_rng := g4\<rparr>) =
      (\<lparr>locate = of_nat (loc + 1), tracking = 0, timestamp = ts\<rparr>, ?F3\<lparr>sf_rng := g4, sf_rng := g5, sf_ts := ts\<rparr>)"
    and ts: "unat ts \<le> 34200000000000 + 1000 * (k + 1)" "unat ts < 2 ^ 48" by (rule fill_header_split [OF ts3 b(4)])
  let ?h = "\<lparr>locate = of_nat (loc + 1), tracking = 0, timestamp = ts\<rparr>"
  let ?m = "add_message ?h mpid loc ?ord" and ?F5 = "?F3\<lparr>sf_rng := g4, sf_rng := g5, sf_ts := ts\<rparr>"
  let ?F' = "?F5\<lparr>sf_out := sf_out ?F5 @ framed (wire ?m), sf_messages := sf_messages ?F5 + 1\<rparr>"
  have m: "wf_message ?m" by (rule add_message_facts(2)) (use ts(2) in simp)
  have ev: "event_of ?m = Some (Add (of_nat (loc + 1)) ?ref side shares price)" by (simp add: add_message_facts(1))
  note un = next_unused [OF F]
  let ?M' = "(live_after ms)(?ref \<mapsto> order_of loc ?ord)"
  have M': "?M' = abs_event (Add (of_nat (loc + 1)) ?ref side shares price) (live_after ms)" by (simp add: order_of_def)
  have con: "consistent (Add (of_nat (loc + 1)) ?ref side shares price) (live_after ms)"
    using un d3(2) b(3) F by (simp add: feed_inv_def)
  have only: "only_at loc (live_after ms) ?M'" by (rule only_at_upd) (auto simp: un)
  have ls: "lists loc (sym_live (sym_live_update (\<lambda>v. v @ [?ord]) ?s)) ?M'"
    using lists_add [OF feed_lists(1) [OF F b(2)], of ?ord] un d3(2) by simp
  have "feed_inv nsym (n + 1) (k + 1) (ms @ [?m]) ?F'"
    by (rule feed_inv_next [OF F b(1,2) _ m ev con M' only ls]) (use b(3) ts in \<open>auto simp: set_live_def\<close>)
  moreover have "add_order c R loc F = Some ?F'"
    by (simp add: add_order_def sym_at_in [OF F b(2)] d1 sd d2 [simplified] d3(1) [simplified] d4 [simplified] d5 [simplified] write_message_eq [OF m, simplified] Let_def)
  ultimately show ?thesis by blast
qed

lemma delete_order_keeps:
  assumes F: "feed_inv nsym n k ms F" and b: "nsym \<le> 65535" "loc < nsym" "k < 2 ^ 37" and i: "i < length (live_of F loc)"
  shows "\<exists>F' ms'. delete_order R loc i F = Some F' \<and> feed_inv nsym n (k + 1) ms' F' \<and>
    live_of F' loc = butlast ((live_of F loc)[i := last (live_of F loc)]) \<and> (\<forall>l. l \<noteq> loc \<longrightarrow> live_of F' l = live_of F l)"
proof -
  let ?s = "sf_syms F ! loc" and ?o = "live_of F loc ! i"
  obtain g ts where h: "fill_header R loc F = (\<lparr>locate = of_nat (loc + 1), tracking = 0, timestamp = ts\<rparr>, F\<lparr>sf_rng := g, sf_ts := ts\<rparr>)"
    and ts: "unat ts \<le> 34200000000000 + 1000 * (k + 1)" "unat ts < 2 ^ 48" by (rule fill_header_split [OF feed_ts [OF F] b(3)])
  let ?m = "OrderDelete \<lparr>locate = of_nat (loc + 1), tracking = 0, timestamp = ts, od_ref = lo_ref ?o\<rparr>"
  let ?F1 = "F\<lparr>sf_rng := g, sf_ts := ts\<rparr>"
  let ?F' = "erase_live loc i (?F1\<lparr>sf_out := sf_out ?F1 @ framed (wire ?m), sf_messages := sf_messages ?F1 + 1\<rparr>)"
  have m: "wf_message ?m" "event_of ?m = Some (Remove (lo_ref ?o))" using ts(2) by (simp_all add: wf_message_def)
  note l = feed_lists [OF F b(2)]
  have at: "live_after ms (lo_ref ?o) = Some (order_of loc ?o)" by (rule lists_at [OF l(1) nth_mem [OF i]])
  let ?M' = "(live_after ms)(lo_ref ?o := None)"
  have "feed_inv nsym n (k + 1) (ms @ [?m]) ?F'"
  proof (rule feed_inv_same [OF F b(1,2) m])
    show "consistent (Remove (lo_ref ?o)) (live_after ms)" using at by simp
    show "?M' = abs_event (Remove (lo_ref ?o)) (live_after ms)" by simp
    show "only_at loc (live_after ms) ?M'" by (rule only_at_upd) (auto simp: at)
    show "lists loc (sym_live (sym_live_update (\<lambda>v. butlast (v[i := last v])) ?s)) ?M'" using lists_erase [OF l(1) i] by simp
  qed (use ts in \<open>auto simp: erase_live_def set_live_def\<close>)
  moreover have "delete_order R loc i F = Some ?F'"
    using i l(2) by (simp add: delete_order_def h [simplified] sym_at_def live_at_def write_message_eq [OF m(1), simplified])
  moreover have "live_of ?F' loc = butlast ((live_of F loc)[i := last (live_of F loc)])" "l \<noteq> loc \<Longrightarrow> live_of ?F' l = live_of F l" for l
    using l(2) by (simp_all add: erase_live_def set_live_def)
  ultimately show ?thesis by blast
qed

lemma replace_order_keeps:
  assumes F: "feed_inv nsym n k ms F" and b: "nsym \<le> 65535" "loc < nsym" "n < 2 ^ 32" "k < 2 ^ 37" and R: "draws_in_range R"
    and i: "i < length (live_of F loc)"
  shows "\<exists>F' ms'. replace_order c R loc i F = Some F' \<and> feed_inv nsym (n + 1) (k + 1) ms' F'"
proof -
  let ?s = "sf_syms F ! loc" and ?o = "live_of F loc ! i" and ?new = "sf_next_ref F"
  obtain g ts where h: "fill_header R loc F = (\<lparr>locate = of_nat (loc + 1), tracking = 0, timestamp = ts\<rparr>, F\<lparr>sf_rng := g, sf_ts := ts\<rparr>)"
    and ts: "unat ts \<le> 34200000000000 + 1000 * (k + 1)" "unat ts < 2 ^ 48" by (rule fill_header_split [OF feed_ts [OF F] b(4)])
  let ?F1 = "F\<lparr>sf_rng := g, sf_ts := ts, sf_next_ref := ?new + 1\<rparr>"
  obtain shares g2 where d2: "pick_shares R ?F1 = (shares, ?F1\<lparr>sf_rng := g2\<rparr>)" "shares \<noteq> 0" by (rule pick_shares_split [OF R])
  obtain price g3 where d3: "pick_price c R ?s (lo_side ?o) (?F1\<lparr>sf_rng := g2\<rparr>) = (price, ?F1\<lparr>sf_rng := g2, sf_rng := g3\<rparr>)"
    by (rule pick_price_split [of c R ?s "lo_side ?o" "?F1\<lparr>sf_rng := g2\<rparr>"]) simp
  let ?F3 = "?F1\<lparr>sf_rng := g2, sf_rng := g3\<rparr>" and ?ord = "?o\<lparr>lo_ref := ?new, lo_shares := shares, lo_price := price\<rparr>"
  let ?m = "OrderReplace \<lparr>locate = of_nat (loc + 1), tracking = 0, timestamp = ts, orp_original_ref = lo_ref ?o, orp_new_ref = ?new,
    orp_shares = shares, orp_price = price\<rparr>"
  let ?F' = "set_live loc (\<lambda>v. v[i := ?ord]) (?F3\<lparr>sf_out := sf_out ?F3 @ framed (wire ?m), sf_messages := sf_messages ?F3 + 1\<rparr>)"
  let ?ev = "Replace (lo_ref ?o) ?new shares price"
  have m: "wf_message ?m" "event_of ?m = Some ?ev" using ts(2) by (simp_all add: wf_message_def)
  note l = feed_lists [OF F b(2)]
  have at: "live_after ms (lo_ref ?o) = Some (order_of loc ?o)" by (rule lists_at [OF l(1) nth_mem [OF i]])
  note un = next_unused [OF F]
  let ?M1 = "(live_after ms)(lo_ref ?o := None)"
  let ?M' = "?M1(?new \<mapsto> order_of loc ?ord)"
  have M': "?M' = abs_event ?ev (live_after ms)" by (simp add: abs_replace_def at order_of_def new_order_def)
  have con: "consistent ?ev (live_after ms)" using at un d2(2) by simp
  have "only_at loc (live_after ms) ?M1" "only_at loc ?M1 ?M'" by (rule only_at_upd; auto simp: at un split: if_splits)+
  then have only: "only_at loc (live_after ms) ?M'" by (rule only_at_trans)
  have ls: "lists loc (sym_live (sym_live_update (\<lambda>v. v[i := ?ord]) ?s)) ?M'"
    using lists_update [OF l(1) i, of ?ord] un d2(2) by simp
  have "feed_inv nsym (n + 1) (k + 1) (ms @ [?m]) ?F'"
    by (rule feed_inv_next [OF F b(1-3) m con M' only ls]) (use ts in \<open>auto simp: set_live_def\<close>)
  moreover have "replace_order c R loc i F = Some ?F'"
    using i l(2) by (simp add: replace_order_def h [simplified] d2(1) [simplified] d3 [simplified] sym_at_def live_at_def
        write_message_eq [OF m(1), simplified] Let_def)
  ultimately show ?thesis by blast
qed

text \<open>Erasing an order that was just overwritten is erasing it.\<close>

lemma erase_overwritten:
  assumes "i < length L"
  shows "butlast ((L[i := x])[i := last (L[i := x])]) = butlast (L[i := last L])"
proof -
  obtain us l where L: "L = us @ [l]" using assms by (metis append_butlast_last_id list.size(3) not_less_zero)
  show ?thesis by (cases "i < length us") (use assms in \<open>auto simp: L list_update_append not_less less_Suc_eq_le butlast_append\<close>)
qed

lemma take_shares_keeps:
  assumes F: "feed_inv nsym n k ms F" and b: "nsym \<le> 65535" "loc < nsym" and i: "i < length (live_of F loc)"
    and m: "wf_message m" "event_of m = Some (Reduce (lo_ref (live_of F loc ! i)) qty)"
    and q: "qty \<noteq> 0" "qty \<le> lo_shares (live_of F loc ! i)"
    and F1: "sf_out F1 = sf_out F @ framed (wire m)" "sf_messages F1 = sf_messages F + 1" "sf_syms F1 = sf_syms F"
      "sf_next_ref F1 = sf_next_ref F" "unat (sf_ts F1) \<le> 34200000000000 + 1000 * (k + 1)"
  shows "feed_inv nsym n (k + 1) (ms @ [m]) (take_shares loc i (live_of F loc ! i) qty F1)"
proof -
  let ?L = "live_of F loc" and ?o = "live_of F loc ! i" and ?M = "live_after ms" and ?s = "sf_syms F ! loc"
  let ?ord = "?o\<lparr>lo_shares := lo_shares ?o - qty\<rparr>" and ?ev = "Reduce (lo_ref ?o) qty"
  note l = feed_lists [OF F b(2)]
  have at: "?M (lo_ref ?o) = Some (order_of loc ?o)" by (rule lists_at [OF l(1) nth_mem [OF i]])
  have con: "consistent ?ev ?M" using at q by simp
  have fill: "fill (order_of loc ?o) qty = qty" using q(2) by (auto simp: fill_def)
  show ?thesis
  proof (cases "lo_shares ?o = qty")
    case True
    let ?s' = "sym_live_update (\<lambda>v. butlast (v[i := last v])) (sym_live_update (\<lambda>v. v[i := ?ord]) ?s)"
    have "lists loc (sym_live ?s') (?M(lo_ref ?o := None))"
      using lists_erase [OF l(1) i] by (simp add: erase_overwritten [OF i, simplified])
    moreover have "?M(lo_ref ?o := None) = abs_event ?ev ?M" using True q(1) by (simp add: abs_reduce_def at fill)
    moreover have "only_at loc ?M (?M(lo_ref ?o := None))" by (rule only_at_upd) (auto simp: at)
    moreover have "dom (?M(lo_ref ?o := None)) \<subseteq> dom ?M" by auto
    ultimately show ?thesis
      using True l(2) F1 by (intro feed_inv_same [OF F b m con, where s = ?s'])
        (simp_all add: take_shares_def erase_live_def set_live_def)
  next
    case False
    let ?s' = "sym_live_update (\<lambda>v. v[i := ?ord]) ?s"
    have ne: "lo_shares ?o - qty \<noteq> 0" using False by simp
    have "lists loc (sym_live ?s') (?M(lo_ref ?o := None, lo_ref ?ord \<mapsto> order_of loc ?ord))"
      using lists_update [OF l(1) i, of ?ord] ne by simp
    then have "lists loc (sym_live ?s') (?M(lo_ref ?o \<mapsto> order_of loc ?ord))" by simp
    moreover have "?M(lo_ref ?o \<mapsto> order_of loc ?ord) = abs_event ?ev ?M"
      using False q(1) by (simp add: abs_reduce_def at fill order_of_shares)
    moreover have "only_at loc ?M (?M(lo_ref ?o \<mapsto> order_of loc ?ord))" by (rule only_at_upd) (auto simp: at)
    moreover have "dom (?M(lo_ref ?o \<mapsto> order_of loc ?ord)) \<subseteq> dom ?M" using at by auto
    ultimately show ?thesis
      using ne l(2) F1 by (intro feed_inv_same [OF F b m con, where s = ?s'])
        (simp_all add: take_shares_def set_live_def)
  qed
qed

text \<open>The part of an order that is cancelled or executed.\<close>

lemma part_le:
  fixes s :: u32
  assumes "s \<noteq> 0" "d \<noteq> 0"
  shows "max 1 (s div d) \<noteq> 0" "max 1 (s div d) \<le> s"
proof -
  have "1 \<le> s" using assms(1) by (simp add: word_le_nat_alt unat_gt_0 Suc_le_eq)
  moreover have "s div d \<le> s" by (simp add: word_le_nat_alt unat_div_distrib)
  ultimately show "max 1 (s div d) \<le> s" by simp
  have "(1 :: u32) \<le> max 1 (s div d)" by simp
  then show "max 1 (s div d) \<noteq> 0" by (metis word_le_0_iff zero_neq_one)
qed

lemma live_nonzero: "feed_inv nsym n k ms F \<Longrightarrow> loc < nsym \<Longrightarrow> i < length (live_of F loc) \<Longrightarrow> lo_shares (live_of F loc ! i) \<noteq> 0"
  using feed_lists(1) [of nsym n k ms F loc] by (auto simp: lists_def)

lemma cancel_order_keeps:
  assumes F: "feed_inv nsym n k ms F" and b: "nsym \<le> 65535" "loc < nsym" "k < 2 ^ 37" and i: "i < length (live_of F loc)"
  shows "\<exists>F' ms'. cancel_order R loc i F = Some F' \<and> feed_inv nsym n (k + 1) ms' F'"
proof -
  let ?o = "live_of F loc ! i"
  obtain g ts where h: "fill_header R loc F = (\<lparr>locate = of_nat (loc + 1), tracking = 0, timestamp = ts\<rparr>, F\<lparr>sf_rng := g, sf_ts := ts\<rparr>)"
    and ts: "unat ts \<le> 34200000000000 + 1000 * (k + 1)" "unat ts < 2 ^ 48" by (rule fill_header_split [OF feed_ts [OF F] b(3)])
  let ?F1 = "F\<lparr>sf_rng := g, sf_ts := ts\<rparr>"
  obtain whole g2 where d: "draw (bernoulli R (1 / 2)) ?F1 = (whole, ?F1\<lparr>sf_rng := g2\<rparr>)" by (rule draw_split)
  obtain qty where qty: "(if whole then lo_shares ?o else max 1 (lo_shares ?o div 2)) = qty" by simp
  have q: "qty \<noteq> 0" "qty \<le> lo_shares ?o"
    using live_nonzero [OF F b(2) i] part_le [of "lo_shares ?o" 2] unfolding qty [symmetric] by auto
  let ?F2 = "?F1\<lparr>sf_rng := g2\<rparr>"
  let ?m = "OrderCancel \<lparr>locate = of_nat (loc + 1), tracking = 0, timestamp = ts, oc_ref = lo_ref ?o, oc_cancelled_shares = qty\<rparr>"
  let ?F3 = "?F2\<lparr>sf_out := sf_out ?F2 @ framed (wire ?m), sf_messages := sf_messages ?F2 + 1\<rparr>"
  have m: "wf_message ?m" "event_of ?m = Some (Reduce (lo_ref ?o) qty)" using ts(2) by (simp_all add: wf_message_def)
  have "feed_inv nsym n (k + 1) (ms @ [?m]) (take_shares loc i ?o qty ?F3)"
    by (rule take_shares_keeps [OF F b(1,2) i m q]) (use ts(1) in simp_all)
  moreover have "cancel_order R loc i F = Some (take_shares loc i ?o qty ?F3)"
    using i feed_lists(2) [OF F b(2)]
    by (simp add: cancel_order_def h [simplified] d [simplified] qty sym_at_def live_at_def write_message_eq [OF m(1), simplified] Let_def)
  ultimately show ?thesis by blast
qed

lemma execute_message_facts:
  "event_of (execute_message priced h ord qty num) = Some (Reduce (lo_ref ord) qty)"
  "unat (timestamp h) < 2 ^ 48 \<Longrightarrow> wf_message (execute_message priced h ord qty num)"
  by (simp_all add: execute_message_def wf_message_def)

lemma execute_order_keeps:
  assumes F: "feed_inv nsym n k ms F" and b: "nsym \<le> 65535" "loc < nsym" "k < 2 ^ 37" and i: "i < length (live_of F loc)"
  shows "\<exists>F' ms'. execute_order R loc i F = Some F' \<and> feed_inv nsym n (k + 1) ms' F'"
proof -
  let ?o = "live_of F loc ! i"
  obtain whole g1 where d1: "draw (bernoulli R (1 / 2)) F = (whole, F\<lparr>sf_rng := g1\<rparr>)" by (rule draw_split)
  obtain qty where qty: "(if whole then lo_shares ?o else max 1 (lo_shares ?o div 3)) = qty" by simp
  have q: "qty \<noteq> 0" "qty \<le> lo_shares ?o"
    using live_nonzero [OF F b(2) i] part_le [of "lo_shares ?o" 3] unfolding qty [symmetric] by auto
  obtain priced g2 where d2: "draw (bernoulli R (2 / 10)) (F\<lparr>sf_rng := g1\<rparr>) = (priced, F\<lparr>sf_rng := g1, sf_rng := g2\<rparr>)" by (rule draw_split)
  let ?F2 = "F\<lparr>sf_rng := g2\<rparr>"
  have t2: "unat (sf_ts ?F2) \<le> 34200000000000 + 1000 * k" using feed_ts [OF F] by simp
  obtain g ts where h: "fill_header R loc ?F2 = (\<lparr>locate = of_nat (loc + 1), tracking = 0, timestamp = ts\<rparr>, ?F2\<lparr>sf_rng := g, sf_ts := ts\<rparr>)"
    and ts: "unat ts \<le> 34200000000000 + 1000 * (k + 1)" "unat ts < 2 ^ 48" by (rule fill_header_split [OF t2 b(3)])
  let ?h = "\<lparr>locate = of_nat (loc + 1), tracking = 0, timestamp = ts\<rparr>"
  let ?F3 = "?F2\<lparr>sf_rng := g, sf_ts := ts, sf_next_match := sf_next_match F + 1\<rparr>"
  let ?m = "execute_message priced ?h ?o qty (sf_next_match F)"
  let ?F4 = "?F3\<lparr>sf_out := sf_out ?F3 @ framed (wire ?m), sf_messages := sf_messages ?F3 + 1\<rparr>"
  have m: "wf_message ?m" by (rule execute_message_facts(2)) (use ts(2) in simp)
  have ev: "event_of ?m = Some (Reduce (lo_ref ?o) qty)" by (rule execute_message_facts(1))
  have "feed_inv nsym n (k + 1) (ms @ [?m]) (take_shares loc i ?o qty ?F4)"
    by (rule take_shares_keeps [OF F b(1,2) i m ev q]) (use ts(1) in simp_all)
  moreover have "execute_order R loc i F = Some (take_shares loc i ?o qty ?F4)"
    using i feed_lists(2) [OF F b(2)]
    by (simp add: execute_order_def h [simplified] d1 d2 [simplified] qty sym_at_def live_at_def Let_def write_message_eq [OF m, simplified])
  ultimately show ?thesis by blast
qed

end
