(* ===== verification/Synthetic_Session.thy ===== *)
theory Synthetic_Session
  imports Synthetic_Feed
begin

text \<open>
  Whole sessions of the generator of \<^verbatim>\<open>include/itch/sim/synthetic_feed.hpp\<close>: the remaining operations keep the invariant of
  \<open>Synthetic_Feed\<close>, so a session is written without an access outside a vector, is self-consistent, and replaying it leaves no order.
\<close>

section \<open>Messages without an event on the orders\<close>

lemma trade_keeps:
  assumes F: "feed_inv nsym n k ms F" and b: "loc < nsym" "k < 2 ^ 37" and R: "draws_in_range R"
  shows "\<exists>F' ms'. trade R loc F = Some F' \<and> feed_inv nsym n (k + 1) ms' F'"
proof -
  obtain g ts where h: "fill_header R loc F = (\<lparr>locate = of_nat (loc + 1), tracking = 0, timestamp = ts\<rparr>, F\<lparr>sf_rng := g, sf_ts := ts\<rparr>)"
    and ts: "unat ts \<le> 34200000000000 + 1000 * (k + 1)" "unat ts < 2 ^ 48" by (rule fill_header_split [OF feed_ts [OF F] b(2)])
  let ?F1 = "F\<lparr>sf_rng := g, sf_ts := ts\<rparr>"
  obtain shares g2 where d: "pick_shares R ?F1 = (shares, ?F1\<lparr>sf_rng := g2\<rparr>)" by (rule pick_shares_split [OF R])
  let ?m = "Trade \<lparr>locate = of_nat (loc + 1), tracking = 0, timestamp = ts, tr_ref = 0, tr_side = 0x42, tr_shares = shares,
    tr_stock = stock_of loc, tr_price = sym_mid (sf_syms F ! loc), tr_match_number = sf_next_match F\<rparr>"
  let ?F2 = "?F1\<lparr>sf_rng := g2, sf_next_match := sf_next_match F + 1\<rparr>"
  let ?F' = "?F2\<lparr>sf_out := sf_out ?F2 @ framed (wire ?m), sf_messages := sf_messages ?F2 + 1\<rparr>"
  have m: "wf_message ?m" using ts(2) by (simp add: wf_message_def)
  have "feed_inv nsym n (k + 1) (ms @ [?m]) ?F'" by (rule feed_inv_emit_other [OF F m]) (use ts in simp_all)
  moreover have "trade R loc F = Some ?F'"
    using feed_lists(2) [OF F b(1)]
    by (simp add: trade_def h [simplified] d [simplified] sym_at_def write_message_eq [OF m, simplified] Let_def)
  ultimately show ?thesis by blast
qed

lemma emit_system_keeps:
  assumes F: "feed_inv nsym n k ms F" and k: "k < 2 ^ 37"
  shows "\<exists>F' ms'. emit_system code F = Some F' \<and> feed_inv nsym n (k + 1) ms' F' \<and> live_after ms' = live_after ms"
proof -
  let ?ts = "sf_ts F + 1000"
  have ts: "unat ?ts \<le> 34200000000000 + 1000 * (k + 1)" "unat ?ts < 2 ^ 48"
    using ts_advance [OF feed_ts [OF F] k, of 1000] by simp_all
  let ?m = "SystemEvent \<lparr>locate = 0, tracking = 0, timestamp = ?ts, se_event_code = code\<rparr>"
  let ?F' = "F\<lparr>sf_ts := ?ts, sf_out := sf_out F @ framed (wire ?m), sf_messages := sf_messages F + 1\<rparr>"
  have m: "wf_message ?m" using ts(2) by (simp add: wf_message_def)
  have "feed_inv nsym n (k + 1) (ms @ [?m]) ?F'" by (rule feed_inv_emit_other [OF F m]) (use ts in simp_all)
  moreover have "emit_system code F = Some ?F'" by (simp add: emit_system_def write_message_eq [OF m] Let_def)
  moreover have "live_after (ms @ [?m]) = live_after ms" by (simp add: live_after_def)
  ultimately show ?thesis by blast
qed

lemma emit_directory_keeps:
  assumes F: "feed_inv nsym n k ms F" and k: "k < 2 ^ 37"
  shows "\<exists>F' ms'. emit_directory R loc F = Some F' \<and> feed_inv nsym n (k + 1) ms' F'"
proof -
  obtain g ts where h: "fill_header R loc F = (\<lparr>locate = of_nat (loc + 1), tracking = 0, timestamp = ts\<rparr>, F\<lparr>sf_rng := g, sf_ts := ts\<rparr>)"
    and ts: "unat ts \<le> 34200000000000 + 1000 * (k + 1)" "unat ts < 2 ^ 48" by (rule fill_header_split [OF feed_ts [OF F] k])
  let ?F1 = "F\<lparr>sf_rng := g, sf_ts := ts\<rparr>"
  let ?m = "StockDirectory \<lparr>locate = of_nat (loc + 1), tracking = 0, timestamp = ts,
    sd_stock = stock_of loc, sd_market_category = 0x51, sd_financial_status = 0x4E, sd_round_lot_size = 100,
    sd_round_lots_only = 0x4E, sd_issue_classification = 0x43, sd_issue_subtype = [0x5A, 0x20], sd_authenticity = 0x50,
    sd_short_sale_threshold = 0x4E, sd_ipo_flag = 0x4E, sd_luld_ref_price_tier = 0x31, sd_etp_flag = 0x4E,
    sd_etp_leverage_factor = 0, sd_inverse_indicator = 0x4E\<rparr>"
  let ?F' = "?F1\<lparr>sf_out := sf_out ?F1 @ framed (wire ?m), sf_messages := sf_messages ?F1 + 1\<rparr>"
  have m: "wf_message ?m" using ts(2) by (simp add: wf_message_def)
  have "feed_inv nsym n (k + 1) (ms @ [?m]) ?F'" by (rule feed_inv_emit_other [OF F m]) (use ts in simp_all)
  moreover have "emit_directory R loc F = Some ?F'"
    by (simp add: emit_directory_def h [simplified] write_message_eq [OF m, simplified] Let_def)
  ultimately show ?thesis by blast
qed

section \<open>A step\<close>

lemma drift_keeps:
  assumes "feed_inv nsym n k ms F"
  shows "feed_inv nsym n k ms (drift loc u F)"
proof -
  have "sym_live ((sf_syms (drift loc u F)) ! l) = live_of F l" if "l < length (sf_syms F)" for l
    using that by (cases "l = loc") (simp_all add: drift_def Let_def)
  then have "map sym_live (sf_syms (drift loc u F)) = map sym_live (sf_syms F)"
    by (intro nth_equalityI) (simp_all add: drift_def Let_def)
  then show ?thesis using assms by (simp add: feed_inv_def) (simp add: drift_def Let_def)
qed

lemma pick_symbol_split:
  assumes "0 < cfg_symbols c"
  obtains loc g where "pick_symbol c R F = (loc, F\<lparr>sf_rng := g\<rparr>)" "loc < cfg_symbols c"
proof (rule draw_split [of "uniform_real R" F])
  fix u g assume d: "draw (uniform_real R) F = (u, F\<lparr>sf_rng := g\<rparr>)"
  show thesis
    by (rule that [of "min (length (takeWhile (\<lambda>x. x < u) (sf_cdf F))) (cfg_symbols c - 1)" g])
      (simp add: pick_symbol_def d, rule le_less_trans [OF min.cobounded2], use assms in simp)
qed

lemma if_both: "P x \<Longrightarrow> P y \<Longrightarrow> P (if b then x else y)"
  by simp

text \<open>One event uses at most one reference and writes one message.\<close>

lemma feed_step_keeps:
  assumes F: "feed_inv (cfg_symbols c) n k ms F" and R: "draws_in_range R"
    and b: "cfg_symbols c \<le> 65535" "0 < cfg_symbols c" "n + 1 < 2 ^ 32" "k < 2 ^ 37"
  shows "\<exists>F' ms'. feed_step c R F = Some F' \<and> feed_inv (cfg_symbols c) (n + 1) (k + 1) ms' F'"
proof -
  obtain loc g where p: "pick_symbol c R F = (loc, F\<lparr>sf_rng := g\<rparr>)" "loc < cfg_symbols c" by (rule pick_symbol_split [OF b(2)])
  obtain u g2 where u: "draw (uniform_real R) (F\<lparr>sf_rng := g\<rparr>) = (u, F\<lparr>sf_rng := g, sf_rng := g2\<rparr>)" by (rule draw_split)
  have F2: "feed_inv (cfg_symbols c) n k ms (F\<lparr>sf_rng := g2\<rparr>)" using F by simp
  have at: "sym_at (F\<lparr>sf_rng := g\<rparr>) loc = Some (sf_syms F ! loc)" using feed_lists(2) [OF F p(2)] by (simp add: sym_at_def)
  show ?thesis
  proof (cases "live_of F loc = [] \<or> u < 42 / 100")
    case True
    then show ?thesis
      using add_order_keeps [OF F2 b(1) p(2) b(3,4) R, of c] by (simp add: feed_step_def p(1) at u [simplified])
  next
    case False
    let ?hi = "length (live_of F loc) - 1"
    obtain i g3 where i: "draw (uniform_int R 0 ?hi) (F\<lparr>sf_rng := g2\<rparr>) = (i, F\<lparr>sf_rng := g2, sf_rng := g3\<rparr>)"
      "uniform_int R 0 ?hi (sf_rng (F\<lparr>sf_rng := g2\<rparr>)) = (i, g3)" by (rule draw_split)
    let ?F3 = "F\<lparr>sf_rng := g3\<rparr>"
    have F3: "feed_inv (cfg_symbols c) n k ms ?F3" using F by simp
    have "i \<in> {0..?hi}" using R i(2) unfolding draws_in_range_def by (metis fst_conv zero_le)
    then have il: "i < length (live_of ?F3 loc)" using False by (cases "live_of F loc") auto
    let ?op = "if u < 78 / 100 then delete_order R loc i ?F3 else if u < 88 / 100 then replace_order c R loc i ?F3
      else if u < 93 / 100 then cancel_order R loc i ?F3 else if u < 98 / 100 then execute_order R loc i ?F3 else trade R loc ?F3"
    have n: "n < 2 ^ 32" using b(3) by simp
    let ?G = "\<lambda>r. \<exists>F' ms'. r = Some F' \<and> feed_inv (cfg_symbols c) (n + 1) (k + 1) ms' F'"
    have up: "\<exists>F' ms'. r = Some F' \<and> feed_inv (cfg_symbols c) n (k + 1) ms' F' \<Longrightarrow> ?G r" for r
      using feed_inv_mono [of _ n "k + 1" _ _ "n + 1" "k + 1"] by (metis le_add1 order_refl)
    have del: "?G (delete_order R loc i ?F3)" using delete_order_keeps [OF F3 b(1) p(2) b(4) il, of R] by (intro up) blast
    have can: "?G (cancel_order R loc i ?F3)" using cancel_order_keeps [OF F3 b(1) p(2) b(4) il, of R] by (intro up) blast
    have exe: "?G (execute_order R loc i ?F3)" using execute_order_keeps [OF F3 b(1) p(2) b(4) il, of R] by (intro up) blast
    have trd: "?G (trade R loc ?F3)" using trade_keeps [OF F3 p(2) b(4) R] by (intro up) blast
    note rep = replace_order_keeps [OF F3 b(1) p(2) n b(4) R il, of c]
    have "?G ?op" by (intro if_both [where P = ?G] del can exe trd rep)
    then obtain F4 ms4 where F4: "?op = Some F4" "feed_inv (cfg_symbols c) (n + 1) (k + 1) ms4 F4" by blast
    have "feed_step c R F = Some (drift loc u F4)"
      using False F4(1) by (simp add: feed_step_def p(1) at u [simplified] i(1) [simplified])
    then show ?thesis using drift_keeps [OF F4(2)] by blast
  qed
qed

section \<open>Loops\<close>

text \<open>A loop whose body uses at most \<open>dn\<close> references and writes at most \<open>dk\<close> messages.\<close>

lemma feed_loop:
  assumes "\<And>x n k ms F. x \<in> set xs \<Longrightarrow> n + dn \<le> N \<Longrightarrow> k + dk \<le> K \<Longrightarrow> feed_inv nsym n k ms F \<Longrightarrow>
      \<exists>F' ms'. f x F = Some F' \<and> feed_inv nsym (n + dn) (k + dk) ms' F'"
    and "feed_inv nsym n k ms F" "n + length xs * dn \<le> N" "k + length xs * dk \<le> K"
  shows "\<exists>F' ms'. foldO f xs F = Some F' \<and> feed_inv nsym (n + length xs * dn) (k + length xs * dk) ms' F'"
  using assms
proof (induction xs arbitrary: n k ms F)
  case Nil
  then show ?case by auto
next
  case (Cons x xs)
  have le: "n + dn \<le> N" "k + dk \<le> K" using Cons.prems(3,4) by simp_all
  obtain F1 ms1 where 1: "f x F = Some F1" "feed_inv nsym (n + dn) (k + dk) ms1 F1"
    using Cons.prems(1) [OF list.set_intros(1) le Cons.prems(2)] by blast
  have "\<exists>F' ms'. foldO f xs F1 = Some F' \<and> feed_inv nsym (n + dn + length xs * dn) (k + dk + length xs * dk) ms' F'"
    by (rule Cons.IH [OF _ 1(2)]) (use Cons.prems in \<open>auto simp: add.assoc\<close>)
  then show ?case using 1(1) by (simp add: add.assoc)
qed

text \<open>Draining a symbol deletes its orders, the last one first.\<close>

lemma drain_symbol_keeps:
  assumes "feed_inv nsym n k ms F" "nsym \<le> 65535" "loc < nsym" "k + length (live_of F loc) \<le> 2 ^ 37"
  shows "\<exists>F' ms'. drain_symbol R loc F = Some F' \<and> feed_inv nsym n (k + length (live_of F loc)) ms' F' \<and>
    live_of F' loc = [] \<and> (\<forall>l. l \<noteq> loc \<longrightarrow> live_of F' l = live_of F l)"
  using assms(1,4)
proof (induction "length (live_of F loc)" arbitrary: F k ms)
  case 0
  then show ?case using feed_lists(2) [OF 0(2) assms(3)]
    by (subst drain_symbol.simps) (auto simp: sym_at_def intro!: exI [of _ ms])
next
  case (Suc d)
  let ?L = "live_of F loc"
  have i: "length ?L - 1 < length ?L" "k < 2 ^ 37" "?L \<noteq> []" using Suc(2,4) by auto
  obtain F1 ms1 where 1: "delete_order R loc (length ?L - 1) F = Some F1" "feed_inv nsym n (k + 1) ms1 F1"
    "live_of F1 loc = butlast (?L[length ?L - 1 := last ?L])" "\<forall>l. l \<noteq> loc \<longrightarrow> live_of F1 l = live_of F l"
    using delete_order_keeps [OF Suc(3) assms(2,3) i(2,1)] by blast
  have d: "d = length (live_of F1 loc)" using Suc(2) 1(3) by simp
  have "k + 1 + length (live_of F1 loc) \<le> 2 ^ 37" using Suc(2,4) d by simp
  then obtain F' ms' where F': "drain_symbol R loc F1 = Some F'" "feed_inv nsym n (k + 1 + length (live_of F1 loc)) ms' F'"
    "live_of F' loc = []" "\<forall>l. l \<noteq> loc \<longrightarrow> live_of F' l = live_of F1 l" using Suc(1) [OF d 1(2)] by blast
  have "drain_symbol R loc F = Some F'"
    using feed_lists(2) [OF Suc(3) assms(3)] i(3) 1(1) F'(1) by (subst drain_symbol.simps) (simp add: sym_at_def)
  moreover have eq: "k + 1 + length (live_of F1 loc) = k + length ?L" using Suc(2) d by simp
  have "feed_inv nsym n (k + length ?L) ms' F'" using F'(2) unfolding eq .
  ultimately show ?case using F'(3,4) 1(4) by metis
qed

lemma drain_list:
  assumes "feed_inv nsym n k ms F" "nsym \<le> 65535" "distinct xs" "set xs \<subseteq> {..<nsym}" "k + (\<Sum>l\<leftarrow>xs. length (live_of F l)) \<le> 2 ^ 37"
  shows "\<exists>F' ms'. foldO (drain_symbol R) xs F = Some F' \<and> feed_inv nsym n (k + (\<Sum>l\<leftarrow>xs. length (live_of F l))) ms' F' \<and>
    (\<forall>l. live_of F' l = (if l \<in> set xs then [] else live_of F l))"
  using assms(1,3-5)
proof (induction xs arbitrary: F k ms)
  case Nil
  then show ?case by auto
next
  case (Cons x xs)
  have "k + length (live_of F x) \<le> 2 ^ 37" "x < nsym" using Cons.prems(3,4) by simp_all
  then obtain F1 ms1 where 1: "drain_symbol R x F = Some F1" "feed_inv nsym n (k + length (live_of F x)) ms1 F1"
    "live_of F1 x = []" "\<forall>l. l \<noteq> x \<longrightarrow> live_of F1 l = live_of F l"
    using drain_symbol_keeps [OF Cons.prems(1) assms(2)] by blast
  have eq: "(\<Sum>l\<leftarrow>xs. length (live_of F1 l)) = (\<Sum>l\<leftarrow>xs. length (live_of F l))"
    using 1(4) Cons.prems(2) by (intro arg_cong [of _ _ sum_list] map_cong) auto
  obtain F' ms' where F': "foldO (drain_symbol R) xs F1 = Some F'"
    "feed_inv nsym n (k + length (live_of F x) + (\<Sum>l\<leftarrow>xs. length (live_of F l))) ms' F'"
    "\<forall>l. live_of F' l = (if l \<in> set xs then [] else live_of F1 l)"
    using Cons.IH [OF 1(2)] Cons.prems unfolding eq by (auto simp: add.assoc)
  then show ?case using 1 by (intro exI [of _ F'] exI [of _ ms']) (auto simp: add.assoc)
qed

text \<open>The lists together are as long as there are live orders.\<close>

lemma live_total:
  assumes "agrees lives M" "length lives \<le> 65535"
  shows "(\<Sum>L\<leftarrow>lives. length L) = card (dom M)"
proof -
  let ?A = "\<lambda>l. lo_ref ` set (lives ! l)"
  have l: "lists l (lives ! l) M" if "l < length lives" for l using assms(1) that by (simp add: agrees_def)
  have "dom M = (\<Union>l < length lives. ?A l)"
  proof (intro subset_antisym subsetI)
    fix r assume "r \<in> dom M"
    then obtain x where x: "M r = Some x" by blast
    then obtain l where "l < length lives" "o_locate x = of_nat (l + 1)" using assms(1) by (auto simp: agrees_def ran_def)
    then show "r \<in> (\<Union>l < length lives. ?A l)" using lists_iff [OF l, of l r x] x by blast
  next
    fix r assume "r \<in> (\<Union>l < length lives. ?A l)"
    then show "r \<in> dom M" using lists_at [OF l] by blast
  qed
  moreover have "?A i \<inter> ?A j = {}" if "i < length lives" "j < length lives" "i \<noteq> j" for i j
  proof (rule ccontr)
    assume "?A i \<inter> ?A j \<noteq> {}"
    then obtain x y where "x \<in> set (lives ! i)" "y \<in> set (lives ! j)" "lo_ref x = lo_ref y" by auto
    then have "order_of i x = order_of j y" using lists_at [OF l [OF that(1)]] lists_at [OF l [OF that(2)]] by fastforce
    then have "(of_nat (i + 1) :: u16) = of_nat (j + 1)" by (metis order_of_simps(3))
    then show False using locate_inj [of i j] that assms(2) by simp
  qed
  then have "card (\<Union>l < length lives. ?A l) = (\<Sum>l < length lives. card (?A l))" by (intro card_UN_disjoint) auto
  moreover have "card (?A l') = length (lives ! l')" if "l' < length lives" for l'
    using l [OF that] by (simp add: lists_def card_image distinct_map distinct_card)
  ultimately show ?thesis by (simp add: sum_list_sum_nth atLeast0LessThan)
qed

lemma drain_keeps:
  assumes F: "feed_inv (cfg_symbols c) n k ms F" and b: "cfg_symbols c \<le> 65535" "k + n \<le> 2 ^ 37"
  shows "\<exists>F' ms'. drain c R F = Some F' \<and> feed_inv (cfg_symbols c) n (k + n) ms' F' \<and> live_after ms' = Map.empty"
proof -
  let ?N = "cfg_symbols c"
  have i: "length (sf_syms F) = ?N" "agrees (map sym_live (sf_syms F)) (live_after ms)" "card (dom (live_after ms)) \<le> n"
    using F by (simp_all add: feed_inv_def)
  have "(\<Sum>l\<leftarrow>[0..<?N]. length (live_of F l)) = (\<Sum>L\<leftarrow>map sym_live (sf_syms F). length L)"
    using i(1) by (simp add: sum_list_sum_nth)
  then have t: "(\<Sum>l\<leftarrow>[0..<?N]. length (live_of F l)) \<le> n" using live_total [OF i(2)] i(1,3) b(1) by simp
  have "\<exists>F' ms'. foldO (drain_symbol R) [0..<?N] F = Some F' \<and> feed_inv ?N n (k + (\<Sum>l\<leftarrow>[0..<?N]. length (live_of F l))) ms' F' \<and>
    (\<forall>l. live_of F' l = (if l \<in> set [0..<?N] then [] else live_of F l))"
    by (rule drain_list [OF F b(1)]) (use t b(2) in auto)
  then obtain F' ms' where F': "drain c R F = Some F'"
    "feed_inv ?N n (k + (\<Sum>l\<leftarrow>[0..<?N]. length (live_of F l))) ms' F'" "\<forall>l < ?N. live_of F' l = []"
    unfolding drain_def by auto
  have "feed_inv ?N n (k + n) ms' F'" by (rule feed_inv_mono [OF F'(2)]) (use t in simp_all)
  moreover have "live_after ms' = Map.empty"
  proof (rule ext, rule ccontr)
    fix r assume "live_after ms' r \<noteq> None"
    then have d: "dom (live_after ms') \<noteq> {}" by auto
    have a: "agrees (map sym_live (sf_syms F')) (live_after ms')" "length (sf_syms F') = ?N" "finite (dom (live_after ms'))"
      using F'(2) by (simp_all add: feed_inv_def)
    have z: "(\<Sum>L\<leftarrow>map sym_live (sf_syms F'). length L) = 0" using F'(3) a(2) by (simp add: sum_list_sum_nth)
    have "length (map sym_live (sf_syms F')) \<le> 65535" using a(2) b(1) by simp
    from live_total [OF a(1) this] have "card (dom (live_after ms')) = 0" unfolding z by (rule HOL.sym)
    then show False using a(3) d by (simp only: card_0_eq)
  qed
  ultimately show ?thesis using F'(1) by blast
qed

section \<open>Whole sessions\<close>

lemma draw_mids:
  "map sym_live (sf_syms (fold (draw_mid R) xs F)) = map sym_live (sf_syms F) \<and> sf_out (fold (draw_mid R) xs F) = sf_out F \<and>
   sf_messages (fold (draw_mid R) xs F) = sf_messages F \<and> sf_next_ref (fold (draw_mid R) xs F) = sf_next_ref F \<and>
   sf_ts (fold (draw_mid R) xs F) = sf_ts F"
proof (induction xs arbitrary: F)
  case (Cons x xs)
  obtain p g where d: "draw (uniform_int R 1000 50000) F = (p, F\<lparr>sf_rng := g\<rparr>)" by (rule draw_split)
  have "draw_mid R x F = F\<lparr>sf_rng := g, sf_syms := (sf_syms F)[x := (sf_syms F ! x)\<lparr>sym_mid := of_nat p * kTick\<rparr>]\<rparr>"
    by (simp add: draw_mid_def d)
  moreover have "map sym_live ((sf_syms F)[x := (sf_syms F ! x)\<lparr>sym_mid := m\<rparr>]) = map sym_live (sf_syms F)" for m
    by (rule nth_equalityI, simp, case_tac "i = x") simp_all
  ultimately show ?case using Cons.IH [of "draw_mid R x F"] by simp
qed simp

lemma init_symbols_inv: "feed_inv (cfg_symbols c) 0 0 [] (init_symbols c R ((new_feed c R)\<lparr>sf_out := []\<rparr>))"
proof -
  let ?F = "(new_feed c R)\<lparr>sf_out := [], sf_syms := replicate (cfg_symbols c) \<lparr>sym_mid = 0, sym_live = []\<rparr>\<rparr>"
  let ?G = "fold (draw_mid R) [0..<cfg_symbols c] ?F"
  have g: "map sym_live (sf_syms ?G) = replicate (cfg_symbols c) []" "sf_out ?G = []" "sf_messages ?G = 0"
    "sf_next_ref ?G = 1" "sf_ts ?G = 34200000000000"
    using draw_mids [of R "[0..<cfg_symbols c]" ?F] by (simp_all add: new_feed_def)
  have "length (sf_syms ?G) = cfg_symbols c" using arg_cong [OF g(1), of length] by simp
  then show ?thesis
    using g by (simp add: feed_inv_def init_symbols_def Let_def live_after_def agrees_def lists_def)
qed

text \<open>
  The budget: with \<open>N\<close> order references there are at most \<open>2 N\<close> messages about orders, one directory message per symbol and four
  system events; \<open>2 ^ 37\<close> messages keep the clock within 48 bits.
\<close>

lemma build_feed_runs:
  assumes R: "draws_in_range R" and b: "0 < cfg_symbols c" "cfg_symbols c \<le> 65535"
    "cfg_symbols c * cfg_initial_orders c + cfg_events c < 2 ^ 32"
  shows "\<exists>F' F9 ms. build_feed c R (new_feed c R) = Some (sf_out F9, F') \<and> F' = F9\<lparr>sf_out := []\<rparr> \<and>
    feed_inv (cfg_symbols c) (cfg_symbols c * cfg_initial_orders c + cfg_events c) (2 ^ 37) ms F9 \<and> live_after ms = Map.empty"
proof -
  let ?S = "cfg_symbols c" and ?I = "cfg_initial_orders c" and ?E = "cfg_events c"
  let ?N = "?S * ?I + ?E"
  note F1 = init_symbols_inv [of c R]
  obtain F2 ms2 where F2: "emit_system 0x4F (init_symbols c R ((new_feed c R)\<lparr>sf_out := []\<rparr>)) = Some F2" "feed_inv ?S 0 1 ms2 F2"
    using emit_system_keeps [OF F1, of "0x4F"] by auto
  have "\<exists>F3 ms3. foldO (emit_directory R) [0..<?S] F2 = Some F3 \<and> feed_inv ?S (0 + length [0..<?S] * 0) (1 + length [0..<?S] * 1) ms3 F3"
    by (rule feed_loop [OF _ F2(2), where N = 0 and K = "1 + ?S"]) (use emit_directory_keeps b(2) in fastforce)+
  then obtain F3 ms3 where F3: "foldO (emit_directory R) [0..<?S] F2 = Some F3" "feed_inv ?S 0 (1 + ?S) ms3 F3" by auto
  have "1 + ?S < 2 ^ 37" using b(2) by simp
  then obtain F4 ms4 where F4: "emit_system 0x51 F3 = Some F4" "feed_inv ?S 0 (2 + ?S) ms4 F4"
    using emit_system_keeps [OF F3(2), of "0x51"] by auto
  have add: "\<exists>F' ms'. add_order c R loc F = Some F' \<and> feed_inv ?S (n + 1) (k + 1) ms' F'"
    if "feed_inv ?S n k ms F" "loc < ?S" "n + 1 \<le> ?N" "k + 1 \<le> 2 ^ 36" for loc n k ms and F :: "'a feed"
    by (rule add_order_keeps [OF that(1) b(2) that(2) _ _ R]) (use that(3,4) b(3) in simp_all)
  have seed: "\<exists>F' ms'. seed_orders c R loc F = Some F' \<and> feed_inv ?S (n + ?I) (k + ?I) ms' F'"
    if "loc \<in> set [0..<?S]" "n + ?I \<le> ?N" "k + ?I \<le> 2 ^ 36" "feed_inv ?S n k ms F" for loc n k ms and F :: "'a feed"
    using feed_loop [OF _ that(4), where xs = "[0..<?I]" and dn = 1 and dk = 1 and N = ?N and K = "2 ^ 36" and f = "\<lambda>_. add_order c R loc"]
      add that by (simp add: seed_orders_def)
  have big: "2 + ?S + ?N + ?N + 2 \<le> 2 ^ 36" using b(2,3) by simp
  have "\<exists>F5 ms5. foldO (seed_orders c R) [0..<?S] F4 = Some F5 \<and>
      feed_inv ?S (0 + length [0..<?S] * ?I) (2 + ?S + length [0..<?S] * ?I) ms5 F5"
    by (rule feed_loop [OF seed F4(2), where N = ?N and K = "2 ^ 36"]) (use big in simp_all)
  then obtain F5 ms5 where F5: "foldO (seed_orders c R) [0..<?S] F4 = Some F5" "feed_inv ?S (?S * ?I) (2 + ?S + ?S * ?I) ms5 F5" by auto
  have step: "\<exists>F' ms'. feed_step c R F = Some F' \<and> feed_inv ?S (n + 1) (k + 1) ms' F'"
    if "n + 1 \<le> ?N" "k + 1 \<le> 2 ^ 36" "feed_inv ?S n k ms F" for n k ms and F :: "'a feed"
    by (rule feed_step_keeps [OF that(3) R b(2,1)]) (use that(1,2) b(3) in simp_all)
  have "\<exists>F6 ms6. foldO (\<lambda>_. feed_step c R) [0..<?E] F5 = Some F6 \<and>
      feed_inv ?S (?S * ?I + length [0..<?E] * 1) (2 + ?S + ?S * ?I + length [0..<?E] * 1) ms6 F6"
    by (rule feed_loop [OF step F5(2), where N = ?N and K = "2 ^ 36"]) (use big in simp_all)
  then obtain F6 ms6 where F6: "foldO (\<lambda>_. feed_step c R) [0..<?E] F5 = Some F6" "feed_inv ?S ?N (2 + ?S + ?N) ms6 F6"
    by (auto simp: add.assoc)
  have "2 + ?S + ?N + ?N \<le> 2 ^ 37" using big by simp
  then obtain F7 ms7 where F7: "drain c R F6 = Some F7" "feed_inv ?S ?N (2 + ?S + ?N + ?N) ms7 F7" "live_after ms7 = Map.empty"
    using drain_keeps [OF F6(2) b(2)] by blast
  have k: "2 + ?S + ?N + ?N < 2 ^ 37" "2 + ?S + ?N + ?N + 1 < 2 ^ 37" using big by simp_all
  obtain F8 ms8 where F8: "emit_system 0x4D F7 = Some F8" "feed_inv ?S ?N (2 + ?S + ?N + ?N + 1) ms8 F8" "live_after ms8 = Map.empty"
    using emit_system_keeps [OF F7(2) k(1), of "0x4D"] F7(3) by metis
  obtain F9 ms9 where F9: "emit_system 0x43 F8 = Some F9" "feed_inv ?S ?N (2 + ?S + ?N + ?N + 1 + 1) ms9 F9" "live_after ms9 = Map.empty"
    using emit_system_keeps [OF F8(2) k(2), of "0x43"] F8(3) by metis
  have "feed_inv ?S ?N (2 ^ 37) ms9 F9" by (rule feed_inv_mono [OF F9(2)]) (use big in simp_all)
  moreover have "build_feed c R (new_feed c R) = Some (sf_out F9, F9\<lparr>sf_out := []\<rparr>)"
    by (simp add: build_feed_def Let_def F2(1) F3(1) F4(1) F5(1) F6(1) F7(1) F8(1) F9(1))
  ultimately show ?thesis using F9(3) by blast
qed

text \<open>A session, record by record.\<close>

lemma session_frames:
  assumes "list_all wf_message ms"
  shows "frames (concat (map (\<lambda>m. framed (wire m)) ms)) = (map wire ms, [])"
proof -
  have "length (wire m) < 2 ^ 16" if "m \<in> set ms" for m
    using that assms length_wire [OF wf_message_fit, of m] kLength_bounds(2) [of "mtype_of m"] by (simp add: list_all_iff)
  then show ?thesis
    using frames_concat [of "map wire ms" "[]"] by (simp add: comp_def frames_incomplete incomplete_def)
qed

lemma session_counts:
  "list_all wf_message ms \<Longrightarrow> verdict_counts (map classify (map wire ms)) = (of_nat (length ms), 0, 0, 0)"
  by (induction ms) (simp_all add: classify_wire)

lemma session_out:
  assumes "draws_in_range R" "0 < cfg_symbols c" "cfg_symbols c \<le> 65535"
    and "cfg_symbols c * cfg_initial_orders c + cfg_events c < 2 ^ 32" "build_feed c R (new_feed c R) = Some (out, F')"
  obtains ms where "out = concat (map (\<lambda>m. framed (wire m)) ms)" "list_all wf_message ms" "sf_messages F' = of_nat (length ms)"
    "consistent_all (msg_events ms) Map.empty" "live_after ms = Map.empty"
  using build_feed_runs [OF assms(1-4)] assms(5) by (auto simp: feed_inv_def)

lemma session_replayed:
  assumes "draws_in_range R" "0 < cfg_symbols c" "cfg_symbols c \<le> 65535"
    and "cfg_symbols c * cfg_initial_orders c + cfg_events c < 2 ^ 32" "build_feed c R (new_feed c R) = Some (out, F')"
    and "accepts S (\<lambda>_ _. True)" "eng_inv b (bb_engine (handler_state P))" "eng_map (bb_engine (handler_state P)) = Map.empty"
    and "parse_stream (bb_handler alloc b S) out (length out) P = Some (P', used)"
  defines "e \<equiv> bb_engine (handler_state P)" and "e' \<equiv> bb_engine (handler_state P')"
  shows "used = length out \<and> eng_inv b e' \<and> eng_map e' = Map.empty \<and> unknown_ref e' = unknown_ref e \<and> overfill e' = overfill e \<and>
    missing_level e' = missing_level e \<and> (\<forall>loc sd. ls_abs (book_side (eng_books e' loc) sd) = Map.empty) \<and>
    messages (stats P') = messages (stats P) + sf_messages F' \<and> unknown_type (stats P') = unknown_type (stats P) \<and>
    bad_length (stats P') = bad_length (stats P) \<and> empty (stats P') = empty (stats P)"
proof -
  obtain ms where ms: "out = concat (map (\<lambda>m. framed (wire m)) ms)" "list_all wf_message ms" "sf_messages F' = of_nat (length ms)"
    "consistent_all (msg_events ms) Map.empty" "live_after ms = Map.empty" using session_out [OF assms(1-5)] .
  have fr: "frames (take (length out) out) = (map wire ms, [])" using session_frames [OF ms(2)] by (simp add: ms(1))
  note evs = stream_events_wire [OF ms(2)]
  note con = consistent_all_facts [OF ms(4)]
  have "admissible_all (stream_events (\<lambda>_ _. True) (map wire ms)) (eng_map e)" using con by (simp add: evs assms(8) e_def)
  from builder_stream [OF order_refl fr assms(6,7) _ this, of alloc] assms(9) have r: "used = length out" "eng_inv b e'"
    "eng_map e' = Map.empty" "unknown_ref e' = unknown_ref e" "overfill e' = overfill e" "missing_level e' = missing_level e"
    using con ms(5) assms(8) unfolding evs by (auto simp: e_def e'_def live_after_def)
  have "foldO (\<lambda>bs. apply_verdict (bb_handler alloc b S) (classify bs)) (map wire ms) P = Some P'"
    using assms(9) fr by (auto simp: parse_stream_cut bind_eq_Some_conv)
  note counts = foldO_counts [OF this session_counts [OF ms(2)]]
  have "level_spec Map.empty loc bid = Map.empty" for loc bid by (simp add: level_spec_def level_refs_def)
  then have "ls_abs (book_side (eng_books e' loc) sd) = Map.empty" for loc sd
    using r(2,3) by (simp add: eng_inv_def books_ok_def)
  then show ?thesis using r counts ms(3) by simp
qed

section \<open>Properties\<close>


text \<open>
  Replaying a generated session into an engine without orders consumes every byte, counts every message and no malformed
  record, meets no unknown reference, no overfill and no missing level, and leaves the engine without orders and every book
  without levels: it can be replayed again and again without a reset.
\<close>

theorem replay_empties_engine:
  assumes "draws_in_range R" "0 < cfg_symbols c" "cfg_symbols c \<le> 65535"
    and "cfg_symbols c * cfg_initial_orders c + cfg_events c < 2 ^ 32" "build_feed c R (new_feed c R) = Some (out, F')"
    and "accepts S (\<lambda>_ _. True)" "eng_inv b (bb_engine (handler_state P))" "eng_map (bb_engine (handler_state P)) = Map.empty"
    and "parse_stream (bb_handler alloc b S) out (length out) P = Some (P', used)"
  defines "e \<equiv> bb_engine (handler_state P)" and "e' \<equiv> bb_engine (handler_state P')"
  shows "used = length out \<and> eng_inv b e' \<and> eng_map e' = Map.empty \<and> unknown_ref e' = unknown_ref e \<and> overfill e' = overfill e \<and>
    missing_level e' = missing_level e \<and> (\<forall>loc sd. ls_abs (book_side (eng_books e' loc) sd) = Map.empty) \<and>
    messages (stats P') = messages (stats P) + sf_messages F' \<and> unknown_type (stats P') = unknown_type (stats P) \<and>
    bad_length (stats P') = bad_length (stats P) \<and> empty (stats P') = empty (stats P)"
  using session_replayed [OF assms(1-9)] unfolding e_def e'_def .

section \<open>Witnesses\<close>

text \<open>A source of draws that always draws the same.\<close>

definition sample_draws :: "unit rng_ops" where
  "sample_draws = \<lparr>rng_seed = (\<lambda>_. ()), rng_next = (\<lambda>_. (9, ())), uniform_int = (\<lambda>lo _ _. (lo, ())), uniform_real = (\<lambda>_. (1 / 2, ())),
     geometric = (\<lambda>_ _. (2, ())), bernoulli = (\<lambda>_ _. (False, ())), std_pow = (\<lambda>x _. x)\<rparr>"

definition sample_config :: "nat \<Rightarrow> feed_config" where
  "sample_config n = \<lparr>cfg_symbols = 1, cfg_events = n, cfg_initial_orders = 0, cfg_zipf_s = 1, cfg_depth_p = 1 / 3, cfg_seed = 7\<rparr>"

lemma sample_draws_range: "draws_in_range sample_draws"
  by (simp add: draws_in_range_def sample_draws_def)


definition sample_session :: "message list" where
  "sample_session =
    [SystemEvent \<lparr>locate = 0, tracking = 0, timestamp = 34200000001000, se_event_code = 0x4F\<rparr>,
     StockDirectory \<lparr>locate = 1, tracking = 0, timestamp = 34200000001010,
       sd_stock = stock_of 0, sd_market_category = 0x51, sd_financial_status = 0x4E, sd_round_lot_size = 100,
       sd_round_lots_only = 0x4E, sd_issue_classification = 0x43, sd_issue_subtype = [0x5A, 0x20], sd_authenticity = 0x50,
       sd_short_sale_threshold = 0x4E, sd_ipo_flag = 0x4E, sd_luld_ref_price_tier = 0x31, sd_etp_flag = 0x4E,
       sd_etp_leverage_factor = 0, sd_inverse_indicator = 0x4E\<rparr>,
     SystemEvent \<lparr>locate = 0, tracking = 0, timestamp = 34200000002010, se_event_code = 0x51\<rparr>,
     AddOrder \<lparr>locate = 1, tracking = 0, timestamp = 34200000002020, ao_ref = 1, ao_side = 0x53, ao_shares = 100,
       ao_stock = stock_of 0, ao_price = 100300\<rparr>,
     OrderDelete \<lparr>locate = 1, tracking = 0, timestamp = 34200000002030, od_ref = 1\<rparr>,
     SystemEvent \<lparr>locate = 0, tracking = 0, timestamp = 34200000003030, se_event_code = 0x4D\<rparr>,
     SystemEvent \<lparr>locate = 0, tracking = 0, timestamp = 34200000004030, se_event_code = 0x43\<rparr>]"

lemma sample_session_wf: "list_all wf_message sample_session"
  by (simp add: sample_session_def wf_message_def)

lemma sample_session_built:
  "\<exists>F'. build_feed (sample_config 1) sample_draws (new_feed (sample_config 1) sample_draws) =
    Some (concat (map (\<lambda>m. framed (wire m)) sample_session), F')"
proof -
  note w = sample_session_wf [unfolded sample_session_def, simplified]
  show ?thesis
    by (simp add: build_feed_def init_symbols_def draw_mid_def draw_def emit_system_def emit_directory_def fill_header_def
        seed_orders_def feed_step_def pick_symbol_def sym_at_def add_order_def pick_price_def pick_shares_def set_live_def
        add_message_def drain_def sample_config_def sample_draws_def new_feed_def write_message_eq w Let_def
        drain_symbol.simps delete_order_def live_at_def erase_live_def sample_session_def kTick_def)
qed

text \<open>Replaying the sample session does not run out of memory when every allocation succeeds.\<close>

lemma sample_replay_memory:
  assumes "new_engine (\<lambda>_. True) b 10 = Some e"
    and "msg_events sample_session = xs @ ev # ys" "apply_events (\<lambda>_. True) b xs e = Some e1"
  shows "\<not> out_of_memory (\<lambda>_. True) b e1 ev"
proof -
  have e: "eng_books e = (\<lambda>_. new_book)" "10 \<le> growth_left (eng_orders e)"
    using assms(1) new_engine_spec [OF assms(1)] by (auto simp: new_engine_def bind_eq_Some_conv)
  have side: "book_side new_book sd = new_side" for sd by (simp add: book_side_def new_book_def)
  obtain s where s: "ls_grow (\<lambda>_. True) new_side = Some s" "ls_size s = 0" "ls_cap s = 16"
    by (simp add: ls_grow_def regrow_def new_side_def kInitialLevels_def)
  have prep: "apply_events (\<lambda>_. True) b [Prepare 1] e = Some (e\<lparr>eng_books := (\<lambda>_. new_book)(1 := \<lparr>bids = s, asks = s\<rparr>)\<rparr>)"
    by (simp add: apply_events_def eng_prepare_def e reserve_initial_def new_book_def s(1) new_side_def [THEN arg_cong, of ls_cap])
  have "msg_events sample_session = [Prepare 1, Add 1 1 0x53 100 100300, Remove 1]"
    by (simp add: sample_session_def msg_events_def)
  then consider "xs = []" "ev = Prepare 1" | "xs = [Prepare 1]" "ev = Add 1 1 0x53 100 100300" | "ev = Remove 1"
    using assms(2) by (cases xs; cases "tl xs"; cases "tl (tl xs)") auto
  then show ?thesis
  proof cases
    case 1
    then have "e1 = e" using assms(3) by simp
    then show ?thesis using 1 s(1) by (simp add: e(1) side)
  next
    case 2
    then have "e1 = e\<lparr>eng_books := (\<lambda>_. new_book)(1 := \<lparr>bids = s, asks = s\<rparr>)\<rparr>" using assms(3) prep by simp
    then show ?thesis using 2 e(2) s by (simp add: no_room_def book_side_def side_buy_def)
  qed simp
qed

theorem replay_empties_engine_witness:
  "\<exists>out F' P P'. build_feed (sample_config 1) sample_draws (new_feed (sample_config 1) sample_draws) = Some (out, F') \<and>
    parse_stream (bb_handler (\<lambda>_. True) Have_SSE2 null_sink) out (length out) P = Some (P', length out) \<and>
    eng_map (bb_engine (handler_state P')) = Map.empty \<and> messages (stats P') = messages (stats P) + sf_messages F'"
proof -
  let ?out = "concat (map (\<lambda>m. framed (wire m)) sample_session)" and ?H = "bb_handler (\<lambda>_. True) Have_SSE2 null_sink"
  obtain F' where F': "build_feed (sample_config 1) sample_draws (new_feed (sample_config 1) sample_draws) = Some (?out, F')"
    using sample_session_built by blast
  obtain e where e: "new_engine (\<lambda>_. True) Have_SSE2 10 = Some e" "eng_inv Have_SSE2 e" "eng_map e = Map.empty"
    using sample_engine by blast
  let ?P = "new_parser \<lparr>bb_engine = e, bb_sink = ()\<rparr>"
  have st: "bb_engine (handler_state ?P) = e" by (simp add: new_parser_def)
  have acc: "accepts null_sink (\<lambda>_ _. True)" by (simp add: accepts_def null_sink_def)
  have fr: "frames (take (length ?out) ?out) = (map wire sample_session, [])" using session_frames [OF sample_session_wf] by simp
  note evs = stream_events_wire [OF sample_session_wf]
  have adm: "admissible_all (stream_events (\<lambda>_ _. True) (map wire sample_session)) (eng_map e)"
    unfolding evs by (simp add: sample_session_def msg_events_def e(3))
  have inv: "eng_inv Have_SSE2 (bb_engine (handler_state ?P))" "eng_map (bb_engine (handler_state ?P)) = Map.empty"
    using e(2,3) by (simp_all add: st)
  obtain P' used where P': "parse_stream ?H ?out (length ?out) ?P = Some (P', used)"
    using builder_stream [OF order_refl fr acc inv(1) st adm, of "\<lambda>_. True"] sample_replay_memory [OF e(1)] unfolding evs by blast
  have c: "0 < cfg_symbols (sample_config 1)" "cfg_symbols (sample_config 1) \<le> 65535"
    "cfg_symbols (sample_config 1) * cfg_initial_orders (sample_config 1) + cfg_events (sample_config 1) < 2 ^ 32"
    by (simp_all add: sample_config_def)
  from replay_empties_engine [OF sample_draws_range c F' acc inv P'] F' P' show ?thesis by blast
qed

end
