(* ===== verification/Xdp_Filter.thy ===== *)
theory Xdp_Filter
  imports Packet
begin

text \<open>
  \<^verbatim>\<open>bpf/xdp_udp_filter.bpf.c\<close>: the program on the network card's queue that redirects the market-data datagrams to the AF_XDP
  socket and passes everything else to the kernel, and its configuration by \<^verbatim>\<open>src/net/xdp_receiver.cpp\<close>. Fields are compared in network
  order, as the host reads them without a byte swap. A read outside the frame, which the kernel's verifier rejects, is \<open>None\<close>.
\<close>

section \<open>The program\<close>

datatype xdp_action = XDP_PASS | XDP_REDIRECT

record filter_cfg =
  fc_dst_ip :: u32
  fc_dst_port :: u16

definition host16 :: "mem \<Rightarrow> nat \<Rightarrow> u16 option" where
  "host16 m p = map_option host_word (rd_n m p 2)"

definition host32 :: "mem \<Rightarrow> nat \<Rightarrow> u32 option" where
  "host32 m p = map_option host_word (rd_n m p 4)"

text \<open>\<open>bpf_redirect_map\<close> redirects if the map has a socket for the queue (\<open>bound\<close>), and returns its flags, \<open>XDP_PASS\<close>, otherwise.\<close>

definition redirect_map :: "bool \<Rightarrow> xdp_action" where
  "redirect_map bound = (if bound then XDP_REDIRECT else XDP_PASS)"

definition filter_udp :: "filter_cfg option \<Rightarrow> bool \<Rightarrow> mem \<Rightarrow> nat \<Rightarrow> nat \<Rightarrow> xdp_action option" where
  "filter_udp cfg bound m ip udp =
     (if length m < udp + 8 then Some XDP_PASS
      else case cfg of
        None \<Rightarrow> Some XDP_PASS
      | Some c \<Rightarrow> do {
          dest \<leftarrow> host16 m (udp + 2);
          if dest \<noteq> fc_dst_port c then Some XDP_PASS
          else do {
            daddr \<leftarrow> host32 m (ip + 16);
            if fc_dst_ip c \<noteq> 0 \<and> daddr \<noteq> fc_dst_ip c then Some XDP_PASS
            else Some (redirect_map bound) } })"

definition filter_ip :: "filter_cfg option \<Rightarrow> bool \<Rightarrow> mem \<Rightarrow> u16 \<Rightarrow> nat \<Rightarrow> xdp_action option" where
  "filter_ip cfg bound m proto l3 =
     (if proto \<noteq> bswap16 0x0800 then Some XDP_PASS
      else if length m < l3 + 20 then Some XDP_PASS
      else do {
        b0 \<leftarrow> rd m l3;
        let ihl = unat (b0 AND 0x0F);
        protocol \<leftarrow> rd m (l3 + 9);
        if ihl < 5 \<or> protocol \<noteq> 17 then Some XDP_PASS
        else do {
          frag \<leftarrow> host16 m (l3 + 6);
          if frag AND bswap16 0x3FFF \<noteq> 0 then Some XDP_PASS
          else filter_udp cfg bound m l3 (l3 + ihl * 4) } })"

definition xdp_udp_filter :: "filter_cfg option \<Rightarrow> bool \<Rightarrow> mem \<Rightarrow> xdp_action option" where
  "xdp_udp_filter cfg bound m =
     (if length m < 14 then Some XDP_PASS
      else do {
        proto \<leftarrow> host16 m 12;
        if proto = bswap16 0x8100 \<or> proto = bswap16 0x88A8
        then if length m < 18 then Some XDP_PASS
             else do { inner \<leftarrow> host16 m 16; filter_ip cfg bound m inner 18 }
        else filter_ip cfg bound m proto 14 })"

text \<open>What \<open>XdpReceiver::open\<close> writes into \<open>cfg_map\<close>: the port and the group, if there is one, in network order.\<close>

definition receiver_cfg :: "u16 \<Rightarrow> u32 option \<Rightarrow> filter_cfg" where
  "receiver_cfg port grp =
     \<lparr>fc_dst_ip = (case grp of None \<Rightarrow> 0 | Some ip \<Rightarrow> bswap32 ip), fc_dst_port = bswap16 port\<rparr>"

section \<open>Network order\<close>

lemma bswap16_inv [simp]: "bswap16 (bswap16 v) = v"
proof -
  have "bswap16 (bswap16 v) = host_word (rev (host_bytes 2 (bswap16 v)))" by (rule bswap16_def)
  then show ?thesis by (simp add: bswap_store be_bytes_def host_bytes_def [symmetric] host_word_host_bytes)
qed

lemma bswap32_inv [simp]: "bswap32 (bswap32 v) = v"
proof -
  have "bswap32 (bswap32 v) = host_word (rev (host_bytes 4 (bswap32 v)))" by (rule bswap32_def)
  then show ?thesis by (simp add: bswap_store be_bytes_def host_bytes_def [symmetric] host_word_host_bytes)
qed

lemma bswap_eq_iff [simp]: "bswap16 v = bswap16 w \<longleftrightarrow> v = w" "bswap32 v' = bswap32 w' \<longleftrightarrow> v' = w'"
  by (metis bswap16_inv, metis bswap32_inv)

lemma bswap_zero [simp]: "bswap16 0 = 0" "bswap32 0 = 0"
  using bswap_load(1) [of "[0, 0]"] bswap_load(2) [of "[0, 0, 0, 0]"] by (simp_all add: host_word_def be_word_def)

lemma bswap_eq_zero_iff [simp]: "bswap16 v = 0 \<longleftrightarrow> v = 0" "bswap32 v' = 0 \<longleftrightarrow> v' = 0"
  using bswap_eq_iff(1) [of v 0] bswap_eq_iff(2) [of v' 0] by simp_all

lemma host_net: "host16 m p = map_option bswap16 (net_be16 m p)" "host32 m p = map_option bswap32 (net_be32 m p)"
proof -
  show "host16 m p = map_option bswap16 (net_be16 m p)"
    by (cases "rd_n m p 2") (simp_all add: host16_def net_be16_eq load_be16_def)
  show "host32 m p = map_option bswap32 (net_be32 m p)"
    by (cases "rd_n m p 4") (simp_all add: host32_def net_be32_eq load_be32_def)
qed

lemma be_word_and: "(be_word [a AND c, b AND d] :: u16) = be_word [a, b] AND be_word [c, d]"
  unfolding be_word_2 [symmetric] by (rule bit_word_eqI) (auto simp: bit_simps dest: bit_imp_le_length)

text \<open>Masks can be applied in either order of bytes.\<close>

lemma bswap16_and: "bswap16 (v AND w) = bswap16 v AND bswap16 w"
proof -
  have two: "\<exists>a b. u = (be_word [a, b] :: u16)" for u
  proof -
    have "\<exists>a b. xs = [a, b]" if "length xs = 2" for xs :: "u8 list"
      using that by (auto simp: length_Suc_conv numeral_2_eq_2)
    then obtain a b where "be_bytes 2 u = [a, b]" using length_be_bytes [of 2 u] by blast
    then show ?thesis using be_word_be_bytes [of 2 u] by auto
  qed
  obtain a b c d where "v = be_word [a, b]" "w = be_word [c, d]" using two by metis
  moreover have "bswap16 (be_word [x, y]) = be_word [y, x]" for x y
    using bswap_load(1) [of "[y, x]"] by (simp add: host_word_def be_word_def)
  ultimately show ?thesis by (simp add: be_word_and [symmetric])
qed

section \<open>The filter in host order\<close>

lemma filter_udp_eq:
  assumes "udp + 4 \<le> length m \<Longrightarrow> ip + 20 \<le> length m"
  shows "filter_udp (Some (receiver_cfg port grp)) bound m ip udp = Some
    (if udp + 8 \<le> length m \<and> net_be16 m (udp + 2) = Some port \<and>
        (\<forall>g. grp = Some g \<longrightarrow> g = 0 \<or> net_be32 m (ip + 16) = Some g) \<and> bound then XDP_REDIRECT else XDP_PASS)"
proof (cases "udp + 8 \<le> length m")
  case True
  then obtain dp da where "net_be16 m (udp + 2) = Some dp" "net_be32 m (ip + 16) = Some da"
    using reads_in(2) [of "udp + 2" m] reads_in(3) [of "ip + 16" m] assms by auto
  then show ?thesis using True
    by (auto simp: filter_udp_def receiver_cfg_def host_net redirect_map_def split: option.split)
qed (simp add: filter_udp_def)

text \<open>What the filter is to do with a frame, given the parser's verdict on it.\<close>

definition for_feed :: "u16 \<Rightarrow> u32 option \<Rightarrow> udp_datagram \<Rightarrow> bool" where
  "for_feed port grp g \<longleftrightarrow> dst_port g = port \<and> (\<forall>ip. grp = Some ip \<longrightarrow> ip = 0 \<or> dst_ip g = ip)"

definition agrees_with :: "u16 \<Rightarrow> u32 option \<Rightarrow> bool \<Rightarrow> frame_error \<times> udp_datagram option \<Rightarrow> xdp_action \<Rightarrow> bool" where
  "agrees_with port grp bound = (\<lambda>(r, d) a.
     (\<forall>g. d = Some g \<longrightarrow> (a = XDP_REDIRECT) = (bound \<and> for_feed port grp g)) \<and>
     (r \<in> {FE_NotIpv4, FE_Fragment, FE_NotUdp} \<longrightarrow> a = XDP_PASS))"

lemma frag_split: "(w AND 0x2000 \<noteq> 0 \<or> w AND 0x1FFF \<noteq> 0) = (w AND 0x3FFF \<noteq> (0 :: u16))"
proof -
  have "w AND 0x3FFF = (w AND 0x2000) OR (w AND 0x1FFF)" by (simp flip: bit.conj_disj_distrib)
  then show ?thesis using frag_bits [of w] by auto
qed

lemma parse_udp_fields:
  assumes "parse_udp m ip ihl tot = Some (r, d)"
  shows "r \<in> {FE_Ok, FE_Truncated, FE_BadUdpLength} \<and>
    (\<forall>g. d = Some g \<longrightarrow> ihl + 8 \<le> tot \<and> net_be16 m (ip + ihl + 2) = Some (dst_port g) \<and> net_be32 m (ip + 16) = Some (dst_ip g))"
  using assms by (auto simp: parse_udp_def Let_def bind_eq_Some_conv kUdp_def split: if_splits)

lemma filter_ip_agrees:
  assumes "parse_ipv4 m (length m) off = Some v"
  shows "\<exists>a. filter_ip (Some (receiver_cfg port grp)) bound m (bswap16 0x0800) off = Some a \<and> agrees_with port grp bound v a"
proof (cases "length m < off + 20")
  case True
  then show ?thesis using assms by (auto simp: parse_ipv4_def filter_ip_def agrees_with_def kIpMin_def)
next
  case False
  obtain b0 where b0: "rd m off = Some b0" using reads_in(1) [of off m] False by auto
  obtain tot where tot: "net_be16 m (off + 2) = Some tot" using reads_in(2) [of "off + 2" m] False by auto
  obtain fr where fr: "net_be16 m (off + 6) = Some fr" using reads_in(2) [of "off + 6" m] False by auto
  obtain pr where pr: "rd m (off + 9) = Some pr" using reads_in(1) [of "off + 9" m] False by auto
  let ?w = "unat (b0 AND 0x0F)"
  have f: "filter_ip (Some (receiver_cfg port grp)) bound m (bswap16 0x0800) off =
    (if ?w < 5 \<or> pr \<noteq> 17 \<or> fr AND 0x3FFF \<noteq> 0 then Some XDP_PASS
     else filter_udp (Some (receiver_cfg port grp)) bound m off (off + ?w * 4))"
    using False by (simp add: filter_ip_def b0 pr fr host_net Let_def bswap16_and [symmetric])
  have u: "\<exists>a. filter_udp (Some (receiver_cfg port grp)) bound m off (off + ?w * 4) = Some a"
    using filter_udp_eq [of "off + ?w * 4" m off port grp bound] False by auto
  show ?thesis
  proof (cases "drop_bit 4 b0 \<noteq> 4 \<or> ?w * 4 < 20 \<or> unat tot < ?w * 4 \<or> length m < off + unat tot \<or> fr AND 0x3FFF \<noteq> 0 \<or> pr \<noteq> 17")
    case True
    then have "v = (FE_BadIpHeader, None) \<or> v = (FE_Truncated, None) \<or> (v = (FE_Fragment, None) \<and> fr AND 0x3FFF \<noteq> 0) \<or>
        (v = (FE_NotUdp, None) \<and> pr \<noteq> 17)"
      using assms False frag_split [of fr]
      by (auto simp: parse_ipv4_def Let_def b0 tot [simplified] fr pr kIpMin_def split: if_splits)
    then show ?thesis using f u by (auto simp: agrees_with_def)
  next
    case ok: False
    then have "parse_udp m off (?w * 4) (unat tot) = Some v"
      using assms False frag_bits [of fr] by (simp add: parse_ipv4_def Let_def b0 tot [simplified] fr pr kIpMin_def)
    then obtain r d where p: "parse_udp m off (?w * 4) (unat tot) = Some (r, d)" "v = (r, d)" by (cases v) auto
    note pf = parse_udp_fields [OF p(1)]
    have "filter_ip (Some (receiver_cfg port grp)) bound m (bswap16 0x0800) off =
        filter_udp (Some (receiver_cfg port grp)) bound m off (off + ?w * 4)" using f ok by auto
    then show ?thesis
      using filter_udp_eq [of "off + ?w * 4" m off port grp bound] False ok pf
      by (auto simp: agrees_with_def p(2) for_feed_def)
  qed
qed

section \<open>Properties\<close>


end
