(* ===== verification/Xdp_Receiver.thy ===== *)
theory Xdp_Receiver
  imports Packet "HOL-Library.Multiset"
begin

text \<open>
  \<open>XdpReceiver::poll\<close> of \<^verbatim>\<open>src/net/xdp_receiver.cpp\<close> and the way of a frame of the shared memory: from the fill ring to the kernel, through
  the receive ring to the receiver, which parses it and gives it back at the next poll. The rings belong to \<^verbatim>\<open>libxdp\<close>; they are lists, a
  reservation succeeds if the ring has room for it, and a peek returns what is there up to the batch. A received descriptor is its address
  and the bytes it points to. The kernel's part is a step relation. A write beyond one of the receiver's arrays is \<open>None\<close>.
\<close>

section \<open>The receiver\<close>

definition kXdpBatch :: nat where
  "kXdpBatch = 64"

record rx_desc =
  rx_addr :: u64
  rx_frame :: mem

record xdp_packet =
  xp_data :: mem
  xp_tsc :: u64

record xdp_stats =
  xs_frames :: u64
  xs_not_udp :: u64
  xs_fill_starve :: u64

record xdp_receiver =
  xr_open :: bool
  xr_fill :: "u64 list"
  xr_rx :: "rx_desc list"
  xr_pending :: "u64 list"
  xr_packets :: "xdp_packet list"
  xr_stats :: xdp_stats

text \<open>\<open>s.pending[s.pending_n++] = a\<close> and \<open>s.packets[out++] = p\<close>.\<close>

definition push_to :: "'a \<Rightarrow> 'a list \<Rightarrow> 'a list option" where
  "push_to x xs = (if length xs < kXdpBatch then Some (xs @ [x]) else None)"

text \<open>One descriptor: remember the frame, parse it, and hand out its payload or count it. \<open>ext\<close> is \<open>xsk_umem__extract_addr\<close>.\<close>

definition recv_frame ::
  "(u64 \<Rightarrow> u64) \<Rightarrow> u64 \<Rightarrow> rx_desc \<Rightarrow> xdp_receiver \<times> xdp_packet list \<Rightarrow> (xdp_receiver \<times> xdp_packet list) option" where
  "recv_frame ext now d = (\<lambda>(s, out). do {
     pending \<leftarrow> push_to (ext (rx_addr d)) (xr_pending s);
     let s1 = s\<lparr>xr_pending := pending\<rparr>;
     (verdict, dg) \<leftarrow> parse_udp_frame (rx_frame d) (length (rx_frame d));
     case dg of
       None \<Rightarrow> Some (s1\<lparr>xr_stats := xr_stats s1\<lparr>xs_not_udp := xs_not_udp (xr_stats s1) + 1\<rparr>\<rparr>, out)
     | Some g \<Rightarrow> do {
         out' \<leftarrow> push_to \<lparr>xp_data = take (dg_len g) (drop (payload g) (rx_frame d)), xp_tsc = now\<rparr> out;
         Some (s1, out') } })"

text \<open>The frames of the last poll go back first; \<open>room\<close> is what the fill ring can take.\<close>

definition give_back :: "nat \<Rightarrow> xdp_receiver \<Rightarrow> bool \<times> xdp_receiver" where
  "give_back room s =
     (if xr_pending s = [] then (True, s)
      else if length (xr_pending s) \<le> room
      then (True, s\<lparr>xr_fill := xr_fill s @ xr_pending s, xr_pending := []\<rparr>)
      else (False, s\<lparr>xr_stats := xr_stats s\<lparr>xs_fill_starve := xs_fill_starve (xr_stats s) + 1\<rparr>\<rparr>))"

definition xdp_receive :: "(u64 \<Rightarrow> u64) \<Rightarrow> u64 \<Rightarrow> xdp_receiver \<Rightarrow> (nat \<times> xdp_receiver) option" where
  "xdp_receive ext now s =
     (let rcvd = min kXdpBatch (length (xr_rx s))
      in if rcvd = 0 then Some (0, s)
      else do {
        (s1, out) \<leftarrow> foldO (recv_frame ext now) (take rcvd (xr_rx s)) (s, []);
        let st = xr_stats s1;
        Some (length out, s1\<lparr>xr_rx := drop rcvd (xr_rx s1), xr_packets := out,
          xr_stats := st\<lparr>xs_frames := xs_frames st + of_nat rcvd\<rparr>\<rparr>) })"

definition xdp_poll :: "(u64 \<Rightarrow> u64) \<Rightarrow> nat \<Rightarrow> u64 \<Rightarrow> xdp_receiver \<Rightarrow> (nat \<times> xdp_receiver) option" where
  "xdp_poll ext room now s =
     (if \<not> xr_open s then Some (0, s)
      else let (ok, s1) = give_back room s
        in if ok then xdp_receive ext now s1 else Some (0, s1))"

text \<open>The state that \<open>open\<close> leaves: every frame is handed to the kernel.\<close>

definition xdp_opened :: "nat \<Rightarrow> nat \<Rightarrow> xdp_receiver" where
  "xdp_opened frames frame_size =
     \<lparr>xr_open = True, xr_fill = map (\<lambda>i. of_nat i * of_nat frame_size) [0..<frames], xr_rx = [], xr_pending = [], xr_packets = [],
      xr_stats = \<lparr>xs_frames = 0, xs_not_udp = 0, xs_fill_starve = 0\<rparr>\<rparr>"

section \<open>One poll\<close>

text \<open>What a poll hands out: the payloads of the frames that the parser accepts.\<close>

definition payload_of :: "u64 \<Rightarrow> rx_desc \<Rightarrow> xdp_packet list" where
  "payload_of now d = (case parse_udp_frame (rx_frame d) (length (rx_frame d)) of
     Some (_, Some g) \<Rightarrow> [\<lparr>xp_data = take (dg_len g) (drop (payload g) (rx_frame d)), xp_tsc = now\<rparr>]
   | _ \<Rightarrow> [])"

lemma recv_frames:
  assumes "length (xr_pending s) + length ds \<le> kXdpBatch" "length out \<le> length (xr_pending s)"
  shows "foldO (recv_frame ext now) ds (s, out) = Some
    (s\<lparr>xr_pending := xr_pending s @ map (ext \<circ> rx_addr) ds, xr_stats := xr_stats s\<lparr>xs_not_udp := xs_not_udp (xr_stats s) +
        of_nat (length (filter (\<lambda>d. payload_of now d = []) ds))\<rparr>\<rparr>,
     out @ concat (map (payload_of now) ds))"
  using assms
proof (induction ds arbitrary: s out)
  case Nil
  then show ?case by simp
next
  case (Cons d ds)
  obtain r dg where p: "parse_udp_frame (rx_frame d) (length (rx_frame d)) = Some (r, dg)"
    using parse_frame_total [OF order_refl, of "rx_frame d"] by blast
  have one: "recv_frame ext now d (s, out) = Some
      (s\<lparr>xr_pending := xr_pending s @ [ext (rx_addr d)], xr_stats := xr_stats s\<lparr>xs_not_udp := xs_not_udp (xr_stats s) +
         (if payload_of now d = [] then 1 else 0)\<rparr>\<rparr>, out @ payload_of now d)"
    using Cons.prems by (cases dg) (simp_all add: recv_frame_def push_to_def p payload_of_def Let_def)
  have "length (payload_of now d) \<le> 1" by (simp add: payload_of_def split: option.split prod.split)
  then show ?case
    using Cons.prems by (simp add: one Cons.IH del: length_greater_0_conv)
qed

lemma xdp_receive_eq:
  assumes "xr_pending s = []"
  shows "xdp_receive ext now s =
    (let ds = take kXdpBatch (xr_rx s); out = concat (map (payload_of now) ds)
     in if ds = [] then Some (0, s)
        else Some (length out, s\<lparr>xr_rx := drop kXdpBatch (xr_rx s), xr_pending := map (ext \<circ> rx_addr) ds, xr_packets := out,
          xr_stats := xr_stats s\<lparr>xs_not_udp := xs_not_udp (xr_stats s) + of_nat (length (filter (\<lambda>d. payload_of now d = []) ds)),
            xs_frames := xs_frames (xr_stats s) + of_nat (length ds)\<rparr>\<rparr>))"
proof -
  let ?ds = "take (min kXdpBatch (length (xr_rx s))) (xr_rx s)"
  have t: "?ds = take kXdpBatch (xr_rx s)" "drop (min kXdpBatch (length (xr_rx s))) (xr_rx s) = drop kXdpBatch (xr_rx s)"
    by (simp_all add: min_def)
  have min_eq_0: "(min (length xs) 64 = 0) = (xs = [])" for xs :: "rx_desc list" by (auto simp: min_def)
  have t': "drop (min (length xs) n) xs = drop n xs" for xs :: "rx_desc list" and n by (simp add: min_def)
  have "foldO (recv_frame ext now) ?ds (s, []) = Some
    (s\<lparr>xr_pending := xr_pending s @ map (ext \<circ> rx_addr) ?ds, xr_stats := xr_stats s\<lparr>xs_not_udp := xs_not_udp (xr_stats s) +
        of_nat (length (filter (\<lambda>d. payload_of now d = []) ?ds))\<rparr>\<rparr>, [] @ concat (map (payload_of now) ?ds))"
    by (rule recv_frames) (simp_all add: assms)
  then show ?thesis
    unfolding xdp_receive_def Let_def t by (cases "xr_rx s = []") (simp_all add: assms kXdpBatch_def min.commute t' min_eq_0)
qed

section \<open>The frames\<close>

definition frame_of :: "nat \<Rightarrow> u64 \<Rightarrow> nat" where
  "frame_of fsz a = unat a div fsz"

text \<open>
  The receiver and, in \<open>kern\<close>, the frames that the kernel holds. The kernel takes frames from the fill ring and puts a frame that it has
  filled into the receive ring, at any address inside it.
\<close>

inductive xdp_step :: "(u64 \<Rightarrow> u64) \<Rightarrow> nat \<Rightarrow> xdp_receiver \<times> nat multiset \<Rightarrow> xdp_receiver \<times> nat multiset \<Rightarrow> bool"
  for ext :: "u64 \<Rightarrow> u64" and fsz :: nat where
  poll: "xdp_poll ext room now s = Some (n, s') \<Longrightarrow> xdp_step ext fsz (s, kern) (s', kern)"
| take_frame: "xr_fill s = a # as \<Longrightarrow>
    xdp_step ext fsz (s, kern) (s\<lparr>xr_fill := as\<rparr>, add_mset (frame_of fsz a) kern)"
| deliver: "frame_of fsz (rx_addr d) \<in># kern \<Longrightarrow>
    xdp_step ext fsz (s, kern) (s\<lparr>xr_rx := xr_rx s @ [d]\<rparr>, kern - {#frame_of fsz (rx_addr d)#})"

inductive_cases xdp_stepE: "xdp_step ext fsz sk sk'"

text \<open>All frames, wherever they are.\<close>

definition all_frames :: "nat \<Rightarrow> xdp_receiver \<times> nat multiset \<Rightarrow> nat multiset" where
  "all_frames fsz = (\<lambda>(s, kern). mset (map (frame_of fsz) (xr_fill s)) + kern +
     mset (map (frame_of fsz \<circ> rx_addr) (xr_rx s)) + mset (map (frame_of fsz) (xr_pending s)))"

definition keeps_frame :: "nat \<Rightarrow> nat \<Rightarrow> (u64 \<Rightarrow> u64) \<Rightarrow> bool" where
  "keeps_frame frames fsz ext \<longleftrightarrow> (\<forall>a. frame_of fsz a < frames \<longrightarrow> frame_of fsz (ext a) = frame_of fsz a)"

definition xdp_inv :: "nat \<Rightarrow> nat \<Rightarrow> xdp_receiver \<times> nat multiset \<Rightarrow> bool" where
  "xdp_inv frames fsz sk \<longleftrightarrow> all_frames fsz sk = mset [0..<frames] \<and> xr_open (fst sk) \<and> length (xr_pending (fst sk)) \<le> kXdpBatch"

lemma poll_conserves:
  assumes inv: "xdp_inv frames fsz (s, kern)" and k: "keeps_frame frames fsz ext"
  shows "\<exists>n s'. xdp_poll ext room now s = Some (n, s') \<and> xdp_inv frames fsz (s', kern)"
proof -
  obtain ok s1 where g: "give_back room s = (ok, s1)" by fastforce
  have i: "all_frames fsz (s, kern) = mset [0..<frames]" "xr_open s" "length (xr_pending s) \<le> kXdpBatch"
    using inv by (simp_all add: xdp_inv_def)
  have i1: "xdp_inv frames fsz (s1, kern)" "ok \<Longrightarrow> xr_pending s1 = []"
    using g i by (auto simp: give_back_def xdp_inv_def all_frames_def ac_simps split: if_splits)
  show ?thesis
  proof (cases ok)
    case False
    then show ?thesis using i(2) g i1(1) by (simp add: xdp_poll_def)
  next
    case True
    let ?ds = "take kXdpBatch (xr_rx s1)"
    have "frame_of fsz (rx_addr d) < frames" if "d \<in> set ?ds" for d
    proof -
      have "frame_of fsz (rx_addr d) \<in># all_frames fsz (s1, kern)"
        using in_set_takeD [OF that] by (auto simp: all_frames_def)
      then show ?thesis using i1(1) by (simp add: xdp_inv_def)
    qed
    then have "map (frame_of fsz \<circ> (ext \<circ> rx_addr)) ?ds = map (frame_of fsz \<circ> rx_addr) ?ds"
      using k by (simp add: keeps_frame_def)
    moreover have "mset (map (frame_of fsz \<circ> rx_addr) (xr_rx s1)) =
        mset (map (frame_of fsz \<circ> rx_addr) ?ds) + mset (map (frame_of fsz \<circ> rx_addr) (drop kXdpBatch (xr_rx s1)))"
      unfolding mset_append [symmetric] map_append [symmetric] append_take_drop_id by (rule refl)
    moreover have "mset (map (frame_of fsz) (map (ext \<circ> rx_addr) ?ds)) = mset (map (frame_of fsz \<circ> (ext \<circ> rx_addr)) ?ds)"
      by (simp only: map_map)
    ultimately have "all_frames fsz (s1\<lparr>xr_rx := drop kXdpBatch (xr_rx s1), xr_pending := map (ext \<circ> rx_addr) ?ds,
        xr_packets := out, xr_stats := st\<rparr>, kern) = all_frames fsz (s1, kern)" for out st
      using i1(2) [OF True] by (simp add: all_frames_def del: mset_map map_eq_conv)
    then show ?thesis
      using True i(2) g i1 by (simp add: xdp_poll_def xdp_receive_eq Let_def xdp_inv_def)
  qed
qed

lemma step_conserves:
  assumes "xdp_step ext fsz sk sk'" "xdp_inv frames fsz sk" "keeps_frame frames fsz ext"
  shows "xdp_inv frames fsz sk'"
  using assms(1,2)
proof (cases rule: xdp_step.cases)
  case (poll room now s n s' kern)
  then show ?thesis using poll_conserves [OF _ assms(3), of s kern room now] assms(2) by auto
next
  case (deliver d kern s)
  obtain k' where "kern = add_mset (frame_of fsz (rx_addr d)) k'" using multi_member_split [OF deliver(3)] by blast
  then show ?thesis using deliver assms(2) by (auto simp: xdp_inv_def all_frames_def)
qed (auto simp: xdp_inv_def all_frames_def)

lemma opened_inv:
  assumes "0 < fsz" "frames * fsz \<le> 2 ^ 64"
  shows "xdp_inv frames fsz (xdp_opened frames fsz, {#})"
proof -
  have "frame_of fsz (of_nat i * of_nat fsz) = i" if "i < frames" for i
  proof -
    have "i * fsz < 2 ^ 64" using that assms(1) by (intro less_le_trans [OF _ assms(2)]) simp
    then have "unat (of_nat (i * fsz) :: u64) = i * fsz" unfolding unat_of_nat by simp
    then show ?thesis using assms(1) by (simp add: frame_of_def)
  qed
  then have "map (frame_of fsz \<circ> (\<lambda>i. of_nat i * of_nat fsz)) [0..<frames] = [0..<frames]" by (intro map_idI) simp
  then show ?thesis by (simp add: xdp_inv_def all_frames_def xdp_opened_def del: mset_map)
qed

lemma xdp_reachable_inv:
  assumes "(xdp_step ext fsz)\<^sup>*\<^sup>* sk sk'" "xdp_inv frames fsz sk" "keeps_frame frames fsz ext"
  shows "xdp_inv frames fsz sk'"
  using assms(1,2) by (induction rule: rtranclp_induct) (auto intro: step_conserves assms(3))

section \<open>Properties\<close>

text \<open>
  C33. No frame of the shared memory is lost, and none is in two places, whatever the kernel, the polls and the full fill rings do: in every state
  that can be reached after \<open>open\<close>, the frames in the fill ring, with the kernel, in the receive ring and with the caller are all the frames, each
  once; and the next poll returns, within its arrays.
\<close>

theorem xdp_frames_conserved:
  assumes "(xdp_step ext fsz)\<^sup>*\<^sup>* (xdp_opened frames fsz, {#}) (s, kern)"
    and "0 < fsz" "frames * fsz \<le> 2 ^ 64" "keeps_frame frames fsz ext"
  shows "all_frames fsz (s, kern) = mset [0..<frames] \<and> (\<exists>n s'. xdp_poll ext room now s = Some (n, s'))"
  using xdp_reachable_inv [OF assms(1) opened_inv [OF assms(2,3)] assms(4)] poll_conserves [OF _ assms(4), of s kern room now]
  by (auto simp: xdp_inv_def)

definition lost_frame :: rx_desc where
  "lost_frame = \<lparr>rx_addr = 256, rx_frame = []\<rparr>"

lemma lost_frame_fate:
  "xdp_poll id 0 9 \<lparr>xr_open = True, xr_fill = [2048], xr_rx = [lost_frame], xr_pending = [], xr_packets = [],
     xr_stats = \<lparr>xs_frames = 0, xs_not_udp = 0, xs_fill_starve = 0\<rparr>\<rparr> = Some (0,
   \<lparr>xr_open = True, xr_fill = [2048], xr_rx = [], xr_pending = [256], xr_packets = [],
     xr_stats = \<lparr>xs_frames = 1, xs_not_udp = 1, xs_fill_starve = 0\<rparr>\<rparr>)"
  by code_simp

theorem xdp_frames_conserved_witness:
  "all_frames 2048 (\<lparr>xr_open = True, xr_fill = [2048], xr_rx = [], xr_pending = [256], xr_packets = [],
     xr_stats = \<lparr>xs_frames = 1, xs_not_udp = 1, xs_fill_starve = 0\<rparr>\<rparr>, {#}) = mset [0..<2]"
proof -
  have "xdp_opened 2 2048 = \<lparr>xr_open = True, xr_fill = [0, 2048], xr_rx = [], xr_pending = [], xr_packets = [],
     xr_stats = \<lparr>xs_frames = 0, xs_not_udp = 0, xs_fill_starve = 0\<rparr>\<rparr>" (is "_ = ?s0")
    by code_simp
  moreover have "xdp_step id 2048 (?s0, {#}) (?s0\<lparr>xr_fill := [2048]\<rparr>, {#0#})"
    using take_frame [of ?s0 0 "[2048]" id 2048 "{#}"] by (simp add: frame_of_def)
  moreover have "xdp_step id 2048 (?s0\<lparr>xr_fill := [2048]\<rparr>, {#0#}) (?s0\<lparr>xr_fill := [2048], xr_rx := [lost_frame]\<rparr>, {#})"
    using deliver [of 2048 lost_frame "{#0#}" id "?s0\<lparr>xr_fill := [2048]\<rparr>"] by (simp add: frame_of_def lost_frame_def)
  moreover note poll [OF lost_frame_fate, of 2048 "{#}"]
  ultimately have "(xdp_step id 2048)\<^sup>*\<^sup>* (xdp_opened 2 2048, {#}) (\<lparr>xr_open = True, xr_fill = [2048], xr_rx = [], xr_pending = [256],
     xr_packets = [], xr_stats = \<lparr>xs_frames = 1, xs_not_udp = 1, xs_fill_starve = 0\<rparr>\<rparr>, {#})"
    by simp
  then show ?thesis using xdp_frames_conserved [of id 2048 2 _ "{#}"] by (simp add: keeps_frame_def)
qed

text \<open>
  A poll first gives back the frames of the last one, then hands out the payloads of the frames that the parser accepts, in the order of the
  ring and not more than a batch; the others are counted, and all frames of the batch are remembered for the next poll. If the fill ring has no
  room the poll hands out nothing and keeps the frames.
\<close>

theorem xdp_poll_hands_out:
  assumes "xr_open s" "xr_rx s \<noteq> []"
  shows "xdp_poll ext room now s = Some
    (let ds = take kXdpBatch (xr_rx s); out = concat (map (payload_of now) ds); st = xr_stats s
     in if room < length (xr_pending s) then (0, s\<lparr>xr_stats := st\<lparr>xs_fill_starve := xs_fill_starve st + 1\<rparr>\<rparr>)
        else (length out, s\<lparr>xr_fill := xr_fill s @ xr_pending s, xr_rx := drop kXdpBatch (xr_rx s), xr_pending := map (ext \<circ> rx_addr) ds,
          xr_packets := out, xr_stats := st\<lparr>xs_frames := xs_frames st + of_nat (length ds),
            xs_not_udp := xs_not_udp st + of_nat (length (filter (\<lambda>d. payload_of now d = []) ds))\<rparr>\<rparr>))"
proof (cases "room < length (xr_pending s)")
  case True
  then show ?thesis using assms by (auto simp: xdp_poll_def give_back_def Let_def)
next
  case False
  let ?s = "s\<lparr>xr_fill := xr_fill s @ xr_pending s, xr_pending := []\<rparr>"
  have "give_back room s = (True, ?s)" using False by (simp add: give_back_def)
  then show ?thesis
    using assms False xdp_receive_eq [of ?s ext now] by (simp add: xdp_poll_def Let_def kXdpBatch_def)
qed

definition small_frame :: mem where
  "small_frame = [2, 0, 0, 0, 0, 1, 2, 0, 0, 0, 0, 2, 0x08, 0x00,
     0x45, 0, 0, 31, 0, 1, 0x40, 0, 64, 17, 0, 0, 10, 0, 0, 1, 239, 1, 1, 1,
     0x13, 0x88, 0x67, 0x6D, 0, 11, 0, 0, 1, 2, 3]"

definition two_received :: xdp_receiver where
  "two_received = \<lparr>xr_open = True, xr_fill = [], xr_rx = [lost_frame, \<lparr>rx_addr = 4352, rx_frame = small_frame\<rparr>],
     xr_pending = [2048], xr_packets = [], xr_stats = \<lparr>xs_frames = 7, xs_not_udp = 0, xs_fill_starve = 0\<rparr>\<rparr>"

lemma two_payloads: "concat (map (payload_of 9) (xr_rx two_received)) = [\<lparr>xp_data = [1, 2, 3], xp_tsc = 9\<rparr>]"
  by code_simp

theorem xdp_poll_hands_out_witness:
  "\<exists>s'. xdp_poll id 4 9 two_received = Some (1, s') \<and> xr_fill s' = [2048] \<and> xr_pending s' = [256, 4352] \<and>
     xr_packets s' = [\<lparr>xp_data = [1, 2, 3], xp_tsc = 9\<rparr>]"
proof -
  have t: "take kXdpBatch (xr_rx two_received) = xr_rx two_received" by (simp add: two_received_def kXdpBatch_def)
  have "xr_open two_received" "xr_rx two_received \<noteq> []" "length (xr_pending two_received) \<le> 4"
    "xr_fill two_received @ xr_pending two_received = [2048]" "map (id \<circ> rx_addr) (xr_rx two_received) = [256, 4352]"
    by (simp_all add: two_received_def lost_frame_def)
  then show ?thesis
    using xdp_poll_hands_out [of two_received id 4 9] by (simp add: t two_payloads Let_def)
qed

end
