(* ===== verification/Resources.thy ===== *)
theory Resources
  imports Prelude "HOL-Library.Multiset"
begin

text \<open>
  The operating system as the program sees it. The \<^emph>\<open>world\<close> is the multiset of the handles that the process holds: descriptors, mappings, and the
  objects of \<^verbatim>\<open>libbpf\<close> and \<^verbatim>\<open>libxdp\<close>. What a system call answers is a parameter (\<open>os\<close>) that may depend on the world and on the arguments, so
  every call may fail at any time. Giving back a handle that is not held, and using one, is \<open>None\<close>. The contract of the classes that own handles
  is the locale \<open>resource_class\<close>: what happens to such an object, whatever fails, its destructor leaves the world as it was.
\<close>

section \<open>Handles and system calls\<close>

datatype handle =
    Fd int
  | Mapping int nat
  | Bpf_object int
  | Umem int
  | Xsk int
  | Attached int

type_synonym world = "handle multiset"

datatype syscall =
    Sys_mmap "int option" nat bool
  | Sys_madvise int nat string
  | Sys_sysconf string
  | Sys_open string
  | Sys_fstat int
  | Sys_socket
  | Sys_fcntl int string int
  | Sys_setsockopt int string int
  | Sys_add_membership int u32 u32
  | Sys_bind int u32 u16
  | Sys_getsockname int
  | Sys_recvmmsg int nat bool
  | Sys_perf_event_open string int
  | Sys_ioctl int string
  | Sys_read int
  | Sys_if_nametoindex string
  | Bpf_open_file string
  | Bpf_load int
  | Bpf_find int string
  | Bpf_program_fd int
  | Bpf_map_update int string
  | Xsk_umem_create int nat nat nat
  | Xsk_socket_create string u32 int bool
  | Xsk_fill_reserve nat
  | Bpf_xdp_attach int int bool

record os =
  sys_ret :: "world \<Rightarrow> syscall \<Rightarrow> int"
  sys_errno :: "world \<Rightarrow> syscall \<Rightarrow> int"
  sys_strerror :: "int \<Rightarrow> string"

definition sys_error :: "os \<Rightarrow> world \<Rightarrow> syscall \<Rightarrow> string \<Rightarrow> string" where
  "sys_error os W c what = what @ '': '' @ sys_strerror os (sys_errno os W c)"

lemma sys_error_not_empty [simp]: "sys_error os W c what \<noteq> []"
  by (simp add: sys_error_def)

section \<open>Holding, using and giving back\<close>

definition acquire :: "handle \<Rightarrow> world \<Rightarrow> world" where
  "acquire h W = add_mset h W"

definition release :: "handle \<Rightarrow> world \<Rightarrow> world option" where
  "release h W = (if h \<in># W then Some (W - {#h#}) else None)"

definition call_on :: "os \<Rightarrow> handle \<Rightarrow> syscall \<Rightarrow> world \<Rightarrow> int option" where
  "call_on os h c W = (if h \<in># W then Some (sys_ret os W c) else None)"

named_theorems world_simps \<open>handles held, used and given back\<close>

lemma release_held [world_simps]:
  "release h (add_mset h W) = Some W"
  "release h (add_mset a (add_mset h W)) = Some (add_mset a W)"
  "release h (add_mset a (add_mset b (add_mset h W))) = Some (add_mset a (add_mset b W))"
  "release h (add_mset a (add_mset b (add_mset c (add_mset h W)))) = Some (add_mset a (add_mset b (add_mset c W)))"
  "release h (add_mset a (add_mset b (add_mset c (add_mset d (add_mset h W))))) = Some (add_mset a (add_mset b (add_mset c (add_mset d W))))"
  by (simp_all add: release_def add_mset_commute [of _ h])

lemma call_on_held [world_simps]: "h \<in># W \<Longrightarrow> call_on os h c W = Some (sys_ret os W c)"
  by (simp add: call_on_def)

lemma release_not_held: "h \<notin># W \<Longrightarrow> release h W = None"
  by (simp add: release_def)

declare acquire_def [world_simps]

text \<open>A handle that an object may hold: its share of the world, and giving it back.\<close>

definition held_if :: "bool \<Rightarrow> handle \<Rightarrow> handle multiset" where
  "held_if b h = (if b then {#h#} else {#})"

definition release_if :: "bool \<Rightarrow> handle \<Rightarrow> world \<Rightarrow> world option" where
  "release_if b h W = (if b then release h W else Some W)"

lemma release_if_held [world_simps]: "release_if b h (held_if b h + W) = Some W"
  by (simp add: release_if_def held_if_def world_simps)

lemma held_if_simps [simp]: "held_if True h = {#h#}" "held_if False h = {#}"
  by (simp_all add: held_if_def)

section \<open>Objects that own handles\<close>

text \<open>
  \<open>owned s\<close> are the handles of an object. The laws are framed by the handles \<open>R\<close> of the rest of the program: an operation that
  is \<open>allowed\<close> touches only what the object owns, the destructor gives back all of it.
\<close>

locale resource_class =
  fixes owned :: "'s \<Rightarrow> handle multiset"
    and well :: "'s \<Rightarrow> bool"
    and allowed :: "'c \<Rightarrow> bool"
    and step :: "'c \<Rightarrow> 's \<times> world \<Rightarrow> ('s \<times> world) option"
    and destroy :: "'s \<Rightarrow> world \<Rightarrow> world option"
  assumes step_frame: "allowed c \<Longrightarrow> well s \<Longrightarrow> \<exists>s'. step c (s, owned s + R) = Some (s', owned s' + R) \<and> well s'"
    and destroy_frame: "well s \<Longrightarrow> destroy s (owned s + R) = Some R"
begin

lemma steps_frame:
  assumes "\<And>c. c \<in> set cs \<Longrightarrow> allowed c" "well s"
  shows "\<exists>s'. foldO step cs (s, owned s + R) = Some (s', owned s' + R) \<and> well s'"
  using assms
proof (induction cs arbitrary: s)
  case Nil
  then show ?case by simp
next
  case (Cons c cs)
  obtain s1 where s1: "step c (s, owned s + R) = Some (s1, owned s1 + R)" "well s1"
    using step_frame [of c s R] Cons.prems by auto
  have "\<exists>s'. foldO step cs (s1, owned s1 + R) = Some (s', owned s' + R) \<and> well s'"
    using Cons.IH [OF Cons.prems(1) s1(2)] by simp
  then show ?case by (simp add: s1(1))
qed

text \<open>The life of an object that starts with nothing: no operation faults, and after the destructor the world is what it was.\<close>

lemma lifetime:
  assumes "\<And>c. c \<in> set cs \<Longrightarrow> allowed c" "well s" "owned s = {#}"
  shows "\<exists>s' W'. foldO step cs (s, W) = Some (s', W') \<and> destroy s' W' = Some W"
  using steps_frame [of cs s W, OF assms(1,2)] destroy_frame assms(3) by auto

text \<open>In the middle of it, the object holds what it owns, and the rest of the program has lost nothing.\<close>

lemma held:
  assumes "\<And>c. c \<in> set cs \<Longrightarrow> allowed c" "well s" "owned s = {#}" "foldO step cs (s, W) = Some (s', W')"
  shows "W' = owned s' + W \<and> well s'"
  using steps_frame [of cs s W, OF assms(1,2)] assms(3,4) by simp

end

end
