(* ===== verification/Large_Buffer.thy ===== *)
theory Large_Buffer
  imports Resources
begin

text \<open>
  \<open>LargeBuffer\<close> of \<^verbatim>\<open>include/itch/memory.hpp\<close> and \<^verbatim>\<open>src/itch/memory.cpp\<close>: the mapping, its pages touched in advance, moves and release; and the
  two buffers of the order map (\<open>allocate\<close> and \<open>rehash_for_insert\<close>) that are replaced through them. The null pointer is 0, \<open>MAP_FAILED\<close> is -1.
\<close>

section \<open>The buffer\<close>

record large_buffer =
  lb_ptr :: int
  lb_bytes :: u64

definition no_buffer :: large_buffer where
  "no_buffer = \<lparr>lb_ptr = 0, lb_bytes = 0\<rparr>"

definition lb_mapping :: "int \<Rightarrow> u64 \<Rightarrow> handle" where
  "lb_mapping p bytes = Mapping p (unat bytes)"

text \<open>The offsets that the loop writes to; it need not end if the addition wraps.\<close>

partial_function (option) touch_from :: "u64 \<Rightarrow> u64 \<Rightarrow> u64 \<Rightarrow> u64 list option" where
  "touch_from page bytes off =
     (if off < bytes then do { rest \<leftarrow> touch_from page bytes (off + page); Some (off # rest) } else Some [])"

definition lb_prefault :: "os \<Rightarrow> int \<Rightarrow> u64 \<Rightarrow> world \<Rightarrow> u64 list option" where
  "lb_prefault os p bytes W = do {
     r \<leftarrow> call_on os (lb_mapping p bytes) (Sys_madvise p (unat bytes) ''MADV_POPULATE_WRITE'') W;
     if r = 0 then Some []
     else touch_from (of_int (sys_ret os W (Sys_sysconf ''_SC_PAGESIZE''))) bytes 0 }"

text \<open>The constructor; no buffer stands for \<open>std::bad_alloc\<close>.\<close>

definition lb_construct :: "os \<Rightarrow> u64 \<Rightarrow> bool \<Rightarrow> world \<Rightarrow> (large_buffer option \<times> world) option" where
  "lb_construct os bytes prefault W =
     (if bytes = 0 then Some (Some no_buffer, W)
      else let p = sys_ret os W (Sys_mmap None (unat bytes) False)
      in if p = - 1 then Some (None, W)
      else do {
        let W1 = acquire (lb_mapping p bytes) W;
        _ \<leftarrow> call_on os (lb_mapping p bytes) (Sys_madvise p (unat bytes) ''MADV_HUGEPAGE'') W1;
        _ \<leftarrow> (if prefault then lb_prefault os p bytes W1 else Some []);
        Some (Some \<lparr>lb_ptr = p, lb_bytes = bytes\<rparr>, W1) })"

definition lb_release :: "large_buffer \<Rightarrow> world \<Rightarrow> (large_buffer \<times> world) option" where
  "lb_release b W =
     (if lb_ptr b \<noteq> 0 then do { W1 \<leftarrow> release (lb_mapping (lb_ptr b) (lb_bytes b)) W; Some (no_buffer, W1) }
      else Some (b, W))"

text \<open>The move constructor returns the new buffer and what is left of the old one.\<close>

definition lb_move :: "large_buffer \<Rightarrow> large_buffer \<times> large_buffer" where
  "lb_move b = (b, no_buffer)"

definition lb_move_assign :: "bool \<Rightarrow> large_buffer \<Rightarrow> large_buffer \<Rightarrow> world \<Rightarrow> (large_buffer \<times> large_buffer \<times> world) option" where
  "lb_move_assign same b other W =
     (if same then Some (b, other, W)
      else do { (_, W1) \<leftarrow> lb_release b W; Some (other, no_buffer, W1) })"

definition lb_destroy :: "large_buffer \<Rightarrow> world \<Rightarrow> world option" where
  "lb_destroy b W = map_option snd (lb_release b W)"

text \<open>\<open>b = LargeBuffer(bytes)\<close>: a temporary, a move, and the end of the temporary. The result says if the constructor returned.\<close>

definition lb_renew :: "os \<Rightarrow> u64 \<Rightarrow> large_buffer \<Rightarrow> world \<Rightarrow> (bool \<times> large_buffer \<times> world) option" where
  "lb_renew os bytes b W = do {
     (t, W1) \<leftarrow> lb_construct os bytes True W;
     case t of
       None \<Rightarrow> Some (False, b, W1)
     | Some t \<Rightarrow> do {
         (b', t', W2) \<leftarrow> lb_move_assign False b t W1;
         W3 \<leftarrow> lb_destroy t' W2;
         Some (True, b', W3) } }"

section \<open>What it owns\<close>

definition lb_owned :: "large_buffer \<Rightarrow> handle multiset" where
  "lb_owned b = (if lb_ptr b = 0 then {#} else {#lb_mapping (lb_ptr b) (lb_bytes b)#})"

definition lb_well :: "large_buffer \<Rightarrow> bool" where
  "lb_well b \<longleftrightarrow> (lb_ptr b = 0 \<longrightarrow> lb_bytes b = 0)"

text \<open>
  What is documented of the system: \<open>mmap\<close> never maps at the null page unless it is told to, no mapping is larger than half the address space, and
  pages have a positive size of at most a gigabyte.
\<close>

definition mem_os :: "os \<Rightarrow> bool" where
  "mem_os os \<longleftrightarrow> (\<forall>W f n pop. sys_ret os W (Sys_mmap f n pop) \<noteq> 0 \<and> (sys_ret os W (Sys_mmap f n pop) \<noteq> - 1 \<longrightarrow> n \<le> 2 ^ 63)) \<and>
     (\<forall>W. 0 < sys_ret os W (Sys_sysconf ''_SC_PAGESIZE'') \<and> sys_ret os W (Sys_sysconf ''_SC_PAGESIZE'') \<le> 2 ^ 30)"

lemma touch_from_total:
  assumes "0 < page" "unat bytes + unat page \<le> 2 ^ 64" "unat off \<le> unat bytes + unat page"
  shows "\<exists>offs. touch_from page bytes off = Some offs \<and> (\<forall>x\<in>set offs. x < bytes) \<and>
    (\<forall>i. unat off \<le> i \<longrightarrow> i < unat bytes \<longrightarrow> (\<exists>x\<in>set offs. unat x \<le> i \<and> i < unat x + unat page))"
  using assms(3)
proof (induction "unat bytes - unat off" arbitrary: off rule: less_induct)
  case less
  show ?case
  proof (cases "off < bytes")
    case False
    then show ?thesis by (subst touch_from.simps) (simp add: word_less_nat_alt)
  next
    case True
    then have lt: "unat off < unat bytes" by (simp add: word_less_nat_alt)
    then have u: "unat (off + page) = unat off + unat page"
      using assms(2) by (simp add: unat_word_ariths)
    have p: "0 < unat page" using assms(1) by (simp add: word_less_nat_alt)
    have closer: "unat bytes - unat (off + page) < unat bytes - unat off" using lt p by (simp only: u)
    obtain offs where offs: "touch_from page bytes (off + page) = Some offs" "\<forall>x\<in>set offs. x < bytes"
      "\<forall>i. unat off + unat page \<le> i \<longrightarrow> i < unat bytes \<longrightarrow> (\<exists>x\<in>set offs. unat x \<le> i \<and> i < unat x + unat page)"
      using less(1) [OF closer] u lt by (auto simp: u)
    have "\<exists>x\<in>set (off # offs). unat x \<le> i \<and> i < unat x + unat page" if "unat off \<le> i" "i < unat bytes" for i
      using offs(3) that by (cases "i < unat off + unat page") auto
    moreover have "touch_from page bytes off = Some (off # offs)" by (subst touch_from.simps) (simp add: True offs(1))
    ultimately show ?thesis using True offs(2) by auto
  qed
qed

lemma page_size:
  assumes "mem_os os"
  shows "0 < (of_int (sys_ret os W (Sys_sysconf ''_SC_PAGESIZE'')) :: u64)"
    "unat (of_int (sys_ret os W (Sys_sysconf ''_SC_PAGESIZE'')) :: u64) \<le> 2 ^ 30"
    "unat (of_int (sys_ret os W (Sys_sysconf ''_SC_PAGESIZE'')) :: u64) = nat (sys_ret os W (Sys_sysconf ''_SC_PAGESIZE''))"
proof -
  define r where "r = sys_ret os W (Sys_sysconf ''_SC_PAGESIZE'')"
  have r: "0 < r" "r \<le> 2 ^ 30" using assms by (simp_all add: mem_os_def r_def)
  define k where "k = nat r"
  have k: "sys_ret os W (Sys_sysconf ''_SC_PAGESIZE'') = int k" "0 < k" "k \<le> 2 ^ 30"
    using r by (simp_all add: k_def r_def [symmetric])
  have "unat (of_nat k :: u64) = k" using k(3) by (simp add: unat_of_nat)
  then show "0 < (of_int (sys_ret os W (Sys_sysconf ''_SC_PAGESIZE'')) :: u64)"
    "unat (of_int (sys_ret os W (Sys_sysconf ''_SC_PAGESIZE'')) :: u64) \<le> 2 ^ 30"
    "unat (of_int (sys_ret os W (Sys_sysconf ''_SC_PAGESIZE'')) :: u64) = nat (sys_ret os W (Sys_sysconf ''_SC_PAGESIZE''))"
    using k by (simp_all add: word_less_nat_alt)
qed

lemma lb_prefault_total:
  assumes "mem_os os" "lb_mapping p bytes \<in># W" "unat bytes \<le> 2 ^ 63"
  shows "\<exists>offs. lb_prefault os p bytes W = Some offs"
proof -
  let ?page = "of_int (sys_ret os W (Sys_sysconf ''_SC_PAGESIZE'')) :: u64"
  have "\<exists>offs. touch_from ?page bytes 0 = Some offs"
    using touch_from_total [of ?page bytes 0] page_size [OF assms(1), of W] assms(3) by auto
  then show ?thesis using assms(2) by (auto simp: lb_prefault_def world_simps)
qed

lemma lb_construct_frame:
  assumes "mem_os os"
  shows "(lb_construct os bytes prefault W = Some (None, W)) \<or>
    (\<exists>b. lb_construct os bytes prefault W = Some (Some b, lb_owned b + W) \<and> lb_well b \<and> lb_bytes b = bytes)"
proof -
  define p where "p = sys_ret os W (Sys_mmap None (unat bytes) False)"
  have "p \<noteq> 0" "p \<noteq> - 1 \<Longrightarrow> unat bytes \<le> 2 ^ 63" using assms by (auto simp: mem_os_def p_def)
  moreover define W1 where "W1 = add_mset (lb_mapping p bytes) W"
  ultimately have pre: "p \<noteq> - 1 \<Longrightarrow> \<exists>offs. (if prefault then lb_prefault os p bytes W1 else Some []) = Some offs"
    using lb_prefault_total [OF assms, of p bytes W1] by auto
  show ?thesis
  proof (cases "bytes = 0 \<or> p = - 1")
    case True
    then show ?thesis
      by (auto simp: lb_construct_def p_def [symmetric] no_buffer_def lb_owned_def lb_well_def)
  next
    case False
    then have "lb_construct os bytes prefault W = Some (Some \<lparr>lb_ptr = p, lb_bytes = bytes\<rparr>, W1)"
      using pre by (auto simp: lb_construct_def Let_def p_def [symmetric] W1_def world_simps)
    then show ?thesis using \<open>p \<noteq> 0\<close> by (simp add: lb_owned_def lb_well_def W1_def)
  qed
qed

lemma lb_release_frame: "lb_well b \<Longrightarrow> lb_release b (lb_owned b + R) = Some (no_buffer, R)"
  by (cases b) (auto simp: lb_release_def lb_owned_def lb_well_def no_buffer_def world_simps)

lemma lb_destroy_frame: "lb_well b \<Longrightarrow> lb_destroy b (lb_owned b + R) = Some R"
  by (simp add: lb_destroy_def lb_release_frame)

lemma no_buffer_owned [simp]: "lb_owned no_buffer = {#}" "lb_well no_buffer"
  by (simp_all add: lb_owned_def lb_well_def no_buffer_def)

lemma lb_renew_frame:
  assumes "mem_os os" "lb_well b"
  shows "lb_renew os bytes b (lb_owned b + R) = Some (False, b, lb_owned b + R) \<or>
    (\<exists>b'. lb_renew os bytes b (lb_owned b + R) = Some (True, b', lb_owned b' + R) \<and> lb_well b' \<and> lb_bytes b' = bytes)"
proof -
  have "lb_release b (lb_owned t + (lb_owned b + R)) = Some (no_buffer, lb_owned t + R)" for t
    using lb_release_frame [OF assms(2), of "lb_owned t + R"] by (simp add: ac_simps)
  moreover have "lb_destroy no_buffer W = Some W" for W
    using lb_destroy_frame [of no_buffer W] by simp
  ultimately show ?thesis
    using lb_construct_frame [OF assms(1), of bytes True "lb_owned b + R"]
    by (auto simp: lb_renew_def lb_move_assign_def)
qed

lemma lb_renew_any:
  assumes "mem_os os" "lb_well b" "W = lb_owned b + R"
  shows "\<exists>ok b'. lb_renew os bytes b W = Some (ok, b', lb_owned b' + R) \<and> lb_well b' \<and> (ok \<longrightarrow> lb_bytes b' = bytes)"
  using lb_renew_frame [OF assms(1,2), of bytes R] assms(2) unfolding assms(3) by (elim disjE exE) auto

interpretation buffer: resource_class lb_owned lb_well "\<lambda>(os, bytes). mem_os os"
  "\<lambda>(os, bytes) (b, W). map_option snd (lb_renew os bytes b W)" lb_destroy
proof unfold_locales
  fix c :: "os \<times> u64" and b :: large_buffer and R :: world
  assume "case c of (os, bytes) \<Rightarrow> mem_os os" "lb_well b"
  then show "\<exists>b'. (case c of (os, bytes) \<Rightarrow> \<lambda>(b, W). map_option snd (lb_renew os bytes b W)) (b, lb_owned b + R) =
      Some (b', lb_owned b' + R) \<and> lb_well b'"
    using lb_renew_frame [of "fst c" b "snd c" R] by (cases c) auto
qed (rule lb_destroy_frame)

section \<open>The buffers of the order map\<close>

record table_buffers =
  ctrl_buf :: large_buffer
  slot_buf :: large_buffer

text \<open>\<open>allocate\<close> assigns both; an exception of the second leaves the first.\<close>

definition tb_allocate :: "os \<Rightarrow> u64 \<Rightarrow> table_buffers \<Rightarrow> world \<Rightarrow> (bool \<times> table_buffers \<times> world) option" where
  "tb_allocate os cap t W = do {
     (ok, c, W1) \<leftarrow> lb_renew os cap (ctrl_buf t) W;
     if \<not> ok then Some (False, t\<lparr>ctrl_buf := c\<rparr>, W1)
     else do {
       (ok, s, W2) \<leftarrow> lb_renew os (cap * 24) (slot_buf t) W1;
       Some (ok, \<lparr>ctrl_buf = c, slot_buf = s\<rparr>, W2) } }"

text \<open>
  \<open>rehash_for_insert\<close> moves the buffers out, allocates new ones, reads the orders out of the old ones (\<open>use_old\<close> checks that they are still held)
  and drops them, in the reverse order of their declaration, also when an exception passes.
\<close>

definition use_old :: "large_buffer \<Rightarrow> world \<Rightarrow> unit option" where
  "use_old b W = (if lb_ptr b \<noteq> 0 \<longrightarrow> lb_mapping (lb_ptr b) (lb_bytes b) \<in># W then Some () else None)"

definition tb_rehash :: "os \<Rightarrow> u64 \<Rightarrow> table_buffers \<Rightarrow> world \<Rightarrow> (bool \<times> table_buffers \<times> world) option" where
  "tb_rehash os cap t W = do {
     let (old_ctrl, c) = lb_move (ctrl_buf t);
     let (old_slots, s) = lb_move (slot_buf t);
     (ok, t1, W1) \<leftarrow> tb_allocate os cap \<lparr>ctrl_buf = c, slot_buf = s\<rparr> W;
     _ \<leftarrow> (if ok then do { _ \<leftarrow> use_old old_ctrl W1; use_old old_slots W1 } else Some ());
     W2 \<leftarrow> lb_destroy old_slots W1;
     W3 \<leftarrow> lb_destroy old_ctrl W2;
     Some (ok, t1, W3) }"

definition tb_destroy :: "table_buffers \<Rightarrow> world \<Rightarrow> world option" where
  "tb_destroy t W = do { W1 \<leftarrow> lb_destroy (slot_buf t) W; lb_destroy (ctrl_buf t) W1 }"

definition tb_owned :: "table_buffers \<Rightarrow> handle multiset" where
  "tb_owned t = lb_owned (ctrl_buf t) + lb_owned (slot_buf t)"

definition tb_well :: "table_buffers \<Rightarrow> bool" where
  "tb_well t \<longleftrightarrow> lb_well (ctrl_buf t) \<and> lb_well (slot_buf t)"

definition no_tables :: table_buffers where
  "no_tables = \<lparr>ctrl_buf = no_buffer, slot_buf = no_buffer\<rparr>"

lemma tb_destroy_frame: "tb_well t \<Longrightarrow> tb_destroy t (tb_owned t + R) = Some R"
  using lb_destroy_frame [of "slot_buf t" "lb_owned (ctrl_buf t) + R"] lb_destroy_frame [of "ctrl_buf t" R]
  by (simp add: tb_destroy_def tb_owned_def tb_well_def ac_simps)

lemma tb_allocate_frame:
  assumes "mem_os os" "tb_well t"
  shows "\<exists>ok t'. tb_allocate os cap t (tb_owned t + R) = Some (ok, t', tb_owned t' + R) \<and> tb_well t' \<and>
    (ok \<longrightarrow> lb_bytes (ctrl_buf t') = cap \<and> lb_bytes (slot_buf t') = cap * 24)"
proof -
  have w: "lb_well (ctrl_buf t)" "lb_well (slot_buf t)" using assms(2) by (simp_all add: tb_well_def)
  obtain ok c where c: "lb_renew os cap (ctrl_buf t) (tb_owned t + R) = Some (ok, c, lb_owned c + (lb_owned (slot_buf t) + R))"
    "lb_well c" "ok \<longrightarrow> lb_bytes c = cap"
    using lb_renew_any [OF assms(1) w(1), of "tb_owned t + R" "lb_owned (slot_buf t) + R" cap]
    by (auto simp: tb_owned_def add.assoc)
  obtain ok' s where s: "lb_renew os (cap * 24) (slot_buf t) (lb_owned c + (lb_owned (slot_buf t) + R)) =
      Some (ok', s, lb_owned s + (lb_owned c + R))" "lb_well s" "ok' \<longrightarrow> lb_bytes s = cap * 24"
    using lb_renew_any [OF assms(1) w(2), of "lb_owned c + (lb_owned (slot_buf t) + R)" "lb_owned c + R" "cap * 24"]
    by (auto simp: add.left_commute)
  show ?thesis
    using c s w by (cases ok) (auto simp: tb_allocate_def tb_owned_def tb_well_def add.assoc add.left_commute)
qed

lemma tb_rehash_frame:
  assumes "mem_os os" "tb_well t"
  shows "\<exists>ok t'. tb_rehash os cap t (tb_owned t + R) = Some (ok, t', tb_owned t' + R) \<and> tb_well t' \<and>
    (ok \<longrightarrow> lb_bytes (ctrl_buf t') = cap \<and> lb_bytes (slot_buf t') = cap * 24)"
proof -
  have n: "tb_owned no_tables = {#}" "tb_well no_tables" by (simp_all add: no_tables_def tb_owned_def tb_well_def)
  obtain ok t' where t': "tb_allocate os cap no_tables (tb_owned t + R) = Some (ok, t', tb_owned t' + (tb_owned t + R))"
    "tb_well t'" "ok \<longrightarrow> lb_bytes (ctrl_buf t') = cap \<and> lb_bytes (slot_buf t') = cap * 24"
    using tb_allocate_frame [OF assms(1) n(2), of cap "tb_owned t + R"] n(1) by auto
  have u: "use_old (ctrl_buf t) (tb_owned t' + (tb_owned t + R)) = Some ()"
    "use_old (slot_buf t) (tb_owned t' + (tb_owned t + R)) = Some ()"
    by (auto simp: use_old_def tb_owned_def lb_owned_def)
  obtain W1 where "lb_destroy (slot_buf t) (tb_owned t' + (tb_owned t + R)) = Some W1" "lb_destroy (ctrl_buf t) W1 = Some (tb_owned t' + R)"
    using tb_destroy_frame [OF assms(2), of "tb_owned t' + R"]
    by (auto simp: tb_destroy_def bind_eq_Some_conv ac_simps)
  then show ?thesis
    using t' u by (auto simp: tb_rehash_def lb_move_def no_tables_def)
qed

text \<open>What may happen to a map: \<open>allocate\<close> in its constructor, and rehashes.\<close>

definition tb_step :: "os \<times> bool \<times> u64 \<Rightarrow> table_buffers \<times> world \<Rightarrow> (table_buffers \<times> world) option" where
  "tb_step = (\<lambda>(os, first, cap) (t, W).
     map_option snd (if first then tb_allocate os cap t W else tb_rehash os cap t W))"

interpretation tables: resource_class tb_owned tb_well "\<lambda>(os, _). mem_os os" tb_step tb_destroy
proof unfold_locales
  fix c :: "os \<times> bool \<times> u64" and t :: table_buffers and R :: world
  assume a: "case c of (os, _) \<Rightarrow> mem_os os" "tb_well t"
  obtain os first cap where c: "c = (os, first, cap)" by (cases c)
  show "\<exists>t'. tb_step c (t, tb_owned t + R) = Some (t', tb_owned t' + R) \<and> tb_well t'"
    using tb_rehash_frame [of os t cap R] tb_allocate_frame [of os t cap R] a by (cases first) (auto simp: c tb_step_def)
qed (rule tb_destroy_frame)

section \<open>Properties\<close>

text \<open>
  C35. Whatever \<open>mmap\<close> answers to the allocations of an order map, none of its buffers leaks, none is unmapped twice, and the orders are
  read out of the old buffers while they are still mapped: after any allocations and rehashes, the ones that throw included, the
  destructor leaves the process with the mappings it had.
\<close>

theorem order_map_buffers_released:
  assumes "\<forall>(os, first, cap)\<in>set cs. mem_os os"
  shows "\<exists>t' W'. foldO tb_step cs (no_tables, W) = Some (t', W') \<and> tb_destroy t' W' = Some W"
  by (rule tables.lifetime) (use assms in \<open>auto simp: no_tables_def tb_owned_def tb_well_def\<close>)

definition small_os :: "bool \<Rightarrow> os" where
  "small_os full = \<lparr>sys_ret = (\<lambda>W c. case c of
       Sys_mmap f n pop \<Rightarrow> if full \<or> 2 ^ 63 < n then - 1 else 4096 * (int (size W) + 1)
     | Sys_madvise p n a \<Rightarrow> if a = ''MADV_POPULATE_WRITE'' then - 1 else 0
     | Sys_sysconf k \<Rightarrow> 4096
     | _ \<Rightarrow> 0),
     sys_errno = (\<lambda>W c. 12), sys_strerror = (\<lambda>e. ''Cannot allocate memory'')\<rparr>"

lemma small_os_mem: "mem_os (small_os full)"
  by (auto simp: mem_os_def small_os_def)

lemma small_os_ret:
  "sys_ret (small_os full) W (Sys_madvise p n ''MADV_POPULATE_WRITE'') = - 1"
  "sys_ret (small_os full) W (Sys_sysconf k) = 4096"
  by (simp_all add: small_os_def)

theorem order_map_buffers_released_witness:
  "\<exists>t' W'. foldO tb_step [(small_os False, True, 32), (small_os False, False, 64), (small_os True, False, 128)] (no_tables, {#Fd 5#}) =
     Some (t', W') \<and> tb_destroy t' W' = Some {#Fd 5#}"
  by (rule order_map_buffers_released) (simp add: small_os_mem)

text \<open>
  With \<open>prefault\<close> every page of a new buffer has been touched when the constructor returns, also if the kernel does not know
  \<open>MADV_POPULATE_WRITE\<close>; the loop ends and writes only inside the buffer.
\<close>

theorem prefault_touches_every_page:
  assumes "mem_os os" "lb_mapping p bytes \<in># W" "unat bytes \<le> 2 ^ 63"
    and "sys_ret os W (Sys_madvise p (unat bytes) ''MADV_POPULATE_WRITE'') \<noteq> 0"
  shows "\<exists>offs. lb_prefault os p bytes W = Some offs \<and> (\<forall>x\<in>set offs. x < bytes) \<and>
    (\<forall>i<unat bytes. \<exists>x\<in>set offs. unat x \<le> i \<and> i < unat x + nat (sys_ret os W (Sys_sysconf ''_SC_PAGESIZE'')))"
proof -
  let ?r = "sys_ret os W (Sys_sysconf ''_SC_PAGESIZE'')"
  have "unat (of_int ?r :: u64) = nat ?r" using page_size(3) [OF assms(1)] .
  then show ?thesis
    using touch_from_total [of "of_int ?r" bytes 0] page_size [OF assms(1), of W] assms(2-4)
    by (auto simp: lb_prefault_def world_simps)
qed

theorem prefault_touches_every_page_witness:
  "\<exists>offs. lb_prefault (small_os False) 4096 10000 {#lb_mapping 4096 10000#} = Some offs \<and> (\<forall>x\<in>set offs. x < 10000) \<and>
    (\<forall>i<10000. \<exists>x\<in>set offs. unat x \<le> i \<and> i < unat x + 4096)"
  using prefault_touches_every_page [of "small_os False" 4096 10000 "{#lb_mapping 4096 10000#}", OF small_os_mem]
  by (simp add: small_os_ret)

end
