(* ===== verification/Itch_File.thy ===== *)
theory Itch_File
  imports Resources
begin

text \<open>
  \<open>ItchFile\<close> of \<^verbatim>\<open>include/net/itch_file.hpp\<close> and \<^verbatim>\<open>src/net/itch_file.cpp\<close>: a file mapped read-only. What \<open>fstat\<close> writes into its argument is the
  parameter \<open>st_size\<close>; the null pointer is 0, \<open>MAP_FAILED\<close> is -1.
\<close>

section \<open>The class\<close>

record itch_file =
  if_data :: int
  if_size :: nat

definition new_file :: itch_file where
  "new_file = \<lparr>if_data = 0, if_size = 0\<rparr>"

definition file_unmap :: "itch_file \<Rightarrow> world \<Rightarrow> (itch_file \<times> world) option" where
  "file_unmap f W =
     (if if_data f \<noteq> 0 then do { W1 \<leftarrow> release (Mapping (if_data f) (if_size f)) W; Some (new_file, W1) }
      else Some (f, W))"

definition map_fd :: "os \<Rightarrow> int \<Rightarrow> nat \<Rightarrow> bool \<Rightarrow> itch_file \<Rightarrow> world \<Rightarrow> (string \<times> itch_file \<times> world) option" where
  "map_fd os fd len populate f W = do {
     let c = Sys_mmap (Some fd) len populate;
     p \<leftarrow> call_on os (Fd fd) c W;
     let W1 = (if p = - 1 then W else acquire (Mapping p len) W);
     W2 \<leftarrow> release (Fd fd) W1;
     if p = - 1 then Some (sys_error os W c ''mmap'', f, W2)
     else do {
       _ \<leftarrow> call_on os (Mapping p len) (Sys_madvise p len ''MADV_SEQUENTIAL'') W2;
       _ \<leftarrow> call_on os (Mapping p len) (Sys_madvise p len ''MADV_WILLNEED'') W2;
       Some ([], \<lparr>if_data = p, if_size = len\<rparr>, W2) } }"

definition file_open :: "os \<Rightarrow> int \<Rightarrow> string \<Rightarrow> bool \<Rightarrow> itch_file \<Rightarrow> world \<Rightarrow> (string \<times> itch_file \<times> world) option" where
  "file_open os st_size path populate f0 W0 = do {
     (f, W) \<leftarrow> file_unmap f0 W0;
     let fd = sys_ret os W (Sys_open path);
     if fd < 0 then Some (sys_error os W (Sys_open path) ''open'', f, W)
     else do {
       let W1 = acquire (Fd fd) W;
       r \<leftarrow> call_on os (Fd fd) (Sys_fstat fd) W1;
       if r \<noteq> 0 then do { W2 \<leftarrow> release (Fd fd) W1; Some (sys_error os W1 (Sys_fstat fd) ''fstat'', f, W2) }
       else if st_size \<le> 0 then do { W2 \<leftarrow> release (Fd fd) W1; Some (''file is empty'', f, W2) }
       else map_fd os fd (nat st_size) populate f W1 } }"

definition file_is_open :: "itch_file \<Rightarrow> bool" where
  "file_is_open f \<longleftrightarrow> if_data f \<noteq> 0"

definition file_destroy :: "itch_file \<Rightarrow> world \<Rightarrow> world option" where
  "file_destroy f W =
     (if if_data f \<noteq> 0 then release (Mapping (if_data f) (if_size f)) W else Some W)"

section \<open>What it owns\<close>

definition file_owned :: "itch_file \<Rightarrow> handle multiset" where
  "file_owned f = (if if_data f = 0 then {#} else {#Mapping (if_data f) (if_size f)#})"

definition file_well :: "itch_file \<Rightarrow> bool" where
  "file_well f \<longleftrightarrow> (if_data f = 0) = (if_size f = 0)"

text \<open>\<open>mmap\<close> does not map at the null page.\<close>

definition map_os :: "os \<Rightarrow> bool" where
  "map_os os \<longleftrightarrow> (\<forall>W f n pop. sys_ret os W (Sys_mmap f n pop) \<noteq> 0)"

lemma file_unmap_frame: "file_well f \<Longrightarrow> file_unmap f (file_owned f + R) = Some (new_file, R)"
  by (cases f) (auto simp: file_unmap_def file_owned_def file_well_def new_file_def world_simps)

lemma file_destroy_frame: "file_well f \<Longrightarrow> file_destroy f (file_owned f + R) = Some R"
  by (simp add: file_destroy_def file_owned_def world_simps)

lemma map_fd_frame:
  assumes "map_os os" "0 < len"
  shows "\<exists>err f'. map_fd os fd len populate new_file (add_mset (Fd fd) R) = Some (err, f', file_owned f' + R) \<and> file_well f' \<and>
    (err = []) = file_is_open f' \<and> (file_is_open f' \<longrightarrow> if_size f' = len)"
proof -
  have "sys_ret os W (Sys_mmap (Some fd) len populate) \<noteq> 0" for W using assms(1) by (simp add: map_os_def)
  then show ?thesis
    using assms(2) by (auto simp: map_fd_def Let_def world_simps file_owned_def file_well_def new_file_def file_is_open_def)
qed

lemma file_open_frame:
  assumes "map_os os" "file_well f"
  shows "\<exists>err f'. file_open os st_size path populate f (file_owned f + R) = Some (err, f', file_owned f' + R) \<and> file_well f' \<and>
    (err = []) = file_is_open f' \<and> (file_is_open f' \<longrightarrow> int (if_size f') = st_size)"
proof -
  have n: "file_owned new_file = {#}" "file_well new_file" "\<not> file_is_open new_file"
    by (simp_all add: new_file_def file_owned_def file_well_def file_is_open_def)
  show ?thesis
  proof (cases "st_size \<le> 0")
    case True
    then show ?thesis by (auto simp: file_open_def file_unmap_frame [OF assms(2)] Let_def world_simps n)
  next
    case False
    then have "0 < nat st_size" by simp
    note m = map_fd_frame [OF assms(1) this, of _ populate R]
    show ?thesis
      using False m [of "sys_ret os R (Sys_open path)"]
      by (auto simp: file_open_def file_unmap_frame [OF assms(2)] Let_def world_simps n)
  qed
qed

type_synonym file_call = "os \<times> int \<times> string \<times> bool"

definition file_step :: "file_call \<Rightarrow> itch_file \<times> world \<Rightarrow> (itch_file \<times> world) option" where
  "file_step = (\<lambda>(os, st_size, path, populate) (f, W). map_option snd (file_open os st_size path populate f W))"

interpretation mapped_file: resource_class file_owned file_well "\<lambda>(os, _). map_os os" file_step file_destroy
proof unfold_locales
  fix c :: file_call and f :: itch_file and R :: world
  assume a: "case c of (os, _) \<Rightarrow> map_os os" "file_well f"
  obtain os st_size path populate where c: "c = (os, st_size, path, populate)" by (cases c)
  show "\<exists>f'. file_step c (f, file_owned f + R) = Some (f', file_owned f' + R) \<and> file_well f'"
    using file_open_frame [of os f st_size path populate R] a by (auto simp: c file_step_def)
qed (rule file_destroy_frame)

section \<open>Properties\<close>

text \<open>
  \<open>open\<close> returns the empty string exactly if the file is mapped, with the size that \<open>fstat\<close> gave; whichever call fails, the descriptor is closed,
  the mapping of the file that was open before is gone, and nothing else of the process is touched.
\<close>

theorem file_open_contract:
  assumes "map_os os" "file_well f"
  shows "\<exists>err f'. file_open os st_size path populate f (file_owned f + R) = Some (err, f', file_owned f' + R) \<and> file_well f' \<and>
    (err = []) = file_is_open f' \<and> (file_is_open f' \<longrightarrow> int (if_size f') = st_size) \<and> file_destroy f' (file_owned f' + R) = Some R"
  using file_open_frame [OF assms, of st_size path populate R] file_destroy_frame by blast

definition file_os :: os where
  "file_os = \<lparr>sys_ret = (\<lambda>W c. case c of Sys_open path \<Rightarrow> 3 | Sys_mmap f n pop \<Rightarrow> if 1000 < n then - 1 else 4096 | _ \<Rightarrow> 0),
     sys_errno = (\<lambda>W c. 12), sys_strerror = (\<lambda>e. ''Cannot allocate memory'')\<rparr>"

theorem file_open_contract_witness:
  "file_open file_os 9000 ''a'' True \<lparr>if_data = 8192, if_size = 50\<rparr> {#Mapping 8192 50#} = Some (''mmap: Cannot allocate memory'', new_file, {#}) \<and>
   (\<exists>err f'. file_open file_os 80 ''a'' True new_file {#} = Some (err, f', file_owned f' + {#}) \<and> file_well f' \<and>
    (err = []) = file_is_open f' \<and> (file_is_open f' \<longrightarrow> int (if_size f') = 80) \<and> file_destroy f' (file_owned f' + {#}) = Some {#})"
proof -
  have os: "map_os file_os" by (auto simp: map_os_def file_os_def)
  show ?thesis
    using file_open_contract [OF os, of new_file 80 "''a''" True "{#}"]
    by (simp add: file_open_def file_unmap_def map_fd_def file_os_def Let_def world_simps sys_error_def new_file_def file_owned_def file_well_def)
qed

end
