(* ===== verification/Udp_Receiver.thy ===== *)
theory Udp_Receiver
  imports Resources
begin

text \<open>
  \<open>UdpReceiver\<close> of \<^verbatim>\<open>include/net/udp_receiver.hpp\<close> and \<^verbatim>\<open>src/net/udp_receiver.cpp\<close>, as built for Linux: the socket and its configuration, and what a
  batch of \<^verbatim>\<open>recvmmsg\<close> becomes. \<^verbatim>\<open>inet_pton\<close>, the port that \<^verbatim>\<open>getsockname\<close> reports and the messages that \<^verbatim>\<open>recvmmsg\<close> leaves in the buffers are parameters.
\<close>

section \<open>The class\<close>

definition kUdpBatch :: nat where "kUdpBatch = 64"
definition kMaxPacket :: nat where "kMaxPacket = 2048"

record udp_options =
  uo_group :: string
  uo_port :: u16
  uo_interface_ip :: string
  uo_busy_poll_us :: int
  uo_rcvbuf_bytes :: int
  uo_timestamps :: bool

record udp_packet =
  up_data :: mem
  up_rx_ns :: u64
  up_hw_timestamp :: bool

text \<open>\<open>ur_ctrl\<close> says if the message headers have control buffers.\<close>

record udp_receiver =
  ur_fd :: int
  ur_bound_port :: u16
  ur_ctrl :: bool
  ur_packets :: "udp_packet list"

definition no_packet :: udp_packet where
  "no_packet = \<lparr>up_data = [], up_rx_ns = 0, up_hw_timestamp = False\<rparr>"

definition new_udp :: udp_receiver where
  "new_udp = \<lparr>ur_fd = - 1, ur_bound_port = 0, ur_ctrl = False, ur_packets = replicate kUdpBatch no_packet\<rparr>"

definition udp_close :: "udp_receiver \<Rightarrow> world \<Rightarrow> (udp_receiver \<times> world) option" where
  "udp_close r W = do {
     W1 \<leftarrow> (if 0 \<le> ur_fd r then release (Fd (ur_fd r)) W else Some W);
     Some (r\<lparr>ur_fd := (if 0 \<le> ur_fd r then - 1 else ur_fd r), ur_bound_port := 0\<rparr>, W1) }"

section \<open>Configuration\<close>

text \<open>The non-blocking mode; the call that failed, if one did.\<close>

definition O_NONBLOCK :: int where "O_NONBLOCK = 2048"

definition set_nonblock :: "os \<Rightarrow> int \<Rightarrow> world \<Rightarrow> syscall option option" where
  "set_nonblock os fd W = do {
     flags \<leftarrow> call_on os (Fd fd) (Sys_fcntl fd ''F_GETFL'' 0) W;
     if flags < 0 then Some (Some (Sys_fcntl fd ''F_GETFL'' 0))
     else do {
       r \<leftarrow> call_on os (Fd fd) (Sys_fcntl fd ''F_SETFL'' (flags OR O_NONBLOCK)) W;
       Some (if r < 0 then Some (Sys_fcntl fd ''F_SETFL'' (flags OR O_NONBLOCK)) else None) } }"

text \<open>\<open>bind\<close> to the group, or to any address (0); then the port that the kernel chose.\<close>

definition bind_socket :: "os \<Rightarrow> u32 \<Rightarrow> u16 \<Rightarrow> udp_options \<Rightarrow> udp_receiver \<Rightarrow> world \<Rightarrow> (string \<times> udp_receiver) option" where
  "bind_socket os addr sockport opt r W = do {
     let c = Sys_bind (ur_fd r) addr (uo_port opt);
     b \<leftarrow> call_on os (Fd (ur_fd r)) c W;
     if b \<noteq> 0 then Some (sys_error os W c ''bind'', r)
     else do {
       n \<leftarrow> call_on os (Fd (ur_fd r)) (Sys_getsockname (ur_fd r)) W;
       Some ([], if n = 0 then r\<lparr>ur_bound_port := sockport\<rparr> else r) } }"

definition join_group :: "os \<Rightarrow> (string \<Rightarrow> u32 option) \<Rightarrow> u32 \<Rightarrow> udp_options \<Rightarrow> int \<Rightarrow> world \<Rightarrow> string option" where
  "join_group os pton grp opt fd W =
     (if uo_group opt = [] then Some []
      else case if uo_interface_ip opt = [] then Some 0 else pton (uo_interface_ip opt) of
        None \<Rightarrow> Some (''invalid interface address: '' @ uo_interface_ip opt)
      | Some interface \<Rightarrow> do {
          let c = Sys_add_membership fd grp interface;
          r \<leftarrow> call_on os (Fd fd) c W;
          Some (if r \<noteq> 0 then sys_error os W c ''IP_ADD_MEMBERSHIP'' else []) })"

text \<open>Receive times of the hardware, raw, and of the software.\<close>

definition timestamping_flags :: int where
  "timestamping_flags = 4 OR 64 OR 8 OR 16"

definition set_timestamps :: "os \<Rightarrow> udp_options \<Rightarrow> int \<Rightarrow> world \<Rightarrow> string option" where
  "set_timestamps os opt fd W = do {
     _ \<leftarrow> (if 0 < uo_busy_poll_us opt then call_on os (Fd fd) (Sys_setsockopt fd ''SO_BUSY_POLL'' (uo_busy_poll_us opt)) W else Some 0);
     if \<not> uo_timestamps opt then Some []
     else do {
       let c = Sys_setsockopt fd ''SO_TIMESTAMPING'' timestamping_flags;
       r \<leftarrow> call_on os (Fd fd) c W;
       Some (if r \<noteq> 0 then sys_error os W c ''SO_TIMESTAMPING'' else []) } }"

definition configure_address ::
  "os \<Rightarrow> (string \<Rightarrow> u32 option) \<Rightarrow> u32 \<Rightarrow> u16 \<Rightarrow> udp_options \<Rightarrow> udp_receiver \<Rightarrow> world \<Rightarrow> (string \<times> udp_receiver) option" where
  "configure_address os pton addr sockport opt r W = do {
     (err, r1) \<leftarrow> bind_socket os addr sockport opt r W;
     if err \<noteq> [] then Some (err, r1)
     else do {
       err \<leftarrow> join_group os pton addr opt (ur_fd r) W;
       if err \<noteq> [] then Some (err, r1)
       else do {
         err \<leftarrow> set_timestamps os opt (ur_fd r) W;
         if err \<noteq> [] then Some (err, r1)
         else Some ([], r1\<lparr>ur_ctrl := uo_timestamps opt\<rparr>) } } }"

definition configure :: "os \<Rightarrow> (string \<Rightarrow> u32 option) \<Rightarrow> u16 \<Rightarrow> udp_options \<Rightarrow> udp_receiver \<Rightarrow> world \<Rightarrow> (string \<times> udp_receiver) option" where
  "configure os pton sockport opt r W = do {
     let fd = ur_fd r;
     failed \<leftarrow> set_nonblock os fd W;
     case failed of
       Some c \<Rightarrow> Some (sys_error os W c ''fcntl'', r)
     | None \<Rightarrow> do {
         _ \<leftarrow> call_on os (Fd fd) (Sys_setsockopt fd ''SO_REUSEADDR'' 1) W;
         _ \<leftarrow> call_on os (Fd fd) (Sys_setsockopt fd ''SO_REUSEPORT'' 1) W;
         _ \<leftarrow> call_on os (Fd fd) (Sys_setsockopt fd ''SO_RCVBUF'' (uo_rcvbuf_bytes opt)) W;
         case if uo_group opt = [] then Some 0 else pton (uo_group opt) of
           None \<Rightarrow> Some (''invalid multicast group: '' @ uo_group opt, r)
         | Some addr \<Rightarrow> configure_address os pton addr sockport opt r W } }"

definition udp_open :: "os \<Rightarrow> (string \<Rightarrow> u32 option) \<Rightarrow> u16 \<Rightarrow> udp_options \<Rightarrow> udp_receiver \<Rightarrow> world \<Rightarrow> (string \<times> udp_receiver \<times> world) option" where
  "udp_open os pton sockport opt r0 W0 = do {
     (r, W) \<leftarrow> udp_close r0 W0;
     let fd = sys_ret os W Sys_socket;
     let r1 = r\<lparr>ur_fd := fd\<rparr>;
     if fd < 0 then Some (sys_error os W Sys_socket ''socket'', r1, W)
     else do {
       let W1 = acquire (Fd fd) W;
       (err, r2) \<leftarrow> configure os pton sockport opt r1 W1;
       (r3, W2) \<leftarrow> (if err \<noteq> [] then udp_close r2 W1 else Some (r2, W1));
       Some (err, r3, W2) } }"

section \<open>Receiving\<close>

text \<open>A control message: the software and the raw hardware time of a packet, seconds and nanoseconds, or something else.\<close>

datatype cmsg = Scm_timestamping "int \<times> int" "int \<times> int" | Other_cmsg

definition to_ns :: "int \<times> int \<Rightarrow> u64" where
  "to_ns t = of_int (fst t) * 1000000000 + of_int (snd t)"

definition on_cmsg :: "cmsg \<Rightarrow> udp_packet \<Rightarrow> udp_packet" where
  "on_cmsg c p = (case c of
     Scm_timestamping sw hw \<Rightarrow>
       (if fst hw \<noteq> 0 \<or> snd hw \<noteq> 0 then p\<lparr>up_rx_ns := to_ns hw, up_hw_timestamp := True\<rparr>
        else p\<lparr>up_rx_ns := to_ns sw\<rparr>)
   | Other_cmsg \<Rightarrow> p)"

text \<open>Message \<open>i\<close> of the batch: \<open>buf\<close> holds the datagram, \<open>msg_len\<close> bytes of it. A write outside the array is \<open>None\<close>.\<close>

definition store_packet :: "nat \<Rightarrow> mem \<times> cmsg list \<Rightarrow> udp_packet list \<Rightarrow> udp_packet list option" where
  "store_packet i msg ps =
     (if i < length ps
      then Some (ps[i := fold on_cmsg (snd msg) \<lparr>up_data = fst msg, up_rx_ns = 0, up_hw_timestamp = False\<rparr>])
      else None)"

definition udp_poll :: "os \<Rightarrow> (mem \<times> cmsg list) list \<Rightarrow> udp_receiver \<Rightarrow> world \<Rightarrow> (nat \<times> udp_receiver) option" where
  "udp_poll os got r W =
     (if ur_fd r < 0 then Some (0, r)
      else do {
        n \<leftarrow> call_on os (Fd (ur_fd r)) (Sys_recvmmsg (ur_fd r) kUdpBatch (ur_ctrl r)) W;
        if n \<le> 0 then Some (0, r)
        else do {
          ps \<leftarrow> foldO (\<lambda>i. store_packet i (got ! i)) [0..<nat n] (ur_packets r);
          Some (nat n, r\<lparr>ur_packets := ps\<rparr>) } })"

section \<open>What it owns\<close>

definition udp_owned :: "udp_receiver \<Rightarrow> handle multiset" where
  "udp_owned r = (if ur_fd r < 0 then {#} else {#Fd (ur_fd r)#})"

definition udp_well :: "udp_receiver \<Rightarrow> bool" where
  "udp_well r \<longleftrightarrow> length (ur_packets r) = kUdpBatch"

definition udp_destroy :: "udp_receiver \<Rightarrow> world \<Rightarrow> world option" where
  "udp_destroy r W = map_option snd (udp_close r W)"

lemma udp_close_frame:
  "udp_close r (udp_owned r + R) = Some (r\<lparr>ur_fd := (if 0 \<le> ur_fd r then - 1 else ur_fd r), ur_bound_port := 0\<rparr>, R)"
  by (simp add: udp_close_def udp_owned_def world_simps)

lemma set_nonblock_held: "Fd fd \<in># W \<Longrightarrow> \<exists>c. set_nonblock os fd W = Some c"
  by (auto simp: set_nonblock_def world_simps)

lemma join_group_held: "Fd fd \<in># W \<Longrightarrow> \<exists>e. join_group os pton grp opt fd W = Some e"
  by (auto simp: join_group_def Let_def world_simps split: option.split)

lemma set_timestamps_held: "Fd fd \<in># W \<Longrightarrow> \<exists>e. set_timestamps os opt fd W = Some e"
  by (auto simp: set_timestamps_def Let_def world_simps)

lemma bind_socket_held:
  "Fd (ur_fd r) \<in># W \<Longrightarrow> \<exists>e p. bind_socket os addr sockport opt r W = Some (e, r\<lparr>ur_bound_port := p\<rparr>)"
  by (cases r) (auto simp: bind_socket_def Let_def world_simps)

text \<open>The configuration ends, with the descriptor and the packets as they were.\<close>

lemma configure_address_held:
  assumes "Fd (ur_fd r) \<in># W"
  shows "\<exists>err p c. configure_address os pton addr sockport opt r W = Some (err, r\<lparr>ur_bound_port := p, ur_ctrl := c\<rparr>) \<and>
    (err = [] \<longrightarrow> c = uo_timestamps opt)"
proof -
  have r: "r\<lparr>ur_bound_port := p, ur_ctrl := ur_ctrl r\<rparr> = r\<lparr>ur_bound_port := p\<rparr>" for p by (cases r) simp
  obtain e p where b: "bind_socket os addr sockport opt r W = Some (e, r\<lparr>ur_bound_port := p\<rparr>)"
    using bind_socket_held [OF assms] by blast
  obtain j where j: "join_group os pton addr opt (ur_fd r) W = Some j" using join_group_held [OF assms] by blast
  obtain t where t: "set_timestamps os opt (ur_fd r) W = Some t" using set_timestamps_held [OF assms] by blast
  define err where "err = (if e \<noteq> [] then e else if j \<noteq> [] then j else t)"
  define c where "c = (if e = [] \<and> j = [] \<and> t = [] then uo_timestamps opt else ur_ctrl r)"
  have "configure_address os pton addr sockport opt r W = Some (err, r\<lparr>ur_bound_port := p, ur_ctrl := c\<rparr>)"
    by (simp add: configure_address_def b j t err_def c_def)
  moreover have "err = [] \<longrightarrow> c = uo_timestamps opt" by (simp add: err_def c_def)
  ultimately show ?thesis by blast
qed

lemma configure_held:
  assumes "Fd (ur_fd r) \<in># W"
  shows "\<exists>err p c. configure os pton sockport opt r W = Some (err, r\<lparr>ur_bound_port := p, ur_ctrl := c\<rparr>) \<and>
    (err = [] \<longrightarrow> c = uo_timestamps opt)"
proof -
  have refused: "\<exists>err p c. Some (e, r) = Some (err, r\<lparr>ur_bound_port := p, ur_ctrl := c\<rparr>) \<and> (err = [] \<longrightarrow> c = uo_timestamps opt)"
    if "e \<noteq> []" for e
    using that by (intro exI [of _ e] exI [of _ "ur_bound_port r"] exI [of _ "ur_ctrl r"]) simp
  obtain f where f: "set_nonblock os (ur_fd r) W = Some f" using set_nonblock_held [OF assms] by blast
  show ?thesis
  proof (cases f)
    case (Some c)
    then have c: "configure os pton sockport opt r W = Some (sys_error os W c ''fcntl'', r)" by (simp add: configure_def f)
    show ?thesis unfolding c by (rule refused) simp
  next
    case None
    show ?thesis
    proof (cases "if uo_group opt = [] then Some 0 else pton (uo_group opt)")
      case no_addr: None
      then have c: "configure os pton sockport opt r W = Some (''invalid multicast group: '' @ uo_group opt, r)"
        by (simp add: configure_def f None world_simps assms)
      show ?thesis unfolding c by (rule refused) simp
    next
      case (Some addr)
      then have c: "configure os pton sockport opt r W = configure_address os pton addr sockport opt r W"
        by (simp add: configure_def f None world_simps assms)
      show ?thesis unfolding c by (rule configure_address_held [OF assms])
    qed
  qed
qed

lemma udp_open_frame:
  assumes "udp_well r"
  shows "\<exists>err r'. udp_open os pton sockport opt r (udp_owned r + R) = Some (err, r', udp_owned r' + R) \<and> udp_well r' \<and>
    (err = []) = (0 \<le> ur_fd r') \<and> (if err = [] then ur_ctrl r' = uo_timestamps opt else ur_bound_port r' = 0)"
proof -
  define fd where "fd = sys_ret os R Sys_socket"
  define r1 where "r1 = r\<lparr>ur_fd := fd, ur_bound_port := 0\<rparr>"
  show ?thesis
  proof (cases "fd < 0")
    case True
    then have "udp_open os pton sockport opt r (udp_owned r + R) = Some (sys_error os R Sys_socket ''socket'', r1, R)"
      unfolding udp_open_def udp_close_frame by (simp add: fd_def [symmetric] Let_def r1_def)
    then show ?thesis using True assms by (simp add: udp_owned_def udp_well_def r1_def)
  next
    case False
    then have "Fd (ur_fd r1) \<in># add_mset (Fd fd) R" by (simp add: r1_def)
    from configure_held [OF this, of os pton sockport opt] obtain err p c where
      c: "configure os pton sockport opt r1 (add_mset (Fd fd) R) = Some (err, r1\<lparr>ur_bound_port := p, ur_ctrl := c\<rparr>)"
        "err = [] \<longrightarrow> c = uo_timestamps opt" by blast
    have r1: "r\<lparr>ur_fd := if 0 \<le> ur_fd r then - 1 else ur_fd r, ur_bound_port := 0\<rparr>\<lparr>ur_fd := fd\<rparr> = r1" by (simp add: r1_def)
    let ?r2 = "r1\<lparr>ur_bound_port := p, ur_ctrl := c\<rparr>"
    have "udp_owned ?r2 + R = add_mset (Fd fd) R" using False by (simp add: udp_owned_def r1_def)
    then have "udp_close ?r2 (add_mset (Fd fd) R) = Some (?r2\<lparr>ur_fd := - 1, ur_bound_port := 0\<rparr>, R)"
      using udp_close_frame [of ?r2 R] False by (simp add: r1_def)
    then have "udp_open os pton sockport opt r (udp_owned r + R) =
        (if err \<noteq> [] then Some (err, ?r2\<lparr>ur_fd := - 1, ur_bound_port := 0\<rparr>, R) else Some (err, ?r2, add_mset (Fd fd) R))"
      using False c(1) unfolding udp_open_def udp_close_frame
      by (simp add: fd_def [symmetric] Let_def world_simps r1 [simplified])
    then show ?thesis
      using False c(2) assms by (auto simp: udp_owned_def udp_well_def r1_def)
  qed
qed

type_synonym udp_call = "os \<times> (string \<Rightarrow> u32 option) \<times> u16 \<times> udp_options"

definition udp_step :: "udp_call \<Rightarrow> udp_receiver \<times> world \<Rightarrow> (udp_receiver \<times> world) option" where
  "udp_step = (\<lambda>(os, pton, sockport, opt) (r, W). map_option snd (udp_open os pton sockport opt r W))"

interpretation socket: resource_class udp_owned udp_well "\<lambda>_. True" udp_step udp_destroy
proof unfold_locales
  fix c :: udp_call and r :: udp_receiver and R :: world
  assume "udp_well r"
  obtain os pton sockport opt where c: "c = (os, pton, sockport, opt)" by (cases c)
  show "\<exists>r'. udp_step c (r, udp_owned r + R) = Some (r', udp_owned r' + R) \<and> udp_well r'"
    using udp_open_frame [OF \<open>udp_well r\<close>, of os pton sockport opt R] by (auto simp: c udp_step_def)
  show "udp_destroy r (udp_owned r + R) = Some R" by (simp add: udp_destroy_def udp_close_frame)
qed

text \<open>The control messages that carry times, and the time that each gives the packet.\<close>

fun times_of :: "cmsg list \<Rightarrow> ((int \<times> int) \<times> (int \<times> int)) list" where
  "times_of [] = []"
| "times_of (Scm_timestamping sw hw # cs) = (sw, hw) # times_of cs"
| "times_of (Other_cmsg # cs) = times_of cs"

lemma times_of_append: "times_of (xs @ ys) = times_of xs @ times_of ys"
  by (induction xs rule: times_of.induct) simp_all

definition stamped :: "mem \<times> cmsg list \<Rightarrow> udp_packet \<Rightarrow> bool" where
  "stamped msg p \<longleftrightarrow> up_data p = fst msg \<and>
     (let ts = times_of (snd msg)
      in up_hw_timestamp p = (\<exists>t\<in>set ts. snd t \<noteq> (0, 0)) \<and>
         up_rx_ns p = (if ts = [] then 0 else let (sw, hw) = last ts in to_ns (if hw = (0, 0) then sw else hw)))"

lemma stamped_eq:
  "stamped m p \<Longrightarrow> p = \<lparr>up_data = fst m,
     up_rx_ns = (let ts = times_of (snd m) in if ts = [] then 0 else let (sw, hw) = last ts in to_ns (if hw = (0, 0) then sw else hw)),
     up_hw_timestamp = (\<exists>t\<in>set (times_of (snd m)). snd t \<noteq> (0, 0))\<rparr>"
  by (cases p) (simp add: stamped_def Let_def)

lemma on_cmsgs_stamped: "stamped msg (fold on_cmsg (snd msg) \<lparr>up_data = fst msg, up_rx_ns = 0, up_hw_timestamp = False\<rparr>)"
proof -
  have "stamped (d, cs) (fold on_cmsg cs \<lparr>up_data = d, up_rx_ns = 0, up_hw_timestamp = False\<rparr>)" for d cs
  proof (induction cs rule: rev_induct)
    case Nil
    then show ?case by (simp add: stamped_def)
  next
    case (snoc c cs)
    show ?case
    proof (cases c)
      case (Scm_timestamping sw hw)
      then show ?thesis
        using snoc by (cases hw) (auto simp: stamped_def times_of_append on_cmsg_def Let_def)
    next
      case Other_cmsg
      then show ?thesis using snoc by (simp add: stamped_def times_of_append on_cmsg_def)
    qed
  qed
  from this [of "fst msg" "snd msg"] show ?thesis by simp
qed

lemma store_packets:
  assumes "n \<le> length ps"
  shows "\<exists>ps'. foldO (\<lambda>i. store_packet i (got ! i)) [0..<n] ps = Some ps' \<and> length ps' = length ps \<and>
    (\<forall>i<n. stamped (got ! i) (ps' ! i))"
  using assms
proof (induction n)
  case 0
  then show ?case by simp
next
  case (Suc n)
  then obtain ps' where ps': "foldO (\<lambda>i. store_packet i (got ! i)) [0..<n] ps = Some ps'" "length ps' = length ps"
    "\<forall>i<n. stamped (got ! i) (ps' ! i)" by auto
  let ?p = "fold on_cmsg (snd (got ! n)) \<lparr>up_data = fst (got ! n), up_rx_ns = 0, up_hw_timestamp = False\<rparr>"
  have "store_packet n (got ! n) ps' = Some (ps'[n := ?p])" using ps'(2) Suc.prems by (simp add: store_packet_def)
  then have "foldO (\<lambda>i. store_packet i (got ! i)) [0..<Suc n] ps = Some (ps'[n := ?p])"
    unfolding upt_Suc_append [OF le0] foldO_snoc ps'(1) by simp
  moreover have "stamped (got ! i) (ps'[n := ?p] ! i)" if "i < Suc n" for i
    using that ps'(2,3) Suc.prems on_cmsgs_stamped [of "got ! n"] by (cases "i = n") auto
  ultimately show ?case using ps'(2) by simp
qed

section \<open>Properties\<close>

text \<open>
  \<open>open\<close> returns the empty string exactly if a socket is open at the end, configured as asked; a half-configured socket is never left open,
  and neither is the socket of an earlier \<open>open\<close>, whichever call fails.
\<close>

theorem udp_open_contract:
  assumes "udp_well r"
  shows "\<exists>err r'. udp_open os pton sockport opt r (udp_owned r + R) = Some (err, r', udp_owned r' + R) \<and> udp_well r' \<and>
    (err = []) = (0 \<le> ur_fd r') \<and> (if err = [] then ur_ctrl r' = uo_timestamps opt else ur_bound_port r' = 0) \<and>
    udp_destroy r' (udp_owned r' + R) = Some R"
  using udp_open_frame [OF assms, of os pton sockport opt R] by (auto simp: udp_destroy_def udp_close_frame)

definition udp_os :: os where
  "udp_os = \<lparr>sys_ret = (\<lambda>W c. case c of Sys_socket \<Rightarrow> 4 | Sys_setsockopt fd k v \<Rightarrow> if k = ''SO_TIMESTAMPING'' then - 1 else 0
       | Sys_recvmmsg fd n k \<Rightarrow> 2 | _ \<Rightarrow> 0),
     sys_errno = (\<lambda>W c. 22), sys_strerror = (\<lambda>e. ''Invalid argument'')\<rparr>"

theorem udp_open_contract_witness:
  "\<exists>err r'. udp_open udp_os (\<lambda>_. None) 26400 \<lparr>uo_group = [], uo_port = 26400, uo_interface_ip = [], uo_busy_poll_us = 50,
     uo_rcvbuf_bytes = 33554432, uo_timestamps = True\<rparr> (new_udp\<lparr>ur_fd := 7\<rparr>) {#Fd 7, Fd 1#} = Some (err, r', {#Fd 1#}) \<and>
     err = ''SO_TIMESTAMPING: Invalid argument'' \<and> ur_fd r' = - 1"
proof -
  let ?opt = "\<lparr>uo_group = [], uo_port = 26400, uo_interface_ip = [], uo_busy_poll_us = 50, uo_rcvbuf_bytes = 33554432, uo_timestamps = True\<rparr>"
  have w: "udp_well (new_udp\<lparr>ur_fd := 7\<rparr>)" by (simp add: udp_well_def new_udp_def)
  have "udp_open udp_os (\<lambda>_. None) 26400 ?opt (new_udp\<lparr>ur_fd := 7\<rparr>) {#Fd 7, Fd 1#} =
      Some (''SO_TIMESTAMPING: Invalid argument'', new_udp, {#Fd 1#})"
    by (simp add: udp_open_def udp_close_def configure_def configure_address_def set_nonblock_def bind_socket_def join_group_def set_timestamps_def
        udp_os_def sys_error_def new_udp_def Let_def world_simps)
  moreover have "udp_owned (new_udp\<lparr>ur_fd := 7\<rparr>) + {#Fd 1#} = {#Fd 7, Fd 1#}" by (simp add: udp_owned_def)
  ultimately show ?thesis
    using udp_open_contract [OF w, of udp_os "\<lambda>_. None" 26400 ?opt "{#Fd 1#}"] by (simp add: new_udp_def)
qed

text \<open>
  A poll gives out the datagrams of the batch in order, each with its bytes and with the last time that the kernel attached: the hardware time
  where there is one and else the software time, 0 if there is none; it never writes outside the arrays.
\<close>

theorem udp_poll_batch:
  assumes "udp_well r" "0 \<le> ur_fd r" "Fd (ur_fd r) \<in># W"
    and "sys_ret os W (Sys_recvmmsg (ur_fd r) kUdpBatch (ur_ctrl r)) = int (length got)" "length got \<le> kUdpBatch"
  shows "\<exists>r'. udp_poll os got r W = Some (length got, r') \<and> udp_well r' \<and> ur_fd r' = ur_fd r \<and>
    list_all2 stamped got (take (length got) (ur_packets r'))"
proof -
  obtain ps where ps: "foldO (\<lambda>i. store_packet i (got ! i)) [0..<length got] (ur_packets r) = Some ps" "length ps = length (ur_packets r)"
    "\<forall>i<length got. stamped (got ! i) (ps ! i)"
    using store_packets [of "length got" "ur_packets r" got] assms(1,5) by (auto simp: udp_well_def)
  have "udp_poll os got r W = Some (length got, if got = [] then r else r\<lparr>ur_packets := ps\<rparr>)"
    using assms(2-4) ps(1) by (simp add: udp_poll_def world_simps)
  then show ?thesis
    using ps assms(1,5) by (auto simp: udp_well_def list_all2_conv_all_nth)
qed

theorem udp_poll_batch_witness:
  "\<exists>r'. udp_poll udp_os [([77], [Other_cmsg, Scm_timestamping (3, 5) (0, 0)]), ([78, 79], [Scm_timestamping (3, 6) (3, 7)])]
      (new_udp\<lparr>ur_fd := 4\<rparr>) {#Fd 4#} = Some (2, r') \<and>
    take 2 (ur_packets r') = [\<lparr>up_data = [77], up_rx_ns = 3000000005, up_hw_timestamp = False\<rparr>,
      \<lparr>up_data = [78, 79], up_rx_ns = 3000000007, up_hw_timestamp = True\<rparr>]"
proof -
  let ?got = "[([77 :: u8], [Other_cmsg, Scm_timestamping (3, 5) (0, 0)]), ([78, 79], [Scm_timestamping (3, 6) (3, 7)])]"
  have "udp_well (new_udp\<lparr>ur_fd := 4\<rparr>)" by (simp add: udp_well_def new_udp_def)
  from udp_poll_batch [OF this, of "{#Fd 4#}" udp_os ?got] obtain r' where r':
    "udp_poll udp_os ?got (new_udp\<lparr>ur_fd := 4\<rparr>) {#Fd 4#} = Some (2, r')" "list_all2 stamped ?got (take 2 (ur_packets r'))"
    by (auto simp: udp_os_def kUdpBatch_def numeral_2_eq_2)
  then obtain p q where pq: "take 2 (ur_packets r') = [p, q]" "stamped (?got ! 0) p" "stamped (?got ! 1) q"
    by (auto simp: list_all2_Cons1)
  show ?thesis
    using r'(1) pq(1) stamped_eq [OF pq(2)] stamped_eq [OF pq(3)] by (simp add: to_ns_def)
qed

end
