(* ===== verification/Xdp_Socket.thy ===== *)
theory Xdp_Socket
  imports Xdp_Receiver Xdp_Filter Resources
begin

text \<open>
  \<open>XdpReceiver::open\<close> and \<open>close\<close> of \<^verbatim>\<open>src/net/xdp_receiver.cpp\<close>: the BPF program and its configuration, the shared memory, the socket, the fill
  ring, the attachment to the network card and the multicast membership, in the order of the code, with every failure; and the order of giving
  back. What \<^verbatim>\<open>libbpf\<close> and \<^verbatim>\<open>libxdp\<close> return, and the objects that they store through their arguments, are parameters. \<open>poll\<close> is in \<open>Xdp_Receiver\<close>.
\<close>

section \<open>The receiver's resources\<close>

record xdp_options =
  xo_ifname :: string
  xo_queue :: u32
  xo_dst_port :: u16
  xo_group :: string
  xo_bpf_object :: string
  xo_native_mode :: bool
  xo_zero_copy :: bool
  xo_frames :: u32
  xo_frame_size :: u32

text \<open>\<open>xe_pton\<close> is \<^verbatim>\<open>inet_pton\<close>, its address in host order; the two pointers are what a successful \<open>create\<close> stores.\<close>

record xdp_env =
  xe_os :: os
  xe_pton :: "string \<Rightarrow> u32 option"
  xe_umem :: int
  xe_xsk :: int

record xdp_impl =
  xi_ifindex :: int
  xi_obj :: int
  xi_prog_fd :: int
  xi_attached :: bool
  xi_area :: int
  xi_size :: nat
  xi_umem :: int
  xi_xsk :: int
  xi_mcast_fd :: int
  xi_cfg :: filter_cfg
  xi_rings :: xdp_receiver

definition new_xdp :: xdp_impl where
  "new_xdp = \<lparr>xi_ifindex = 0, xi_obj = 0, xi_prog_fd = - 1, xi_attached = False, xi_area = 0, xi_size = 0, xi_umem = 0, xi_xsk = 0,
     xi_mcast_fd = - 1, xi_cfg = \<lparr>fc_dst_ip = 0, fc_dst_port = 0\<rparr>, xi_rings = (xdp_opened 0 0)\<lparr>xr_open := False\<rparr>\<rparr>"

section \<open>close\<close>

text \<open>A socket is deleted while its memory object is alive, and that while the memory is mapped.\<close>

definition xsk_delete :: "xdp_impl \<Rightarrow> world \<Rightarrow> world option" where
  "xsk_delete s W =
     (if xi_xsk s \<noteq> 0 \<and> Umem (xi_umem s) \<notin># W then None else release_if (xi_xsk s \<noteq> 0) (Xsk (xi_xsk s)) W)"

definition umem_delete :: "xdp_impl \<Rightarrow> world \<Rightarrow> world option" where
  "umem_delete s W =
     (if xi_umem s \<noteq> 0 \<and> Mapping (xi_area s) (xi_size s) \<notin># W then None
      else release_if (xi_umem s \<noteq> 0) (Umem (xi_umem s)) W)"

definition xdp_close :: "xdp_impl \<Rightarrow> world \<Rightarrow> (xdp_impl \<times> world) option" where
  "xdp_close s W = do {
     W1 \<leftarrow> release_if (xi_attached s) (Attached (xi_ifindex s)) W;
     W2 \<leftarrow> release_if (0 \<le> xi_mcast_fd s) (Fd (xi_mcast_fd s)) W1;
     W3 \<leftarrow> xsk_delete s W2;
     W4 \<leftarrow> umem_delete s W3;
     W5 \<leftarrow> release_if (xi_area s \<noteq> 0) (Mapping (xi_area s) (xi_size s)) W4;
     W6 \<leftarrow> release_if (xi_obj s \<noteq> 0) (Bpf_object (xi_obj s)) W5;
     Some (s\<lparr>xi_attached := False, xi_mcast_fd := (if 0 \<le> xi_mcast_fd s then - 1 else xi_mcast_fd s), xi_xsk := 0, xi_umem := 0, xi_area := 0,
       xi_obj := 0, xi_prog_fd := - 1, xi_rings := (xi_rings s)\<lparr>xr_open := False, xr_pending := []\<rparr>\<rparr>, W6) }"

section \<open>open, step by step\<close>

type_synonym xdp_act = "xdp_impl \<times> world \<Rightarrow> (string \<times> xdp_impl \<times> world) option"

fun run_steps :: "xdp_act list \<Rightarrow> xdp_act" where
  "run_steps [] (s, W) = Some ([], s, W)"
| "run_steps (f # fs) (s, W) = do {
     (e, s1, W1) \<leftarrow> f (s, W);
     if e \<noteq> [] then Some (e, s1, W1) else run_steps fs (s1, W1) }"

definition xdp_err :: "xdp_env \<Rightarrow> string \<Rightarrow> int \<Rightarrow> string" where
  "xdp_err E what e = what @ '': '' @ sys_strerror (xe_os E) e"

definition errno_err :: "xdp_env \<Rightarrow> world \<Rightarrow> syscall \<Rightarrow> string \<Rightarrow> string" where
  "errno_err E W c what = xdp_err E what (sys_errno (xe_os E) W c)"

definition find_interface :: "xdp_env \<Rightarrow> xdp_options \<Rightarrow> xdp_act" where
  "find_interface E opt = (\<lambda>(s, W).
     (if xo_frames opt AND (xo_frames opt - 1) \<noteq> 0 \<or> xo_frames opt = 0 then Some (''frames must be a power of two'', s, W)
      else let c = Sys_if_nametoindex (xo_ifname opt); i = sys_ret (xe_os E) W c; s1 = s\<lparr>xi_ifindex := i\<rparr>
        in Some (if i = 0 then errno_err E W c (''if_nametoindex('' @ xo_ifname opt @ '')'') else [], s1, W)))"

definition load_program :: "xdp_env \<Rightarrow> xdp_options \<Rightarrow> xdp_act" where
  "load_program E opt = (\<lambda>(s, W).
     (let c = Bpf_open_file (xo_bpf_object opt); obj = sys_ret (xe_os E) W c; s1 = s\<lparr>xi_obj := obj\<rparr>
      in if obj = 0 then Some (errno_err E W c (''bpf_object__open_file('' @ xo_bpf_object opt @ '')''), s1, W)
      else do {
        let W1 = acquire (Bpf_object obj) W;
        e \<leftarrow> call_on (xe_os E) (Bpf_object obj) (Bpf_load obj) W1;
        if e \<noteq> 0 then Some (xdp_err E ''bpf_object__load'' (- e), s1, W1)
        else do {
          prog \<leftarrow> call_on (xe_os E) (Bpf_object obj) (Bpf_find obj ''xdp_udp_filter'') W1;
          cfg \<leftarrow> call_on (xe_os E) (Bpf_object obj) (Bpf_find obj ''cfg_map'') W1;
          xsks \<leftarrow> call_on (xe_os E) (Bpf_object obj) (Bpf_find obj ''xsks_map'') W1;
          if prog = 0 \<or> cfg = 0 \<or> xsks = 0 then Some (''BPF object lacks xdp_udp_filter/cfg_map/xsks_map'', s1, W1)
          else do {
            fd \<leftarrow> call_on (xe_os E) (Bpf_object obj) (Bpf_program_fd prog) W1;
            Some ([], s1\<lparr>xi_prog_fd := fd\<rparr>, W1) } } }))"

definition set_filter :: "xdp_env \<Rightarrow> xdp_options \<Rightarrow> xdp_act" where
  "set_filter E opt = (\<lambda>(s, W).
     (if xo_group opt \<noteq> [] \<and> xe_pton E (xo_group opt) = None then Some (''invalid group: '' @ xo_group opt, s, W)
      else do {
        let cfg = receiver_cfg (xo_dst_port opt) (if xo_group opt = [] then None else xe_pton E (xo_group opt));
        let c = Bpf_map_update (xi_obj s) ''cfg_map'';
        r \<leftarrow> call_on (xe_os E) (Bpf_object (xi_obj s)) c W;
        if r \<noteq> 0 then Some (errno_err E W c ''cfg_map update'', s, W)
        else Some ([], s\<lparr>xi_cfg := cfg\<rparr>, W) }))"

definition map_memory :: "xdp_env \<Rightarrow> xdp_options \<Rightarrow> xdp_act" where
  "map_memory E opt = (\<lambda>(s, W).
     (let len = unat (xo_frames opt) * unat (xo_frame_size opt); c = Sys_mmap None len True; p = sys_ret (xe_os E) W c
      in if p = - 1 then Some (errno_err E W c ''mmap(UMEM)'', s\<lparr>xi_size := len, xi_area := 0\<rparr>, W)
      else Some ([], s\<lparr>xi_size := len, xi_area := p\<rparr>, acquire (Mapping p len) W)))"

definition create_umem :: "xdp_env \<Rightarrow> xdp_options \<Rightarrow> xdp_act" where
  "create_umem E opt = (\<lambda>(s, W). do {
     e \<leftarrow> call_on (xe_os E) (Mapping (xi_area s) (xi_size s))
       (Xsk_umem_create (xi_area s) (xi_size s) (unat (xo_frames opt * 2)) (unat (xo_frame_size opt))) W;
     if e \<noteq> 0 then Some (xdp_err E ''xsk_umem__create'' (- e), s, W)
     else Some ([], s\<lparr>xi_umem := xe_umem E\<rparr>, acquire (Umem (xe_umem E)) W) })"

definition create_socket :: "xdp_env \<Rightarrow> xdp_options \<Rightarrow> xdp_act" where
  "create_socket E opt = (\<lambda>(s, W). do {
     e \<leftarrow> call_on (xe_os E) (Umem (xi_umem s)) (Xsk_socket_create (xo_ifname opt) (xo_queue opt) (xi_umem s) (xo_zero_copy opt)) W;
     if e \<noteq> 0 then Some (xdp_err E ''xsk_socket__create'' (- e), s, W)
     else do {
       let W1 = acquire (Xsk (xe_xsk E)) W;
       let s1 = s\<lparr>xi_xsk := xe_xsk E, xi_rings := (xi_rings s)\<lparr>xr_open := True, xr_fill := [], xr_rx := []\<rparr>\<rparr>;
       let c = Bpf_map_update (xi_obj s) ''xsks_map'';
       r \<leftarrow> call_on (xe_os E) (Bpf_object (xi_obj s)) c W1;
       Some (if r \<noteq> 0 then errno_err E W1 c ''xsks_map update'' else [], s1, W1) } })"

definition fill_ring :: "xdp_env \<Rightarrow> xdp_options \<Rightarrow> xdp_act" where
  "fill_ring E opt = (\<lambda>(s, W). do {
     n \<leftarrow> call_on (xe_os E) (Umem (xi_umem s)) (Xsk_fill_reserve (unat (xo_frames opt))) W;
     if n \<noteq> int (unat (xo_frames opt)) then Some (''fill ring smaller than UMEM'', s, W)
     else Some ([], s\<lparr>xi_rings := (xi_rings s)\<lparr>xr_fill := xr_fill (xi_rings s) @
       map (\<lambda>i. of_nat i * ucast (xo_frame_size opt)) [0..<unat (xo_frames opt)]\<rparr>\<rparr>, W) })"

definition attach_program :: "xdp_env \<Rightarrow> xdp_options \<Rightarrow> xdp_act" where
  "attach_program E opt = (\<lambda>(s, W). do {
     e \<leftarrow> call_on (xe_os E) (Bpf_object (xi_obj s)) (Bpf_xdp_attach (xi_ifindex s) (xi_prog_fd s) (xo_native_mode opt)) W;
     if e \<noteq> 0 then Some (xdp_err E ''bpf_xdp_attach'' (- e), s, W)
     else Some ([], s\<lparr>xi_attached := True\<rparr>, acquire (Attached (xi_ifindex s)) W) })"

definition join_multicast :: "xdp_env \<Rightarrow> xdp_options \<Rightarrow> xdp_act" where
  "join_multicast E opt = (\<lambda>(s, W).
     (if xo_group opt = [] then Some ([], s, W)
      else let fd = sys_ret (xe_os E) W Sys_socket; s1 = s\<lparr>xi_mcast_fd := fd\<rparr>
      in if fd < 0 then Some (errno_err E W Sys_socket ''IP_ADD_MEMBERSHIP'', s1, W)
      else do {
        let W1 = acquire (Fd fd) W;
        let c = Sys_add_membership fd (fc_dst_ip (xi_cfg s)) (word_of_int (xi_ifindex s));
        r \<leftarrow> call_on (xe_os E) (Fd fd) c W1;
        Some (if r \<noteq> 0 then errno_err E W1 c ''IP_ADD_MEMBERSHIP'' else [], s1, W1) }))"

definition xdp_open :: "xdp_env \<Rightarrow> xdp_options \<Rightarrow> xdp_impl \<Rightarrow> world \<Rightarrow> (string \<times> xdp_impl \<times> world) option" where
  "xdp_open E opt s W = do {
     sW \<leftarrow> xdp_close s W;
     run_steps (map (\<lambda>f. f E opt) [find_interface, load_program, set_filter, map_memory, create_umem, create_socket, fill_ring,
       attach_program, join_multicast]) sW }"

section \<open>What it owns\<close>

definition xdp_owned :: "xdp_impl \<Rightarrow> handle multiset" where
  "xdp_owned s = held_if (xi_attached s) (Attached (xi_ifindex s)) + held_if (0 \<le> xi_mcast_fd s) (Fd (xi_mcast_fd s)) +
     held_if (xi_xsk s \<noteq> 0) (Xsk (xi_xsk s)) + held_if (xi_umem s \<noteq> 0) (Umem (xi_umem s)) +
     held_if (xi_area s \<noteq> 0) (Mapping (xi_area s) (xi_size s)) + held_if (xi_obj s \<noteq> 0) (Bpf_object (xi_obj s))"

definition xdp_well :: "xdp_impl \<Rightarrow> bool" where
  "xdp_well s \<longleftrightarrow> (xi_xsk s \<noteq> 0 \<longrightarrow> xi_umem s \<noteq> 0) \<and> (xi_umem s \<noteq> 0 \<longrightarrow> xi_area s \<noteq> 0) \<and> xr_open (xi_rings s) = (xi_xsk s \<noteq> 0)"

definition xdp_destroy :: "xdp_impl \<Rightarrow> world \<Rightarrow> world option" where
  "xdp_destroy s W = map_option snd (xdp_close s W)"

text \<open>The libraries never give out null pointers, and \<open>mmap\<close> does not map at the null page.\<close>

definition xdp_env_ok :: "xdp_env \<Rightarrow> bool" where
  "xdp_env_ok E \<longleftrightarrow> xe_umem E \<noteq> 0 \<and> xe_xsk E \<noteq> 0 \<and> (\<forall>W f n pop. sys_ret (xe_os E) W (Sys_mmap f n pop) \<noteq> 0)"

text \<open>The state after the first \<open>k\<close> kinds of resources: the object, the mapping, the memory object, the socket, the attachment.\<close>

definition up_to :: "nat \<Rightarrow> xdp_impl \<Rightarrow> bool" where
  "up_to k s \<longleftrightarrow> (xi_obj s \<noteq> 0) = (1 \<le> k) \<and> (xi_area s \<noteq> 0) = (2 \<le> k) \<and> (xi_umem s \<noteq> 0) = (3 \<le> k) \<and> (xi_xsk s \<noteq> 0) = (4 \<le> k) \<and>
     xi_attached s = (5 \<le> k) \<and> xi_mcast_fd s < 0 \<and> xr_open (xi_rings s) = (4 \<le> k) \<and> xr_pending (xi_rings s) = []"

lemma xdp_close_frame:
  assumes "xdp_well s"
  shows "\<exists>s'. xdp_close s (xdp_owned s + R) = Some (s', R) \<and> up_to 0 s'"
proof -
  let ?o = "held_if (xi_obj s \<noteq> 0) (Bpf_object (xi_obj s)) + R"
  let ?a = "held_if (xi_area s \<noteq> 0) (Mapping (xi_area s) (xi_size s)) + ?o"
  let ?u = "held_if (xi_umem s \<noteq> 0) (Umem (xi_umem s)) + ?a"
  have x: "xsk_delete s (held_if (xi_xsk s \<noteq> 0) (Xsk (xi_xsk s)) + ?u) = Some ?u"
    using assms by (auto simp: xsk_delete_def xdp_well_def world_simps simp del: add_mset_add_single)
  have u: "umem_delete s ?u = Some ?a"
    using assms by (auto simp: umem_delete_def xdp_well_def world_simps)
  show ?thesis
    by (simp add: xdp_close_def xdp_owned_def add.assoc world_simps x u up_to_def)
qed

text \<open>
  \<open>establishes P f Q\<close>: from \<open>P\<close> the step ends without a fault, touches only what the object owns, leaves an object that can be closed, and makes \<open>Q\<close>
  true if it reports no error.
\<close>

definition establishes :: "(xdp_impl \<Rightarrow> bool) \<Rightarrow> xdp_act \<Rightarrow> (xdp_impl \<Rightarrow> bool) \<Rightarrow> bool" where
  "establishes P f Q \<longleftrightarrow> (\<forall>s R. P s \<longrightarrow> (\<exists>err s'. f (s, xdp_owned s + R) = Some (err, s', xdp_owned s' + R) \<and> xdp_well s' \<and> (err = [] \<longrightarrow> Q s')))"

lemma establishesI:
  assumes "\<And>s R. P s \<Longrightarrow> \<exists>err s'. f (s, xdp_owned s + R) = Some (err, s', xdp_owned s' + R) \<and> xdp_well s' \<and> (err = [] \<longrightarrow> Q s')"
  shows "establishes P f Q"
  using assms by (simp add: establishes_def)

lemma run_steps_Nil: "(\<And>s. P s \<Longrightarrow> xdp_well s) \<Longrightarrow> establishes P (run_steps []) P"
  by (simp add: establishes_def)

lemma run_steps_Cons:
  assumes "establishes P f Q" "establishes Q (run_steps fs) T"
  shows "establishes P (run_steps (f # fs)) T"
proof (rule establishesI)
  fix s :: xdp_impl and R :: world
  assume "P s"
  then obtain e s1 where s1: "f (s, xdp_owned s + R) = Some (e, s1, xdp_owned s1 + R)" "xdp_well s1" "e = [] \<longrightarrow> Q s1"
    using assms(1) unfolding establishes_def by blast
  show "\<exists>err s'. run_steps (f # fs) (s, xdp_owned s + R) = Some (err, s', xdp_owned s' + R) \<and> xdp_well s' \<and> (err = [] \<longrightarrow> T s')"
  proof (cases "e = []")
    case True
    then show ?thesis using s1 assms(2) unfolding establishes_def by simp
  next
    case False
    then show ?thesis using s1 by simp
  qed
qed

lemma xdp_err_not_empty [simp]: "xdp_err E what e \<noteq> []" "errno_err E W c what \<noteq> []"
  by (simp_all add: xdp_err_def errno_err_def)

lemmas xdp_step_simps = up_to_def xdp_well_def xdp_owned_def Let_def world_simps

definition wants :: "xdp_env \<Rightarrow> xdp_options \<Rightarrow> filter_cfg" where
  "wants E opt = receiver_cfg (xo_dst_port opt) (if xo_group opt = [] then None else xe_pton E (xo_group opt))"

definition all_filled :: "xdp_options \<Rightarrow> xdp_impl \<Rightarrow> bool" where
  "all_filled opt s \<longleftrightarrow> xr_fill (xi_rings s) = map (\<lambda>i. of_nat i * ucast (xo_frame_size opt)) [0..<unat (xo_frames opt)] \<and> xr_rx (xi_rings s) = []"

lemma find_interface_ok: "establishes (up_to 0) (find_interface E opt) (up_to 0)"
  by (rule establishesI) (auto simp: find_interface_def xdp_step_simps)

lemma load_program_ok: "establishes (up_to 0) (load_program E opt) (up_to 1)"
  by (rule establishesI) (auto simp: load_program_def xdp_step_simps)

lemma set_filter_ok: "establishes (up_to 1) (set_filter E opt) (\<lambda>s. up_to 1 s \<and> xi_cfg s = wants E opt)"
  by (rule establishesI) (auto simp: set_filter_def wants_def xdp_step_simps)

lemma map_memory_ok:
  "xdp_env_ok E \<Longrightarrow> establishes (\<lambda>s. up_to 1 s \<and> xi_cfg s = wants E opt) (map_memory E opt) (\<lambda>s. up_to 2 s \<and> xi_cfg s = wants E opt)"
  by (rule establishesI) (auto simp: map_memory_def xdp_env_ok_def xdp_step_simps)

lemma create_umem_ok:
  "xdp_env_ok E \<Longrightarrow> establishes (\<lambda>s. up_to 2 s \<and> xi_cfg s = wants E opt) (create_umem E opt) (\<lambda>s. up_to 3 s \<and> xi_cfg s = wants E opt)"
  by (rule establishesI) (auto simp: create_umem_def xdp_env_ok_def xdp_step_simps)

lemma create_socket_ok:
  "xdp_env_ok E \<Longrightarrow> establishes (\<lambda>s. up_to 3 s \<and> xi_cfg s = wants E opt) (create_socket E opt)
    (\<lambda>s. up_to 4 s \<and> xi_cfg s = wants E opt \<and> xr_fill (xi_rings s) = [] \<and> xr_rx (xi_rings s) = [])"
  by (rule establishesI) (auto simp: create_socket_def xdp_env_ok_def xdp_step_simps)

lemma fill_ring_ok:
  "establishes (\<lambda>s. up_to 4 s \<and> xi_cfg s = wants E opt \<and> xr_fill (xi_rings s) = [] \<and> xr_rx (xi_rings s) = []) (fill_ring E opt)
    (\<lambda>s. up_to 4 s \<and> xi_cfg s = wants E opt \<and> all_filled opt s)"
  by (rule establishesI) (auto simp: fill_ring_def all_filled_def xdp_step_simps)

lemma attach_program_ok:
  "establishes (\<lambda>s. up_to 4 s \<and> xi_cfg s = wants E opt \<and> all_filled opt s) (attach_program E opt)
    (\<lambda>s. up_to 5 s \<and> xi_cfg s = wants E opt \<and> all_filled opt s)"
  by (rule establishesI) (auto simp: attach_program_def all_filled_def xdp_step_simps)

definition xdp_ready :: "xdp_env \<Rightarrow> xdp_options \<Rightarrow> xdp_impl \<Rightarrow> bool" where
  "xdp_ready E opt s \<longleftrightarrow> xdp_well s \<and> xi_attached s \<and> xr_open (xi_rings s) \<and> (0 \<le> xi_mcast_fd s) = (xo_group opt \<noteq> []) \<and>
     xi_cfg s = wants E opt \<and> all_filled opt s \<and> xr_pending (xi_rings s) = []"

lemma join_multicast_ok:
  "establishes (\<lambda>s. up_to 5 s \<and> xi_cfg s = wants E opt \<and> all_filled opt s) (join_multicast E opt) (xdp_ready E opt)"
  by (rule establishesI) (auto simp: join_multicast_def all_filled_def xdp_ready_def xdp_step_simps add_mset_commute)

lemma xdp_open_steps:
  assumes "xdp_env_ok E"
  shows "establishes (up_to 0) (run_steps (map (\<lambda>f. f E opt) [find_interface, load_program, set_filter, map_memory, create_umem, create_socket,
    fill_ring, attach_program, join_multicast])) (xdp_ready E opt)"
  unfolding list.map
  by (intro run_steps_Cons [OF find_interface_ok] run_steps_Cons [OF load_program_ok] run_steps_Cons [OF set_filter_ok]
      run_steps_Cons [OF map_memory_ok [OF assms]] run_steps_Cons [OF create_umem_ok [OF assms]] run_steps_Cons [OF create_socket_ok [OF assms]]
      run_steps_Cons [OF fill_ring_ok] run_steps_Cons [OF attach_program_ok] run_steps_Cons [OF join_multicast_ok] run_steps_Nil)
    (simp add: xdp_ready_def)

lemma xdp_open_frame:
  assumes "xdp_env_ok E" "xdp_well s"
  shows "\<exists>err s'. xdp_open E opt s (xdp_owned s + R) = Some (err, s', xdp_owned s' + R) \<and> xdp_well s' \<and>
    (err = [] \<longrightarrow> xdp_ready E opt s')"
proof -
  obtain s1 where s1: "xdp_close s (xdp_owned s + R) = Some (s1, R)" "up_to 0 s1"
    using xdp_close_frame [OF assms(2)] by blast
  have "xdp_owned s1 = {#}" using s1(2) by (simp add: up_to_def xdp_owned_def)
  moreover obtain err s' where "run_steps (map (\<lambda>f. f E opt) [find_interface, load_program, set_filter, map_memory, create_umem, create_socket,
      fill_ring, attach_program, join_multicast]) (s1, xdp_owned s1 + R) = Some (err, s', xdp_owned s' + R)" "xdp_well s'"
      "err = [] \<longrightarrow> xdp_ready E opt s'"
    using xdp_open_steps [OF assms(1), of opt] s1(2) unfolding establishes_def by blast
  ultimately show ?thesis by (simp add: xdp_open_def s1(1))
qed

type_synonym xdp_call = "xdp_env \<times> xdp_options"

definition xdp_life_step :: "xdp_call \<Rightarrow> xdp_impl \<times> world \<Rightarrow> (xdp_impl \<times> world) option" where
  "xdp_life_step = (\<lambda>(E, opt) (s, W). map_option snd (xdp_open E opt s W))"

lemma xdp_destroy_frame: "xdp_well s \<Longrightarrow> xdp_destroy s (xdp_owned s + R) = Some R"
  using xdp_close_frame [of s R] by (auto simp: xdp_destroy_def)

interpretation xdp_resources: resource_class xdp_owned xdp_well "\<lambda>(E, _). xdp_env_ok E" xdp_life_step xdp_destroy
proof unfold_locales
  fix c :: xdp_call and s :: xdp_impl and R :: world
  assume a: "case c of (E, _) \<Rightarrow> xdp_env_ok E" "xdp_well s"
  obtain E opt where c: "c = (E, opt)" by (cases c)
  show "\<exists>s'. xdp_life_step c (s, xdp_owned s + R) = Some (s', xdp_owned s' + R) \<and> xdp_well s'"
    using xdp_open_frame [of E s opt R] a by (auto simp: c xdp_life_step_def)
qed (rule xdp_destroy_frame)

lemma filled_frames:
  assumes "all_filled opt s" "xr_pending (xi_rings s) = []" "xo_frame_size opt \<noteq> 0"
  shows "all_frames (unat (xo_frame_size opt)) (xi_rings s, {#}) = mset [0..<unat (xo_frames opt)]"
proof -
  let ?n = "unat (xo_frames opt)" and ?z = "unat (xo_frame_size opt)"
  have "?n < 2 ^ 32" "?z < 2 ^ 32" using unsigned_less [of "xo_frames opt"] unsigned_less [of "xo_frame_size opt"] by simp_all
  then have "?n * ?z \<le> 2 ^ 32 * 2 ^ 32" by (intro mult_le_mono) simp_all
  then have "?n * ?z \<le> 2 ^ 64" by (simp flip: power_add)
  moreover have "0 < ?z" using assms(3) by (simp add: unat_gt_0)
  ultimately have "xdp_inv ?n ?z (xdp_opened ?n ?z, {#})" by (intro opened_inv)
  then have "mset (map (frame_of ?z) (map (\<lambda>i. of_nat i * of_nat ?z) [0..<?n])) = mset [0..<?n]"
    by (simp add: xdp_inv_def all_frames_def xdp_opened_def del: mset_map mset_upt)
  moreover have "xr_fill (xi_rings s) = map (\<lambda>i. of_nat i * of_nat ?z) [0..<?n]"
    using assms(1) by (simp add: all_filled_def of_nat_unat)
  moreover have "all_frames ?z (xi_rings s, {#}) = mset (map (frame_of ?z) (xr_fill (xi_rings s)))"
    using assms(2) conjunct2 [OF assms(1) [unfolded all_filled_def]] by (simp add: all_frames_def)
  ultimately show ?thesis by (simp only:)
qed

section \<open>Properties\<close>

text \<open>
  If \<open>open\<close> reports no error, the program is attached, filters for the port and the group that were asked for, and every frame of the memory is
  in the fill ring, once. Whichever of its calls fails, what the receiver holds is what its destructor gives back, in an order that the
  libraries allow, and an earlier \<open>open\<close> leaves nothing behind.
\<close>

theorem xdp_open_contract:
  assumes "xdp_env_ok E" "xdp_well s" "xo_frame_size opt \<noteq> 0"
  shows "\<exists>err s'. xdp_open E opt s (xdp_owned s + R) = Some (err, s', xdp_owned s' + R) \<and> xdp_destroy s' (xdp_owned s' + R) = Some R \<and>
    (err = [] \<longrightarrow> xi_attached s' \<and> xr_open (xi_rings s') \<and>
       xi_cfg s' = receiver_cfg (xo_dst_port opt) (if xo_group opt = [] then None else xe_pton E (xo_group opt)) \<and>
       all_frames (unat (xo_frame_size opt)) (xi_rings s', {#}) = mset [0..<unat (xo_frames opt)])"
proof -
  obtain err s' where s': "xdp_open E opt s (xdp_owned s + R) = Some (err, s', xdp_owned s' + R)" "xdp_well s'"
    "err = [] \<longrightarrow> xdp_ready E opt s'"
    using xdp_open_frame [OF assms(1,2)] by blast
  have "xdp_destroy s' (xdp_owned s' + R) = Some R" using s'(2) by (rule xdp_destroy_frame)
  then show ?thesis
    using s' filled_frames [of opt s', OF _ _ assms(3)] by (auto simp: xdp_ready_def wants_def)
qed

definition xdp_sample_env :: "int \<Rightarrow> xdp_env" where
  "xdp_sample_env joined = \<lparr>xe_os = \<lparr>sys_ret = (\<lambda>W c. case c of Sys_if_nametoindex i \<Rightarrow> 2 | Bpf_open_file p \<Rightarrow> 100 | Bpf_find b n \<Rightarrow> 7
       | Bpf_program_fd p \<Rightarrow> 9 | Sys_mmap f n pop \<Rightarrow> 4096 | Xsk_fill_reserve n \<Rightarrow> int n | Sys_socket \<Rightarrow> 5
       | Sys_add_membership fd g i \<Rightarrow> joined | _ \<Rightarrow> 0),
     sys_errno = (\<lambda>W c. 19), sys_strerror = (\<lambda>e. ''No such device'')\<rparr>, xe_pton = (\<lambda>a. Some 0xEF010101), xe_umem = 200, xe_xsk = 300\<rparr>"

definition xdp_sample_options :: xdp_options where
  "xdp_sample_options = \<lparr>xo_ifname = ''eth0'', xo_queue = 0, xo_dst_port = 26400, xo_group = ''239.1.1.1'', xo_bpf_object = ''f.o'',
     xo_native_mode = False, xo_zero_copy = False, xo_frames = 2, xo_frame_size = 2048\<rparr>"

lemma sample_open_result:
  "map_option fst (xdp_open (xdp_sample_env joined) xdp_sample_options new_xdp {#}) =
     Some (if joined = 0 then [] else ''IP_ADD_MEMBERSHIP: No such device'')"
  by (simp add: xdp_open_def xdp_close_def xsk_delete_def umem_delete_def release_if_def find_interface_def load_program_def set_filter_def
      map_memory_def create_umem_def create_socket_def fill_ring_def attach_program_def join_multicast_def new_xdp_def
      xdp_sample_env_def xdp_sample_options_def errno_err_def xdp_err_def Let_def world_simps)

theorem xdp_open_contract_witness:
  "\<exists>err s'. xdp_open (xdp_sample_env (- 1)) xdp_sample_options new_xdp {#} = Some (err, s', xdp_owned s') \<and>
     err = ''IP_ADD_MEMBERSHIP: No such device'' \<and> xdp_destroy s' (xdp_owned s') = Some {#}"
proof -
  have "xdp_env_ok (xdp_sample_env (- 1))" by (simp add: xdp_env_ok_def xdp_sample_env_def)
  moreover have "xdp_well new_xdp" "xdp_owned new_xdp = {#}" by (simp_all add: new_xdp_def xdp_well_def xdp_owned_def)
  moreover have "xo_frame_size xdp_sample_options \<noteq> 0" by (simp add: xdp_sample_options_def)
  ultimately show ?thesis
    using xdp_open_contract [of "xdp_sample_env (- 1)" new_xdp xdp_sample_options "{#}"] sample_open_result [of "- 1"] by auto
qed

end
