(* ===== verification/Perf_Counters.thy ===== *)
theory Perf_Counters
  imports Resources
begin

text \<open>
  \<open>PerfCounters\<close> of \<^verbatim>\<open>include/itch/perf_counters.hpp\<close> and \<^verbatim>\<open>src/itch/perf_counters.cpp\<close>, as built for Linux: the group of hardware counters, with
  the one that a machine may not have, and what a read of the group gives. The ratios are floating point and not modelled.
\<close>

section \<open>Samples\<close>

record sample =
  s_cycles :: u64
  s_ref_cycles :: u64
  s_instructions :: u64

definition no_sample :: sample where
  "no_sample = \<lparr>s_cycles = 0, s_ref_cycles = 0, s_instructions = 0\<rparr>"

definition sample_minus :: "sample \<Rightarrow> sample \<Rightarrow> sample" where
  "sample_minus a b = \<lparr>s_cycles = s_cycles a - s_cycles b, s_ref_cycles = s_ref_cycles a - s_ref_cycles b,
     s_instructions = s_instructions a - s_instructions b\<rparr>"

section \<open>The counters\<close>

record perf_counters =
  pc_leader :: int
  pc_ref :: int
  pc_instr :: int
  pc_error :: string

definition no_counters :: perf_counters where
  "no_counters = \<lparr>pc_leader = - 1, pc_ref = - 1, pc_instr = - 1, pc_error = []\<rparr>"

definition perf_available :: "perf_counters \<Rightarrow> bool" where
  "perf_available c \<longleftrightarrow> 0 \<le> pc_leader c"

text \<open>A counter joins the group of a leader that is held; -1 is no leader.\<close>

definition open_counter :: "os \<Rightarrow> string \<Rightarrow> int \<Rightarrow> world \<Rightarrow> (int \<times> world) option" where
  "open_counter os event leader W =
     (if leader \<noteq> - 1 \<and> Fd leader \<notin># W then None
      else let fd = sys_ret os W (Sys_perf_event_open event leader)
      in Some (fd, if fd < 0 then W else acquire (Fd fd) W))"

definition close_one :: "int \<Rightarrow> world \<Rightarrow> world option" where
  "close_one fd W = (if 0 \<le> fd then release (Fd fd) W else Some W)"

definition close_all :: "perf_counters \<Rightarrow> world \<Rightarrow> (perf_counters \<times> world) option" where
  "close_all c W = do {
     W1 \<leftarrow> close_one (pc_instr c) W;
     W2 \<leftarrow> close_one (pc_ref c) W1;
     W3 \<leftarrow> close_one (pc_leader c) W2;
     Some (c\<lparr>pc_leader := - 1, pc_ref := - 1, pc_instr := - 1\<rparr>, W3) }"

definition EACCES :: int where "EACCES = 13"
definition EPERM :: int where "EPERM = 1"
definition ENOENT :: int where "ENOENT = 2"
definition ENODEV :: int where "ENODEV = 19"
definition EOPNOTSUPP :: int where "EOPNOTSUPP = 95"

definition leader_error :: "os \<Rightarrow> world \<Rightarrow> syscall \<Rightarrow> string" where
  "leader_error os W c = sys_error os W c ''perf_event_open(cycles)'' @
     (if sys_errno os W c \<in> {EACCES, EPERM} then '' (check /proc/sys/kernel/perf_event_paranoid)'' else []) @
     (if sys_errno os W c \<in> {ENOENT, ENODEV, EOPNOTSUPP} then '' (no hardware PMU: VM or container?)'' else [])"

definition open_group :: "os \<Rightarrow> int \<Rightarrow> world \<Rightarrow> (perf_counters \<times> world) option" where
  "open_group os leader W = do {
     let c0 = no_counters\<lparr>pc_leader := leader\<rparr>;
     (instr, W1) \<leftarrow> open_counter os ''PERF_COUNT_HW_INSTRUCTIONS'' leader W;
     let c1 = c0\<lparr>pc_instr := instr\<rparr>;
     if instr < 0
     then close_all (c1\<lparr>pc_error := sys_error os W (Sys_perf_event_open ''PERF_COUNT_HW_INSTRUCTIONS'' leader) ''perf_event_open(instructions)''\<rparr>) W1
     else do {
       (ref, W2) \<leftarrow> open_counter os ''PERF_COUNT_HW_REF_CPU_CYCLES'' leader W1;
       let c2 = c1\<lparr>pc_ref := ref, pc_error := (if ref < 0 then ''ref-cycles unavailable: no frequency ratio'' else [])\<rparr>;
       _ \<leftarrow> call_on os (Fd leader) (Sys_ioctl leader ''PERF_EVENT_IOC_RESET'') W2;
       _ \<leftarrow> call_on os (Fd leader) (Sys_ioctl leader ''PERF_EVENT_IOC_ENABLE'') W2;
       Some (c2, W2) } }"

definition perf_construct :: "os \<Rightarrow> world \<Rightarrow> (perf_counters \<times> world) option" where
  "perf_construct os W = do {
     (leader, W1) \<leftarrow> open_counter os ''PERF_COUNT_HW_CPU_CYCLES'' (- 1) W;
     if leader < 0
     then Some (no_counters\<lparr>pc_leader := leader, pc_error := leader_error os W (Sys_perf_event_open ''PERF_COUNT_HW_CPU_CYCLES'' (- 1))\<rparr>, W1)
     else open_group os leader W1 }"

definition perf_destroy :: "perf_counters \<Rightarrow> world \<Rightarrow> world option" where
  "perf_destroy c W = map_option snd (close_all c W)"

text \<open>\<open>got\<close> are the words that the kernel wrote into the zeroed buffer of four.\<close>

definition perf_read :: "os \<Rightarrow> u64 list \<Rightarrow> perf_counters \<Rightarrow> world \<Rightarrow> sample option" where
  "perf_read os got c W =
     (if pc_leader c < 0 then Some no_sample
      else do {
        n \<leftarrow> call_on os (Fd (pc_leader c)) (Sys_read (pc_leader c)) W;
        let buf = take 4 (got @ replicate 4 0);
        if n \<noteq> 8 * (if 0 \<le> pc_ref c then 4 else 3) then Some no_sample
        else Some \<lparr>s_cycles = buf ! 1, s_ref_cycles = (if 0 \<le> pc_ref c then buf ! 3 else 0), s_instructions = buf ! 2\<rparr> })"

section \<open>What they own\<close>

definition fd_owned :: "int \<Rightarrow> handle multiset" where
  "fd_owned fd = (if fd < 0 then {#} else {#Fd fd#})"

definition perf_owned :: "perf_counters \<Rightarrow> handle multiset" where
  "perf_owned c = fd_owned (pc_instr c) + fd_owned (pc_ref c) + fd_owned (pc_leader c)"

lemma close_one_frame: "close_one fd (fd_owned fd + R) = Some R"
  by (simp add: close_one_def fd_owned_def world_simps)

lemma close_all_frame: "close_all c (perf_owned c + R) = Some (c\<lparr>pc_leader := - 1, pc_ref := - 1, pc_instr := - 1\<rparr>, R)"
  by (simp add: close_all_def perf_owned_def add.assoc close_one_frame)

lemma open_counter_frame:
  assumes "leader = - 1 \<or> Fd leader \<in># W"
  shows "\<exists>fd. open_counter os event leader W = Some (fd, fd_owned fd + W)"
  using assms by (auto simp: open_counter_def Let_def fd_owned_def world_simps)

lemma perf_construct_frame:
  "\<exists>c. perf_construct os W = Some (c, perf_owned c + W) \<and> 
     (if perf_available c then 0 \<le> pc_instr c \<and> (pc_ref c < 0) = (pc_error c \<noteq> []) else perf_owned c = {#} \<and> pc_error c \<noteq> [])"
proof -
  obtain leader where l: "open_counter os ''PERF_COUNT_HW_CPU_CYCLES'' (- 1) W = Some (leader, fd_owned leader + W)"
    using open_counter_frame [of "- 1" W os "''PERF_COUNT_HW_CPU_CYCLES''"] by auto
  show ?thesis
  proof (cases "leader < 0")
    case True
    then show ?thesis
      by (simp add: perf_construct_def l fd_owned_def perf_owned_def no_counters_def perf_available_def leader_error_def)
  next
    case False
    let ?W1 = "fd_owned leader + W"
    have held: "Fd leader \<in># X + ?W1" for X using False by (simp add: fd_owned_def)
    obtain instr where i: "open_counter os ''PERF_COUNT_HW_INSTRUCTIONS'' leader ?W1 = Some (instr, fd_owned instr + ?W1)"
      using open_counter_frame [of leader ?W1 os] held [of "{#}"] by fastforce
    obtain ref where r: "open_counter os ''PERF_COUNT_HW_REF_CPU_CYCLES'' leader (fd_owned instr + ?W1) =
        Some (ref, fd_owned ref + (fd_owned instr + ?W1))"
      using open_counter_frame [of leader "fd_owned instr + ?W1" os] held [of "fd_owned instr"] by fastforce
    show ?thesis
    proof (cases "instr < 0")
      case True
      have "fd_owned instr + ?W1 = perf_owned (no_counters\<lparr>pc_leader := leader, pc_instr := instr, pc_error := e\<rparr>) + W" for e
        by (simp add: perf_owned_def no_counters_def fd_owned_def)
      then have "close_all (no_counters\<lparr>pc_leader := leader, pc_instr := instr, pc_error := e\<rparr>) (fd_owned instr + ?W1) =
          Some (no_counters\<lparr>pc_error := e\<rparr>, W)" for e
        using close_all_frame [of "no_counters\<lparr>pc_leader := leader, pc_instr := instr, pc_error := e\<rparr>" W]
        by (simp only:) (simp add: no_counters_def)
      then show ?thesis
        using False True l i
        by (simp add: perf_construct_def open_group_def no_counters_def perf_available_def perf_owned_def fd_owned_def [of "- 1"])
    next
      case ok: False
      have "perf_construct os W = Some (\<lparr>pc_leader = leader, pc_ref = ref, pc_instr = instr,
          pc_error = (if ref < 0 then ''ref-cycles unavailable: no frequency ratio'' else [])\<rparr>, fd_owned ref + (fd_owned instr + ?W1))"
        using False ok l i r held [of "fd_owned ref + fd_owned instr"]
        by (simp add: perf_construct_def open_group_def no_counters_def world_simps add.assoc)
      then show ?thesis
        using False ok by (simp add: perf_available_def perf_owned_def add.assoc add.left_commute)
    qed
  qed
qed

text \<open>A counter object is constructed once; between that and its destructor it is only read.\<close>

definition perf_step :: "os \<times> u64 list \<Rightarrow> perf_counters \<times> world \<Rightarrow> (perf_counters \<times> world) option" where
  "perf_step = (\<lambda>(os, got) (c, W). do { _ \<leftarrow> perf_read os got c W; Some (c, W) })"

lemma perf_read_held: "\<exists>s. perf_read os got c (perf_owned c + R) = Some s"
  by (auto simp: perf_read_def perf_owned_def fd_owned_def Let_def world_simps)

interpretation counters: resource_class perf_owned "\<lambda>_. True" "\<lambda>_. True" perf_step perf_destroy
proof unfold_locales
  fix c :: "os \<times> u64 list" and p :: perf_counters and R :: world
  show "\<exists>p'. perf_step c (p, perf_owned p + R) = Some (p', perf_owned p' + R) \<and> True"
    using perf_read_held [of "fst c" "snd c" p R] by (cases c) (auto simp: perf_step_def)
  show "perf_destroy p (perf_owned p + R) = Some R" by (simp add: perf_destroy_def close_all_frame)
qed

section \<open>Properties\<close>

text \<open>
  Whichever counters the kernel has, the constructor keeps either the group, with cycles and instructions and a message exactly if the
  reference cycles are missing, or no descriptor at all and a message; the destructor closes each descriptor once.
\<close>

theorem perf_counters_contract:
  "\<exists>c. perf_construct os W = Some (c, perf_owned c + W) \<and> perf_destroy c (perf_owned c + W) = Some W \<and>
     (if perf_available c then 0 \<le> pc_instr c \<and> (pc_ref c < 0) = (pc_error c \<noteq> []) else perf_owned c = {#} \<and> pc_error c \<noteq> [])"
  using perf_construct_frame [of os W] by (auto simp: perf_destroy_def close_all_frame)

end
