(* ===== verification/Program.thy ===== *)
theory Program
  imports Feed_Handler Command_Line Depth_Profiler Itch_File Udp_Receiver Xdp_Socket Perf_Counters
begin

text \<open>
  \<open>main\<close> of \<^verbatim>\<open>tools/feed_handler_main.cpp\<close> and what it runs: the command line decides between replay, live reception through a socket or
  AF_XDP, and the depth profile; each opens what it needs from the system, runs its loop and gives everything back. The handler is a
  parameter of the loops; the program's is the builder with the publisher. What the machine does is one record.
\<close>

section \<open>The machine\<close>

text \<open>
  The system and the libraries; the file; the readings of the two groups of counters; the signals; the time-stamp counter; and per iteration
  of the live loop what the socket receives, with the time of each packet, or what the kernel does to the rings before the poll, with
  \<open>xsk_umem__extract_addr\<close>, the room in the fill ring and the time of the poll.
\<close>

type_synonym udp_input = "os \<times> (mem \<times> cmsg list) list \<times> u64 list"
type_synonym xdp_input = "(xdp_receiver \<Rightarrow> xdp_receiver) \<times> (u64 \<Rightarrow> u64) \<times> nat \<times> u64"

record machine =
  mc_alloc :: "nat \<Rightarrow> bool"
  mc_isa :: isa
  mc_os :: os
  mc_pton :: "string \<Rightarrow> u32 option"
  mc_sockport :: u16
  mc_umem :: int
  mc_xsk :: int
  mc_bpf_object :: string
  mc_st_size :: int
  mc_contents :: mem
  mc_counters :: "u64 list \<times> u64 list"
  mc_running :: "nat \<Rightarrow> bool"
  mc_tsc :: "nat \<Rightarrow> u64 \<times> u64"
  mc_udp :: "udp_input list"
  mc_xdp :: "xdp_input list"

section \<open>The live loop over a receiver\<close>

definition start_live :: "'h parser \<Rightarrow> 'h live" where
  "start_live P = \<lparr>lv_running = True, lv_seq = new_sequencer, lv_gaps = 0, lv_lost = 0, lv_parser = P\<rparr>"

text \<open>\<open>poll\<close> is \<open>rx.poll()\<close> together with the packets that it leaves, each with its time.\<close>

fun live_rx ::
  "('i \<Rightarrow> 'r \<Rightarrow> ((u64 \<times> mem) list \<times> 'r) option) \<Rightarrow> (u64 \<Rightarrow> 'h \<Rightarrow> 'h) \<Rightarrow> 'h handler \<Rightarrow> (nat \<Rightarrow> bool) \<Rightarrow> nat \<Rightarrow> 'i list \<Rightarrow> 'r \<Rightarrow> 'h live \<Rightarrow>
     ('r \<times> 'h live) option" where
  "live_rx poll set_tsc H running k [] r L = Some (r, L)"
| "live_rx poll set_tsc H running k (i # inputs) r L =
     (if lv_running L \<and> running k then do {
        (ps, r') \<leftarrow> poll i r;
        L' \<leftarrow> foldO (live_packet set_tsc H) ps L;
        live_rx poll set_tsc H running (k + 1) inputs r' L' }
      else Some (r, L))"

definition udp_rx_poll :: "world \<Rightarrow> udp_input \<Rightarrow> udp_receiver \<Rightarrow> ((u64 \<times> mem) list \<times> udp_receiver) option" where
  "udp_rx_poll W = (\<lambda>(os, msgs, tscs) r. do {
     (n, r') \<leftarrow> udp_poll os msgs r W;
     Some (zip tscs (map up_data (take n (ur_packets r'))), r') })"

definition xdp_rx_poll :: "xdp_input \<Rightarrow> xdp_impl \<Rightarrow> ((u64 \<times> mem) list \<times> xdp_impl) option" where
  "xdp_rx_poll = (\<lambda>(kern, ext, room, now) s. do {
     (n, rings) \<leftarrow> xdp_poll ext room now (kern (xi_rings s));
     Some (map (\<lambda>p. (xp_tsc p, xp_data p)) (take n (xr_packets rings)), s\<lparr>xi_rings := rings\<rparr>) })"

section \<open>The modes\<close>

text \<open>Each returns the exit code, the parser with its handler, and the world.\<close>

definition udp_options_of :: "config \<Rightarrow> udp_options" where
  "udp_options_of cfg = \<lparr>uo_group = mcast_group cfg, uo_port = mcast_port cfg, uo_interface_ip = iface_ip cfg, uo_busy_poll_us = 50,
     uo_rcvbuf_bytes = push_bit 20 32, uo_timestamps = True\<rparr>"

definition run_live_udp :: "machine \<Rightarrow> (u64 \<Rightarrow> 'h \<Rightarrow> 'h) \<Rightarrow> 'h handler \<Rightarrow> config \<Rightarrow> 'h parser \<Rightarrow> world \<Rightarrow> (int \<times> 'h parser \<times> world) option" where
  "run_live_udp mc set_tsc H cfg P W = do {
     (err, rx, W1) \<leftarrow> udp_open (mc_os mc) (map_option bswap32 \<circ> mc_pton mc) (mc_sockport mc) (udp_options_of cfg) new_udp W;
     if err \<noteq> [] then do { W2 \<leftarrow> udp_destroy rx W1; Some (1, P, W2) }
     else do {
       (rx', L) \<leftarrow> live_rx (udp_rx_poll W1) set_tsc H (mc_running mc) 0 (mc_udp mc) rx (start_live P);
       W2 \<leftarrow> udp_destroy rx' W1;
       Some (0, lv_parser L, W2) } }"

definition xdp_options_of :: "string \<Rightarrow> config \<Rightarrow> xdp_options" where
  "xdp_options_of bpf cfg = \<lparr>xo_ifname = xdp_iface cfg, xo_queue = xdp_queue cfg, xo_dst_port = mcast_port cfg, xo_group = mcast_group cfg,
     xo_bpf_object = (if xdp_prog cfg = [] then bpf else xdp_prog cfg), xo_native_mode = xdp_native cfg, xo_zero_copy = xdp_zero_copy cfg,
     xo_frames = 4096, xo_frame_size = 2048\<rparr>"

definition xdp_env_of :: "machine \<Rightarrow> xdp_env" where
  "xdp_env_of mc = \<lparr>xe_os = mc_os mc, xe_pton = mc_pton mc, xe_umem = mc_umem mc, xe_xsk = mc_xsk mc\<rparr>"

definition run_live_xdp :: "machine \<Rightarrow> (u64 \<Rightarrow> 'h \<Rightarrow> 'h) \<Rightarrow> 'h handler \<Rightarrow> config \<Rightarrow> 'h parser \<Rightarrow> world \<Rightarrow> (int \<times> 'h parser \<times> world) option" where
  "run_live_xdp mc set_tsc H cfg P W = do {
     (err, rx, W1) \<leftarrow> xdp_open (xdp_env_of mc) (xdp_options_of (mc_bpf_object mc) cfg) new_xdp W;
     if err \<noteq> [] then do { W2 \<leftarrow> xdp_destroy rx W1; Some (1, P, W2) }
     else do {
       (rx', L) \<leftarrow> live_rx xdp_rx_poll set_tsc H (mc_running mc) 0 (mc_xdp mc) rx (start_live P);
       W2 \<leftarrow> xdp_destroy rx' W1;
       Some (0, lv_parser L, W2) } }"

definition run_live :: "machine \<Rightarrow> (u64 \<Rightarrow> 'h \<Rightarrow> 'h) \<Rightarrow> 'h handler \<Rightarrow> config \<Rightarrow> 'h parser \<Rightarrow> world \<Rightarrow> (int \<times> 'h parser \<times> world) option" where
  "run_live mc set_tsc H cfg P W =
     (if xdp_iface cfg \<noteq> [] then run_live_xdp mc set_tsc H cfg P W else run_live_udp mc set_tsc H cfg P W)"

text \<open>\<open>run_replay\<close>: the slices between the two readings of the counters, or the loop that measures.\<close>

definition replay_slices :: "machine \<Rightarrow> 'h handler \<Rightarrow> config \<Rightarrow> nat \<Rightarrow> 'h parser \<Rightarrow> world \<Rightarrow> ('h parser \<times> world) option" where
  "replay_slices mc H cfg len P W = do {
     (pmu, W1) \<leftarrow> perf_construct (mc_os mc) W;
     _ \<leftarrow> perf_read (mc_os mc) (fst (mc_counters mc)) pmu W1;
     (P', off) \<leftarrow> replay_from kSlice (mc_running mc) (cf_prefetch cfg) H (mc_contents mc) len 0 0 P;
     _ \<leftarrow> (if cf_perf cfg \<and> perf_available pmu then perf_read (mc_os mc) (snd (mc_counters mc)) pmu W1 else Some no_sample);
     W2 \<leftarrow> perf_destroy pmu W1;
     Some (P', W2) }"

definition run_replay_file :: "machine \<Rightarrow> 'h handler \<Rightarrow> config \<Rightarrow> 'h parser \<Rightarrow> world \<Rightarrow> (int \<times> 'h parser \<times> world) option" where
  "run_replay_file mc H cfg P W = do {
     (err, f, W1) \<leftarrow> file_open (mc_os mc) (mc_st_size mc) (replay_path cfg) True new_file W;
     if err \<noteq> [] then do { W2 \<leftarrow> file_destroy f W1; Some (1, P, W2) }
     else do {
       (P', W2) \<leftarrow> (if \<not> cf_latency cfg then replay_slices mc H cfg (if_size f) P W1
         else do {
           (P', h) \<leftarrow> latency_from (mc_running mc) (mc_tsc mc) H (mc_contents mc) (if_size f) 0 0 (P, new_histogram);
           Some (P', W1) });
       W3 \<leftarrow> file_destroy f W2;
       Some (0, P', W3) } }"

text \<open>The engine and the profiler are made only when the file could be opened.\<close>

definition run_depth_profile ::
  "machine \<Rightarrow> 'd handler \<Rightarrow> (nat \<Rightarrow> 'd option) \<Rightarrow> config \<Rightarrow> world \<Rightarrow> (int \<times> 'd parser option \<times> world) option" where
  "run_depth_profile mc D new_d cfg W = do {
     (err, f, W1) \<leftarrow> file_open (mc_os mc) (mc_st_size mc) (replay_path cfg) True new_file W;
     if err \<noteq> [] then do { W2 \<leftarrow> file_destroy f W1; Some (1, None, W2) }
     else do {
       d \<leftarrow> new_d (unat (expected_orders cfg));
       (P', _) \<leftarrow> parse_stream D (mc_contents mc) (if_size f) (new_parser d);
       W2 \<leftarrow> file_destroy f W1;
       Some (0, Some P', W2) } }"

section \<open>main\<close>

datatype ('h, 'd) ended = Exit int | Ran int "'h parser" | Profiled int "'d parser option"

fun exit_code :: "('h, 'd) ended \<Rightarrow> int" where
  "exit_code (Exit n) = n"
| "exit_code (Ran n P) = n"
| "exit_code (Profiled n P) = n"

text \<open>\<open>H\<close> with its first state is the handler of the feed, \<open>D\<close> that of the profile; both are made from the size of the order map.\<close>

definition run_program ::
  "machine \<Rightarrow> (u64 \<Rightarrow> 'h \<Rightarrow> 'h) \<Rightarrow> 'h handler \<Rightarrow> (nat \<Rightarrow> 'h option) \<Rightarrow> 'd handler \<Rightarrow> (nat \<Rightarrow> 'd option) \<Rightarrow> string list \<Rightarrow> world \<Rightarrow>
     (('h, 'd) ended \<times> world) option" where
  "run_program mc set_tsc H new_h D new_d args W = (case parse_args args of
     Inl code \<Rightarrow> Some (Exit code, W)
   | Inr cfg \<Rightarrow>
       if depth_profile cfg then
         (if replay_path cfg = [] then Some (Exit 2, W)
          else do {
            (rc, P, W') \<leftarrow> run_depth_profile mc D new_d cfg W;
            Some (Profiled rc P, W') })
       else do {
         h \<leftarrow> new_h (unat (expected_orders cfg));
         (rc, P, W') \<leftarrow> (if replay_path cfg = [] then run_live mc set_tsc H cfg (new_parser h) W
            else run_replay_file mc H cfg (new_parser h) W);
         Some (Ran rc P, W') })"

definition feed_main ::
  "machine \<Rightarrow> book_event list \<Rightarrow> string list \<Rightarrow> world \<Rightarrow> ((publisher option builder, profiler) ended \<times> world) option" where
  "feed_main mc junk =
     run_program mc publisher_tsc (bb_handler (mc_alloc mc) (mc_isa mc) publisher_sink)
       (\<lambda>n. map_option (\<lambda>e. \<lparr>bb_engine = e, bb_sink = Some (new_publisher junk)\<rparr>) (new_engine (mc_alloc mc) (mc_isa mc) n))
       (dp_handler (mc_alloc mc) (mc_isa mc)) (\<lambda>n. map_option new_profiler (new_engine (mc_alloc mc) (mc_isa mc) n))"

section \<open>What the machine promises\<close>

text \<open>
  \<open>recvmmsg\<close> reports how many messages it stored, at most a batch, or an error; the kernel does not open or close the socket behind the
  receiver; the mapped file is as long as \<open>fstat\<close> said.
\<close>

fun udp_honest :: "udp_input \<Rightarrow> bool" where
  "udp_honest (os, msgs, tscs) \<longleftrightarrow> length msgs \<le> kUdpBatch \<and>
     (\<forall>W fd c. sys_ret os W (Sys_recvmmsg fd kUdpBatch c) = int (length msgs) \<or>
        (sys_ret os W (Sys_recvmmsg fd kUdpBatch c) < 0 \<and> msgs = []))"

fun kernel_honest :: "xdp_input \<Rightarrow> bool" where
  "kernel_honest (kern, _) \<longleftrightarrow> (\<forall>r. xr_open (kern r) = xr_open r)"

definition machine_ok :: "machine \<Rightarrow> bool" where
  "machine_ok mc \<longleftrightarrow> map_os (mc_os mc) \<and> mc_umem mc \<noteq> 0 \<and> mc_xsk mc \<noteq> 0 \<and> int (length (mc_contents mc)) = mc_st_size mc \<and>
     list_all udp_honest (mc_udp mc) \<and> list_all kernel_honest (mc_xdp mc)"

text \<open>The handler's operations end from every state that satisfies \<open>I\<close>, and keep it.\<close>

definition ends :: "'h handler \<Rightarrow> ('h \<Rightarrow> bool) \<Rightarrow> bool" where
  "ends H I \<longleftrightarrow> (\<forall>m h. I h \<longrightarrow> handles H (mtype_of m) \<longrightarrow> (\<exists>h'. on_msg H m h = Some h' \<and> I h'))"

text \<open>Prefetching changes nothing (\<open>Feed_Handler.parse_slice_builder\<close> is this for the builder).\<close>

definition prefetch_neutral :: "'h handler \<Rightarrow> bool" where
  "prefetch_neutral H \<longleftrightarrow> (\<forall>pf p n P. n \<le> length p \<longrightarrow> parse_slice pf H p n P = parse_stream H p n P)"

section \<open>The loops over a receiver\<close>

lemma live_rx_keeps:
  assumes "\<And>i r ps r'. i \<in> set inputs \<Longrightarrow> J r \<Longrightarrow> poll i r = Some (ps, r') \<Longrightarrow> J r'"
  shows "live_rx poll set_tsc H running k inputs r L = Some (r', L') \<Longrightarrow> J r \<Longrightarrow> J r'"
  using assms
proof (induction inputs arbitrary: k r L)
  case (Cons i inputs)
  show ?case
  proof (cases "lv_running L \<and> running k")
    case True
    then obtain ps r1 L1 where "poll i r = Some (ps, r1)" "live_rx poll set_tsc H running (k + 1) inputs r1 L1 = Some (r', L')"
      using Cons.prems(1) by (auto simp: bind_eq_Some_conv)
    then show ?thesis using Cons.IH [of "k + 1" r1 L1] Cons.prems(2,3) by auto
  next
    case False
    then show ?thesis using Cons.prems(1,2) by auto
  qed
qed simp

lemma live_rx_returns:
  assumes "\<And>i r. i \<in> set inputs \<Longrightarrow> J r \<Longrightarrow> \<exists>ps r'. poll i r = Some (ps, r') \<and> J r'"
    and "ends H I" "\<And>t h. I h \<Longrightarrow> I (set_tsc t h)"
  shows "J r \<Longrightarrow> I (handler_state (lv_parser L)) \<Longrightarrow>
    \<exists>r' L'. live_rx poll set_tsc H running k inputs r L = Some (r', L') \<and> J r' \<and> I (handler_state (lv_parser L'))"
  using assms(1)
proof (induction inputs arbitrary: k r L)
  case (Cons i inputs)
  obtain ps r1 where 1: "poll i r = Some (ps, r1)" "J r1" using Cons.prems(3) [of i r] Cons.prems(1) by auto
  have "\<exists>L1. foldO (live_packet set_tsc H) ps L = Some L1 \<and> I (handler_state (lv_parser L1))"
    using live_packet_returns [where I = I, OF _ assms(3)] Cons.prems(2) assms(2)
    by (intro foldO_total [where I = "\<lambda>L. I (handler_state (lv_parser L))"]) (auto simp: ends_def)
  then obtain L1 where L1: "foldO (live_packet set_tsc H) ps L = Some L1" "I (handler_state (lv_parser L1))" by blast
  obtain r' L' where "live_rx poll set_tsc H running (k + 1) inputs r1 L1 = Some (r', L')" "J r'" "I (handler_state (lv_parser L'))"
    using Cons.IH [OF 1(2) L1(2), of "k + 1"] Cons.prems(3) by auto
  then show ?case using 1 L1 Cons.prems(1,2) by auto
qed auto

text \<open>A poll of the socket gives the datagrams that were received, and keeps the socket.\<close>

lemma udp_rx_poll_eq:
  assumes "udp_honest (os, msgs, tscs)" "udp_well r" "0 \<le> ur_fd r" "Fd (ur_fd r) \<in># W"
  shows "\<exists>r'. udp_rx_poll W (os, msgs, tscs) r = Some (zip tscs (map fst msgs), r') \<and> udp_well r' \<and> ur_fd r' = ur_fd r"
proof (cases "0 < sys_ret os W (Sys_recvmmsg (ur_fd r) kUdpBatch (ur_ctrl r))")
  case True
  then have n: "sys_ret os W (Sys_recvmmsg (ur_fd r) kUdpBatch (ur_ctrl r)) = int (length msgs)" "length msgs \<le> kUdpBatch"
    using assms(1) by (auto dest!: spec [of _ W] spec [of _ "ur_fd r"] spec [of _ "ur_ctrl r"])
  obtain ps where ps: "foldO (\<lambda>i. store_packet i (msgs ! i)) [0..<length msgs] (ur_packets r) = Some ps" "length ps = length (ur_packets r)"
    "\<forall>i<length msgs. stamped (msgs ! i) (ps ! i)"
    using store_packets [of "length msgs" "ur_packets r" msgs] n(2) assms(2) by (auto simp: udp_well_def)
  have "map up_data (take (length msgs) ps) = map fst msgs"
    using ps(2,3) n(2) assms(2) by (intro nth_equalityI) (auto simp: udp_well_def stamped_def)
  then show ?thesis
    using True ps(1,2) n(1) assms(2-4) by (simp add: udp_rx_poll_def udp_poll_def udp_well_def world_simps)
next
  case False
  then have "msgs = []"
    using assms(1) by (auto dest!: spec [of _ W] spec [of _ "ur_fd r"] spec [of _ "ur_ctrl r"])
  then show ?thesis
    using False assms(2-4) by (simp add: udp_rx_poll_def udp_poll_def world_simps)
qed

lemma xdp_poll_total: "\<exists>n s'. xdp_poll ext room now s = Some (n, s') \<and> xr_open s' = xr_open s"
proof -
  obtain ok s1 where g: "give_back room s = (ok, s1)" by fastforce
  have s1: "xr_open s1 = xr_open s" "ok \<Longrightarrow> xr_pending s1 = []" using g by (auto simp: give_back_def split: if_splits)
  show ?thesis
    using s1 by (auto simp: xdp_poll_def g xdp_receive_eq Let_def)
qed

lemma xdp_rx_poll_keeps:
  assumes "kernel_honest i"
  shows "\<exists>ps s'. xdp_rx_poll i s = Some (ps, s') \<and> xdp_owned s' = xdp_owned s \<and> xdp_well s' = xdp_well s"
proof -
  obtain kern ext room now where i: "i = (kern, ext, room, now)" by (cases i)
  obtain n s' where "xdp_poll ext room now (kern (xi_rings s)) = Some (n, s')" "xr_open s' = xr_open (kern (xi_rings s))"
    using xdp_poll_total by blast
  then show ?thesis using assms by (simp add: i xdp_rx_poll_def xdp_owned_def xdp_well_def)
qed

section \<open>The modes give everything back\<close>

lemma new_udp_facts: "udp_well new_udp" "udp_owned new_udp = {#}"
  by (simp_all add: udp_well_def udp_owned_def new_udp_def)

lemma udp_rx_keeps:
  assumes "udp_honest i" "udp_well r \<and> 0 \<le> ur_fd r \<and> udp_owned r = X" "X \<subseteq># W"
  shows "\<exists>ps r'. udp_rx_poll W i r = Some (ps, r') \<and> udp_well r' \<and> 0 \<le> ur_fd r' \<and> udp_owned r' = X"
proof -
  obtain os msgs tscs where i: "i = (os, msgs, tscs)" by (cases i)
  have "Fd (ur_fd r) \<in># W" using assms(2,3) by (auto simp: udp_owned_def)
  from udp_rx_poll_eq [OF assms(1) [unfolded i] _ _ this] assms(2) obtain r' where
    "udp_rx_poll W i r = Some (zip tscs (map fst msgs), r')" "udp_well r'" "ur_fd r' = ur_fd r" by (auto simp: i)
  then show ?thesis using assms(2) by (intro exI [of _ "zip tscs (map fst msgs)"] exI [of _ r']) (auto simp: udp_owned_def)
qed

lemma run_live_udp_frame:
  assumes "machine_ok mc"
  shows "run_live_udp mc set_tsc H cfg P W = Some (rc, P', W') \<Longrightarrow> W' = W \<and> rc \<in> {0, 1}"
    and "ends H I \<Longrightarrow> (\<And>t h. I h \<Longrightarrow> I (set_tsc t h)) \<Longrightarrow> I (handler_state P) \<Longrightarrow> run_live_udp mc set_tsc H cfg P W \<noteq> None"
proof -
  obtain err r where r: "udp_open (mc_os mc) (map_option bswap32 \<circ> mc_pton mc) (mc_sockport mc) (udp_options_of cfg) new_udp W =
      Some (err, r, udp_owned r + W)" "udp_well r" "(err = []) = (0 \<le> ur_fd r)"
    using udp_open_frame [OF new_udp_facts(1), where R = W] unfolding new_udp_facts(2) by (metis add_0)
  have d: "udp_destroy r' (udp_owned r' + W) = Some W" for r' by (simp add: udp_destroy_def udp_close_frame)
  define J where "J r' \<longleftrightarrow> udp_well r' \<and> 0 \<le> ur_fd r' \<and> udp_owned r' = udp_owned r" for r'
  have p: "\<exists>ps s. udp_rx_poll (udp_owned r + W) i r' = Some (ps, s) \<and> J s" if "i \<in> set (mc_udp mc)" "J r'" for i r'
    using udp_rx_keeps [of i r' "udp_owned r" "udp_owned r + W"] that assms by (auto simp: machine_ok_def list_all_iff J_def)
  have J: "err = [] \<Longrightarrow> J r" using r by (simp add: J_def)
  show "run_live_udp mc set_tsc H cfg P W = Some (rc, P', W') \<Longrightarrow> W' = W \<and> rc \<in> {0, 1}"
  proof (cases "err = []")
    case True
    assume a: "run_live_udp mc set_tsc H cfg P W = Some (rc, P', W')"
    then obtain r' L where l: "live_rx (udp_rx_poll (udp_owned r + W)) set_tsc H (mc_running mc) 0 (mc_udp mc) r (start_live P) = Some (r', L)"
      using True by (auto simp: run_live_udp_def r(1) bind_eq_Some_conv)
    have "J r'" by (rule live_rx_keeps [where J = J, OF _ l J [OF True]]) (use p in fastforce)
    then have "udp_destroy r' (udp_owned r + W) = Some W" using d [of r'] by (simp add: J_def)
    then show ?thesis using a True l by (auto simp: run_live_udp_def r(1))
  qed (auto simp: run_live_udp_def r(1) d)
  show "run_live_udp mc set_tsc H cfg P W \<noteq> None"
    if "ends H I" "\<And>t h. I h \<Longrightarrow> I (set_tsc t h)" "I (handler_state P)"
  proof (cases "err = []")
    case True
    have st: "I (handler_state (lv_parser (start_live P)))" using that(3) by (simp add: start_live_def)
    have "\<exists>r' L. live_rx (udp_rx_poll (udp_owned r + W)) set_tsc H (mc_running mc) 0 (mc_udp mc) r (start_live P) = Some (r', L) \<and> J r' \<and>
        I (handler_state (lv_parser L))"
      by (rule live_rx_returns [where J = J and I = I]; fact p that J [OF True] st)
    then obtain r' L where
      l: "live_rx (udp_rx_poll (udp_owned r + W)) set_tsc H (mc_running mc) 0 (mc_udp mc) r (start_live P) = Some (r', L)" "J r'" by blast
    then show ?thesis using True d [of r'] by (simp add: run_live_udp_def r(1) J_def)
  qed (auto simp: run_live_udp_def r(1) d)
qed

lemma new_xdp_facts: "xdp_well new_xdp" "xdp_owned new_xdp = {#}"
  by (simp_all add: xdp_well_def xdp_owned_def new_xdp_def)

lemma run_live_xdp_frame:
  assumes "machine_ok mc"
  shows "run_live_xdp mc set_tsc H cfg P W = Some (rc, P', W') \<Longrightarrow> W' = W \<and> rc \<in> {0, 1}"
    and "ends H I \<Longrightarrow> (\<And>t h. I h \<Longrightarrow> I (set_tsc t h)) \<Longrightarrow> I (handler_state P) \<Longrightarrow> run_live_xdp mc set_tsc H cfg P W \<noteq> None"
proof -
  have E: "xdp_env_ok (xdp_env_of mc)" using assms by (auto simp: xdp_env_ok_def xdp_env_of_def machine_ok_def map_os_def)
  obtain err s where s: "xdp_open (xdp_env_of mc) (xdp_options_of (mc_bpf_object mc) cfg) new_xdp W = Some (err, s, xdp_owned s + W)"
    "xdp_well s"
    using xdp_open_frame [OF E new_xdp_facts(1), where R = W] unfolding new_xdp_facts(2) by (metis add_0)
  define J where "J s' \<longleftrightarrow> xdp_well s' \<and> xdp_owned s' = xdp_owned s" for s'
  have d: "J s' \<Longrightarrow> xdp_destroy s' (xdp_owned s + W) = Some W" for s' using xdp_destroy_frame [of s' W] by (simp add: J_def)
  have p: "\<exists>ps t. xdp_rx_poll i s' = Some (ps, t) \<and> J t" if "i \<in> set (mc_xdp mc)" "J s'" for i s'
    using xdp_rx_poll_keeps [of i s'] that assms by (auto simp: machine_ok_def list_all_iff J_def)
  have J: "J s" using s(2) by (simp add: J_def)
  show "run_live_xdp mc set_tsc H cfg P W = Some (rc, P', W') \<Longrightarrow> W' = W \<and> rc \<in> {0, 1}"
  proof (cases "err = []")
    case True
    assume a: "run_live_xdp mc set_tsc H cfg P W = Some (rc, P', W')"
    then obtain s' L where l: "live_rx xdp_rx_poll set_tsc H (mc_running mc) 0 (mc_xdp mc) s (start_live P) = Some (s', L)"
      using True by (auto simp: run_live_xdp_def s(1) bind_eq_Some_conv)
    have "J s'" by (rule live_rx_keeps [where J = J, OF _ l J]) (use p in fastforce)
    then show ?thesis using a True l d by (auto simp: run_live_xdp_def s(1))
  qed (auto simp: run_live_xdp_def s(1) d [OF J])
  show "run_live_xdp mc set_tsc H cfg P W \<noteq> None"
    if "ends H I" "\<And>t h. I h \<Longrightarrow> I (set_tsc t h)" "I (handler_state P)"
  proof (cases "err = []")
    case True
    have st: "I (handler_state (lv_parser (start_live P)))" using that(3) by (simp add: start_live_def)
    have "\<exists>s' L. live_rx xdp_rx_poll set_tsc H (mc_running mc) 0 (mc_xdp mc) s (start_live P) = Some (s', L) \<and> J s' \<and>
        I (handler_state (lv_parser L))"
      by (rule live_rx_returns [where J = J and I = I]; fact p that J st)
    then obtain s' L where
      l: "live_rx xdp_rx_poll set_tsc H (mc_running mc) 0 (mc_xdp mc) s (start_live P) = Some (s', L)" "J s'" by blast
    then show ?thesis using True d by (simp add: run_live_xdp_def s(1))
  qed (auto simp: run_live_xdp_def s(1) d [OF J])
qed

lemma latency_returns:
  assumes "ends H I" "len \<le> length buf"
  shows "I (handler_state (fst PH)) \<Longrightarrow> hist_rep (snd PH) vs \<Longrightarrow>
    \<exists>P' h. latency_from running tsc H buf len k off PH = Some (P', h)"
  using assms
proof (induction running tsc H buf len k off PH arbitrary: vs rule: latency_from.induct)
  case (1 running tsc H buf len k off PH)
  let ?n = "be_word (take 2 (drop off buf)) :: u16"
  show ?case
  proof (cases "off + 2 \<le> len \<and> running k \<and> off + 2 + unat ?n \<le> len")
    case False
    then show ?thesis
      using "1.prems"(4) by (subst latency_from.simps) (cases PH, auto simp: load_be16_in)
  next
    case True
    have ld: "load_be16 buf off = Some ?n" using True "1.prems"(4) by (intro load_be16_in) simp
    obtain P1 where P1: "parse H buf (off + 2) (unat ?n) (fst PH) = Some P1" "I (handler_state P1)"
      using parse_returns [where I = I and H = H and P = "fst PH" and buf = buf and p = "off + 2" and n = "unat ?n"]
        True "1.prems" by (auto simp: ends_def)
    obtain t0 t1 where t: "tsc k = (t0, t1)" by fastforce
    obtain h1 where h1: "hist_record (t1 - t0) (snd PH) = Some h1" "hist_rep h1 (vs @ [t1 - t0])"
      using record_rep [OF "1.prems"(2)] by blast
    have "\<exists>P' h. latency_from running tsc H buf len (k + 1) (off + 2 + unat ?n) (P1, h1) = Some (P', h)"
      by (rule "1.IH" [where vs = "vs @ [t1 - t0]"]) (use True ld t P1 h1 "1.prems"(3,4) in auto)
    then show ?thesis using True ld t P1(1) h1(1) by (subst latency_from.simps) simp
  qed
qed

lemma replay_returns:
  assumes "prefetch_neutral H" "ends H I" "len \<le> length buf"
  shows "I (handler_state P) \<Longrightarrow> \<exists>P' off'. replay_from chunk running pf H buf len k off P = Some (P', off')"
proof (induction "len - off" arbitrary: k off P rule: less_induct)
  case less
  show ?case
  proof (cases "off < len \<and> running k")
    case False
    then show ?thesis by (subst replay_from.simps) auto
  next
    case True
    let ?n = "min chunk (len - off)"
    have n: "?n \<le> length (drop off buf)" using assms(3) by simp
    obtain P1 used where P1: "parse_stream H (drop off buf) ?n P = Some (P1, used)" "I (handler_state P1)"
      using parse_stream_returns [where I = I and H = H and P = P, OF n less.prems] assms(2) by (auto simp: ends_def)
    have ps: "parse_slice pf H (drop off buf) ?n P = Some (P1, used)" using assms(1) n P1(1) by (simp add: prefetch_neutral_def)
    show ?thesis
    proof (cases "used = 0")
      case True
      then show ?thesis using ps \<open>off < len \<and> running k\<close> by (subst replay_from.simps) (simp add: Let_def)
    next
      case pos: False
      then have "len - (off + used) < len - off" using conjunct1 [OF True] by linarith
      from less.hyps [OF this P1(2), of "k + 1"] show ?thesis
        using ps True pos by (subst replay_from.simps) (simp add: Let_def)
    qed
  qed
qed

lemma new_file_facts: "file_well new_file" "file_owned new_file = {#}"
  by (simp_all add: file_well_def file_owned_def new_file_def)

lemma file_opened:
  assumes "machine_ok mc"
  shows "\<exists>err f. file_open (mc_os mc) (mc_st_size mc) path pop new_file W = Some (err, f, file_owned f + W) \<and>
    file_destroy f (file_owned f + W) = Some W \<and> (err = [] \<longrightarrow> if_size f = length (mc_contents mc))"
proof -
  have "map_os (mc_os mc)" using assms by (simp add: machine_ok_def)
  from file_open_frame [OF this new_file_facts(1), of "mc_st_size mc" path pop W] obtain err f where
    f: "file_open (mc_os mc) (mc_st_size mc) path pop new_file W = Some (err, f, file_owned f + W)" "file_well f"
      "(err = []) = file_is_open f" "file_is_open f \<longrightarrow> int (if_size f) = mc_st_size mc"
    by (auto simp: new_file_facts(2))
  moreover have "err = [] \<longrightarrow> if_size f = length (mc_contents mc)" using f(3,4) assms by (metis machine_ok_def of_nat_eq_iff)
  ultimately show ?thesis using file_destroy_frame [OF f(2)] by blast
qed

lemma replay_slices_eq:
  "replay_slices mc H cfg len P W =
     map_option (\<lambda>(P', off). (P', W)) (replay_from kSlice (mc_running mc) (cf_prefetch cfg) H (mc_contents mc) len 0 0 P)"
proof -
  obtain c where c: "perf_construct (mc_os mc) W = Some (c, perf_owned c + W)" using perf_construct_frame [of "mc_os mc" W] by blast
  have d: "perf_destroy c (perf_owned c + W) = Some W" by (simp add: perf_destroy_def close_all_frame)
  obtain s1 s2 where s: "perf_read (mc_os mc) (fst (mc_counters mc)) c (perf_owned c + W) = Some s1"
    "perf_read (mc_os mc) (snd (mc_counters mc)) c (perf_owned c + W) = Some s2" using perf_read_held by metis
  show ?thesis by (auto simp: replay_slices_def c d s map_option_case split: option.split)
qed

lemma replay_slices_frame:
  shows "replay_slices mc H cfg len P W = Some (P', W') \<Longrightarrow> W' = W"
    and "prefetch_neutral H \<Longrightarrow> ends H I \<Longrightarrow> len \<le> length (mc_contents mc) \<Longrightarrow> I (handler_state P) \<Longrightarrow>
      replay_slices mc H cfg len P W \<noteq> None"
proof -
  show "replay_slices mc H cfg len P W = Some (P', W') \<Longrightarrow> W' = W" by (auto simp: replay_slices_eq)
  show "replay_slices mc H cfg len P W \<noteq> None"
    if "prefetch_neutral H" "ends H I" "len \<le> length (mc_contents mc)" "I (handler_state P)"
    using replay_returns [OF that, of kSlice "mc_running mc" "cf_prefetch cfg" 0 0] by (auto simp: replay_slices_eq)
qed

lemma run_replay_file_frame:
  assumes "machine_ok mc"
  shows "run_replay_file mc H cfg P W = Some (rc, P', W') \<Longrightarrow> W' = W \<and> rc \<in> {0, 1}"
    and "prefetch_neutral H \<Longrightarrow> ends H I \<Longrightarrow> I (handler_state P) \<Longrightarrow> run_replay_file mc H cfg P W \<noteq> None"
proof -
  obtain err f where f: "file_open (mc_os mc) (mc_st_size mc) (replay_path cfg) True new_file W = Some (err, f, file_owned f + W)"
    "file_destroy f (file_owned f + W) = Some W" "err = [] \<Longrightarrow> if_size f = length (mc_contents mc)"
    using file_opened [OF assms, of "replay_path cfg" True W] by blast
  show "run_replay_file mc H cfg P W = Some (rc, P', W') \<Longrightarrow> W' = W \<and> rc \<in> {0, 1}"
    using f(2) by (auto simp: run_replay_file_def f(1) bind_eq_Some_conv dest!: replay_slices_frame(1) split: if_splits)
  show "run_replay_file mc H cfg P W \<noteq> None" if pn: "prefetch_neutral H" and en: "ends H I" and ih: "I (handler_state P)"
  proof (cases "err = []")
    case False
    then show ?thesis by (simp add: run_replay_file_def f(1,2))
  next
    case True
    note len = eq_imp_le [OF f(3) [OF True]]
    show ?thesis
    proof (cases "cf_latency cfg")
      case lat: True
      obtain P' h where "latency_from (mc_running mc) (mc_tsc mc) H (mc_contents mc) (if_size f) 0 0 (P, new_histogram) = Some (P', h)"
        using latency_returns [OF en len, where PH = "(P, new_histogram)" and vs = "[]" and running = "mc_running mc" and tsc = "mc_tsc mc" and k = 0 and off = 0] ih new_histogram_rep by auto
      then show ?thesis using True lat f(2) by (simp add: run_replay_file_def f(1))
    next
      case slices: False
      obtain P' W1 where "replay_slices mc H cfg (if_size f) P (file_owned f + W) = Some (P', W1)"
        using replay_slices_frame(2) [OF pn en len ih, of cfg "file_owned f + W"] by auto
      then show ?thesis using True slices f(2) replay_slices_frame(1) by (fastforce simp: run_replay_file_def f(1))
    qed
  qed
qed

lemma run_depth_profile_frame:
  assumes "machine_ok mc"
  shows "run_depth_profile mc D new_d cfg W = Some (rc, P', W') \<Longrightarrow> W' = W \<and> rc \<in> {0, 1}"
    and "ends D I \<Longrightarrow> new_d (unat (expected_orders cfg)) = Some d \<Longrightarrow> I d \<Longrightarrow> run_depth_profile mc D new_d cfg W \<noteq> None"
proof -
  obtain err f where f: "file_open (mc_os mc) (mc_st_size mc) (replay_path cfg) True new_file W = Some (err, f, file_owned f + W)"
    "file_destroy f (file_owned f + W) = Some W" "err = [] \<Longrightarrow> if_size f = length (mc_contents mc)"
    using file_opened [OF assms, of "replay_path cfg" True W] by blast
  show "run_depth_profile mc D new_d cfg W = Some (rc, P', W') \<Longrightarrow> W' = W \<and> rc \<in> {0, 1}"
    using f(2) by (auto simp: run_depth_profile_def f(1) bind_eq_Some_conv split: if_splits)
  show "run_depth_profile mc D new_d cfg W \<noteq> None" if en: "ends D I" and d: "new_d (unat (expected_orders cfg)) = Some d" and ih: "I d"
  proof (cases "err = []")
    case True
    have st: "I (handler_state (new_parser d))" using ih by (simp add: new_parser_def)
    obtain P' off where "parse_stream D (mc_contents mc) (if_size f) (new_parser d) = Some (P', off)"
      using parse_stream_returns [where I = I and H = D, OF eq_imp_le [OF f(3) [OF True]] st] en
      by (auto simp: ends_def)
    then show ?thesis using True f(2) d by (simp add: run_depth_profile_def f(1))
  qed (simp add: run_depth_profile_def f(1,2))
qed

lemma run_live_frame:
  assumes "machine_ok mc"
  shows "run_live mc set_tsc H cfg P W = Some (rc, P', W') \<Longrightarrow> W' = W \<and> rc \<in> {0, 1}"
    and "ends H I \<Longrightarrow> (\<And>t h. I h \<Longrightarrow> I (set_tsc t h)) \<Longrightarrow> I (handler_state P) \<Longrightarrow> run_live mc set_tsc H cfg P W \<noteq> None"
proof -
  show "W' = W \<and> rc \<in> {0, 1}" if a: "run_live mc set_tsc H cfg P W = Some (rc, P', W')"
  proof (cases "xdp_iface cfg \<noteq> []")
    case True
    then show ?thesis using a by (intro run_live_xdp_frame(1) [OF assms]) (simp add: run_live_def)
  next
    case False
    then show ?thesis using a by (intro run_live_udp_frame(1) [OF assms]) (simp add: run_live_def)
  qed
  show "run_live mc set_tsc H cfg P W \<noteq> None"
    if "ends H I" "\<And>t h. I h \<Longrightarrow> I (set_tsc t h)" "I (handler_state P)"
    using run_live_xdp_frame(2) [where I = I, OF assms that] run_live_udp_frame(2) [where I = I, OF assms that]
    by (simp add: run_live_def)
qed

lemma parse_args_code: "parse_args args = Inl code \<Longrightarrow> code \<in> {0, 2}"
  using parse_opts_exit [OF default_ok, of args code]
  by (auto simp: parse_args_def Let_def split: sum.splits if_splits)

lemma new_parser_state [simp]: "handler_state (new_parser h) = h"
  by (simp add: new_parser_def)

lemma run_program_frame:
  assumes "machine_ok mc" "run_program mc set_tsc H new_h D new_d args W = Some (r, W')"
  shows "W' = W \<and> exit_code r \<in> {0, 1, 2}"
proof (cases "parse_args args")
  case (Inl code)
  then show ?thesis using assms(2) parse_args_code [OF Inl] by (auto simp: run_program_def)
next
  case (Inr cfg)
  show ?thesis
    using assms(2) run_live_frame(1) [OF assms(1)] run_replay_file_frame(1) [OF assms(1)] run_depth_profile_frame(1) [OF assms(1)]
    by (fastforce simp: run_program_def Inr bind_eq_Some_conv split: if_splits)
qed

section \<open>Properties\<close>


definition feed_os :: os where
  "feed_os = \<lparr>sys_ret = (\<lambda>W c. case c of Sys_socket \<Rightarrow> 4 | Sys_mmap f n p \<Rightarrow> 4096 | Sys_recvmmsg fd n k \<Rightarrow> 2 | _ \<Rightarrow> 0),
     sys_errno = (\<lambda>W c. 22), sys_strerror = (\<lambda>e. ''Invalid argument'')\<rparr>"

definition feed_machine :: machine where
  "feed_machine = \<lparr>mc_alloc = (\<lambda>_. True), mc_isa = Have_AVX2, mc_os = feed_os, mc_pton = (\<lambda>a. Some 0xEF010101), mc_sockport = 26400,
     mc_umem = 200, mc_xsk = 300, mc_bpf_object = ''f.o'', mc_st_size = 21, mc_contents = delete_record, mc_counters = ([], []),
     mc_running = (\<lambda>_. True), mc_tsc = (\<lambda>_. (0, 0)), mc_udp = [(feed_os, [(sample_packet, []), ([], [])], [1, 2])],
     mc_xdp = [(\<lambda>r. r, \<lambda>a. a, 64, 9)]\<rparr>"

lemma feed_machine_ok: "machine_ok feed_machine"
  by (simp add: machine_ok_def feed_machine_def feed_os_def map_os_def kUdpBatch_def delete_record_def)

lemma skip_ends: "ends skip_handler (\<lambda>_. True)"
  by (simp add: ends_def skip_handler_def)

lemma skip_neutral: "prefetch_neutral skip_handler"
  by (auto simp: prefetch_neutral_def parse_slice_def parse_stream_prefetch_def skip_handler_def split: option.splits Option.bind_splits)


section \<open>A session through the socket\<close>

text \<open>The live loop over the socket is the live loop over the datagrams that it receives.\<close>

lemma udp_live_rx_eq:
  assumes "list_all udp_honest inputs" "udp_well r" "0 \<le> ur_fd r" "Fd (ur_fd r) \<in># W"
  shows "map_option snd (live_rx (udp_rx_poll W) set_tsc H running k inputs r L) =
    live_loop set_tsc H running k (map (\<lambda>(os, msgs, tscs). zip tscs (map fst msgs)) inputs) L"
  using assms
proof (induction inputs arbitrary: k r L)
  case (Cons i inputs)
  obtain os msgs tscs where i: "i = (os, msgs, tscs)" by (cases i)
  obtain r' where r': "udp_rx_poll W (os, msgs, tscs) r = Some (zip tscs (map fst msgs), r')" "udp_well r'" "ur_fd r' = ur_fd r"
    using udp_rx_poll_eq [of os msgs tscs r W] Cons.prems i by auto
  have IH: "map_option snd (live_rx (udp_rx_poll W) set_tsc H running (k + 1) inputs r' L') =
      live_loop set_tsc H running (k + 1) (map (\<lambda>(os, msgs, tscs). zip tscs (map fst msgs)) inputs) L'" for L'
    using Cons.IH [OF _ r'(2)] Cons.prems r'(3) by simp
  show ?case
    using IH by (cases "foldO (live_packet set_tsc H) (zip tscs (map fst msgs)) L") (simp_all add: i r'(1))
qed simp

text \<open>
  C28. A live run through a UDP socket that can be opened ends with exit code 0 and leaves the parser as the live loop over the received datagrams
  leaves it, so that every sequence number of the session was parsed or counted as lost; one whose socket cannot be opened ends with 1 and has
  parsed nothing.
\<close>

theorem live_udp_parses_session:
  assumes "machine_ok mc" "xdp_iface cfg = []"
    and "udp_open (mc_os mc) (map_option bswap32 \<circ> mc_pton mc) (mc_sockport mc) (udp_options_of cfg) new_udp W = Some (err, rx, W1)"
  shows "run_live mc set_tsc H cfg P W =
    (if err \<noteq> [] then Some (1, P, W)
     else map_option (\<lambda>L. (0, lv_parser L, W))
       (live_loop set_tsc H (mc_running mc) 0 (map (\<lambda>(os, msgs, tscs). zip tscs (map fst msgs)) (mc_udp mc)) (start_live P)))"
proof -
  obtain err' r where r: "udp_open (mc_os mc) (map_option bswap32 \<circ> mc_pton mc) (mc_sockport mc) (udp_options_of cfg) new_udp W =
      Some (err', r, udp_owned r + W)" "udp_well r" "(err' = []) = (0 \<le> ur_fd r)"
    using udp_open_frame [OF new_udp_facts(1), where R = W] unfolding new_udp_facts(2) by (metis add_0)
  have same: "err' = err" "r = rx" "W1 = udp_owned rx + W" using assms(3) r(1) by auto
  have d: "udp_destroy r' (udp_owned r' + W) = Some W" for r' by (simp add: udp_destroy_def udp_close_frame)
  show ?thesis
  proof (cases "err = []")
    case False
    then show ?thesis using assms(2,3) d [of rx] by (simp add: run_live_def run_live_udp_def same)
  next
    case True
    then have o: "0 \<le> ur_fd rx" "Fd (ur_fd rx) \<in># W1" using r(3) by (auto simp: same udp_owned_def)
    have h: "list_all udp_honest (mc_udp mc)" using assms(1) by (simp add: machine_ok_def)
    note eq = udp_live_rx_eq [OF h r(2) [unfolded same(2)] o, of set_tsc H "mc_running mc" 0 "start_live P"]
    have J: "udp_destroy r' W1 = Some W"
      if "live_rx (udp_rx_poll W1) set_tsc H (mc_running mc) 0 (mc_udp mc) rx (start_live P) = Some (r', L)" for r' L
    proof -
      define J where "J s \<longleftrightarrow> udp_well s \<and> 0 \<le> ur_fd s \<and> udp_owned s = udp_owned rx" for s
      have k: "J s'" if i: "i \<in> set (mc_udp mc)" and J: "J s" and p: "udp_rx_poll W1 i s = Some (ps, s')" for i s ps s'
      proof -
        have "udp_honest i" using h i by (simp add: list_all_iff)
        from udp_rx_keeps [OF this J [unfolded J_def], of W1] p show ?thesis by (auto simp: same J_def)
      qed
      have "J r'" by (rule live_rx_keeps [where J = J, OF k that]) (use r(2) o in \<open>auto simp: J_def same\<close>)
      then have "udp_well r' \<and> 0 \<le> ur_fd r' \<and> udp_owned r' = udp_owned rx" by (simp add: J_def)
      then show ?thesis using d [of r'] by (simp add: same)
    qed
    show ?thesis
    proof (cases "live_rx (udp_rx_poll W1) set_tsc H (mc_running mc) 0 (mc_udp mc) rx (start_live P)")
      case None
      then show ?thesis using assms(2,3) True eq by (auto simp: run_live_def run_live_udp_def)
    next
      case (Some rL)
      obtain r' L where rL: "rL = (r', L)" by fastforce
      have "live_loop set_tsc H (mc_running mc) 0 (map (\<lambda>(os, msgs, tscs). zip tscs (map fst msgs)) (mc_udp mc)) (start_live P) = Some L"
        using eq by (simp add: Some rL)
      then show ?thesis using assms(2,3) True J [OF Some [unfolded rL]] by (simp add: run_live_def run_live_udp_def Some rL)
    qed
  qed
qed

theorem live_udp_parses_session_witness:
  "run_live feed_machine (\<lambda>_ h. h) skip_handler (default_config\<lparr>mcast_port := 26400\<rparr>) (new_parser ()) {#Fd 1#} =
     map_option (\<lambda>L. (0, lv_parser L, {#Fd 1#}))
       (live_loop (\<lambda>_ h. h) skip_handler (\<lambda>_. True) 0 [[(1, sample_packet), (2, [])]] (start_live (new_parser ())))"
proof -
  have o: "map_option fst (udp_open feed_os pton 26400 (udp_options_of (default_config\<lparr>mcast_port := 26400\<rparr>)) new_udp {#Fd 1#}) = Some []" for pton
    by (simp add: udp_open_def udp_close_def configure_def configure_address_def set_nonblock_def bind_socket_def join_group_def
        set_timestamps_def udp_options_of_def default_config_def feed_os_def new_udp_def Let_def world_simps)
  have m: "mc_os feed_machine = feed_os" "mc_sockport feed_machine = 26400" "mc_running feed_machine = (\<lambda>_. True)"
    "map (\<lambda>(os, msgs, tscs). zip tscs (map fst msgs)) (mc_udp feed_machine) = [[(1, sample_packet), (2, [])]]"
    by (simp_all add: feed_machine_def)
  obtain rx W1 where "udp_open feed_os (map_option bswap32 \<circ> mc_pton feed_machine) 26400
      (udp_options_of (default_config\<lparr>mcast_port := 26400\<rparr>)) new_udp {#Fd 1#} = Some ([], rx, W1)"
    using o [of "map_option bswap32 \<circ> mc_pton feed_machine"] by auto
  then show ?thesis
    using live_udp_parses_session [OF feed_machine_ok, of "default_config\<lparr>mcast_port := 26400\<rparr>" "{#Fd 1#}" "[]" rx W1 "\<lambda>_ h. h" skip_handler]
    unfolding m by (simp add: default_config_def)
qed

end
