(* ===== verification/Report.thy ===== *)
theory Report
  imports Program
begin

text \<open>
  What the program prints at the end (\<^verbatim>\<open>tools/feed_handler_main.cpp\<close>): the numbers of \<open>print_report\<close>, and the top of the book of one symbol by
  \<open>print_symbol\<close>. The rates and the division of the prices by 10000 are floating point and left out.
\<close>

section \<open>The session report\<close>

record session_report =
  rp_messages :: u64
  rp_by_type :: "(u8 \<times> u64) list"
  rp_unknown_type :: u64
  rp_bad_length :: u64
  rp_empty :: u64
  rp_unknown_ref :: u64
  rp_missing_level :: u64
  rp_overfill :: u64
  rp_crossed :: u64
  rp_live_end :: nat
  rp_live_peak :: nat
  rp_capacity :: nat
  rp_rehashes :: u64
  rp_published :: u64
  rp_dropped :: u64

definition report_types :: "u8 list" where
  "report_types = map of_char ''SRHYLVWKJhAFECXDUPQBINO''"

definition report_by_type :: "parser_stats \<Rightarrow> (u8 \<times> u64) list" where
  "report_by_type s = filter (\<lambda>(t, n). n \<noteq> 0) (map (\<lambda>t. (t, by_type s t)) report_types)"

definition report_of :: "parser_stats \<Rightarrow> engine \<Rightarrow> publisher \<Rightarrow> u64 \<Rightarrow> session_report" where
  "report_of s e pub consumer_events =
     \<lparr>rp_messages = messages s, rp_by_type = report_by_type s, rp_unknown_type = unknown_type s, rp_bad_length = bad_length s, rp_empty = empty s,
      rp_unknown_ref = unknown_ref e, rp_missing_level = missing_level e, rp_overfill = overfill e, rp_crossed = crossed_updates pub,
      rp_live_end = om_size (eng_orders e), rp_live_peak = peak_live pub, rp_capacity = om_capacity (eng_orders e),
      rp_rehashes = rehashes (eng_orders e), rp_published = consumer_events, rp_dropped = dropped pub\<rparr>"

section \<open>One symbol\<close>

datatype symbol_line = Not_in_directory | Top_line u16 u32 u32 u32 u32

text \<open>The quantities are cast to \<open>unsigned\<close>.\<close>

definition print_symbol :: "symbol_directory \<Rightarrow> publisher \<Rightarrow> u8 list \<Rightarrow> symbol_line option" where
  "print_symbol dir pub symbol = (case dir_locate dir symbol of
     None \<Rightarrow> Some Not_in_directory
   | Some loc \<Rightarrow> do {
       b \<leftarrow> bbo_load (pub_bbo pub loc);
       Some (Top_line loc (ucast (snap_bid_qty b)) (snap_bid_price b) (ucast (snap_ask_qty b)) (snap_ask_price b)) })"

section \<open>The counts\<close>

lemma report_types_all: "set report_types = range kType" "distinct report_types"
proof -
  have e: "report_types = map kType AllMessages" by (simp add: report_types_def AllMessages_def of_char_def)
  show "set report_types = range kType" unfolding e by simp
  show "distinct report_types" unfolding e using inj_kType distinct_AllMessages by (auto simp: distinct_map inj_on_def)
qed

definition type_total :: "parser_stats \<Rightarrow> u64" where
  "type_total s = sum_list (map (by_type s) report_types)"

lemma sum_list_bump:
  "distinct xs \<Longrightarrow> x \<in> set xs \<Longrightarrow> sum_list (map (f(x := f x + (1 :: u64))) xs) = sum_list (map f xs) + 1"
proof (induction xs)
  case (Cons y ys)
  show ?case
  proof (cases "x = y")
    case True
    then have "map (f(x := f x + 1)) ys = map f ys" using Cons.prems by (intro map_cong) auto
    then show ?thesis by (simp only: list.map sum_list.Cons True fun_upd_same) (simp add: algebra_simps)
  next
    case False
    then show ?thesis using Cons by simp
  qed
qed simp

lemma parse_type_total:
  assumes "parse H buf p n P = Some P'" "type_total (stats P) = messages (stats P)"
  shows "type_total (stats P') = messages (stats P')"
proof (cases "n = 0")
  case True
  then show ?thesis using assms by (auto simp: parse_def type_total_def)
next
  case False
  then obtain ty where ty: "rd buf p = Some ty" using assms(1) by (auto simp: parse_def bind_eq_Some_conv)
  show ?thesis
  proof (cases "unat (kMessageLength ty) = n")
    case other: False
    then show ?thesis using assms False ty by (auto simp: parse_def type_total_def Let_def split: if_splits)
  next
    case True
    then have "ty \<in> set report_types"
      using False by (cases ty rule: kMessageLength_cases) (auto simp: report_types_all)
    then have t: "type_total (s\<lparr>messages := messages s + 1, by_type := (by_type s)(ty := by_type s ty + 1)\<rparr>) = type_total s + 1" for s
      using sum_list_bump [OF report_types_all(2)] by (simp add: type_total_def)
    have "type_total (stats P') = type_total (stats P) + 1 \<and> messages (stats P') = messages (stats P) + 1"
      using assms(1) False ty True t [of "stats P"]
      by (auto simp: parse_def Let_def bind_eq_Some_conv type_total_def dest!: call_table_stats split: option.splits if_splits)
    then show ?thesis using assms(2) by simp
  qed
qed

lemma verdicts_counts:
  assumes "foldO (\<lambda>(p, n). parse H buf p n) rs P = Some P'" "type_total (stats P) = messages (stats P)"
  shows "type_total (stats P') = messages (stats P') \<and> parsed P' = parsed P + of_nat (length rs)"
  using assms
proof (induction rs arbitrary: P)
  case (Cons r rs)
  obtain p n where r: "r = (p, n)" by fastforce
  obtain P1 where P1: "parse H buf p n P = Some P1" "foldO (\<lambda>(p, n). parse H buf p n) rs P1 = Some P'"
    using Cons.prems(1) by (auto simp: r bind_eq_Some_conv)
  show ?case
    using Cons.IH [OF P1(2) parse_type_total [OF P1(1) Cons.prems(2)]] parse_counts [OF P1(1)] by (simp add: add.assoc)
qed simp

lemma sum_nonzero: "sum_list (map snd (filter (\<lambda>(t, n). n \<noteq> (0 :: u64)) ts)) = sum_list (map snd ts)"
  by (induction ts) auto

lemma symbol_line_of_top:
  assumes "dir_locate dir symbol = Some loc" "shows_top (pub_bbo pub loc) t"
  shows "print_symbol dir pub symbol = Some (Top_line loc (ucast (bid_qty t)) (bid_price t) (ucast (ask_qty t)) (ask_price t))"
proof -
  obtain s where "bbo_try_load (pub_bbo pub loc) = Some s" "snap_bid_price s = bid_price t" "snap_ask_price s = ask_price t"
    "snap_bid_qty s = bid_qty t" "snap_ask_qty s = ask_qty t" using assms(2) by (auto simp: shows_top_def)
  then show ?thesis using assms(1) by (simp add: print_symbol_def bbo_load_eq)
qed

section \<open>Properties\<close>

text \<open>
  C39. The report adds up: the counts by type, of which it prints those that are not zero, make up the messages, so no type of message is missing
  from the line; and messages and malformed records together are the records of the stream.
\<close>

theorem report_adds_up:
  assumes "len \<le> length buf" "parse_stream H buf len (new_parser h) = Some (P, off)"
  shows "let R = report_of (stats P) e pub consumed
    in sum_list (map snd (rp_by_type R)) = rp_messages R \<and>
       rp_messages R + rp_unknown_type R + rp_bad_length R + rp_empty R = of_nat (length (fst (frames (take len buf))))"
proof -
  obtain rs e' where r: "recs buf len 0 = (rs, e')" by fastforce
  have z: "type_total (stats (new_parser h)) = messages (stats (new_parser h))" "parsed (new_parser h) = 0"
    by (simp_all add: type_total_def parsed_def new_parser_def no_stats_def)
  have "foldO (\<lambda>(p, n). parse H buf p n) rs (new_parser h) = Some P"
    using assms by (auto simp: parse_stream_eq r bind_eq_Some_conv)
  from verdicts_counts [OF this z(1)] have c: "type_total (stats P) = messages (stats P)" "parsed P = of_nat (length rs)"
    by (simp_all add: z(2))
  have "length rs = length (fst (frames (take len buf)))"
    using recs_frames [OF assms(1), of 0] r by (cases "frames (take len buf)") auto
  moreover have "sum_list (map snd (report_by_type (stats P))) = type_total (stats P)"
    unfolding report_by_type_def sum_nonzero type_total_def by (simp add: comp_def)
  ultimately show ?thesis using c by (simp add: Let_def report_of_def parsed_def)
qed

theorem report_adds_up_witness:
  "\<exists>P off e. parse_stream skip_handler delete_record 21 (new_parser ()) = Some (P, off) \<and> new_engine (\<lambda>_. True) Have_AVX2 10 = Some e \<and>
     (let R = report_of (stats P) e sample_publisher 0
      in sum_list (map snd (rp_by_type R)) = rp_messages R \<and>
         rp_messages R + rp_unknown_type R + rp_bad_length R + rp_empty R = of_nat (length (fst (frames (take 21 delete_record)))))"
proof -
  have l: "21 \<le> length delete_record" by (simp add: delete_record_def)
  obtain P off where p: "parse_stream skip_handler delete_record 21 (new_parser ()) = Some (P, off)"
    using parse_stream_returns [where I = "\<lambda>_. True" and H = skip_handler and P = "new_parser ()", OF l] by (auto simp: skip_handler_def)
  obtain e where e: "new_engine (\<lambda>_. True) Have_AVX2 10 = Some e" using sample_add [of Have_AVX2] by blast
  show ?thesis using report_adds_up [OF l p, of e sample_publisher 0] p e by blast
qed

text \<open>
  The line of a symbol shows the top of its book, except that a quantity of \<open>2 ^ 32\<close> shares or more, which a level can hold, is printed modulo
  \<open>2 ^ 32\<close>.
\<close>

theorem symbol_line_truncates:
  assumes "pub_follows eng (Some pub)" "dir_locate dir symbol = Some loc"
  shows "\<exists>t b a. tops (eng_books eng) loc = Some t \<and> print_symbol dir pub symbol = Some (Top_line loc b (bid_price t) a (ask_price t)) \<and>
    unat b = unat (bid_qty t) mod 2 ^ 32 \<and> unat a = unat (ask_qty t) mod 2 ^ 32"
proof -
  obtain t where t: "tops (eng_books eng) loc = Some t" "shows_top (pub_bbo pub loc) t"
    using assms(1) by (auto simp: pub_follows_def)
  have "unat (ucast w :: u32) = unat w mod 2 ^ 32" for w :: u64 by (simp add: unsigned_ucast_eq take_bit_eq_mod)
  then show ?thesis using t(1) symbol_line_of_top [OF assms(2) t(2)] by blast
qed

theorem symbol_line_truncates_witness:
  "\<exists>eng pub t b a. eng_map eng = [42 \<mapsto> new_order 42 5000 100 7 side_buy] \<and> tops (eng_books eng) 7 = Some t \<and>
     print_symbol (directory [(7, sample_stock)]) pub [0x41, 0x41, 0x50, 0x4C] = Some (Top_line 7 b (bid_price t) a (ask_price t)) \<and>
     unat b = unat (bid_qty t) mod 2 ^ 32"
proof -
  obtain e s where e: "eng_map e = [42 \<mapsto> new_order 42 5000 100 7 side_buy]" "pub_follows e s" using sample_published by blast
  then obtain pub where "pub_follows e (Some pub)" by (auto simp: pub_follows_def)
  moreover have "dir_locate (directory [(7, sample_stock)]) [0x41, 0x41, 0x50, 0x4C] = Some 7"
    by (simp add: directory_def dir_add_def dir_locate_eq sample_stock_shown new_directory_def)
  ultimately show ?thesis using symbol_line_truncates e(1) by blast
qed

end
