(* ===== verification/Engine_Memory.thy ===== *)
theory Engine_Memory
  imports Book_Builder
begin

text \<open>
  With memory to allocate from, the engine does not fail: the capacities that it asks for are bounded by the number of live orders, so no size
  that it computes wraps or leaves \<^verbatim>\<open>size_t\<close>.
\<close>

section \<open>Bounds on the table and the sides\<close>

abbreviation every_size :: "nat \<Rightarrow> bool" where
  "every_size \<equiv> \<lambda>_. True"

definition bounded :: "engine \<Rightarrow> bool" where
  "bounded e \<longleftrightarrow> om_capacity (eng_orders e) \<le> 2 ^ 40"

lemma width_le: "kWidth (GroupBest b) \<le> 32" "0 < kWidth (GroupBest b)"
  by (cases b; simp add: GroupBest_def GroupSwar_def GroupSse2_def GroupAvx2_def)+

lemma allocate_small: "groups * kWidth G \<le> 2 ^ 41 \<Longrightarrow> om_allocate every_size G groups m \<noteq> None"
  by (simp add: om_allocate_def large_buffer_ok_def sizeof_order_def Let_def)

text \<open>The table grows only when it is almost half full.\<close>

lemma insert_capacity:
  assumes "om_inv (GroupBest b) m" "om_insert alloc (GroupBest b) m r = Some (i, m')" "om_capacity m \<le> 2 ^ 40" "om_size m < 2 ^ 32"
  shows "om_capacity m' \<le> 2 ^ 40"
proof -
  have claim: "om_capacity m2 = om_capacity m1" if "om_claim (GroupBest b) m1 r = Some (j, m2)" for m1 m2 j
    using that by (auto simp: om_claim_def Let_def bind_eq_Some_conv split: if_splits)
  show ?thesis
  proof (cases "growth_left m = 0")
    case False
    then show ?thesis using claim [of m i m'] assms(2,3) by (simp add: om_insert_def numeral_2_eq_2)
  next
    case True
    define groups where "groups = (if om_size m * 2 > max_load (om_capacity m) then om_capacity m div kWidth (GroupBest b) * 2
      else om_capacity m div kWidth (GroupBest b))"
    obtain m1 where m1: "rehash_with (om_insert_depth 1 alloc (GroupBest b)) alloc (GroupBest b) m = Some m1"
      "om_claim (GroupBest b) m1 r = Some (i, m')"
      using assms(2) True by (auto simp: om_insert_def numeral_2_eq_2 bind_eq_Some_conv)
    have "om_capacity m1 = groups * kWidth (GroupBest b)"
      using best_group.rehash_spec [OF assms(1), of "om_insert_depth 1 alloc (GroupBest b)" alloc] m1(1)
      by (auto simp: groups_def best_group.insert_depth_1 numeral_2_eq_2)
    moreover have "groups * kWidth (GroupBest b) \<le> 2 ^ 40"
    proof (cases "om_size m * 2 > max_load (om_capacity m)")
      case True
      have "groups * kWidth (GroupBest b) \<le> 2 * om_capacity m"
        using True div_times_less_eq_dividend [of "om_capacity m" "kWidth (GroupBest b)"] by (simp add: groups_def)
      then show ?thesis using True assms(4) by (simp add: max_load_def)
    next
      case False
      then show ?thesis using order_trans [OF div_times_less_eq_dividend assms(3)] by (simp add: groups_def)
    qed
    ultimately show ?thesis using claim [OF m1(2)] by simp
  qed
qed

lemma card_levels: "finite (dom M) \<Longrightarrow> card (dom (level_spec M loc bid)) \<le> card (dom M)"
  by (rule surj_card_le [where f = "\<lambda>r. okey (the (M r))"]) (force simp: level_spec_eq level_refs_def in_level_def split: if_splits)+

lemma grow_room:
  assumes "ls_inv s" "ls_size s < 2 ^ 31" "ls_size s = ls_cap s"
  shows "ls_grow every_size s \<noteq> None"
proof -
  have "ls_cap s * 2 mod 2 ^ 32 = ls_cap s * 2" using assms(2,3) by simp
  then show ?thesis using assms by (simp add: ls_grow_def regrow_def Let_def ls_inv_def ls_shape_def)
qed

lemma side_size:
  assumes "eng_inv b e" "card (dom (eng_map e)) < n"
  shows "ls_inv (book_side (eng_books e loc) sd)" "ls_size (book_side (eng_books e loc) sd) < n"
proof -
  let ?s = "book_side (eng_books e loc) sd"
  have s: "ls_inv ?s" "ls_abs ?s = level_spec (eng_map e) loc (sd = side_buy)"
    using books_ok_side [of "eng_map e" "eng_books e" loc sd] assms(1) by (simp_all add: eng_inv_def)
  have f: "finite (dom (eng_map e))" unfolding om_abs_def by (rule finite_dom_map_of)
  have "card (dom (ls_abs ?s)) = ls_size ?s"
    using side_facts(3,5,9) [OF s(1)] by (metis distinct_card length_map list.set_map)
  then show "ls_inv ?s" "ls_size ?s < n" using s card_levels [OF f, of loc "sd = side_buy"] assms(2) by simp_all
qed

lemma room:
  assumes "eng_inv b e" "bounded e" "card (dom (eng_map e)) < 2 ^ 31"
  shows "\<not> no_room every_size b e loc sd"
proof -
  let ?c = "om_capacity (eng_orders e)" and ?w = "kWidth (GroupBest b)"
  have le: "?c div ?w * ?w \<le> 2 ^ 40" using assms(2) unfolding bounded_def by (rule order_trans [OF div_times_less_eq_dividend])
  then have "om_allocate every_size (GroupBest b) g (eng_orders e) \<noteq> None" if "g \<in> {?c div ?w, ?c div ?w * 2}" for g
    using that le by (intro allocate_small) (auto simp: ac_simps)
  then show ?thesis using grow_room [OF side_size [OF assms(1,3), of loc sd]] by (auto simp: no_room_def Let_def)
qed

section \<open>Events\<close>

lemma add_bounded:
  assumes "eng_inv b e" "bounded e" "eng_add alloc b e loc r sd shares price = Some (e', u)"
  shows "bounded e'"
proof -
  obtain i m where m: "om_insert alloc (GroupBest b) (eng_orders e) r = Some (i, m)" "om_capacity (eng_orders e') = om_capacity m"
    using assms(3) unfolding eng_add_def bind_eq_Some_conv
    by (elim exE conjE) (clarsimp simp: Let_def om_put_def set_book_side_def bind_eq_Some_conv)
  have i: "om_inv (GroupBest b) (eng_orders e)" "card (dom (eng_map e)) < 2 ^ 32" using assms(1) by (simp_all add: eng_inv_def)
  show ?thesis using insert_capacity [OF i(1) m(1)] best_group.size_dom [OF i(1)] i(2) assms(2) m(2) by (simp add: bounded_def)
qed

lemma erase_capacity: "eng_erase b e i = Some e' \<Longrightarrow> om_capacity (eng_orders e') = om_capacity (eng_orders e)"
  by (auto simp: eng_erase_def om_erase_def bind_eq_Some_conv split: if_splits)

lemma remove_bounded: "eng_remove b e r = Some (e', u) \<Longrightarrow> bounded e \<Longrightarrow> bounded e'"
  by (auto simp: eng_remove_def Let_def bind_eq_Some_conv bounded_def erase_capacity dest!: apply_reduce_orders split: option.splits)

lemma reduce_bounded:
  assumes "eng_reduce b e r sh = Some (e', u)" "bounded e"
  shows "bounded e'"
proof -
  obtain f where f: "om_find (GroupBest b) (eng_orders e) r = Some f" using assms(1) by (auto simp: eng_reduce_def bind_eq_Some_conv)
  show ?thesis
  proof (cases f)
    case None
    then show ?thesis using assms f by (auto simp: eng_reduce_def bounded_def)
  next
    case (Some i)
    let ?ord = "om_get (eng_orders e) i"
    let ?sh = "if o_shares ?ord < sh then o_shares ?ord else sh" and ?e1 = "if o_shares ?ord < sh then e\<lparr>overfill := overfill e + 1\<rparr> else e"
    have c1: "om_capacity (eng_orders ?e1) = om_capacity (eng_orders e)" by simp
    have split: "(if o_shares ?ord < sh then (e\<lparr>overfill := overfill e + 1\<rparr>, o_shares ?ord) else (e, sh)) = (?e1, ?sh)" by simp
    show ?thesis
    proof (cases "?sh = 0")
      case True
      then show ?thesis using assms f Some c1 unfolding eng_reduce_def split by (simp add: Let_def bounded_def split: if_splits)
    next
      case False
      define ord' where "ord' = ?ord\<lparr>o_shares := o_shares ?ord - ?sh\<rparr>"
      define e2 where "e2 = ?e1\<lparr>eng_orders := om_put (eng_orders ?e1) i ord'\<rparr>"
      have c2: "om_capacity (eng_orders e2) = om_capacity (eng_orders e)" by (simp add: e2_def om_put_def)
      obtain e3 u3 where e3: "apply_reduce b e2 ord' ?sh (o_shares ord' = 0) = Some (e3, u3)"
        "e' = e3 \<or> eng_erase b e3 i = Some e'"
        using assms(1) f Some False unfolding eng_reduce_def split e2_def ord'_def
        by (auto simp: Let_def bind_eq_Some_conv split: if_split_asm)
      then show ?thesis using assms(2) c2 apply_reduce_orders [OF e3(1)] erase_capacity [of b e3 i e'] by (auto simp: bounded_def)
    qed
  qed
qed

lemma erased_engine:
  assumes "eng_inv b e" "eng_map e r = Some ord" "eng_remove b e r = Some (e', u)"
  shows "eng_inv b e'" "eng_map e' = (eng_map e)(r := None)"
  using remove_spec [OF assms(1,2)] assms(3) by auto

lemma replace_split:
  assumes "om_find (GroupBest b) (eng_orders e) old_ref = Some (Some i)"
  shows "eng_replace alloc b e old_ref new_ref shares price = do {
    (e2, removed) \<leftarrow> eng_remove b e old_ref;
    (e3, added) \<leftarrow> eng_add alloc b e2 (o_locate (om_get (eng_orders e) i)) new_ref (o_side (om_get (eng_orders e) i)) shares price;
    Some (e3, added\<lparr>bu_top_changed := bu_top_changed added \<or> bu_top_changed removed\<rparr>) }"
  using assms by (simp add: eng_replace_def eng_remove_def Let_def split: Option.bind_split)

lemma replace_bounded:
  assumes "eng_inv b e" "bounded e" "eng_replace alloc b e old_ref new_ref shares price = Some (e', u)"
  shows "bounded e'"
proof -
  have om: "om_inv (GroupBest b) (eng_orders e)" using assms(1) by (simp add: eng_inv_def)
  show ?thesis
  proof (cases "eng_map e old_ref")
    case None
    then show ?thesis using best_table.find_unknown [OF om None] assms(2,3) by (auto simp: eng_replace_def bounded_def)
  next
    case (Some ord)
    obtain i where i: "om_find (GroupBest b) (eng_orders e) old_ref = Some (Some i)" using best_table.find_known [OF om Some] by blast
    obtain e2 u2 u3 where e2: "eng_remove b e old_ref = Some (e2, u2)"
      "eng_add alloc b e2 (o_locate (om_get (eng_orders e) i)) new_ref (o_side (om_get (eng_orders e) i)) shares price = Some (e', u3)"
      using assms(3) unfolding replace_split [OF i] by (auto simp: bind_eq_Some_conv)
    show ?thesis
      using add_bounded [OF erased_engine(1) [OF assms(1) Some e2(1)] remove_bounded [OF e2(1) assms(2)] e2(2)] .
  qed
qed

lemma event_bounded:
  assumes "eng_inv b e" "bounded e" "apply_event alloc b ev e = Some (e', u)"
  shows "bounded e'"
proof (cases ev)
  case (Add loc ref side shares price)
  then show ?thesis using add_bounded [OF assms(1,2)] assms(3) by simp
next
  case (Reduce ref shares)
  then show ?thesis using reduce_bounded [OF _ assms(2)] assms(3) by simp
next
  case (Remove ref)
  then show ?thesis using remove_bounded [OF _ assms(2)] assms(3) by simp
next
  case (Replace old_ref new_ref shares price)
  then show ?thesis using replace_bounded [OF assms(1,2)] assms(3) by simp
next
  case (Prepare loc)
  then show ?thesis using assms(2,3) by (auto simp: bind_eq_Some_conv eng_prepare_def bounded_def)
qed

text \<open>An event makes at most one order live.\<close>

lemma dom_after: "\<exists>r. dom (abs_event ev M) \<subseteq> insert r (dom M)"
proof (cases ev)
  case (Reduce ref shares)
  then show ?thesis by (auto simp: abs_reduce_def split: option.splits if_splits intro!: exI [of _ ref])
next
  case (Replace old_ref new_ref shares price)
  then show ?thesis by (auto simp: abs_replace_def split: option.splits if_splits intro!: exI [of _ new_ref])
qed auto

lemma finite_eng_map: "finite (dom (eng_map e))"
  unfolding om_abs_def by (rule finite_dom_map_of)

lemma card_after:
  assumes "finite (dom M)"
  shows "card (dom (abs_event ev M)) \<le> Suc (card (dom M))"
proof -
  obtain r where "dom (abs_event ev M) \<subseteq> insert r (dom M)" using dom_after by blast
  then have "card (dom (abs_event ev M)) \<le> card (insert r (dom M))" using assms by (intro card_mono) auto
  then show ?thesis using card_insert_if [OF assms, of r] by (simp split: if_splits)
qed

lemma event_never_fails:
  assumes "eng_inv b e" "bounded e" "admissible ev (eng_map e)" "card (dom (eng_map e)) < 2 ^ 31"
  shows "apply_event every_size b ev e \<noteq> None"
proof (cases "apply_event every_size b ev e")
  case None
  then have o: "out_of_memory every_size b e ev" using event_refines [OF assms(1,3), of every_size] by auto
  have "\<not> out_of_memory every_size b e ev \<or> (\<exists>loc. ev = Prepare loc)"
  proof (cases ev)
    case (Replace old_ref new_ref shares price)
    have "\<not> no_room every_size b e2 (o_locate ord) (o_side ord)"
      if ord: "eng_map e old_ref = Some ord" and e2: "fst ` set_option (eng_remove b e old_ref) = {e2}" for ord e2
    proof -
      obtain u where u: "eng_remove b e old_ref = Some (e2, u)" using e2 by (cases "eng_remove b e old_ref") auto
      have "card (dom (eng_map e2)) \<le> card (dom (eng_map e))"
        unfolding erased_engine(2) [OF assms(1) ord u] by (rule card_mono) (auto simp: om_abs_def finite_dom_map_of)
      then show ?thesis using room [OF erased_engine(1) [OF assms(1) ord u] remove_bounded [OF u assms(2)]] assms(4) by simp
    qed
    then show ?thesis by (auto simp: Replace)
  qed (use room [OF assms(1,2,4)] in auto)
  then obtain loc where ev: "ev = Prepare loc" using o by blast
  have "reserve_initial every_size (book_side (eng_books e loc) sd) \<noteq> None" for sd
    using grow_room [OF side_size [OF assms(1,4)], of loc sd] side_size [OF assms(1,4), of loc sd]
    by (auto simp: reserve_initial_def ls_inv_def ls_shape_def)
  from this [of side_buy] this [of 0] None show ?thesis by (auto simp: ev eng_prepare_def book_side_def side_buy_def)
qed simp

section \<open>Streams\<close>

lemma events_never_fail:
  assumes "eng_inv b e" "bounded e" "admissible_all evs (eng_map e)" "card (dom (eng_map e)) + length evs \<le> 2 ^ 31"
  shows "\<exists>e'. apply_events every_size b evs e = Some e' \<and> bounded e'"
  using assms
proof (induction evs arbitrary: e)
  case (Cons ev evs)
  have adm: "admissible ev (eng_map e)" "admissible_all evs (abs_event ev (eng_map e))" using Cons.prems(3) by simp_all
  obtain e1 u where e1: "apply_event every_size b ev e = Some (e1, u)"
    using event_never_fails [OF Cons.prems(1,2) adm(1)] Cons.prems(4) by fastforce
  then have ok: "eng_inv b e1" "eng_map e1 = abs_event ev (eng_map e)"
    using event_step [OF Cons.prems(1) adm(1) e1] by (simp_all add: event_ok_def)
  have "card (dom (eng_map e1)) + length evs \<le> 2 ^ 31"
    using card_after [OF finite_eng_map, of ev e] Cons.prems(4) unfolding ok(2) by simp
  from Cons.IH [OF ok(1) event_bounded [OF Cons.prems(1,2) e1] _ this] adm(2) show ?case
    by (simp add: apply_events_def e1 ok(2))
qed (simp add: apply_events_def)

lemma length_stream_events: "length (stream_events acc fs) \<le> length fs"
proof (induction fs)
  case (Cons f fs)
  have "length (verdict_events acc (classify f)) \<le> 1" by (cases "classify f") (auto simp: verdict_events_def split: option.splits)
  then show ?case using Cons by (simp add: stream_events_def)
qed (simp add: stream_events_def)

section \<open>A new engine\<close>

lemma bit_ceil_le: "0 < n \<Longrightarrow> bit_ceil n \<le> 2 * n"
proof (cases "n \<le> 1")
  case False
  then have "2 ^ (bit_width (n - 1) - 1) \<le> n - 1" by (intro bit_width_lower) simp
  then have "2 * 2 ^ (bit_width (n - 1) - 1) \<le> 2 * n" by linarith
  moreover have "0 < bit_width (n - 1)" using False by (subst bit_width.simps) simp
  ultimately show ?thesis using False by (simp add: bit_ceil_def flip: power_Suc)
qed (simp add: bit_ceil_def)

lemma groups_for_le:
  assumes "n \<le> 2 ^ 32"
  shows "groups_for (GroupBest b) n * kWidth (GroupBest b) \<le> 2 ^ 40"
proof -
  define w where "w = kWidth (GroupBest b)"
  define sl where "sl = n + n div 7 + 1"
  have w: "w \<le> 32" "0 < w" using width_le [of b] by (simp_all add: w_def)
  have "n div 7 \<le> n" by (rule div_le_dividend)
  then have sl: "sl + w - 1 \<le> 2 ^ 34" "w \<le> sl + w - 1" using assms w by (simp_all add: sl_def)
  let ?x = "(sl + w - 1) div w"
  have "0 < ?x" using sl(2) w by (simp add: div_greater_zero_iff)
  then have "bit_ceil ?x * w \<le> 2 * (?x * w)" using bit_ceil_le [of ?x] by (metis mult.assoc mult_le_mono1)
  also have "\<dots> \<le> 2 * (sl + w - 1)" by (intro mult_left_mono div_times_less_eq_dividend) simp
  finally have "bit_ceil ?x * w \<le> 2 ^ 40" using sl(1) by simp
  then show ?thesis using w(1) unfolding groups_for_def Let_def w_def [symmetric] sl_def [symmetric] by (simp only: split: if_split) simp
qed

lemma new_engine_bounded:
  assumes "n \<le> 2 ^ 32"
  shows "\<exists>e. new_engine every_size b n = Some e \<and> bounded e"
proof -
  have "om_allocate every_size (GroupBest b) (groups_for (GroupBest b) n) empty_omap \<noteq> None"
    using groups_for_le [OF assms, of b] by (intro allocate_small) simp
  then obtain m where m: "new_omap every_size (GroupBest b) n = Some m" by (auto simp: new_omap_def)
  have "om_capacity m = groups_for (GroupBest b) n * kWidth (GroupBest b)"
    using m by (auto simp: new_omap_def om_allocate_def om_clear_def Let_def split: if_splits)
  then show ?thesis using groups_for_le [OF assms, of b] m by (simp add: new_engine_def bounded_def)
qed

lemma stream_ends:
  assumes "n \<le> 2 ^ 32" "len \<le> length buf" "frames (take len buf) = (fs, rest)" "length fs \<le> 2 ^ 31" "accepts S acc"
    and "admissible_all (stream_events acc fs) Map.empty"
  shows "\<exists>e P'. new_engine every_size b n = Some e \<and>
    parse_stream (bb_handler every_size b S) buf len (new_parser \<lparr>bb_engine = e, bb_sink = s\<rparr>) = Some (P', len - length rest) \<and>
    eng_inv b (bb_engine (handler_state P')) \<and> om_capacity (eng_orders (bb_engine (handler_state P'))) \<le> 2 ^ 40"
proof -
  obtain e where e: "new_engine every_size b n = Some e" "bounded e" using new_engine_bounded [OF assms(1)] by blast
  have i: "eng_inv b e" "eng_map e = Map.empty" using new_engine_spec [OF e(1)] by simp_all
  let ?P = "new_parser \<lparr>bb_engine = e, bb_sink = s\<rparr>"
  have st: "bb_engine (handler_state ?P) = e" by (simp add: new_parser_def)
  have l: "card (dom (eng_map e)) + length (stream_events acc fs) \<le> 2 ^ 31"
    using length_stream_events [of acc fs] assms(4) i(2) by simp
  obtain e' where e': "apply_events every_size b (stream_events acc fs) e = Some e'" "bounded e'"
    using events_never_fail [OF i(1) e(2) _ l] assms(6) i(2) by auto
  have inv: "eng_inv b e'" using apply_events_refine [OF i(1), of "stream_events acc fs" every_size] assms(6) i(2) e'(1) by auto
  have "map_option (\<lambda>P. bb_engine (handler_state P)) (foldO (\<lambda>bs. apply_verdict (bb_handler every_size b S) (classify bs)) fs ?P) = Some e'"
    using stream_engine [OF assms(5), of every_size b fs ?P] e'(1) st by simp
  then obtain P' where P': "foldO (\<lambda>bs. apply_verdict (bb_handler every_size b S) (classify bs)) fs ?P = Some P'"
    "bb_engine (handler_state P') = e'" by auto
  have "parse_stream (bb_handler every_size b S) buf len ?P = Some (P', len - length rest)"
    using parse_stream_cut [OF assms(2), of "bb_handler every_size b S" ?P] assms(3) P'(1) by simp
  then show ?thesis using e(1) e'(2) inv P'(2) unfolding bounded_def by blast
qed

section \<open>Properties\<close>

text \<open>
  C5. Streams end. If every allocation of a possible size succeeds, an engine made for at most \<open>2 ^ 32\<close> orders takes any admissible
  stream of at most \<open>2 ^ 31\<close> records to its end: no capacity wraps, no size leaves \<^verbatim>\<open>size_t\<close>, and no access is out of bounds. What is left over is the
  incomplete record at the end.
\<close>

theorem builder_stream_ends:
  assumes "n \<le> 2 ^ 32" "len \<le> length buf" "frames (take len buf) = (fs, rest)" "length fs \<le> 2 ^ 31" "accepts S acc"
    and "admissible_all (stream_events acc fs) Map.empty"
  shows "\<exists>e P'. new_engine every_size b n = Some e \<and>
    parse_stream (bb_handler every_size b S) buf len (new_parser \<lparr>bb_engine = e, bb_sink = s\<rparr>) = Some (P', len - length rest) \<and>
    eng_inv b (bb_engine (handler_state P')) \<and> om_capacity (eng_orders (bb_engine (handler_state P'))) \<le> 2 ^ 40"
  by (rule stream_ends [OF assms])

theorem builder_stream_ends_witness:
  "\<exists>e P'. new_engine every_size Have_AVX2 1000 = Some e \<and>
    parse_stream (bb_handler every_size Have_AVX2 null_sink) delete_record 21 (new_parser \<lparr>bb_engine = e, bb_sink = ()\<rparr>) = Some (P', 21) \<and>
    eng_inv Have_AVX2 (bb_engine (handler_state P'))"
proof -
  have h: "21 \<le> length delete_record" "length [drop 2 delete_record] \<le> 2 ^ 31" "accepts null_sink (\<lambda>_ _. True)"
    "admissible_all (stream_events (\<lambda>_ _. True) [drop 2 delete_record]) Map.empty"
    unfolding sample_events by (simp_all add: delete_record_def accepts_def null_sink_def)
  from builder_stream_ends [OF _ h(1) sample_frames h(2-4), of 1000 Have_AVX2 "()"] show ?thesis by simp blast
qed

end
