(* ===== verification/Platform.thy ===== *)
theory Platform
  imports Level_Search
begin

text \<open>
  The check of the processor (\<^verbatim>\<open>platform.hpp\<close>) that every program runs first: a binary that was compiled for instructions that the processor
  lacks names them and ends with exit code 2. The list of names is written by \<open>strncat\<close> into a static buffer of 128 bytes. What the compiler
  defines is a set of macros; what the processor, the system and the environment answer are parameters. \<open>bm_main\<close> (\<^verbatim>\<open>bench/bm_main.cpp\<close>) is
  the program around the benchmarks.
\<close>

section \<open>Compile time\<close>

type_synonym macros = "string \<Rightarrow> bool"

definition have_ssse3 :: "macros \<Rightarrow> bool" where "have_ssse3 defd = defd ''__SSSE3__''"
definition have_sse41 :: "macros \<Rightarrow> bool" where "have_sse41 defd = defd ''__SSE4_1__''"
definition have_avx2 :: "macros \<Rightarrow> bool" where "have_avx2 defd = defd ''__AVX2__''"

definition simd_level_name :: "macros \<Rightarrow> string" where
  "simd_level_name defd =
     (if defd ''ITCH_FORCE_SCALAR'' then ''scalar''
      else if have_avx2 defd then ''AVX2''
      else if have_sse41 defd then ''SSE4.1''
      else if have_ssse3 defd then ''SSSE3''
      else ''SSE2'')"

text \<open>The level search that the same macros choose.\<close>

definition build_isa :: "macros \<Rightarrow> isa" where
  "build_isa defd =
     (if defd ''ITCH_FORCE_SCALAR'' then Force_Scalar
      else if have_avx2 defd then Have_AVX2
      else if have_sse41 defd then Have_SSE41
      else Have_SSE2)"

section \<open>Strings of C\<close>

definition NUL :: char where "NUL = CHR 0x00"

text \<open>Both run out of the buffer, which is undefined, when there is no end mark; \<open>strncat\<close> appends at most \<open>n\<close> characters and an end mark.\<close>

definition c_strlen :: "string \<Rightarrow> nat option" where
  "c_strlen buf = (let n = length (takeWhile (\<lambda>c. c \<noteq> NUL) buf) in if n < length buf then Some n else None)"

definition c_strncat :: "string \<Rightarrow> string \<Rightarrow> nat \<Rightarrow> string option" where
  "c_strncat buf s n = do {
     e \<leftarrow> c_strlen buf;
     let added = take n s @ [NUL];
     if e + length added \<le> length buf then Some (take e buf @ added @ drop (e + length added) buf) else None }"

definition c_string :: "string \<Rightarrow> string" where
  "c_string buf = takeWhile (\<lambda>c. c \<noteq> NUL) buf"

section \<open>What the processor lacks\<close>

record processor =
  cpu_supports :: "string \<Rightarrow> bool"
  get_cpuid_count :: "u32 \<Rightarrow> u32 \<Rightarrow> (u32 list) option"

definition cpuid_bit :: "processor \<Rightarrow> u32 \<Rightarrow> u32 \<Rightarrow> nat \<Rightarrow> nat \<Rightarrow> bool" where
  "cpuid_bit cpu leaf sub reg b = (case get_cpuid_count cpu leaf sub of None \<Rightarrow> False
     | Some r \<Rightarrow> drop_bit b (r ! reg) AND 1 \<noteq> 0)"

definition need :: "bool \<Rightarrow> string \<Rightarrow> string \<Rightarrow> string option" where
  "need have_it name buf =
     (if \<not> have_it then do {
        n \<leftarrow> c_strlen buf;
        buf1 \<leftarrow> c_strncat buf name (length buf - n - 1);
        n1 \<leftarrow> c_strlen buf1;
        c_strncat buf1 '' '' (length buf1 - n1 - 1) }
      else Some buf)"

text \<open>The checks that the macros compile in: the macro, the question, the name. The registers are eax, ebx, ecx, edx.\<close>

definition checks :: "processor \<Rightarrow> (string \<times> bool \<times> string) list" where
  "checks cpu =
    [(''__SSSE3__'', cpu_supports cpu ''ssse3'', ''ssse3''),
     (''__SSE4_1__'', cpu_supports cpu ''sse4.1'', ''sse4.1''),
     (''__SSE4_2__'', cpu_supports cpu ''sse4.2'', ''sse4.2''),
     (''__POPCNT__'', cpu_supports cpu ''popcnt'', ''popcnt''),
     (''__AVX2__'', cpu_supports cpu ''avx2'', ''avx2''),
     (''__BMI2__'', cpu_supports cpu ''bmi2'', ''bmi2''),
     (''__BMI__'', cpuid_bit cpu 7 0 1 3, ''bmi''),
     (''__MOVBE__'', cpuid_bit cpu 1 0 2 22, ''movbe''),
     (''__LZCNT__'', cpuid_bit cpu 0x80000001 0 2 5, ''lzcnt''),
     (''__FMA__'', cpuid_bit cpu 1 0 2 12, ''fma''),
     (''__F16C__'', cpuid_bit cpu 1 0 2 29, ''f16c'')]"

definition missing_cpu_features :: "macros \<Rightarrow> processor \<Rightarrow> string \<Rightarrow> string option" where
  "missing_cpu_features defd cpu buf =
     foldO (\<lambda>(macro, have_it, name) b. if defd macro then need have_it name b else Some b) (checks cpu) (buf[0 := NUL])"

section \<open>The check\<close>

text \<open>\<open>sysctlbyname\<close> answers on macOS only: \<open>None\<close> when it fails.\<close>

definition running_under_rosetta :: "macros \<Rightarrow> int option \<Rightarrow> bool" where
  "running_under_rosetta defd translated = (defd ''__APPLE__'' \<and> translated = Some 1)"

text \<open>It returns, with the note that it prints, or ends the program with a code and a message.\<close>

datatype cpu_check = Goes_on "string option" | Refuses int string

definition check_cpu_or_exit ::
  "macros \<Rightarrow> processor \<Rightarrow> int option \<Rightarrow> (string \<Rightarrow> string option) \<Rightarrow> string \<Rightarrow> (cpu_check \<times> string) option" where
  "check_cpu_or_exit defd cpu translated env buf0 = do {
     buf \<leftarrow> missing_cpu_features defd cpu buf0;
     Some (if buf ! 0 = NUL then (Goes_on None, buf)
       else if running_under_rosetta defd translated then (Goes_on (Some (c_string buf)), buf)
       else case env ''ITCH_SKIP_CPU_CHECK'' of
         None \<Rightarrow> (Refuses 2 (c_string buf), buf)
       | Some skip \<Rightarrow> if skip \<noteq> [] \<and> hd skip = CHR ''1'' then (Goes_on None, buf) else (Refuses 2 (c_string buf), buf)) }"

text \<open>The custom contexts of the benchmarks, and the exit code. Whether an argument is not recognised is a parameter.\<close>

definition bm_main ::
  "macros \<Rightarrow> processor \<Rightarrow> int option \<Rightarrow> (string \<Rightarrow> string option) \<Rightarrow> bool \<Rightarrow> string \<Rightarrow> ((string \<times> string) list \<times> int) option" where
  "bm_main defd cpu translated env unrecognized buf0 = do {
     (v, buf) \<leftarrow> check_cpu_or_exit defd cpu translated env buf0;
     Some (case v of Refuses code msg \<Rightarrow> ([], code)
       | Goes_on note \<Rightarrow>
           ((''itch_simd_level'', simd_level_name defd) #
            (if running_under_rosetta defd translated
             then [(''WARNING'', ''running under Rosetta 2 translation: timings are NOT representative'')] else []),
            if unrecognized then 1 else 0)) }"

section \<open>The names fit into the buffer\<close>

text \<open>A buffer that holds a string: the string, its end mark, anything.\<close>

definition in_buffer :: "string \<Rightarrow> string \<Rightarrow> bool" where
  "in_buffer s buf \<longleftrightarrow> NUL \<notin> set s \<and> length s < length buf \<and> take (Suc (length s)) buf = s @ [NUL]"

lemma holds_append: "in_buffer s buf \<Longrightarrow> \<exists>rest. buf = s @ NUL # rest"
  unfolding in_buffer_def by (metis append_Cons append_assoc append_Nil append_take_drop_id)

lemma c_string_holds: "in_buffer s buf \<Longrightarrow> c_string buf = s"
proof -
  assume h: "in_buffer s buf"
  then obtain rest where "buf = s @ NUL # rest" by (auto dest: holds_append)
  moreover have "\<forall>c \<in> set s. c \<noteq> NUL" using h by (auto simp: in_buffer_def)
  ultimately show ?thesis by (simp add: c_string_def)
qed

lemma c_strlen_holds: "in_buffer s buf \<Longrightarrow> c_strlen buf = Some (length s)"
  using c_string_holds [of s buf] unfolding c_strlen_def c_string_def by (simp add: in_buffer_def Let_def)

lemma c_strncat_holds:
  assumes "in_buffer s buf" "NUL \<notin> set t" "length t \<le> n" "length s + length t < length buf"
  shows "\<exists>buf'. c_strncat buf t n = Some buf' \<and> in_buffer (s @ t) buf' \<and> length buf' = length buf"
proof -
  have "take (length s) buf = s" using holds_append [OF assms(1)] by auto
  moreover note c_strlen_holds [OF assms(1)]
  ultimately show ?thesis
    using assms by (cases "length buf") (simp_all add: c_strncat_def in_buffer_def Let_def)
qed

lemma need_holds:
  assumes "in_buffer s buf" "NUL \<notin> set name" "length s + length name + 1 < length buf"
  shows "\<exists>buf'. need have_it name buf = Some buf' \<and> in_buffer (s @ (if have_it then [] else name @ '' '')) buf' \<and> length buf' = length buf"
proof (cases have_it)
  case True
  then show ?thesis using assms by (simp add: need_def)
next
  case False
  obtain b1 where b1: "c_strncat buf name (length buf - length s - 1) = Some b1" "in_buffer (s @ name) b1" "length b1 = length buf"
    using c_strncat_holds [OF assms(1,2), of "length buf - length s - 1"] assms(3) by fastforce
  obtain b2 where b2: "c_strncat b1 '' '' (length b1 - length (s @ name) - 1) = Some b2" "in_buffer ((s @ name) @ '' '') b2" "length b2 = length b1"
    using c_strncat_holds [OF b1(2), of "'' ''" "length b1 - length (s @ name) - 1"] assms(3) b1(3) by (fastforce simp: NUL_def)
  show ?thesis using False c_strlen_holds [OF assms(1)] c_strlen_holds [OF b1(2)] b1 b2 by (simp add: need_def)
qed

text \<open>What the binary needs and the processor lacks.\<close>

definition lacking :: "macros \<Rightarrow> (string \<times> bool \<times> string) list \<Rightarrow> string list" where
  "lacking defd cs = map (\<lambda>(_, _, name). name) (filter (\<lambda>(macro, have_it, _). defd macro \<and> \<not> have_it) cs)"

definition spaced :: "string list \<Rightarrow> string" where
  "spaced names = concat (map (\<lambda>n. n @ '' '') names)"

lemma checks_fold:
  assumes "in_buffer s buf" "\<forall>(_, _, name) \<in> set cs. NUL \<notin> set name" "length s + (\<Sum>(_, _, name) \<leftarrow> cs. length name + 1) < length buf"
  shows "\<exists>buf'. foldO (\<lambda>(macro, have_it, name) b. if defd macro then need have_it name b else Some b) cs buf = Some buf' \<and>
    in_buffer (s @ spaced (lacking defd cs)) buf' \<and> length buf' = length buf"
  using assms
proof (induction cs arbitrary: s buf)
  case (Cons c cs)
  obtain macro have_it name where c: "c = (macro, have_it, name)" by (metis prod_cases3)
  define s1 where "s1 = s @ (if \<not> defd macro \<or> have_it then [] else name @ '' '')"
  obtain b1 where b1: "(if defd macro then need have_it name buf else Some buf) = Some b1" "in_buffer s1 b1" "length b1 = length buf"
    using need_holds [OF Cons.prems(1), of name "\<not> defd macro \<or> have_it"] Cons.prems c by (cases "defd macro") (auto simp: s1_def need_def)
  have "length s1 + (\<Sum>(_, _, name) \<leftarrow> cs. length name + 1) < length b1" using Cons.prems(3) b1(3) by (simp add: c s1_def)
  then obtain b2 where "foldO (\<lambda>(macro, have_it, name) b. if defd macro then need have_it name b else Some b) cs b1 = Some b2"
    "in_buffer (s1 @ spaced (lacking defd cs)) b2" "length b2 = length b1"
    using Cons.IH [OF b1(2)] Cons.prems(2) by auto
  moreover have "s1 @ spaced (lacking defd cs) = s @ spaced (lacking defd (c # cs))" by (simp add: s1_def c lacking_def spaced_def)
  ultimately show ?case using b1 by (simp add: c)
qed (simp add: lacking_def spaced_def)

lemma missing_features:
  assumes "length buf0 = 128"
  shows "\<exists>buf. missing_cpu_features defd cpu buf0 = Some buf \<and> in_buffer (spaced (lacking defd (checks cpu))) buf \<and> length buf = 128"
proof -
  have "in_buffer [] (buf0[0 := NUL])" using assms by (cases buf0) (simp_all add: in_buffer_def)
  moreover have "\<forall>(_, _, name) \<in> set (checks cpu). NUL \<notin> set name" by (simp add: checks_def NUL_def)
  moreover have "(\<Sum>(_, _, name) \<leftarrow> checks cpu. length name + 1) = 62" by (simp add: checks_def)
  ultimately show ?thesis using checks_fold [of "[]" "buf0[0 := NUL]" "checks cpu" defd] assms by (simp add: missing_cpu_features_def)
qed

lemma build_isa_name: "simd_level_name defd = (case build_isa defd of Force_Scalar \<Rightarrow> ''scalar'' | Have_AVX2 \<Rightarrow> ''AVX2''
    | Have_SSE41 \<Rightarrow> ''SSE4.1'' | Have_SSE2 \<Rightarrow> if have_ssse3 defd then ''SSSE3'' else ''SSE2'')"
  by (simp add: simd_level_name_def build_isa_def)

section \<open>Properties\<close>

lemma check_cpu_value:
  fixes defd :: macros and cpu :: processor
  assumes "length buf0 = 128"
  defines "names \<equiv> lacking defd (checks cpu)"
  shows "\<exists>v buf. check_cpu_or_exit defd cpu translated env buf0 = Some (v, buf) \<and> length buf = 128 \<and>
    v = (if names = [] then Goes_on None
         else if defd ''__APPLE__'' \<and> translated = Some 1 then Goes_on (Some (spaced names))
         else if \<exists>rest. env ''ITCH_SKIP_CPU_CHECK'' = Some (CHR ''1'' # rest) then Goes_on None
         else Refuses 2 (spaced names))"
proof -
  obtain buf where m: "missing_cpu_features defd cpu buf0 = Some buf" "in_buffer (spaced names) buf" "length buf = 128"
    using missing_features [OF assms(1)] by (auto simp: names_def)
  obtain rest where b: "buf = spaced names @ NUL # rest" using holds_append [OF m(2)] by blast
  have "buf ! 0 = NUL \<longleftrightarrow> names = []"
  proof (cases names)
    case (Cons n ns)
    then have "spaced names \<noteq> []" by (simp add: spaced_def)
    then have "buf ! 0 \<in> set (spaced names)" unfolding b by (simp add: nth_append)
    then show ?thesis using m(2) Cons by (auto simp: in_buffer_def)
  qed (simp add: b spaced_def)
  then show ?thesis using m c_string_holds [OF m(2)]
    by (auto simp: check_cpu_or_exit_def running_under_rosetta_def neq_Nil_conv split: option.split)
qed

text \<open>
  C40. Whatever the static buffer holds from an earlier call, the check ends without writing beyond it and without cutting the list of names. With nothing missing
  it goes on silently; otherwise it goes on only under Rosetta, with the whole list, or if the environment says so, and else ends the program with code 2 and the whole list:
  the names, each followed by a blank, of exactly the features that the binary was compiled for and the processor lacks.
\<close>

theorem check_cpu_exact:
  fixes defd :: macros and cpu :: processor
  assumes "length buf0 = 128"
  defines "names \<equiv> lacking defd (checks cpu)"
  shows "\<exists>v buf. check_cpu_or_exit defd cpu translated env buf0 = Some (v, buf) \<and> length buf = 128 \<and>
    v = (if names = [] then Goes_on None
         else if defd ''__APPLE__'' \<and> translated = Some 1 then Goes_on (Some (spaced names))
         else if \<exists>rest. env ''ITCH_SKIP_CPU_CHECK'' = Some (CHR ''1'' # rest) then Goes_on None
         else Refuses 2 (spaced names))"
  unfolding names_def by (rule check_cpu_value [OF assms(1)])

theorem check_cpu_exact_witness:
  "\<exists>buf. check_cpu_or_exit (\<lambda>m. m = ''__AVX2__'' \<or> m = ''__MOVBE__'') \<lparr>cpu_supports = (\<lambda>_. False), get_cpuid_count = (\<lambda>_ _. None)\<rparr> None (\<lambda>_. None)
     (replicate 128 (CHR ''x'')) = Some (Refuses 2 ''avx2 movbe '', buf)"
  using check_cpu_exact [of "replicate 128 (CHR ''x'')" "\<lambda>m. m = ''__AVX2__'' \<or> m = ''__MOVBE__''"
      "\<lparr>cpu_supports = (\<lambda>_. False), get_cpuid_count = (\<lambda>_ _. None)\<rparr>" None "\<lambda>_. None"]
  by (auto simp: lacking_def checks_def spaced_def cpuid_bit_def)

end
