(* ===== verification/Whole_Session.thy ===== *)
theory Whole_Session
  imports Report Synthetic_Session Engine_Memory Platform
begin

text \<open>
  The parts together: \<open>main\<close> replays a file, from the command line to the report.
\<close>

section \<open>The replay mode is one parse of the file\<close>

lemma run_replay_parses:
  fixes alloc b S
  defines "H \<equiv> bb_handler alloc b S"
  assumes "machine_ok mc" "\<And>k. mc_running mc k"
    and "file_open (mc_os mc) (mc_st_size mc) (replay_path cfg) True new_file W = Some ([], f, W1)"
    and "parse_stream H (mc_contents mc) (length (mc_contents mc)) P = Some (P', n)"
  shows "run_replay_file mc H cfg P W = Some (0, P', W)"
proof -
  obtain err g where g: "file_open (mc_os mc) (mc_st_size mc) (replay_path cfg) True new_file W = Some (err, g, file_owned g + W)"
    "file_destroy g (file_owned g + W) = Some W" "err = [] \<Longrightarrow> if_size g = length (mc_contents mc)"
    using file_opened [OF assms(2), of "replay_path cfg" True W] by blast
  have same: "err = []" "g = f" "W1 = file_owned g + W" using g(1) assms(4) by simp_all
  have len: "if_size f = length (mc_contents mc)" using g(3) same by simp
  have "replay_from kSlice (mc_running mc) (cf_prefetch cfg) H (mc_contents mc) (length (mc_contents mc)) 0 0 P =
      parse_stream H (mc_contents mc) (length (mc_contents mc)) P"
    unfolding H_def using replay_from_eq [of kSlice "length (mc_contents mc)" "mc_contents mc" "mc_running mc" 0 "cf_prefetch cfg" alloc b S 0 P]
      parse_stream_cut [of "length (mc_contents mc)" "mc_contents mc" "bb_handler alloc b S" P] assms(3)
    by (simp add: kSlice_def)
  then have slices: "replay_slices mc H cfg (if_size f) P W1 = Some (P', W1)" by (simp add: replay_slices_eq len assms(5))
  obtain h where lat: "latency_from (mc_running mc) (mc_tsc mc) H (mc_contents mc) (if_size f) 0 0 (P, new_histogram) = Some (P', h)"
    using latency_from_eq [OF order_refl, where H = H and buf = "mc_contents mc" and tsc = "mc_tsc mc" and P' = P' and P = P and e = n and off = 0
        and vs = "[]" and k = 0 and running = "mc_running mc" and h = new_histogram] assms(3,5) new_histogram_rep
    by (auto simp: parse_stream_def len)
  have d: "file_destroy f W1 = Some W" using g(2) same by simp
  show ?thesis by (simp add: run_replay_file_def assms(4) slices lat d)
qed

section \<open>A generated session\<close>

lemma frames_half: "frames xs = (fs, rest) \<Longrightarrow> 2 * length fs \<le> length xs"
proof -
  have "2 * length fs \<le> length (concat (map framed fs))" for fs
    by (induction fs) (simp_all add: framed_def)
  then show "frames xs = (fs, rest) \<Longrightarrow> ?thesis" by (metis frames_partition length_append trans_le_add1)
qed

lemma empty_top:
  assumes "eng_inv b e" "eng_map e = Map.empty"
  shows "tops (eng_books e) loc = Some \<lparr>bid_price = 0, ask_price = 0, bid_qty = 0, ask_qty = 0\<rparr>"
proof -
  have "ls_abs (book_side (eng_books e loc) sd) = Map.empty" for sd
    using books_ok_side [of "eng_map e" "eng_books e" loc sd] assms by (simp add: eng_inv_def level_spec_def level_refs_def fun_eq_iff)
  from this [of side_buy] this [of 0] have "ls_abs (bids (eng_books e loc)) = Map.empty" "ls_abs (asks (eng_books e loc)) = Map.empty"
    by (simp_all add: book_side_def side_buy_def)
  moreover have "book_inv (eng_books e loc)" using assms(1) books_ok_book_inv by (auto simp: eng_inv_def)
  ultimately show ?thesis using ob_top_eq [of "eng_books e loc"] by (simp add: tops_def top_spec_def best_def)
qed

lemma builder_session_ends:
  assumes "draws_in_range R" "0 < cfg_symbols c" "cfg_symbols c \<le> 65535"
    and "cfg_symbols c * cfg_initial_orders c + cfg_events c < 2 ^ 32" "build_feed c R (new_feed c R) = Some (out, F')"
    and "length out \<le> 2 ^ 32" "n \<le> 2 ^ 32" "accepts S (\<lambda>_ _. True)"
  shows "\<exists>e P'. new_engine every_size b n = Some e \<and>
    parse_stream (bb_handler every_size b S) out (length out) (new_parser \<lparr>bb_engine = e, bb_sink = s\<rparr>) = Some (P', length out) \<and>
    admissible_all (stream_events (\<lambda>_ _. True) (fst (frames out))) (eng_map e) \<and> snd (frames out) = []"
proof -
  obtain ms where ms: "out = concat (map (\<lambda>m. framed (wire m)) ms)" "list_all wf_message ms"
    "consistent_all (msg_events ms) Map.empty" using session_out [OF assms(1-5)] by blast
  have fr: "frames out = (map wire ms, [])" using session_frames [OF ms(2)] by (simp add: ms(1))
  have l: "length (map wire ms) \<le> 2 ^ 31" using frames_half [OF fr] assms(6) by simp
  have adm: "admissible_all (stream_events (\<lambda>_ _. True) (map wire ms)) Map.empty"
    using consistent_all_facts [OF ms(3)] by (simp add: stream_events_wire [OF ms(2)])
  obtain e P' where e: "new_engine every_size b n = Some e"
    "parse_stream (bb_handler every_size b S) out (length out) (new_parser \<lparr>bb_engine = e, bb_sink = s\<rparr>) = Some (P', length out)"
    using stream_ends [where b = b and s = s and buf = out and rest = "[]", OF assms(7) order_refl _ l assms(8) adm] fr by auto
  moreover have "eng_map e = Map.empty" using new_engine_spec [OF e(1)] by simp
  ultimately show ?thesis using adm fr by auto
qed

section \<open>Properties\<close>

text \<open>
  C1. The program replays a session that the generator wrote, with any of its options for replay: it ends with exit code 0, having given back what it
  acquired; it reports as many messages as the generator counted, nothing malformed, no unknown reference, no missing level, no overfill and no live order, and the
  line of every symbol is empty.
\<close>

theorem main_replays_session:
  assumes "machine_ok mc" "mc_alloc mc = every_size" "\<And>k. mc_running mc k"
    and "parse_args args = Inr cfg" "\<not> depth_profile cfg" "replay_path cfg \<noteq> []" "unat (expected_orders cfg) \<le> 2 ^ 32"
    and "file_open (mc_os mc) (mc_st_size mc) (replay_path cfg) True new_file W = Some ([], f, W1)"
    and "draws_in_range R" "0 < cfg_symbols c" "cfg_symbols c \<le> 65535"
    and "cfg_symbols c * cfg_initial_orders c + cfg_events c < 2 ^ 32" "build_feed c R (new_feed c R) = Some (mc_contents mc, F')"
    and "length (mc_contents mc) \<le> 2 ^ 32" "length junk = kRingSlots"
  shows "\<exists>P' pub. feed_main mc junk args W = Some (Ran 0 P', W) \<and> bb_sink (handler_state P') = Some pub \<and>
    (let R = report_of (stats P') (bb_engine (handler_state P')) pub consumed in
       rp_messages R = sf_messages F' \<and> rp_unknown_type R = 0 \<and> rp_bad_length R = 0 \<and> rp_empty R = 0 \<and>
       rp_unknown_ref R = 0 \<and> rp_missing_level R = 0 \<and> rp_overfill R = 0 \<and> rp_live_end R = 0) \<and>
    (\<forall>symbol. print_symbol (pub_dir pub) pub symbol = Some (case dir_locate (pub_dir pub) symbol of None \<Rightarrow> Not_in_directory | Some loc \<Rightarrow> Top_line loc 0 0 0 0))"
proof -
  let ?H = "bb_handler (mc_alloc mc) (mc_isa mc) publisher_sink" and ?out = "mc_contents mc" and ?n = "unat (expected_orders cfg)"
  have acc: "accepts publisher_sink (\<lambda>_ _. True)" by (simp add: accepts_def publisher_sink_def)
  obtain e P' where e: "new_engine (mc_alloc mc) (mc_isa mc) ?n = Some e"
    and P': "parse_stream ?H ?out (length ?out) (new_parser \<lparr>bb_engine = e, bb_sink = Some (new_publisher junk)\<rparr>) = Some (P', length ?out)"
    and ad: "admissible_all (stream_events (\<lambda>_ _. True) (fst (frames ?out))) (eng_map e)" "snd (frames ?out) = []"
    using builder_session_ends [OF assms(9-14,7) acc, of "mc_isa mc" "Some (new_publisher junk)"] unfolding assms(2) by blast
  let ?P = "new_parser \<lparr>bb_engine = e, bb_sink = Some (new_publisher junk)\<rparr>"
  have st: "bb_engine (handler_state ?P) = e" "bb_sink (handler_state ?P) = Some (new_publisher junk)" by (simp_all add: new_parser_def)
  have e0: "eng_inv (mc_isa mc) e" "eng_map e = Map.empty" using new_engine_spec [OF e] by simp_all
  have z: "unknown_ref e = 0" "overfill e = 0" "missing_level e = 0" using e by (auto simp: new_engine_def bind_eq_Some_conv split: if_splits)
  have run: "feed_main mc junk args W = Some (Ran 0 P', W)"
    using run_replay_parses [where S = publisher_sink and P = ?P and P' = P', OF assms(1,3,8) P'] e assms(5,6)
    by (simp add: feed_main_def run_program_def assms(4))
  note s = session_replayed [OF assms(9-13) acc, of "mc_isa mc" ?P "mc_alloc mc" P' "length ?out", unfolded st, OF e0 P']
  have fr: "frames (take (length ?out) ?out) = (fst (frames ?out), [])" using ad(2) by (simp add: prod_eq_iff)
  have "publisher.tracked (mc_isa mc) P'"
    by (rule stream_follows [OF order_refl fr _ _ P'])
      (use ad e0(1) new_publisher_follows [OF e assms(15)] in \<open>auto simp: publisher.tracked_def st\<close>)
  then obtain pub where pub: "bb_sink (handler_state P') = Some pub"
    "\<And>l. \<exists>t. tops (eng_books (bb_engine (handler_state P'))) l = Some t \<and> shows_top (pub_bbo pub l) t"
    by (auto simp: publisher.tracked_def pub_follows_def)
  have inv: "eng_inv (mc_isa mc) (bb_engine (handler_state P'))" "eng_map (bb_engine (handler_state P')) = Map.empty" using s by simp_all
  have line: "print_symbol (pub_dir pub) pub symbol = Some (case dir_locate (pub_dir pub) symbol of None \<Rightarrow> Not_in_directory | Some loc \<Rightarrow> Top_line loc 0 0 0 0)"
    for symbol
  proof (cases "dir_locate (pub_dir pub) symbol")
    case None
    then show ?thesis by (simp add: print_symbol_def)
  next
    case (Some loc)
    then show ?thesis using pub(2) [of loc] empty_top [OF inv, of loc] symbol_line_of_top [OF Some] by auto
  qed
  have live: "om_size (eng_orders (bb_engine (handler_state P'))) = 0"
    using best_group.size_dom [of "mc_isa mc" "eng_orders (bb_engine (handler_state P'))"] inv by (simp add: eng_inv_def)
  have stats0: "messages (stats ?P) = 0" "unknown_type (stats ?P) = 0" "bad_length (stats ?P) = 0" "empty (stats ?P) = 0"
    by (simp_all add: new_parser_def no_stats_def)
  show ?thesis
    by (rule exI [of _ P'], rule exI [of _ pub]) (use run pub(1) s stats0 z live line in \<open>simp add: report_of_def Let_def\<close>)
qed

definition session_bytes :: mem where
  "session_bytes = concat (map (\<lambda>m. framed (wire m)) sample_session)"

definition session_machine :: machine where
  "session_machine = feed_machine\<lparr>mc_contents := session_bytes, mc_st_size := int (length session_bytes)\<rparr>"

lemma sample_args: "parse_args [''--replay'', ''s.itch'', ''--latency''] = Inr (default_config\<lparr>replay_path := ''s.itch'', cf_latency := True\<rparr>)"
  by code_simp

lemma length_records:
  "list_all wf_message ms \<Longrightarrow> length (concat (map (\<lambda>m. framed (wire m)) ms)) = sum_list (map (\<lambda>m. 2 + kLength (mtype_of m)) ms)"
  by (induction ms) (simp_all add: framed_def length_wire wf_message_fit)

lemma session_bytes_short: "0 < length session_bytes" "length session_bytes \<le> 2 ^ 32"
proof -
  have "sum_list (map (\<lambda>m. 2 + kLength (mtype_of m)) ms) \<le> length ms * 100" for ms
  proof (induction ms)
    case (Cons m ms)
    then show ?case using kLength_bounds(2) [of "mtype_of m"] by simp
  qed simp
  from this [of sample_session] show "0 < length session_bytes" "length session_bytes \<le> 2 ^ 32"
    unfolding session_bytes_def length_records [OF sample_session_wf] by (simp_all add: sample_session_def)
qed

theorem main_replays_session_witness:
  "\<exists>F' P' pub. build_feed (sample_config 1) sample_draws (new_feed (sample_config 1) sample_draws) = Some (session_bytes, F') \<and>
    feed_main session_machine (replicate kRingSlots blank_event) [''--replay'', ''s.itch'', ''--latency''] {#Fd 1#} = Some (Ran 0 P', {#Fd 1#}) \<and>
    rp_messages (report_of (stats P') (bb_engine (handler_state P')) pub 0) = sf_messages F' \<and>
    rp_live_end (report_of (stats P') (bb_engine (handler_state P')) pub 0) = 0"
proof -
  obtain F' where F': "build_feed (sample_config 1) sample_draws (new_feed (sample_config 1) sample_draws) = Some (session_bytes, F')"
    using sample_session_built unfolding session_bytes_def by blast
  have m: "machine_ok session_machine" "mc_alloc session_machine = every_size" "mc_running session_machine k" "mc_contents session_machine = session_bytes"
    "mc_os session_machine = feed_os" "mc_st_size session_machine = int (length session_bytes)" for k
    using feed_machine_ok by (simp_all add: session_machine_def machine_ok_def) (simp_all add: feed_machine_def)
  have c: "0 < cfg_symbols (sample_config 1)" "cfg_symbols (sample_config 1) \<le> 65535"
    "cfg_symbols (sample_config 1) * cfg_initial_orders (sample_config 1) + cfg_events (sample_config 1) < 2 ^ 32"
    by (simp_all add: sample_config_def)
  obtain f W1 where o: "file_open feed_os (int (length session_bytes)) ''s.itch'' True new_file {#Fd 1#} = Some ([], f, W1)"
    using session_bytes_short by (simp add: file_open_def file_unmap_def map_fd_def new_file_def feed_os_def Let_def world_simps)
  show ?thesis
    using main_replays_session [where mc = session_machine and R = sample_draws and c = "sample_config 1" and F' = F' and junk = "replicate kRingSlots blank_event"
        and W = "{#Fd 1#}" and consumed = 0, OF m(1-3) sample_args] o F' c sample_draws_range m session_bytes_short
    by (auto simp: default_config_def Let_def)
qed

section \<open>The check of the processor comes first\<close>

text \<open>\<open>main\<close> begins with the check; a refusal ends the program with its code before anything is parsed or acquired.\<close>

datatype ('p, 'q) started = Refused int string | Started "('p, 'q) ended"

definition checked_main ::
  "macros \<Rightarrow> processor \<Rightarrow> int option \<Rightarrow> (string \<Rightarrow> string option) \<Rightarrow> string \<Rightarrow> machine \<Rightarrow> book_event list \<Rightarrow> string list \<Rightarrow> world \<Rightarrow>
     ((publisher option builder, profiler) started \<times> world) option" where
  "checked_main defd cpu translated env buf0 mc junk args W = do {
     (v, _) \<leftarrow> check_cpu_or_exit defd cpu translated env buf0;
     (case v of
        Refuses code msg \<Rightarrow> Some (Refused code msg, W)
      | Goes_on _ \<Rightarrow> do { (r, W') \<leftarrow> feed_main mc junk args W; Some (Started r, W') }) }"

text \<open>On a processor that has what the binary was built for the check changes nothing; otherwise, without the two exceptions, nothing is acquired.\<close>

theorem checked_main_cases:
  assumes "length buf0 = 128"
  shows "lacking defd (checks cpu) = [] \<Longrightarrow>
      checked_main defd cpu translated env buf0 mc junk args W = map_option (\<lambda>(r, W'). (Started r, W')) (feed_main mc junk args W)"
    and "lacking defd (checks cpu) \<noteq> [] \<Longrightarrow> \<not> defd ''__APPLE__'' \<Longrightarrow> env ''ITCH_SKIP_CPU_CHECK'' = None \<Longrightarrow>
      checked_main defd cpu translated env buf0 mc junk args W = Some (Refused 2 (spaced (lacking defd (checks cpu))), W)"
proof -
  note v = check_cpu_value [OF assms, of defd cpu translated env]
  show "checked_main defd cpu translated env buf0 mc junk args W = map_option (\<lambda>(r, W'). (Started r, W')) (feed_main mc junk args W)"
    if "lacking defd (checks cpu) = []"
    using v that by (cases "feed_main mc junk args W") (auto simp: checked_main_def)
  show "checked_main defd cpu translated env buf0 mc junk args W = Some (Refused 2 (spaced (lacking defd (checks cpu))), W)"
    if "lacking defd (checks cpu) \<noteq> []" "\<not> defd ''__APPLE__''" "env ''ITCH_SKIP_CPU_CHECK'' = None"
    using v that by (auto simp: checked_main_def)
qed

end
