(* ===== verification/Legacy_Table.thy ===== *)
theory Legacy_Table
  imports Order_Map Order_Book
begin

text \<open>
  The order lookup before the refactoring (\<^verbatim>\<open>bench/legacy/legacy_find_order.hpp\<close>), which the benchmarks compare with: an open table of references
  with triangular probing and tombstones, searched by a scalar loop or by four probes at a time in a vector of 64-bit lanes. The two searches
  agree on every table that insertions and erasures can make, but the vector one needs their order: it accepts a hit behind an empty slot of the same four.
\<close>

section \<open>The table\<close>

definition kEmpty :: u64 where "kEmpty = 0"
definition kTombstone :: u64 where "kTombstone = - 1"

record legacy_entry =
  qe_ref :: u64
  qe_price :: u64
  qe_qty :: u32
  qe_side :: u8

record quad_table =
  log2_cap :: nat
  refs :: "u64 list"
  entries :: "legacy_entry list"

definition zero_entry :: legacy_entry where
  "zero_entry = \<lparr>qe_ref = 0, qe_price = 0, qe_qty = 0, qe_side = 0\<rparr>"

definition new_table :: "nat \<Rightarrow> quad_table" where
  "new_table k = \<lparr>log2_cap = k, refs = replicate (2 ^ k) kEmpty, entries = replicate (2 ^ k) zero_entry\<rparr>"

definition quad_cap :: "quad_table \<Rightarrow> nat" where
  "quad_cap t = 2 ^ log2_cap t"

definition probe_start :: "quad_table \<Rightarrow> u64 \<Rightarrow> u64" where
  "probe_start t ref = drop_bit (64 - log2_cap t) (ref * 11400714819323198485)"

text \<open>\<open>(start + i * (i + 1) / 2) & mask_\<close>, in \<open>size_t\<close>.\<close>

definition quad_slot :: "quad_table \<Rightarrow> u64 \<Rightarrow> nat \<Rightarrow> nat" where
  "quad_slot t start i =
     unat ((start + (word_of_nat i * (word_of_nat i + 1)) div 2) AND (word_of_nat (quad_cap t) - 1) :: u64)"

section \<open>The operations\<close>

definition new_entry :: "u64 \<Rightarrow> legacy_entry" where
  "new_entry ref = \<lparr>qe_ref = ref, qe_price = 0, qe_qty = ucast ref, qe_side = 0x42\<rparr>"

text \<open>An insertion into a full table does nothing.\<close>

function quad_insert_from :: "quad_table \<Rightarrow> u64 \<Rightarrow> nat \<Rightarrow> quad_table option" where
  "quad_insert_from t ref i =
     (if i < quad_cap t then do {
        let s = quad_slot t (probe_start t ref) i;
        v \<leftarrow> elem_at (refs t) s;
        if v = kEmpty \<or> v = kTombstone then
          (if s < length (entries t)
           then Some (t\<lparr>refs := (refs t)[s := ref],
                   entries := (entries t)[s := new_entry ref]\<rparr>)
           else None)
        else quad_insert_from t ref (i + 1) }
      else Some t)"
  by pat_completeness auto
termination by (relation "measure (\<lambda>(t, ref, i). quad_cap t - i)") auto

declare quad_insert_from.simps [simp del]

definition quad_insert :: "quad_table \<Rightarrow> u64 \<Rightarrow> quad_table option" where
  "quad_insert t ref = quad_insert_from t ref 0"

definition erase_slot :: "quad_table \<Rightarrow> nat \<Rightarrow> quad_table option" where
  "erase_slot t s = (if s < length (refs t) then Some (t\<lparr>refs := (refs t)[s := kTombstone]\<rparr>) else None)"

definition quad_entry :: "quad_table \<Rightarrow> nat \<Rightarrow> legacy_entry option" where
  "quad_entry t s = elem_at (entries t) s"

text \<open>Both searches return the capacity when the reference is not there.\<close>

function find_scalar_from :: "quad_table \<Rightarrow> u64 \<Rightarrow> nat \<Rightarrow> nat option" where
  "find_scalar_from t ref i =
     (if i < quad_cap t then do {
        let s = quad_slot t (probe_start t ref) i;
        v \<leftarrow> elem_at (refs t) s;
        if v = ref then Some s
        else if v = kEmpty then Some (quad_cap t)
        else find_scalar_from t ref (i + 1) }
      else Some (quad_cap t))"
  by pat_completeness auto
termination by (relation "measure (\<lambda>(t, ref, i). quad_cap t - i)") auto

declare find_scalar_from.simps [simp del]

definition find_scalar :: "quad_table \<Rightarrow> u64 \<Rightarrow> nat option" where
  "find_scalar t ref = find_scalar_from t ref 0"

text \<open>\<open>_mm256_cmpeq_epi64\<close> as the 32 bytes of its four lanes.\<close>

definition cmpeq_epi64 :: "u64 list \<Rightarrow> u64 \<Rightarrow> u8 list" where
  "cmpeq_epi64 lanes v = concat (map (\<lambda>x. replicate 8 (if x = v then 0xFF else 0)) lanes)"

function find_avx2_from :: "quad_table \<Rightarrow> u64 \<Rightarrow> nat \<Rightarrow> nat option" where
  "find_avx2_from t ref i =
     (if i < quad_cap t then do {
        let s0 = quad_slot t (probe_start t ref) i;
        let s1 = quad_slot t (probe_start t ref) (i + 1);
        let s2 = quad_slot t (probe_start t ref) (i + 2);
        let s3 = quad_slot t (probe_start t ref) (i + 3);
        v0 \<leftarrow> elem_at (refs t) s0;
        v1 \<leftarrow> elem_at (refs t) s1;
        v2 \<leftarrow> elem_at (refs t) s2;
        v3 \<leftarrow> elem_at (refs t) s3;
        let hit_mask = movemask_epi8 (cmpeq_epi64 [v0, v1, v2, v3] ref);
        let empty_mask = movemask_epi8 (cmpeq_epi64 [v0, v1, v2, v3] kEmpty);
        if hit_mask \<noteq> 0 then elem_at [s0, s1, s2, s3] (countr_zero (ucast hit_mask) div 8)
        else if empty_mask \<noteq> 0 then Some (quad_cap t)
        else find_avx2_from t ref (i + 4) }
      else Some (quad_cap t))"
  by pat_completeness auto
termination by (relation "measure (\<lambda>(t, ref, i). quad_cap t - i)") auto

declare find_avx2_from.simps [simp del]

definition find_avx2 :: "quad_table \<Rightarrow> u64 \<Rightarrow> nat option" where
  "find_avx2 t ref = find_avx2_from t ref 0"

section \<open>What insertions and erasures make\<close>

text \<open>The references of orders are neither of the two marks.\<close>

definition order_ref :: "u64 \<Rightarrow> bool" where
  "order_ref ref \<longleftrightarrow> ref \<noteq> kEmpty \<and> ref \<noteq> kTombstone"

inductive made :: "nat \<Rightarrow> quad_table \<Rightarrow> bool" for k where
  new: "made k (new_table k)"
| ins: "made k t \<Longrightarrow> order_ref ref \<Longrightarrow> quad_insert t ref = Some t' \<Longrightarrow> made k t'"
| del: "made k t \<Longrightarrow> erase_slot t s = Some t' \<Longrightarrow> made k t'"

text \<open>The slot of a probe, and what it holds.\<close>

abbreviation slot_of_ref :: "quad_table \<Rightarrow> u64 \<Rightarrow> nat \<Rightarrow> nat" where
  "slot_of_ref t ref i \<equiv> quad_slot t (probe_start t ref) i"

abbreviation held :: "quad_table \<Rightarrow> u64 \<Rightarrow> nat \<Rightarrow> u64" where
  "held t ref i \<equiv> refs t ! slot_of_ref t ref i"

text \<open>
  The invariant: no slot that is probed before the one of a reference is empty (where two probes meet in one slot, the earlier counts), and a
  slot in use has its entry.
\<close>

definition quad_inv :: "nat \<Rightarrow> quad_table \<Rightarrow> bool" where
  "quad_inv k t \<longleftrightarrow> log2_cap t = k \<and> length (refs t) = 2 ^ k \<and> length (entries t) = 2 ^ k \<and>
     (\<forall>s < 2 ^ k. order_ref (refs t ! s) \<longrightarrow> entries t ! s = new_entry (refs t ! s)) \<and>
     (\<forall>ref i. order_ref ref \<longrightarrow> i < 2 ^ k \<longrightarrow> held t ref i = ref \<longrightarrow>
        (\<exists>i0 \<le> i. slot_of_ref t ref i0 = slot_of_ref t ref i \<and> (\<forall>j < i0. held t ref j \<noteq> kEmpty)))"

lemma quad_slot_mod:
  assumes "log2_cap t < 64"
  shows "quad_slot t start i = unat (start + (word_of_nat i * (word_of_nat i + 1)) div 2) mod 2 ^ log2_cap t"
proof -
  have "(word_of_nat (2 ^ log2_cap t) - 1 :: u64) = mask (log2_cap t)" by (simp add: mask_eq_exp_minus_1)
  then show ?thesis
    by (simp add: quad_slot_def quad_cap_def unsigned_take_bit_eq flip: take_bit_eq_mask) (simp add: take_bit_eq_mod)
qed

lemma quad_slot_less: "log2_cap t < 64 \<Longrightarrow> quad_slot t start i < 2 ^ log2_cap t"
  by (simp add: quad_slot_mod)

text \<open>A table of up to \<open>2 ^ 32\<close> slots is probed in every slot.\<close>

lemma quad_slot_triangular:
  assumes "log2_cap t \<le> 32" "i < 2 ^ log2_cap t"
  shows "quad_slot t start i = (unat start + i * (i + 1) div 2) mod 2 ^ log2_cap t"
proof -
  have "2 ^ log2_cap t \<le> (2 :: nat) ^ 32" using assms(1) by (rule power_increasing) simp
  then have i: "i + 1 \<le> 2 ^ 32" using assms(2) by linarith
  then have "i * (i + 1) < 2 ^ 32 * 2 ^ 32" by (intro mult_less_le_imp_less) auto
  then have "unat (word_of_nat (i * (i + 1)) :: u64) = i * (i + 1)" unfolding unat_of_nat by simp
  moreover have "(word_of_nat (i * (i + 1)) :: u64) = word_of_nat i * (word_of_nat i + 1)" by (simp add: algebra_simps)
  ultimately have "unat (word_of_nat i * (word_of_nat i + 1) :: u64) = i * (i + 1)" by (simp only:)
  then have p: "unat ((word_of_nat i * (word_of_nat i + 1)) div 2 :: u64) = i * (i + 1) div 2"
    by (simp only: unat_div) simp
  have "(2 :: nat) ^ 64 = 2 ^ log2_cap t * 2 ^ (64 - log2_cap t)" using assms(1) by (simp flip: power_add)
  then have "2 ^ log2_cap t dvd (2 :: nat) ^ 64" by (rule dvdI)
  moreover have "unat (start + d) = (unat start + unat d) mod 2 ^ 64" for d :: u64 by (simp add: unat_word_ariths)
  moreover have "log2_cap t < 64" using assms(1) by simp
  ultimately show ?thesis by (simp only: quad_slot_mod p mod_mod_cancel)
qed

lemma quad_slot_surj:
  assumes "log2_cap t \<le> 32" "s < 2 ^ log2_cap t"
  shows "\<exists>i < 2 ^ log2_cap t. quad_slot t start i = s"
proof -
  let ?N = "{..<(2 :: nat) ^ log2_cap t}"
  have "inj_on (quad_slot t start) ?N"
    by (intro linorder_inj_onI') (metis lessThan_iff quad_slot_triangular [OF assms(1)] triangular_inj)
  moreover have "quad_slot t start ` ?N \<subseteq> ?N" using quad_slot_less [of t start] assms(1) by auto
  ultimately have "quad_slot t start ` ?N = ?N" by (intro endo_inj_surj) simp_all
  then show ?thesis using assms(2) by (metis imageE lessThan_iff)
qed

section \<open>Insertion and erasure keep the invariant\<close>

abbreviation unused :: "u64 \<Rightarrow> bool" where
  "unused v \<equiv> v = kEmpty \<or> v = kTombstone"

definition put_ref :: "quad_table \<Rightarrow> u64 \<Rightarrow> nat \<Rightarrow> quad_table" where
  "put_ref t ref s = t\<lparr>refs := (refs t)[s := ref], entries := (entries t)[s := new_entry ref]\<rparr>"

lemma insert_from_spec:
  assumes "log2_cap t < 64" "length (refs t) = quad_cap t" "length (entries t) = quad_cap t"
  shows "(\<exists>n \<ge> i. n < quad_cap t \<and> unused (held t ref n) \<and> (\<forall>j. i \<le> j \<longrightarrow> j < n \<longrightarrow> \<not> unused (held t ref j)) \<and>
      quad_insert_from t ref i = Some (put_ref t ref (slot_of_ref t ref n))) \<or>
    ((\<forall>j. i \<le> j \<longrightarrow> j < quad_cap t \<longrightarrow> \<not> unused (held t ref j)) \<and> quad_insert_from t ref i = Some t)"
  using assms
proof (induction t ref i rule: quad_insert_from.induct)
  case (1 t ref i)
  have s: "slot_of_ref t ref i < quad_cap t" using quad_slot_less "1.prems"(1) by (simp add: quad_cap_def)
  show ?case
  proof (cases "i < quad_cap t")
    case False
    then show ?thesis by (subst (1 2) quad_insert_from.simps) simp
  next
    case True
    show ?thesis
    proof (cases "unused (held t ref i)")
      case u: True
      then have "quad_insert_from t ref i = Some (put_ref t ref (slot_of_ref t ref i))"
        using True s "1.prems" by (subst quad_insert_from.simps) (simp add: elem_at_def put_ref_def Let_def)
      then show ?thesis using True u by (intro disjI1 exI [of _ i]) auto
    next
      case used: False
      have e: "quad_insert_from t ref i = quad_insert_from t ref (i + 1)"
        using True used s "1.prems" by (subst quad_insert_from.simps) (simp add: elem_at_def Let_def)
      have split: "(\<forall>j. i \<le> j \<longrightarrow> j < n \<longrightarrow> \<not> unused (held t ref j)) \<longleftrightarrow> (\<forall>j. i + 1 \<le> j \<longrightarrow> j < n \<longrightarrow> \<not> unused (held t ref j))" for n
        using used by (simp only: Suc_eq_plus1 [symmetric] Suc_le_eq) (metis le_less)
      have at: "elem_at (refs t) (slot_of_ref t ref i) = Some (held t ref i)" using s "1.prems"(2) by (simp add: elem_at_def)
      from "1.IH" [OF True refl at used "1.prems"] show ?thesis
      proof (elim disjE exE)
        fix n assume n: "n \<ge> i + 1 \<and> n < quad_cap t \<and> unused (held t ref n) \<and> (\<forall>j. i + 1 \<le> j \<longrightarrow> j < n \<longrightarrow> \<not> unused (held t ref j)) \<and>
          quad_insert_from t ref (i + 1) = Some (put_ref t ref (slot_of_ref t ref n))"
        then have "i \<le> n" by linarith
        with n show ?thesis unfolding split e by blast
      next
        assume "(\<forall>j. i + 1 \<le> j \<longrightarrow> j < quad_cap t \<longrightarrow> \<not> unused (held t ref j)) \<and> quad_insert_from t ref (i + 1) = Some t"
        then show ?thesis unfolding split e by blast
      qed
    qed
  qed
qed

lemma quad_slot_cong: "log2_cap t' = log2_cap t \<Longrightarrow> quad_slot t' = quad_slot t" "log2_cap t' = log2_cap t \<Longrightarrow> probe_start t' = probe_start t"
  by (simp_all add: quad_slot_def quad_cap_def probe_start_def fun_eq_iff)

lemma new_table_inv: "k < 64 \<Longrightarrow> quad_inv k (new_table k)"
  using quad_slot_less [of "new_table k"] by (auto simp: quad_inv_def new_table_def order_ref_def)

lemma put_ref_inv:
  assumes "quad_inv k t" "k < 64" "order_ref ref" "n < 2 ^ k" "unused (held t ref n)" "\<And>j. j < n \<Longrightarrow> \<not> unused (held t ref j)"
  shows "quad_inv k (put_ref t ref (slot_of_ref t ref n))"
proof -
  let ?s = "slot_of_ref t ref n" and ?t = "put_ref t ref (slot_of_ref t ref n)"
  have t: "log2_cap t = k" "length (refs t) = 2 ^ k" "length (entries t) = 2 ^ k" and
    ent: "\<forall>s < 2 ^ k. order_ref (refs t ! s) \<longrightarrow> entries t ! s = new_entry (refs t ! s)" using assms(1) by (simp_all add: quad_inv_def)
  have slots: "quad_slot ?t = quad_slot t" "probe_start ?t = probe_start t" by (intro quad_slot_cong; simp add: put_ref_def)+
  have less: "slot_of_ref t r i < 2 ^ k" for r i using quad_slot_less [of t] assms(2) t(1) by simp
  have h: "held ?t r i = (if slot_of_ref t r i = ?s then ref else held t r i)" for r i
    using less t(2) by (simp add: slots) (simp add: put_ref_def nth_list_update)
  have keeps: "held t r j \<noteq> kEmpty \<Longrightarrow> held ?t r j \<noteq> kEmpty" for r j using assms(3) by (simp add: h order_ref_def)
  have e: "entries ?t ! s = new_entry (refs ?t ! s)" if "s < 2 ^ k" "order_ref (refs ?t ! s)" for s
    using that t ent by (cases "s = ?s") (simp_all add: put_ref_def)
  have p: "\<exists>i0 \<le> i. slot_of_ref t r i0 = slot_of_ref t r i \<and> (\<forall>j < i0. held ?t r j \<noteq> kEmpty)"
    if r: "order_ref r" and i: "i < 2 ^ k" and at: "held ?t r i = r" for r i
  proof (cases "slot_of_ref t r i = ?s")
    case False
    then have "held t r i = r" using at by (simp add: h)
    then obtain i0 where "i0 \<le> i" "slot_of_ref t r i0 = slot_of_ref t r i" "\<forall>j < i0. held t r j \<noteq> kEmpty"
      using assms(1) r i unfolding quad_inv_def by blast
    then show ?thesis using keeps by blast
  next
    case True
    then have r: "r = ref" using at by (simp add: h)
    moreover have "n \<le> i" using True assms(5) assms(6) [of i] unfolding r by (metis linorder_not_less)
    ultimately show ?thesis using True keeps assms(6) by (intro exI [of _ n]) auto
  qed
  have p': "\<exists>i0 \<le> i. slot_of_ref ?t r i0 = slot_of_ref ?t r i \<and> (\<forall>j < i0. held ?t r j \<noteq> kEmpty)"
    if r: "order_ref r" and i: "i < 2 ^ k" and at: "held ?t r i = r" for r i
    using p [OF that] by (simp only: slots)
  have l: "log2_cap ?t = k" "length (refs ?t) = 2 ^ k" "length (entries ?t) = 2 ^ k" using t by (simp_all add: put_ref_def)
  show ?thesis unfolding quad_inv_def using l e p' by blast
qed

lemma erase_slot_inv:
  assumes "quad_inv k t" "k < 64" "s < 2 ^ k"
  shows "quad_inv k (t\<lparr>refs := (refs t)[s := kTombstone]\<rparr>)"
proof -
  let ?t = "t\<lparr>refs := (refs t)[s := kTombstone]\<rparr>"
  have t: "log2_cap t = k" "length (refs t) = 2 ^ k" "length (entries t) = 2 ^ k" and
    ent: "\<forall>s < 2 ^ k. order_ref (refs t ! s) \<longrightarrow> entries t ! s = new_entry (refs t ! s)" using assms(1) by (simp_all add: quad_inv_def)
  have slots: "quad_slot ?t = quad_slot t" "probe_start ?t = probe_start t" by (intro quad_slot_cong; simp)+
  have less: "slot_of_ref t r i < 2 ^ k" for r i using quad_slot_less [of t] assms(2) t(1) by simp
  have h: "held ?t r i = (if slot_of_ref t r i = s then kTombstone else held t r i)" for r i
    using less [of r i] t(2) by (auto simp: slots nth_list_update)
  have keeps: "held t r j \<noteq> kEmpty \<Longrightarrow> held ?t r j \<noteq> kEmpty" for r j by (simp only: h split: if_split) (simp add: kEmpty_def kTombstone_def)
  have e: "entries ?t ! s' = new_entry (refs ?t ! s')" if "s' < 2 ^ k" "order_ref (refs ?t ! s')" for s'
    using that t ent by (cases "s' = s") (simp_all add: order_ref_def)
  have p: "\<exists>i0 \<le> i. slot_of_ref t r i0 = slot_of_ref t r i \<and> (\<forall>j < i0. held ?t r j \<noteq> kEmpty)"
    if r: "order_ref r" and i: "i < 2 ^ k" and at: "held ?t r i = r" for r i
  proof -
    have "held t r i = r" using at [unfolded h] r by (auto simp: order_ref_def split: if_splits)
    then obtain i0 where "i0 \<le> i" "slot_of_ref t r i0 = slot_of_ref t r i" "\<forall>j < i0. held t r j \<noteq> kEmpty"
      using assms(1) r i unfolding quad_inv_def by blast
    then show ?thesis using keeps by blast
  qed
  have p': "\<exists>i0 \<le> i. slot_of_ref ?t r i0 = slot_of_ref ?t r i \<and> (\<forall>j < i0. held ?t r j \<noteq> kEmpty)"
    if r: "order_ref r" and i: "i < 2 ^ k" and at: "held ?t r i = r" for r i
    using p [OF that] by (simp only: slots)
  have l: "log2_cap ?t = k" "length (refs ?t) = 2 ^ k" "length (entries ?t) = 2 ^ k" using t by simp_all
  show ?thesis unfolding quad_inv_def using l e p' by blast
qed

lemma made_inv:
  assumes "made k t" "k < 64"
  shows "quad_inv k t"
  using assms
proof (induction rule: made.induct)
  case new
  then show ?case by (rule new_table_inv)
next
  case (ins t ref t')
  then have t: "quad_inv k t" "log2_cap t < 64" "length (refs t) = quad_cap t" "length (entries t) = quad_cap t" "quad_cap t = 2 ^ k"
    by (simp_all add: quad_inv_def quad_cap_def)
  show ?case
    using insert_from_spec [OF t(2-4), of 0 ref] put_ref_inv [OF t(1) ins.prems ins.hyps(2)] ins.hyps(3) t(1,5)
    by (auto simp: quad_insert_def)
next
  case (del t s t')
  then have t: "quad_inv k t" and "length (refs t) = 2 ^ k" by (simp_all add: quad_inv_def)
  then have "s < 2 ^ k" "t' = t\<lparr>refs := (refs t)[s := kTombstone]\<rparr>" using del.hyps(2) by (simp_all add: erase_slot_def split: if_splits)
  then show ?case using erase_slot_inv [OF t del.prems] by simp
qed

section \<open>The two searches\<close>

lemma find_scalar_step:
  assumes "quad_inv k t" "k < 64"
  shows "find_scalar_from t ref i =
    (if i < 2 ^ k then (if held t ref i = ref then Some (slot_of_ref t ref i)
       else if held t ref i = kEmpty then Some (quad_cap t) else find_scalar_from t ref (i + 1))
     else Some (quad_cap t))"
  using assms quad_slot_less [of t "probe_start t ref" i]
  by (subst find_scalar_from.simps) (simp add: quad_inv_def quad_cap_def elem_at_def Let_def)

text \<open>The first of the lanes that is equal, from its bytes.\<close>

definition first_lane :: "bool list \<Rightarrow> nat" where
  "first_lane bs = length (takeWhile Not bs)"

lemma lane_bytes:
  "\<forall>b0 b1 b2 b3. let w = movemask_epi8 (concat (map (\<lambda>b. replicate 8 (if b then 0xFF else 0)) [b0, b1, b2, b3])) in
     (w \<noteq> 0) = (b0 \<or> b1 \<or> b2 \<or> b3) \<and> (b0 \<or> b1 \<or> b2 \<or> b3 \<longrightarrow> countr_zero (ucast w) div 8 = first_lane [b0, b1, b2, b3])"
  by code_simp

lemma lanes_hit:
  "(movemask_epi8 (cmpeq_epi64 [v0, v1, v2, v3] v) \<noteq> 0) = (v0 = v \<or> v1 = v \<or> v2 = v \<or> v3 = v)"
  "v0 = v \<or> v1 = v \<or> v2 = v \<or> v3 = v \<Longrightarrow>
     countr_zero (ucast (movemask_epi8 (cmpeq_epi64 [v0, v1, v2, v3] v))) div 8 = first_lane [v0 = v, v1 = v, v2 = v, v3 = v]"
proof -
  have e: "cmpeq_epi64 [v0, v1, v2, v3] v = concat (map (\<lambda>b. replicate 8 (if b then 0xFF else 0)) [v0 = v, v1 = v, v2 = v, v3 = v])"
    by (simp add: cmpeq_epi64_def)
  note l = lane_bytes [rule_format, of "v0 = v" "v1 = v" "v2 = v" "v3 = v", unfolded Let_def, folded e]
  show "(movemask_epi8 (cmpeq_epi64 [v0, v1, v2, v3] v) \<noteq> 0) = (v0 = v \<or> v1 = v \<or> v2 = v \<or> v3 = v)" using l by blast
  show "countr_zero (ucast (movemask_epi8 (cmpeq_epi64 [v0, v1, v2, v3] v))) div 8 = first_lane [v0 = v, v1 = v, v2 = v, v3 = v]"
    if "v0 = v \<or> v1 = v \<or> v2 = v \<or> v3 = v" using l that by blast
qed

lemma find_avx2_step:
  fixes ref :: u64
  assumes "quad_inv k t" "k < 64"
  defines "hits i \<equiv> map (\<lambda>j. held t ref (i + j) = ref) [0..<4]"
  shows "find_avx2_from t ref i =
    (if i < 2 ^ k then (if True \<in> set (hits i) then Some (slot_of_ref t ref (i + first_lane (hits i)))
       else if \<exists>j < 4. held t ref (i + j) = kEmpty then Some (quad_cap t) else find_avx2_from t ref (i + 4))
     else Some (quad_cap t))"
proof -
  have at: "elem_at (refs t) (slot_of_ref t ref n) = Some (held t ref n)" for n
    using assms(1,2) quad_slot_less [of t "probe_start t ref" n] by (simp add: quad_inv_def elem_at_def)
  have cap: "quad_cap t = 2 ^ k" using assms(1) by (simp add: quad_inv_def quad_cap_def)
  have up: "[0..<4] = [0, 1, 2, 3 :: nat]" by (simp add: upt_rec)
  have h: "hits i = [held t ref i = ref, held t ref (i + 1) = ref, held t ref (i + 2) = ref, held t ref (i + 3) = ref]"
    by (simp add: hits_def up)
  have hit: "True \<in> set (hits i) \<longleftrightarrow> held t ref i = ref \<or> held t ref (i + 1) = ref \<or> held t ref (i + 2) = ref \<or> held t ref (i + 3) = ref"
    by (auto simp: h)
  have all4: "(\<exists>j < 4. P j) = (P 0 \<or> P 1 \<or> P 2 \<or> P (3 :: nat))" for P by (auto simp: less_Suc_eq numeral_eq_Suc)
  have nth: "elem_at [slot_of_ref t ref i, slot_of_ref t ref (i + 1), slot_of_ref t ref (i + 2), slot_of_ref t ref (i + 3)] (first_lane (hits i)) =
      Some (slot_of_ref t ref (i + first_lane (hits i)))" if "True \<in> set (hits i)"
    using that unfolding h by (auto simp: first_lane_def elem_at_def numeral_3_eq_3)
  let ?w = "\<lambda>v. movemask_epi8 (cmpeq_epi64 [held t ref i, held t ref (i + 1), held t ref (i + 2), held t ref (i + 3)] v)"
  have w: "(?w v \<noteq> 0) = (held t ref i = v \<or> held t ref (i + 1) = v \<or> held t ref (i + 2) = v \<or> held t ref (i + 3) = v)" for v
    by (rule lanes_hit(1))
  have z: "countr_zero (ucast (?w ref)) div 8 = first_lane (hits i)" if "True \<in> set (hits i)"
    unfolding h by (rule lanes_hit(2)) (use that hit in blast)
  show ?thesis
    unfolding all4 by (subst find_avx2_from.simps) (simp only: at cap Let_def bind.bind_lunit w nth z hit [symmetric] cong: if_cong; simp add: nth)
qed

lemma first_lane_props:
  assumes "True \<in> set bs"
  shows "first_lane bs < length bs" "bs ! first_lane bs" "\<And>j. j < first_lane bs \<Longrightarrow> \<not> bs ! j"
proof -
  have n: "takeWhile Not bs \<noteq> bs" using assms by (metis set_takeWhileD)
  then show l: "first_lane bs < length bs" unfolding first_lane_def by (metis length_takeWhile_le nat_less_le takeWhile_eq_take take_all le_refl)
  then show "bs ! first_lane bs" using nth_length_takeWhile [of Not bs] by (simp add: first_lane_def)
  show "\<not> bs ! j" if "j < first_lane bs" for j
    using that takeWhile_nth [of j Not bs] by (metis first_lane_def nth_mem set_takeWhileD)
qed

text \<open>The scalar search runs over probes that are neither the reference nor empty.\<close>

lemma find_scalar_skip:
  assumes "quad_inv k t" "k < 64" "i + m \<le> 2 ^ k" "\<And>j. j < m \<Longrightarrow> held t ref (i + j) \<noteq> ref \<and> held t ref (i + j) \<noteq> kEmpty"
  shows "find_scalar_from t ref i = find_scalar_from t ref (i + m)"
  using assms(3,4)
proof (induction m)
  case (Suc m)
  then have "find_scalar_from t ref i = find_scalar_from t ref (i + m)" by simp
  also have "\<dots> = find_scalar_from t ref (i + Suc m)"
    using Suc.prems(1) Suc.prems(2) [of m] by (subst find_scalar_step [OF assms(1,2)]) simp
  finally show ?case .
qed simp

text \<open>Before the first probe that meets a reference, none is empty.\<close>

lemma no_empty_before:
  assumes "quad_inv k t" "ref \<noteq> kTombstone" "n < 2 ^ k" "held t ref n = ref" "\<And>j. j < n \<Longrightarrow> held t ref j \<noteq> ref" "j < n"
  shows "held t ref j \<noteq> kEmpty"
proof (cases "ref = kEmpty")
  case True
  then show ?thesis using assms(5) [OF assms(6)] by simp
next
  case False
  then have "order_ref ref" using assms(2) by (simp add: order_ref_def)
  then obtain i0 where i0: "i0 \<le> n" "slot_of_ref t ref i0 = slot_of_ref t ref n" "\<forall>j < i0. held t ref j \<noteq> kEmpty"
    using assms(1,3,4) unfolding quad_inv_def by blast
  have "i0 = n" using i0(1,2) assms(4) assms(5) [of i0] by (metis le_neq_implies_less)
  then show ?thesis using i0(3) assms(6) by blast
qed

lemma finds_agree_from:
  assumes "quad_inv k t" "2 \<le> k" "k < 64" "ref \<noteq> kTombstone"
  shows "4 dvd i \<Longrightarrow> (\<And>j. j < i \<Longrightarrow> held t ref j \<noteq> ref) \<Longrightarrow> find_avx2_from t ref i = find_scalar_from t ref i"
proof (induction "2 ^ k - i" arbitrary: i rule: less_induct)
  case less
  let ?hits = "map (\<lambda>j. held t ref (i + j) = ref) [0..<4]"
  have lane: "?hits ! j = (held t ref (i + j) = ref)" if "j < 4" for j using that by simp
  show ?case
  proof (cases "i < 2 ^ k")
    case False
    then show ?thesis by (subst find_avx2_step [OF assms(1,3)], subst find_scalar_step [OF assms(1,3)]) simp
  next
    case i: True
    have "(4 :: nat) dvd 2 ^ k" using le_imp_power_dvd [OF assms(2), of "2 :: nat"] by simp
    then have four: "i + 4 \<le> 2 ^ k" using i less.prems(1) by (auto elim!: dvdE)
    show ?thesis
    proof (cases "True \<in> set ?hits")
      case True
      let ?m = "first_lane ?hits"
      note f = first_lane_props [OF True]
      have m: "?m < 4" using f(1) by simp
      have at: "held t ref (i + ?m) = ref" using f(2) lane [OF m] by simp
      have before: "held t ref j \<noteq> ref" if "j < i + ?m" for j
      proof (cases "j < i")
        case False
        then show ?thesis using that f(3) [of "j - i"] lane [of "j - i"] m by simp
      qed (rule less.prems(2))
      have e: "held t ref j \<noteq> kEmpty" if "j < i + ?m" for j
        by (rule no_empty_before [OF assms(1,4) _ at before that]) (use m four in linarith)
      have "find_scalar_from t ref i = find_scalar_from t ref (i + ?m)"
        by (rule find_scalar_skip [OF assms(1,3)]) (use m four before e in auto)
      also have "\<dots> = Some (slot_of_ref t ref (i + ?m))"
        using at m four by (subst find_scalar_step [OF assms(1,3)]) simp
      finally show ?thesis using True i by (subst find_avx2_step [OF assms(1,3)]) simp
    next
      case no: False
      then have n: "held t ref (i + j) \<noteq> ref" if "j < 4" for j using that by auto
      show ?thesis
      proof (cases "\<exists>j < 4. held t ref (i + j) = kEmpty")
        case True
        define m where "m = (LEAST j. held t ref (i + j) = kEmpty)"
        have m: "m < 4" "held t ref (i + m) = kEmpty" "\<And>j. j < m \<Longrightarrow> held t ref (i + j) \<noteq> kEmpty"
          unfolding m_def using True by (auto intro: LeastI dest: not_less_Least le_less_trans [OF Least_le])
        have "find_scalar_from t ref i = find_scalar_from t ref (i + m)"
          by (rule find_scalar_skip [OF assms(1,3)]) (use m four n in auto)
        also have "\<dots> = Some (quad_cap t)"
          using m(1,2) four n [OF m(1)] by (subst find_scalar_step [OF assms(1,3)]) simp
        finally show ?thesis using True no i by (subst find_avx2_step [OF assms(1,3)]) simp
      next
        case False
        have "find_scalar_from t ref i = find_scalar_from t ref (i + 4)"
          by (rule find_scalar_skip [OF assms(1,3)]) (use four n False in auto)
        moreover have "find_avx2_from t ref (i + 4) = find_scalar_from t ref (i + 4)"
        proof (rule less.hyps)
          show "held t ref j \<noteq> ref" if "j < i + 4" for j
            using that n [of "j - i"] less.prems(2) [of j] by (cases "j < i") auto
        qed (use i four less.prems(1) in auto)
        ultimately show ?thesis using False no i by (subst find_avx2_step [OF assms(1,3)]) auto
      qed
    qed
  qed
qed

lemma find_scalar_absent:
  assumes "quad_inv k t" "k < 64" "ref \<notin> set (refs t)"
  shows "find_scalar_from t ref i = Some (quad_cap t)"
proof (induction "2 ^ k - i" arbitrary: i rule: less_induct)
  case less
  have "held t ref i \<in> set (refs t)"
    using assms(1,2) quad_slot_less [of t "probe_start t ref" i] by (simp add: quad_inv_def)
  then have "held t ref i \<noteq> ref" using assms(3) by metis
  then show ?case using less.hyps [of "i + 1"] by (subst find_scalar_step [OF assms(1,2)]) auto
qed

lemma find_scalar_present:
  assumes "quad_inv k t" "k \<le> 32" "ref \<noteq> kTombstone" "ref \<in> set (refs t)"
  shows "\<exists>s < 2 ^ k. find_scalar t ref = Some s \<and> refs t ! s = ref"
proof -
  have k: "log2_cap t = k" "length (refs t) = 2 ^ k" "k < 64" using assms(1,2) by (simp_all add: quad_inv_def)
  obtain s where "s < 2 ^ k" "refs t ! s = ref" using assms(4) k(2) by (metis in_set_conv_nth)
  then have ex: "\<exists>n. n < 2 ^ k \<and> held t ref n = ref" using quad_slot_surj [of t s "probe_start t ref"] assms(2) k(1) by auto
  define n where "n = (LEAST n. n < 2 ^ k \<and> held t ref n = ref)"
  have n: "n < 2 ^ k" "held t ref n = ref" using LeastI_ex [OF ex] by (simp_all add: n_def)
  have before: "held t ref j \<noteq> ref" if "j < n" for j using not_less_Least [OF that [unfolded n_def]] that n(1) by simp
  have "find_scalar_from t ref 0 = find_scalar_from t ref (0 + n)"
    by (rule find_scalar_skip [OF assms(1) k(3)]) (use n before no_empty_before [OF assms(1,3) n before] in auto)
  also have "\<dots> = Some (slot_of_ref t ref n)" using n by (subst find_scalar_step [OF assms(1) k(3)]) simp
  finally show ?thesis using n(2) quad_slot_less [of t] k by (auto simp: find_scalar_def)
qed

lemma finds_spec:
  assumes "made k t" "2 \<le> k" "k \<le> 32" "order_ref ref"
  shows "find_avx2 t ref = find_scalar t ref \<and>
    (\<exists>s. find_scalar t ref = Some s \<and>
      (if ref \<in> set (refs t) then s < quad_cap t \<and> refs t ! s = ref \<and> quad_entry t s = Some (new_entry ref) else s = quad_cap t))"
proof -
  have inv: "quad_inv k t" using made_inv [OF assms(1)] assms(3) by simp
  have ref: "ref \<noteq> kTombstone" using assms(4) by (simp add: order_ref_def)
  have "find_avx2 t ref = find_scalar t ref"
    using finds_agree_from [OF inv assms(2) _ ref, of 0] assms(3) by (simp add: find_avx2_def find_scalar_def)
  moreover have "\<exists>s. find_scalar t ref = Some s \<and>
      (if ref \<in> set (refs t) then s < quad_cap t \<and> refs t ! s = ref \<and> quad_entry t s = Some (new_entry ref) else s = quad_cap t)"
  proof (cases "ref \<in> set (refs t)")
    case True
    then show ?thesis
      using find_scalar_present [OF inv assms(3) ref True] inv assms(4) by (auto simp: quad_inv_def quad_cap_def quad_entry_def elem_at_def)
  next
    case False
    then show ?thesis using find_scalar_absent [OF inv _ False, of 0] assms(3) by (simp add: find_scalar_def)
  qed
  ultimately show ?thesis by blast
qed

section \<open>Insertions into a table with room\<close>

definition used_slots :: "quad_table \<Rightarrow> nat set" where
  "used_slots t = {s. s < length (refs t) \<and> order_ref (refs t ! s)}"

lemma set_update_other: "s < length xs \<Longrightarrow> xs ! s \<noteq> x \<Longrightarrow> x \<in> set (xs[s := r]) \<longleftrightarrow> x = r \<or> x \<in> set xs"
  by (metis in_set_conv_nth length_list_update nth_list_update_neq set_update_memI set_update_subset_insert insertE subsetD)

lemma insert_with_room:
  assumes "quad_inv k t" "k \<le> 32" "order_ref ref" "card (used_slots t) < 2 ^ k"
  shows "\<exists>t'. quad_insert t ref = Some t' \<and> quad_inv k t' \<and> card (used_slots t') = Suc (card (used_slots t)) \<and>
    {r \<in> set (refs t'). order_ref r} = insert ref {r \<in> set (refs t). order_ref r}"
proof -
  have t: "log2_cap t = k" "length (refs t) = 2 ^ k" "length (entries t) = 2 ^ k" "k < 64" "log2_cap t < 64" "log2_cap t \<le> 32" "quad_cap t = 2 ^ k"
    using assms(1,2) by (simp_all add: quad_inv_def quad_cap_def)
  have "\<exists>s < 2 ^ k. s \<notin> used_slots t"
  proof (rule ccontr)
    assume "\<not> ?thesis"
    then have "{..<2 ^ k} \<subseteq> used_slots t" by blast
    moreover have "finite (used_slots t)" by (simp add: used_slots_def)
    ultimately have "card {..<(2 :: nat) ^ k} \<le> card (used_slots t)" by (metis card_mono)
    then show False using assms(4) by simp
  qed
  then obtain s where s: "s < 2 ^ k" "unused (refs t ! s)" using t(2) by (auto simp: used_slots_def order_ref_def)
  obtain j where j: "j < 2 ^ k" "unused (held t ref j)" using quad_slot_surj [OF t(6), of s "probe_start t ref"] s unfolding t(1) by metis
  obtain n where n: "n < 2 ^ k" "unused (held t ref n)" "\<forall>j < n. \<not> unused (held t ref j)" "quad_insert_from t ref 0 = Some (put_ref t ref (slot_of_ref t ref n))"
    using insert_from_spec [OF t(5), of 0 ref] t(2,3,7) j by (simp only: le0 simp_thms) blast
  let ?s = "slot_of_ref t ref n" and ?t = "put_ref t ref (slot_of_ref t ref n)"
  have ls: "?s < 2 ^ k" using quad_slot_less [OF t(5)] t(1) by simp
  have r: "refs ?t = (refs t)[?s := ref]" by (simp add: put_ref_def)
  have "quad_inv k ?t" by (rule put_ref_inv [OF assms(1) t(4) assms(3) n(1,2)]) (use n(3) in blast)
  moreover have "used_slots ?t = insert ?s (used_slots t)" using assms(3) ls t(2) by (auto simp: used_slots_def r nth_list_update)
  moreover have new: "?s \<notin> used_slots t" "finite (used_slots t)" using n(2) by (auto simp: used_slots_def order_ref_def)
  moreover have "{x \<in> set (refs ?t). order_ref x} = insert ref {x \<in> set (refs t). order_ref x}"
  proof -
    have "x \<in> set ((refs t)[?s := ref]) \<longleftrightarrow> x = ref \<or> x \<in> set (refs t)" if "order_ref x" for x
      by (rule set_update_other) (use that n(2) ls t(2) in \<open>auto simp: order_ref_def\<close>)
    then show ?thesis using assms(3) by (auto simp: r)
  qed
  ultimately show ?thesis using n(4) by (auto simp: quad_insert_def)
qed

text \<open>References that fit are all found afterwards.\<close>

lemma insert_all_fits:
  assumes "made k t" "k \<le> 32" "\<forall>r \<in> set rs. order_ref r" "card (used_slots t) + length rs \<le> 2 ^ k"
  shows "\<exists>t'. foldO (\<lambda>r t. quad_insert t r) rs t = Some t' \<and> made k t' \<and> set rs \<subseteq> set (refs t') \<and>
    {r \<in> set (refs t). order_ref r} \<subseteq> set (refs t')"
  using assms
proof (induction rs arbitrary: t)
  case (Cons r rs)
  have inv: "quad_inv k t" by (rule made_inv [OF Cons.prems(1)]) (use Cons.prems(2) in simp)
  have r: "order_ref r" using Cons.prems(3) by simp
  obtain t1 where t1: "quad_insert t r = Some t1" "card (used_slots t1) = Suc (card (used_slots t))"
    "{x \<in> set (refs t1). order_ref x} = insert r {x \<in> set (refs t). order_ref x}"
    using insert_with_room [OF inv Cons.prems(2) r] Cons.prems(4) by auto
  have "\<exists>t'. foldO (\<lambda>r t. quad_insert t r) rs t1 = Some t' \<and> made k t' \<and> set rs \<subseteq> set (refs t') \<and> {r \<in> set (refs t1). order_ref r} \<subseteq> set (refs t')"
    by (rule Cons.IH [OF made.ins [OF Cons.prems(1) r t1(1)] Cons.prems(2)]) (use Cons.prems(3,4) t1(2) in auto)
  then show ?case using t1(1,3) by auto
qed auto

section \<open>Properties\<close>

text \<open>
  C37. On every table that insertions of order references and erasures can make, of 4 to \<open>2 ^ 32\<close> slots, the vector search returns what the scalar one returns, although it
  looks behind empty slots: a slot that holds the reference with its entry if there is one, and the capacity if there is none. An insertion never places a reference
  behind an empty slot of its probes, and nothing makes a slot empty again.
\<close>

theorem legacy_searches_agree:
  assumes "made k t" "2 \<le> k" "k \<le> 32" "order_ref ref"
  shows "find_avx2 t ref = find_scalar t ref \<and>
    (\<exists>s. find_scalar t ref = Some s \<and>
      (if ref \<in> set (refs t) then s < quad_cap t \<and> refs t ! s = ref \<and> quad_entry t s = Some (new_entry ref) else s = quad_cap t))"
  using assms by (rule finds_spec)

theorem legacy_searches_agree_witness:
  "\<exists>t. made 4 t \<and> find_avx2 t 42 = find_scalar t 42 \<and> (\<exists>s. find_scalar t 42 = Some s \<and> s < 16 \<and> refs t ! s = 42)"
proof -
  let ?n = "new_table 4"
  have inv: "quad_inv 4 ?n" by (rule new_table_inv) simp
  have o: "order_ref 42" by (simp add: order_ref_def kEmpty_def kTombstone_def)
  have "quad_insert ?n 42 = Some (put_ref ?n 42 (slot_of_ref ?n 42 0))"
    using quad_slot_less [of ?n "probe_start ?n 42" 0]
    by (simp add: quad_insert_def quad_insert_from.simps [of _ _ 0] quad_cap_def new_table_def elem_at_def put_ref_def Let_def)
  then have m: "made 4 (put_ref ?n 42 (slot_of_ref ?n 42 0))" (is "made 4 ?t") using made.ins [OF made.new o] by blast
  have "42 \<in> set (refs ?t)" "quad_cap ?t = 16"
    using quad_slot_less [of ?n "probe_start ?n 42" 0] by (auto simp: put_ref_def new_table_def quad_cap_def intro: set_update_memI)
  then show ?thesis using legacy_searches_agree [OF m _ _ o] m by auto
qed

end
