(* ===== verification/File_Slice.thy ===== *)
theory File_Slice
  imports Book_Builder Command_Line
begin

text \<open>
  The tools that cut files and look symbols up for the comparison with other libraries (\<^verbatim>\<open>bench/compare\<close>): \<open>be16\<close> and \<open>locate_of\<close> of
  \<^verbatim>\<open>common.hpp\<close>, and \<^verbatim>\<open>itch_slice.cpp\<close>. They read the file without the checks of the parser: on a file that does not end with a complete record they may read behind
  its end.
\<close>

section \<open>Reading\<close>

definition cmp_be16 :: "mem \<Rightarrow> nat \<Rightarrow> u16 option" where
  "cmp_be16 buf p = do { h \<leftarrow> rd buf p; l \<leftarrow> rd buf (p + 1); Some (push_bit 8 (ucast h) OR ucast l) }"

text \<open>The six bytes of the timestamp of the message at \<open>m\<close>.\<close>

definition slice_ts :: "mem \<Rightarrow> nat \<Rightarrow> u64 option" where
  "slice_ts buf m = foldO (\<lambda>k ts. do { b \<leftarrow> rd buf (m + 5 + k); Some (push_bit 8 ts OR ucast b) }) [0..<6] 0"

lemma be_word_snoc:
  assumes "8 \<le> LENGTH('w::len)"
  shows "(be_word (bs @ [b]) :: 'w word) = push_bit 8 (be_word bs) OR ucast b"
proof -
  have "push_bit 8 (be_word bs) OR ucast b = (push_bit 8 (be_word bs) + ucast b :: 'w word)"
  proof (rule push_bit_or_eq_add)
    have "unat b < 2 ^ LENGTH(8)" by (rule unsigned_less)
    then have "unat b < 2 ^ 8" by simp
    then show "unat (ucast b :: 'w word) < 2 ^ 8"
      by (simp add: unsigned_ucast_eq take_bit_eq_mod order_le_less_trans [OF mod_less_eq_dividend])
  qed
  moreover have "push_bit 8 (be_word bs) = (256 * be_word bs :: 'w word)" by (simp add: push_bit_eq_mult)
  moreover have "(be_word (bs @ [b]) :: 'w word) = ucast b + 256 * be_word bs" by (simp add: be_word_def)
  ultimately show ?thesis by (simp only: add.commute)
qed

lemma cmp_be16_eq: "cmp_be16 buf p = load_be16 buf p"
proof (cases "p + 2 \<le> length buf")
  case True
  then have t: "take 2 (drop p buf) = [buf ! p] @ [buf ! (p + 1)]"
    by (simp add: numeral_2_eq_2 take_Suc_conv_app_nth)
  have "(be_word [buf ! p] :: u16) = ucast (buf ! p)" by (simp add: be_word_def)
  then have "(be_word (take 2 (drop p buf)) :: u16) = push_bit 8 (ucast (buf ! p)) OR ucast (buf ! (p + 1))"
    unfolding t by (subst be_word_snoc) simp_all
  then show ?thesis using True by (simp add: cmp_be16_def load_be16_eq mem_simps)
next
  case False
  then show ?thesis by (auto simp: cmp_be16_def load_be16_eq rd_def rd_n_def bind_eq_None_conv)
qed

lemma slice_ts_eq: "m + 11 \<le> length buf \<Longrightarrow> slice_ts buf m = Some (be_word (take 6 (drop (m + 5) buf)))"
proof -
  assume l: "m + 11 \<le> length buf"
  have "foldO (\<lambda>k ts. do { b \<leftarrow> rd buf (m + 5 + k); Some (push_bit 8 ts OR ucast b) }) [0..<n] 0 = Some (be_word (take n (drop (m + 5) buf)) :: u64)"
    if "n \<le> 6" for n
    using that
  proof (induction n)
    case (Suc n)
    have "take (Suc n) (drop (m + 5) buf) = take n (drop (m + 5) buf) @ [buf ! (m + 5 + n)]"
      using l Suc.prems by (simp add: take_Suc_conv_app_nth)
    then show ?case using Suc l by (simp add: foldO_append mem_simps be_word_snoc)
  qed (simp add: be_word_def)
  then show ?thesis by (simp add: slice_ts_def)
qed

section \<open>The locate of a symbol\<close>

function locate_from :: "mem \<Rightarrow> nat \<Rightarrow> u8 list \<Rightarrow> nat \<Rightarrow> int option" where
  "locate_from buf len padded off =
     (if off + 2 \<le> len then do {
        n \<leftarrow> cmp_be16 buf off;
        found \<leftarrow> (if n = 39 then do {
            ty \<leftarrow> rd buf (off + 2);
            if ty = of_char CHR ''R'' then do { s \<leftarrow> rd_n buf (off + 2 + 11) 8; Some (s = padded) } else Some False }
          else Some False);
        if found then do { l \<leftarrow> cmp_be16 buf (off + 2 + 1); Some (uint l) }
        else locate_from buf len padded (off + (2 + unat n)) }
      else Some (- 1))"
  by pat_completeness auto
termination by (relation "measure (\<lambda>(buf, len, padded, off). len - off)") auto

declare locate_from.simps [simp del]

text \<open>A longer symbol is cut to 8 characters.\<close>

definition locate_of :: "mem \<Rightarrow> u8 list \<Rightarrow> int option" where
  "locate_of buf symbol = locate_from buf (length buf) (take 8 symbol @ replicate (8 - length symbol) 0x20) 0"

section \<open>itch\_slice\<close>

text \<open>\<open>strtoull(s, nullptr, 10)\<close>: clamped to 64 bits; a minus sign negates in 64 bits.\<close>

definition strtoull :: "string \<Rightarrow> u64" where
  "strtoull s =
     (let s1 = dropWhile is_space s;
          neg = (s1 \<noteq> [] \<and> hd s1 = CHR ''-'');
          s2 = (if s1 \<noteq> [] \<and> (hd s1 = CHR ''-'' \<or> hd s1 = CHR ''+'') then tl s1 else s1);
          v = digits_value (takeWhile is_digit s2) 0
      in if 2 ^ 64 \<le> v then - 1 else if neg then - of_nat v else of_nat v)"

record slice_args =
  sl_until :: u64
  sl_skip :: u64
  sl_count :: u64

text \<open>Pairs of an option and its value; unknown options are ignored, and so is an option without value at the end.\<close>

fun slice_opts :: "string list \<Rightarrow> slice_args \<Rightarrow> slice_args" where
  "slice_opts (opt # v # rest) a = slice_opts rest
     (if opt = ''--until-ns'' then a\<lparr>sl_until := strtoull v\<rparr>
      else if opt = ''--skip'' then a\<lparr>sl_skip := strtoull v\<rparr>
      else if opt = ''--count'' then a\<lparr>sl_count := strtoull v\<rparr> else a)"
| "slice_opts _ a = a"

text \<open>The walk: where the slice begins, if it does, where it ends, and its messages by type.\<close>

function slice_from ::
  "mem \<Rightarrow> nat \<Rightarrow> slice_args \<Rightarrow> nat \<Rightarrow> u64 \<Rightarrow> nat option \<Rightarrow> (u8 \<Rightarrow> u64) \<Rightarrow> (nat option \<times> nat \<times> (u8 \<Rightarrow> u64)) option" where
  "slice_from buf len a off idx start by_ty =
     (if off + 2 \<le> len then do {
        n \<leftarrow> cmp_be16 buf off;
        ts \<leftarrow> slice_ts buf (off + 2);
        if sl_until a \<le> ts \<or> sl_skip a + sl_count a \<le> idx then Some (start, off, by_ty)
        else do {
          by_ty' \<leftarrow> (if sl_skip a \<le> idx then do { ty \<leftarrow> rd buf (off + 2); Some (by_ty(ty := by_ty ty + 1)) } else Some by_ty);
          slice_from buf len a (off + (2 + unat n)) (idx + 1) (if idx = sl_skip a then Some off else start) by_ty' } }
      else Some (start, len, by_ty))"
  by pat_completeness auto
termination by (relation "measure (\<lambda>(buf, len, a, off, idx, start, by_ty). len - off)") auto

declare slice_from.simps [simp del]

text \<open>What is written and counted, or the exit code.\<close>

definition cut_slice :: "mem \<Rightarrow> slice_args \<Rightarrow> (int + mem \<times> (u8 \<Rightarrow> u64)) option" where
  "cut_slice buf a = do {
     (start, stop, by_ty) \<leftarrow> slice_from buf (length buf) a 0 0 None (\<lambda>_. 0);
     case start of None \<Rightarrow> Some (Inl 1)
     | Some p \<Rightarrow> do { bytes \<leftarrow> rd_n buf p (stop - p); Some (Inr (bytes, by_ty)) } }"

text \<open>\<open>main\<close>; the arguments are those after the program's name, the first two name the files. A file that cannot be written is not checked.\<close>

definition slice_main :: "mem \<Rightarrow> bool \<Rightarrow> string list \<Rightarrow> (int + mem \<times> (u8 \<Rightarrow> u64)) option" where
  "slice_main buf can_write args =
     (if length args < 4 then Some (Inl 2)
      else do {
        r \<leftarrow> cut_slice buf (slice_opts (drop 2 args) \<lparr>sl_until = - 1, sl_skip = 0, sl_count = - 1\<rparr>);
        case r of Inl c \<Rightarrow> Some (Inl c) | Inr out \<Rightarrow> if can_write then Some (Inr out) else None })"

section \<open>The walk over complete records\<close>

lemma framed_parts:
  assumes "length f < 2 ^ 16"
  shows "length (framed f) = 2 + length f" "unat (be_word (take 2 (framed f @ xs)) :: u16) = length f" "drop 2 (framed f @ xs) = f @ xs"
proof -
  have l: "length (be_bytes 2 (of_nat (length f) :: u16)) = 2" by simp
  show "length (framed f) = 2 + length f" "drop 2 (framed f @ xs) = f @ xs" by (simp_all add: framed_def)
  have "take 2 (framed f @ xs) = be_bytes 2 (of_nat (length f) :: u16)" by (simp add: framed_def)
  then show "unat (be_word (take 2 (framed f @ xs)) :: u16) = length f" using assms by (simp add: be_word_be_bytes unat_of_nat)
qed

definition rec_ts :: "u8 list \<Rightarrow> u64" where
  "rec_ts f = be_word (take 6 (drop 5 f))"

text \<open>What a walk at the first byte of a record reads.\<close>

lemma walk_length:
  assumes "drop off buf = framed f @ xs" "length f < 2 ^ 16"
  shows "off + 2 + length f \<le> length buf" "cmp_be16 buf off = Some (of_nat (length f))" "drop (off + 2) buf = f @ xs"
    "drop (off + (2 + length f)) buf = xs"
proof -
  note fr = framed_parts [OF assms(2)]
  have "length buf - off = 2 + length f + length xs" using arg_cong [OF assms(1), of length] fr(1) by simp
  then show le: "off + 2 + length f \<le> length buf" by linarith
  have "unat (be_word (take 2 (drop off buf)) :: u16) = length f" unfolding assms(1) by (rule fr(2))
  then have "(be_word (take 2 (drop off buf)) :: u16) = of_nat (length f)" using assms(2) by (simp add: word_unat_eq_iff unat_of_nat)
  then show "cmp_be16 buf off = Some (of_nat (length f))" using le by (simp add: cmp_be16_eq load_be16_in)
  show d: "drop (off + 2) buf = f @ xs" using arg_cong [OF assms(1), of "drop 2"] fr(3) by (simp add: add.commute)
  show "drop (off + (2 + length f)) buf = xs" using arg_cong [OF d, of "drop (length f)"] by (simp add: ac_simps)
qed

lemma walk_reads:
  assumes "drop off buf = framed f @ xs" "11 \<le> length f" "length f < 2 ^ 16"
  shows "off + 2 \<le> length buf" "cmp_be16 buf off = Some (of_nat (length f))" "slice_ts buf (off + 2) = Some (rec_ts f)"
    "rd buf (off + 2) = Some (hd f)" "drop (off + (2 + length f)) buf = xs" "off + 2 + length f \<le> length buf"
proof -
  note w = walk_length [OF assms(1,3)]
  show le: "off + 2 \<le> length buf" "off + 2 + length f \<le> length buf" using w(1) by linarith+
  show "cmp_be16 buf off = Some (of_nat (length f))" "drop (off + (2 + length f)) buf = xs" by (rule w(2), rule w(4))
  note d = w(3)
  have "drop (off + 2 + 5) buf = drop 5 (drop (off + 2) buf)" by (simp add: ac_simps)
  then have "drop (off + 2 + 5) buf = drop 5 f @ xs" using assms(2) by (simp only: d) simp
  then show "slice_ts buf (off + 2) = Some (rec_ts f)" using le(2) assms(2) by (simp add: slice_ts_eq rec_ts_def)
  have "buf ! (off + 2) = hd f" using d assms(2) by (metis drop_all hd_append2 hd_drop_conv_nth le(1,2) le_add1 leI list.size(3) not_numeral_le_zero order_trans append_is_Nil_conv)
  then show "rd buf (off + 2) = Some (hd f)" using le(2) assms(2) by (simp add: rd_def)
qed

text \<open>The records that the walk passes: up to the first that is too late, and up to the number \<open>skip + count\<close> in 64 bits.\<close>

definition passed :: "slice_args \<Rightarrow> nat \<Rightarrow> u8 list list \<Rightarrow> u8 list list" where
  "passed a i fs = take (unat (sl_skip a + sl_count a) - i) (takeWhile (\<lambda>f. rec_ts f < sl_until a) fs)"

definition kind_count :: "u8 list list \<Rightarrow> u8 \<Rightarrow> u64" where
  "kind_count fs ty = of_nat (length (filter (\<lambda>f. hd f = ty) fs))"

lemma passed_Cons:
  "passed a i (f # fs) = (if sl_until a \<le> rec_ts f \<or> unat (sl_skip a + sl_count a) \<le> i then [] else f # passed a (i + 1) fs)"
  by (auto simp: passed_def not_le take_Cons' split: if_splits)

lemma slice_from_eq:
  fixes a :: slice_args
  assumes "drop off buf = concat (map framed fs)" "\<forall>f \<in> set fs. 11 \<le> length f \<and> length f < 2 ^ 16" "i + length fs < 2 ^ 64" "off \<le> length buf"
  defines "skip \<equiv> unat (sl_skip a)"
  shows "slice_from buf (length buf) a off (of_nat i) start by_ty =
    Some (if i \<le> skip \<and> skip < i + length (passed a i fs) then Some (off + length (concat (map framed (take (skip - i) (passed a i fs))))) else start,
      off + length (concat (map framed (passed a i fs))), \<lambda>ty. by_ty ty + kind_count (drop (skip - i) (passed a i fs)) ty)"
  using assms(1-4)
proof (induction fs arbitrary: off i start by_ty)
  case Nil
  then have "off = length buf" by simp
  then show ?case by (subst slice_from.simps) (auto simp: passed_def kind_count_def)
next
  case (Cons f fs)
  have f: "11 \<le> length f" "length f < 2 ^ 16" using Cons.prems(2) by simp_all
  have d: "drop off buf = framed f @ concat (map framed fs)" using Cons.prems(1) by simp
  note w = walk_reads [OF d f]
  have ui: "unat (of_nat i :: u64) = i" using Cons.prems(3) by (simp add: unat_of_nat)
  have idx: "(v \<le> (of_nat i :: u64)) = (unat v \<le> i)" "(of_nat i = v) = (i = unat v)" for v :: u64
    using ui by (auto simp: word_le_nat_alt)
  have ul: "unat (of_nat (length f) :: u16) = length f" using f(2) by (simp add: unat_of_nat)
  show ?case
  proof (cases "sl_until a \<le> rec_ts f \<or> unat (sl_skip a + sl_count a) \<le> i")
    case True
    then show ?thesis using w by (subst slice_from.simps) (auto simp: passed_Cons idx kind_count_def)
  next
    case False
    define by_ty' where "by_ty' = (if skip \<le> i then by_ty(hd f := by_ty (hd f) + 1) else by_ty)"
    define start' where "start' = (if i = skip then Some off else start)"
    have step: "slice_from buf (length buf) a off (of_nat i) start by_ty =
        slice_from buf (length buf) a (off + (2 + length f)) (of_nat (i + 1)) start' by_ty'"
      using False w(1-4) by (subst slice_from.simps) (simp add: idx ul by_ty'_def start'_def skip_def add.commute)
    have IH: "slice_from buf (length buf) a (off + (2 + length f)) (of_nat (i + 1)) start' by_ty' =
      Some (if i + 1 \<le> skip \<and> skip < i + 1 + length (passed a (i + 1) fs)
            then Some (off + (2 + length f) + length (concat (map framed (take (skip - (i + 1)) (passed a (i + 1) fs))))) else start',
        off + (2 + length f) + length (concat (map framed (passed a (i + 1) fs))),
        \<lambda>ty. by_ty' ty + kind_count (drop (skip - (i + 1)) (passed a (i + 1) fs)) ty)"
      by (rule Cons.IH) (use w(5,6) Cons.prems(2,3) in auto)
    have p: "passed a i (f # fs) = f # passed a (i + 1) fs" using False by (simp add: passed_Cons)
    note lf = framed_parts(1) [OF f(2)]
    show ?thesis
    proof (cases "skip \<le> i")
      case True
      then show ?thesis unfolding step IH p
        by (cases "i = skip") (auto simp: lf start'_def by_ty'_def kind_count_def fun_eq_iff)
    next
      case before: False
      then have "skip - i = Suc (skip - (i + 1))" by simp
      then show ?thesis unfolding step IH p using before by (simp add: lf start'_def by_ty'_def)
    qed
  qed
qed

text \<open>\<open>locate_of\<close> finds the first directory message of the symbol; the directory of the program keeps the last.\<close>

definition names_symbol :: "u8 list \<Rightarrow> u8 list \<Rightarrow> bool" where
  "names_symbol padded f \<longleftrightarrow> length f = 39 \<and> hd f = 0x52 \<and> take 8 (drop 11 f) = padded"

lemma locate_from_eq:
  assumes "drop off buf = concat (map framed fs)" "\<forall>f \<in> set fs. length f < 2 ^ 16" "off \<le> length buf"
  shows "locate_from buf (length buf) padded off =
    Some (case find (names_symbol padded) fs of None \<Rightarrow> - 1 | Some f \<Rightarrow> uint (be_word (take 2 (drop 1 f)) :: u16))"
  using assms
proof (induction fs arbitrary: off)
  case Nil
  then have "off = length buf" by simp
  then show ?case by (subst locate_from.simps) simp
next
  case (Cons f fs)
  have f: "length f < 2 ^ 16" and d: "drop off buf = framed f @ concat (map framed fs)" using Cons.prems by simp_all
  note w = walk_length [OF d f]
  have ul: "unat (of_nat (length f) :: u16) = length f" using f by (simp add: unat_of_nat)
  have n39: "(of_nat (length f) = (39 :: u16)) = (length f = 39)" using f by (simp add: word_unat_eq_iff unat_of_nat)
  have IH: "locate_from buf (length buf) padded (off + (2 + length f)) =
      Some (case find (names_symbol padded) fs of None \<Rightarrow> - 1 | Some f \<Rightarrow> uint (be_word (take 2 (drop 1 f)) :: u16))"
    by (rule Cons.IH) (use w(1,4) Cons.prems(2) in auto)
  show ?case
  proof (cases "length f = 39")
    case False
    then show ?thesis using w(1,2) IH n39 ul by (subst locate_from.simps) (simp add: names_symbol_def)
  next
    case True
    have ty: "rd buf (off + 2) = Some (hd f)"
    proof -
      have "drop (off + 2) buf \<noteq> []" "hd (drop (off + 2) buf) = hd f" unfolding w(3) using True by (cases f; simp)+
      then show ?thesis using w(1) True by (simp add: rd_def hd_drop_conv_nth)
    qed
    have at: "drop (off + 2 + k) buf = drop k f @ concat (map framed fs)" if "k \<le> 39" for k
    proof -
      have "drop (off + 2 + k) buf = drop k (drop (off + 2) buf)" by (simp add: ac_simps)
      then show ?thesis using that True by (simp only: w(3)) simp
    qed
    have s8: "rd_n buf (off + 2 + 11) 8 = Some (take 8 (drop 11 f))" using w(1) True at [of 11] by (simp add: rd_n_def)
    have lo: "cmp_be16 buf (off + 2 + 1) = Some (be_word (take 2 (drop 1 f)))"
      using w(1) True at [of 1] load_be16_in [of "off + 2 + 1" buf] by (simp add: cmp_be16_eq)
    have step: "locate_from buf (length buf) padded off =
        (if names_symbol padded f then Some (uint (be_word (take 2 (drop 1 f)) :: u16)) else locate_from buf (length buf) padded (off + (2 + length f)))"
      using w(1,2) n39 ul True ty s8 lo by (subst locate_from.simps) (auto simp: names_symbol_def of_char_def Let_def)
    show ?thesis using IH by (simp add: step)
  qed
qed

lemma locate_of_first:
  assumes "frames buf = (fs, [])"
  shows "locate_of buf symbol = Some (case find (names_symbol (take 8 symbol @ replicate (8 - length symbol) 0x20)) fs of
    None \<Rightarrow> - 1 | Some f \<Rightarrow> uint (be_word (take 2 (drop 1 f)) :: u16))"
  using frames_partition [OF assms] frames_length [OF assms] unfolding locate_of_def by (intro locate_from_eq) auto

section \<open>Properties\<close>

text \<open>
  C36. The slice of a file of complete records, none shorter than the 11 bytes of the common header, is what the tool's usage says of it, \<open>skip + count\<close> taken in 64 bits: of the
  records before the first one that is too late and before the record \<open>skip + count\<close>, it writes all but the first \<open>skip\<close>, framed as they were, and counts them by type; if
  there is none it fails. With \<open>--skip\<close> alone, where the count stays at \<open>2 ^ 64 - 1\<close>, the sum wraps around and the tool always fails.
\<close>

theorem itch_slice_cuts:
  fixes a :: slice_args
  assumes "frames buf = (fs, [])" "\<forall>f \<in> set fs. 11 \<le> length f" "length fs < 2 ^ 64"
  defines "piece \<equiv> drop (unat (sl_skip a)) (take (unat (sl_skip a + sl_count a)) (takeWhile (\<lambda>f. rec_ts f < sl_until a) fs))"
  shows "cut_slice buf a = Some (if piece = [] then Inl 1 else Inr (concat (map framed piece), kind_count piece)) \<and>
    (sl_skip a \<noteq> 0 \<and> sl_count a = - 1 \<longrightarrow> cut_slice buf a = Some (Inl 1))"
proof -
  define kept where "kept = passed a 0 fs"
  let ?skip = "unat (sl_skip a)"
  have buf: "buf = concat (map framed fs)" using frames_partition [OF assms(1)] by simp
  have short: "\<forall>f \<in> set fs. 11 \<le> length f \<and> length f < 2 ^ 16" using assms(2) frames_length [OF assms(1)] by blast
  have piece: "piece = drop ?skip kept" by (simp add: piece_def kept_def passed_def)
  have walk: "slice_from buf (length buf) a 0 0 None (\<lambda>_. 0) =
      Some (if ?skip < length kept then Some (length (concat (map framed (take ?skip kept)))) else None, length (concat (map framed kept)), kind_count piece)"
    using slice_from_eq [of 0 buf fs 0 a None "\<lambda>_. 0"] buf short assms(3) by (simp add: kept_def piece)
  obtain m where "kept = take m fs"
    unfolding kept_def passed_def using takeWhile_eq_take [of "\<lambda>f. rec_ts f < sl_until a" fs] by (metis take_take)
  then have pre: "fs = kept @ drop (length kept) fs" by (cases "m \<le> length fs") simp_all
  let ?p = "length (concat (map framed (take ?skip kept)))" and ?rest = "concat (map framed (drop (length kept) fs))"
  have "concat (map framed kept) = concat (map framed (take ?skip kept)) @ concat (map framed piece)"
    unfolding piece by (metis append_take_drop_id concat_append map_append)
  moreover have "buf = concat (map framed kept) @ ?rest" unfolding buf by (subst pre) simp
  ultimately have b: "buf = concat (map framed (take ?skip kept)) @ concat (map framed piece) @ ?rest"
    and n: "length (concat (map framed kept)) - ?p = length (concat (map framed piece))" by simp_all
  have "rd_n (xs @ ys @ zs) (length xs) (length ys) = Some ys" for xs ys zs :: mem by (simp add: rd_n_def)
  then have bytes: "rd_n buf ?p (length (concat (map framed kept)) - ?p) = Some (concat (map framed piece))"
    unfolding n by (subst b) simp
  have first: "cut_slice buf a = Some (if piece = [] then Inl 1 else Inr (concat (map framed piece), kind_count piece))"
    unfolding cut_slice_def walk by (auto simp: bytes piece)
  moreover have "piece = []" if "sl_skip a \<noteq> 0" "sl_count a = - 1"
  proof -
    have "unat (sl_skip a + sl_count a) \<le> ?skip" using that by (simp add: unat_minus_one)
    then show ?thesis unfolding piece_def by (simp add: le_trans [OF min.cobounded2])
  qed
  ultimately show ?thesis by simp
qed

theorem itch_slice_cuts_witness:
  "cut_slice delete_record \<lparr>sl_until = - 1, sl_skip = 0, sl_count = 1\<rparr> = Some (Inr (delete_record, kind_count [drop 2 delete_record])) \<and>
    cut_slice delete_record \<lparr>sl_until = - 1, sl_skip = 1, sl_count = - 1\<rparr> = Some (Inl 1)"
proof -
  have f: "frames delete_record = ([drop 2 delete_record], [])" using sample_frames by (simp add: delete_record_def)
  have h: "\<forall>f \<in> set [drop 2 delete_record]. 11 \<le> length f" "length [drop 2 delete_record] < 2 ^ 64" by (simp_all add: delete_record_def)
  have ts: "rec_ts (drop 2 delete_record) = 0" by (simp add: rec_ts_def delete_record_def be_word_def le_nat_zeros)
  have whole: "framed (drop 2 delete_record) = delete_record" using frames_partition [OF f] by simp
  have max: "(0 :: u64) < - 1" by (simp add: word_greater_zero_iff)
  show ?thesis
    using itch_slice_cuts [OF f h, of "\<lparr>sl_until = - 1, sl_skip = 0, sl_count = 1\<rparr>"]
      itch_slice_cuts [OF f h, of "\<lparr>sl_until = - 1, sl_skip = 1, sl_count = - 1\<rparr>"] by (simp add: ts whole max)
qed

end
