(* ===== verification/Compare_Runs.thy ===== *)
theory Compare_Runs
  imports File_Slice Symbol_Directory
begin

text \<open>
  The programs that time the library (\<^verbatim>\<open>bench/compare\<close>): \<^verbatim>\<open>session_profile.cpp\<close>, which parses a session slice by slice, and
  \<^verbatim>\<open>run_parseritch.cpp\<close>, whose modes walk the same file in different ways and print a checksum. The times are not modelled.
\<close>

section \<open>session\_profile\<close>

text \<open>Where the slices begin and end, and the time of the last message of each. A slice of 0 messages divides by 0.\<close>

function profile_from ::
  "mem \<Rightarrow> nat \<Rightarrow> nat \<Rightarrow> nat \<Rightarrow> u64 \<Rightarrow> nat list \<Rightarrow> u64 list \<Rightarrow> (nat \<times> u64 \<times> nat list \<times> u64 list) option" where
  "profile_from buf slice_msgs off n ts cuts last_ts =
     (if off + 2 \<le> length buf then do {
        len \<leftarrow> cmp_be16 buf off;
        if off + 2 + unat len > length buf then Some (off, ts, cuts, last_ts)
        else do {
          ts' \<leftarrow> slice_ts buf (off + 2);
          if slice_msgs = 0 then None
          else if (n + 1) mod slice_msgs = 0
          then profile_from buf slice_msgs (off + (2 + unat len)) (n + 1) ts' (cuts @ [off + 2 + unat len]) (last_ts @ [ts'])
          else profile_from buf slice_msgs (off + (2 + unat len)) (n + 1) ts' cuts last_ts } }
      else Some (off, ts, cuts, last_ts))"
  by pat_completeness auto
termination by (relation "measure (\<lambda>(buf, _, off, _). length buf - off)") auto

declare profile_from.simps [simp del]

definition profile_cuts :: "mem \<Rightarrow> nat \<Rightarrow> (nat list \<times> u64 list) option" where
  "profile_cuts buf slice_msgs = do {
     (off, ts, cuts, last_ts) \<leftarrow> profile_from buf slice_msgs 0 0 0 [0] [];
     Some (if last cuts \<noteq> off then (cuts @ [off], last_ts @ [ts]) else (cuts, last_ts)) }"

definition profile_slice ::
  "'h handler \<Rightarrow> mem \<Rightarrow> nat list \<Rightarrow> nat \<Rightarrow> 'h parser \<times> u64 list \<Rightarrow> ('h parser \<times> u64 list) option" where
  "profile_slice H buf cuts i = (\<lambda>(P, msgs). do {
     (P', _) \<leftarrow> parse_stream_prefetch 16 H (drop (cuts ! i) buf) (cuts ! (i + 1) - cuts ! i) P;
     Some (P', msgs @ [messages (stats P') - messages (stats P)]) })"

text \<open>The parser in the end, the messages and the last time of each slice.\<close>

definition session_profile :: "'h handler \<Rightarrow> mem \<Rightarrow> nat \<Rightarrow> 'h parser \<Rightarrow> ('h parser \<times> u64 list \<times> u64 list) option" where
  "session_profile H buf slice_msgs P = do {
     (cuts, last_ts) \<leftarrow> profile_cuts buf slice_msgs;
     (P', msgs) \<leftarrow> foldO (profile_slice H buf cuts) [0..<length cuts - 1] (P, []);
     Some (P', msgs, last_ts) }"

section \<open>run\_parseritch\<close>

text \<open>\<open>Fold\<close>, the handler of the mode \<open>parse\<close>.\<close>

definition fold_handler :: "u64 handler" where
  "fold_handler = \<lparr>handles = (\<lambda>_. True), on_msg = (\<lambda>m s. Some (s + (ucast (locate (header_of m)) + timestamp (header_of m)))),
     wants = None, prefetch = None\<rparr>"

text \<open>What a run prints: messages and checksum; the bytes consumed are compared with the size for a warning.\<close>

definition run_parse :: "mem \<Rightarrow> (u64 \<times> u64 \<times> nat) option" where
  "run_parse buf = do {
     (P, used) \<leftarrow> parse_stream fold_handler buf (length buf) (new_parser 0);
     Some (messages (stats P), handler_state P, used) }"

definition fold_frame :: "mem \<Rightarrow> frame \<Rightarrow> u64 option \<Rightarrow> u64 option" where
  "fold_frame buf f s = do { v \<leftarrow> s; l \<leftarrow> frame_locate buf f; t \<leftarrow> frame_timestamp buf f; Some (v + (ucast l + t)) }"

definition run_frames :: "mem \<Rightarrow> (u64 \<times> u64) option" where
  "run_frames buf = do {
     (r, s) \<leftarrow> for_each_frame buf (length buf) (fold_frame buf) (Some 0);
     v \<leftarrow> s;
     Some (fs_frames r, v) }"

text \<open>\<open>DirSink\<close>, and \<open>FilterSink\<close>, which wants the directory and the locates to keep.\<close>

definition dir_sink :: "symbol_directory sink" where
  "dir_sink = \<lparr>sk_wants = None, sk_on_book = (\<lambda>_. None),
     sk_on = (\<lambda>t. if t = TStockDirectory then Some (\<lambda>m d. case m of StockDirectory x \<Rightarrow> dir_on x d | _ \<Rightarrow> d) else None)\<rparr>"

definition filter_sink :: "(u16 \<Rightarrow> bool) \<Rightarrow> symbol_directory sink" where
  "filter_sink keep = dir_sink\<lparr>sk_wants := Some (\<lambda>_ ty loc. ty = kType TStockDirectory \<or> keep loc)\<rparr>"

text \<open>The modes \<open>book\<close> and \<open>book\_pfN\<close> by their distance, 0 without lookahead.\<close>

definition run_book ::
  "(nat \<Rightarrow> bool) \<Rightarrow> isa \<Rightarrow> nat \<Rightarrow> nat \<Rightarrow> mem \<Rightarrow> symbol_directory builder parser option" where
  "run_book alloc b orders distance buf = do {
     e \<leftarrow> new_engine alloc b orders;
     let P = new_parser \<lparr>bb_engine = e, bb_sink = new_directory\<rparr>;
     if distance \<in> {8, 16, 32, 64}
     then do { (P', _) \<leftarrow> parse_stream_prefetch distance (bb_handler alloc b dir_sink) buf (length buf) P; Some P' }
     else do { (P', _) \<leftarrow> parse_stream (bb_handler alloc b dir_sink) buf (length buf) P; Some P' } }"

text \<open>The mode \<open>book\_pf16\_digest\<close>: the locates of the symbols come from a walk of its own.\<close>

definition digest_locates :: "mem \<Rightarrow> u8 list list \<Rightarrow> (u16 \<Rightarrow> bool) option" where
  "digest_locates buf digest = foldO (\<lambda>symbol keep. do {
     loc \<leftarrow> locate_of buf symbol;
     Some (if 0 \<le> loc then keep(word_of_int loc := True) else keep) }) digest (\<lambda>_. False)"

definition run_digest ::
  "(nat \<Rightarrow> bool) \<Rightarrow> isa \<Rightarrow> u8 list list \<Rightarrow> mem \<Rightarrow> symbol_directory builder parser option" where
  "run_digest alloc b digest buf = do {
     keep \<leftarrow> digest_locates buf digest;
     e \<leftarrow> new_engine alloc b (push_bit 16 1);
     (P', _) \<leftarrow> parse_stream_prefetch 16 (bb_handler alloc b (filter_sink keep)) buf (length buf)
       (new_parser \<lparr>bb_engine = e, bb_sink = new_directory\<rparr>);
     Some P' }"

section \<open>The modes agree\<close>

lemma decode_timestamp:
  assumes "decode t buf p = Some m"
  shows "load_be48_overread buf (p + 5) = Some (timestamp (header_of m))"
  using assms by (auto simp: decode_def Option.bind_eq_Some_conv dest!: build_SomeD)

lemma fold_frames_parse:
  assumes "\<forall>(p, n) \<in> set rs. p + n \<le> length buf"
  shows "foldO (\<lambda>(p, n). parse fold_handler buf p n) rs P = Some P' \<Longrightarrow>
    fold (\<lambda>(p, n). fold_frame buf \<lparr>fr_data = p, fr_len = n\<rparr>) (filter (\<lambda>r. \<exists>m. classify (rec_bytes buf r) = Message m) rs)
      (Some (handler_state P)) = Some (handler_state P')"
  using assms
proof (induction rs arbitrary: P)
  case (Cons r rs)
  obtain p n where r: "r = (p, n)" by fastforce
  have pn: "p + n \<le> length buf" using Cons.prems(2) r by simp
  obtain P1 where P1: "parse fold_handler buf p n P = Some P1" "foldO (\<lambda>(p, n). parse fold_handler buf p n) rs P1 = Some P'"
    using Cons.prems(1) by (auto simp: r bind_eq_Some_conv)
  have ap: "apply_verdict fold_handler (classify (rec_bytes buf (p, n))) P = Some P1" using P1(1) unfolding parse_classify [OF pn] .
  have IH: "fold (\<lambda>(p, n). fold_frame buf \<lparr>fr_data = p, fr_len = n\<rparr>) (filter (\<lambda>r. \<exists>m. classify (rec_bytes buf r) = Message m) rs)
      (Some (handler_state P1)) = Some (handler_state P')"
    by (rule Cons.IH [OF P1(2)]) (use Cons.prems(2) in auto)
  show ?case
  proof (cases "\<exists>m. classify (rec_bytes buf r) = Message m")
    case False
    then have "handler_state P1 = handler_state P" using ap r by (cases "classify (rec_bytes buf (p, n))") auto
    then show ?thesis using False IH by simp
  next
    case True
    then obtain m where m: "classify (rec_bytes buf (p, n)) = Message m" by (auto simp: r)
    have d: "\<exists>t. decode t buf p = Some m" using m by (cases rule: classify_rec [OF pn]) auto
    have s: "handler_state P1 = handler_state P + (ucast (locate (header_of m)) + timestamp (header_of m))"
      using ap m by (auto simp: fold_handler_def wanted_def Let_def)
    have "fold_frame buf \<lparr>fr_data = p, fr_len = n\<rparr> (Some (handler_state P)) = Some (handler_state P1)"
      using d decode_locate decode_timestamp by (auto simp: fold_frame_def frame_locate_def frame_timestamp_def s)
    then show ?thesis using True IH by (simp add: r)
  qed
qed simp

lemma book_distance_neutral: "run_book alloc b orders distance buf = run_book alloc b orders 0 buf"
  by (auto simp: run_book_def Let_def builder.parse_stream_prefetch_eq Option.bind_assoc case_prod_beta split: Option.bind_split)

section \<open>The slices make up the session\<close>

abbreviation byte_pos :: "u8 list list \<Rightarrow> nat \<Rightarrow> nat" where
  "byte_pos fs k \<equiv> length (concat (map framed (take k fs)))"

lemma byte_pos_Suc: "k < length fs \<Longrightarrow> byte_pos fs (Suc k) = byte_pos fs k + length (framed (fs ! k))"
  by (simp add: take_Suc_conv_app_nth)

text \<open>The bytes between two record boundaries are the records between them.\<close>

lemma byte_slice:
  assumes "buf = concat (map framed fs) @ rest" "k \<le> k'" "k' \<le> length fs"
  shows "byte_pos fs k \<le> byte_pos fs k'" "byte_pos fs k' \<le> length buf"
    "take (byte_pos fs k' - byte_pos fs k) (drop (byte_pos fs k) buf) = concat (map framed (drop k (take k' fs)))"
proof -
  have f: "fs = take k fs @ drop k (take k' fs) @ drop k' fs"
    using assms(2) by (metis append_assoc append_take_drop_id min.absorb1 take_take)
  have k': "take k' fs = take k fs @ drop k (take k' fs)"
    using assms(2) by (metis append_take_drop_id min.absorb1 take_take)
  have n: "byte_pos fs k' = byte_pos fs k + length (concat (map framed (drop k (take k' fs))))"
    by (subst k') simp
  then show "byte_pos fs k \<le> byte_pos fs k'" by simp
  have b: "buf = concat (map framed (take k fs)) @ concat (map framed (drop k (take k' fs))) @ concat (map framed (drop k' fs)) @ rest"
    unfolding assms(1) by (subst f) simp
  show "byte_pos fs k' \<le> length buf" unfolding n by (subst b) simp
  show "take (byte_pos fs k' - byte_pos fs k) (drop (byte_pos fs k) buf) = concat (map framed (drop k (take k' fs)))"
    unfolding n by (subst b) simp
qed

lemma profile_from_eq:
  assumes "frames buf = (fs, rest)" "\<forall>f \<in> set fs. 11 \<le> length f" "0 < slice_msgs" "i \<le> length fs"
  shows "\<exists>ts' ks last'. profile_from buf slice_msgs (byte_pos fs i) i ts cuts last_ts =
      Some (byte_pos fs (length fs), ts', cuts @ map (byte_pos fs) ks, last') \<and>
    sorted_wrt (<) (i # ks) \<and> (\<forall>k \<in> set ks. k \<le> length fs)"
  using assms(4)
proof (induction "length fs - i" arbitrary: i ts cuts last_ts)
  case 0
  then have i: "i = length fs" by simp
  have "buf = concat (map framed fs) @ rest" by (rule frames_partition [OF assms(1)])
  then have d: "drop (byte_pos fs i) buf = rest" "length buf = byte_pos fs i + length rest" by (simp_all add: i)
  have "profile_from buf slice_msgs (byte_pos fs i) i ts cuts last_ts = Some (byte_pos fs i, ts, cuts, last_ts)"
  proof (cases "byte_pos fs i + 2 \<le> length buf")
    case True
    then have "length rest < 2 + unat (be_word (take 2 rest) :: u16)" using frames_rest [OF assms(1)] d(2) by simp
    then show ?thesis using True load_be16_in [OF True] d
      by (subst profile_from.simps) (simp add: cmp_be16_eq)
  next
    case False
    then show ?thesis by (subst profile_from.simps) simp
  qed
  then show ?case by (intro exI [of _ ts] exI [of _ "[]"] exI [of _ last_ts]) (simp add: i)
next
  case (Suc m)
  then have i: "i < length fs" and m: "m = length fs - Suc i" by simp_all
  let ?f = "fs ! i" and ?xs = "concat (map framed (drop (Suc i) fs)) @ rest"
  have f: "11 \<le> length ?f" "length ?f < 2 ^ 16" using i assms(2) frames_length [OF assms(1)] by auto
  have "fs = take i fs @ ?f # drop (Suc i) fs" using i by (simp add: id_take_nth_drop)
  then have "buf = concat (map framed (take i fs)) @ framed ?f @ ?xs"
    using frames_partition [OF assms(1)] by (metis append.assoc concat.simps(2) concat_append list.simps(9) map_append)
  then have d: "drop (byte_pos fs i) buf = framed ?f @ ?xs" by simp
  note w = walk_reads [OF d f]
  have ul: "unat (of_nat (length ?f) :: u16) = length ?f" using f(2) by (simp add: unat_of_nat)
  have next_pos: "byte_pos fs i + (2 + length ?f) = byte_pos fs (Suc i)" using byte_pos_Suc [OF i] framed_parts(1) [OF f(2)] by simp
  define cuts' where "cuts' = (if (i + 1) mod slice_msgs = 0 then cuts @ [byte_pos fs (Suc i)] else cuts)"
  define last' where "last' = (if (i + 1) mod slice_msgs = 0 then last_ts @ [rec_ts ?f] else last_ts)"
  have step: "profile_from buf slice_msgs (byte_pos fs i) i ts cuts last_ts = profile_from buf slice_msgs (byte_pos fs (Suc i)) (Suc i) (rec_ts ?f) cuts' last'"
    using w(1,2,3,6) assms(3) next_pos by (subst profile_from.simps) (simp add: ul cuts'_def last'_def)
  obtain ts2 ks last2 where IH: "profile_from buf slice_msgs (byte_pos fs (Suc i)) (Suc i) (rec_ts ?f) cuts' last' =
      Some (byte_pos fs (length fs), ts2, cuts' @ map (byte_pos fs) ks, last2)" "sorted_wrt (<) (Suc i # ks)" "\<forall>k \<in> set ks. k \<le> length fs"
    using Suc.hyps(1) [OF m Suc_leI [OF i], of "rec_ts ?f" cuts' last'] by (elim exE conjE) (rule that)
  show ?case
  proof (cases "(i + 1) mod slice_msgs = 0")
    case True
    then show ?thesis using step IH i
      by (intro exI [of _ ts2] exI [of _ "Suc i # ks"] exI [of _ last2]) (auto simp: cuts'_def)
  next
    case False
    then show ?thesis using step IH by (intro exI [of _ ts2] exI [of _ ks] exI [of _ last2]) (auto simp: cuts'_def)
  qed
qed

lemma profile_slices_parse:
  fixes alloc b S
  defines "H \<equiv> bb_handler alloc b S"
  assumes "frames buf = (fs, rest)" "sorted_wrt (<) ks" "ks \<noteq> []" "hd ks = 0" "\<forall>k \<in> set ks. k \<le> length fs" "n < length ks"
  shows "map_option fst (foldO (profile_slice H buf (map (byte_pos fs) ks)) [0..<n] (P, [])) =
    foldO (\<lambda>bs. apply_verdict H (classify bs)) (take (ks ! n) fs) P"
  using assms(7)
proof (induction n)
  case 0
  then show ?case using assms(4,5) by (simp add: hd_conv_nth)
next
  case (Suc n)
  let ?k = "ks ! n" and ?k' = "ks ! Suc n"
  have k: "?k < ?k'" "?k' \<le> length fs" using sorted_wrt_nth_less [OF assms(3), of n "Suc n"] Suc.prems assms(6) by auto
  note sl = byte_slice [OF frames_partition [OF assms(2)], of ?k ?k']
  let ?b = "drop (byte_pos fs ?k) buf" and ?l = "byte_pos fs ?k' - byte_pos fs ?k" and ?part = "drop ?k (take ?k' fs)"
  have len: "?l \<le> length ?b" using sl(2) k by simp
  have "\<forall>bs \<in> set ?part. length bs < 2 ^ 16" using frames_length [OF assms(2)] by (meson in_set_dropD in_set_takeD)
  then have "frames (concat (map framed ?part) @ []) = (?part, [])"
    by (simp only: frames_concat) (simp add: frames_incomplete incomplete_def)
  then have fr: "frames (take ?l ?b) = (?part, [])" using sl(3) k by simp
  have slice: "profile_slice H buf (map (byte_pos fs) ks) n (Q, ms) =
      map_option (\<lambda>P'. (P', ms @ [messages (stats P') - messages (stats Q)])) (foldO (\<lambda>bs. apply_verdict H (classify bs)) ?part Q)" for Q ms
    using Suc.prems builder.parse_stream_prefetch_eq [OF len, of 16 alloc b S Q] parse_stream_cut [OF len, of H Q] fr
    by (cases "foldO (\<lambda>bs. apply_verdict H (classify bs)) ?part Q") (simp_all add: profile_slice_def H_def)
  have t: "take ?k' fs = take ?k fs @ ?part" using k(1) by (metis append_take_drop_id less_imp_le min.absorb1 take_take)
  show ?case
  proof (cases "foldO (profile_slice H buf (map (byte_pos fs) ks)) [0..<n] (P, [])")
    case None
    then have "foldO (\<lambda>bs. apply_verdict H (classify bs)) (take ?k fs) P = None" using Suc by simp
    then show ?thesis using None by (subst t) (simp add: foldO_append)
  next
    case (Some r)
    obtain Q ms where r: "r = (Q, ms)" by fastforce
    then have "foldO (\<lambda>bs. apply_verdict H (classify bs)) (take ?k fs) P = Some Q" using Suc Some by simp
    then show ?thesis using Some r
      by (subst t, cases "foldO (\<lambda>bs. apply_verdict H (classify bs)) ?part Q") (simp_all add: foldO_append slice)
  qed
qed

lemma byte_pos_less:
  assumes "k < k'" "k' \<le> length fs"
  shows "byte_pos fs k < byte_pos fs k'"
proof -
  have "byte_pos fs k < byte_pos fs (Suc k)" using assms by (simp add: byte_pos_Suc framed_def)
  also have "\<dots> \<le> byte_pos fs k'" by (rule byte_slice(1) [OF refl]) (use assms in auto)
  finally show ?thesis .
qed

lemma le_last: "sorted_wrt (<) xs \<Longrightarrow> k \<in> set xs \<Longrightarrow> k \<le> last (xs :: nat list)"
proof (induction xs)
  case (Cons x xs)
  then show ?case using last_in_set [of xs] by (cases "xs = []") (auto intro: less_imp_le)
qed simp

lemma profile_cuts_eq:
  assumes "frames buf = (fs, rest)" "\<forall>f \<in> set fs. 11 \<le> length f" "0 < slice_msgs"
  shows "\<exists>ks last'. profile_cuts buf slice_msgs = Some (map (byte_pos fs) (0 # ks), last') \<and> sorted_wrt (<) (0 # ks) \<and>
    (\<forall>k \<in> set ks. k \<le> length fs) \<and> last (0 # ks) = length fs"
proof -
  obtain ts ks lt where p: "profile_from buf slice_msgs 0 0 0 [0] [] = Some (byte_pos fs (length fs), ts, [0] @ map (byte_pos fs) ks, lt)"
    "sorted_wrt (<) (0 # ks)" "\<forall>k \<in> set ks. k \<le> length fs"
    using profile_from_eq [OF assms, of 0 0 "[0]" "[]"] by auto
  have l: "last ([0] @ map (byte_pos fs) ks) = byte_pos fs (last (0 # ks))" by (simp add: last_map)
  have le: "last (0 # ks) \<le> length fs" using p(3) by simp
  show ?thesis
  proof (cases "last (0 # ks) = length fs")
    case True
    have "profile_cuts buf slice_msgs = Some ([0] @ map (byte_pos fs) ks, lt)"
      unfolding profile_cuts_def p(1) by (simp only: bind.bind_lunit prod.case l True if_False simp_thms)
    then show ?thesis using True p(2,3) by (intro exI [of _ ks] exI [of _ lt]) simp
  next
    case False
    then have ne: "last ([0] @ map (byte_pos fs) ks) \<noteq> byte_pos fs (length fs)" using byte_pos_less [of "last (0 # ks)" "length fs" fs] le unfolding l by simp
    have "k < length fs" if "k \<in> set (0 # ks)" for k
    proof -
      have "k \<le> last (0 # ks)" by (rule le_last [OF p(2) that])
      then show ?thesis using False le by linarith
    qed
    then have "sorted_wrt (<) ((0 # ks) @ [length fs])" using p(2) unfolding sorted_wrt_append by simp
    moreover have "profile_cuts buf slice_msgs = Some (([0] @ map (byte_pos fs) ks) @ [byte_pos fs (length fs)], lt @ [ts])"
      unfolding profile_cuts_def p(1) using ne by (simp only: bind.bind_lunit prod.case if_True simp_thms not_False_eq_True)
    moreover have "\<forall>k \<in> set (ks @ [length fs]). k \<le> length fs" "last (0 # (ks @ [length fs])) = length fs" using p(3) by simp_all
    ultimately show ?thesis by (intro exI [of _ "ks @ [length fs]"] exI [of _ "lt @ [ts]"]) simp
  qed
qed

section \<open>Properties\<close>

text \<open>
  C38. The two walks of \<^verbatim>\<open>run_parseritch\<close> over any file, one that decodes every message and one that only checks the records, end, count the same
  messages and fold them into the same checksum.
\<close>

theorem run_modes_agree:
  "\<exists>n v used. run_parse buf = Some (n, v, used) \<and> run_frames buf = Some (n, v) \<and> used + length (snd (frames buf)) = length buf"
proof -
  obtain P off where p: "parse_stream fold_handler buf (length buf) (new_parser 0) = Some (P, off)"
    using parse_stream_returns [where I = "\<lambda>_. True" and H = fold_handler and P = "new_parser 0" and buf = buf, OF order_refl] by (auto simp: fold_handler_def)
  obtain rs e where r: "recs buf (length buf) 0 = (rs, e)" by fastforce
  have f: "foldO (\<lambda>(p, n). parse fold_handler buf p n) rs (new_parser 0) = Some P"
    using p by (auto simp: parse_stream_eq r bind_eq_Some_conv)
  have b: "\<forall>(p, n) \<in> set rs. p + n \<le> length buf" using recs_bounds [OF r] by auto
  obtain fr where fr: "for_each_frame buf (length buf) (fold_frame buf) (Some 0) = Some (fr, Some (handler_state P))"
    "messages (stats P) = fs_frames fr"
    using for_each_frame_agrees [OF order_refl p, of "fold_frame buf" "Some 0"] fold_frames_parse [OF b f] r
    by (auto simp: new_parser_def no_stats_def)
  have "off + length (snd (frames buf)) = length buf"
    using p parse_stream_cut [of "length buf" buf fold_handler "new_parser 0"] frames_partition [of buf] 
    by (cases "frames buf") (auto simp: bind_eq_Some_conv)
  then show ?thesis using p fr by (simp add: run_parse_def run_frames_def)
qed

text \<open>
  A profile of a session parses what one parse of the whole file does, whatever the size of the slices, and the counts per slice are of as many
  slices as there are times.
\<close>

theorem session_profile_whole:
  assumes "frames buf = (fs, rest)" "\<forall>f \<in> set fs. 11 \<le> length f" "0 < slice_msgs"
  shows "map_option fst (session_profile (bb_handler alloc b S) buf slice_msgs P) =
    map_option fst (parse_stream (bb_handler alloc b S) buf (length buf) P)"
proof -
  let ?H = "bb_handler alloc b S"
  obtain ks last' where c: "profile_cuts buf slice_msgs = Some (map (byte_pos fs) (0 # ks), last')" "sorted_wrt (<) (0 # ks)"
    "\<forall>k \<in> set ks. k \<le> length fs" "last (0 # ks) = length fs" using profile_cuts_eq [OF assms] by blast
  have "(0 # ks) ! length ks = length fs" using c(4) by (simp only: last_conv_nth list.distinct(2) simp_thms) simp
  then have s: "map_option fst (foldO (profile_slice ?H buf (map (byte_pos fs) (0 # ks))) [0..<length ks] (P, [])) =
      foldO (\<lambda>bs. apply_verdict ?H (classify bs)) fs P"
    using profile_slices_parse [OF assms(1) c(2), of "length ks" alloc b S P] c(3) by simp
  have "session_profile ?H buf slice_msgs P =
      map_option (\<lambda>(P', msgs). (P', msgs, last')) (foldO (profile_slice ?H buf (map (byte_pos fs) (0 # ks))) [0..<length ks] (P, []))"
    by (simp add: session_profile_def c(1) map_option_case split: option.split)
  then have "map_option fst (session_profile ?H buf slice_msgs P) = foldO (\<lambda>bs. apply_verdict ?H (classify bs)) fs P"
    unfolding s [symmetric] by (simp add: option.map_comp comp_def case_prod_beta)
  moreover have "map_option fst (parse_stream ?H buf (length buf) P) = foldO (\<lambda>bs. apply_verdict ?H (classify bs)) fs P"
    using parse_stream_cut [of "length buf" buf ?H P] assms(1)
    by (cases "foldO (\<lambda>bs. apply_verdict ?H (classify bs)) fs P") simp_all
  ultimately show ?thesis by simp
qed

end
