(* ===== verification/Synth_Tool.thy ===== *)
theory Synth_Tool
  imports Synthetic_Session File_Slice
begin

text \<open>
  The program that writes a generated session to a file (\<^verbatim>\<open>tools/itch_synth_main.cpp\<close>).
\<close>

section \<open>Options\<close>

definition synth_config :: feed_config where
  "synth_config = \<lparr>cfg_symbols = 1024, cfg_events = 5000000, cfg_initial_orders = 64, cfg_zipf_s = 11 / 10, cfg_depth_p = 35 / 100, cfg_seed = 0x17C45EED\<rparr>"

text \<open>Pairs of an option and its value; what is left over at the end is ignored. The number of symbols is cut to 32 bits.\<close>

fun synth_opts :: "string list \<Rightarrow> feed_config \<Rightarrow> int + feed_config" where
  "synth_opts (opt # v # rest) c =
     (if opt = ''--events'' then synth_opts rest (c\<lparr>cfg_events := unat (strtoull v)\<rparr>)
      else if opt = ''--symbols'' then synth_opts rest (c\<lparr>cfg_symbols := unat (ucast (strtoull v) :: u32)\<rparr>)
      else if opt = ''--seed'' then synth_opts rest (c\<lparr>cfg_seed := strtoull v\<rparr>)
      else Inl 2)"
| "synth_opts _ c = Inr c"

section \<open>main\<close>

text \<open>The arguments are those after the program's name. Whether the file can be opened and written is a parameter; the result is the exit code or what was written.\<close>

definition synth_main :: "'g rng_ops \<Rightarrow> bool \<Rightarrow> bool \<Rightarrow> string list \<Rightarrow> (int + string \<times> u8 list \<times> u64) option" where
  "synth_main R can_open can_write args =
     (if args = [] then Some (Inl 2)
      else if hd args = ''--help'' then Some (Inl 0)
      else case synth_opts (tl args) synth_config of
        Inl code \<Rightarrow> Some (Inl code)
      | Inr c \<Rightarrow>
          if cfg_symbols c = 0 \<or> 65535 < cfg_symbols c then Some (Inl 2)
          else do {
            (bytes, F) \<leftarrow> build_feed c R (new_feed c R);
            Some (if \<not> can_open \<or> \<not> can_write then Inl 1 else Inr (hd args, bytes, sf_messages F)) })"

lemma synth_opts_orders: "synth_opts opts c = Inr c' \<Longrightarrow> cfg_initial_orders c' = cfg_initial_orders c"
  by (induction opts c rule: synth_opts.induct) (auto split: if_splits)

text \<open>
  For any options that the program takes, with fewer than \<open>2 ^ 31\<close> events: it refuses a number of symbols outside 1 to 65535, or it ends with a self-consistent
  session of as many messages as it prints, which it writes if the file can be written.
\<close>

theorem synth_writes_session:
  assumes "draws_in_range R" "args \<noteq> []" "hd args \<noteq> ''--help''" "synth_opts (tl args) synth_config = Inr c" "cfg_events c < 2 ^ 31"
  shows "if cfg_symbols c = 0 \<or> 65535 < cfg_symbols c then synth_main R can_open can_write args = Some (Inl 2)
    else \<exists>ms. synth_main R can_open can_write args =
        Some (if can_open \<and> can_write then Inr (hd args, concat (map (\<lambda>m. framed (wire m)) ms), of_nat (length ms)) else Inl 1) \<and>
      list_all wf_message ms \<and> consistent_all (msg_events ms) Map.empty \<and> live_after ms = Map.empty"
proof (cases "cfg_symbols c = 0 \<or> 65535 < cfg_symbols c")
  case True
  then show ?thesis using assms(2-4) by (simp add: synth_main_def)
next
  case False
  have "cfg_initial_orders c = 64" using synth_opts_orders [OF assms(4)] by (simp add: synth_config_def)
  then have "cfg_symbols c * cfg_initial_orders c + cfg_events c < 2 ^ 32" using False assms(5) by simp
  from build_feed_runs [OF assms(1) _ _ this] False obtain F' F9 ms where b: "build_feed c R (new_feed c R) = Some (sf_out F9, F')"
    "F' = F9\<lparr>sf_out := []\<rparr>" "feed_inv (cfg_symbols c) (cfg_symbols c * cfg_initial_orders c + cfg_events c) (2 ^ 37) ms F9" "live_after ms = Map.empty"
    by auto
  have m: "sf_out F9 = concat (map (\<lambda>m. framed (wire m)) ms)" "list_all wf_message ms" "sf_messages F' = of_nat (length ms)"
    "consistent_all (msg_events ms) Map.empty" using b(2,3) by (simp_all add: feed_inv_def)
  have "synth_main R can_open can_write args =
      Some (if can_open \<and> can_write then Inr (hd args, concat (map (\<lambda>m. framed (wire m)) ms), of_nat (length ms)) else Inl 1)"
    using assms(2-4) False by (simp add: synth_main_def b(1) m(1,3))
  with m(2,4) b(4) have "\<exists>ms. synth_main R can_open can_write args =
      Some (if can_open \<and> can_write then Inr (hd args, concat (map (\<lambda>m. framed (wire m)) ms), of_nat (length ms)) else Inl 1) \<and>
      list_all wf_message ms \<and> consistent_all (msg_events ms) Map.empty \<and> live_after ms = Map.empty" by (intro exI [of _ ms] conjI)
  then show ?thesis using False by simp
qed

theorem synth_writes_session_witness:
  "\<exists>ms. synth_main sample_draws True True [''out'', ''--symbols'', ''4294967297'', ''--events'', ''5''] =
      Some (Inr (''out'', concat (map (\<lambda>m. framed (wire m)) ms), of_nat (length ms))) \<and> consistent_all (msg_events ms) Map.empty"
proof -
  have v: "strtoull ''4294967297'' = 4294967297" "strtoull ''5'' = 5" by (simp_all add: strtoull_def Let_def is_space_def is_digit_def)
  have o: "synth_opts (tl [''out'', ''--symbols'', ''4294967297'', ''--events'', ''5'']) synth_config = Inr (synth_config\<lparr>cfg_symbols := 1, cfg_events := 5\<rparr>)"
    by (simp add: v)
  have c: "cfg_events (synth_config\<lparr>cfg_symbols := 1, cfg_events := 5\<rparr>) < 2 ^ 31" by simp
  from synth_writes_session [OF sample_draws_range _ _ o c, of True True] show ?thesis by auto
qed

end
