(* ===== verification/Kernel_Benchmarks.thy ===== *)
theory Kernel_Benchmarks
  imports Legacy_Table Add_Order_Decode Engine_Memory
begin

text \<open>
  The benchmarks of the kernels (\<^verbatim>\<open>bench/bm_kernels.cpp\<close>). Each one runs every variant of a kernel over the same data and adds up what it returns; that the variants do the
  same work means that the sums agree, and that no lookup fails or reads outside its data. The random draws are parameters: \<open>near j\<close> and \<open>draw j\<close> are the
  draw number \<open>j\<close>, \<open>sh\<close> is a shuffle.
\<close>

section \<open>Level search\<close>

datatype dist = Near_top | Uniform

record level_fixture =
  lf_keys :: "u32 list"
  lf_queries :: "u32 list"

text \<open>Keys behind the depth are padding.\<close>

definition level_keys :: "u32 \<Rightarrow> u32 list" where
  "level_keys depth = map (\<lambda>i. if i < unat depth then 1000000 + 100 * of_nat i else 0) [0..<max (unat depth) kLevelSearchPad + 8]"

text \<open>A depth of 0 has no top.\<close>

definition level_query :: "u32 list \<Rightarrow> u32 \<Rightarrow> dist \<Rightarrow> (nat \<Rightarrow> u32) \<Rightarrow> (nat \<Rightarrow> u32) \<Rightarrow> nat \<Rightarrow> u32 option" where
  "level_query keys depth d near draw j =
     (if depth = 0 \<and> d = Uniform then None
      else let from_top = min (case d of Near_top \<Rightarrow> near j | Uniform \<Rightarrow> draw j mod depth) (depth - 1)
           in key_at keys (unat (depth - 1 - from_top)))"

definition make_levels :: "u32 \<Rightarrow> dist \<Rightarrow> (nat \<Rightarrow> u32) \<Rightarrow> (nat \<Rightarrow> u32) \<Rightarrow> level_fixture option" where
  "make_levels depth d near draw =
     (let keys = level_keys depth
      in do {
        queries \<leftarrow> those (map (level_query keys depth d near draw) [0..<2 ^ 14]);
        Some \<lparr>lf_keys = keys, lf_queries = queries\<rparr> })"

definition bm_level_search ::
  "(u32 list \<Rightarrow> nat \<Rightarrow> u32 \<Rightarrow> nat option) \<Rightarrow> u32 \<Rightarrow> dist \<Rightarrow> (nat \<Rightarrow> u32) \<Rightarrow> (nat \<Rightarrow> u32) \<Rightarrow> nat \<Rightarrow> u64 option" where
  "bm_level_search Fn depth d near draw iterations = do {
     f \<leftarrow> make_levels depth d near draw;
     let m = length (lf_queries f) - 1;
     foldO (\<lambda>i sum. do {
         q \<leftarrow> elem_at (lf_queries f) (i AND m);
         r \<leftarrow> Fn (lf_keys f) (unat depth) q;
         Some (sum + of_nat r) }) [0..<iterations] 0 }"

text \<open>The variants, with any number of linear chunks.\<close>

definition level_variants :: "nat \<Rightarrow> (u32 list \<Rightarrow> nat \<Rightarrow> u32 \<Rightarrow> nat option) list" where
  "level_variants Chunks =
    [\<lambda>keys n key. Some (lower_bound keys n key), lower_bound_branchless, scalar_lower_bound_from_back Chunks,
     sse2_lower_bound_from_back Chunks, sse41_lower_bound_from_back Chunks, avx2_lower_bound_from_back Chunks]"

text \<open>The sweep over the number of linear chunks, with the best search of the build.\<close>

definition bm_level_search_chunks :: "bool \<Rightarrow> bool \<Rightarrow> nat \<Rightarrow> u32 \<Rightarrow> dist \<Rightarrow> (nat \<Rightarrow> u32) \<Rightarrow> (nat \<Rightarrow> u32) \<Rightarrow> nat \<Rightarrow> u64 option" where
  "bm_level_search_chunks have_avx2 have_sse41 Chunks =
     bm_level_search (if have_avx2 then avx2_lower_bound_from_back Chunks
       else if have_sse41 then sse41_lower_bound_from_back Chunks else sse2_lower_bound_from_back Chunks)"

section \<open>Order map\<close>

fun make_refs_from :: "(nat \<Rightarrow> u64) \<Rightarrow> u64 \<Rightarrow> nat \<Rightarrow> nat \<Rightarrow> u64 list" where
  "make_refs_from draw r i 0 = []"
| "make_refs_from draw r i (Suc n) = (let r' = r + (1 + draw i mod 4) in r' # make_refs_from draw r' (i + 1) n)"

definition make_refs :: "(nat \<Rightarrow> u64) \<Rightarrow> nat \<Rightarrow> u64 list" where
  "make_refs draw n = make_refs_from draw 1000 0 n"

definition bit_floor :: "nat \<Rightarrow> nat" where
  "bit_floor n = (if n = 0 then 0 else 2 ^ (bit_width n - 1))"

definition shuffled :: "(u64 list \<Rightarrow> u64 list) \<Rightarrow> u64 list \<Rightarrow> u64 list" where
  "shuffled sh v = take (bit_floor (length v)) (sh v)"

text \<open>The loop that all the lookups share: one lookup per iteration, over the queries in turn.\<close>

definition lookup_loop :: "(u64 \<Rightarrow> u64 option) \<Rightarrow> u64 list \<Rightarrow> nat \<Rightarrow> u64 option" where
  "lookup_loop lookup q iterations =
     foldO (\<lambda>i sum. do { ref \<leftarrow> elem_at q (i AND (length q - 1)); v \<leftarrow> lookup ref; Some (sum + v) }) [0..<iterations] 0"

datatype legacy = kAvx2 | kScalar

definition bm_map_find_legacy ::
  "bool \<Rightarrow> legacy \<Rightarrow> (nat \<Rightarrow> u64) \<Rightarrow> (u64 list \<Rightarrow> u64 list) \<Rightarrow> nat \<Rightarrow> nat \<Rightarrow> u64 option" where
  "bm_map_find_legacy have_avx2 L draw sh n iterations = do {
     let rs = make_refs draw n;
     t \<leftarrow> foldO (\<lambda>r t. quad_insert t r) rs (new_table (countr_zero (of_nat (bit_ceil (2 * n)))));
     lookup_loop (\<lambda>ref. do {
         s \<leftarrow> (if have_avx2 \<and> L = kAvx2 then find_avx2 t ref else find_scalar t ref);
         e \<leftarrow> quad_entry t s;
         Some (ucast (qe_qty e)) }) (shuffled sh rs) iterations }"

text \<open>\<open>map.insert(r)->shares = r\<close>; a lookup that finds nothing is a null pointer that is read.\<close>

definition insert_shares :: "(nat \<Rightarrow> bool) \<Rightarrow> group_ops \<Rightarrow> u64 \<Rightarrow> omap \<Rightarrow> omap option" where
  "insert_shares alloc G r m = do {
     (i, m') \<leftarrow> om_insert alloc G m r;
     Some (om_put m' i ((om_get m' i)\<lparr>o_shares := ucast r\<rparr>)) }"

definition bm_map_find ::
  "(nat \<Rightarrow> bool) \<Rightarrow> group_ops \<Rightarrow> (nat \<Rightarrow> u64) \<Rightarrow> (u64 list \<Rightarrow> u64 list) \<Rightarrow> nat \<Rightarrow> nat \<Rightarrow> u64 option" where
  "bm_map_find alloc G draw sh n iterations = do {
     let rs = make_refs draw n;
     m0 \<leftarrow> new_omap alloc G n;
     m \<leftarrow> foldO (insert_shares alloc G) rs m0;
     lookup_loop (\<lambda>ref. do {
         hit \<leftarrow> om_find G m ref;
         i \<leftarrow> hit;
         Some (ucast (o_shares (om_get m i))) }) (shuffled sh rs) iterations }"

text \<open>The absent references of \<open>BM_MapFindMiss\<close>: any 64 bits plus \<open>2 ^ 50\<close>. The loop counts what it finds.\<close>

definition miss_queries :: "(nat \<Rightarrow> u64) \<Rightarrow> u64 list" where
  "miss_queries draw = map (\<lambda>j. push_bit 50 1 + draw j) [0..<2 ^ 16]"

definition bm_map_find_miss ::
  "(nat \<Rightarrow> bool) \<Rightarrow> group_ops \<Rightarrow> (nat \<Rightarrow> u64) \<Rightarrow> (nat \<Rightarrow> u64) \<Rightarrow> nat \<Rightarrow> nat \<Rightarrow> u64 option" where
  "bm_map_find_miss alloc G draw miss n iterations = do {
     m0 \<leftarrow> new_omap alloc G n;
     m \<leftarrow> foldO (\<lambda>r m. do { (_, m') \<leftarrow> om_insert alloc G m r; Some m' }) (make_refs draw n) m0;
     lookup_loop (\<lambda>ref. do { hit \<leftarrow> om_find G m ref; Some (if hit \<noteq> None then 1 else 0) }) (miss_queries miss) iterations }"

text \<open>\<open>BM_MapChurn\<close>: the oldest reference out, a new one in.\<close>

record churn =
  ch_map :: omap
  ch_ring :: "u64 list"
  ch_next :: u64
  ch_head :: nat

definition churn_start :: "(nat \<Rightarrow> bool) \<Rightarrow> group_ops \<Rightarrow> nat \<Rightarrow> churn option" where
  "churn_start alloc G n = do {
     m0 \<leftarrow> new_omap alloc G n;
     m \<leftarrow> foldO (\<lambda>k m. do { (_, m') \<leftarrow> om_insert alloc G m (of_nat k + 1); Some m' }) [0..<n] m0;
     Some \<lparr>ch_map = m, ch_ring = map (\<lambda>k. of_nat k + 1) [0..<n], ch_next = of_nat n + 1, ch_head = 0\<rparr> }"

definition churn_step :: "(nat \<Rightarrow> bool) \<Rightarrow> group_ops \<Rightarrow> nat \<Rightarrow> churn \<Rightarrow> churn option" where
  "churn_step alloc G n c = do {
     oldest \<leftarrow> elem_at (ch_ring c) (ch_head c);
     hit \<leftarrow> om_find G (ch_map c) oldest;
     i \<leftarrow> hit;
     m1 \<leftarrow> om_erase G (ch_map c) i;
     (_, m2) \<leftarrow> om_insert alloc G m1 (ch_next c);
     Some (c\<lparr>ch_map := m2, ch_ring := (ch_ring c)[ch_head c := ch_next c], ch_next := ch_next c + 1,
       ch_head := (if ch_head c + 1 = n then 0 else ch_head c + 1)\<rparr>) }"

definition bm_map_churn :: "(nat \<Rightarrow> bool) \<Rightarrow> group_ops \<Rightarrow> nat \<Rightarrow> nat \<Rightarrow> churn option" where
  "bm_map_churn alloc G n iterations = do {
     c \<leftarrow> churn_start alloc G n;
     foldO (\<lambda>_. churn_step alloc G n) [0..<iterations] c }"

section \<open>Decoding of Add Orders\<close>

definition kCount :: nat where "kCount = 4096"

text \<open>Random bytes, an \<open>A\<close> in front of every message.\<close>

definition add_order_corpus :: "(nat \<Rightarrow> u8) \<Rightarrow> mem" where
  "add_order_corpus byte =
     map (\<lambda>p. if p mod 36 = 0 \<and> p div 36 < kCount then of_char CHR ''A'' else byte p) [0..<kCount * 36 + kAddOrderOverread]"

definition fold_fields :: "AddOrderFields \<Rightarrow> u64" where
  "fold_fields f = af_ref f XOR af_timestamp f XOR ucast (af_shares f) XOR ucast (af_price f) XOR ucast (af_locate f) XOR ucast (af_side f)"

definition bm_add_order_decode :: "(mem \<Rightarrow> nat \<Rightarrow> AddOrderFields option) \<Rightarrow> (nat \<Rightarrow> u8) \<Rightarrow> nat \<Rightarrow> u64 option" where
  "bm_add_order_decode Fn byte iterations =
     (let c = add_order_corpus byte in
      foldO (\<lambda>_. foldO (\<lambda>i acc. do { f \<leftarrow> Fn c (i * 36); Some (acc + fold_fields f) }) [0..<kCount]) [0..<iterations] 0)"

definition bm_add_order_decode_generic :: "(nat \<Rightarrow> u8) \<Rightarrow> nat \<Rightarrow> u64 option" where
  "bm_add_order_decode_generic byte iterations =
     (let c = add_order_corpus byte in
      foldO (\<lambda>_. foldO (\<lambda>i acc. do {
          msg \<leftarrow> decode TAddOrder c (i * 36);
          case msg of AddOrder m \<Rightarrow> Some (acc + (ao_ref m XOR timestamp m XOR ucast (ao_shares m) XOR ucast (ao_price m) XOR ucast (locate m) XOR ucast (ao_side m)))
          | _ \<Rightarrow> None }) [0..<kCount]) [0..<iterations] 0)"

section \<open>The searches add up to the same\<close>

text \<open>A loop whose steps all end computes the fold of their results.\<close>

lemma foldO_fun: "(\<And>x s. x \<in> set xs \<Longrightarrow> F x s = Some (G x s)) \<Longrightarrow> foldO F xs s = Some (fold G xs s)"
  by (induction xs arbitrary: s) simp_all

lemma those_SomeI: "(\<And>x. x \<in> set xs \<Longrightarrow> f x = Some (g x)) \<Longrightarrow> those (map f xs) = Some (map g xs)"
  by (induction xs) simp_all

lemma elem_at_and: "xs \<noteq> [] \<Longrightarrow> \<exists>x. elem_at xs (i AND (length xs - 1)) = Some x \<and> x \<in> set xs"
proof -
  assume ne: "xs \<noteq> []"
  have "int (i AND (length xs - 1)) \<le> int (length xs - 1)" unfolding of_nat_and_eq by (rule AND_upper2) simp
  then show ?thesis using ne by (intro exI [of _ "xs ! (i AND (length xs - 1))"]) (simp add: elem_at_def Suc_le_lessD le_less_trans)
qed

lemma level_keys_padded [simp]: "kLevelSearchPad \<le> length (level_keys depth)"
  by (simp add: level_keys_def)

lemma level_keys_sorted:
  assumes "unat depth \<le> 42939672"
  shows "sorted_keys (level_keys depth) (unat depth)"
proof -
  have u: "unat (1000000 + 100 * of_nat i :: u32) = 1000000 + 100 * i" if "i < unat depth" for i
    using that assms by (simp add: unat_word_ariths unat_of_nat)
  have "take (unat depth) (level_keys depth) = map (\<lambda>i. 1000000 + 100 * of_nat i :: u32) [0..<unat depth]"
    by (intro nth_equalityI) (auto simp: level_keys_def)
  moreover have "sorted (map (\<lambda>i. 1000000 + 100 * of_nat i :: u32) [0..<unat depth])"
    by (simp add: sorted_iff_nth_mono word_le_nat_alt u)
  ultimately show ?thesis by (simp add: sorted_keys_def) (simp add: level_keys_def)
qed

lemma make_levels_defined:
  assumes "depth \<noteq> 0"
  shows "\<exists>qs. make_levels depth d near draw =
      Some \<lparr>lf_keys = level_keys depth, lf_queries = qs\<rparr> \<and> qs \<noteq> []"
proof -
  let ?keys = "level_keys depth"
  have q: "\<exists>k. level_query ?keys depth d near draw j = Some k" for j
  proof -
    let ?top = "min (case d of Near_top \<Rightarrow> near j | Uniform \<Rightarrow> draw j mod depth) (depth - 1)"
    have "depth - 1 - ?top \<le> depth - 1" by (rule word_sub_le) simp
    then have "unat (depth - 1 - ?top) \<le> unat depth - 1" using assms by (simp add: word_le_nat_alt unat_minus_one)
    moreover have "0 < unat depth" using assms by (simp add: unat_gt_0)
    ultimately have "unat (depth - 1 - ?top) < unat depth" by linarith
    then have "unat (depth - 1 - ?top) < length ?keys" by (simp add: level_keys_def)
    then show ?thesis using assms by (simp add: level_query_def key_at_def Let_def)
  qed
  then obtain g where "level_query ?keys depth d near draw j = Some (g j)" for j by metis
  then show ?thesis by (intro exI [of _ "map g [0..<2 ^ 14]"]) (simp add: make_levels_def those_SomeI [of _ _ g])
qed

lemma level_benchmark_runs:
  assumes "depth \<noteq> 0" "unat depth \<le> 42939672"
  shows "\<exists>s. \<forall>Chunks. \<forall>Fn \<in> set (level_variants Chunks). bm_level_search Fn depth d near draw iterations = Some s"
proof -
  let ?keys = "level_keys depth"
  obtain qs where f: "make_levels depth d near draw = Some \<lparr>lf_keys = ?keys, lf_queries = qs\<rparr>" "qs \<noteq> []"
    using make_levels_defined [OF assms(1)] by blast
  have eq: "Fn ?keys (unat depth) key = Some (lower_bound ?keys (unat depth) key)" if "Fn \<in> set (level_variants Chunks)" for Chunks Fn key
    using that level_keys_sorted [OF assms(2)]
    by (auto simp: level_variants_def scalar_lower_bound_eq sse2_lower_bound_eq sse41_lower_bound_eq avx2_lower_bound_eq lower_bound_branchless_eq)
  obtain q where q: "elem_at qs (i AND (length qs - 1)) = Some (q i)" for i using elem_at_and [OF f(2)] by metis
  have "bm_level_search Fn depth d near draw iterations =
      Some (fold (\<lambda>i sum. sum + of_nat (lower_bound (level_keys depth) (unat depth) (q i))) [0..<iterations] 0)"
    if "Fn \<in> set (level_variants Chunks)" for Chunks Fn
    unfolding bm_level_search_def f(1) bind.bind_lunit Let_def level_fixture.simps by (intro foldO_fun) (simp add: q [simplified] eq [OF that])
  then show ?thesis by blast
qed

section \<open>The decoders add up to the same\<close>

lemma decode_loop:
  assumes "\<And>i. i < kCount \<Longrightarrow> Fn (add_order_corpus byte) (i * 36) = Some (g i)"
  shows "bm_add_order_decode Fn byte iterations = Some (fold (\<lambda>_ acc. fold (\<lambda>i acc. acc + fold_fields (g i)) [0..<kCount] acc) [0..<iterations] 0)"
  unfolding bm_add_order_decode_def Let_def by (intro foldO_fun) (simp add: assms)

lemma corpus_room: "i < kCount \<Longrightarrow> i * 36 + 48 \<le> length (add_order_corpus byte)"
  by (simp add: add_order_corpus_def kCount_def kAddOrderOverread_def)

lemma decode_benchmarks_run:
  "\<exists>s. (\<forall>Fn \<in> {scalar_decode_add_order, ssse3_decode_add_order, avx2_decode_add_order}. bm_add_order_decode Fn byte iterations = Some s) \<and>
    bm_add_order_decode_generic byte iterations = Some s"
proof -
  let ?c = "add_order_corpus byte"
  have "\<exists>a. decode TAddOrder ?c (i * 36) = Some (AddOrder a) \<and> scalar_decode_add_order ?c (i * 36) = Some (fields_of_message a)" if "i < kCount" for i
    using corpus_room [OF that, of byte] by (intro scalar_decode_message) simp
  then obtain a where a: "decode TAddOrder ?c (i * 36) = Some (AddOrder (a i))" "scalar_decode_add_order ?c (i * 36) = Some (fields_of_message (a i))"
    if "i < kCount" for i by metis
  let ?s = "fold (\<lambda>_ acc. fold (\<lambda>i acc. acc + fold_fields (fields_of_message (a i))) [0..<kCount] acc) [0..<iterations] 0"
  have "Fn ?c (i * 36) = Some (fields_of_message (a i))"
    if "Fn \<in> {scalar_decode_add_order, ssse3_decode_add_order, avx2_decode_add_order}" "i < kCount" for Fn i
    using that(1) a(2) [OF that(2)] corpus_room [OF that(2), of byte] by (auto simp: ssse3_decode_eq avx2_decode_eq scalar_decode_eq)
  then have "\<forall>Fn \<in> {scalar_decode_add_order, ssse3_decode_add_order, avx2_decode_add_order}. bm_add_order_decode Fn byte iterations = Some ?s"
    by (intro ballI decode_loop) blast
  moreover have "bm_add_order_decode_generic byte iterations = Some ?s"
    unfolding bm_add_order_decode_generic_def Let_def by (intro foldO_fun) (simp add: a fold_fields_def fields_of_message_def)
  ultimately show ?thesis by blast
qed

section \<open>The references of the map benchmarks\<close>

lemma refs_from:
  "unat r + 4 * n < 2 ^ 64 \<Longrightarrow> length (make_refs_from draw r i n) = n \<and> sorted_wrt (<) (r # make_refs_from draw r i n) \<and>
    (\<forall>x \<in> set (make_refs_from draw r i n). unat x \<le> unat r + 4 * n)"
proof (induction n arbitrary: r i)
  case (Suc n)
  define r' where "r' = r + (1 + draw i mod 4)"
  have "unat (draw i mod 4) < 4" by (simp add: unat_mod)
  then have "unat (1 + draw i mod 4) = 1 + unat (draw i mod 4)" by (simp add: unat_word_ariths)
  then have r': "unat r' = unat r + 1 + unat (draw i mod 4)" "unat r' \<le> unat r + 4" "r < r'"
    using Suc.prems \<open>unat (draw i mod 4) < 4\<close> by (simp_all add: r'_def unat_word_ariths word_less_nat_alt)
  have "unat r' + 4 * n < 2 ^ 64" using Suc.prems r'(2) by simp
  note IH = Suc.IH [OF this, of "i + 1"]
  have e: "make_refs_from draw r i (Suc n) = r' # make_refs_from draw r' (i + 1) n" by (simp add: r'_def Let_def)
  show ?case unfolding e using IH r'(2,3) by (auto intro: less_trans)
qed simp

lemma make_refs_props:
  assumes "n \<le> 2 ^ 61"
  shows "length (make_refs draw n) = n" "distinct (make_refs draw n)" "\<forall>r \<in> set (make_refs draw n). order_ref r"
proof -
  have u: "unat (1000 :: u64) = 1000" by simp
  have "unat (1000 :: u64) + 4 * n < 2 ^ 64" using assms unfolding u by simp
  note p = refs_from [OF this, of draw 0]
  then show "length (make_refs draw n) = n" "distinct (make_refs draw n)"
    by (auto simp: make_refs_def strict_sorted_iff)
  show "\<forall>r \<in> set (make_refs draw n). order_ref r"
  proof
    fix r assume r: "r \<in> set (make_refs draw n)"
    then have "1000 < r" "unat r \<le> 1000 + 4 * n" using p unfolding make_refs_def u by auto
    then have "0 < unat r" "unat r < unat (- 1 :: u64)" using assms by (auto simp: word_less_nat_alt unsigned_minus_1_eq_mask mask_eq_exp_minus_1)
    then show "order_ref r" by (auto simp: order_ref_def kEmpty_def kTombstone_def)
  qed
qed

lemma shuffled_props:
  assumes "v \<noteq> []" "set (sh v) = set v"
  shows "shuffled sh v \<noteq> []" "set (shuffled sh v) \<subseteq> set v"
proof -
  have "sh v \<noteq> []" using assms by force
  then show "shuffled sh v \<noteq> []" using assms(1) by (simp add: shuffled_def bit_floor_def)
  show "set (shuffled sh v) \<subseteq> set v" using assms(2) by (auto simp: shuffled_def dest: in_set_takeD)
qed

lemma lookup_loop_sum:
  assumes "q \<noteq> []" "\<And>r. r \<in> set q \<Longrightarrow> lookup r = Some (g r)"
  shows "lookup_loop lookup q iterations = Some (fold (\<lambda>i sum. sum + g (q ! (i AND (length q - 1)))) [0..<iterations] 0)"
proof -
  have "elem_at q (i AND (length q - 1)) = Some (q ! (i AND (length q - 1)))" "q ! (i AND (length q - 1)) \<in> set q" for i
    using elem_at_and [OF assms(1), of i] by (auto simp: elem_at_def split: if_splits)
  then show ?thesis unfolding lookup_loop_def by (intro foldO_fun) (simp add: assms(2))
qed

section \<open>The maps find every reference\<close>

lemma insert_presized:
  assumes "om_inv (GroupBest b) m" "om_abs m r = None" "0 < growth_left m"
  shows "\<exists>i m'. om_insert alloc (GroupBest b) m r = Some (i, m') \<and> om_inv (GroupBest b) m' \<and> full m' i \<and> o_ref (om_get m' i) = r \<and>
    om_abs m' = (om_abs m)(r \<mapsto> om_get m' i) \<and> om_capacity m' = om_capacity m \<and> om_size m' = om_size m + 1 \<and> growth_left m \<le> growth_left m' + 1"
  using best_group.claim_spec [OF assms] assms(3) by (auto simp: om_insert_def numeral_2_eq_2 om_get_def)

lemma insert_all_shares:
  assumes "om_inv (GroupBest b) m" "length rs \<le> growth_left m" "distinct rs" "\<forall>r \<in> set rs. om_abs m r = None"
  shows "\<exists>m'. foldO (insert_shares alloc (GroupBest b)) rs m = Some m' \<and> om_inv (GroupBest b) m' \<and>
    (\<forall>r \<in> set rs. \<exists>ord. om_abs m' r = Some ord \<and> o_shares ord = ucast r) \<and> (\<forall>r. r \<notin> set rs \<longrightarrow> om_abs m' r = om_abs m r)"
  using assms
proof (induction rs arbitrary: m)
  case (Cons r rs)
  obtain i m1 where m1: "om_insert alloc (GroupBest b) m r = Some (i, m1)" "om_inv (GroupBest b) m1" "full m1 i" "o_ref (om_get m1 i) = r"
    "om_abs m1 = (om_abs m)(r \<mapsto> om_get m1 i)" "growth_left m \<le> growth_left m1 + 1"
    using insert_presized [OF Cons.prems(1), of r alloc] Cons.prems(2,4) by auto
  define ord where "ord = (om_get m1 i)\<lparr>o_shares := ucast r\<rparr>"
  define m2 where "m2 = om_put m1 i ord"
  have step: "insert_shares alloc (GroupBest b) r m = Some m2" by (simp add: insert_shares_def m1(1) m2_def ord_def)
  have m2: "om_inv (GroupBest b) m2" "om_abs m2 = (om_abs m)(r \<mapsto> ord)"
    using best_table.put_law [OF m1(2,3), of ord] m1(4,5) by (simp_all add: m2_def ord_def)
  have "growth_left m2 = growth_left m1" by (simp add: m2_def om_put_def)
  then have room: "length rs \<le> growth_left m2" using m1(6) Cons.prems(2) by simp
  have distinct: "distinct rs" and absent: "\<forall>r \<in> set rs. om_abs m2 r = None" using Cons.prems(3,4) m2(2) by auto
  obtain m' where m': "foldO (insert_shares alloc (GroupBest b)) rs m2 = Some m'" "om_inv (GroupBest b) m'"
    "\<forall>x \<in> set rs. \<exists>ord. om_abs m' x = Some ord \<and> o_shares ord = ucast x" "\<forall>x. x \<notin> set rs \<longrightarrow> om_abs m' x = om_abs m2 x"
    using Cons.IH [OF m2(1) room distinct] absent by blast
  have "o_shares ord = ucast r" by (simp add: ord_def)
  then show ?case using step m' m2(2) Cons.prems(3) by auto
qed simp

lemma bm_map_find_runs:
  assumes "0 < n" "n \<le> 2 ^ 61" "set (sh (make_refs draw n)) = set (make_refs draw n)" "new_omap alloc (GroupBest b) n = Some m0"
  defines "q \<equiv> shuffled sh (make_refs draw n)"
  shows "bm_map_find alloc (GroupBest b) draw sh n iterations =
    Some (fold (\<lambda>i sum. sum + ucast (ucast (q ! (i AND (length q - 1))) :: u32)) [0..<iterations] 0)"
proof -
  let ?rs = "make_refs draw n"
  note rs = make_refs_props [OF assms(2), of draw]
  have ne: "?rs \<noteq> []" using rs(1) assms(1) by auto
  note q = shuffled_props [of ?rs sh, OF ne assms(3), folded q_def]
  note m0 = new_omap_spec [OF assms(4)]
  obtain m where m: "foldO (insert_shares alloc (GroupBest b)) ?rs m0 = Some m" "om_inv (GroupBest b) m"
    "\<forall>r \<in> set ?rs. \<exists>ord. om_abs m r = Some ord \<and> o_shares ord = ucast r"
    using insert_all_shares [of b m0 ?rs alloc] m0 rs(1,2) by auto
  have "lookup_loop (\<lambda>ref. do { hit \<leftarrow> om_find (GroupBest b) m ref; i \<leftarrow> hit; Some (ucast (o_shares (om_get m i))) }) q iterations =
      Some (fold (\<lambda>i sum. sum + ucast (ucast (q ! (i AND (length q - 1))) :: u32)) [0..<iterations] 0)"
  proof (rule lookup_loop_sum [OF q(1)])
    fix r assume "r \<in> set q"
    then obtain ord where "om_abs m r = Some ord" "o_shares ord = ucast r" using m(3) q(2) by blast
    then show "do { hit \<leftarrow> om_find (GroupBest b) m r; i \<leftarrow> hit; Some (ucast (o_shares (om_get m i))) } = Some (ucast (ucast r :: u32))"
      using best_table.find_known [OF m(2)] by fastforce
  qed
  then show ?thesis by (simp add: bm_map_find_def assms(4) m(1) q_def Let_def)
qed

lemma bm_map_find_legacy_runs:
  assumes "2 \<le> n" "n \<le> 2 ^ 31" "set (sh (make_refs draw n)) = set (make_refs draw n)"
  defines "q \<equiv> shuffled sh (make_refs draw n)"
  shows "bm_map_find_legacy have_avx2 L draw sh n iterations =
    Some (fold (\<lambda>i sum. sum + ucast (ucast (q ! (i AND (length q - 1))) :: u32)) [0..<iterations] 0)"
proof -
  let ?rs = "make_refs draw n"
  have rs: "length ?rs = n" "\<forall>r \<in> set ?rs. order_ref r" using make_refs_props [of n draw] assms(2) by auto
  have ne: "?rs \<noteq> []" using rs(1) assms(1) by auto
  note q = shuffled_props [of ?rs sh, OF ne assms(3), folded q_def]
  define k where "k = bit_width (2 * n - 1)"
  have k: "bit_ceil (2 * n) = 2 ^ k" "k \<le> 32" using assms(1,2) bit_width_le [of "2 * n - 1" 32] by (simp_all add: bit_ceil_def k_def)
  have room: "2 * n \<le> 2 ^ k" using bit_ceil_ge [of "2 * n"] k(1) by simp
  have "2 \<le> k"
  proof (rule ccontr)
    assume "\<not> 2 \<le> k"
    then have "k \<le> 1" by simp
    then have "(2 :: nat) ^ k \<le> 2 ^ 1" by (intro power_increasing) simp_all
    then show False using room assms(1) by simp
  qed
  have log2: "countr_zero (of_nat (bit_ceil (2 * n))) = k" unfolding k(1) using k(2) by (intro best_group.countr_zero_power) simp
  have "used_slots (new_table k) = {}" by (auto simp: used_slots_def new_table_def order_ref_def)
  then obtain t where t: "foldO (\<lambda>r t. quad_insert t r) ?rs (new_table k) = Some t" "made k t" "set ?rs \<subseteq> set (refs t)"
    using insert_all_fits [OF made.new k(2) rs(2)] room rs(1) by auto
  have "lookup_loop (\<lambda>ref. do { s \<leftarrow> (if have_avx2 \<and> L = kAvx2 then find_avx2 t ref else find_scalar t ref); e \<leftarrow> quad_entry t s; Some (ucast (qe_qty e)) }) q iterations =
      Some (fold (\<lambda>i sum. sum + ucast (ucast (q ! (i AND (length q - 1))) :: u32)) [0..<iterations] 0)"
  proof (rule lookup_loop_sum [OF q(1)])
    fix r assume "r \<in> set q"
    then have "r \<in> set ?rs" using q(2) by blast
    then have "order_ref r" "r \<in> set (refs t)" using rs(2) t(3) by blast+
    then show "do { s \<leftarrow> (if have_avx2 \<and> L = kAvx2 then find_avx2 t r else find_scalar t r); e \<leftarrow> quad_entry t s; Some (ucast (qe_qty e)) } = Some (ucast (ucast r :: u32))"
      using finds_spec [OF t(2) \<open>2 \<le> k\<close> k(2), of r] by (auto simp: new_entry_def)
  qed
  then show ?thesis by (simp add: bm_map_find_legacy_def log2 t(1) q_def Let_def)
qed

lemma insert_all_presized:
  assumes "om_inv (GroupBest b) m" "length xs \<le> growth_left m" "distinct (map f xs)" "\<forall>x \<in> set xs. om_abs m (f x) = None"
  shows "\<exists>m'. foldO (\<lambda>x m. do { (_, m') \<leftarrow> om_insert alloc (GroupBest b) m (f x); Some m' }) xs m = Some m' \<and> om_inv (GroupBest b) m' \<and>
    dom (om_abs m') = dom (om_abs m) \<union> f ` set xs \<and> om_capacity m' = om_capacity m"
  using assms
proof (induction xs arbitrary: m)
  case (Cons x xs)
  obtain i m1 where m1: "om_insert alloc (GroupBest b) m (f x) = Some (i, m1)" "om_inv (GroupBest b) m1"
    "om_abs m1 = (om_abs m)(f x \<mapsto> om_get m1 i)" "om_capacity m1 = om_capacity m" "growth_left m \<le> growth_left m1 + 1"
    using insert_presized [OF Cons.prems(1), of "f x" alloc] Cons.prems(2,4) by auto
  have "f y \<noteq> f x" if "y \<in> set xs" for y using that Cons.prems(3) by (metis distinct.simps(2) image_eqI list.simps(9) set_map)
  then have "length xs \<le> growth_left m1" "distinct (map f xs)" "\<forall>y \<in> set xs. om_abs m1 (f y) = None"
    using m1(3,5) Cons.prems(2,3,4) by auto
  from Cons.IH [OF m1(2) this] show ?case using m1(1,3,4) by auto
qed simp

lemma bm_map_find_miss_counts:
  assumes "n \<le> 2 ^ 61" "new_omap alloc (GroupBest b) n = Some m0"
  shows "bm_map_find_miss alloc (GroupBest b) draw miss n iterations =
    Some (of_nat (length (filter (\<lambda>i. miss_queries miss ! (i AND 65535) \<in> set (make_refs draw n)) [0..<iterations])))"
proof -
  let ?rs = "make_refs draw n" and ?q = "miss_queries miss"
  note rs = make_refs_props [OF assms(1), of draw]
  note m0 = new_omap_spec [OF assms(2)]
  obtain m where m: "foldO (\<lambda>x m. do { (_, m') \<leftarrow> om_insert alloc (GroupBest b) m x; Some m' }) ?rs m0 = Some m" "om_inv (GroupBest b) m" "dom (om_abs m) = set ?rs"
    using insert_all_presized [of b m0 ?rs "\<lambda>x. x" alloc] m0 rs(1,2) by auto
  have q: "?q \<noteq> []" "length ?q - Suc 0 = 65535" by (simp_all add: miss_queries_def)
  have "lookup_loop (\<lambda>ref. do { hit \<leftarrow> om_find (GroupBest b) m ref; Some (if hit \<noteq> None then 1 else 0) }) ?q iterations =
      Some (fold (\<lambda>i sum. sum + (if ?q ! (i AND (length ?q - 1)) \<in> set ?rs then 1 else 0)) [0..<iterations] 0)"
  proof (rule lookup_loop_sum [OF q(1)])
    fix r
    show "do { hit \<leftarrow> om_find (GroupBest b) m r; Some (if hit \<noteq> None then 1 else 0) } = Some (if r \<in> set ?rs then 1 else 0)"
      using best_table.find_law [OF m(2), of r] by (auto simp flip: m(3))
  qed
  moreover have "fold (\<lambda>i sum. sum + (if P i then 1 else 0)) xs (s :: u64) = s + of_nat (length (filter P xs))" for P and xs :: "nat list" and s
    by (induction xs arbitrary: s) simp_all
  ultimately show ?thesis by (simp add: bm_map_find_miss_def assms(2) m(1) q(2) case_prod_beta)
qed

section \<open>The churn keeps the number of orders\<close>

definition churn_inv :: "isa \<Rightarrow> nat \<Rightarrow> nat \<Rightarrow> churn \<Rightarrow> bool" where
  "churn_inv b n j c \<longleftrightarrow> om_inv (GroupBest b) (ch_map c) \<and> om_capacity (ch_map c) \<le> 2 ^ 40 \<and>
     dom (om_abs (ch_map c)) = (\<lambda>k. of_nat (k + 1)) ` {j..<j + n} \<and>
     length (ch_ring c) = n \<and> (\<forall>k. j \<le> k \<longrightarrow> k < j + n \<longrightarrow> ch_ring c ! (k mod n) = of_nat (k + 1)) \<and>
     ch_next c = of_nat (j + n + 1) \<and> ch_head c = j mod n"

lemma of_nat_inj64: "a < 2 ^ 64 \<Longrightarrow> b < 2 ^ 64 \<Longrightarrow> (of_nat a :: u64) = of_nat b \<longleftrightarrow> a = b"
  by (simp add: word_unat_eq_iff unat_of_nat)

lemma ring_window: "j \<le> k \<Longrightarrow> k < j + n \<Longrightarrow> k mod n = j mod n \<Longrightarrow> k = (j :: nat)"
  by (metis add_diff_cancel_left' le_add_diff_inverse mod_eq_dvd_iff_nat nat_dvd_not_less add_less_cancel_left gr0I add.right_neutral)

lemma churn_step_inv:
  assumes "churn_inv b n j c" "0 < n" "n < 2 ^ 32" "j + n + 1 < 2 ^ 64"
  shows "\<exists>c'. churn_step every_size (GroupBest b) n c = Some c' \<and> churn_inv b n (Suc j) c'"
proof -
  let ?m = "ch_map c" and ?ref = "\<lambda>k. of_nat (k + 1) :: u64"
  have c: "om_inv (GroupBest b) ?m" "om_capacity ?m \<le> 2 ^ 40" "dom (om_abs ?m) = ?ref ` {j..<j + n}" "length (ch_ring c) = n"
    "\<And>k. j \<le> k \<Longrightarrow> k < j + n \<Longrightarrow> ch_ring c ! (k mod n) = ?ref k" "ch_next c = ?ref (j + n)" "ch_head c = j mod n"
    using assms(1) by (simp_all add: churn_inv_def)
  have "ch_ring c ! (j mod n) = ?ref j" using assms(2) by (intro c(5)) simp_all
  then have old: "elem_at (ch_ring c) (ch_head c) = Some (?ref j)" unfolding elem_at_def c(4,7) using assms(2) by simp
  have "?ref j \<in> dom (om_abs ?m)" using c(3) assms(2) by auto
  then obtain ord where "om_abs ?m (?ref j) = Some ord" by blast
  from best_table.find_known [OF c(1) this] obtain i where i: "om_find (GroupBest b) ?m (?ref j) = Some (Some i)" "full ?m i" "o_ref (om_get ?m i) = ?ref j"
    by auto
  obtain m1 where m1: "om_erase (GroupBest b) ?m i = Some m1" "om_inv (GroupBest b) m1" "om_abs m1 = (om_abs ?m)(?ref j := None)" "om_capacity m1 = om_capacity ?m"
    using best_group.erase_spec [OF c(1) i(2)] i(3) by (auto simp: key_of_def om_get_def)
  have inj: "?ref k = ?ref k' \<longleftrightarrow> k = k'" if "k \<le> j + n" "k' \<le> j + n" for k k'
    using of_nat_inj64 [of "k + 1" "k' + 1"] that assms(4) by simp
  have d1: "dom (om_abs m1) = ?ref ` {Suc j..<j + n}"
  proof -
    have "{j..<j + n} = insert j {Suc j..<j + n}" using assms(2) by auto
    moreover have "?ref j \<notin> ?ref ` {Suc j..<j + n}" using inj by auto
    ultimately show ?thesis using m1(3) c(3) by auto
  qed
  have new: "om_abs m1 (?ref (j + n)) = None"
  proof -
    have "?ref (j + n) \<noteq> ?ref k" if "k \<in> {Suc j..<j + n}" for k using inj [of "j + n" k] that by simp
    then have "?ref (j + n) \<notin> dom (om_abs m1)" unfolding d1 by blast
    then show ?thesis by blast
  qed
  have size: "om_size m1 < 2 ^ 32"
  proof -
    have "card (dom (om_abs m1)) \<le> card {Suc j..<j + n}" unfolding d1 by (rule card_image_le) simp
    then show ?thesis using best_group.size_dom [OF m1(2)] assms(3) by simp
  qed
  have alloc: "om_allocate every_size (GroupBest b) groups m1 \<noteq> None"
    if "groups \<in> {om_capacity m1 div kWidth (GroupBest b), om_capacity m1 div kWidth (GroupBest b) * 2}" for groups
  proof (rule allocate_small)
    have "om_capacity m1 div kWidth (GroupBest b) * kWidth (GroupBest b) \<le> 2 ^ 40"
      using order_trans [OF div_times_less_eq_dividend c(2)] by (simp add: m1(4))
    then show "groups * kWidth (GroupBest b) \<le> 2 ^ 41" using that by (auto simp: mult.commute)
  qed
  obtain i' m2 where m2: "om_insert every_size (GroupBest b) m1 (?ref (j + n)) = Some (i', m2)" "om_inv (GroupBest b) m2"
    "dom (om_abs m2) = insert (?ref (j + n)) (dom (om_abs m1))"
    using best_group.insert_spec [OF m1(2) new, of every_size] alloc by auto
  have cap: "om_capacity m2 \<le> 2 ^ 40" by (rule insert_capacity [OF m1(2) m2(1)]) (use c(2) m1(4) size in simp_all)
  have head: "(if j mod n + 1 = n then 0 else j mod n + 1) = Suc j mod n" using assms(2) by (simp add: mod_Suc)
  define c' where "c' = c\<lparr>ch_map := m2, ch_ring := (ch_ring c)[j mod n := ?ref (j + n)], ch_next := ?ref (j + n) + 1, ch_head := Suc j mod n\<rparr>"
  have "churn_step every_size (GroupBest b) n c = Some c'"
    unfolding churn_step_def c'_def c(6,7) head by (simp only: old [unfolded c(7)] i(1) m1(1) m2(1) bind.bind_lunit prod.case)
  moreover have "dom (om_abs m2) = ?ref ` {Suc j..<Suc j + n}"
  proof -
    have "{Suc j..<Suc j + n} = insert (j + n) {Suc j..<j + n}" using assms(2) by auto
    then show ?thesis using m2(3) d1 by simp
  qed
  moreover have "(ch_ring c)[j mod n := ?ref (j + n)] ! (k mod n) = ?ref k" if k: "Suc j \<le> k" "k < Suc j + n" for k
  proof (cases "k = j + n")
    case True
    then show ?thesis using c(4) assms(2) by simp
  next
    case False
    then have "k mod n \<noteq> j mod n" using ring_window [of j k n] k by auto
    then show ?thesis using c(5) [of k] k False by simp
  qed
  ultimately show ?thesis using m2(2) cap c(4) by (intro exI [of _ c']) (simp add: churn_inv_def c'_def)
qed

lemma churn_start_inv:
  assumes "0 < n" "n < 2 ^ 32"
  shows "\<exists>c. churn_start every_size (GroupBest b) n = Some c \<and> churn_inv b n 0 c"
proof -
  have le: "groups_for (GroupBest b) n * kWidth (GroupBest b) \<le> 2 ^ 40" using groups_for_le [of n b] assms(2) by simp
  then have "om_allocate every_size (GroupBest b) (groups_for (GroupBest b) n) empty_omap \<noteq> None" by (intro allocate_small) simp
  then obtain m0 where m0: "new_omap every_size (GroupBest b) n = Some m0" by (auto simp: new_omap_def)
  have cap: "om_capacity m0 \<le> 2 ^ 40"
    using m0 le by (auto simp: new_omap_def om_allocate_def om_clear_def Let_def split: if_splits)
  have "distinct (map (\<lambda>k. of_nat k + 1 :: u64) [0..<n])"
    using of_nat_inj64 assms(2) by (auto simp: distinct_map inj_on_def)
  then obtain m where "foldO (\<lambda>k m. do { (_, m') \<leftarrow> om_insert every_size (GroupBest b) m (of_nat k + 1); Some m' }) [0..<n] m0 = Some m"
    "om_inv (GroupBest b) m" "dom (om_abs m) = (\<lambda>k. of_nat k + 1) ` {0..<n}" "om_capacity m = om_capacity m0"
    using insert_all_presized [of b m0 "[0..<n]" "\<lambda>k. of_nat k + 1" every_size] new_omap_spec [OF m0] by auto
  then show ?thesis using m0 cap assms(1) by (simp add: churn_start_def churn_inv_def add.commute)
qed

lemma churn_runs:
  assumes "0 < n" "n < 2 ^ 32" "iterations + n < 2 ^ 64"
  shows "\<exists>c. bm_map_churn every_size (GroupBest b) n iterations = Some c \<and> churn_inv b n iterations c"
proof -
  have "\<exists>c. bm_map_churn every_size (GroupBest b) n j = Some c \<and> churn_inv b n j c" if "j \<le> iterations" for j
    using that
  proof (induction j)
    case 0
    then show ?case using churn_start_inv [OF assms(1,2), of b] by (auto simp: bm_map_churn_def)
  next
    case (Suc j)
    then obtain c where c: "bm_map_churn every_size (GroupBest b) n j = Some c" "churn_inv b n j c" by auto
    then show ?case using churn_step_inv [OF c(2) assms(1,2)] Suc.prems assms(3) by (auto simp: bm_map_churn_def foldO_snoc bind_eq_Some_conv)
  qed
  then show ?thesis by blast
qed

section \<open>Properties\<close>

text \<open>
  The lookup benchmarks do the same work: for 2 to \<open>2 ^ 31\<close> references, whatever the draws and the shuffle, every iteration finds its order with every group kernel and with
  both searches of the table before the refactoring, no slot outside a table is read, and all of them add up to the same sum. The maps are made for the number of references, so
  that their insertions never allocate again.
\<close>

theorem map_benchmarks_agree:
  assumes "2 \<le> n" "n \<le> 2 ^ 31" "\<forall>v. set (sh v) = set v" "new_omap alloc (GroupBest b) n = Some m0"
  shows "\<exists>s. bm_map_find alloc (GroupBest b) draw sh n iterations = Some s \<and>
    (\<forall>have_avx2 L. bm_map_find_legacy have_avx2 L draw sh n iterations = Some s)"
  using bm_map_find_runs [of n sh draw alloc b m0 iterations] bm_map_find_legacy_runs [of n sh draw _ _ iterations] assms by simp

theorem map_benchmarks_agree_witness:
  "\<exists>s. bm_map_find every_size (GroupBest Have_AVX2) (\<lambda>_. 7) rev 1000 5000 = Some s \<and>
    bm_map_find_legacy True kAvx2 (\<lambda>_. 7) rev 1000 5000 = Some s"
proof -
  obtain e where "new_engine every_size Have_AVX2 1000 = Some e" using new_engine_bounded [of 1000 Have_AVX2] by auto
  then obtain m0 where m0: "new_omap every_size (GroupBest Have_AVX2) 1000 = Some m0" by (auto simp: new_engine_def bind_eq_Some_conv)
  have n: "(2 :: nat) \<le> 1000" "(1000 :: nat) \<le> 2 ^ 31" "\<forall>v :: u64 list. set (rev v) = set v" by simp_all
  show ?thesis using map_benchmarks_agree [OF n m0, of "\<lambda>_. 7" 5000] by blast
qed

text \<open>
  The churn runs at a constant number of orders: with memory to allocate from, in each of up to \<open>2 ^ 64\<close> iterations the oldest reference is found and erased and a new one inserted;
  after any number of them the map holds exactly the last \<open>n\<close> references, and its capacity is below \<open>2 ^ 40\<close> slots.
\<close>

theorem churn_keeps_the_last:
  assumes "0 < n" "n < 2 ^ 32" "iterations + n < 2 ^ 64"
  shows "\<exists>c. bm_map_churn every_size (GroupBest b) n iterations = Some c \<and> om_inv (GroupBest b) (ch_map c) \<and>
    dom (om_abs (ch_map c)) = (\<lambda>k. of_nat (k + 1)) ` {iterations..<iterations + n} \<and> om_capacity (ch_map c) \<le> 2 ^ 40"
  using churn_runs [OF assms, of b] unfolding churn_inv_def by blast

theorem churn_keeps_the_last_witness:
  "\<exists>c. bm_map_churn every_size (GroupBest Force_Scalar) 3 1000000 = Some c \<and> dom (om_abs (ch_map c)) = {1000001, 1000002, 1000003}"
proof -
  have "{1000000..<1000000 + 3} = {1000000, 1000001, 1000002 :: nat}" by auto
  then show ?thesis using churn_keeps_the_last [of 3 1000000 Force_Scalar] by auto
qed

text \<open>
  The level-search benchmarks do the same work: for a depth whose keys fit in 32 bits, every variant, with any number of linear chunks and for both distributions of
  the queries, ends without reading outside the keys and adds up to the same sum.
\<close>

theorem level_benchmarks_agree:
  assumes "depth \<noteq> 0" "unat depth \<le> 42939672"
  shows "\<exists>s. \<forall>Chunks. (\<forall>Fn \<in> set (level_variants Chunks). bm_level_search Fn depth d near draw iterations = Some s) \<and>
    (\<forall>avx2 sse41. bm_level_search_chunks avx2 sse41 Chunks depth d near draw iterations = Some s)"
  using level_benchmark_runs [OF assms, of d near draw iterations] by (elim exE) (force simp: bm_level_search_chunks_def level_variants_def)

theorem level_benchmarks_agree_witness:
  "bm_level_search_chunks False False 4 512 Uniform near draw 100 = bm_level_search_chunks True True 32 512 Uniform near draw 100"
proof -
  have "512 \<noteq> (0 :: u32)" "unat (512 :: u32) \<le> 42939672" by simp_all
  from level_benchmarks_agree [OF this, of Uniform near draw 100] show ?thesis by metis
qed

text \<open>
  The decoding benchmarks do the same work: over a corpus of any bytes, the three decoders and the generic one read inside it and add up to the same sum.
\<close>

theorem decode_benchmarks_agree:
  "\<exists>s. (\<forall>Fn \<in> {scalar_decode_add_order, ssse3_decode_add_order, avx2_decode_add_order}. bm_add_order_decode Fn byte iterations = Some s) \<and>
    bm_add_order_decode_generic byte iterations = Some s"
  by (rule decode_benchmarks_run)

text \<open>
  The misses are counted exactly; a query is any 64 bits after the addition, so nothing in the code keeps it from being a reference that was inserted.
\<close>

theorem misses_counted:
  assumes "n \<le> 2 ^ 61" "new_omap alloc (GroupBest b) n = Some m0"
  shows "bm_map_find_miss alloc (GroupBest b) draw miss n iterations =
    Some (of_nat (length (filter (\<lambda>i. miss_queries miss ! (i AND 65535) \<in> set (make_refs draw n)) [0..<iterations])))"
  using assms by (rule bm_map_find_miss_counts)

end
