(* ===== verification/Session_Benchmarks.thy ===== *)
theory Session_Benchmarks
  imports Synthetic_Session Engine_Memory Compare_Runs Histogram Itch_File Perf_Counters
begin

text \<open>
  The benchmarks over whole sessions (\<^verbatim>\<open>bench/bm_parse.cpp\<close>, \<^verbatim>\<open>bench/bm_burst.cpp\<close>). They rely on what the generator promises: a session leaves no order live, so that
  it can be parsed again and again by one engine, and a message of a session can be followed by its first one. Readings of the clock and of the counters are parameters.
\<close>

section \<open>The sessions\<close>

definition bench_config :: "nat \<Rightarrow> nat \<Rightarrow> nat \<Rightarrow> feed_config" where
  "bench_config n_symbols n_events n_initial =
     \<lparr>cfg_symbols = n_symbols, cfg_events = n_events, cfg_initial_orders = n_initial, cfg_zipf_s = 11 / 10, cfg_depth_p = 35 / 100, cfg_seed = 0x17C45EED\<rparr>"

definition bench_session :: "'g rng_ops \<Rightarrow> feed_config \<Rightarrow> mem option" where
  "bench_session R c = map_option fst (build_feed c R (new_feed c R))"

definition parse_session :: feed_config where "parse_session = bench_config 512 2000000 64"
definition large_session :: feed_config where "large_session = bench_config 2048 2000000 750"
definition burst_session :: feed_config where "burst_session = bench_config 512 1000000 64"

section \<open>One pass per iteration\<close>

definition bm_passes :: "('h parser \<Rightarrow> 'h parser option) \<Rightarrow> nat \<Rightarrow> 'h parser \<Rightarrow> 'h parser option" where
  "bm_passes pass iterations P = foldO (\<lambda>_. pass) [0..<iterations] P"

text \<open>The messages of a pass, and the items that are reported. No iteration at all divides by 0.\<close>

definition per_pass :: "nat \<Rightarrow> 'h parser \<Rightarrow> u64 option" where
  "per_pass iterations P = (if iterations = 0 then None else Some (messages (stats P) div of_nat iterations))"

definition no_handler :: "unit handler" where
  "no_handler = \<lparr>handles = (\<lambda>_. False), on_msg = (\<lambda>_ _. None), wants = None, prefetch = None\<rparr>"

definition bm_validate_only :: "mem \<Rightarrow> nat \<Rightarrow> (nat \<times> nat) option" where
  "bm_validate_only s iterations = do {
     P \<leftarrow> bm_passes (\<lambda>P. map_option fst (parse_stream no_handler s (length s) P)) iterations (new_parser ());
     n \<leftarrow> per_pass iterations P;
     Some (iterations * unat n, iterations * length s) }"

text \<open>Items, bytes, unknown references; and the parser in the end.\<close>

definition bm_build_books :: "(nat \<Rightarrow> bool) \<Rightarrow> isa \<Rightarrow> mem \<Rightarrow> nat \<Rightarrow> (nat \<times> nat \<times> u64 \<times> unit builder parser) option" where
  "bm_build_books alloc b s iterations = do {
     e \<leftarrow> new_engine alloc b (2 ^ 20);
     P \<leftarrow> bm_passes (\<lambda>P. map_option fst (parse_stream (bb_handler alloc b null_sink) s (length s) P)) iterations
       (new_parser \<lparr>bb_engine = e, bb_sink = ()\<rparr>);
     n \<leftarrow> per_pass iterations P;
     Some (iterations * unat n, iterations * length s, unknown_ref (bb_engine (handler_state P)), P) }"

definition bm_prefetch :: "nat \<Rightarrow> (nat \<Rightarrow> bool) \<Rightarrow> isa \<Rightarrow> mem \<Rightarrow> nat \<Rightarrow> (nat \<times> unit builder parser) option" where
  "bm_prefetch Distance alloc b s iterations = do {
     e \<leftarrow> new_engine alloc b (2 * 2 ^ 20);
     P \<leftarrow> bm_passes (\<lambda>P. map_option fst (parse_stream_prefetch Distance (bb_handler alloc b null_sink) s (length s) P)) iterations
       (new_parser \<lparr>bb_engine = e, bb_sink = ()\<rparr>);
     n \<leftarrow> per_pass iterations P;
     Some (iterations * unat n, P) }"

section \<open>One measurement per message\<close>

text \<open>The walk does not check that the last record is complete: the session's is.\<close>

function per_message_from ::
  "(nat \<Rightarrow> u64 \<times> u64) \<Rightarrow> 'h handler \<Rightarrow> mem \<Rightarrow> nat \<Rightarrow> nat \<Rightarrow> 'h parser \<times> histogram \<Rightarrow> ('h parser \<times> histogram) option" where
  "per_message_from tsc H s k off PH =
     (if off + 2 \<le> length s then do {
        n \<leftarrow> load_be16 s off;
        let (t0, t1) = tsc k;
        P' \<leftarrow> parse H s (off + 2) (unat n) (fst PH);
        h' \<leftarrow> hist_record (t1 - t0) (snd PH);
        per_message_from tsc H s (k + 1) (off + (2 + unat n)) (P', h') }
      else Some PH)"
  by pat_completeness auto
termination by (relation "measure (\<lambda>(_, _, s, _, off, _). length s - off)") auto

declare per_message_from.simps [simp del]

text \<open>The clock is read anew in every iteration, and the cost of the reading itself is measured 100000 times.\<close>

definition timer_samples :: "(nat \<Rightarrow> u64 \<times> u64) \<Rightarrow> histogram \<Rightarrow> histogram option" where
  "timer_samples tsc h = foldO (\<lambda>i h. let (t0, t1) = tsc i in hist_record (t1 - t0) h) [0..<100000] h"

definition bm_per_message ::
  "(nat \<Rightarrow> nat \<Rightarrow> u64 \<times> u64) \<Rightarrow> (nat \<Rightarrow> nat \<Rightarrow> u64 \<times> u64) \<Rightarrow> (nat \<Rightarrow> bool) \<Rightarrow> isa \<Rightarrow> mem \<Rightarrow> nat \<Rightarrow>
     (unit builder parser \<times> histogram \<times> histogram) option" where
  "bm_per_message tsc timer_tsc alloc b s iterations = do {
     e \<leftarrow> new_engine alloc b (2 ^ 20);
     foldO (\<lambda>it (P, hist, timer). do {
         (P', hist') \<leftarrow> per_message_from (tsc it) (bb_handler alloc b null_sink) s 0 0 (P, hist);
         timer' \<leftarrow> timer_samples (timer_tsc it) timer;
         Some (P', hist', timer') }) [0..<iterations]
       (new_parser \<lparr>bb_engine = e, bb_sink = ()\<rparr>, new_histogram, new_histogram) }"

section \<open>A file\<close>

text \<open>A new engine for every iteration; the counters that are reported are those of the last one.\<close>

datatype replay_end = Skipped string | Failed string | Replayed "unit builder parser option"

definition bm_replay_pass :: "(nat \<Rightarrow> bool) \<Rightarrow> isa \<Rightarrow> mem \<Rightarrow> nat \<Rightarrow> unit builder parser option" where
  "bm_replay_pass alloc b contents len = do {
     e \<leftarrow> new_engine alloc b (8 * 2 ^ 20);
     (P', _) \<leftarrow> parse_stream (bb_handler alloc b null_sink) contents len (new_parser \<lparr>bb_engine = e, bb_sink = ()\<rparr>);
     Some P' }"

definition bm_replay_file ::
  "(nat \<Rightarrow> bool) \<Rightarrow> isa \<Rightarrow> os \<Rightarrow> int \<Rightarrow> mem \<Rightarrow> string option \<Rightarrow> nat \<Rightarrow> world \<Rightarrow> (replay_end \<times> world) option" where
  "bm_replay_file alloc b os st_size contents env iterations W = (case env of
     None \<Rightarrow> Some (Skipped ''set ITCH_FILE to a gunzipped Nasdaq ITCH 5.0 file'', W)
   | Some path \<Rightarrow> do {
       (err, f, W1) \<leftarrow> file_open os st_size path True new_file W;
       r \<leftarrow> (if err \<noteq> [] then Some (Failed err)
         else do {
           last_P \<leftarrow> foldO (\<lambda>_ _. map_option Some (bm_replay_pass alloc b contents (if_size f))) [0..<iterations] None;
           Some (Replayed last_P) });
       W2 \<leftarrow> file_destroy f W1;
       Some (r, W2) })"

section \<open>Bursts\<close>

definition kHead :: nat where "kHead = 8"

text \<open>Where the records start, as 32-bit offsets.\<close>

function session_offsets :: "mem \<Rightarrow> nat \<Rightarrow> u32 list option" where
  "session_offsets s off =
     (if off + 2 \<le> length s then do {
        n \<leftarrow> load_be16 s off;
        rest \<leftarrow> session_offsets s (off + (2 + unat n));
        Some (of_nat off # rest) }
      else Some [])"
  by pat_completeness auto
termination by (relation "measure (\<lambda>(s, off). length s - off)") auto

declare session_offsets.simps [simp del]

text \<open>After the last message comes the first one.\<close>

definition parse_next :: "'h handler \<Rightarrow> mem \<Rightarrow> u32 list \<Rightarrow> 'h parser \<times> nat \<Rightarrow> ('h parser \<times> nat) option" where
  "parse_next H s offsets = (\<lambda>(P, next). do {
     off \<leftarrow> elem_at offsets next;
     n \<leftarrow> load_be16 s (unat off);
     P' \<leftarrow> parse H s (unat off + 2) (unat n) P;
     Some (P', if next + 1 = length offsets then 0 else next + 1) })"

record 'h bursts =
  bu_feed :: "'h parser \<times> nat"
  bu_head :: histogram
  bu_rest :: histogram
  bu_pmu :: sample

definition burst_message ::
  "'h handler \<Rightarrow> mem \<Rightarrow> u32 list \<Rightarrow> (nat \<Rightarrow> u64 \<times> u64) \<Rightarrow> nat \<Rightarrow> 'h bursts \<Rightarrow> 'h bursts option" where
  "burst_message H s offsets tsc i u = do {
     let (t0, t1) = tsc i;
     feed' \<leftarrow> parse_next H s offsets (bu_feed u);
     if i < kHead then do { h \<leftarrow> hist_record (t1 - t0) (bu_head u); Some (u\<lparr>bu_feed := feed', bu_head := h\<rparr>) }
     else do { h \<leftarrow> hist_record (t1 - t0) (bu_rest u); Some (u\<lparr>bu_feed := feed', bu_rest := h\<rparr>) } }"

definition add_sample :: "sample \<Rightarrow> sample \<Rightarrow> sample" where
  "add_sample a d = \<lparr>s_cycles = s_cycles a + s_cycles d, s_ref_cycles = s_ref_cycles a + s_ref_cycles d,
     s_instructions = s_instructions a + s_instructions d\<rparr>"

text \<open>One iteration: the counters are read before and after the burst.\<close>

definition one_burst ::
  "'h handler \<Rightarrow> mem \<Rightarrow> u32 list \<Rightarrow> nat \<Rightarrow> (nat \<Rightarrow> nat \<Rightarrow> u64 \<times> u64) \<Rightarrow> (nat \<Rightarrow> sample \<times> sample) \<Rightarrow> nat \<Rightarrow> 'h bursts \<Rightarrow> 'h bursts option" where
  "one_burst H s offsets burst tsc pmu it u = do {
     u' \<leftarrow> foldO (burst_message H s offsets (tsc it)) [0..<burst] u;
     let d = sample_minus (snd (pmu it)) (fst (pmu it));
     Some (u'\<lparr>bu_pmu := add_sample (bu_pmu u') d\<rparr>) }"

definition bm_burst ::
  "(nat \<Rightarrow> bool) \<Rightarrow> isa \<Rightarrow> mem \<Rightarrow> nat \<Rightarrow> (nat \<Rightarrow> nat \<Rightarrow> u64 \<times> u64) \<Rightarrow> (nat \<Rightarrow> sample \<times> sample) \<Rightarrow> nat \<Rightarrow> unit builder bursts option" where
  "bm_burst alloc b s burst tsc pmu iterations = do {
     offsets \<leftarrow> session_offsets s 0;
     e \<leftarrow> new_engine alloc b (2 ^ 20);
     let H = bb_handler alloc b null_sink;
     warm \<leftarrow> foldO (\<lambda>_. parse_next H s offsets) [0..<200000] (new_parser \<lparr>bb_engine = e, bb_sink = ()\<rparr>, 0);
     foldO (one_burst H s offsets burst tsc pmu) [0..<iterations]
       \<lparr>bu_feed = warm, bu_head = new_histogram, bu_rest = new_histogram, bu_pmu = no_sample\<rparr> }"

section \<open>One message of a session at a time\<close>

text \<open>The parser stands after \<open>j\<close> messages of a session: the live orders are those of the messages so far, and nothing went wrong.\<close>

definition replaying :: "isa \<Rightarrow> message list \<Rightarrow> nat \<Rightarrow> 's builder parser \<Rightarrow> bool" where
  "replaying b ms j P \<longleftrightarrow> (let e = bb_engine (handler_state P) in
     eng_inv b e \<and> bounded e \<and> eng_map e = live_after (take j ms) \<and> unknown_ref e = 0 \<and> overfill e = 0 \<and> missing_level e = 0 \<and>
     unknown_type (stats P) = 0 \<and> bad_length (stats P) = 0 \<and> empty (stats P) = 0)"

definition session_of :: "message list \<Rightarrow> bool" where
  "session_of ms \<longleftrightarrow> list_all wf_message ms \<and> consistent_all (msg_events ms) Map.empty \<and> live_after ms = Map.empty \<and> length ms \<le> 2 ^ 31"

lemma finite_live: "finite (dom (live_after ms)) \<and> card (dom (live_after ms)) \<le> length ms"
proof (induction ms rule: rev_induct)
  case (snoc m ms)
  have one: "finite (dom (abs_event ev M))" if "finite (dom M)" for ev M
    using dom_after [of ev M] that by (meson finite_insert finite_subset)
  show ?case
  proof (cases "event_of m")
    case (Some ev)
    then show ?thesis using snoc one card_after [of "live_after ms" ev] by (auto simp: live_after_append)
  qed (use snoc in \<open>simp add: live_after_append\<close>)
qed (simp add: live_after_def)

lemma replay_step:
  assumes "session_of ms" "j < length ms" "accepts S (\<lambda>_ _. True)" "replaying b ms j P"
  shows "\<exists>P'. apply_verdict (bb_handler every_size b S) (classify (wire (ms ! j))) P = Some P' \<and> replaying b ms (Suc j) P' \<and>
    messages (stats P') = messages (stats P) + 1"
proof -
  let ?m = "ms ! j" and ?e = "bb_engine (handler_state P)" and ?M = "live_after (take j ms)" and ?H = "bb_handler every_size b S"
  have s: "list_all wf_message ms" "consistent_all (msg_events ms) Map.empty" "length ms \<le> 2 ^ 31" using assms(1) by (simp_all add: session_of_def)
  have e: "eng_inv b ?e" "bounded ?e" "eng_map ?e = ?M" "unknown_ref ?e = 0" "overfill ?e = 0" "missing_level ?e = 0"
    "unknown_type (stats P) = 0" "bad_length (stats P) = 0" "empty (stats P) = 0" using assms(4) by (simp_all add: replaying_def Let_def)
  have wf: "wf_message ?m" using s(1) assms(2) by (simp add: list_all_length)
  have split: "ms = take j ms @ [?m] @ drop (Suc j) ms" using assms(2) by (simp add: id_take_nth_drop)
  have "msg_events ms = msg_events (take j ms) @ msg_events [?m] @ msg_events (drop (Suc j) ms)"
    by (subst split) (simp only: msg_events_append)
  then have con: "consistent_all (msg_events [?m]) ?M" using s(2) by (simp only: consistent_all_append live_after_def)
  have next_live: "live_after (take (Suc j) ms) = fold abs_event (msg_events [?m]) ?M"
    using assms(2) by (simp add: take_Suc_conv_app_nth live_after_append)
  have evs: "verdict_events (\<lambda>_ _. True) (Message ?m) = msg_events [?m]" by (simp add: verdict_events_def split: option.split)
  have "\<exists>e'. apply_events every_size b (msg_events [?m]) ?e = Some e' \<and> eng_inv b e' \<and> bounded e' \<and> eng_map e' = live_after (take (Suc j) ms) \<and>
      unknown_ref e' = 0 \<and> overfill e' = 0 \<and> missing_level e' = 0"
  proof (cases "event_of ?m")
    case None
    then show ?thesis using e next_live by simp
  next
    case (Some ev)
    then have c: "admissible ev ?M" "\<not> unknown ev ?M" "\<not> overfills ev ?M" using con consistent_facts [of ev ?M] by simp_all
    have "card (dom (eng_map ?e)) < 2 ^ 31" using finite_live [of "take j ms"] assms(2) s(3) e(3) by simp
    then obtain e' u where a: "apply_event every_size b ev ?e = Some (e', u)"
      using event_never_fails [OF e(1,2), of ev] c(1) e(3) by fastforce
    then have "event_ok b ev ?e e' u" using event_step [OF e(1) _ a] c(1) e(3) by simp
    then show ?thesis
      using a Some c e(3-6) next_live event_bounded [OF e(1,2) a] by (simp add: apply_events_single event_ok_def)
  qed
  then obtain e' where e': "apply_events every_size b (msg_events [?m]) ?e = Some e'" "eng_inv b e'" "bounded e'" "eng_map e' = live_after (take (Suc j) ms)"
    "unknown_ref e' = 0" "overfill e' = 0" "missing_level e' = 0" by blast
  have v: "map_option (\<lambda>P. bb_engine (handler_state P)) (apply_verdict ?H (Message ?m) P) = Some e'"
    using verdict_engine [OF assms(3), of every_size b "Message ?m" P] e'(1) unfolding evs by simp
  then obtain P' where P': "apply_verdict ?H (Message ?m) P = Some P'" "bb_engine (handler_state P') = e'" by auto
  have "messages (stats P') = messages (stats P) + 1" "unknown_type (stats P') = 0" "bad_length (stats P') = 0" "empty (stats P') = 0"
    using P'(1) e(7-9) by (auto simp: Let_def count_message_def split: if_splits)
  then show ?thesis using P' e' classify_wire [OF wf] by (simp add: replaying_def Let_def)
qed

lemma replaying_wraps: "session_of ms \<Longrightarrow> replaying b ms (length ms) P = replaying b ms 0 P"
  by (simp add: replaying_def session_of_def live_after_def)

lemma replay_messages:
  assumes "session_of ms" "accepts S (\<lambda>_ _. True)" "replaying b ms 0 P"
  shows "k \<le> length ms \<Longrightarrow> \<exists>P'. foldO (\<lambda>bs. apply_verdict (bb_handler every_size b S) (classify bs)) (map wire (take k ms)) P = Some P' \<and>
    replaying b ms k P' \<and> messages (stats P') = messages (stats P) + of_nat k"
proof (induction k)
  case (Suc k)
  then obtain P1 where P1: "foldO (\<lambda>bs. apply_verdict (bb_handler every_size b S) (classify bs)) (map wire (take k ms)) P = Some P1"
    "replaying b ms k P1" "messages (stats P1) = messages (stats P) + of_nat k" by auto
  then show ?case using replay_step [OF assms(1) _ assms(2) P1(2)] Suc.prems
    by (auto simp: take_Suc_conv_app_nth foldO_append)
qed (use assms(3) in simp)

section \<open>Passes\<close>

text \<open>The bytes of a session.\<close>

abbreviation bytes_of :: "message list \<Rightarrow> mem" where
  "bytes_of ms \<equiv> concat (map framed (map wire ms))"

lemma bytes_records: "list_all wf_message ms \<Longrightarrow> frames (bytes_of ms) = (map wire ms, [])"
  using session_frames by (simp add: comp_def)

lemma session_pass:
  assumes "session_of ms" "accepts S (\<lambda>_ _. True)" "replaying b ms 0 P"
  shows "\<exists>P'. parse_stream (bb_handler every_size b S) (bytes_of ms) (length (bytes_of ms)) P = Some (P', length (bytes_of ms)) \<and>
    replaying b ms 0 P' \<and> messages (stats P') = messages (stats P) + of_nat (length ms)"
proof -
  have "frames (bytes_of ms) = (map wire ms, [])" using assms(1) by (intro bytes_records) (simp add: session_of_def)
  then show ?thesis
    using replay_messages [OF assms, of "length ms"] replaying_wraps [OF assms(1), of b]
    by (fastforce simp: parse_stream_cut simp del: map_map)
qed

lemma passes_replay:
  assumes "\<And>P. replaying b ms 0 P \<Longrightarrow> \<exists>P'. pass P = Some P' \<and> replaying b ms 0 P' \<and> messages (stats P') = messages (stats P) + of_nat (length ms)"
    "replaying b ms 0 P"
  shows "\<exists>P'. bm_passes pass iterations P = Some P' \<and> replaying b ms 0 P' \<and> messages (stats P') = messages (stats P) + of_nat (iterations * length ms)"
proof (induction iterations)
  case (Suc n)
  then obtain P1 where P1: "bm_passes pass n P = Some P1" "replaying b ms 0 P1" "messages (stats P1) = messages (stats P) + of_nat (n * length ms)" by blast
  then show ?case using assms(1) [OF P1(2)] by (auto simp: bm_passes_def foldO_snoc)
qed (use assms(2) in \<open>simp add: bm_passes_def\<close>)

lemma new_replaying:
  assumes "n \<le> 2 ^ 32"
  shows "\<exists>e. new_engine every_size b n = Some e \<and> replaying b ms 0 (new_parser \<lparr>bb_engine = e, bb_sink = s\<rparr>)"
proof -
  obtain e where e: "new_engine every_size b n = Some e" "bounded e" using new_engine_bounded [OF assms] by blast
  have "unknown_ref e = 0" "overfill e = 0" using e(1) by (auto simp: new_engine_def bind_eq_Some_conv split: if_splits)
  then show ?thesis using e new_engine_spec [OF e(1)] by (simp add: replaying_def live_after_def new_parser_def no_stats_def Let_def)
qed

lemma per_pass_messages:
  assumes "0 < iterations" "iterations * n < 2 ^ 64" "messages (stats P) = of_nat (iterations * n)"
  shows "per_pass iterations P = Some (of_nat n)"
proof -
  show ?thesis
  proof (cases "n = 0")
    case False
    then have "iterations \<le> iterations * n" "n \<le> iterations * n" using assms(1) by simp_all
    then have le: "iterations < 2 ^ 64" "n < 2 ^ 64" using assms(2) by linarith+
    have u: "unat (of_nat k :: u64) = k" if "k < 2 ^ 64" for k using that by (simp add: unat_of_nat)
    have "unat ((of_nat (iterations * n) :: u64) div of_nat iterations) = n"
      unfolding unat_div u [OF assms(2)] u [OF le(1)] using assms(1) by simp
    then have "(of_nat (iterations * n) :: u64) div of_nat iterations = of_nat n" using u [OF le(2)] by (simp only: word_unat_eq_iff)
    then show ?thesis using assms(1) unfolding per_pass_def assms(3) by simp
  qed (use assms in \<open>simp add: per_pass_def\<close>)
qed

lemma null_accepts: "accepts null_sink (\<lambda>_ _. True)"
  by (simp add: accepts_def null_sink_def)

lemma build_books_run:
  assumes "session_of ms" "0 < iterations" "iterations * length ms < 2 ^ 64"
  shows "\<exists>P. bm_build_books every_size b (bytes_of ms) iterations = Some (iterations * length ms, iterations * length (bytes_of ms), 0, P) \<and> replaying b ms 0 P"
proof -
  have n: "unat (of_nat (length ms) :: u64) = length ms" using assms(1) by (simp add: session_of_def unat_of_nat)
  obtain e where e: "new_engine every_size b (2 ^ 20) = Some e" "replaying b ms 0 (new_parser \<lparr>bb_engine = e, bb_sink = ()\<rparr>)"
    using new_replaying [of "2 ^ 20" b ms "()"] by auto
  let ?pass = "\<lambda>P. map_option fst (parse_stream (bb_handler every_size b null_sink) (bytes_of ms) (length (bytes_of ms)) P)"
  have "\<exists>P'. ?pass P = Some P' \<and> replaying b ms 0 P' \<and> messages (stats P') = messages (stats P) + of_nat (length ms)" if "replaying b ms 0 P" for P
    using session_pass [OF assms(1) null_accepts that] by auto
  from passes_replay [of b ms ?pass, OF this e(2), of iterations] obtain P where P: "bm_passes ?pass iterations (new_parser \<lparr>bb_engine = e, bb_sink = ()\<rparr>) = Some P"
    "replaying b ms 0 P" "messages (stats P) = of_nat (iterations * length ms)" by (auto simp: new_parser_def no_stats_def)
  then show ?thesis
    using e(1) per_pass_messages [OF assms(2,3) P(3)] n by (simp add: bm_build_books_def replaying_def Let_def)
qed

lemma prefetch_run:
  assumes "session_of ms" "0 < iterations" "iterations * length ms < 2 ^ 64"
  shows "\<exists>P. bm_prefetch Distance every_size b (bytes_of ms) iterations = Some (iterations * length ms, P) \<and> replaying b ms 0 P"
proof -
  have n: "unat (of_nat (length ms) :: u64) = length ms" using assms(1) by (simp add: session_of_def unat_of_nat)
  obtain e where e: "new_engine every_size b (2 * 2 ^ 20) = Some e" "replaying b ms 0 (new_parser \<lparr>bb_engine = e, bb_sink = ()\<rparr>)"
    using new_replaying [of "2 * 2 ^ 20" b ms "()"] by auto
  let ?pass = "\<lambda>P. map_option fst (parse_stream_prefetch Distance (bb_handler every_size b null_sink) (bytes_of ms) (length (bytes_of ms)) P)"
  have "\<exists>P'. ?pass P = Some P' \<and> replaying b ms 0 P' \<and> messages (stats P') = messages (stats P) + of_nat (length ms)" if "replaying b ms 0 P" for P
    using session_pass [OF assms(1) null_accepts that] builder.parse_stream_prefetch_eq [OF order_refl, of Distance every_size b null_sink "bytes_of ms" P]
    by (cases "Distance = 0") (auto simp: parse_stream_prefetch_def)
  from passes_replay [of b ms ?pass, OF this e(2), of iterations] obtain P where P: "bm_passes ?pass iterations (new_parser \<lparr>bb_engine = e, bb_sink = ()\<rparr>) = Some P"
    "replaying b ms 0 P" "messages (stats P) = of_nat (iterations * length ms)" by (auto simp: new_parser_def no_stats_def)
  then show ?thesis using e(1) per_pass_messages [OF assms(2,3) P(3)] n by (simp add: bm_prefetch_def)
qed

lemma validate_run:
  assumes "session_of ms" "0 < iterations" "iterations * length ms < 2 ^ 64"
  shows "bm_validate_only (bytes_of ms) iterations = Some (iterations * length ms, iterations * length (bytes_of ms))"
proof -
  have wf: "list_all wf_message ms" and n: "unat (of_nat (length ms) :: u64) = length ms" using assms(1) by (simp_all add: session_of_def unat_of_nat)
  let ?pass = "\<lambda>P. map_option fst (parse_stream no_handler (bytes_of ms) (length (bytes_of ms)) P)"
  have pass: "\<exists>P'. ?pass P = Some P' \<and> messages (stats P') = messages (stats P) + of_nat (length ms)" for P
  proof -
    have "\<exists>P'. foldO (\<lambda>bs. apply_verdict no_handler (classify bs)) (map wire ms) P = Some P' \<and> True"
      by (rule foldO_total [where I = "\<lambda>_. True"]) (auto intro: apply_verdict_returns [where I = "\<lambda>_. True", simplified] simp: no_handler_def)
    then obtain P' where P': "foldO (\<lambda>bs. apply_verdict no_handler (classify bs)) (map wire ms) P = Some P'" by blast
    then show ?thesis using foldO_counts [OF P' session_counts [OF wf]] bytes_records [OF wf] by (auto simp: parse_stream_cut simp del: map_map)
  qed
  have "\<exists>P'. bm_passes ?pass k P = Some P' \<and> messages (stats P') = messages (stats P) + of_nat (k * length ms)" for k P
  proof (induction k)
    case (Suc k)
    then show ?case using pass by (fastforce simp: bm_passes_def foldO_snoc)
  qed (simp add: bm_passes_def)
  then obtain P where P: "bm_passes ?pass iterations (new_parser ()) = Some P" "messages (stats P) = of_nat (iterations * length ms)"
    by (force simp: new_parser_def no_stats_def)
  then show ?thesis using per_pass_messages [OF assms(2,3) P(2)] n by (simp add: bm_validate_only_def)
qed

section \<open>Message by message\<close>

lemma parse_at:
  assumes "drop off s = framed f @ xs" "length f < 2 ^ 16"
  shows "off + 2 + length f \<le> length s" "load_be16 s off = Some (of_nat (length f))" "unat (of_nat (length f) :: u16) = length f"
    "parse H s (off + 2) (length f) P = apply_verdict H (classify f) P" "drop (off + (2 + length f)) s = xs"
proof -
  note w = walk_length [OF assms]
  show le: "off + 2 + length f \<le> length s" and "load_be16 s off = Some (of_nat (length f))" and "drop (off + (2 + length f)) s = xs"
    using w by (simp_all add: cmp_be16_eq)
  show "unat (of_nat (length f) :: u16) = length f" using assms(2) by (simp add: unat_of_nat)
  show "parse H s (off + 2) (length f) P = apply_verdict H (classify f) P"
    unfolding parse_classify [OF le] by (simp only: rec_bytes_def prod.case w(3)) simp
qed

lemma per_message_eq:
  assumes "\<forall>f \<in> set fs. length f < 2 ^ 16"
  shows "drop off s = concat (map framed fs) \<Longrightarrow> off \<le> length s \<Longrightarrow> foldO (\<lambda>bs. apply_verdict H (classify bs)) fs P = Some P' \<Longrightarrow> hist_rep h vs \<Longrightarrow>
    \<exists>h'. per_message_from tsc H s k off (P, h) = Some (P', h') \<and> hist_rep h' (vs @ map (\<lambda>i. snd (tsc i) - fst (tsc i)) [k..<k + length fs])"
  using assms
proof (induction fs arbitrary: off P h vs k)
  case Nil
  then have "per_message_from tsc H s k off (P, h) = Some (P, h)" by (subst per_message_from.simps) simp
  then show ?case using Nil by simp
next
  case (Cons f fs)
  have d: "drop off s = framed f @ concat (map framed fs)" and l: "length f < 2 ^ 16" using Cons.prems(1,5) by simp_all
  note p = parse_at [OF d l]
  obtain P1 where P1: "apply_verdict H (classify f) P = Some P1" "foldO (\<lambda>bs. apply_verdict H (classify bs)) fs P1 = Some P'"
    using Cons.prems(3) by (auto simp: bind_eq_Some_conv)
  let ?d = "snd (tsc k) - fst (tsc k)"
  obtain h1 where h1: "hist_record ?d h = Some h1" "hist_rep h1 (vs @ [?d])" using record_rep [OF Cons.prems(4)] by blast
  obtain h' where h': "per_message_from tsc H s (k + 1) (off + (2 + length f)) (P1, h1) = Some (P', h')"
    "hist_rep h' ((vs @ [?d]) @ map (\<lambda>i. snd (tsc i) - fst (tsc i)) [k + 1..<k + 1 + length fs])"
    using Cons.IH [OF p(5) _ P1(2) h1(2), of "k + 1"] p(1) Cons.prems(5) by auto
  have "per_message_from tsc H s k off (P, h) = Some (P', h')"
    using p(1-3) p(4) [of H P] P1(1) h1(1) h'(1) by (subst per_message_from.simps) (simp add: case_prod_beta Let_def)
  moreover have "[k..<k + length (f # fs)] = k # [k + 1..<k + 1 + length fs]" by (simp add: upt_conv_Cons del: upt_Suc)
  ultimately show ?case using h'(2) by (simp del: upt_Suc)
qed

lemma records_short: "list_all wf_message ms \<Longrightarrow> \<forall>f \<in> set (map wire ms). length f < 2 ^ 16"
  using frames_length [OF bytes_records] by blast

lemma samples_rep:
  assumes "hist_rep h vs"
  shows "\<exists>h'. foldO (\<lambda>i h. let (t0, t1) = tsc i in hist_record (t1 - t0) h) xs h = Some h' \<and> hist_rep h' (vs @ map (\<lambda>i. snd (tsc i) - fst (tsc i)) xs)"
  using assms
proof (induction xs arbitrary: h vs)
  case (Cons i xs)
  obtain h1 where "hist_record (snd (tsc i) - fst (tsc i)) h = Some h1" "hist_rep h1 (vs @ [snd (tsc i) - fst (tsc i)])"
    using record_rep [OF Cons.prems] by blast
  then show ?case using Cons.IH by (fastforce simp: case_prod_beta Let_def)
qed simp

lemma per_message_run:
  assumes "session_of ms"
  shows "\<exists>P hist timer. bm_per_message tsc timer_tsc every_size b (bytes_of ms) iterations = Some (P, hist, timer) \<and> replaying b ms 0 P \<and>
    (\<exists>vs. hist_rep hist vs \<and> length vs = iterations * length ms) \<and> (\<exists>vs. hist_rep timer vs \<and> length vs = iterations * 100000)"
proof -
  let ?s = "bytes_of ms" and ?H = "bb_handler every_size b null_sink"
  have wf: "list_all wf_message ms" using assms by (simp add: session_of_def)
  obtain e where e: "new_engine every_size b (2 ^ 20) = Some e" "replaying b ms 0 (new_parser \<lparr>bb_engine = e, bb_sink = ()\<rparr>)"
    using new_replaying [of "2 ^ 20" b ms "()"] by auto
  let ?step = "\<lambda>it (P, hist, timer). do { (P', hist') \<leftarrow> per_message_from (tsc it) ?H ?s 0 0 (P, hist); timer' \<leftarrow> timer_samples (timer_tsc it) timer; Some (P', hist', timer') }"
  have "\<exists>P hist timer. foldO ?step [0..<n] (new_parser \<lparr>bb_engine = e, bb_sink = ()\<rparr>, new_histogram, new_histogram) = Some (P, hist, timer) \<and> replaying b ms 0 P \<and>
    (\<exists>vs. hist_rep hist vs \<and> length vs = n * length ms) \<and> (\<exists>vs. hist_rep timer vs \<and> length vs = n * 100000)" for n
  proof (induction n)
    case 0
    then show ?case using e(2) new_histogram_rep by auto
  next
    case (Suc n)
    then obtain P hist timer vs ws where S: "foldO ?step [0..<n] (new_parser \<lparr>bb_engine = e, bb_sink = ()\<rparr>, new_histogram, new_histogram) = Some (P, hist, timer)"
      "replaying b ms 0 P" "hist_rep hist vs" "length vs = n * length ms" "hist_rep timer ws" "length ws = n * 100000" by blast
    obtain P' where P': "foldO (\<lambda>bs. apply_verdict ?H (classify bs)) (map wire ms) P = Some P'" "replaying b ms 0 P'"
      using replay_messages [OF assms null_accepts S(2), of "length ms"] replaying_wraps [OF assms, of b] by auto
    obtain h' where h': "per_message_from (tsc n) ?H ?s 0 0 (P, hist) = Some (P', h')" "hist_rep h' (vs @ map (\<lambda>i. snd (tsc n i) - fst (tsc n i)) [0..<0 + length (map wire ms)])"
      using per_message_eq [OF records_short [OF wf], of 0 ?s ?H P P' hist vs "tsc n" 0] P'(1) S(3) by auto
    obtain t' where t': "timer_samples (timer_tsc n) timer = Some t'" "hist_rep t' (ws @ map (\<lambda>i. snd (timer_tsc n i) - fst (timer_tsc n i)) [0..<100000])"
      using samples_rep [OF S(5), of "timer_tsc n" "[0..<100000]"] unfolding timer_samples_def by blast
    have "foldO ?step [0..<Suc n] (new_parser \<lparr>bb_engine = e, bb_sink = ()\<rparr>, new_histogram, new_histogram) = Some (P', h', t')"
      unfolding foldO_snoc upt_Suc_append [OF le0] S(1) by (simp add: h'(1) t'(1) del: map_map)
    moreover have "\<exists>vs. hist_rep h' vs \<and> length vs = Suc n * length ms" using h'(2) S(4) by (intro exI conjI) (assumption, simp)
    moreover have "\<exists>vs. hist_rep t' vs \<and> length vs = Suc n * 100000" using t'(2) S(6) by (intro exI conjI) (assumption, simp)
    ultimately show ?case using P'(2) by blast
  qed
  then show ?thesis using e(1) by (simp add: bm_per_message_def)
qed

section \<open>Bursts\<close>

lemma session_offsets_eq:
  "\<forall>f \<in> set fs. length f < 2 ^ 16 \<Longrightarrow> drop off s = concat (map framed fs) \<Longrightarrow> off \<le> length s \<Longrightarrow>
    session_offsets s off = Some (map (\<lambda>j. of_nat (off + byte_pos fs j)) [0..<length fs])"
proof (induction fs arbitrary: off)
  case Nil
  then show ?case by (subst session_offsets.simps) simp
next
  case (Cons f fs)
  have d: "drop off s = framed f @ concat (map framed fs)" and l: "length f < 2 ^ 16" using Cons.prems(1,2) by simp_all
  note p = parse_at [OF d l]
  have "session_offsets s (off + (2 + length f)) = Some (map (\<lambda>j. of_nat (off + (2 + length f) + byte_pos fs j)) [0..<length fs])"
    by (rule Cons.IH) (use Cons.prems(1) p(1,5) in auto)
  moreover have "map (\<lambda>j. of_nat (off + byte_pos (f # fs) j)) [0..<length (f # fs)] =
      (of_nat off :: u32) # map (\<lambda>j. of_nat (off + (2 + length f) + byte_pos fs j)) [0..<length fs]"
    using framed_parts(1) [OF l] by (simp add: map_upt_Suc ac_simps del: upt_Suc)
  ultimately show ?case using p(1-3) by (subst session_offsets.simps) simp
qed

lemma parse_next_step:
  assumes "session_of ms" "length (bytes_of ms) \<le> 2 ^ 32" "j < length ms" "replaying b ms j P"
  defines "offsets \<equiv> map (\<lambda>j. of_nat (byte_pos (map wire ms) j)) [0..<length ms]"
  shows "\<exists>P' j'. parse_next (bb_handler every_size b null_sink) (bytes_of ms) offsets (P, j) = Some (P', j') \<and> replaying b ms j' P' \<and> j' < length ms \<and>
    messages (stats P') = messages (stats P) + 1"
proof -
  let ?fs = "map wire ms" and ?s = "bytes_of ms" and ?H = "bb_handler every_size b null_sink"
  have wf: "list_all wf_message ms" using assms(1) by (simp add: session_of_def)
  have fj: "?fs ! j = wire (ms ! j)" using assms(3) by simp
  have l: "length (wire (ms ! j)) < 2 ^ 16" using records_short [OF wf] assms(3) by simp
  have "?fs = take j ?fs @ ?fs ! j # drop (Suc j) ?fs" using assms(3) by (intro id_take_nth_drop) simp
  then have "?s = concat (map framed (take j ?fs)) @ framed (?fs ! j) @ concat (map framed (drop (Suc j) ?fs))"
    by (metis append.assoc concat.simps(2) concat_append list.simps(9) map_append)
  then have d: "drop (byte_pos ?fs j) ?s = framed (wire (ms ! j)) @ concat (map framed (drop (Suc j) ?fs))" unfolding fj by simp
  note p = parse_at [OF d l]
  have "byte_pos ?fs j < 2 ^ 32" using p(1) assms(2) by linarith
  then have off: "unat (of_nat (byte_pos ?fs j) :: u32) = byte_pos ?fs j" by (simp add: unat_of_nat)
  have at: "elem_at offsets j = Some (of_nat (byte_pos ?fs j))" using assms(3) by (simp add: elem_at_def offsets_def)
  obtain P' where P': "apply_verdict ?H (classify (wire (ms ! j))) P = Some P'" "replaying b ms (Suc j) P'" "messages (stats P') = messages (stats P) + 1"
    using replay_step [OF assms(1,3) null_accepts assms(4)] by blast
  define j' where "j' = (if j + 1 = length ms then 0 else j + 1)"
  have "parse_next ?H ?s offsets (P, j) = Some (P', j')"
    unfolding parse_next_def prod.case at bind.bind_lunit off p(2,3,4) P'(1) j'_def by (simp add: offsets_def)
  moreover have "replaying b ms j' P'"
    using P'(2) replaying_wraps [OF assms(1), of b P'] by (cases "j + 1 = length ms") (simp_all add: j'_def)
  moreover have "j' < length ms" using assms(3) by (auto simp: j'_def)
  ultimately show ?thesis using P'(3) by blast
qed

text \<open>\<open>k\<close> messages parsed in all, \<open>h\<close> and \<open>r\<close> of them measured.\<close>

definition burst_inv :: "isa \<Rightarrow> message list \<Rightarrow> nat \<Rightarrow> nat \<Rightarrow> nat \<Rightarrow> unit builder bursts \<Rightarrow> bool" where
  "burst_inv b ms k h r u \<longleftrightarrow> replaying b ms (snd (bu_feed u)) (fst (bu_feed u)) \<and> snd (bu_feed u) < length ms \<and>
     messages (stats (fst (bu_feed u))) = of_nat k \<and>
     (\<exists>vs. hist_rep (bu_head u) vs \<and> length vs = h) \<and> (\<exists>vs. hist_rep (bu_rest u) vs \<and> length vs = r)"

lemma burst_message_step:
  assumes "session_of ms" "length (bytes_of ms) \<le> 2 ^ 32" "burst_inv b ms k h r u"
  defines "offsets \<equiv> map (\<lambda>j. of_nat (byte_pos (map wire ms) j)) [0..<length ms]"
  shows "\<exists>u'. burst_message (bb_handler every_size b null_sink) (bytes_of ms) offsets tsc i u = Some u' \<and>
    burst_inv b ms (k + 1) (if i < kHead then h + 1 else h) (if i < kHead then r else r + 1) u'"
proof -
  obtain P j where f: "bu_feed u = (P, j)" by fastforce
  obtain vs ws where I: "replaying b ms j P" "j < length ms" "messages (stats P) = of_nat k" "hist_rep (bu_head u) vs" "length vs = h" "hist_rep (bu_rest u) ws" "length ws = r"
    using assms(3) f by (auto simp: burst_inv_def)
  obtain P' j' where n: "parse_next (bb_handler every_size b null_sink) (bytes_of ms) offsets (P, j) = Some (P', j')" "replaying b ms j' P'" "j' < length ms"
    "messages (stats P') = messages (stats P) + 1"
    using parse_next_step [OF assms(1,2) I(2,1)] unfolding offsets_def by blast
  let ?d = "snd (tsc i) - fst (tsc i)"
  obtain h1 where h1: "hist_record ?d (bu_head u) = Some h1" "hist_rep h1 (vs @ [?d])" using record_rep [OF I(4)] by blast
  obtain h2 where h2: "hist_record ?d (bu_rest u) = Some h2" "hist_rep h2 (ws @ [?d])" using record_rep [OF I(6)] by blast
  show ?thesis
  proof (cases "i < kHead")
    case True
    then have "burst_message (bb_handler every_size b null_sink) (bytes_of ms) offsets tsc i u = Some (u\<lparr>bu_feed := (P', j'), bu_head := h1\<rparr>)"
      by (simp add: burst_message_def f n(1) h1(1) case_prod_beta Let_def del: map_map)
    moreover have "\<exists>vs. hist_rep h1 vs \<and> length vs = h + 1" using h1(2) I(5) by (intro exI conjI) (assumption, simp)
    ultimately show ?thesis using True n(2-4) I(3,6,7) by (auto simp: burst_inv_def)
  next
    case False
    then have "burst_message (bb_handler every_size b null_sink) (bytes_of ms) offsets tsc i u = Some (u\<lparr>bu_feed := (P', j'), bu_rest := h2\<rparr>)"
      by (simp add: burst_message_def f n(1) h2(1) case_prod_beta Let_def del: map_map)
    moreover have "\<exists>vs. hist_rep h2 vs \<and> length vs = r + 1" using h2(2) I(7) by (intro exI conjI) (assumption, simp)
    ultimately show ?thesis using False n(2-4) I(3,4,5) by (auto simp: burst_inv_def)
  qed
qed

lemma burst_messages:
  assumes "session_of ms" "length (bytes_of ms) \<le> 2 ^ 32" "burst_inv b ms k h r u"
  defines "offsets \<equiv> map (\<lambda>j. of_nat (byte_pos (map wire ms) j)) [0..<length ms]"
  shows "\<exists>u'. foldO (burst_message (bb_handler every_size b null_sink) (bytes_of ms) offsets tsc) [0..<n] u = Some u' \<and>
    burst_inv b ms (k + n) (h + min n kHead) (r + (n - kHead)) u'"
proof (induction n)
  case 0
  then show ?case using assms(3) by simp
next
  case (Suc n)
  then obtain u1 where u1: "foldO (burst_message (bb_handler every_size b null_sink) (bytes_of ms) offsets tsc) [0..<n] u = Some u1"
    "burst_inv b ms (k + n) (h + min n kHead) (r + (n - kHead)) u1" by blast
  obtain u2 where u2: "burst_message (bb_handler every_size b null_sink) (bytes_of ms) offsets tsc n u1 = Some u2"
    "burst_inv b ms (k + n + 1) (if n < kHead then h + min n kHead + 1 else h + min n kHead) (if n < kHead then r + (n - kHead) else r + (n - kHead) + 1) u2"
    using burst_message_step [OF assms(1,2) u1(2), of tsc n] unfolding offsets_def by blast
  have "burst_inv b ms (k + Suc n) (h + min (Suc n) kHead) (r + (Suc n - kHead)) u2"
    using u2(2) by (cases "n < kHead") (simp_all add: min_def Suc_diff_le not_less le_antisym split: if_splits)
  then show ?case using u1(1) u2(1) by (auto simp: foldO_snoc)
qed

lemma bursts_run:
  assumes "session_of ms" "ms \<noteq> []" "length (bytes_of ms) \<le> 2 ^ 32"
  shows "\<exists>u. bm_burst every_size b (bytes_of ms) burst tsc pmu iterations = Some u \<and>
    burst_inv b ms (200000 + iterations * burst) (iterations * min burst kHead) (iterations * (burst - kHead)) u"
proof -
  let ?H = "bb_handler every_size b null_sink" and ?s = "bytes_of ms"
  define offsets where "offsets = map (\<lambda>j. of_nat (byte_pos (map wire ms) j) :: u32) [0..<length ms]"
  have wf: "list_all wf_message ms" using assms(1) by (simp add: session_of_def)
  have offs: "session_offsets ?s 0 = Some offsets" using session_offsets_eq [OF records_short [OF wf], of 0 ?s] by (simp add: offsets_def)
  obtain e where e: "new_engine every_size b (2 ^ 20) = Some e" "replaying b ms 0 (new_parser \<lparr>bb_engine = e, bb_sink = ()\<rparr>)"
    using new_replaying [of "2 ^ 20" b ms "()"] by auto
  let ?P = "new_parser \<lparr>bb_engine = e, bb_sink = ()\<rparr>"
  have "\<exists>P j. foldO (\<lambda>_. parse_next ?H ?s offsets) [0..<n] (?P, 0) = Some (P, j) \<and> replaying b ms j P \<and> j < length ms \<and> messages (stats P) = of_nat n" for n
  proof (induction n)
    case (Suc n)
    then obtain P j where S: "foldO (\<lambda>_. parse_next ?H ?s offsets) [0..<n] (?P, 0) = Some (P, j)" "replaying b ms j P" "j < length ms" "messages (stats P) = of_nat n" by blast
    obtain P' j' where "parse_next ?H ?s offsets (P, j) = Some (P', j')" "replaying b ms j' P'" "j' < length ms" "messages (stats P') = messages (stats P) + 1"
      using parse_next_step [OF assms(1,3) S(3,2)] unfolding offsets_def by blast
    then show ?case using S(1,4) by (simp add: foldO_snoc del: map_map)
  qed (use e(2) assms(2) in \<open>simp add: new_parser_def no_stats_def\<close>)
  then obtain P j where warm: "foldO (\<lambda>_. parse_next ?H ?s offsets) [0..<200000] (?P, 0) = Some (P, j)" "replaying b ms j P" "j < length ms" "messages (stats P) = of_nat 200000"
    by blast
  let ?u = "\<lparr>bu_feed = (P, j), bu_head = new_histogram, bu_rest = new_histogram, bu_pmu = no_sample\<rparr>"
  have "burst_inv b ms 200000 0 0 ?u" using warm(2-4) new_histogram_rep by (auto simp: burst_inv_def)
  then have "\<exists>u. foldO (one_burst ?H ?s offsets burst tsc pmu) [0..<n] ?u = Some u \<and>
    burst_inv b ms (200000 + n * burst) (n * min burst kHead) (n * (burst - kHead)) u" for n
  proof (induction n)
    case (Suc n)
    then obtain u where u: "foldO (one_burst ?H ?s offsets burst tsc pmu) [0..<n] ?u = Some u"
      "burst_inv b ms (200000 + n * burst) (n * min burst kHead) (n * (burst - kHead)) u" by blast
    obtain u' where u': "foldO (burst_message ?H ?s offsets (tsc n)) [0..<burst] u = Some u'"
      "burst_inv b ms (200000 + n * burst + burst) (n * min burst kHead + min burst kHead) (n * (burst - kHead) + (burst - kHead)) u'"
      using burst_messages [OF assms(1,3) u(2), of "tsc n" burst] unfolding offsets_def by blast
    define u'' where "u'' = u'\<lparr>bu_pmu := add_sample (bu_pmu u') (sample_minus (snd (pmu n)) (fst (pmu n)))\<rparr>"
    have "one_burst ?H ?s offsets burst tsc pmu n u = Some u''" by (simp add: one_burst_def u'(1) u''_def del: map_map)
    moreover have "burst_inv b ms (200000 + Suc n * burst) (Suc n * min burst kHead) (Suc n * (burst - kHead)) u''"
    proof -
      have "200000 + Suc n * burst = 200000 + n * burst + burst" "Suc n * min burst kHead = n * min burst kHead + min burst kHead"
        "Suc n * (burst - kHead) = n * (burst - kHead) + (burst - kHead)" by simp_all
      moreover have "burst_inv b ms k h r u'' = burst_inv b ms k h r u'" for k h r by (simp add: burst_inv_def u''_def)
      ultimately show ?thesis using u'(2) by (simp only:)
    qed
    ultimately show ?case using u(1) by (simp add: foldO_snoc del: map_map)
  qed simp
  then show ?thesis using offs e(1) warm(1) by (simp add: bm_burst_def Let_def del: map_map)
qed

section \<open>Properties\<close>

text \<open>What a session of the generator is, by its bytes.\<close>

lemma generated_session:
  assumes "draws_in_range R" "0 < cfg_symbols c" "cfg_symbols c \<le> 65535"
    and "cfg_symbols c * cfg_initial_orders c + cfg_events c < 2 ^ 32" "build_feed c R (new_feed c R) = Some (s, F')" "length s \<le> 2 ^ 32"
  obtains ms where "session_of ms" "s = bytes_of ms" "unat (sf_messages F') = length ms"
proof -
  obtain ms where ms: "s = concat (map (\<lambda>m. framed (wire m)) ms)" "list_all wf_message ms" "sf_messages F' = of_nat (length ms)"
    "consistent_all (msg_events ms) Map.empty" "live_after ms = Map.empty" using session_out [OF assms(1-5)] .
  have "2 * length xs \<le> length (bytes_of xs)" for xs by (induction xs) (simp_all add: framed_def)
  from this [of ms] have l: "length ms \<le> 2 ^ 31" using assms(6) ms(1) by (simp add: comp_def)
  then have "session_of ms" using ms(2,4,5) by (simp add: session_of_def)
  moreover have "unat (sf_messages F') = length ms" using l ms(3) by (simp add: unat_of_nat)
  ultimately show ?thesis using ms(1) that by (simp add: comp_def)
qed

text \<open>
  The session benchmarks measure what they say. Over any session of the generator of up to \<open>2 ^ 32\<close> bytes, with memory to allocate from and for any number of iterations, the three pass
  benchmarks count the same messages, those of the session once per iteration; no pass meets an unknown reference, and the books are built again from no live order each time, without a reset.
\<close>

theorem passes_start_empty:
  assumes "draws_in_range R" "0 < cfg_symbols c" "cfg_symbols c \<le> 65535"
    and "cfg_symbols c * cfg_initial_orders c + cfg_events c < 2 ^ 32" "build_feed c R (new_feed c R) = Some (s, F')" "length s \<le> 2 ^ 32"
    and "0 < iterations" "iterations * unat (sf_messages F') < 2 ^ 64"
  defines "items \<equiv> iterations * unat (sf_messages F')"
  shows "bm_validate_only s iterations = Some (items, iterations * length s) \<and>
    (\<exists>P. bm_build_books every_size b s iterations = Some (items, iterations * length s, 0, P) \<and> eng_map (bb_engine (handler_state P)) = Map.empty \<and>
      missing_level (bb_engine (handler_state P)) = 0) \<and>
    (\<exists>P. bm_prefetch Distance every_size b s iterations = Some (items, P) \<and> eng_map (bb_engine (handler_state P)) = Map.empty)"
proof -
  obtain ms where ms: "session_of ms" "s = bytes_of ms" "unat (sf_messages F') = length ms" using generated_session [OF assms(1-6)] .
  have n: "iterations * length ms < 2 ^ 64" and items: "items = iterations * length ms" using assms(8) ms(3) by (simp_all add: items_def)
  have ends: "eng_map (bb_engine (handler_state P)) = Map.empty" "missing_level (bb_engine (handler_state P)) = 0" if "replaying b ms 0 P" for P
    using that by (simp_all add: replaying_def live_after_def Let_def)
  show ?thesis
    using validate_run [OF ms(1) assms(7) n] build_books_run [OF ms(1) assms(7) n, of b] prefetch_run [OF ms(1) assms(7) n, of Distance b] ends
    unfolding ms(2) items by blast
qed

lemma bytes_bound: "list_all wf_message ms \<Longrightarrow> length (bytes_of ms) \<le> 65538 * length ms"
proof -
  assume wf: "list_all wf_message ms"
  have f: "length (framed (wire m)) \<le> 65538" if "m \<in> set ms" for m
    using records_short [OF wf] that framed_parts(1) [of "wire m"] by force
  have "length (bytes_of ms) = (\<Sum>m \<leftarrow> ms. length (framed (wire m)))" by (simp add: length_concat comp_def)
  also have "\<dots> \<le> (\<Sum>m \<leftarrow> ms. 65538)" by (rule sum_list_mono) (rule f)
  finally show ?thesis by (simp add: sum_list_triv mult.commute)
qed

lemma sample_bytes:
  obtains F' where "build_feed (sample_config 1) sample_draws (new_feed (sample_config 1) sample_draws) = Some (bytes_of sample_session, F')"
    "length (bytes_of sample_session) \<le> 2 ^ 32" "sf_messages F' = 7" "bytes_of sample_session \<noteq> []"
proof -
  obtain F' where F': "build_feed (sample_config 1) sample_draws (new_feed (sample_config 1) sample_draws) = Some (bytes_of sample_session, F')"
    using sample_session_built by (auto simp: comp_def)
  have l: "length (bytes_of sample_session) \<le> 2 ^ 32"
    using bytes_bound [OF sample_session_wf] by (simp add: sample_session_def del: map_map)
  have c: "0 < cfg_symbols (sample_config 1)" "cfg_symbols (sample_config 1) \<le> 65535"
    "cfg_symbols (sample_config 1) * cfg_initial_orders (sample_config 1) + cfg_events (sample_config 1) < 2 ^ 32" by (simp_all add: sample_config_def)
  obtain ms where ms: "bytes_of sample_session = concat (map (\<lambda>m. framed (wire m)) ms)" "list_all wf_message ms" "sf_messages F' = of_nat (length ms)"
    using session_out [OF sample_draws_range c F'] .
  have "frames (bytes_of ms) = frames (bytes_of sample_session)" unfolding ms(1) by (simp add: comp_def)
  then have "map wire ms = map wire sample_session" using bytes_records [OF ms(2)] bytes_records [OF sample_session_wf] by simp
  then have "length ms = length sample_session" by (metis length_map)
  then have n: "sf_messages F' = 7" using ms(3) by (simp add: sample_session_def)
  have "bytes_of (m # ms) \<noteq> []" for m ms by (simp add: framed_def wire_def)
  then have "bytes_of sample_session \<noteq> []" unfolding sample_session_def .
  then show ?thesis by (rule that [OF F' l n])
qed

lemma sample_limits:
  "0 < cfg_symbols (sample_config 1)" "cfg_symbols (sample_config 1) \<le> 65535"
  "cfg_symbols (sample_config 1) * cfg_initial_orders (sample_config 1) + cfg_events (sample_config 1) < 2 ^ 32"
  by (simp_all add: sample_config_def)

theorem passes_start_empty_witness:
  "\<exists>P. bm_build_books every_size Have_AVX2 (bytes_of sample_session) 1000 = Some (7000, 1000 * length (bytes_of sample_session), 0, P) \<and>
    eng_map (bb_engine (handler_state P)) = Map.empty"
proof -
  obtain F' where F': "build_feed (sample_config 1) sample_draws (new_feed (sample_config 1) sample_draws) = Some (bytes_of sample_session, F')"
    "length (bytes_of sample_session) \<le> 2 ^ 32" "sf_messages F' = 7" using sample_bytes .
  have n: "0 < (1000 :: nat)" "1000 * unat (sf_messages F') < 2 ^ 64" "1000 * unat (sf_messages F') = 7000" by (simp_all add: F'(3))
  show ?thesis using passes_start_empty [OF sample_draws_range sample_limits F'(1,2) n(1,2), of Have_AVX2 16] unfolding n(3) by blast
qed

text \<open>
  C34. Bursts over a session that starts again at its end stay consistent: whatever the length of the bursts and the number of iterations, no reference is unknown, no level missing, no
  record malformed, and every message after the warm-up is measured once, the first 8 of each burst apart from the others.
\<close>

theorem bursts_stay_consistent:
  assumes "draws_in_range R" "0 < cfg_symbols c" "cfg_symbols c \<le> 65535"
    and "cfg_symbols c * cfg_initial_orders c + cfg_events c < 2 ^ 32" "build_feed c R (new_feed c R) = Some (s, F')" "length s \<le> 2 ^ 32" "s \<noteq> []"
  shows "\<exists>u. bm_burst every_size b s burst tsc pmu iterations = Some u \<and>
    (let P = fst (bu_feed u); e = bb_engine (handler_state P) in
       unknown_ref e = 0 \<and> overfill e = 0 \<and> missing_level e = 0 \<and> unknown_type (stats P) = 0 \<and> bad_length (stats P) = 0 \<and>
       messages (stats P) = of_nat (200000 + iterations * burst)) \<and>
    hg_count (bu_head u) = of_nat (iterations * min burst 8) \<and> hg_count (bu_rest u) = of_nat (iterations * (burst - 8))"
proof -
  obtain ms where ms: "session_of ms" "s = bytes_of ms" using generated_session [OF assms(1-6)] .
  have "ms \<noteq> []" using assms(7) ms(2) by auto
  then obtain u where u: "bm_burst every_size b s burst tsc pmu iterations = Some u"
    "burst_inv b ms (200000 + iterations * burst) (iterations * min burst kHead) (iterations * (burst - kHead)) u"
    using bursts_run [OF ms(1) _, of b burst tsc pmu iterations] assms(6) unfolding ms(2) by blast
  then show ?thesis by (intro exI [of _ u]) (auto simp: burst_inv_def replaying_def hist_rep_def kHead_def Let_def)
qed

theorem bursts_stay_consistent_witness:
  "\<exists>u. bm_burst every_size Have_SSE41 (bytes_of sample_session) 256 (\<lambda>_ _. (3, 10)) (\<lambda>_. (no_sample, no_sample)) 300 = Some u \<and>
    messages (stats (fst (bu_feed u))) = 276800 \<and> hg_count (bu_head u) = 2400"
proof -
  obtain F' where F': "build_feed (sample_config 1) sample_draws (new_feed (sample_config 1) sample_draws) = Some (bytes_of sample_session, F')"
    "length (bytes_of sample_session) \<le> 2 ^ 32" "sf_messages F' = 7" "bytes_of sample_session \<noteq> []" using sample_bytes .
  show ?thesis
    using bursts_stay_consistent [OF sample_draws_range sample_limits F'(1,2,4), of Have_SSE41 256 "\<lambda>_ _. (3, 10)" "\<lambda>_. (no_sample, no_sample)" 300]
    by (auto simp: Let_def)
qed

text \<open>Replaying a file gives its mapping back, whichever call fails, and says why it was not replayed.\<close>

theorem replay_file_returns_mapping:
  assumes "map_os os" "bm_replay_file alloc b os st_size contents env iterations W = Some (r, W')"
  shows "W' = W \<and> (case env of None \<Rightarrow> \<exists>why. r = Skipped why | Some _ \<Rightarrow> \<exists>x. r = Failed x \<and> x \<noteq> [] \<or> (\<exists>P. r = Replayed P))"
proof (cases env)
  case (Some path)
  have n: "file_well new_file" "file_owned new_file = {#}" by (simp_all add: file_well_def file_owned_def new_file_def)
  obtain err f where f: "file_open os st_size path True new_file W = Some (err, f, file_owned f + W)" "file_well f"
    using file_open_frame [OF assms(1) n(1), of st_size path True W] n(2) by auto
  then show ?thesis using assms(2) file_destroy_frame [OF f(2), of W] by (auto simp: bm_replay_file_def Some bind_eq_Some_conv split: if_splits)
qed (use assms(2) in \<open>auto simp: bm_replay_file_def\<close>)

end
