(* ===== verification/Engine_Benchmarks.thy ===== *)
theory Engine_Benchmarks
  imports Synthetic_Session Engine_Memory
begin

text \<open>
  The benchmarks of the engine's operations (\<^verbatim>\<open>bench/bm_book.cpp\<close>). Each iteration acts on an order that rests, and the number of live orders stays what it was; the
  draws of the prices, \<open>behind k\<close>, are a parameter.
\<close>

section \<open>The seeded engine\<close>

definition kSymbols :: nat where "kSymbols = 64"
definition kOrdersPerSide :: nat where "kOrdersPerSide = 256"
definition kMid :: u32 where "kMid = 1000000"
definition kTick_bench :: u32 where "kTick_bench = 100"

record seeded =
  sd_engine :: engine
  sd_fifo :: "u64 list"
  sd_next_ref :: u64
  sd_draws :: nat

definition bench_price :: "(nat \<Rightarrow> u32) \<Rightarrow> u8 \<Rightarrow> nat \<Rightarrow> u32" where
  "bench_price behind side k = (let d = kTick_bench * (1 + behind k) in if side = of_char CHR ''B'' then kMid - d else kMid + d)"

definition seeded_add :: "(nat \<Rightarrow> bool) \<Rightarrow> isa \<Rightarrow> (nat \<Rightarrow> u32) \<Rightarrow> u16 \<Rightarrow> u8 \<Rightarrow> seeded \<Rightarrow> seeded option" where
  "seeded_add alloc b behind symb side S = do {
     (e, _) \<leftarrow> eng_add alloc b (sd_engine S) symb (sd_next_ref S) side 100 (bench_price behind side (sd_draws S));
     Some (S\<lparr>sd_engine := e, sd_fifo := sd_fifo S @ [sd_next_ref S], sd_next_ref := sd_next_ref S + 1, sd_draws := sd_draws S + 1\<rparr>) }"

definition new_seeded :: "(nat \<Rightarrow> bool) \<Rightarrow> isa \<Rightarrow> (nat \<Rightarrow> u32) \<Rightarrow> seeded option" where
  "new_seeded alloc b behind = do {
     e \<leftarrow> new_engine alloc b (2 ^ 20);
     foldO (\<lambda>s. foldO (\<lambda>_ S. do {
         S1 \<leftarrow> seeded_add alloc b behind (of_nat s) (of_char CHR ''B'') S;
         seeded_add alloc b behind (of_nat s) (of_char CHR ''S'') S1 }) [0..<kOrdersPerSide]) [1..<kSymbols + 1]
       \<lparr>sd_engine = e, sd_fifo = [], sd_next_ref = 1, sd_draws = 0\<rparr> }"

section \<open>The three loops\<close>

definition odd_side :: "u64 \<Rightarrow> u8" where
  "odd_side ref = (if ref AND 1 \<noteq> 0 then of_char CHR ''B'' else of_char CHR ''S'')"

text \<open>\<open>front\<close> of an empty queue is undefined.\<close>

definition add_then_delete :: "(nat \<Rightarrow> bool) \<Rightarrow> isa \<Rightarrow> (nat \<Rightarrow> u32) \<Rightarrow> seeded \<times> u16 \<Rightarrow> (seeded \<times> u16) option" where
  "add_then_delete alloc b behind = (\<lambda>(S, symb). do {
     S1 \<leftarrow> seeded_add alloc b behind symb (odd_side (sd_next_ref S)) S;
     oldest \<leftarrow> elem_at (sd_fifo S1) 0;
     (e, _) \<leftarrow> eng_remove b (sd_engine S1) oldest;
     Some (S1\<lparr>sd_engine := e, sd_fifo := tl (sd_fifo S1)\<rparr>, symb mod of_nat kSymbols + 1) })"

definition bm_add_then_delete :: "(nat \<Rightarrow> bool) \<Rightarrow> isa \<Rightarrow> (nat \<Rightarrow> u32) \<Rightarrow> nat \<Rightarrow> (seeded \<times> u16) option" where
  "bm_add_then_delete alloc b behind iterations = do {
     S \<leftarrow> new_seeded alloc b behind;
     foldO (\<lambda>_. add_then_delete alloc b behind) [0..<iterations] (S, 1) }"

definition replace_one :: "(nat \<Rightarrow> bool) \<Rightarrow> isa \<Rightarrow> (nat \<Rightarrow> u32) \<Rightarrow> seeded \<Rightarrow> seeded option" where
  "replace_one alloc b behind S = do {
     old_ref \<leftarrow> elem_at (sd_fifo S) 0;
     let new_ref = sd_next_ref S;
     (e, _) \<leftarrow> eng_replace alloc b (sd_engine S) old_ref new_ref 200 (bench_price behind (odd_side new_ref) (sd_draws S));
     Some (S\<lparr>sd_engine := e, sd_fifo := tl (sd_fifo S) @ [new_ref], sd_next_ref := new_ref + 1, sd_draws := sd_draws S + 1\<rparr>) }"

definition bm_replace :: "(nat \<Rightarrow> bool) \<Rightarrow> isa \<Rightarrow> (nat \<Rightarrow> u32) \<Rightarrow> nat \<Rightarrow> seeded option" where
  "bm_replace alloc b behind iterations = do {
     S \<leftarrow> new_seeded alloc b behind;
     foldO (\<lambda>_. replace_one alloc b behind) [0..<iterations] S }"

definition partial_refs :: "u64 list" where
  "partial_refs = map (\<lambda>k. of_nat k + 1) [0..<4096]"

definition partial_setup :: "(nat \<Rightarrow> bool) \<Rightarrow> isa \<Rightarrow> engine option" where
  "partial_setup alloc b = do {
     e \<leftarrow> new_engine alloc b (2 ^ 16);
     foldO (\<lambda>r e. map_option fst (eng_add alloc b e (1 + ucast (r mod of_nat kSymbols)) r (of_char CHR ''B'') 1000000000
         (kMid - kTick_bench * ucast (r mod 32)))) partial_refs e }"

text \<open>One share of one order per iteration, the orders in turn.\<close>

definition bm_partial_execute :: "(nat \<Rightarrow> bool) \<Rightarrow> isa \<Rightarrow> nat \<Rightarrow> (engine \<times> nat) option" where
  "bm_partial_execute alloc b iterations = do {
     e \<leftarrow> partial_setup alloc b;
     foldO (\<lambda>_ (e, i). do {
         ref \<leftarrow> elem_at partial_refs i;
         (e', _) \<leftarrow> eng_reduce b e ref 1;
         Some (e', (i + 1) AND 4095) }) [0..<iterations] (e, 0) }"

section \<open>A consistent event keeps an engine sound\<close>

definition sound :: "isa \<Rightarrow> (u64 \<rightharpoonup> order) \<Rightarrow> engine \<Rightarrow> bool" where
  "sound b M e \<longleftrightarrow> eng_inv b e \<and> bounded e \<and> eng_map e = M \<and> unknown_ref e = 0 \<and> overfill e = 0 \<and> missing_level e = 0"

lemma sound_step:
  assumes "sound b M e" "consistent ev M" "card (dom M) < 2 ^ 31"
  shows "\<exists>e' u. apply_event every_size b ev e = Some (e', u) \<and> sound b (abs_event ev M) e'"
proof -
  have e: "eng_inv b e" "bounded e" "eng_map e = M" using assms(1) by (simp_all add: sound_def)
  have c: "admissible ev (eng_map e)" "\<not> unknown ev M" "\<not> overfills ev M" using consistent_facts [OF assms(2)] e(3) by simp_all
  obtain e' u where a: "apply_event every_size b ev e = Some (e', u)" using event_never_fails [OF e(1,2) c(1)] assms(3) e(3) by fastforce
  have "event_ok b ev e e' u" by (rule event_step [OF e(1) c(1) a])
  then have "sound b (abs_event ev M) e'" using c(2,3) assms(1) event_bounded [OF e(1,2) a] by (simp add: sound_def event_ok_def)
  then show ?thesis using a by blast
qed

lemma sound_new:
  assumes "n \<le> 2 ^ 32"
  shows "\<exists>e. new_engine every_size b n = Some e \<and> sound b Map.empty e"
proof -
  obtain e where e: "new_engine every_size b n = Some e" "bounded e" using new_engine_bounded [OF assms] by blast
  have "unknown_ref e = 0" "overfill e = 0" using e(1) by (auto simp: new_engine_def bind_eq_Some_conv split: if_splits)
  then show ?thesis using e new_engine_spec [OF e(1)] by (simp add: sound_def)
qed

section \<open>The queue holds the live references\<close>

definition seeded_inv :: "isa \<Rightarrow> nat \<Rightarrow> nat \<Rightarrow> seeded \<Rightarrow> bool" where
  "seeded_inv b lo hi S \<longleftrightarrow> (\<exists>M. sound b M (sd_engine S) \<and> dom M = set (sd_fifo S)) \<and> sd_fifo S = map of_nat [lo..<hi] \<and> sd_next_ref S = of_nat hi"

lemma seeded_invI:
  "dom M = of_nat ` {lo..<hi} \<Longrightarrow> sound b M (sd_engine S) \<Longrightarrow> sd_fifo S = map of_nat [lo..<hi] \<Longrightarrow> sd_next_ref S = of_nat hi \<Longrightarrow>
   seeded_inv b lo hi S"
  unfolding seeded_inv_def by (intro conjI exI [of _ M]) (simp_all del: upt_Suc)

lemma of_nat64: "x < 2 ^ 64 \<Longrightarrow> y < 2 ^ 64 \<Longrightarrow> (of_nat x :: u64) = of_nat y \<longleftrightarrow> x = y"
  by (simp add: word_unat_eq_iff unat_of_nat)

lemma card_fifo: "dom M = set (map of_nat [lo..<hi] :: u64 list) \<Longrightarrow> card (dom M) \<le> hi - lo"
  using card_length [of "map of_nat [lo..<hi] :: u64 list"] by simp

lemma fresh: "hi < 2 ^ 64 \<Longrightarrow> (of_nat hi :: u64) \<notin> of_nat ` {lo..<hi}"
  using of_nat64 by force

lemma seeded_add_step:
  assumes "seeded_inv b lo hi S" "lo \<le> hi" "hi < 2 ^ 64" "hi - lo < 2 ^ 31"
  shows "\<exists>S'. seeded_add every_size b behind symb side S = Some S' \<and> seeded_inv b lo (Suc hi) S'"
proof -
  obtain M where M: "sound b M (sd_engine S)" "dom M = set (sd_fifo S)" "sd_fifo S = map of_nat [lo..<hi]" "sd_next_ref S = of_nat hi"
    using assms(1) by (auto simp: seeded_inv_def)
  let ?ev = "Add symb (of_nat hi) side 100 (bench_price behind side (sd_draws S))"
  have card: "card (dom M) < 2 ^ 31" using card_fifo [of M lo hi] M(2,3) assms(4) by simp
  have "M (of_nat hi) = None" using fresh [OF assms(3), of lo] M(2,3) by (auto simp: domIff)
  then have "consistent ?ev M" using card by simp
  from sound_step [OF M(1) this card] obtain e u where e: "eng_add every_size b (sd_engine S) symb (of_nat hi) side 100 (bench_price behind side (sd_draws S)) = Some (e, u)"
    "sound b (abs_event ?ev M) e" by auto
  have "dom (abs_event ?ev M) = insert (of_nat hi) (set (sd_fifo S))" using M(2) by simp
  then show ?thesis using e M(3,4) assms(2) by (auto simp: seeded_add_def seeded_inv_def intro!: exI [of _ "abs_event ?ev M"])
qed

lemma seeds: "\<exists>S. new_seeded every_size b behind = Some S \<and> seeded_inv b 1 32769 S"
proof -
  obtain e where e: "new_engine every_size b (2 ^ 20) = Some e" "sound b Map.empty e" using sound_new [of "2 ^ 20" b] by auto
  let ?S = "\<lparr>sd_engine = e, sd_fifo = [], sd_next_ref = 1, sd_draws = 0\<rparr>"
  let ?one = "\<lambda>s S. do { S1 \<leftarrow> seeded_add every_size b behind (of_nat s) (of_char CHR ''B'') S; seeded_add every_size b behind (of_nat s) (of_char CHR ''S'') S1 }"
  have two: "\<exists>S'. ?one s S = Some S' \<and> seeded_inv b 1 (hi + 2) S'" if S: "seeded_inv b 1 hi S" "1 \<le> hi" "hi < 2 ^ 30" for hi s S
  proof -
    have h: "hi < 2 ^ 64" "hi - 1 < 2 ^ 31" "1 \<le> Suc hi" "Suc hi < 2 ^ 64" "Suc hi - 1 < 2 ^ 31" using S(3) by simp_all
    obtain S1 where S1: "seeded_add every_size b behind (of_nat s) (of_char CHR ''B'') S = Some S1" "seeded_inv b 1 (Suc hi) S1"
      using seeded_add_step [OF S(1,2) h(1,2), of behind "of_nat s" "of_char CHR ''B''"] by blast
    then show ?thesis using seeded_add_step [OF S1(2) h(3-5), of behind "of_nat s" "of_char CHR ''S''"] by auto
  qed
  have side: "\<exists>S'. foldO (\<lambda>_. ?one s) [0..<n] S = Some S' \<and> seeded_inv b 1 (hi + 2 * n) S'" if "seeded_inv b 1 hi S" "1 \<le> hi" "hi + 2 * n < 2 ^ 30" for hi s n S
    using that(3)
  proof (induction n)
    case (Suc n)
    then obtain S1 where S1: "foldO (\<lambda>_. ?one s) [0..<n] S = Some S1" "seeded_inv b 1 (hi + 2 * n) S1" by auto
    have "hi + 2 * n < 2 ^ 30" "1 \<le> hi + 2 * n" using Suc.prems that(2) by simp_all
    from two [OF S1(2) this(2,1), of s] show ?case using S1(1) by (auto simp: foldO_snoc add.assoc)
  qed (use that(1) in simp)
  have "\<exists>S'. foldO (\<lambda>s. foldO (\<lambda>_. ?one s) [0..<kOrdersPerSide]) [1..<Suc n] ?S = Some S' \<and> seeded_inv b 1 (1 + 512 * n) S'" if "n \<le> 64" for n
    using that
  proof (induction n)
    case 0
    then show ?case using e(2) by (auto simp: seeded_inv_def)
  next
    case (Suc n)
    then obtain S1 where S1: "foldO (\<lambda>s. foldO (\<lambda>_. ?one s) [0..<kOrdersPerSide]) [1..<Suc n] ?S = Some S1" "seeded_inv b 1 (1 + 512 * n) S1" by auto
    have "1 + 512 * n + 2 * kOrdersPerSide < 2 ^ 30" using Suc.prems by (simp add: kOrdersPerSide_def)
    from side [OF S1(2) _ this, of "Suc n"] obtain S2 where "foldO (\<lambda>_. ?one (Suc n)) [0..<kOrdersPerSide] S1 = Some S2" "seeded_inv b 1 (1 + 512 * n + 2 * kOrdersPerSide) S2" by auto
    moreover have "[1..<Suc (Suc n)] = [1..<Suc n] @ [Suc n]" by simp
    ultimately show ?case using S1(1) by (simp only: foldO_snoc) (simp add: kOrdersPerSide_def)
  qed
  from this [of 64] show ?thesis using e(1) by (simp add: new_seeded_def kSymbols_def)
qed

lemma fifo_front:
  assumes "seeded_inv b lo hi S" "lo < hi"
  shows "elem_at (sd_fifo S) 0 = Some (of_nat lo)" "tl (sd_fifo S) = map of_nat [Suc lo..<hi]"
  using assms by (simp_all add: seeded_inv_def elem_at_def upt_conv_Cons)

lemma set_fifo: "lo < hi \<Longrightarrow> hi \<le> 2 ^ 64 \<Longrightarrow> (of_nat ` {lo..<hi} :: u64 set) - {of_nat lo} = of_nat ` {Suc lo..<hi}"
proof -
  assume a: "lo < hi" "hi \<le> 2 ^ 64"
  then have "{lo..<hi} = insert lo {Suc lo..<hi}" by auto
  moreover have "(of_nat lo :: u64) \<notin> of_nat ` {Suc lo..<hi}" using a of_nat64 by force
  ultimately show ?thesis by auto
qed

lemma add_then_delete_step:
  assumes "seeded_inv b lo hi S" "lo < hi" "Suc hi < 2 ^ 64" "hi - lo < 2 ^ 30"
  shows "\<exists>S' symb'. add_then_delete every_size b behind (S, symb) = Some (S', symb') \<and> seeded_inv b (Suc lo) (Suc hi) S'"
proof -
  obtain S1 where S1: "seeded_add every_size b behind symb (odd_side (sd_next_ref S)) S = Some S1" "seeded_inv b lo (Suc hi) S1"
    using seeded_add_step [OF assms(1), of behind symb "odd_side (sd_next_ref S)"] assms(2-4) by auto
  have lt: "lo < Suc hi" using assms(2) by simp
  note front = fifo_front [OF S1(2) lt]
  obtain M where M: "sound b M (sd_engine S1)" "dom M = of_nat ` {lo..<Suc hi}" "sd_next_ref S1 = of_nat (Suc hi)"
    using S1(2) by (auto simp: seeded_inv_def simp del: upt_Suc)
  have card: "card (dom M) < 2 ^ 31" using card_fifo [of M lo "Suc hi"] M(2) assms(2,4) by (simp del: upt_Suc)
  have "of_nat lo \<in> dom M" unfolding M(2) using lt by auto
  then have "consistent (Remove (of_nat lo)) M" by (auto simp: domIff)
  from sound_step [OF M(1) this card] obtain e u where e: "eng_remove b (sd_engine S1) (of_nat lo) = Some (e, u)" "sound b (M(of_nat lo := None)) e" by auto
  have "dom (M(of_nat lo := None)) = of_nat ` {Suc lo..<Suc hi}" using set_fifo [OF lt] assms(3) M(2) by simp
  then have "seeded_inv b (Suc lo) (Suc hi) (S1\<lparr>sd_engine := e, sd_fifo := tl (sd_fifo S1)\<rparr>)"
    by (intro seeded_invI [of "M(of_nat lo := None)"]) (use e(2) front(2) M(3) in \<open>simp_all del: upt_Suc\<close>)
  then show ?thesis using S1(1) front(1) e(1) by (simp add: add_then_delete_def)
qed

lemma replace_step:
  assumes "seeded_inv b lo hi S" "lo < hi" "Suc hi < 2 ^ 64" "hi - lo < 2 ^ 30"
  shows "\<exists>S'. replace_one every_size b behind S = Some S' \<and> seeded_inv b (Suc lo) (Suc hi) S'"
proof -
  note front = fifo_front [OF assms(1,2)]
  obtain M where M: "sound b M (sd_engine S)" "dom M = of_nat ` {lo..<hi}" "sd_next_ref S = of_nat hi"
    using assms(1) by (auto simp: seeded_inv_def)
  have card: "card (dom M) < 2 ^ 31" using card_fifo [of M lo hi] M(2) assms(2,4) by simp
  let ?price = "bench_price behind (odd_side (of_nat hi)) (sd_draws S)"
  let ?ev = "Replace (of_nat lo) (of_nat hi) 200 ?price"
  have "of_nat lo \<in> dom M" unfolding M(2) using assms(2) by auto
  then obtain ord where ord: "M (of_nat lo) = Some ord" by blast
  have "M (of_nat hi) = None" using fresh [of hi lo] assms(3) M(2) by (auto simp: domIff)
  then have "consistent ?ev M" using ord by simp
  from sound_step [OF M(1) this card] obtain e u where e: "eng_replace every_size b (sd_engine S) (of_nat lo) (of_nat hi) 200 ?price = Some (e, u)"
    "sound b (abs_event ?ev M) e" by auto
  have "dom (abs_event ?ev M) = insert (of_nat hi) (dom M - {of_nat lo})" by (auto simp: abs_replace_def ord)
  also have "\<dots> = of_nat ` {Suc lo..<Suc hi}"
  proof -
    have "{Suc lo..<Suc hi} = insert hi {Suc lo..<hi}" using assms(2) by auto
    then show ?thesis using set_fifo [OF assms(2)] assms(3) by (simp add: M(2))
  qed
  finally have "dom (abs_event ?ev M) = of_nat ` {Suc lo..<Suc hi}" .
  moreover have "tl (sd_fifo S) @ [of_nat hi] = map of_nat [Suc lo..<Suc hi]" using front(2) assms(2) by simp
  ultimately have "seeded_inv b (Suc lo) (Suc hi) (S\<lparr>sd_engine := e, sd_fifo := tl (sd_fifo S) @ [of_nat hi], sd_next_ref := of_nat hi + 1, sd_draws := sd_draws S + 1\<rparr>)"
    by (intro seeded_invI [of "abs_event ?ev M"]) (use e(2) in \<open>simp_all add: add.commute del: upt_Suc abs_event.simps\<close>)
  then show ?thesis using front(1) e(1) M(3) by (simp add: replace_one_def Let_def)
qed

lemma add_then_delete_runs:
  assumes "iterations + 32769 < 2 ^ 64"
  shows "\<exists>S symb. bm_add_then_delete every_size b behind iterations = Some (S, symb) \<and> seeded_inv b (1 + iterations) (32769 + iterations) S"
proof -
  obtain S0 where S0: "new_seeded every_size b behind = Some S0" "seeded_inv b 1 32769 S0" using seeds by blast
  have "\<exists>S symb. foldO (\<lambda>_. add_then_delete every_size b behind) [0..<n] (S0, 1) = Some (S, symb) \<and> seeded_inv b (1 + n) (32769 + n) S" if "n \<le> iterations" for n
    using that
  proof (induction n)
    case (Suc n)
    then obtain S symb where S: "foldO (\<lambda>_. add_then_delete every_size b behind) [0..<n] (S0, 1) = Some (S, symb)" "seeded_inv b (1 + n) (32769 + n) S" by auto
    from add_then_delete_step [OF S(2), of behind symb] Suc.prems assms show ?case using S(1) by (auto simp: foldO_snoc)
  qed (use S0(2) in simp)
  then show ?thesis using S0(1) by (simp add: bm_add_then_delete_def)
qed

lemma replace_runs:
  assumes "iterations + 32769 < 2 ^ 64"
  shows "\<exists>S. bm_replace every_size b behind iterations = Some S \<and> seeded_inv b (1 + iterations) (32769 + iterations) S"
proof -
  obtain S0 where S0: "new_seeded every_size b behind = Some S0" "seeded_inv b 1 32769 S0" using seeds by blast
  have "\<exists>S. foldO (\<lambda>_. replace_one every_size b behind) [0..<n] S0 = Some S \<and> seeded_inv b (1 + n) (32769 + n) S" if "n \<le> iterations" for n
    using that
  proof (induction n)
    case (Suc n)
    then obtain S where S: "foldO (\<lambda>_. replace_one every_size b behind) [0..<n] S0 = Some S" "seeded_inv b (1 + n) (32769 + n) S" by auto
    from replace_step [OF S(2), of behind] Suc.prems assms show ?case using S(1) by (auto simp: foldO_snoc)
  qed (use S0(2) in simp)
  then show ?thesis using S0(1) by (simp add: bm_replace_def)
qed

text \<open>
  The loops that add and delete, and that replace, never fail, whatever the prices, and their live orders are always those of the last 32768 references that were given
  out, the ones that the queue holds in this order: no reference is unknown, no level missing. So every iteration measures the operation that it names on a book of the same size.
\<close>

theorem engine_benchmarks_steady:
  assumes "iterations + 32769 < 2 ^ 64"
  defines "live \<equiv> map of_nat [1 + iterations..<32769 + iterations]"
  shows "(\<exists>S loc. bm_add_then_delete every_size b behind iterations = Some (S, loc) \<and> sd_fifo S = live \<and> dom (eng_map (sd_engine S)) = set live \<and>
      unknown_ref (sd_engine S) = 0 \<and> missing_level (sd_engine S) = 0) \<and>
    (\<exists>S. bm_replace every_size b behind iterations = Some S \<and> sd_fifo S = live \<and> dom (eng_map (sd_engine S)) = set live \<and>
      unknown_ref (sd_engine S) = 0 \<and> missing_level (sd_engine S) = 0)"
proof -
  have "sd_fifo S = live \<and> dom (eng_map (sd_engine S)) = set live \<and> unknown_ref (sd_engine S) = 0 \<and> missing_level (sd_engine S) = 0"
    if "seeded_inv b (1 + iterations) (32769 + iterations) S" for S
    using that by (auto simp: seeded_inv_def sound_def live_def)
  then show ?thesis using add_then_delete_runs [OF assms(1), of b behind] replace_runs [OF assms(1), of b behind] by meson
qed

theorem engine_benchmarks_steady_witness:
  "\<exists>S. bm_replace every_size Have_AVX2 (\<lambda>_. 0) 100000 = Some S \<and> unknown_ref (sd_engine S) = 0 \<and> missing_level (sd_engine S) = 0"
proof -
  have n: "100000 + 32769 < (2 :: nat) ^ 64" by simp
  show ?thesis using conjunct2 [OF engine_benchmarks_steady [OF n, of Have_AVX2 "\<lambda>_. 0"]] by blast
qed

section \<open>Partial executions\<close>

definition partial_hits :: "nat \<Rightarrow> nat \<Rightarrow> nat" where
  "partial_hits n k = n div 4096 + (if k < n mod 4096 then 1 else 0)"

definition partial_inv :: "isa \<Rightarrow> nat \<Rightarrow> engine \<Rightarrow> bool" where
  "partial_inv b n e \<longleftrightarrow> (\<exists>M. sound b M e \<and> dom M = set partial_refs \<and>
     (\<forall>k<4096. \<exists>ord. M (of_nat (Suc k)) = Some ord \<and> unat (o_shares ord) = 1000000000 - partial_hits n k))"

lemma ref_eq: "k < 2 ^ 30 \<Longrightarrow> j < 2 ^ 30 \<Longrightarrow> (of_nat (Suc k) :: u64) = of_nat (Suc j) \<longleftrightarrow> k = j"
  using of_nat64 [of "Suc k" "Suc j"] by simp

lemma partial_refs_eq: "partial_refs = map (\<lambda>k. of_nat (Suc k)) [0..<4096]"
  by (simp add: partial_refs_def add.commute)

lemma partial_card: "dom M = set partial_refs \<Longrightarrow> card (dom M) < 2 ^ 31"
  using card_length [of partial_refs] by (simp add: partial_refs_def)

lemma partial_sets_up: "\<exists>e. partial_setup every_size b = Some e \<and> partial_inv b 0 e"
proof -
  obtain e where e: "new_engine every_size b (2 ^ 16) = Some e" "sound b Map.empty e" using sound_new [of "2 ^ 16" b] by auto
  let ?add = "\<lambda>r e. map_option fst (eng_add every_size b e (1 + ucast (r mod of_nat kSymbols)) r (of_char CHR ''B'') 1000000000 (kMid - kTick_bench * ucast (r mod 32)))"
  have "\<exists>e'. foldO ?add (map (\<lambda>k. of_nat (Suc k)) [0..<n]) e = Some e' \<and>
      (\<exists>M. sound b M e' \<and> dom M = set (map (\<lambda>k. of_nat (Suc k)) [0..<n]) \<and> (\<forall>k<n. \<exists>ord. M (of_nat (Suc k)) = Some ord \<and> unat (o_shares ord) = 1000000000))"
    if "n \<le> 4096" for n
    using that
  proof (induction n)
    case 0
    then show ?case using e(2) by auto
  next
    case (Suc n)
    then obtain e1 M where M: "foldO ?add (map (\<lambda>k. of_nat (Suc k)) [0..<n]) e = Some e1" "sound b M e1" "dom M = set (map (\<lambda>k. of_nat (Suc k)) [0..<n])"
      "\<forall>k<n. \<exists>ord. M (of_nat (Suc k)) = Some ord \<and> unat (o_shares ord) = 1000000000" by auto
    let ?r = "of_nat (Suc n) :: u64"
    let ?ev = "Add (1 + ucast (?r mod of_nat kSymbols)) ?r (of_char CHR ''B'') 1000000000 (kMid - kTick_bench * ucast (?r mod 32))"
    have card: "card (dom M) \<le> n" using card_length [of "map (\<lambda>k. of_nat (Suc k)) [0..<n] :: u64 list"] by (simp only: M(3) length_map length_upt)
    have ne: "(of_nat (Suc k) :: u64) \<noteq> ?r" if "k < n" for k using ref_eq [of k n] that Suc.prems by simp
    then have "?r \<notin> dom M" unfolding M(3) by fastforce
    then have "consistent ?ev M" using card Suc.prems by (auto simp: domIff simp del: of_nat_Suc)
    from sound_step [OF M(2) this] obtain e2 where e2: "?add ?r e1 = Some e2" "sound b (abs_event ?ev M) e2" using card Suc.prems by auto
    have "\<forall>k<Suc n. \<exists>ord. abs_event ?ev M (of_nat (Suc k)) = Some ord \<and> unat (o_shares ord) = 1000000000"
      using M(4) ne by (auto simp: less_Suc_eq new_order_def simp del: of_nat_Suc)
    moreover have "dom (abs_event ?ev M) = set (map (\<lambda>k. of_nat (Suc k)) [0..<Suc n])" using M(3) by (simp del: of_nat_Suc)
    moreover have "foldO ?add (map (\<lambda>k. of_nat (Suc k)) [0..<Suc n]) e = Some e2" using M(1) e2(1) by (simp add: foldO_snoc del: of_nat_Suc)
    ultimately show ?case using e2(2) by blast
  qed
  from this [of 4096] show ?thesis using e(1) by (simp add: partial_setup_def partial_inv_def partial_refs_eq partial_hits_def del: upt_Suc of_nat_Suc)
qed

lemma partial_hits_Suc:
  assumes "k < 4096"
  shows "partial_hits (Suc n) k = partial_hits n k + (if k = n mod 4096 then 1 else 0)"
  using assms by (auto simp: partial_hits_def div_Suc mod_Suc)

lemma partial_step:
  assumes "partial_inv b n e" "n < 4096 * 999999999"
  shows "\<exists>e' u. eng_reduce b e (of_nat (Suc (n mod 4096))) 1 = Some (e', u) \<and> partial_inv b (Suc n) e'"
proof -
  obtain M where M: "sound b M e" "dom M = set partial_refs" "\<forall>k<4096. \<exists>ord. M (of_nat (Suc k)) = Some ord \<and> unat (o_shares ord) = 1000000000 - partial_hits n k"
    using assms(1) by (auto simp: partial_inv_def)
  define i where "i = n mod 4096"
  have i: "i < 4096" by (simp add: i_def)
  obtain ord where ord: "M (of_nat (Suc i)) = Some ord" "unat (o_shares ord) = 1000000000 - partial_hits n i" using M(3) i by blast
  have "n div 4096 < 999999999" using assms(2) by (intro less_mult_imp_div_less) (simp add: mult.commute)
  then have "partial_hits n i < 999999999" by (simp add: partial_hits_def i_def)
  then have sh: "1 < unat (o_shares ord)" using ord(2) by simp
  then have "1 \<le> o_shares ord" "o_shares ord \<noteq> 1" "\<not> o_shares ord < 1" by (auto simp: word_le_nat_alt word_less_nat_alt)
  then have c: "consistent (Reduce (of_nat (Suc i)) 1) M" "fill ord 1 = 1" using ord(1) by (simp_all add: fill_def del: of_nat_Suc)
  let ?M = "M(of_nat (Suc i) \<mapsto> ord\<lparr>o_shares := o_shares ord - 1\<rparr>)"
  have "abs_event (Reduce (of_nat (Suc i)) 1) M = ?M" using ord(1) c(2) \<open>o_shares ord \<noteq> 1\<close> by (auto simp: abs_reduce_def simp del: of_nat_Suc)
  then obtain e' u where e: "eng_reduce b e (of_nat (Suc i)) 1 = Some (e', u)" "sound b ?M e'" using sound_step [OF M(1) c(1) partial_card [OF M(2)]] by auto
  have "unat (o_shares ord - 1) = unat (o_shares ord) - 1" using \<open>1 \<le> o_shares ord\<close> by (simp add: unat_sub)
  then have "\<exists>ord. ?M (of_nat (Suc k)) = Some ord \<and> unat (o_shares ord) = 1000000000 - partial_hits (Suc n) k" if "k < 4096" for k
    using M(3) that ord(2) partial_hits_Suc [OF that, of n] ref_eq [of k i] i by (cases "k = i") (simp_all add: i_def [symmetric] del: of_nat_Suc)
  moreover have "dom ?M = set partial_refs" using M(2) ord(1) by (auto simp del: of_nat_Suc)
  ultimately show ?thesis using e unfolding partial_inv_def i_def by blast
qed

lemma next_index: "((i :: nat) + 1) AND 4095 = Suc i mod 4096"
  using take_bit_eq_mask [of 12 "i + 1"] by (simp add: take_bit_eq_mod mask_eq_exp_minus_1)

text \<open>
  As long as every order can be executed as often as it is asked for, an iteration executes one share of one order: after n iterations the order with reference k + 1 has lost
  one share for every m below n with m mod 4096 = k, and all 4096 orders still rest. No reference is unknown, no quantity too large, no level missing.
\<close>

theorem partial_executions_exact:
  assumes "iterations \<le> 4096 * 999999999"
  shows "\<exists>e i. bm_partial_execute every_size b iterations = Some (e, i) \<and> i = iterations mod 4096 \<and> dom (eng_map e) = set partial_refs \<and>
    unknown_ref e = 0 \<and> overfill e = 0 \<and> missing_level e = 0 \<and>
    (\<forall>k<4096. \<exists>ord. eng_map e (of_nat (Suc k)) = Some ord \<and> unat (o_shares ord) = 1000000000 - card {m. m < iterations \<and> m mod 4096 = k})"
proof -
  obtain e0 where e0: "partial_setup every_size b = Some e0" "partial_inv b 0 e0" using partial_sets_up by blast
  have run: "\<exists>e. foldO (\<lambda>_ (e, i). do { ref \<leftarrow> elem_at partial_refs i; (e', _) \<leftarrow> eng_reduce b e ref 1; Some (e', (i + 1) AND 4095) }) [0..<n] (e0, 0) = Some (e, n mod 4096) \<and>
      partial_inv b n e" if "n \<le> iterations" for n
    using that
  proof (induction n)
    case (Suc n)
    then obtain e where e: "foldO (\<lambda>_ (e, i). do { ref \<leftarrow> elem_at partial_refs i; (e', _) \<leftarrow> eng_reduce b e ref 1; Some (e', (i + 1) AND 4095) }) [0..<n] (e0, 0) = Some (e, n mod 4096)"
      "partial_inv b n e" by auto
    have "elem_at partial_refs (n mod 4096) = Some (of_nat (Suc (n mod 4096)))" by (simp add: elem_at_def partial_refs_eq del: upt_Suc of_nat_Suc)
    moreover have "n < 4096 * 999999999" using Suc.prems assms by simp
    ultimately show ?case using partial_step [OF e(2)] e(1) next_index [of "n mod 4096"] by (auto simp: foldO_snoc mod_Suc_eq simp del: of_nat_Suc)
  qed (use e0(2) in simp)
  have hits: "partial_hits n k = card {m. m < n \<and> m mod 4096 = k}" if "k < 4096" for n k
  proof (induction n)
    case (Suc n)
    have "{m. m < Suc n \<and> m mod 4096 = k} = (if k = n mod 4096 then insert n {m. m < n \<and> m mod 4096 = k} else {m. m < n \<and> m mod 4096 = k})"
      by (auto simp: less_Suc_eq)
    then show ?case using Suc partial_hits_Suc [OF that, of n] by simp
  qed (use that in \<open>simp add: partial_hits_def\<close>)
  obtain e where e: "bm_partial_execute every_size b iterations = Some (e, iterations mod 4096)" "partial_inv b iterations e"
    using run [of iterations] e0(1) by (auto simp: bm_partial_execute_def)
  then show ?thesis by (auto simp: partial_inv_def sound_def hits)
qed

theorem partial_executions_exact_witness:
  "\<exists>e. bm_partial_execute every_size Have_AVX2 1000000 = Some (e, 576) \<and> overfill e = 0 \<and> card {m. m < (1000000 :: nat) \<and> m mod 4096 = 0} \<le> 1000000"
proof -
  have n: "1000000 \<le> 4096 * (999999999 :: nat)" "1000000 mod 4096 = (576 :: nat)" by simp_all
  have "{m. m < (1000000 :: nat) \<and> m mod 4096 = 0} \<subseteq> {..<1000000}" by auto
  from card_mono [OF _ this] have "card {m. m < (1000000 :: nat) \<and> m mod 4096 = 0} \<le> 1000000" by simp
  then show ?thesis using partial_executions_exact [OF n(1), of Have_AVX2] unfolding n(2) by blast
qed

end
